(* ===== verification/Prelude.thy ===== *)
theory Prelude
  imports Main "HOL-Library.Word" "HOL-Library.Multiset"
begin

text \<open>
  What the component theories share: the machine types of the C++ sources, the wrap-around of
  64-bit unsigned arithmetic on \<^typ>\<open>nat\<close>, the outcome type of code that can hit a
  \<^verbatim>\<open>CHECK\<close>, the named collections the component proofs draw on, and generic lemmas on
  lists and words.
\<close>

unbundle bit_operations_syntax

subsection \<open>Machine types\<close>

type_synonym u8 = "8 word"
type_synonym u16 = "16 word"
type_synonym u32 = "32 word"
type_synonym u64 = "64 word"
type_synonym bytes = "u8 list"

text \<open>
  \<^verbatim>\<open>size_t\<close> and \<^verbatim>\<open>uint64\<close> values that take part in arithmetic with addresses and
  list indices are natural numbers below \<open>2 ^ 64\<close>; every operation of the code that can
  leave that range is followed by \<open>wrap64\<close>.
\<close>

definition wrap64 :: "nat \<Rightarrow> nat" where
  "wrap64 n = n mod 2 ^ 64"

lemma wrap64_id [simp]: "n < 2 ^ 64 \<Longrightarrow> wrap64 n = n"
  by (simp add: wrap64_def)

lemma wrap64_less [simp]: "wrap64 n < 2 ^ 64"
  by (simp add: wrap64_def)

lemma wrap64_0 [simp]: "wrap64 0 = 0"
  by (simp add: wrap64_def)

subsection \<open>Outcomes\<close>

text \<open>
  \<^verbatim>\<open>CHECK\<close> and \<^verbatim>\<open>LOG(FATAL)\<close> end the process. An operation that contains one
  returns \<open>Abort\<close> on that branch and \<open>Done\<close> with its result otherwise.
\<close>

datatype 'a outcome = Abort | Done 'a

fun obind :: "'a outcome \<Rightarrow> ('a \<Rightarrow> 'b outcome) \<Rightarrow> 'b outcome" where
  "obind Abort f = Abort"
| "obind (Done x) f = f x"

lemma obind_Done_iff: "obind m f = Done y \<longleftrightarrow> (\<exists>x. m = Done x \<and> f x = Done y)"
  by (cases m) auto

text \<open>The codes of a \<^verbatim>\<open>Status\<close> that is not OK; messages are left out.\<close>

datatype status_error = Cancelled | InvalidArgument | Internal | NotFound | Other nat

subsection \<open>Lemma collections\<close>

named_theorems codec_simps \<open>rewriting for the byte encodings\<close>
named_theorems bfc_simps \<open>field and index rewriting for the BFC allocator\<close>
named_theorems sim_simps \<open>field rewriting for the co-location simulator\<close>

subsection \<open>Words\<close>

lemma ucast_and_255 [codec_simps]: "(ucast (x AND 255 :: 'a::len word) :: u8) = ucast x"
proof -
  have "x AND (255 :: 'a word) = take_bit 8 x"
    by (simp add: take_bit_eq_mask mask_eq_exp_minus_1)
  then show ?thesis by (simp only:) (auto intro!: bit_word_eqI simp: bit_simps)
qed

lemma ucast_ucast_8 [codec_simps]:
  "(ucast (ucast (x :: 'a::len word) :: u8) :: 'b::len word) = ucast (take_bit 8 x)"
  by (rule bit_word_eqI) (auto simp: bit_simps)

lemma and_127_take_bit: "x AND 127 = take_bit 7 (x :: 'a::len word)"
  by (simp add: take_bit_eq_mask mask_eq_exp_minus_1)

lemma and_128_eq_0: "x AND 128 = (0 :: 'a::len word) \<longleftrightarrow> \<not> bit x 7"
  using and_exp_eq_0_iff_not_bit [of x 7] by simp

lemma or_128_set_bit: "x OR 128 = set_bit 7 (x :: 'a::len word)"
  by (simp add: set_bit_eq_or)

text \<open>Neighbouring bit fields put back together.\<close>

lemma join_bits:
  "take_bit m v OR push_bit m (take_bit k (drop_bit m v)) = take_bit (m + k) (v :: 'a::len word)"
proof (rule bit_word_eqI)
  fix n
  assume "n < LENGTH('a)"
  then show "bit (take_bit m v OR push_bit m (take_bit k (drop_bit m v))) n
    = bit (take_bit (m + k) v) n"
    by (cases "n < m") (auto simp: bit_simps)
qed

lemma split_bits: "take_bit n v OR push_bit n (drop_bit n v) = (v :: 'a::len word)"
proof (rule bit_word_eqI)
  fix i
  assume "i < LENGTH('a)"
  then show "bit (take_bit n v OR push_bit n (drop_bit n v)) i = bit v i"
    by (cases "i < n") (auto simp: bit_simps)
qed

lemma unat_drop_bit_div: "unat (drop_bit n (v :: 'a::len word)) = unat v div 2 ^ n"
  by (simp only: unat_drop_bit_eq drop_bit_nat_def)

lemma unat_less_imp_take_bit:
  "unat (v :: 'a::len word) < 2 ^ n \<Longrightarrow> take_bit n v = v"
  by (simp add: word_unat_eq_iff unsigned_take_bit_eq take_bit_nat_eq_self)

subsection \<open>Floating point\<close>

text \<open>
  The operations on \<^verbatim>\<open>double\<close> that the simulator and the trace tools use, as a parameter of the model: what is proved for
  every \<open>F\<close> holds for the rounded operations of the hardware. \<open>d_int\<close> converts an \<^verbatim>\<open>int\<close>, \<open>d_trunc\<close>
  converts back, \<open>d_eps\<close> is the literal \<^verbatim>\<open>0.00001\<close>.
\<close>

record 'd dops =
  d_add :: "'d \<Rightarrow> 'd \<Rightarrow> 'd"
  d_sub :: "'d \<Rightarrow> 'd \<Rightarrow> 'd"
  d_mul :: "'d \<Rightarrow> 'd \<Rightarrow> 'd"
  d_div :: "'d \<Rightarrow> 'd \<Rightarrow> 'd"
  d_lt :: "'d \<Rightarrow> 'd \<Rightarrow> bool"
  d_le :: "'d \<Rightarrow> 'd \<Rightarrow> bool"
  d_eq :: "'d \<Rightarrow> 'd \<Rightarrow> bool"
  d_int :: "int \<Rightarrow> 'd"
  d_trunc :: "'d \<Rightarrow> int"
  d_eps :: 'd

end
