(* ===== verification/Coding.thy ===== *)
theory Coding
  imports Prelude
begin

text \<open>
  \<^verbatim>\<open>tensorflow/core/lib/core/coding.cc\<close> and \<^verbatim>\<open>raw_coding.h\<close>: fixed-width little-endian
  integers and variable-length integers (seven bits a byte, high bit set on every byte but the
  last). A buffer is a list of bytes; a routine that advances a pointer up to a limit returns the
  value and the bytes that are left, and \<^verbatim>\<open>nullptr\<close> is \<open>None\<close>.
\<close>

subsection \<open>Fixed-width integers\<close>

text \<open>
  Both branches of the endianness test store the bytes lowest first: the explicit stores do, and
  so does a raw copy on a little-endian machine.
\<close>

definition EncodeFixed16 :: "u16 \<Rightarrow> bytes" where
  "EncodeFixed16 value = [ucast (value AND 0xff), ucast (drop_bit 8 value AND 0xff)]"

definition EncodeFixed32 :: "u32 \<Rightarrow> bytes" where
  "EncodeFixed32 value =
     [ucast (value AND 0xff), ucast (drop_bit 8 value AND 0xff),
      ucast (drop_bit 16 value AND 0xff), ucast (drop_bit 24 value AND 0xff)]"

definition EncodeFixed64 :: "u64 \<Rightarrow> bytes" where
  "EncodeFixed64 value =
     [ucast (value AND 0xff), ucast (drop_bit 8 value AND 0xff),
      ucast (drop_bit 16 value AND 0xff), ucast (drop_bit 24 value AND 0xff),
      ucast (drop_bit 32 value AND 0xff), ucast (drop_bit 40 value AND 0xff),
      ucast (drop_bit 48 value AND 0xff), ucast (drop_bit 56 value AND 0xff)]"

definition PutFixed16 :: "bytes \<Rightarrow> u16 \<Rightarrow> bytes" where
  "PutFixed16 dst value = dst @ EncodeFixed16 value"

definition PutFixed32 :: "bytes \<Rightarrow> u32 \<Rightarrow> bytes" where
  "PutFixed32 dst value = dst @ EncodeFixed32 value"

definition PutFixed64 :: "bytes \<Rightarrow> u64 \<Rightarrow> bytes" where
  "PutFixed64 dst value = dst @ EncodeFixed64 value"

text \<open>
  The decoders read at fixed offsets with no bounds check; a buffer that is too short is an
  out-of-bounds read, which is \<open>None\<close> here.
\<close>

fun DecodeFixed16 :: "bytes \<Rightarrow> u16 option" where
  "DecodeFixed16 (b0 # b1 # _) = Some (ucast b0 OR push_bit 8 (ucast b1))"
| "DecodeFixed16 _ = None"

fun DecodeFixed32 :: "bytes \<Rightarrow> u32 option" where
  "DecodeFixed32 (b0 # b1 # b2 # b3 # _) =
     Some (ucast b0 OR push_bit 8 (ucast b1) OR push_bit 16 (ucast b2) OR push_bit 24 (ucast b3))"
| "DecodeFixed32 _ = None"

definition DecodeFixed64 :: "bytes \<Rightarrow> u64 option" where
  "DecodeFixed64 ptr =
     (case DecodeFixed32 ptr of None \<Rightarrow> None
      | Some lo \<Rightarrow>
        (case DecodeFixed32 (drop 4 ptr) of None \<Rightarrow> None
         | Some hi \<Rightarrow> Some (push_bit 32 (ucast hi) OR ucast lo)))"

subsection \<open>Variable-length integers: encoders\<close>

definition EncodeVarint32 :: "u32 \<Rightarrow> bytes" where
  "EncodeVarint32 v =
     (let B = 128 :: u32 in
      if v < push_bit 7 1 then [ucast v]
      else if v < push_bit 14 1 then [ucast (v OR B), ucast (drop_bit 7 v)]
      else if v < push_bit 21 1 then
        [ucast (v OR B), ucast (drop_bit 7 v OR B), ucast (drop_bit 14 v)]
      else if v < push_bit 28 1 then
        [ucast (v OR B), ucast (drop_bit 7 v OR B), ucast (drop_bit 14 v OR B),
         ucast (drop_bit 21 v)]
      else
        [ucast (v OR B), ucast (drop_bit 7 v OR B), ucast (drop_bit 14 v OR B),
         ucast (drop_bit 21 v OR B), ucast (drop_bit 28 v)])"

definition PutVarint32 :: "bytes \<Rightarrow> u32 \<Rightarrow> bytes" where
  "PutVarint32 dst v = dst @ EncodeVarint32 v"

text \<open>The loop of \<^verbatim>\<open>EncodeVarint64\<close>; \<open>v\<close> shrinks with every shift.\<close>

lemma drop_bit_7_less:
  assumes "\<not> v < (128 :: u64)"
  shows "unat (drop_bit 7 v) < unat v"
proof -
  from assms have "0 < unat v" by (simp add: word_less_nat_alt)
  moreover have "unat (drop_bit 7 v) = unat v div 2 ^ 7"
    by (simp only: unat_drop_bit_eq drop_bit_nat_def)
  ultimately show ?thesis by simp
qed

function EncodeVarint64 :: "u64 \<Rightarrow> bytes" where
  "EncodeVarint64 v =
     (if v < 128 then [ucast v]
      else ucast ((v AND 127) OR 128) # EncodeVarint64 (drop_bit 7 v))"
  by pat_completeness auto
termination
  by (relation "measure unat") (auto intro: drop_bit_7_less)

declare EncodeVarint64.simps [simp del]

definition PutVarint64 :: "bytes \<Rightarrow> u64 \<Rightarrow> bytes" where
  "PutVarint64 dst v = dst @ EncodeVarint64 v"

function VarintLength_loop :: "u64 \<Rightarrow> nat \<Rightarrow> nat" where
  "VarintLength_loop v len =
     (if v < 128 then len else VarintLength_loop (drop_bit 7 v) (len + 1))"
  by pat_completeness auto
termination
  by (relation "measure (\<lambda>(v, len). unat v)") (auto intro: drop_bit_7_less)

declare VarintLength_loop.simps [simp del]

definition VarintLength :: "u64 \<Rightarrow> nat" where
  "VarintLength v = VarintLength_loop v 1"

subsection \<open>Variable-length integers: decoders\<close>

fun GetVarint32PtrFallback_loop :: "nat \<Rightarrow> u32 \<Rightarrow> bytes \<Rightarrow> (u32 \<times> bytes) option" where
  "GetVarint32PtrFallback_loop shift result [] = None"
| "GetVarint32PtrFallback_loop shift result (b # p) =
     (if shift \<le> 28 then
        (let byte = ucast b :: u32 in
         if byte AND 128 \<noteq> 0
         then GetVarint32PtrFallback_loop (shift + 7) (result OR push_bit shift (byte AND 127)) p
         else Some (result OR push_bit shift byte, p))
      else None)"

definition GetVarint32PtrFallback :: "bytes \<Rightarrow> (u32 \<times> bytes) option" where
  "GetVarint32PtrFallback p = GetVarint32PtrFallback_loop 0 0 p"

definition GetVarint32Ptr :: "bytes \<Rightarrow> (u32 \<times> bytes) option" where
  "GetVarint32Ptr p =
     (case p of
        b # q \<Rightarrow> (let result = ucast b :: u32 in
                  if result AND 128 = 0 then Some (result, q) else GetVarint32PtrFallback p)
      | [] \<Rightarrow> GetVarint32PtrFallback p)"

text \<open>
  \<^verbatim>\<open>GetVarint32\<close> and \<^verbatim>\<open>GetVarint64\<close> replace \<open>input\<close> only on success: the result is the
  boolean, the value (when set) and the remaining input.
\<close>

definition GetVarint32 :: "bytes \<Rightarrow> bool \<times> u32 option \<times> bytes" where
  "GetVarint32 input =
     (case GetVarint32Ptr input of
        None \<Rightarrow> (False, None, input)
      | Some (value, q) \<Rightarrow> (True, Some value, q))"

fun GetVarint64Ptr_loop :: "nat \<Rightarrow> u64 \<Rightarrow> bytes \<Rightarrow> (u64 \<times> bytes) option" where
  "GetVarint64Ptr_loop shift result [] = None"
| "GetVarint64Ptr_loop shift result (b # p) =
     (if shift \<le> 63 then
        (let byte = ucast b :: u64 in
         if byte AND 128 \<noteq> 0
         then GetVarint64Ptr_loop (shift + 7) (result OR push_bit shift (byte AND 127)) p
         else Some (result OR push_bit shift byte, p))
      else None)"

definition GetVarint64Ptr :: "bytes \<Rightarrow> (u64 \<times> bytes) option" where
  "GetVarint64Ptr p = GetVarint64Ptr_loop 0 0 p"

definition GetVarint64 :: "bytes \<Rightarrow> bool \<times> u64 option \<times> bytes" where
  "GetVarint64 input =
     (case GetVarint64Ptr input of
        None \<Rightarrow> (False, None, input)
      | Some (value, q) \<Rightarrow> (True, Some value, q))"

subsection \<open>What a self-delimiting encoding promises\<close>

text \<open>
  The readers of the library (records, tables, ordered keys) lay encodings end to end. They rely
  on two laws: decoding an encoding followed by anything gives the value and what followed, and
  bytes after a complete encoding never change what is decoded.
\<close>

fun decode_seq :: "('b list \<Rightarrow> ('a \<times> 'b list) option) \<Rightarrow> nat \<Rightarrow> 'b list \<Rightarrow> ('a list \<times> 'b list) option"
where
  "decode_seq dec 0 bs = Some ([], bs)"
| "decode_seq dec (Suc n) bs =
     (case dec bs of None \<Rightarrow> None
      | Some (v, r) \<Rightarrow>
        (case decode_seq dec n r of None \<Rightarrow> None | Some (vs, r') \<Rightarrow> Some (v # vs, r')))"

locale prefix_codec =
  fixes enc :: "'a \<Rightarrow> 'b list"
    and dec :: "'b list \<Rightarrow> ('a \<times> 'b list) option"
  assumes dec_enc: "dec (enc v @ rest) = Some (v, rest)"
    and dec_append: "dec bs = Some (v, r) \<Longrightarrow> dec (bs @ ys) = Some (v, r @ ys)"
begin

lemma dec_enc_nil: "dec (enc v) = Some (v, [])"
  using dec_enc [of v "[]"] by simp

lemma enc_prefix_free: "enc v @ r = enc w @ s \<Longrightarrow> v = w \<and> r = s"
  by (metis dec_enc option.inject prod.inject)

lemma dec_truncated: 
  assumes "k < length (enc v)"
  shows "dec (take k (enc v)) = None"
proof (rule ccontr)
  assume "dec (take k (enc v)) \<noteq> None"
  then obtain w r where "dec (take k (enc v)) = Some (w, r)" by auto
  from dec_append [OF this, of "drop k (enc v)"] dec_enc_nil [of v]
  have "r @ drop k (enc v) = []" by (auto simp only: append_take_drop_id option.inject prod.inject)
  with assms show False by simp
qed

lemma decode_seq_enc:
  "decode_seq dec (length vs) (concat (map enc vs) @ rest) = Some (vs, rest)"
  by (induction vs) (simp_all add: dec_enc)

lemma concat_enc_inj:
  assumes "length vs = length ws" and "concat (map enc vs) = concat (map enc ws)"
  shows "vs = ws"
  using decode_seq_enc [of vs "[]"] decode_seq_enc [of ws "[]"] assms by simp

end

subsection \<open>Fixed-width round trips\<close>

lemma bytes4: "take_bit 8 v OR push_bit 8 (take_bit 8 (drop_bit 8 v)) OR
    push_bit 16 (take_bit 8 (drop_bit 16 v)) OR push_bit 24 (take_bit 8 (drop_bit 24 v))
  = take_bit 32 (v :: 'a::len word)"
  using join_bits [of 8 v 8] join_bits [of 16 v 8] join_bits [of 24 v 8]
  by (simp add: take_bit_word_eq_self flip: or.assoc)

lemma length_EncodeFixed [simp]:
  "length (EncodeFixed16 a) = 2" "length (EncodeFixed32 b) = 4" "length (EncodeFixed64 c) = 8"
  by (simp_all add: EncodeFixed16_def EncodeFixed32_def EncodeFixed64_def)

lemma DecodeFixed16_Encode [codec_simps]: "DecodeFixed16 (EncodeFixed16 v @ rest) = Some v"
  using join_bits [of 8 v 8]
  by (simp add: EncodeFixed16_def codec_simps take_bit_word_eq_self)

lemma DecodeFixed32_Encode [codec_simps]: "DecodeFixed32 (EncodeFixed32 v @ rest) = Some v"
  using bytes4 [of v] by (simp add: EncodeFixed32_def codec_simps take_bit_word_eq_self)

lemma ucast_hi_lo:
  "push_bit 32 (ucast (ucast (drop_bit 32 v) :: u32)) OR ucast (ucast v :: u32) = (v :: u64)"
  (is "?l = v")
proof (rule bit_word_eqI)
  fix i
  assume "i < LENGTH(64)"
  then show "bit ?l i = bit v i"
    by (cases "i < 32") (auto simp: bit_simps)
qed

text \<open>The eight-byte encoding is the two four-byte encodings, low word first.\<close>

lemma EncodeFixed64_split:
  "EncodeFixed64 v = EncodeFixed32 (ucast v) @ EncodeFixed32 (ucast (drop_bit 32 v))"
  by (auto simp add: EncodeFixed64_def EncodeFixed32_def codec_simps bit_simps
      intro!: bit_word_eqI)

lemma DecodeFixed64_Encode [codec_simps]: "DecodeFixed64 (EncodeFixed64 v @ rest) = Some v"
  by (simp add: DecodeFixed64_def EncodeFixed64_split ucast_hi_lo DecodeFixed32_Encode)

text \<open>The fixed-width readers as decoders that also say what is left.\<close>

definition read_fixed32 :: "bytes \<Rightarrow> (u32 \<times> bytes) option" where
  "read_fixed32 bs = map_option (\<lambda>v. (v, drop 4 bs)) (DecodeFixed32 bs)"

definition read_fixed64 :: "bytes \<Rightarrow> (u64 \<times> bytes) option" where
  "read_fixed64 bs = map_option (\<lambda>v. (v, drop 8 bs)) (DecodeFixed64 bs)"

lemma DecodeFixed32_append: "DecodeFixed32 bs = Some v \<Longrightarrow> DecodeFixed32 (bs @ ys) = Some v"
  by (cases bs rule: DecodeFixed32.cases) auto

lemma DecodeFixed32_length: "DecodeFixed32 bs = Some v \<Longrightarrow> 4 \<le> length bs"
  by (cases bs rule: DecodeFixed32.cases) auto

lemma DecodeFixed64_length: "DecodeFixed64 bs = Some v \<Longrightarrow> 8 \<le> length bs"
  by (auto simp: DecodeFixed64_def split: option.splits dest!: DecodeFixed32_length)

lemma DecodeFixed64_append:
  assumes "DecodeFixed64 bs = Some v"
  shows "DecodeFixed64 (bs @ ys) = Some v"
proof -
  from assms obtain lo hi where d: "DecodeFixed32 bs = Some lo" "DecodeFixed32 (drop 4 bs) = Some hi"
    and v: "v = push_bit 32 (ucast hi) OR ucast lo"
    by (auto simp: DecodeFixed64_def split: option.splits)
  have "drop 4 (bs @ ys) = drop 4 bs @ ys"
    using DecodeFixed64_length [OF assms] by simp
  then show ?thesis
    using DecodeFixed32_append [OF d(1)] DecodeFixed32_append [OF d(2)] v
    by (simp only: DecodeFixed64_def option.case)
qed

interpretation fixed32: prefix_codec EncodeFixed32 read_fixed32
  by unfold_locales
    (auto simp: read_fixed32_def codec_simps DecodeFixed32_append dest: DecodeFixed32_length)

interpretation fixed64: prefix_codec EncodeFixed64 read_fixed64
  by unfold_locales
    (auto simp: read_fixed64_def codec_simps DecodeFixed64_append dest: DecodeFixed64_length)

subsection \<open>Varint round trips\<close>

lemma bit7_small:
  assumes "unat v < 128"
  shows "\<not> bit (v :: 'a::len word) 7"
proof -
  have "take_bit 7 v = v" using assms by (simp add: unat_less_imp_take_bit)
  then have "bit v 7 = bit (take_bit 7 v) 7" by simp
  then show ?thesis by (simp add: bit_take_bit_iff)
qed

lemma last_byte:
  assumes "(v :: u64) < 128"
  shows "\<not> bit (ucast v :: u8) 7" and "(ucast (ucast v :: u8) :: 'a::len word) = ucast v"
  using assms bit7_small [of v] unat_less_imp_take_bit [of v 8]
  by (simp_all add: codec_simps word_less_nat_alt bit_simps)

lemma more_byte:
  fixes v :: u64
  defines "b \<equiv> ucast ((v AND 127) OR 128) :: u8"
  shows "bit b 7" and "(ucast b :: 'a::len word) AND 127 = ucast (take_bit 7 v)"
  unfolding b_def
  by (auto simp: and_127_take_bit or_128_set_bit bit_simps intro!: bit_word_eqI)

lemma ucast_flag: 
  "7 < LENGTH('a) \<Longrightarrow> (ucast (b :: u8) AND 128 = (0 :: 'a::len word)) \<longleftrightarrow> \<not> bit b 7"
  by (simp add: and_128_eq_0 bit_simps)

lemma push_split: 
  "push_bit s (ucast (take_bit 7 v)) OR push_bit (s + 7) (ucast (drop_bit 7 v))
   = (push_bit s (ucast (v :: u64)) :: 'a::len word)" (is "?l = ?r")
proof (rule bit_word_eqI)
  fix i
  assume "i < LENGTH('a)"
  then show "bit ?l i = bit ?r i"
    by (cases "i < s + 7") (auto simp: bit_simps)
qed

text \<open>
  The decoder loop after \<open>shift\<close> bits, on the encoding of what is left of the value: the value
  has at most \<open>W - shift\<close> bits, so the loop ends before the shift passes its bound.
\<close>

lemma shift_room:
  assumes "\<not> v < (128 :: u64)" and "unat v < 2 ^ (w - shift)" and "shift \<le> w"
  shows "shift + 7 < w" and "unat (drop_bit 7 v) < 2 ^ (w - (shift + 7))"
proof -
  have "(2::nat) ^ 7 \<le> unat v" using assms(1) by (simp add: word_less_nat_alt not_less)
  with assms(2) have "(2::nat) ^ 7 < 2 ^ (w - shift)" by linarith
  then have "7 < w - shift" by (simp only: power_strict_increasing_iff)
  then show "shift + 7 < w" by simp
  then have "w - shift = 7 + (w - (shift + 7))" by simp
  with assms(2) have "unat v < 2 ^ 7 * 2 ^ (w - (shift + 7))" by (simp only: power_add)
  then show "unat (drop_bit 7 v) < 2 ^ (w - (shift + 7))"
    by (simp only: unat_drop_bit_div less_mult_imp_div_less mult.commute)
qed

lemma GetVarint64Ptr_loop_Encode:
  assumes "unat v < 2 ^ (64 - shift)" and "shift \<le> 63"
  shows "GetVarint64Ptr_loop shift result (EncodeVarint64 v @ rest)
    = Some (result OR push_bit shift v, rest)"
  using assms
proof (induction v arbitrary: shift result rule: EncodeVarint64.induct)
  case (1 v)
  show ?case
  proof (cases "v < 128")
    case True
    then have "v AND 128 = 0" by (simp add: and_128_eq_0 bit7_small word_less_nat_alt)
    with True show ?thesis using 1(3) last_byte(1) [OF True] last_byte(2) [OF True, where 'a = 64]
      by (simp add: EncodeVarint64.simps [of v] ucast_flag Let_def)
  next
    case False
    note room = shift_room [OF False 1(2)]
    have "GetVarint64Ptr_loop (shift + 7) (result OR push_bit shift (take_bit 7 v))
        (EncodeVarint64 (drop_bit 7 v) @ rest)
      = Some ((result OR push_bit shift (take_bit 7 v)) OR push_bit (shift + 7) (drop_bit 7 v), rest)"
      using room 1(3) by (intro 1(1) False) simp_all
    then show ?thesis
      using False 1(3) more_byte(1) [of v] more_byte(2) [of v, where 'a = 64] push_split [of shift v, where 'a = 64]
      by (simp add: EncodeVarint64.simps [of v] ucast_flag Let_def or.assoc)
  qed
qed

text \<open>The unrolled 32-bit encoder writes what the 64-bit loop writes for the same value.\<close>

lemma unat_u32_less: "unat (w :: u32) < 2 ^ 32"
  using unsigned_less [of w] by simp

lemma unat_ucast_32_64: "unat (ucast (w :: u32) :: u64) = unat w"
  using unat_u32_less [of w] by (simp add: unsigned_ucast_eq take_bit_nat_eq_self)

lemma ucast_drop: "drop_bit n (ucast (v :: u32) :: u64) = ucast (drop_bit n v)"
  by (auto simp: bit_simps intro!: bit_word_eqI dest!: bit_imp_le_length [where 'a = 32])

lemma ucast_less_128: "(ucast (drop_bit n v :: u32) :: u64) < 128 \<longleftrightarrow> unat v < 2 ^ (n + 7)"
  by (simp add: word_less_nat_alt unat_ucast_32_64 unat_drop_bit_div div_less_iff_less_mult
      power_add mult.commute)

lemma ucast_or_128:
  "(ucast (x OR 128 :: u32) :: u8) = ucast ((ucast x AND 127 :: u64) OR 128)"
  by (auto simp: and_127_take_bit or_128_set_bit bit_simps intro!: bit_word_eqI)

lemma ucast_32_64_8: "(ucast (ucast (x :: u32) :: u64) :: u8) = ucast x"
  by (auto simp: bit_simps intro!: bit_word_eqI)

lemma EncodeVarint64_ucast_step:
  "EncodeVarint64 (ucast (drop_bit n v)) =
   (if unat (v :: u32) < 2 ^ (n + 7) then [ucast (drop_bit n v)]
    else ucast (drop_bit n v OR 128) # EncodeVarint64 (ucast (drop_bit (n + 7) v)))"
  by (subst EncodeVarint64.simps)
    (simp add: ucast_less_128 ucast_or_128 ucast_drop ucast_32_64_8 add.commute)

lemma EncodeVarint32_eq_64: "EncodeVarint32 v = EncodeVarint64 (ucast v)"
proof -
  have "unat v < 2 ^ 35" using unat_u32_less [of v] by simp
  then show ?thesis
    using EncodeVarint64_ucast_step [of 0 v] EncodeVarint64_ucast_step [of 7 v]
      EncodeVarint64_ucast_step [of 14 v] EncodeVarint64_ucast_step [of 21 v]
      EncodeVarint64_ucast_step [of 28 v]
    unfolding EncodeVarint32_def Let_def by (simp add: word_less_nat_alt)
qed

lemma GetVarint32PtrFallback_loop_Encode:
  assumes "unat v < 2 ^ (32 - shift)" and "shift \<le> 28"
    and "\<exists>k. shift = 7 * k"
  shows "GetVarint32PtrFallback_loop shift result (EncodeVarint64 v @ rest)
    = Some (result OR push_bit shift (ucast v), rest)"
  using assms
proof (induction v arbitrary: shift result rule: EncodeVarint64.induct)
  case (1 v)
  show ?case
  proof (cases "v < 128")
    case True
    then have "(ucast v :: u32) AND 128 = 0"
      by (simp add: and_128_eq_0 bit7_small word_less_nat_alt bit_simps)
    with True show ?thesis using 1(3) last_byte(1) [OF True] last_byte(2) [OF True, where 'a = 32]
      by (simp add: EncodeVarint64.simps [of v] ucast_flag Let_def)
  next
    case False
    note room = shift_room [OF False 1(2)]
    have "GetVarint32PtrFallback_loop (shift + 7) (result OR push_bit shift (ucast (take_bit 7 v)))
        (EncodeVarint64 (drop_bit 7 v) @ rest)
      = Some ((result OR push_bit shift (ucast (take_bit 7 v)))
          OR push_bit (shift + 7) (ucast (drop_bit 7 v)), rest)"
    proof (intro 1(1) False)
      from room 1(3) have "shift + 7 < 32" by simp
      moreover obtain k where "shift = 7 * k" using 1(4) ..
      ultimately show "shift + 7 \<le> 28" by presburger
      show "\<exists>k. shift + 7 = 7 * k" using 1(4) by presburger
    qed (use room 1(3) in simp)
    then show ?thesis
      using False 1(3) more_byte(1) [of v] more_byte(2) [of v, where 'a = 32]
        push_split [of shift v, where 'a = 32]
      by (simp add: EncodeVarint64.simps [of v] ucast_flag Let_def or.assoc)
  qed
qed

lemma unat_u64_less: "unat (w :: u64) < 2 ^ 64"
  using unsigned_less [of w] by simp

lemma ucast_32_64_32: "(ucast (ucast (x :: u32) :: u64) :: u32) = x"
  by (auto simp: bit_simps intro!: bit_word_eqI)

lemma GetVarint64Ptr_Encode: "GetVarint64Ptr (EncodeVarint64 v @ rest) = Some (v, rest)"
  using GetVarint64Ptr_loop_Encode [of v 0] unat_u64_less [of v]
  by (simp add: GetVarint64Ptr_def)

text \<open>The one-byte fast path of \<^verbatim>\<open>GetVarint32Ptr\<close> agrees with the general loop.\<close>

lemma GetVarint32Ptr_eq_Fallback: "GetVarint32Ptr p = GetVarint32PtrFallback p"
  by (cases p) (simp_all add: GetVarint32Ptr_def GetVarint32PtrFallback_def Let_def)

lemma GetVarint32Ptr_Encode: "GetVarint32Ptr (EncodeVarint32 v @ rest) = Some (v, rest)"
  using GetVarint32PtrFallback_loop_Encode [of "ucast v" 0] unat_u32_less [of v]
  by (simp add: GetVarint32Ptr_eq_Fallback GetVarint32PtrFallback_def EncodeVarint32_eq_64
      unat_ucast_32_64 ucast_32_64_32)

lemma GetVarint32PtrFallback_loop_append:
  "GetVarint32PtrFallback_loop s r bs = Some (v, q) \<Longrightarrow>
   GetVarint32PtrFallback_loop s r (bs @ ys) = Some (v, q @ ys)"
  by (induction s r bs rule: GetVarint32PtrFallback_loop.induct)
    (auto simp: Let_def split: if_splits)

lemma GetVarint64Ptr_loop_append:
  "GetVarint64Ptr_loop s r bs = Some (v, q) \<Longrightarrow>
   GetVarint64Ptr_loop s r (bs @ ys) = Some (v, q @ ys)"
  by (induction s r bs rule: GetVarint64Ptr_loop.induct) (auto simp: Let_def split: if_splits)

interpretation varint32: prefix_codec EncodeVarint32 GetVarint32Ptr
proof unfold_locales
  show "GetVarint32Ptr (EncodeVarint32 v @ rest) = Some (v, rest)" for v rest
    by (rule GetVarint32Ptr_Encode)
  show "GetVarint32Ptr bs = Some (v, r) \<Longrightarrow> GetVarint32Ptr (bs @ ys) = Some (v, r @ ys)"
    for bs v r ys
    by (simp add: GetVarint32Ptr_eq_Fallback GetVarint32PtrFallback_def
        GetVarint32PtrFallback_loop_append)
qed

interpretation varint64: prefix_codec EncodeVarint64 GetVarint64Ptr
proof unfold_locales
  show "GetVarint64Ptr (EncodeVarint64 v @ rest) = Some (v, rest)" for v rest
    by (rule GetVarint64Ptr_Encode)
  show "GetVarint64Ptr bs = Some (v, r) \<Longrightarrow> GetVarint64Ptr (bs @ ys) = Some (v, r @ ys)"
    for bs v r ys
    by (simp add: GetVarint64Ptr_def GetVarint64Ptr_loop_append)
qed

subsection \<open>Lengths\<close>

lemma VarintLength_loop_add: "VarintLength_loop v (n + k) = VarintLength_loop v n + k"
proof (induction v n rule: VarintLength_loop.induct)
  case (1 v n)
  then show ?case
    by (cases "v < 128") (simp_all add: VarintLength_loop.simps [of v])
qed

lemma VarintLength_Encode: "length (EncodeVarint64 v) = VarintLength v"
  unfolding VarintLength_def
proof (induction v rule: EncodeVarint64.induct)
  case (1 v)
  then show ?case
    using VarintLength_loop_add [of "drop_bit 7 v" 1 1]
    by (cases "v < 128")
      (simp_all add: EncodeVarint64.simps [of v] VarintLength_loop.simps [of v])
qed

lemma length_EncodeVarint64:
  "unat v < 2 ^ (7 * n) \<Longrightarrow> 0 < n \<Longrightarrow> length (EncodeVarint64 v) \<le> n"
proof (induction v arbitrary: n rule: EncodeVarint64.induct)
  case (1 v)
  show ?case
  proof (cases "v < 128")
    case True
    then show ?thesis using 1(3) by (simp add: EncodeVarint64.simps [of v])
  next
    case False
    note room = shift_room [of v "7 * n" 0, OF False]
    from 1 room have "7 < 7 * n" and less: "unat (drop_bit 7 v) < 2 ^ (7 * n - 7)" by simp_all
    moreover have "7 * n - 7 = 7 * (n - 1)" by (simp add: diff_mult_distrib2)
    ultimately have "length (EncodeVarint64 (drop_bit 7 v)) \<le> n - 1"
      using 1(1) [OF False, of "n - 1"] by simp
    with False 1(3) show ?thesis by (simp add: EncodeVarint64.simps [of v])
  qed
qed

subsection \<open>Properties\<close>

text \<open>
  C35: reading back a sequence of 64-bit varints that was written end to end returns the sequence and
  the bytes that follow it, whatever they are.
\<close>

theorem varint64_stream_roundtrip:
  "decode_seq GetVarint64Ptr (length vs) (concat (map EncodeVarint64 vs) @ rest) = Some (vs, rest)"
  by (rule varint64.decode_seq_enc)

text \<open>
  \<^verbatim>\<open>GetVarint32\<close> consumes exactly one encoding from its input, and from an input that ends inside
  an encoding it consumes nothing and reports failure.
\<close>

theorem GetVarint32_roundtrip:
  "GetVarint32 (EncodeVarint32 v @ rest) = (True, Some v, rest) \<and>
   (\<forall>k < length (EncodeVarint32 v). GetVarint32 (take k (EncodeVarint32 v)) = (False, None, take k (EncodeVarint32 v)))"
  by (simp add: GetVarint32_def varint32.dec_enc varint32.dec_truncated)

theorem GetVarint32_roundtrip_witness:
  "GetVarint32 (take 1 (EncodeVarint32 300)) = (False, None, take 1 (EncodeVarint32 300))"
proof -
  have "1 < length (EncodeVarint32 300)" by (simp add: EncodeVarint32_def)
  then show ?thesis using GetVarint32_roundtrip [of 300 "[]"] by blast
qed

text \<open>
  the unrolled 32-bit varint encoder writes the same bytes as the 64-bit loop, \<^verbatim>\<open>VarintLength\<close>
  predicts their number, and the number is at most 5 (at most 10 for 64 bits), the size of the
  buffers in \<^verbatim>\<open>PutVarint32\<close> and \<^verbatim>\<open>PutVarint64\<close>.
\<close>

theorem varint_lengths:
  "EncodeVarint32 v = EncodeVarint64 (ucast v) \<and> length (EncodeVarint32 v) = VarintLength (ucast v) \<and>
   length (EncodeVarint32 v) \<le> 5 \<and> length (EncodeVarint64 w) \<le> 10"
proof -
  have "unat (ucast v :: u64) < 2 ^ (7 * 5)" using unat_u32_less [of v] by (simp add: unat_ucast_32_64)
  moreover have "unat w < 2 ^ (7 * 10)" using unat_u64_less [of w] by simp
  ultimately show ?thesis
    using length_EncodeVarint64 [of "ucast v" 5] length_EncodeVarint64 [of w 10]
    by (simp add: EncodeVarint32_eq_64 VarintLength_Encode)
qed

text \<open>
  the fixed-width decoders invert the fixed-width encoders in front of any bytes, and the 8-byte
  encoding is the two 4-byte encodings with the low word first.
\<close>

theorem fixed_roundtrip:
  "DecodeFixed16 (PutFixed16 [] a @ rest) = Some a \<and> DecodeFixed32 (PutFixed32 [] b @ rest) = Some b \<and>
   DecodeFixed64 (PutFixed64 [] c @ rest) = Some c \<and>
   EncodeFixed64 c = EncodeFixed32 (ucast c) @ EncodeFixed32 (ucast (drop_bit 32 c))"
  using DecodeFixed16_Encode DecodeFixed32_Encode DecodeFixed64_Encode EncodeFixed64_split
  by (simp add: PutFixed16_def PutFixed32_def PutFixed64_def)

end
