(* ===== verification/Bfc_Allocator.thy ===== *)
theory Bfc_Allocator
  imports Prelude
begin

text \<open>
  \<^verbatim>\<open>tensorflow/core/common_runtime/bfc_allocator.{h,cc}\<close>: the best-fit-with-coalescing
  allocator that backs GPU memory. This theory holds the data model and the operations; the
  invariant and its consequences are in the theories that import it.

  Conventions. A \<^verbatim>\<open>ChunkHandle\<close> is an index into \<open>chunks\<close>; \<^verbatim>\<open>kInvalidChunkHandle\<close> and
  \<^verbatim>\<open>kInvalidBinNum\<close> are \<open>None\<close>. Addresses and sizes are natural numbers, with \<open>wrap64\<close> where
  the 64-bit arithmetic of the code can wrap. A pointer result is \<open>None\<close> for
  \<^verbatim>\<open>nullptr\<close>. \<^verbatim>\<open>CHECK\<close>, \<^verbatim>\<open>DCHECK\<close> and \<^verbatim>\<open>LOG(FATAL)\<close> are \<open>Abort\<close>, so that a theorem that an
  operation is \<open>Done\<close> also says that none of them fires. A \<^verbatim>\<open>std::set\<close> of handles is the list
  of its elements in comparator order.
\<close>

subsection \<open>Constants and data\<close>

type_synonym handle = nat

definition kNumBins :: nat where "kNumBins = 21"

definition kMinAllocationBits :: nat where "kMinAllocationBits = 8"

definition kMinAllocationSize :: nat where "kMinAllocationSize = 2 ^ kMinAllocationBits"

definition kMaxInternalFragmentation :: nat where "kMaxInternalFragmentation = 128 * 2 ^ 20"

record chunk =
  csize :: nat
  requested_size :: nat
  allocation_id :: int
  cptr :: nat
  cprev :: "handle option"
  cnext :: "handle option"
  bin_num :: "nat option"
  freed_count :: nat

definition new_chunk :: chunk where
  "new_chunk = \<lparr>csize = 0, requested_size = 0, allocation_id = -1, cptr = 0, cprev = None,
     cnext = None, bin_num = None, freed_count = 0\<rparr>"

definition in_use :: "chunk \<Rightarrow> bool" where
  "in_use c \<longleftrightarrow> allocation_id c \<noteq> -1"

record region =
  rptr :: nat
  memory_size :: nat
  handles :: "handle option list"

record allocator_stats =
  num_allocs :: int
  bytes_in_use :: int
  peak_bytes_in_use :: int
  largest_alloc_size :: int
  bytes_limit :: "int option"

record bfc =
  memory_limit :: nat
  curr_region_allocation_bytes :: nat
  total_region_allocated_bytes :: nat
  started_backpedal :: bool
  bins :: "handle list list"
  regions :: "region list"
  chunks :: "chunk list"
  free_chunks_list :: "handle option"
  next_allocation_id :: int
  stats :: allocator_stats
  timing_counter :: "nat option"

subsection \<open>Size classes\<close>

definition RoundedBytes :: "nat \<Rightarrow> nat" where
  "RoundedBytes bytes =
     kMinAllocationSize * (wrap64 (bytes + kMinAllocationSize - 1) div kMinAllocationSize)"

text \<open>The portable loop, and the branch that is compiled with GCC (\<^verbatim>\<open>63 ^ __builtin_clzll(n)\<close>).\<close>

fun Log2FloorNonZeroSlow_loop :: "nat \<Rightarrow> int \<Rightarrow> int" where
  "Log2FloorNonZeroSlow_loop n r =
     (if n > 0 then Log2FloorNonZeroSlow_loop (n div 2) (r + 1) else r - 1)"

declare Log2FloorNonZeroSlow_loop.simps [simp del]

definition Log2FloorNonZeroSlow :: "nat \<Rightarrow> int" where
  "Log2FloorNonZeroSlow n = Log2FloorNonZeroSlow_loop n 0"

definition builtin_clzll :: "nat \<Rightarrow> nat" where
  "builtin_clzll n = length (takeWhile (\<lambda>i. \<not> bit n i) (rev [0..<64]))"

definition Log2FloorNonZero :: "nat \<Rightarrow> nat" where
  "Log2FloorNonZero n = 63 XOR builtin_clzll n"

definition BinNumToSize :: "nat \<Rightarrow> nat" where
  "BinNumToSize index = wrap64 (256 * 2 ^ index)"

definition BinNumForSize :: "nat \<Rightarrow> nat" where
  "BinNumForSize bytes =
     (let v = max bytes 256 div 2 ^ kMinAllocationBits in
      min (kNumBins - 1) (Log2FloorNonZero v))"

subsection \<open>Chunks\<close>

definition ChunkFromHandle :: "bfc \<Rightarrow> handle \<Rightarrow> chunk outcome" where
  "ChunkFromHandle a h = (if h < length (chunks a) then Done (chunks a ! h) else Abort)"

text \<open>Writing through the pointer that \<^verbatim>\<open>ChunkFromHandle\<close> returned.\<close>

definition upd_chunk :: "handle \<Rightarrow> (chunk \<Rightarrow> chunk) \<Rightarrow> bfc \<Rightarrow> bfc" where
  "upd_chunk h f a = a\<lparr>chunks := (chunks a)[h := f (chunks a ! h)]\<rparr>"

definition AllocateChunk :: "bfc \<Rightarrow> (handle \<times> bfc) outcome" where
  "AllocateChunk a =
     (case free_chunks_list a of
        Some h \<Rightarrow> obind (ChunkFromHandle a h) (\<lambda>c. Done (h, a\<lparr>free_chunks_list := cnext c\<rparr>))
      | None \<Rightarrow> Done (length (chunks a), a\<lparr>chunks := chunks a @ [new_chunk]\<rparr>))"

definition DeallocateChunk :: "handle \<Rightarrow> bfc \<Rightarrow> bfc outcome" where
  "DeallocateChunk h a = obind (ChunkFromHandle a h) (\<lambda>c.
     Done ((upd_chunk h (\<lambda>c. c\<lparr>cnext := free_chunks_list a\<rparr>) a)\<lparr>free_chunks_list := Some h\<rparr>))"

subsection \<open>Regions\<close>

definition new_region :: "nat \<Rightarrow> nat \<Rightarrow> region" where
  "new_region ptr msize =
     \<lparr>rptr = ptr, memory_size = msize,
      handles = replicate ((msize + kMinAllocationSize - 1) div kMinAllocationSize) None\<rparr>"

definition end_ptr :: "region \<Rightarrow> nat" where
  "end_ptr r = rptr r + memory_size r"

text \<open>
  \<^verbatim>\<open>IndexFor\<close> with its two \<^verbatim>\<open>DCHECK\<close>s. \<^verbatim>\<open>std::upper_bound\<close> over regions sorted by end pointer
  is the first region whose end lies beyond the address.
\<close>

definition IndexFor :: "region \<Rightarrow> nat \<Rightarrow> nat outcome" where
  "IndexFor r p =
     (if rptr r \<le> p \<and> p < rptr r + memory_size r
      then Done ((p - rptr r) div 2 ^ kMinAllocationBits) else Abort)"

fun RegionFor :: "region list \<Rightarrow> nat \<Rightarrow> nat outcome" where
  "RegionFor [] p = Abort"
| "RegionFor (r # rs) p =
     (if p < end_ptr r then Done 0 else obind (RegionFor rs p) (\<lambda>i. Done (Suc i)))"

fun AddAllocationRegion :: "nat \<Rightarrow> nat \<Rightarrow> region list \<Rightarrow> region list" where
  "AddAllocationRegion ptr msize [] = [new_region ptr msize]"
| "AddAllocationRegion ptr msize (r # rs) =
     (if ptr < end_ptr r then new_region ptr msize # r # rs
      else r # AddAllocationRegion ptr msize rs)"

definition get_handle :: "region list \<Rightarrow> nat \<Rightarrow> handle option outcome" where
  "get_handle rs p =
     obind (RegionFor rs p) (\<lambda>i. obind (IndexFor (rs ! i) p) (\<lambda>k. Done (handles (rs ! i) ! k)))"

definition set_handle :: "nat \<Rightarrow> handle option \<Rightarrow> region list \<Rightarrow> region list outcome" where
  "set_handle p h rs =
     obind (RegionFor rs p) (\<lambda>i. obind (IndexFor (rs ! i) p) (\<lambda>k.
       Done (rs[i := (rs ! i)\<lparr>handles := (handles (rs ! i))[k := h]\<rparr>])))"

definition erase_handle :: "nat \<Rightarrow> region list \<Rightarrow> region list outcome" where
  "erase_handle p rs = set_handle p None rs"

definition set_region_handle :: "nat \<Rightarrow> handle option \<Rightarrow> bfc \<Rightarrow> bfc outcome" where
  "set_region_handle p h a =
     obind (set_handle p h (regions a)) (\<lambda>rs. Done (a\<lparr>regions := rs\<rparr>))"

subsection \<open>Bins\<close>

text \<open>\<^verbatim>\<open>ChunkComparator\<close>: by size, then by address.\<close>

definition chunk_less :: "bfc \<Rightarrow> handle \<Rightarrow> handle \<Rightarrow> bool" where
  "chunk_less a ha hb =
     (let ca = chunks a ! ha; cb = chunks a ! hb in
      if csize ca \<noteq> csize cb then csize ca < csize cb else cptr ca < cptr cb)"

fun set_insert :: "('a \<Rightarrow> 'a \<Rightarrow> bool) \<Rightarrow> 'a \<Rightarrow> 'a list \<Rightarrow> 'a list" where
  "set_insert lt x [] = [x]"
| "set_insert lt x (y # ys) =
     (if lt x y then x # y # ys else if lt y x then y # set_insert lt x ys else y # ys)"

definition set_erase :: "('a \<Rightarrow> 'a \<Rightarrow> bool) \<Rightarrow> 'a \<Rightarrow> 'a list \<Rightarrow> 'a list" where
  "set_erase lt x ys = filter (\<lambda>y. lt x y \<or> lt y x) ys"

definition InsertFreeChunkIntoBin :: "handle \<Rightarrow> bfc \<Rightarrow> bfc outcome" where
  "InsertFreeChunkIntoBin h a = obind (ChunkFromHandle a h) (\<lambda>c.
     if in_use c \<or> bin_num c \<noteq> None then Abort
     else let b = BinNumForSize (csize c); a' = upd_chunk h (\<lambda>c. c\<lparr>bin_num := Some b\<rparr>) a in
       Done (a'\<lparr>bins := (bins a')[b := set_insert (chunk_less a') h (bins a' ! b)]\<rparr>))"

text \<open>\<^verbatim>\<open>erase(citer)\<close> removes the element the iterator stands on.\<close>

definition RemoveFreeChunkIterFromBin :: "nat \<Rightarrow> handle \<Rightarrow> bfc \<Rightarrow> bfc outcome" where
  "RemoveFreeChunkIterFromBin b h a = obind (ChunkFromHandle a h) (\<lambda>c.
     if in_use c \<or> bin_num c = None then Abort
     else Done (upd_chunk h (\<lambda>c. c\<lparr>bin_num := None\<rparr>)
                 (a\<lparr>bins := (bins a)[b := remove1 h (bins a ! b)]\<rparr>)))"

definition RemoveFreeChunkFromBin :: "handle \<Rightarrow> bfc \<Rightarrow> bfc outcome" where
  "RemoveFreeChunkFromBin h a = obind (ChunkFromHandle a h) (\<lambda>c.
     if in_use c then Abort
     else case bin_num c of None \<Rightarrow> Abort
     | Some b \<Rightarrow>
       let bin' = set_erase (chunk_less a) h (bins a ! b) in
       if length (bins a ! b) - length bin' > 0
       then Done (upd_chunk h (\<lambda>c. c\<lparr>bin_num := None\<rparr>) (a\<lparr>bins := (bins a)[b := bin']\<rparr>))
       else Abort)"

subsection \<open>Splitting and merging\<close>

definition SplitChunk :: "handle \<Rightarrow> nat \<Rightarrow> bfc \<Rightarrow> bfc outcome" where
  "SplitChunk h num_bytes a =
     obind (AllocateChunk a) (\<lambda>(h_new, a1).
     obind (ChunkFromHandle a1 h) (\<lambda>c.
     if in_use c \<or> bin_num c \<noteq> None then Abort else
     obind (ChunkFromHandle a1 h_new) (\<lambda>_.
     obind (set_region_handle (cptr c + num_bytes) (Some h_new) a1) (\<lambda>a2.
     let h_neighbor = cnext c;
         a3 = upd_chunk h_new (\<lambda>n. n\<lparr>cptr := cptr c + num_bytes,
                csize := csize c - num_bytes, allocation_id := -1,
                freed_count := freed_count c, cprev := Some h, cnext := h_neighbor\<rparr>) a2;
         a4 = upd_chunk h (\<lambda>c. c\<lparr>csize := num_bytes, cnext := Some h_new\<rparr>) a3 in
     obind (case h_neighbor of None \<Rightarrow> Done a4
            | Some hn \<Rightarrow> obind (ChunkFromHandle a4 hn) (\<lambda>_.
                Done (upd_chunk hn (\<lambda>n. n\<lparr>cprev := Some h_new\<rparr>) a4))) (\<lambda>a5.
     InsertFreeChunkIntoBin h_new a5)))))"

definition DeleteChunk :: "handle \<Rightarrow> bfc \<Rightarrow> bfc outcome" where
  "DeleteChunk h a = obind (ChunkFromHandle a h) (\<lambda>c.
     obind (set_region_handle (cptr c) None a) (\<lambda>a'. DeallocateChunk h a'))"

definition Merge :: "handle \<Rightarrow> handle \<Rightarrow> bfc \<Rightarrow> bfc outcome" where
  "Merge h1 h2 a =
     obind (ChunkFromHandle a h1) (\<lambda>c1.
     obind (ChunkFromHandle a h2) (\<lambda>c2.
     if in_use c1 \<or> in_use c2 then Abort else
     let h3 = cnext c2; a1 = upd_chunk h1 (\<lambda>c. c\<lparr>cnext := h3\<rparr>) a in
     if cprev c2 \<noteq> Some h1 then Abort else
     obind (case h3 of None \<Rightarrow> Done a1
            | Some k \<Rightarrow> obind (ChunkFromHandle a1 k) (\<lambda>_.
                Done (upd_chunk k (\<lambda>c. c\<lparr>cprev := Some h1\<rparr>) a1))) (\<lambda>a2.
     let a3 = upd_chunk h1 (\<lambda>c. c\<lparr>csize := csize c + csize c2,
                freed_count := max (freed_count c) (freed_count c2)\<rparr>) a2 in
     DeleteChunk h2 a3)))"

subsection \<open>Freeing\<close>

text \<open>
  \<^verbatim>\<open>timing_counter_->next()\<close> increments the shared counter and returns the new value; with no
  counter installed the chunk keeps its old \<^verbatim>\<open>freed_count\<close>.
\<close>

definition mark_free :: "handle \<Rightarrow> bfc \<Rightarrow> bfc" where
  "mark_free h a =
     (let a1 = upd_chunk h (\<lambda>c. c\<lparr>allocation_id := -1\<rparr>) a;
          a2 = (case timing_counter a1 of None \<Rightarrow> a1
                | Some t \<Rightarrow> upd_chunk h (\<lambda>c. c\<lparr>freed_count := t + 1\<rparr>)
                             (a1\<lparr>timing_counter := Some (t + 1)\<rparr>)) in
      a2\<lparr>stats := (stats a2)\<lparr>bytes_in_use := bytes_in_use (stats a2) - int (csize (chunks a ! h))\<rparr>\<rparr>)"

definition FreeAndMaybeCoalesce :: "handle \<Rightarrow> bfc \<Rightarrow> bfc outcome" where
  "FreeAndMaybeCoalesce h a =
     obind (ChunkFromHandle a h) (\<lambda>c.
     if \<not> in_use c \<or> bin_num c \<noteq> None then Abort else
     let a1 = mark_free h a in
     obind (case cnext (chunks a1 ! h) of None \<Rightarrow> Done a1
            | Some n \<Rightarrow> obind (ChunkFromHandle a1 n) (\<lambda>cn.
                if in_use cn then Done a1
                else obind (RemoveFreeChunkFromBin n a1) (\<lambda>a'. Merge h n a'))) (\<lambda>a2.
     obind (case cprev (chunks a2 ! h) of None \<Rightarrow> Done (h, a2)
            | Some p \<Rightarrow> obind (ChunkFromHandle a2 p) (\<lambda>cp.
                if in_use cp then Done (h, a2)
                else obind (RemoveFreeChunkFromBin p a2) (\<lambda>a'.
                     obind (Merge p h a') (\<lambda>a''. Done (p, a''))))) (\<lambda>(coalesced_chunk, a3).
     InsertFreeChunkIntoBin coalesced_chunk a3)))"

definition DeallocateRawInternal :: "nat option \<Rightarrow> bfc \<Rightarrow> bfc outcome" where
  "DeallocateRawInternal ptr a =
     (case ptr of None \<Rightarrow> Done a
      | Some p \<Rightarrow> obind (get_handle (regions a) p) (\<lambda>ho.
          case ho of None \<Rightarrow> Abort | Some h \<Rightarrow> FreeAndMaybeCoalesce h a))"

subsection \<open>Allocating\<close>

fun scan_bin :: "bfc \<Rightarrow> nat \<Rightarrow> nat \<Rightarrow> handle list \<Rightarrow> handle option outcome" where
  "scan_bin a rounded_bytes freed_before [] = Done None"
| "scan_bin a rounded_bytes freed_before (h # hs) =
     obind (ChunkFromHandle a h) (\<lambda>c.
       if in_use c then Abort
       else if freed_before > 0 \<and> freed_before < freed_count c
         then scan_bin a rounded_bytes freed_before hs
       else if csize c \<ge> rounded_bytes then Done (Some h)
       else scan_bin a rounded_bytes freed_before hs)"

fun scan_bins :: "bfc \<Rightarrow> nat \<Rightarrow> nat \<Rightarrow> nat list \<Rightarrow> (nat \<times> handle) option outcome" where
  "scan_bins a rounded_bytes freed_before [] = Done None"
| "scan_bins a rounded_bytes freed_before (b # bs) =
     obind (scan_bin a rounded_bytes freed_before (bins a ! b)) (\<lambda>r.
       case r of Some h \<Rightarrow> Done (Some (b, h))
       | None \<Rightarrow> scan_bins a rounded_bytes freed_before bs)"

definition should_split :: "nat \<Rightarrow> nat \<Rightarrow> bool" where
  "should_split sz rounded_bytes \<longleftrightarrow>
     sz \<ge> wrap64 (rounded_bytes * 2) \<or> sz - rounded_bytes \<ge> kMaxInternalFragmentation"

definition mark_used :: "handle \<Rightarrow> nat \<Rightarrow> bfc \<Rightarrow> bfc" where
  "mark_used h num_bytes a =
     (let a1 = upd_chunk h (\<lambda>c. c\<lparr>requested_size := num_bytes,
                 allocation_id := next_allocation_id a\<rparr>) a;
          sz = int (csize (chunks a ! h)); st = stats a; used = bytes_in_use st + sz in
      a1\<lparr>next_allocation_id := next_allocation_id a + 1,
         stats := st\<lparr>num_allocs := num_allocs st + 1, bytes_in_use := used,
           peak_bytes_in_use := max (peak_bytes_in_use st) used,
           largest_alloc_size := max (largest_alloc_size st) sz\<rparr>\<rparr>)"

definition FindChunkPtr :: "nat \<Rightarrow> nat \<Rightarrow> nat \<Rightarrow> nat \<Rightarrow> bfc \<Rightarrow> (nat option \<times> bfc) outcome" where
  "FindChunkPtr bnum rounded_bytes num_bytes freed_before a =
     obind (scan_bins a rounded_bytes freed_before [bnum..<kNumBins]) (\<lambda>r.
     case r of None \<Rightarrow> Done (None, a)
     | Some (b, h) \<Rightarrow>
       obind (RemoveFreeChunkIterFromBin b h a) (\<lambda>a1.
       obind (if should_split (csize (chunks a1 ! h)) rounded_bytes
              then SplitChunk h rounded_bytes a1 else Done a1) (\<lambda>a2.
       Done (Some (cptr (chunks a2 ! h)), mark_used h num_bytes a2))))"

subsection \<open>Growing\<close>

text \<open>
  The sub-allocator is a parameter: a function from its own state, the alignment and the number
  of bytes to the address it returns (\<open>None\<close> for \<^verbatim>\<open>nullptr\<close>) and its next state.

  Two loops of \<^verbatim>\<open>Extend\<close> need not end. Both take fuel, and \<open>None\<close> says that the fuel ran out
  inside the loop: doubling \<^verbatim>\<open>curr_region_allocation_bytes_\<close> modulo \<open>2 ^ 64\<close>, and backing off
  from a failed request.
\<close>

type_synonym 's sub_alloc = "'s \<Rightarrow> nat \<Rightarrow> nat \<Rightarrow> nat option \<times> 's"

fun grow_loop :: "nat \<Rightarrow> nat \<Rightarrow> nat \<Rightarrow> bool \<Rightarrow> (nat \<times> bool) option" where
  "grow_loop 0 rounded_bytes cur increased = None"
| "grow_loop (Suc fuel) rounded_bytes cur increased =
     (if rounded_bytes > cur then grow_loop fuel rounded_bytes (wrap64 (cur * 2)) True
      else Some (cur, increased))"

text \<open>
  \<^verbatim>\<open>bytes * kBackpedalFactor\<close> is a single-precision product: \<^verbatim>\<open>bytes\<close> is rounded to 24 significant
  bits, the factor \<^verbatim>\<open>0.9f\<close> is \<open>15099494 / 2 ^ 24\<close>, the product is rounded to 24 bits, and the
  conversion back to \<^verbatim>\<open>size_t\<close> truncates. Rounding is to nearest, ties to even.
\<close>

fun bit_length :: "nat \<Rightarrow> nat" where
  "bit_length n = (if n = 0 then 0 else Suc (bit_length (n div 2)))"

declare bit_length.simps [simp del]

definition round24 :: "nat \<Rightarrow> nat" where
  "round24 n =
     (let e = bit_length n - 24 in
      if e = 0 then n
      else let q = n div 2 ^ e; r = n mod 2 ^ e; half = 2 ^ (e - 1) in
        (if r > half \<or> (r = half \<and> odd q) then q + 1 else q) * 2 ^ e)"

definition backpedal_bytes :: "nat \<Rightarrow> nat" where
  "backpedal_bytes bytes = RoundedBytes (round24 (round24 bytes * 15099494) div 2 ^ 24)"

fun backpedal_loop ::
  "'s sub_alloc \<Rightarrow> nat \<Rightarrow> nat \<Rightarrow> nat \<Rightarrow> nat \<Rightarrow> 's \<Rightarrow> (nat option \<times> nat \<times> 's) option"
where
  "backpedal_loop alloc 0 alignment rounded_bytes bytes s = None"
| "backpedal_loop alloc (Suc fuel) alignment rounded_bytes bytes s =
     (let bytes' = backpedal_bytes bytes in
      if bytes' < rounded_bytes then Some (None, bytes', s)
      else case alloc s alignment bytes' of
          (Some p, s') \<Rightarrow> Some (Some p, bytes', s')
        | (None, s') \<Rightarrow> backpedal_loop alloc fuel alignment rounded_bytes bytes' s')"

text \<open>The part of \<^verbatim>\<open>Extend\<close> after the sub-allocator returned a region.\<close>

definition add_region :: "nat \<Rightarrow> nat \<Rightarrow> bfc \<Rightarrow> bfc outcome" where
  "add_region mem_addr bytes a =
     (let a1 = a\<lparr>total_region_allocated_bytes := wrap64 (total_region_allocated_bytes a + bytes),
                 regions := AddAllocationRegion mem_addr bytes (regions a)\<rparr> in
      obind (AllocateChunk a1) (\<lambda>(h, a2).
      obind (ChunkFromHandle a2 h) (\<lambda>_.
      let a3 = upd_chunk h (\<lambda>c. c\<lparr>cptr := mem_addr, csize := bytes, allocation_id := -1,
                 cprev := None, cnext := None, freed_count := 0\<rparr>) a2 in
      obind (set_region_handle mem_addr (Some h) a3) (\<lambda>a4.
      InsertFreeChunkIntoBin h a4))))"

text \<open>
  The request to the sub-allocator: the full size first, then, the first time one fails, the
  backed-off sizes. It returns the address, the size that was asked for last, and both states.
\<close>

definition request_region ::
  "'s sub_alloc \<Rightarrow> nat \<Rightarrow> nat \<Rightarrow> nat \<Rightarrow> nat \<Rightarrow> bfc \<Rightarrow> 's \<Rightarrow> (nat option \<times> nat \<times> 's \<times> bfc) option"
where
  "request_region alloc fuel alignment rounded_bytes bytes a s =
     (case alloc s alignment bytes of
        (Some p, s') \<Rightarrow> Some (Some p, bytes, s', a)
      | (None, s') \<Rightarrow>
        if \<not> started_backpedal a
        then map_option (\<lambda>(m, bytes', s''). (m, bytes', s'', a\<lparr>started_backpedal := True\<rparr>))
               (backpedal_loop alloc fuel alignment rounded_bytes bytes s')
        else Some (None, bytes, s', a))"

definition Extend ::
  "'s sub_alloc \<Rightarrow> nat \<Rightarrow> nat \<Rightarrow> nat \<Rightarrow> bfc \<Rightarrow> 's \<Rightarrow> (bool \<times> bfc \<times> 's) outcome option"
where
  "Extend alloc fuel alignment rounded_bytes a s =
     (let available0 = wrap64 (memory_limit a + 2 ^ 64 - total_region_allocated_bytes a);
          available_bytes = (available0 div kMinAllocationSize) * kMinAllocationSize in
      if rounded_bytes > available_bytes then Some (Done (False, a, s))
      else case grow_loop fuel rounded_bytes (curr_region_allocation_bytes a) False of
        None \<Rightarrow> None
      | Some (cur, increased) \<Rightarrow>
        let a1 = a\<lparr>curr_region_allocation_bytes := cur\<rparr>;
            bytes = min cur available_bytes in
        case request_region alloc fuel alignment rounded_bytes bytes a1 s of
          None \<Rightarrow> None
        | Some (None, _, s2, a2) \<Rightarrow> Some (Done (False, a2, s2))
        | Some (Some mem_addr, bytes2, s2, a2) \<Rightarrow>
          let a3 = (if increased then a2
                    else a2\<lparr>curr_region_allocation_bytes :=
                             wrap64 (curr_region_allocation_bytes a2 * 2)\<rparr>) in
          Some (obind (add_region mem_addr bytes2 a3) (\<lambda>a4. Done (True, a4, s2))))"

definition AllocateRawInternal ::
  "'s sub_alloc \<Rightarrow> nat \<Rightarrow> nat \<Rightarrow> nat \<Rightarrow> nat \<Rightarrow> bfc \<Rightarrow> 's \<Rightarrow>
   (nat option \<times> bfc \<times> 's) outcome option"
where
  "AllocateRawInternal alloc fuel alignment num_bytes freed_before a s =
     (if num_bytes = 0 then Some (Done (None, a, s))
      else let rounded_bytes = RoundedBytes num_bytes; bnum = BinNumForSize rounded_bytes in
        case FindChunkPtr bnum rounded_bytes num_bytes freed_before a of
          Abort \<Rightarrow> Some Abort
        | Done (Some p, a1) \<Rightarrow> Some (Done (Some p, a1, s))
        | Done (None, a1) \<Rightarrow>
          (case Extend alloc fuel alignment rounded_bytes a1 s of
             None \<Rightarrow> None
           | Some Abort \<Rightarrow> Some Abort
           | Some (Done (False, a2, s2)) \<Rightarrow> Some (Done (None, a2, s2))
           | Some (Done (True, a2, s2)) \<Rightarrow>
             Some (obind (FindChunkPtr bnum rounded_bytes num_bytes freed_before a2)
                     (\<lambda>(p, a3). Done (p, a3, s2)))))"

subsection \<open>Construction and queries\<close>

definition BFCAllocator :: "nat \<Rightarrow> bool \<Rightarrow> bfc" where
  "BFCAllocator total_memory allow_growth =
     \<lparr>memory_limit = total_memory,
      curr_region_allocation_bytes =
        (if allow_growth then RoundedBytes (min total_memory 1048576) else RoundedBytes total_memory),
      total_region_allocated_bytes = 0, started_backpedal = False,
      bins = replicate kNumBins [], regions = [], chunks = [], free_chunks_list = None,
      next_allocation_id = 1,
      stats = \<lparr>num_allocs = 0, bytes_in_use = 0, peak_bytes_in_use = 0, largest_alloc_size = 0,
               bytes_limit = Some (int total_memory)\<rparr>,
      timing_counter = None\<rparr>"

text \<open>The \<^verbatim>\<open>CHECK\<close>s the constructor runs on every size class.\<close>

definition constructor_checks :: bool where
  "constructor_checks \<longleftrightarrow>
     list_all (\<lambda>b. let bin_size = BinNumToSize b in
         BinNumForSize bin_size = b \<and> BinNumForSize (bin_size + 255) = b \<and>
         BinNumForSize (bin_size * 2 - 1) = b \<and>
         (b + 1 < kNumBins \<longrightarrow> BinNumForSize (bin_size * 2) \<noteq> b)) [0..<kNumBins]"

definition lookup_chunk :: "nat \<Rightarrow> bfc \<Rightarrow> chunk outcome" where
  "lookup_chunk ptr a = obind (get_handle (regions a) ptr) (\<lambda>ho.
     case ho of None \<Rightarrow> Abort | Some h \<Rightarrow> ChunkFromHandle a h)"

definition RequestedSize :: "nat option \<Rightarrow> bfc \<Rightarrow> nat outcome" where
  "RequestedSize ptr a =
     (case ptr of None \<Rightarrow> Abort
      | Some p \<Rightarrow> obind (lookup_chunk p a) (\<lambda>c. Done (requested_size c)))"

definition AllocatedSize :: "nat \<Rightarrow> bfc \<Rightarrow> nat outcome" where
  "AllocatedSize ptr a = obind (lookup_chunk ptr a) (\<lambda>c. Done (csize c))"

definition AllocationId :: "nat \<Rightarrow> bfc \<Rightarrow> int outcome" where
  "AllocationId ptr a = obind (lookup_chunk ptr a) (\<lambda>c. Done (allocation_id c))"

definition ClearStats :: "bfc \<Rightarrow> bfc" where
  "ClearStats a = a\<lparr>stats := (stats a)\<lparr>num_allocs := 0,
     peak_bytes_in_use := bytes_in_use (stats a), largest_alloc_size := 0\<rparr>\<rparr>"

end
