(* ===== verification/Bits.thy ===== *)
theory Bits
  imports Prelude
begin

text \<open>
  \<^verbatim>\<open>core/lib/core/bits.h\<close>: logarithms and powers of two of 32 and 64-bit numbers, with the portable branch of the header and the branch
  that is compiled with GCC. A shift by a negative number or by the width of the type has no defined result, and is \<open>Abort\<close>.
\<close>

subsection \<open>Logarithms\<close>

text \<open>The loop of the portable \<^verbatim>\<open>Log2Floor\<close>, from \<open>i - 1\<close> down to 0; it returns \<^verbatim>\<open>value\<close> and \<^verbatim>\<open>log\<close>.\<close>

fun log2_loop :: "nat \<Rightarrow> u32 \<Rightarrow> nat \<Rightarrow> u32 \<times> nat" where
  "log2_loop 0 v log = (v, log)"
| "log2_loop (Suc i) v log =
     (let shift = 2 ^ i; x = drop_bit shift v in if x \<noteq> 0 then log2_loop i x (log + shift) else log2_loop i v log)"

definition Log2Floor :: "u32 \<Rightarrow> int" where
  "Log2Floor n = (if n = 0 then - 1 else int (snd (log2_loop 5 n 0)))"

definition Log2Floor64 :: "u64 \<Rightarrow> int" where
  "Log2Floor64 n =
     (let topbits = ucast (drop_bit 32 n) :: u32 in
      if topbits = 0 then Log2Floor (ucast n) else 32 + Log2Floor topbits)"

text \<open>The compiler's count of leading zero bits.\<close>

definition builtin_clz :: "'a::len word \<Rightarrow> nat" where
  "builtin_clz n = length (takeWhile (\<lambda>i. \<not> bit n i) (rev [0..<LENGTH('a)]))"

definition Log2Floor_gnuc :: "u32 \<Rightarrow> int" where
  "Log2Floor_gnuc n = (if n = 0 then - 1 else int (31 XOR builtin_clz n))"

definition Log2Floor64_gnuc :: "u64 \<Rightarrow> int" where
  "Log2Floor64_gnuc n = (if n = 0 then - 1 else int (63 XOR builtin_clz n))"

definition Log2Ceiling :: "u32 \<Rightarrow> int" where
  "Log2Ceiling n = (let fl = Log2Floor n in if n = (n AND NOT (n - 1)) then fl else fl + 1)"

definition Log2Ceiling64 :: "u64 \<Rightarrow> int" where
  "Log2Ceiling64 n = (let fl = Log2Floor64 n in if n = (n AND NOT (n - 1)) then fl else fl + 1)"

subsection \<open>Powers of two\<close>

definition NextPowerOfTwo :: "u32 \<Rightarrow> u32 outcome" where
  "NextPowerOfTwo v = (let e = Log2Ceiling v in if 0 \<le> e \<and> e < 32 then Done (push_bit (nat e) 1) else Abort)"

text \<open>The argument of \<^verbatim>\<open>Log2Ceiling\<close> is converted to 32 bits.\<close>

definition NextPowerOfTwo64 :: "u64 \<Rightarrow> u64 outcome" where
  "NextPowerOfTwo64 v = (let e = Log2Ceiling (ucast v) in if 0 \<le> e \<and> e < 64 then Done (push_bit (nat e) 1) else Abort)"

definition Pow2Rounder :: "nat \<Rightarrow> nat outcome" where
  "Pow2Rounder num_bytes =
     (let e = Log2Ceiling64 (of_nat num_bytes) in if 0 \<le> e \<and> e < 64 then Done (unat (push_bit (nat e) 1 :: u64)) else Abort)"

subsection \<open>Correctness\<close>

lemma log2_unique:
  assumes "2 ^ j \<le> n" "n < 2 ^ Suc j" "2 ^ k \<le> n" "n < (2::nat) ^ Suc k"
  shows "j = k"
proof -
  have "(2::nat) ^ j < 2 ^ Suc k" "(2::nat) ^ k < 2 ^ Suc j" using assms by linarith+
  then have "j < Suc k" "k < Suc j" by (simp_all only: power_strict_increasing_iff one_less_numeral_iff semiring_norm)
  then show ?thesis by simp
qed

lemma log2_loop_ok:
  "v \<noteq> 0 \<Longrightarrow> unat v < 2 ^ 2 ^ i \<Longrightarrow> \<exists>k. log2_loop i v l = (1, l + k) \<and> 2 ^ k \<le> unat v \<and> unat v < 2 ^ Suc k"
proof (induction i arbitrary: v l)
  case 0
  then have "v = 1" by (simp add: word_unat_eq_iff)
  then show ?case by (intro exI [of _ 0]) simp
next
  case (Suc i)
  let ?s = "2 ^ i :: nat" and ?x = "drop_bit (2 ^ i) v"
  have x: "unat ?x = unat v div 2 ^ ?s" by (rule unat_drop_bit_div)
  show ?case
  proof (cases "?x = 0")
    case True
    then have "unat v < 2 ^ ?s" using x by (simp add: div_eq_0_iff)
    then show ?thesis using Suc.IH [OF Suc.prems(1)] True by simp
  next
    case False
    have "unat v < 2 ^ ?s * 2 ^ ?s" using Suc.prems(2) by (simp add: power_add mult_2)
    then have "unat ?x < 2 ^ ?s" unfolding x by (rule less_mult_imp_div_less)
    then obtain k where k: "log2_loop i ?x (l + ?s) = (1, l + ?s + k)" "2 ^ k \<le> unat ?x" "unat ?x < 2 ^ Suc k"
      using Suc.IH [OF False] by blast
    have "2 ^ k * 2 ^ ?s \<le> unat v" using k(2) unfolding x by (simp add: less_eq_div_iff_mult_less_eq)
    moreover have "unat v < 2 ^ Suc k * 2 ^ ?s" using k(3) unfolding x by (simp only: div_less_iff_less_mult zero_less_power zero_less_numeral)
    ultimately show ?thesis using k(1) False by (intro exI [of _ "?s + k"]) (simp add: power_add mult.commute add.assoc)
  qed
qed

lemma Log2Floor_ok:
  assumes "n \<noteq> 0"
  shows "\<exists>k. Log2Floor n = int k \<and> 2 ^ k \<le> unat n \<and> unat n < 2 ^ Suc k"
proof -
  have "unat n < 2 ^ 2 ^ 5" using unsigned_less [of n] by simp
  then show ?thesis using log2_loop_ok [OF assms, of 5 0] assms by (auto simp: Log2Floor_def)
qed

lemma Log2Floor64_ok:
  assumes "n \<noteq> 0"
  shows "\<exists>k. Log2Floor64 n = int k \<and> 2 ^ k \<le> unat n \<and> unat n < 2 ^ Suc k"
proof -
  let ?t = "ucast (drop_bit 32 n) :: u32"
  have d: "unat (drop_bit 32 n) = unat n div 2 ^ 32" by (rule unat_drop_bit_div)
  have "unat n < 2 ^ 64" using unsigned_less [of n] by simp
  then have "unat n div 2 ^ 32 < 2 ^ 32" by simp
  then have t: "unat ?t = unat n div 2 ^ 32" unfolding d [symmetric] by (simp add: unsigned_ucast_eq take_bit_nat_eq_self)
  show ?thesis
  proof (cases "?t = 0")
    case True
    then have "unat n < 2 ^ 32" using t by (simp add: div_eq_0_iff)
    then have u: "unat (ucast n :: u32) = unat n" by (simp add: unsigned_ucast_eq take_bit_nat_eq_self)
    then have "(ucast n :: u32) \<noteq> 0" using assms by (metis unat_eq_zero)
    then show ?thesis using Log2Floor_ok [of "ucast n"] u True by (simp add: Log2Floor64_def)
  next
    case False
    then obtain k where k: "Log2Floor ?t = int k" "2 ^ k \<le> unat n div 2 ^ 32" "unat n div 2 ^ 32 < 2 ^ Suc k" using Log2Floor_ok t by metis
    have "2 ^ k * 2 ^ 32 \<le> unat n" using k(2) by (simp add: less_eq_div_iff_mult_less_eq)
    moreover have "unat n < 2 ^ Suc k * 2 ^ 32" using k(3) by (simp only: div_less_iff_less_mult zero_less_power zero_less_numeral)
    ultimately show ?thesis using k(1) False by (intro exI [of _ "32 + k"]) (simp add: Log2Floor64_def power_add mult.commute)
  qed
qed

lemma xor_63: "c < 64 \<Longrightarrow> (63 :: nat) XOR c = 63 - c"
proof -
  have "\<forall>c \<in> set [0..<64]. (63 :: nat) XOR c = 63 - c"
    by code_simp
  then show "c < 64 \<Longrightarrow> (63 :: nat) XOR c = 63 - c" by simp
qed

lemma takeWhile_rev_upt:
  assumes "k < m" "P k" "\<And>i. k < i \<Longrightarrow> i < m \<Longrightarrow> \<not> P i"
  shows "takeWhile (\<lambda>i. \<not> P i) (rev [0..<m]) = rev [Suc k..<m]"
proof -
  have "rev [0..<m] = rev [Suc k..<m] @ k # rev [0..<k]"
    using assms(1) upt_add_eq_append [of 0 k "m - k"] by (simp add: upt_conv_Cons)
  then show ?thesis using assms by (simp only:) (subst takeWhile_append2, auto)
qed

lemma bit_top: "2 ^ k \<le> n \<Longrightarrow> n < 2 ^ Suc k \<Longrightarrow> bit (n::nat) k"
proof -
  assume "2 ^ k \<le> n" "n < 2 ^ Suc k"
  then have "n div 2 ^ k = 1" by (intro div_nat_eqI) simp_all
  then show ?thesis by (simp add: bit_iff_odd)
qed

lemma bit_above: "n < 2 ^ Suc k \<Longrightarrow> k < i \<Longrightarrow> \<not> bit (n::nat) i"
proof -
  assume "n < 2 ^ Suc k" "k < i"
  moreover have "(2::nat) ^ Suc k \<le> 2 ^ i" using \<open>k < i\<close> by (intro power_increasing) auto
  ultimately have "n div 2 ^ i = 0" by simp
  then show ?thesis by (simp add: bit_iff_odd)
qed

lemma xor_31: "c < 32 \<Longrightarrow> (31 :: nat) XOR c = 31 - c"
proof -
  have "\<forall>c \<in> set [0..<32]. (31 :: nat) XOR c = 31 - c"
    by code_simp
  then show "c < 32 \<Longrightarrow> (31 :: nat) XOR c = 31 - c" by simp
qed

lemma word_bit_unat: "bit n i = bit (unat n) i" for n :: "'a::len word"
  by (auto simp: bit_simps dest: bit_imp_le_length)

lemma builtin_clz_eq:
  fixes n :: "'a::len word"
  assumes "2 ^ k \<le> unat n" "unat n < 2 ^ Suc k"
  shows "builtin_clz n = LENGTH('a) - 1 - k" "k < LENGTH('a)"
proof -
  have "(2::nat) ^ k < 2 ^ LENGTH('a)" using assms(1) unsigned_less [of n] le_less_trans by blast
  then show k: "k < LENGTH('a)" by simp
  show "builtin_clz n = LENGTH('a) - 1 - k"
    unfolding builtin_clz_def
    using takeWhile_rev_upt [of k "LENGTH('a)" "bit n"] bit_top [OF assms] bit_above [OF assms(2)] k by (simp add: word_bit_unat)
qed

lemma Log2Floor_gnuc_eq: "Log2Floor_gnuc n = Log2Floor n"
proof (cases "n = 0")
  case False
  then obtain k where k: "Log2Floor n = int k" "2 ^ k \<le> unat n" "unat n < 2 ^ Suc k" using Log2Floor_ok by blast
  show ?thesis using builtin_clz_eq [OF k(2,3)] k(1) False by (simp add: Log2Floor_gnuc_def xor_31)
qed (simp add: Log2Floor_gnuc_def Log2Floor_def)

lemma Log2Floor64_gnuc_eq: "Log2Floor64_gnuc n = Log2Floor64 n"
proof (cases "n = 0")
  case False
  then obtain k where k: "Log2Floor64 n = int k" "2 ^ k \<le> unat n" "unat n < 2 ^ Suc k" using Log2Floor64_ok by blast
  show ?thesis using builtin_clz_eq [OF k(2,3)] k(1) False by (simp add: Log2Floor64_gnuc_def xor_63)
qed (simp add: Log2Floor64_gnuc_def Log2Floor64_def Log2Floor_def)

text \<open>The test for a power of two.\<close>

lemma lowest_bit_test:
  fixes n :: "'a::len word"
  assumes "2 ^ k \<le> unat n" "unat n < 2 ^ Suc k"
  shows "n = (n AND NOT (n - 1)) \<longleftrightarrow> unat n = 2 ^ k"
proof
  have "n \<noteq> 0" using assms(1) by auto
  then have m: "unat (n - 1) = unat n - 1" by (simp add: unat_minus_one)
  show "unat n = 2 ^ k" if e: "n = (n AND NOT (n - 1))"
  proof (rule ccontr)
    assume "unat n \<noteq> 2 ^ k"
    then have "2 ^ k \<le> unat (n - 1)" "unat (n - 1) < 2 ^ Suc k" using assms unfolding m by linarith+
    then have "bit (n - 1) k" unfolding word_bit_unat by (rule bit_top)
    moreover have "bit n k" using assms unfolding word_bit_unat by (rule bit_top)
    ultimately show False using e by (metis bit_and_iff bit_not_iff)
  qed
  assume p: "unat n = 2 ^ k"
  show "n = (n AND NOT (n - 1))"
  proof (rule bit_word_eqI)
    fix i assume i: "i < LENGTH('a)"
    have "bit (n - 1) i \<longleftrightarrow> i < k" unfolding word_bit_unat m p by (simp only: bit_mask_iff flip: mask_eq_exp_minus_1) simp
    moreover have "bit n i \<longleftrightarrow> i = k" unfolding word_bit_unat p by (simp add: bit_exp_iff)
    ultimately show "bit n i = bit (n AND NOT (n - 1)) i" using i by (auto simp: bit_simps)
  qed
qed

lemma ceiling_of_floor:
  fixes n :: "'a::len word"
  assumes "2 ^ k \<le> unat n" "unat n < 2 ^ Suc k"
  shows "\<exists>j. (if n = (n AND NOT (n - 1)) then int k else int k + 1) = int j \<and> unat n \<le> 2 ^ j \<and> (\<forall>i. unat n \<le> 2 ^ i \<longrightarrow> j \<le> i)"
proof (cases "unat n = 2 ^ k")
  case True
  then show ?thesis using lowest_bit_test [OF assms] by (intro exI [of _ k]) simp
next
  case False
  then have "2 ^ k < unat n" using assms(1) by simp
  then have "Suc k \<le> i" if "unat n \<le> 2 ^ i" for i
  proof -
    have "(2::nat) ^ k < 2 ^ i" using that \<open>2 ^ k < unat n\<close> by linarith
    then show ?thesis by simp
  qed
  then show ?thesis using False lowest_bit_test [OF assms] assms(2) by (intro exI [of _ "Suc k"]) auto
qed

lemma Log2Ceiling_ok:
  assumes "n \<noteq> 0"
  shows "\<exists>j. Log2Ceiling n = int j \<and> unat n \<le> 2 ^ j \<and> (\<forall>i. unat n \<le> 2 ^ i \<longrightarrow> j \<le> i)"
proof -
  obtain k where k: "Log2Floor n = int k" "2 ^ k \<le> unat n" "unat n < 2 ^ Suc k" using Log2Floor_ok [OF assms] by blast
  show ?thesis unfolding Log2Ceiling_def Let_def k(1) using k(2,3) by (rule ceiling_of_floor)
qed

lemma Log2Ceiling64_ok:
  assumes "n \<noteq> 0"
  shows "\<exists>j. Log2Ceiling64 n = int j \<and> unat n \<le> 2 ^ j \<and> (\<forall>i. unat n \<le> 2 ^ i \<longrightarrow> j \<le> i)"
proof -
  obtain k where k: "Log2Floor64 n = int k" "2 ^ k \<le> unat n" "unat n < 2 ^ Suc k" using Log2Floor64_ok [OF assms] by blast
  show ?thesis unfolding Log2Ceiling64_def Let_def k(1) using k(2,3) by (rule ceiling_of_floor)
qed

lemma unat_push_bit_1: "k < LENGTH('a) \<Longrightarrow> unat (push_bit k 1 :: 'a::len word) = 2 ^ k"
  by (simp only: unsigned_push_bit_eq unsigned_1) (simp add: take_bit_nat_eq_self)

lemma Pow2Rounder_ok:
  assumes "0 < n" "n \<le> 2 ^ 63"
  shows "\<exists>j. Pow2Rounder n = Done (2 ^ j) \<and> n \<le> 2 ^ j \<and> (\<forall>i. n \<le> 2 ^ i \<longrightarrow> j \<le> i)"
proof -
  have u: "unat (of_nat n :: u64) = n" using assms(2) by (simp add: unat_of_nat take_bit_nat_eq_self)
  then have "(of_nat n :: u64) \<noteq> 0" using assms(1) by (metis unat_0 less_irrefl)
  then obtain j where j: "Log2Ceiling64 (of_nat n) = int j" "n \<le> 2 ^ j" "\<forall>i. n \<le> 2 ^ i \<longrightarrow> j \<le> i"
    using Log2Ceiling64_ok [of "of_nat n"] u by auto
  have "j \<le> 63" using j(3) assms(2) by blast
  then show ?thesis using j by (intro exI [of _ j]) (simp add: Pow2Rounder_def unat_push_bit_1 del: push_bit_of_1)
qed

subsection \<open>Properties\<close>

text \<open>
  Of a 64-bit number that is not 0, the portable code and the code for GCC compute the same logarithm, which is the floor of the
  logarithm to the base 2, and \<^verbatim>\<open>Log2Ceiling64\<close> is its ceiling: the least exponent of a power of two that is not below the number. Of 0
  the logarithm is -1.
\<close>

theorem log2_exact:
  "Log2Floor64_gnuc n = Log2Floor64 n \<and>
   (if n = 0 then Log2Floor64 n = - 1 \<and> Log2Ceiling64 n = - 1
    else \<exists>k j. Log2Floor64 n = int k \<and> 2 ^ k \<le> unat n \<and> unat n < 2 ^ Suc k \<and>
      Log2Ceiling64 n = int j \<and> unat n \<le> 2 ^ j \<and> (\<forall>i. 2 ^ i < unat n \<longleftrightarrow> i < j))"
proof (cases "n = 0")
  case True
  then show ?thesis by (simp add: Log2Floor64_gnuc_eq Log2Floor64_def Log2Floor_def Log2Ceiling64_def)
next
  case False
  obtain k where "Log2Floor64 n = int k \<and> 2 ^ k \<le> unat n \<and> unat n < 2 ^ Suc k" using Log2Floor64_ok [OF False] by blast
  moreover obtain j where j: "Log2Ceiling64 n = int j" "unat n \<le> 2 ^ j" "\<forall>i. unat n \<le> 2 ^ i \<longrightarrow> j \<le> i" using Log2Ceiling64_ok [OF False] by blast
  moreover have "2 ^ i < unat n \<longleftrightarrow> i < j" for i
  proof
    assume "2 ^ i < unat n"
    then have "(2::nat) ^ i < 2 ^ j" using j(2) by linarith
    then show "i < j" by simp
  next
    assume "i < j"
    then show "2 ^ i < unat n" using j(3) by (meson linorder_not_less)
  qed
  ultimately show ?thesis using False Log2Floor64_gnuc_eq by simp
qed

text \<open>
  \<^verbatim>\<open>NextPowerOfTwo64\<close> looks only at the lower half of its argument, because it calls the 32-bit logarithm. From 1 to \<open>2 ^ 32 - 1\<close> the
  result is the least power of two that is not below the argument; of a multiple of \<open>2 ^ 32\<close> it is undefined, and of every larger
  argument it is smaller than the argument.
\<close>

theorem next_power_truncates:
  "if (ucast v :: u32) = 0 then NextPowerOfTwo64 v = Abort
   else \<exists>j. NextPowerOfTwo64 v = Done (push_bit j 1) \<and> j \<le> 32 \<and> unat v mod 2 ^ 32 \<le> 2 ^ j \<and> (\<forall>i. unat v mod 2 ^ 32 \<le> 2 ^ i \<longrightarrow> j \<le> i) \<and>
     (2 ^ 32 \<le> unat v \<longrightarrow> 2 ^ j < unat v)"
proof (cases "(ucast v :: u32) = 0")
  case True
  then show ?thesis by (simp add: NextPowerOfTwo64_def Log2Ceiling_def Log2Floor_def)
next
  case False
  let ?w = "ucast v :: u32"
  have u: "unat ?w = unat v mod 2 ^ 32" by (simp add: unsigned_ucast_eq take_bit_eq_mod)
  obtain j where j: "Log2Ceiling ?w = int j" "unat ?w \<le> 2 ^ j" "\<forall>i. unat ?w \<le> 2 ^ i \<longrightarrow> j \<le> i" using Log2Ceiling_ok [OF False] by blast
  have "unat ?w \<le> 2 ^ 32" unfolding u by (intro less_imp_le mod_less_divisor) simp
  then have le: "j \<le> 32" using j(3) by blast
  moreover have "2 ^ j < unat v" if "2 ^ 32 \<le> unat v"
  proof -
    have "unat v \<noteq> 2 ^ 32" using u False by (auto simp: word_unat_eq_iff)
    moreover have "(2::nat) ^ j \<le> 2 ^ 32" using le by (intro power_increasing) simp_all
    ultimately show ?thesis using that by linarith
  qed
  moreover have "NextPowerOfTwo64 v = Done (push_bit j 1)" using j(1) le by (simp add: NextPowerOfTwo64_def)
  ultimately show ?thesis using False j(2,3) unfolding u by auto
qed

end
