(* ===== verification/Bfc_Sizes.thy ===== *)
theory Bfc_Sizes
  imports Bfc_Allocator Bits
begin

text \<open>
  Arithmetic of \<^verbatim>\<open>core/common_runtime/bfc_allocator\<close>: rounding to the minimum allocation size, the size
  class of a chunk (\<^verbatim>\<open>BinNumForSize\<close> through \<^verbatim>\<open>Log2FloorNonZero\<close>), and the address arithmetic of the
  region table, where sorted disjoint regions make the \<^verbatim>\<open>upper_bound\<close> search find the region that
  holds an address.
\<close>

lemmas bfc_consts = kNumBins_def kMinAllocationBits_def kMinAllocationSize_def

lemma RoundedBytes_eq: "bytes + 255 < 2 ^ 64 \<Longrightarrow> RoundedBytes bytes = 256 * ((bytes + 255) div 256)"
  by (simp add: RoundedBytes_def bfc_consts)

lemma RoundedBytes_dvd [simp]: "256 dvd RoundedBytes b"
  by (simp add: RoundedBytes_def bfc_consts)

lemma round_up_256: "(b::nat) \<le> 256 * ((b + 255) div 256)" "256 * ((b + 255) div 256) < b + 256"
  using div_mult_mod_eq [of "b + 255" 256] mod_less_divisor [of 256 "b + 255"] by linarith+

lemma RoundedBytes_ge: "bytes + 255 < 2 ^ 64 \<Longrightarrow> bytes \<le> RoundedBytes bytes"
  by (simp only: RoundedBytes_eq round_up_256)

lemma RoundedBytes_less: "bytes + 255 < 2 ^ 64 \<Longrightarrow> RoundedBytes bytes < bytes + 256"
  by (simp only: RoundedBytes_eq round_up_256)

lemma RoundedBytes_id: "256 dvd b \<Longrightarrow> b < 2 ^ 64 \<Longrightarrow> RoundedBytes b = b"
proof -
  assume a: "256 dvd b" "b < 2 ^ 64"
  then have "b + 255 < 2 ^ 64" by (auto elim!: dvdE)
  then show ?thesis using a by (auto simp: RoundedBytes_eq elim!: dvdE)
qed

lemma Log2FloorNonZero_eq:
  assumes "2 ^ k \<le> n" "n < 2 ^ Suc k" "k < 64"
  shows "Log2FloorNonZero n = k"
proof -
  have "builtin_clzll n = 63 - k"
    unfolding builtin_clzll_def
    using takeWhile_rev_upt [of k 64 "bit n"] bit_top [OF assms(1,2)] bit_above [OF assms(2)] assms(3) by simp
  then show ?thesis using assms(3) by (simp add: Log2FloorNonZero_def xor_63)
qed

lemma log_exists: "0 < n \<Longrightarrow> n < 2 ^ 64 \<Longrightarrow> \<exists>k < 64. 2 ^ k \<le> n \<and> n < (2::nat) ^ Suc k"
  using ex_power_ivl1 [of 2 n]
  by (metis One_nat_def Suc_eq_plus1 Suc_leI le_refl linorder_not_less nat_power_less_imp_less order_le_less_trans  zero_less_numeral)

lemma Log2FloorNonZero_bounds:
  assumes "0 < n" "n < 2 ^ 64"
  shows "2 ^ Log2FloorNonZero n \<le> n" "n < 2 ^ Suc (Log2FloorNonZero n)"
  using log_exists [OF assms] Log2FloorNonZero_eq by auto

lemma Log2FloorNonZero_mono:
  assumes "0 < m" "m \<le> n" "n < 2 ^ 64"
  shows "Log2FloorNonZero m \<le> Log2FloorNonZero n"
proof -
  from assms Log2FloorNonZero_bounds [of m] Log2FloorNonZero_bounds [of n]
  have "(2::nat) ^ Log2FloorNonZero m < 2 ^ Suc (Log2FloorNonZero n)" by linarith
  then have "Log2FloorNonZero m < Suc (Log2FloorNonZero n)" by (simp only: power_strict_increasing_iff)
  then show ?thesis by simp
qed

lemma BinNumForSize_less: "BinNumForSize b < kNumBins"
  by (simp add: BinNumForSize_def bfc_consts Let_def)

lemma BinNumForSize_mono:
  assumes "m \<le> n" "n < 2 ^ 64"
  shows "BinNumForSize m \<le> BinNumForSize n"
proof -
  have "max m 256 div 2 ^ 8 \<le> max n 256 div 2 ^ 8" using assms by (intro div_le_mono) simp
  moreover have "0 < max m 256 div 2 ^ 8" "max n 256 div 2 ^ 8 < 2 ^ 64" using assms by simp_all
  ultimately show ?thesis
    unfolding BinNumForSize_def kMinAllocationBits_def Let_def
    by (intro min.mono order_refl Log2FloorNonZero_mono)
qed

lemma BinNumForSize_bounds:
  assumes "256 \<le> n" "n < 2 ^ 64"
  shows "256 * 2 ^ BinNumForSize n \<le> n"
    "BinNumForSize n < kNumBins - 1 \<Longrightarrow> n < 2 * (256 * 2 ^ BinNumForSize n)"
proof -
  define v where "v = n div 256"
  have v: "0 < v" "v < 2 ^ 64" using assms by (simp_all add: v_def div_greater_zero_iff)
  have b: "BinNumForSize n = min 20 (Log2FloorNonZero v)"
    using assms by (simp add: BinNumForSize_def bfc_consts v_def max_def Let_def)
  have "(2::nat) ^ BinNumForSize n \<le> 2 ^ Log2FloorNonZero v" unfolding b by (intro power_increasing) simp_all
  also have "\<dots> \<le> v" by (rule Log2FloorNonZero_bounds [OF v])
  finally show "256 * 2 ^ BinNumForSize n \<le> n" unfolding v_def by linarith
  assume "BinNumForSize n < kNumBins - 1"
  then have "BinNumForSize n = Log2FloorNonZero v" by (simp add: b bfc_consts)
  with Log2FloorNonZero_bounds(2) [OF v] have "v < 2 * 2 ^ BinNumForSize n" by simp
  then show "n < 2 * (256 * 2 ^ BinNumForSize n)" unfolding v_def by linarith
qed

lemma BinNumForSize_eq:
  assumes "256 * 2 ^ b \<le> n" "n < 2 * (256 * 2 ^ b)" "b < kNumBins"
  shows "BinNumForSize n = b"
proof -
  have b: "b \<le> 20" using assms(3) by (simp add: bfc_consts)
  then have "(2::nat) ^ b \<le> 2 ^ 20" by (intro power_increasing) simp_all
  with assms have n: "256 \<le> n" "n < 2 ^ 64" by (simp_all add: order_trans [OF _ assms(1)])
  have "Log2FloorNonZero (n div 256) = b"
    using assms b by (intro Log2FloorNonZero_eq) (simp_all add: less_mult_imp_div_less div_le_mono order_trans [OF _ div_le_mono [OF assms(1), of 256]])
  then show ?thesis using b n by (simp add: BinNumForSize_def bfc_consts Let_def)
qed

lemma BinNumToSize_eq: "b < kNumBins \<Longrightarrow> BinNumToSize b = 256 * 2 ^ b"
proof -
  assume "b < kNumBins"
  then have "(2::nat) ^ b \<le> 2 ^ 20" by (intro power_increasing) (simp_all add: bfc_consts)
  then show ?thesis by (simp add: BinNumToSize_def)
qed

lemma constructor_checks: "constructor_checks"
proof -
  have "BinNumForSize (256 * 2 ^ b) = b" "BinNumForSize (256 * 2 ^ b + 255) = b"
    "BinNumForSize (256 * 2 ^ b * 2 - 1) = b" if "b < kNumBins" for b
    using that one_le_power [of "2::nat" b] by (intro BinNumForSize_eq; linarith)+
  moreover have "BinNumForSize (256 * 2 ^ b * 2) = Suc b" if "b + 1 < kNumBins" for b
    using that by (intro BinNumForSize_eq) simp_all
  ultimately show ?thesis by (simp add: constructor_checks_def list_all_iff BinNumToSize_eq Let_def)
qed

subsection \<open>Regions\<close>

definition inside :: "region \<Rightarrow> nat \<Rightarrow> bool" where
  "inside r p \<longleftrightarrow> rptr r \<le> p \<and> p < end_ptr r"

definition geom_ok :: "region list \<Rightarrow> bool" where
  "geom_ok rs \<longleftrightarrow> sorted_wrt (\<lambda>r r'. end_ptr r \<le> rptr r') rs \<and>
     (\<forall>r \<in> set rs. 0 < memory_size r \<and> 256 dvd memory_size r \<and> end_ptr r < 2 ^ 64 \<and>
        length (handles r) = memory_size r div 256)"

lemma RegionFor_inside:
  assumes "geom_ok rs" "i < length rs" "inside (rs ! i) p"
  shows "RegionFor rs p = Done i"
  using assms
proof (induction rs arbitrary: i)
  case (Cons r rs)
  show ?case
  proof (cases i)
    case 0 with Cons.prems show ?thesis by (simp add: inside_def)
  next
    case (Suc j)
    with Cons.prems have j: "j < length rs" "inside (rs ! j) p" "geom_ok rs" by (auto simp: geom_ok_def)
    moreover have "end_ptr r \<le> rptr (rs ! j)" using Cons.prems j by (auto simp: geom_ok_def)
    ultimately show ?thesis using Suc Cons.IH [of j] by (auto simp: inside_def)
  qed
qed simp

lemma IndexFor_inside: "inside r p \<Longrightarrow> IndexFor r p = Done ((p - rptr r) div 256)"
  by (simp add: inside_def IndexFor_def end_ptr_def bfc_consts)

lemma get_handle_inside:
  assumes "geom_ok rs" "i < length rs" "inside (rs ! i) p"
  shows "get_handle rs p = Done (handles (rs ! i) ! ((p - rptr (rs ! i)) div 256))"
  using assms by (simp add: get_handle_def RegionFor_inside IndexFor_inside)

definition put_handle :: "nat \<Rightarrow> nat \<Rightarrow> handle option \<Rightarrow> region list \<Rightarrow> region list" where
  "put_handle i p h rs = rs[i := (rs ! i)\<lparr>handles := (handles (rs ! i))[(p - rptr (rs ! i)) div 256 := h]\<rparr>]"

lemma set_handle_inside:
  assumes "geom_ok rs" "i < length rs" "inside (rs ! i) p"
  shows "set_handle p h rs = Done (put_handle i p h rs)"
  using assms by (simp add: set_handle_def RegionFor_inside IndexFor_inside put_handle_def)

lemma put_handle_nth:
  assumes "i < length rs" "j < length rs"
  shows "rptr (put_handle i p h rs ! j) = rptr (rs ! j)" "memory_size (put_handle i p h rs ! j) = memory_size (rs ! j)"
    "end_ptr (put_handle i p h rs ! j) = end_ptr (rs ! j)"
    "length (handles (put_handle i p h rs ! j)) = length (handles (rs ! j))"
    "length (put_handle i p h rs) = length rs"
  using assms by (auto simp: put_handle_def nth_list_update end_ptr_def)

end
