(* ===== verification/Bfc_Layout.thy ===== *)
theory Bfc_Layout
  imports Bfc_Sizes
begin

text \<open>
  How the chunks lie in memory. An extent is the address range of a region; the chunks of the table
  that are in service tile the extents without overlap, their \<^verbatim>\<open>prev\<close>/\<^verbatim>\<open>next\<close> links follow the address
  order, and the handle table of a region leads from the start of a chunk back to the chunk. Splitting
  a chunk, merging two neighbours and adding a region keep all of this.
\<close>

type_synonym extents = "(nat \<times> nat) set"

definition slots :: "extents \<Rightarrow> nat set" where
  "slots G = {p. \<exists>(b, e) \<in> G. b \<le> p \<and> p < e \<and> 256 dvd p - b}"

definition extents_ok :: "extents \<Rightarrow> bool" where
  "extents_ok G \<longleftrightarrow> (\<forall>(b, e) \<in> G. b < e \<and> 256 dvd e - b \<and> e < 2 ^ 64) \<and>
     (\<forall>(b, e) \<in> G. \<forall>(b', e') \<in> G. (b, e) \<noteq> (b', e') \<longrightarrow> e \<le> b' \<or> e' \<le> b)"

definition chunk_ok :: "handle set \<Rightarrow> (handle \<Rightarrow> chunk) \<Rightarrow> extents \<Rightarrow> bool" where
  "chunk_ok A cs G \<longleftrightarrow> (\<forall>h \<in> A. 0 < csize (cs h) \<and> 256 dvd csize (cs h) \<and>
     (\<exists>(b, e) \<in> G. b \<le> cptr (cs h) \<and> cptr (cs h) + csize (cs h) \<le> e \<and> 256 dvd cptr (cs h) - b))"

definition handle_ok :: "handle set \<Rightarrow> (handle \<Rightarrow> chunk) \<Rightarrow> extents \<Rightarrow> (nat \<Rightarrow> handle option) \<Rightarrow> bool" where
  "handle_ok A cs G H \<longleftrightarrow> (\<forall>h \<in> A. H (cptr (cs h)) = Some h) \<and>
     (\<forall>p h. p \<in> slots G \<longrightarrow> H p = Some h \<longrightarrow> h \<in> A \<and> cptr (cs h) = p)"

definition next_ok :: "handle set \<Rightarrow> (handle \<Rightarrow> chunk) \<Rightarrow> extents \<Rightarrow> bool" where
  "next_ok A cs G \<longleftrightarrow> (\<forall>h \<in> A.
     (cnext (cs h) = None \<longrightarrow> (\<exists>(b, e) \<in> G. b \<le> cptr (cs h) \<and> cptr (cs h) + csize (cs h) = e)) \<and>
     (\<forall>n. cnext (cs h) = Some n \<longrightarrow> n \<in> A \<and> cprev (cs n) = Some h \<and>
        cptr (cs n) = cptr (cs h) + csize (cs h) \<and>
        (\<exists>(b, e) \<in> G. b \<le> cptr (cs h) \<and> cptr (cs n) + csize (cs n) \<le> e)))"

definition prev_ok :: "handle set \<Rightarrow> (handle \<Rightarrow> chunk) \<Rightarrow> extents \<Rightarrow> bool" where
  "prev_ok A cs G \<longleftrightarrow> (\<forall>h \<in> A.
     (cprev (cs h) = None \<longrightarrow> (\<exists>e. (cptr (cs h), e) \<in> G)) \<and>
     (\<forall>p. cprev (cs h) = Some p \<longrightarrow> p \<in> A \<and> cnext (cs p) = Some h))"

definition disj_ok :: "handle set \<Rightarrow> (handle \<Rightarrow> chunk) \<Rightarrow> bool" where
  "disj_ok A cs \<longleftrightarrow> (\<forall>h \<in> A. \<forall>k \<in> A. h \<noteq> k \<longrightarrow>
     cptr (cs h) + csize (cs h) \<le> cptr (cs k) \<or> cptr (cs k) + csize (cs k) \<le> cptr (cs h))"

definition cover_ok :: "handle set \<Rightarrow> (handle \<Rightarrow> chunk) \<Rightarrow> extents \<Rightarrow> bool" where
  "cover_ok A cs G \<longleftrightarrow> (\<forall>(b, e) \<in> G. \<forall>p. b \<le> p \<and> p < e \<longrightarrow>
     (\<exists>h \<in> A. cptr (cs h) \<le> p \<and> p < cptr (cs h) + csize (cs h)))"

text \<open>The chunk table after a split and after a merge.\<close>

definition split_cs :: "handle \<Rightarrow> handle \<Rightarrow> nat \<Rightarrow> (handle \<Rightarrow> chunk) \<Rightarrow> handle \<Rightarrow> chunk" where
  "split_cs h new n cs = (let c = cs h;
      cs1 = cs(new := (cs new)\<lparr>cptr := cptr c + n, csize := csize c - n, allocation_id := -1,
           freed_count := freed_count c, cprev := Some h, cnext := cnext c\<rparr>);
      cs2 = cs1(h := c\<lparr>csize := n, cnext := Some new\<rparr>) in
      case cnext c of None \<Rightarrow> cs2 | Some k \<Rightarrow> cs2(k := (cs2 k)\<lparr>cprev := Some new\<rparr>))"

definition merge_cs :: "handle \<Rightarrow> handle \<Rightarrow> (handle \<Rightarrow> chunk) \<Rightarrow> handle \<Rightarrow> chunk" where
  "merge_cs h1 h2 cs = (let c2 = cs h2;
      cs1 = cs(h1 := (cs h1)\<lparr>cnext := cnext c2\<rparr>);
      cs2 = (case cnext c2 of None \<Rightarrow> cs1 | Some k \<Rightarrow> cs1(k := (cs1 k)\<lparr>cprev := Some h1\<rparr>)) in
      cs2(h1 := (cs2 h1)\<lparr>csize := csize (cs2 h1) + csize c2,
            freed_count := max (freed_count (cs2 h1)) (freed_count c2)\<rparr>))"


definition layout_ok :: "handle set \<Rightarrow> (handle \<Rightarrow> chunk) \<Rightarrow> extents \<Rightarrow> bool" where
  "layout_ok A cs G \<longleftrightarrow> extents_ok G \<and> chunk_ok A cs G \<and> next_ok A cs G \<and> prev_ok A cs G \<and> disj_ok A cs \<and> cover_ok A cs G"

definition can_split :: "handle set \<Rightarrow> (handle \<Rightarrow> chunk) \<Rightarrow> handle \<Rightarrow> handle \<Rightarrow> nat \<Rightarrow> bool" where
  "can_split A cs h new n \<longleftrightarrow> h \<in> A \<and> new \<notin> A \<and> 0 < n \<and> n < csize (cs h) \<and> 256 dvd n"

lemma chunkD:
  assumes "chunk_ok A cs G" "h \<in> A"
  shows "0 < csize (cs h)" "256 dvd csize (cs h)"
    "\<exists>(b, e) \<in> G. b \<le> cptr (cs h) \<and> cptr (cs h) + csize (cs h) \<le> e \<and> 256 dvd cptr (cs h) - b"
  using assms unfolding chunk_ok_def by blast+

lemma chunk_okI:
  assumes "\<And>h. h \<in> A \<Longrightarrow> 0 < csize (cs h) \<and> 256 dvd csize (cs h) \<and>
    (\<exists>(b, e) \<in> G. b \<le> cptr (cs h) \<and> cptr (cs h) + csize (cs h) \<le> e \<and> 256 dvd cptr (cs h) - b)"
  shows "chunk_ok A cs G"
  using assms unfolding chunk_ok_def by blast

lemma disjD:
  assumes "disj_ok A cs" "h \<in> A" "k \<in> A" "h \<noteq> k"
  shows "cptr (cs h) + csize (cs h) \<le> cptr (cs k) \<or> cptr (cs k) + csize (cs k) \<le> cptr (cs h)"
  using assms unfolding disj_ok_def by blast

lemma nextD:
  assumes "next_ok A cs G" "h \<in> A" "cnext (cs h) = Some k"
  shows "k \<in> A" "cprev (cs k) = Some h" "cptr (cs k) = cptr (cs h) + csize (cs h)"
    "\<exists>(b, e) \<in> G. b \<le> cptr (cs h) \<and> cptr (cs k) + csize (cs k) \<le> e"
  using assms unfolding next_ok_def by blast+

lemma next_neq:
  assumes "layout_ok A cs G" "h \<in> A" "cnext (cs h) = Some k"
  shows "k \<noteq> h"
  using nextD [of A cs G h k] assms unfolding layout_ok_def chunk_ok_def by auto

lemma split_simps:
  assumes "layout_ok A cs G" "can_split A cs h new n"
  shows
  "cptr (split_cs h new n cs k) = (if k = new then cptr (cs h) + n else cptr (cs k))"
  "csize (split_cs h new n cs k) = (if k = new then csize (cs h) - n else if k = h then n else csize (cs k))"
  "cnext (split_cs h new n cs k) = (if k = new then cnext (cs h) else if k = h then Some new else cnext (cs k))"
  "cprev (split_cs h new n cs k) = (if k = new then Some h else if cnext (cs h) = Some k then Some new else cprev (cs k))"
  "allocation_id (split_cs h new n cs k) = (if k = new then -1 else allocation_id (cs k))"
  "bin_num (split_cs h new n cs k) = bin_num (cs k)"
  "requested_size (split_cs h new n cs k) = requested_size (cs k)"
  "freed_count (split_cs h new n cs k) = (if k = new then freed_count (cs h) else freed_count (cs k))"
proof -
  have hn: "h \<noteq> new" "h \<in> A" "new \<notin> A" using assms(2) by (auto simp: can_split_def)
  have nx: "next_ok A cs G" using assms(1) by (simp add: layout_ok_def)
  have "cnext (cs h) = None \<or> (\<exists>m. cnext (cs h) = Some m \<and> m \<noteq> h \<and> m \<noteq> new)"
    using next_neq [OF assms(1) hn(2)] nextD(1) [OF nx hn(2)] hn by (metis option.exhaust)
  then show "cptr (split_cs h new n cs k) = (if k = new then cptr (cs h) + n else cptr (cs k))"
  "csize (split_cs h new n cs k) = (if k = new then csize (cs h) - n else if k = h then n else csize (cs k))"
  "cnext (split_cs h new n cs k) = (if k = new then cnext (cs h) else if k = h then Some new else cnext (cs k))"
  "cprev (split_cs h new n cs k) = (if k = new then Some h else if cnext (cs h) = Some k then Some new else cprev (cs k))"
  "allocation_id (split_cs h new n cs k) = (if k = new then -1 else allocation_id (cs k))"
  "bin_num (split_cs h new n cs k) = bin_num (cs k)"
  "requested_size (split_cs h new n cs k) = requested_size (cs k)"
  "freed_count (split_cs h new n cs k) = (if k = new then freed_count (cs h) else freed_count (cs k))"
    using hn by (elim disjE exE; simp add: split_cs_def Let_def; fail)+
qed

lemma split_chunk_ok:
  assumes L: "layout_ok A cs G" and S: "can_split A cs h new n"
  shows "chunk_ok (insert new A) (split_cs h new n cs) G"
proof (rule chunk_okI, unfold split_simps [OF L S])
  fix x assume x: "x \<in> insert new A"
  have c: "chunk_ok A cs G" and S': "h \<in> A" "new \<notin> A" "0 < n" "n < csize (cs h)" "256 dvd n" using L S by (auto simp: layout_ok_def can_split_def)
  from chunkD(3) [OF c S'(1)] obtain b e where be: "(b, e) \<in> G" "b \<le> cptr (cs h)" "cptr (cs h) + csize (cs h) \<le> e" "256 dvd cptr (cs h) - b"
    by blast
  have "256 dvd cptr (cs h) + n - b" using be S' by (metis Nat.add_diff_assoc2 dvd_add)
  moreover have "256 dvd csize (cs h) - n" using chunkD(2) [OF c S'(1)] S' by (simp add: dvd_diff_nat)
  moreover have "x \<noteq> new \<Longrightarrow> x \<in> A" using x by simp
  ultimately show "0 < (if x = new then csize (cs h) - n else if x = h then n else csize (cs x)) \<and>
    256 dvd (if x = new then csize (cs h) - n else if x = h then n else csize (cs x)) \<and>
    (\<exists>(b, e) \<in> G. b \<le> (if x = new then cptr (cs h) + n else cptr (cs x)) \<and>
       (if x = new then cptr (cs h) + n else cptr (cs x)) + (if x = new then csize (cs h) - n else if x = h then n else csize (cs x)) \<le> e \<and>
       256 dvd (if x = new then cptr (cs h) + n else cptr (cs x)) - b)"
    using be S' chunkD [OF c, of x] by (cases "x = new"; cases "x = h") (auto intro!: bexI [of _ "(b, e)"])
qed

lemma next_okI:
  assumes "\<And>h. h \<in> A \<Longrightarrow> cnext (cs h) = None \<Longrightarrow> \<exists>(b, e) \<in> G. b \<le> cptr (cs h) \<and> cptr (cs h) + csize (cs h) = e"
    and "\<And>h k. h \<in> A \<Longrightarrow> cnext (cs h) = Some k \<Longrightarrow> k \<in> A \<and> cprev (cs k) = Some h \<and>
        cptr (cs k) = cptr (cs h) + csize (cs h) \<and>
        (\<exists>(b, e) \<in> G. b \<le> cptr (cs h) \<and> cptr (cs k) + csize (cs k) \<le> e)"
  shows "next_ok A cs G"
  using assms unfolding next_ok_def by blast

lemma split_next_ok:
  assumes L: "layout_ok A cs G" and S: "can_split A cs h new n"
  shows "next_ok (insert new A) (split_cs h new n cs) G"
proof -
  have c: "chunk_ok A cs G" "next_ok A cs G" and S': "h \<in> A" "new \<notin> A" "h \<noteq> new" "0 < n" "n < csize (cs h)" "256 dvd n" using L S by (auto simp: layout_ok_def can_split_def)
  from c S' obtain b e where be: "(b, e) \<in> G" "b \<le> cptr (cs h)" "cptr (cs h) + csize (cs h) \<le> e"
    unfolding chunk_ok_def by blast
  show ?thesis
  proof (rule next_okI, unfold split_simps [OF L S])
    fix x assume "x \<in> insert new A" "(if x = new then cnext (cs h) else if x = h then Some new else cnext (cs x)) = None"
    then have "x \<in> A \<and> x \<noteq> h \<and> x \<noteq> new \<and> cnext (cs x) = None \<or> x = new \<and> cnext (cs h) = None" using S' by (auto split: if_splits)
    moreover have "cnext (cs x) = None \<Longrightarrow> x \<in> A \<Longrightarrow> \<exists>(b, e)\<in>G. b \<le> cptr (cs x) \<and> cptr (cs x) + csize (cs x) = e" for x
      using c(2) unfolding next_ok_def by blast
    note * = this
    ultimately show "\<exists>(b, e)\<in>G. b \<le> (if x = new then cptr (cs h) + n else cptr (cs x)) \<and> (if x = new then cptr (cs h) + n else cptr (cs x)) + (if x = new then csize (cs h) - n else if x = h then n else csize (cs x)) = e"
    proof (elim disjE conjE)
      assume "x = new" "cnext (cs h) = None"
      with * [of h] S' obtain b e where "(b, e) \<in> G" "b \<le> cptr (cs h)" "cptr (cs h) + csize (cs h) = e" by auto
      with \<open>x = new\<close> S' show ?thesis by (intro bexI [of _ "(b, e)"]) auto
    qed (use * [of x] in auto)
  next
    fix x k assume x: "x \<in> insert new A" "(if x = new then cnext (cs h) else if x = h then Some new else cnext (cs x)) = Some k"
    consider "x = new" "cnext (cs h) = Some k" | "x = h" "k = new" | "x \<in> A" "x \<noteq> h" "x \<noteq> new" "cnext (cs x) = Some k"
      using x S' by (auto split: if_splits)
    then show "k \<in> insert new A \<and>
        (if k = new then Some h else if cnext (cs h) = Some k then Some new else cprev (cs k)) = Some x \<and>
        (if k = new then cptr (cs h) + n else cptr (cs k)) =
        (if x = new then cptr (cs h) + n else cptr (cs x)) + (if x = new then csize (cs h) - n else if x = h then n else csize (cs x)) \<and>
        (\<exists>(b, e)\<in>G. b \<le> (if x = new then cptr (cs h) + n else cptr (cs x)) \<and>
           (if k = new then cptr (cs h) + n else cptr (cs k)) + (if k = new then csize (cs h) - n else if k = h then n else csize (cs k)) \<le> e)"
    proof cases
      case 1
      note k = nextD [OF c(2) S'(1) 1(2)]
      moreover have "k \<noteq> h" "k \<noteq> new" using next_neq [OF L S'(1) 1(2)] k S' by auto
      moreover obtain b' e' where "(b', e') \<in> G" "b' \<le> cptr (cs h)" "cptr (cs k) + csize (cs k) \<le> e'"
        using k(4) by blast
      ultimately show ?thesis using 1 S' by (auto intro!: bexI [of _ "(b', e')"])
    next
      case 2
      then show ?thesis using be S' by auto
    next
      case 3
      note k = nextD [OF c(2) 3(1) 3(4)]
      moreover have "k \<noteq> new" using k S' by auto
      moreover have "cnext (cs h) \<noteq> Some k" using nextD(2) [OF c(2) S'(1)] k 3(2) by force
      moreover obtain b' e' where "(b', e') \<in> G" "b' \<le> cptr (cs x)" "cptr (cs k) + csize (cs k) \<le> e'"
        using k(4) by blast
      ultimately show ?thesis using 3 S' by (auto intro!: bexI [of _ "(b', e')"])
    qed
  qed
qed

lemma split_prev_ok:
  assumes L: "layout_ok A cs G" and S: "can_split A cs h new n"
  shows "prev_ok (insert new A) (split_cs h new n cs) G"
proof -
  have c: "prev_ok A cs G" "next_ok A cs G" and S': "h \<in> A" "new \<notin> A" "h \<noteq> new" using L S by (auto simp: layout_ok_def can_split_def)
  show ?thesis
    unfolding prev_ok_def split_simps [OF L S]
  proof (intro ballI conjI impI allI)
    fix x assume "x \<in> insert new A" "(if x = new then Some h else if cnext (cs h) = Some x then Some new else cprev (cs x)) = None"
    then show "\<exists>e. (if x = new then cptr (cs h) + n else cptr (cs x), e) \<in> G"
      using c unfolding prev_ok_def by (auto split: if_splits)
  next
    fix x p assume x: "x \<in> insert new A" "(if x = new then Some h else if cnext (cs h) = Some x then Some new else cprev (cs x)) = Some p"
    consider "x = new" "p = h" | "x \<noteq> new" "cnext (cs h) = Some x" "p = new" | "x \<in> A" "x \<noteq> new" "cnext (cs h) \<noteq> Some x" "cprev (cs x) = Some p"
      using x by (auto split: if_splits)
    then have "p \<in> insert new A \<and> (if p = new then cnext (cs h) else if p = h then Some new else cnext (cs p)) = Some x"
    proof cases
      case 3
      then have "p \<in> A" "cnext (cs p) = Some x" using c unfolding prev_ok_def by blast+
      with 3 S' show ?thesis by auto
    qed (use S' in auto)
    then show "p \<in> insert new A" "(if p = new then cnext (cs h) else if p = h then Some new else cnext (cs p)) = Some x"
      by auto
  qed
qed

lemma split_disj_ok:
  assumes L: "layout_ok A cs G" and S: "can_split A cs h new n"
  shows "disj_ok (insert new A) (split_cs h new n cs)"
proof -
  have d: "disj_ok A cs" and S': "h \<in> A" "new \<notin> A" "0 < n" "n < csize (cs h)" "256 dvd n" using L S by (auto simp: layout_ok_def can_split_def)
  show ?thesis
    unfolding disj_ok_def split_simps [OF L S]
  proof (intro ballI impI)
    fix x y assume "x \<in> insert new A" "y \<in> insert new A" "x \<noteq> y"
    with d S' show "(if x = new then cptr (cs h) + n else cptr (cs x)) +
           (if x = new then csize (cs h) - n else if x = h then n else csize (cs x))
           \<le> (if y = new then cptr (cs h) + n else cptr (cs y)) \<or>
           (if y = new then cptr (cs h) + n else cptr (cs y)) +
           (if y = new then csize (cs h) - n else if y = h then n else csize (cs y))
           \<le> (if x = new then cptr (cs h) + n else cptr (cs x))"
      using disjD [OF d, of x y] disjD [OF d, of x h] disjD [OF d, of h y] by auto
  qed
qed

lemma split_cover_ok:
  assumes L: "layout_ok A cs G" and S: "can_split A cs h new n"
  shows "cover_ok (insert new A) (split_cs h new n cs) G"
proof -
  have d: "cover_ok A cs G" and S': "h \<in> A" "new \<notin> A" "0 < n" "n < csize (cs h)" "256 dvd n" using L S by (auto simp: layout_ok_def can_split_def)
  show ?thesis
    unfolding cover_ok_def split_simps [OF L S]
  proof (intro ballI impI allI, clarify)
    fix b e p assume "(b, e) \<in> G" "b \<le> p" "p < e"
    with d obtain k where k: "k \<in> A" "cptr (cs k) \<le> p" "p < cptr (cs k) + csize (cs k)"
      unfolding cover_ok_def by blast
    show "\<exists>k\<in>insert new A. (if k = new then cptr (cs h) + n else cptr (cs k)) \<le> p \<and>
        p < (if k = new then cptr (cs h) + n else cptr (cs k)) + (if k = new then csize (cs h) - n else if k = h then n else csize (cs k))"
      using k S' by (cases "k = h"; cases "p < cptr (cs h) + n") (force intro: bexI [of _ k] bexI [of _ h] bexI [of _ new])+
  qed
qed

lemma split_layout_ok:
  assumes "layout_ok A cs G" and "can_split A cs h new n"
  shows "layout_ok (insert new A) (split_cs h new n cs) G"
  unfolding layout_ok_def
  using split_chunk_ok [OF assms] split_next_ok [OF assms] split_prev_ok [OF assms] split_disj_ok [OF assms] split_cover_ok [OF assms] assms(1)
  by (simp add: layout_ok_def)

subsection \<open>Merging\<close>

definition can_merge :: "handle set \<Rightarrow> (handle \<Rightarrow> chunk) \<Rightarrow> handle \<Rightarrow> handle \<Rightarrow> bool" where
  "can_merge A cs h1 h2 \<longleftrightarrow> h1 \<in> A \<and> cnext (cs h1) = Some h2"

lemma merge_simps:
  assumes L: "layout_ok A cs G" and M: "can_merge A cs h1 h2"
  shows
  "cptr (merge_cs h1 h2 cs k) = cptr (cs k)"
  "csize (merge_cs h1 h2 cs k) = (if k = h1 then csize (cs h1) + csize (cs h2) else csize (cs k))"
  "cnext (merge_cs h1 h2 cs k) = (if k = h1 then cnext (cs h2) else cnext (cs k))"
  "cprev (merge_cs h1 h2 cs k) = (if cnext (cs h2) = Some k then Some h1 else cprev (cs k))"
  "allocation_id (merge_cs h1 h2 cs k) = allocation_id (cs k)"
  "bin_num (merge_cs h1 h2 cs k) = bin_num (cs k)"
  "requested_size (merge_cs h1 h2 cs k) = requested_size (cs k)"
proof -
  have hn: "h1 \<in> A" "cnext (cs h1) = Some h2" using M by (auto simp: can_merge_def)
  have nx: "next_ok A cs G" using L by (simp add: layout_ok_def)
  note h2 = nextD [OF nx hn]
  have "cnext (cs h2) = None \<or> (\<exists>m. cnext (cs h2) = Some m \<and> m \<noteq> h1)"
  proof (cases "cnext (cs h2)")
    case (Some m)
    note m = nextD [OF nx h2(1) Some]
    have "0 < csize (cs h1)" "0 < csize (cs h2)" using L hn h2 by (auto simp: layout_ok_def chunk_ok_def)
    then have "m \<noteq> h1" using m h2 by auto
    with Some show ?thesis by simp
  qed simp
  then show "cptr (merge_cs h1 h2 cs k) = cptr (cs k)"
  "csize (merge_cs h1 h2 cs k) = (if k = h1 then csize (cs h1) + csize (cs h2) else csize (cs k))"
  "cnext (merge_cs h1 h2 cs k) = (if k = h1 then cnext (cs h2) else cnext (cs k))"
  "cprev (merge_cs h1 h2 cs k) = (if cnext (cs h2) = Some k then Some h1 else cprev (cs k))"
  "allocation_id (merge_cs h1 h2 cs k) = allocation_id (cs k)"
  "bin_num (merge_cs h1 h2 cs k) = bin_num (cs k)"
  "requested_size (merge_cs h1 h2 cs k) = requested_size (cs k)"
    by (elim disjE exE; simp add: merge_cs_def Let_def; fail)+
qed

lemma merge_facts:
  assumes L: "layout_ok A cs G" and M: "can_merge A cs h1 h2"
  shows "h1 \<in> A" "h2 \<in> A" "h1 \<noteq> h2" "cnext (cs h1) = Some h2" "cprev (cs h2) = Some h1"
   "cptr (cs h2) = cptr (cs h1) + csize (cs h1)" "0 < csize (cs h1)" "0 < csize (cs h2)"
   "\<exists>(b, e) \<in> G. b \<le> cptr (cs h1) \<and> cptr (cs h2) + csize (cs h2) \<le> e"
proof -
  have hn: "h1 \<in> A" "cnext (cs h1) = Some h2" using M by (auto simp: can_merge_def)
  have nx: "next_ok A cs G" using L by (simp add: layout_ok_def)
  show "h1 \<in> A" "h2 \<in> A" "h1 \<noteq> h2" "cnext (cs h1) = Some h2" "cprev (cs h2) = Some h1"
   "cptr (cs h2) = cptr (cs h1) + csize (cs h1)" "0 < csize (cs h1)" "0 < csize (cs h2)"
   "\<exists>(b, e) \<in> G. b \<le> cptr (cs h1) \<and> cptr (cs h2) + csize (cs h2) \<le> e"
    using nextD [OF nx hn] next_neq [OF L hn] hn L by (auto simp: layout_ok_def chunk_ok_def)
qed

text \<open>A chunk lies inside one extent, whichever of its addresses picks it.\<close>

lemma extent_unique:
  assumes "extents_ok G" "(b, e) \<in> G" "(b', e') \<in> G" "b \<le> p" "p < e" "b' \<le> p" "p < e'"
  shows "b = b'" "e = e'"
proof -
  have "(b, e) \<noteq> (b', e') \<Longrightarrow> e \<le> b' \<or> e' \<le> b"
    using assms(1,2,3) unfolding extents_ok_def by blast
  with assms have "(b, e) = (b', e')" by linarith
  then show "b = b'" "e = e'" by auto
qed

lemma merge_chunk_ok:
  assumes L: "layout_ok A cs G" and M: "can_merge A cs h1 h2"
  shows "chunk_ok (A - {h2}) (merge_cs h1 h2 cs) G"
proof (rule chunk_okI, unfold merge_simps [OF L M])
  fix x assume x: "x \<in> A - {h2}"
  note f = merge_facts [OF L M]
  have c: "chunk_ok A cs G" and ex: "extents_ok G" using L by (auto simp: layout_ok_def)
  obtain b e where be: "(b, e) \<in> G" "b \<le> cptr (cs h1)" "cptr (cs h2) + csize (cs h2) \<le> e" using f(9) by blast
  obtain b' e' where be': "(b', e') \<in> G" "b' \<le> cptr (cs h1)" "cptr (cs h1) + csize (cs h1) \<le> e'" "256 dvd cptr (cs h1) - b'"
    using chunkD(3) [OF c f(1)] by blast
  have "b = b'" using extent_unique [OF ex be(1) be'(1), of "cptr (cs h1)"] be be' f by simp
  then show "0 < (if x = h1 then csize (cs h1) + csize (cs h2) else csize (cs x)) \<and>
    256 dvd (if x = h1 then csize (cs h1) + csize (cs h2) else csize (cs x)) \<and>
    (\<exists>(b, e) \<in> G. b \<le> cptr (cs x) \<and> cptr (cs x) + (if x = h1 then csize (cs h1) + csize (cs h2) else csize (cs x)) \<le> e \<and> 256 dvd cptr (cs x) - b)"
    using be be' f x chunkD(1,2) [OF c f(1)] chunkD(2) [OF c f(2)] chunkD [OF c, of x]
    by (cases "x = h1") (auto intro!: bexI [of _ "(b, e)"])
qed

lemma merge_next_ok:
  assumes L: "layout_ok A cs G" and M: "can_merge A cs h1 h2"
  shows "next_ok (A - {h2}) (merge_cs h1 h2 cs) G"
proof -
  note f = merge_facts [OF L M]
  have nx: "next_ok A cs G" and x: "extents_ok G" and c: "chunk_ok A cs G" using L by (auto simp: layout_ok_def)
  obtain b e where be: "(b, e) \<in> G" "b \<le> cptr (cs h1)" "cptr (cs h2) + csize (cs h2) \<le> e" using f(9) by blast
  have ext: "b' \<le> cptr (cs h1)" "e' = e" if "(b', e') \<in> G" "b' \<le> cptr (cs h2)" "cptr (cs h2) < e'" for b' e'
    using extent_unique [OF x be(1) that(1), of "cptr (cs h2)"] that be f by auto
  show ?thesis
  proof (rule next_okI, unfold merge_simps [OF L M])
    fix y assume y: "y \<in> A - {h2}" "(if y = h1 then cnext (cs h2) else cnext (cs y)) = None"
    have *: "cnext (cs y) = None \<Longrightarrow> y \<in> A \<Longrightarrow> \<exists>(b, e)\<in>G. b \<le> cptr (cs y) \<and> cptr (cs y) + csize (cs y) = e" for y
      using nx unfolding next_ok_def by blast
    show "\<exists>(b, e)\<in>G. b \<le> cptr (cs y) \<and> cptr (cs y) + (if y = h1 then csize (cs h1) + csize (cs h2) else csize (cs y)) = e"
    proof (cases "y = h1")
      case True
      with y obtain b' e' where "(b', e') \<in> G" "b' \<le> cptr (cs h2)" "cptr (cs h2) + csize (cs h2) = e'" using * [of h2] f by auto
      then show ?thesis using ext [of b' e'] True f by (intro bexI [of _ "(b', e')"]) auto
    qed (use y * in auto)
  next
    fix y k assume y: "y \<in> A - {h2}" "(if y = h1 then cnext (cs h2) else cnext (cs y)) = Some k"
    show "k \<in> A - {h2} \<and> (if cnext (cs h2) = Some k then Some h1 else cprev (cs k)) = Some y \<and>
        cptr (cs k) = cptr (cs y) + (if y = h1 then csize (cs h1) + csize (cs h2) else csize (cs y)) \<and>
        (\<exists>(b, e)\<in>G. b \<le> cptr (cs y) \<and> cptr (cs k) + (if k = h1 then csize (cs h1) + csize (cs h2) else csize (cs k)) \<le> e)"
    proof (cases "y = h1")
      case True
      then have k: "cnext (cs h2) = Some k" using y by simp
      note nk = nextD [OF nx f(2) k]
      from nk(4) obtain b' e' where b': "(b', e') \<in> G" "b' \<le> cptr (cs h2)" "cptr (cs k) + csize (cs k) \<le> e'" by blast
      then have "b' \<le> cptr (cs h1)" using ext [of b' e'] nk f by auto
      moreover have "k \<noteq> h1" "k \<noteq> h2" using nk f by auto
      ultimately show ?thesis using True k nk b' f by auto
    next
      case False
      then have k: "cnext (cs y) = Some k" "y \<in> A" "y \<noteq> h2" using y by auto
      note nk = nextD [OF nx k(2,1)]
      have "k \<noteq> h2" using nk f False by auto
      moreover have "cnext (cs h2) \<noteq> Some k" using nextD(2) [OF nx f(2)] nk k(3) by force
      moreover have "k = h1 \<Longrightarrow> \<exists>(b, e)\<in>G. b \<le> cptr (cs y) \<and> cptr (cs h1) + (csize (cs h1) + csize (cs h2)) \<le> e"
      proof -
        assume "k = h1"
        with nk(4) obtain b' e' where b': "(b', e') \<in> G" "b' \<le> cptr (cs y)" "cptr (cs h1) + csize (cs h1) \<le> e'" by blast
        have "e' = e" using extent_unique [OF x b'(1) be(1), of "cptr (cs h1)"] b' be f nk \<open>k = h1\<close> by simp
        then show ?thesis using b' be f by (intro bexI [of _ "(b', e')"]) auto
      qed
      ultimately show ?thesis using False nk by auto
    qed
  qed
qed

lemma merge_prev_ok:
  assumes L: "layout_ok A cs G" and M: "can_merge A cs h1 h2"
  shows "prev_ok (A - {h2}) (merge_cs h1 h2 cs) G"
proof -
  note f = merge_facts [OF L M]
  have pv: "prev_ok A cs G" and nx: "next_ok A cs G" using L by (auto simp: layout_ok_def)
  show ?thesis
    unfolding prev_ok_def merge_simps [OF L M]
  proof (intro ballI conjI impI allI)
    fix x assume "x \<in> A - {h2}" "(if cnext (cs h2) = Some x then Some h1 else cprev (cs x)) = None"
    then show "\<exists>e. (cptr (cs x), e) \<in> G" using pv unfolding prev_ok_def by (auto split: if_splits)
  next
    fix x p assume x: "x \<in> A - {h2}" "(if cnext (cs h2) = Some x then Some h1 else cprev (cs x)) = Some p"
    have "p \<in> A - {h2} \<and> (if p = h1 then cnext (cs h2) else cnext (cs p)) = Some x"
    proof (cases "cnext (cs h2) = Some x")
      case True
      with x f show ?thesis by auto
    next
      case False
      with x have "cprev (cs x) = Some p" "x \<in> A" by auto
      then have "p \<in> A" "cnext (cs p) = Some x" using pv unfolding prev_ok_def by blast+
      with False x f show ?thesis by auto
    qed
    then show "p \<in> A - {h2}" "(if p = h1 then cnext (cs h2) else cnext (cs p)) = Some x" by auto
  qed
qed

lemma merge_disj_ok:
  assumes L: "layout_ok A cs G" and M: "can_merge A cs h1 h2"
  shows "disj_ok (A - {h2}) (merge_cs h1 h2 cs)"
proof -
  note f = merge_facts [OF L M]
  have d: "disj_ok A cs" and c: "chunk_ok A cs G" using L by (auto simp: layout_ok_def)
  show ?thesis
    unfolding disj_ok_def merge_simps [OF L M]
  proof (intro ballI impI)
    fix x y assume "x \<in> A - {h2}" "y \<in> A - {h2}" "x \<noteq> y"
    then show "cptr (cs x) + (if x = h1 then csize (cs h1) + csize (cs h2) else csize (cs x)) \<le> cptr (cs y) \<or>
      cptr (cs y) + (if y = h1 then csize (cs h1) + csize (cs h2) else csize (cs y)) \<le> cptr (cs x)"
      using disjD [OF d, of x y] disjD [OF d, of h2 y] disjD [OF d, of x h2] f
        chunkD(1) [OF c, of x] chunkD(1) [OF c, of y] by auto
  qed
qed

lemma merge_cover_ok:
  assumes L: "layout_ok A cs G" and M: "can_merge A cs h1 h2"
  shows "cover_ok (A - {h2}) (merge_cs h1 h2 cs) G"
proof -
  note f = merge_facts [OF L M]
  have cv: "cover_ok A cs G" using L by (auto simp: layout_ok_def)
  show ?thesis
    unfolding cover_ok_def merge_simps [OF L M]
  proof (intro ballI impI allI, clarify)
    fix b e p assume "(b, e) \<in> G" "b \<le> p" "p < e"
    with cv obtain k where k: "k \<in> A" "cptr (cs k) \<le> p" "p < cptr (cs k) + csize (cs k)"
      unfolding cover_ok_def by blast
    show "\<exists>k\<in>A - {h2}. cptr (cs k) \<le> p \<and> p < cptr (cs k) + (if k = h1 then csize (cs h1) + csize (cs h2) else csize (cs k))"
      using k f by (intro bexI [of _ "if k = h2 then h1 else k"]) auto
  qed
qed

lemma merge_layout_ok:
  assumes "layout_ok A cs G" and "can_merge A cs h1 h2"
  shows "layout_ok (A - {h2}) (merge_cs h1 h2 cs) G"
  unfolding layout_ok_def
  using merge_chunk_ok [OF assms] merge_next_ok [OF assms] merge_prev_ok [OF assms] merge_disj_ok [OF assms] merge_cover_ok [OF assms] assms(1)
  by (simp add: layout_ok_def)

lemma layout_ok_cong:
  assumes "\<And>k. k \<in> A \<Longrightarrow> cptr (cs' k) = cptr (cs k) \<and> csize (cs' k) = csize (cs k) \<and>
     cnext (cs' k) = cnext (cs k) \<and> cprev (cs' k) = cprev (cs k)"
    and "layout_ok A cs G"
  shows "layout_ok A cs' G"
proof -
  have "chunk_ok A cs' G" "disj_ok A cs'" "prev_ok A cs' G" "cover_ok A cs' G"
    using assms unfolding layout_ok_def chunk_ok_def disj_ok_def prev_ok_def cover_ok_def
    by (simp_all cong: ball_cong bex_cong)
  moreover have "next_ok A cs' G"
  proof (rule next_okI)
    have nx: "next_ok A cs G" using assms(2) by (simp add: layout_ok_def)
    fix h assume "h \<in> A" "cnext (cs' h) = None"
    then show "\<exists>(b, e)\<in>G. b \<le> cptr (cs' h) \<and> cptr (cs' h) + csize (cs' h) = e"
      using nx assms(1) [of h] unfolding next_ok_def by simp
  next
    have nx: "next_ok A cs G" using assms(2) by (simp add: layout_ok_def)
    fix h k assume h: "h \<in> A" "cnext (cs' h) = Some k"
    then have k: "cnext (cs h) = Some k" using assms(1) [of h] by simp
    show "k \<in> A \<and> cprev (cs' k) = Some h \<and> cptr (cs' k) = cptr (cs' h) + csize (cs' h) \<and>
      (\<exists>(b, e)\<in>G. b \<le> cptr (cs' h) \<and> cptr (cs' k) + csize (cs' k) \<le> e)"
      using nextD [OF nx h(1) k] assms(1) [of h] assms(1) [of k] h(1) by simp
  qed
  ultimately show ?thesis using assms(2) by (simp add: layout_ok_def)
qed

subsection \<open>Adding a region\<close>

lemma add_layout_ok:
  assumes L: "layout_ok A cs G" and new: "new \<notin> A"
    and G: "extents_ok (insert (b, e) G)" and be: "\<And>b' e'. (b', e') \<in> G \<Longrightarrow> e' \<le> b \<or> e \<le> b'"
    and f: "cptr (cs' new) = b" "csize (cs' new) = e - b" "cnext (cs' new) = None" "cprev (cs' new) = None"
    and o: "\<And>k. k \<in> A \<Longrightarrow> cs' k = cs k"
  shows "layout_ok (insert new A) cs' (insert (b, e) G)"
proof -
  have be': "b < e" "256 dvd e - b" using G by (auto simp: extents_ok_def)
  have L': "chunk_ok A cs G" "next_ok A cs G" "prev_ok A cs G" "disj_ok A cs" "cover_ok A cs G" using L by (auto simp: layout_ok_def)
  have "chunk_ok (insert new A) cs' (insert (b, e) G)"
  proof (rule chunk_okI)
    fix x assume "x \<in> insert new A"
    then show "0 < csize (cs' x) \<and> 256 dvd csize (cs' x) \<and> (\<exists>(b, e)\<in>insert (b, e) G. b \<le> cptr (cs' x) \<and> cptr (cs' x) + csize (cs' x) \<le> e \<and> 256 dvd cptr (cs' x) - b)"
      using chunkD [OF L'(1), of x] f be' o [of x] by (cases "x = new") auto
  qed
  moreover have "next_ok (insert new A) cs' (insert (b, e) G)"
  proof (rule next_okI)
    fix x assume "x \<in> insert new A" "cnext (cs' x) = None"
    moreover have "x \<in> A \<Longrightarrow> cnext (cs x) = None \<Longrightarrow> \<exists>(b, e)\<in>G. b \<le> cptr (cs x) \<and> cptr (cs x) + csize (cs x) = e"
      using L'(2) unfolding next_ok_def by blast
    ultimately show "\<exists>(b, e)\<in>insert (b, e) G. b \<le> cptr (cs' x) \<and> cptr (cs' x) + csize (cs' x) = e"
      using f be' o [of x] by (cases "x = new") auto
  next
    fix x k assume "x \<in> insert new A" "cnext (cs' x) = Some k"
    then have "x \<in> A" "cnext (cs x) = Some k" using f o by auto
    with nextD [OF L'(2) this] o show "k \<in> insert new A \<and> cprev (cs' k) = Some x \<and> cptr (cs' k) = cptr (cs' x) + csize (cs' x) \<and> (\<exists>(b, e)\<in>insert (b, e) G. b \<le> cptr (cs' x) \<and> cptr (cs' k) + csize (cs' k) \<le> e)"
      by auto
  qed
  moreover have "prev_ok (insert new A) cs' (insert (b, e) G)"
    unfolding prev_ok_def
  proof (intro ballI conjI allI impI)
    fix x assume "x \<in> insert new A" "cprev (cs' x) = None"
    then show "\<exists>e'. (cptr (cs' x), e') \<in> insert (b, e) G"
      using f o [of x] L'(3) unfolding prev_ok_def by (cases "x = new") auto
  next
    fix x p assume "x \<in> insert new A" "cprev (cs' x) = Some p"
    then have "x \<in> A" "cprev (cs x) = Some p" using f o by auto
    then have "p \<in> A" "cnext (cs p) = Some x" using L'(3) unfolding prev_ok_def by blast+
    then show "p \<in> insert new A" "cnext (cs' p) = Some x" using o by auto
  qed
  moreover have "disj_ok (insert new A) cs'"
    unfolding disj_ok_def
  proof (intro ballI impI)
    have *: "cptr (cs y) + csize (cs y) \<le> b \<or> e \<le> cptr (cs y)" if "y \<in> A" for y
      using chunkD(3) [OF L'(1) that] be by fastforce
    fix x y assume "x \<in> insert new A" "y \<in> insert new A" "x \<noteq> y"
    then show "cptr (cs' x) + csize (cs' x) \<le> cptr (cs' y) \<or> cptr (cs' y) + csize (cs' y) \<le> cptr (cs' x)"
      using disjD [OF L'(4), of x y] * [of x] * [of y] f be' o [of x] o [of y] by (cases "x = new"; cases "y = new") auto
  qed
  moreover have "cover_ok (insert new A) cs' (insert (b, e) G)"
    unfolding cover_ok_def
  proof (intro ballI allI impI, clarify)
    fix b1 e1 p assume p: "(b1, e1) \<in> insert (b, e) G" "b1 \<le> p" "p < e1"
    show "\<exists>h\<in>insert new A. cptr (cs' h) \<le> p \<and> p < cptr (cs' h) + csize (cs' h)"
    proof (cases "(b1, e1) = (b, e)")
      case True
      then show ?thesis using f p be' by (intro bexI [of _ new]) auto
    next
      case False
      then obtain k where "k \<in> A" "cptr (cs k) \<le> p" "p < cptr (cs k) + csize (cs k)"
        using p L'(5) unfolding cover_ok_def by blast
      then show ?thesis using o by (intro bexI [of _ k]) auto
    qed
  qed
  ultimately show ?thesis using G by (simp add: layout_ok_def)
qed

subsection \<open>The address map\<close>

lemma chunk_slot:
  assumes "chunk_ok A cs G" "h \<in> A"
  shows "cptr (cs h) \<in> slots G"
proof -
  obtain b e where "(b, e) \<in> G" "b \<le> cptr (cs h)" "cptr (cs h) + csize (cs h) \<le> e" "256 dvd cptr (cs h) - b"
    using chunkD(3) [OF assms] by blast
  then show ?thesis using chunkD(1) [OF assms] unfolding slots_def by (auto intro!: bexI [of _ "(b, e)"])
qed

lemma cptr_inj:
  assumes "layout_ok A cs G" "h \<in> A" "k \<in> A" "cptr (cs h) = cptr (cs k)"
  shows "h = k"
  using disjD [of A cs h k] chunkD(1) [of A cs G h] chunkD(1) [of A cs G k] assms by (auto simp: layout_ok_def)

lemma handleD:
  assumes "handle_ok A cs G H"
  shows "h \<in> A \<Longrightarrow> H (cptr (cs h)) = Some h" "p \<in> slots G \<Longrightarrow> H p = Some h \<Longrightarrow> h \<in> A"
    "p \<in> slots G \<Longrightarrow> H p = Some h \<Longrightarrow> cptr (cs h) = p"
  using assms unfolding handle_ok_def by blast+

lemma handle_ok_split:
  assumes L: "layout_ok A cs G" and S: "can_split A cs h new n" and H: "handle_ok A cs G H"
    and H': "\<And>q. q \<in> slots G \<Longrightarrow> H' q = (if q = cptr (cs h) + n then Some new else H q)"
  shows "handle_ok (insert new A) (split_cs h new n cs) G H'"
proof -
  have c: "chunk_ok A cs G" and d: "disj_ok A cs" and S': "h \<in> A" "new \<notin> A" "0 < n" "n < csize (cs h)" using L S by (auto simp: layout_ok_def can_split_def)
  have ne: "cptr (cs x) \<noteq> cptr (cs h) + n" if "x \<in> A" for x
    using disjD [OF d that S'(1)] S' chunkD(1) [OF c that] by (cases "x = h") auto
  have sl: "cptr (cs h) + n \<in> slots G"
    using chunk_slot [OF split_chunk_ok [OF L S], of new] split_simps(1) [OF L S, of new] by simp
  show ?thesis
    unfolding handle_ok_def split_simps [OF L S]
    using H H' ne sl chunk_slot [OF c] S'(2) unfolding handle_ok_def by (auto split: if_splits)
qed

lemma handle_ok_merge:
  assumes L: "layout_ok A cs G" and M: "can_merge A cs h1 h2" and H: "handle_ok A cs G H"
    and H': "\<And>q. q \<in> slots G \<Longrightarrow> H' q = (if q = cptr (cs h2) then None else H q)"
  shows "handle_ok (A - {h2}) (merge_cs h1 h2 cs) G H'"
proof -
  have c: "chunk_ok A cs G" using L by (auto simp: layout_ok_def)
  note f = merge_facts [OF L M]
  have "cptr (cs x) \<noteq> cptr (cs h2)" if "x \<in> A" "x \<noteq> h2" for x
    using cptr_inj [OF L that(1) f(2)] that by auto
  then have "\<forall>x\<in>A - {h2}. H' (cptr (cs x)) = Some x"
    using H' chunk_slot [OF c] handleD(1) [OF H] by simp
  moreover have "h \<in> A - {h2} \<and> cptr (cs h) = p" if p: "p \<in> slots G" "H' p = Some h" for p h
  proof -
    from H' [OF p(1)] p(2) have "p \<noteq> cptr (cs h2)" "H p = Some h" by (auto split: if_splits)
    with handleD(2,3) [OF H p(1)] show ?thesis by auto
  qed
  ultimately show ?thesis
    unfolding handle_ok_def merge_simps [OF L M] by blast
qed

end
