(* ===== verification/Bfc_State.thy ===== *)
theory Bfc_State
  imports Bfc_Layout
begin

text \<open>
  The invariant of the whole allocator, \<open>bfc_inv a fl X\<close>: the layout of the chunks, the handle table,
  the bins (sorted by size, then address, and holding exactly the free chunks of their size class),
  the list \<open>fl\<close> of recycled chunk table entries, the allocation ids and the byte counters. \<open>X\<close> holds
  the free chunks that an operation under way has taken out of their bins; between operations it is
  empty.
\<close>

subsection \<open>Regions of the record\<close>

definition extents_of :: "region list \<Rightarrow> extents" where
  "extents_of rs = (\<lambda>r. (rptr r, end_ptr r)) ` set rs"

definition hmap :: "region list \<Rightarrow> nat \<Rightarrow> handle option" where
  "hmap rs p = (case get_handle rs p of Abort \<Rightarrow> None | Done ho \<Rightarrow> ho)"

lemma geom_ok_extents: "geom_ok rs \<Longrightarrow> extents_ok (extents_of rs)"
proof -
  assume g: "geom_ok rs"
  have "e \<le> b' \<or> e' \<le> b" if "(b, e) \<in> extents_of rs" "(b', e') \<in> extents_of rs" "(b, e) \<noteq> (b', e')" for b e b' e'
  proof -
    from that obtain i j where ij: "i < length rs" "j < length rs" "b = rptr (rs ! i)" "e = end_ptr (rs ! i)"
      "b' = rptr (rs ! j)" "e' = end_ptr (rs ! j)" by (auto simp: extents_of_def in_set_conv_nth)
    with that(3) have "i < j \<or> j < i" by (metis linorder_neqE_nat)
    then show ?thesis using ij g by (auto simp: geom_ok_def sorted_wrt_iff_nth_less)
  qed
  then show ?thesis using g by (auto simp: extents_ok_def extents_of_def geom_ok_def end_ptr_def)
qed

lemma slot_index:
  assumes "geom_ok rs" "p \<in> slots (extents_of rs)"
  obtains i where "i < length rs" "inside (rs ! i) p" "256 dvd p - rptr (rs ! i)"
  using assms by (auto simp: slots_def extents_of_def inside_def in_set_conv_nth)

lemma set_handle_slot:
  assumes g: "geom_ok rs" and p: "p \<in> slots (extents_of rs)"
  shows "\<exists>rs'. set_handle p h rs = Done rs' \<and> geom_ok rs' \<and> extents_of rs' = extents_of rs \<and>
     map memory_size rs' = map memory_size rs \<and>
     (\<forall>q \<in> slots (extents_of rs). hmap rs' q = (if q = p then h else hmap rs q))"
proof -
  obtain i where i: "i < length rs" "inside (rs ! i) p" "256 dvd p - rptr (rs ! i)" using slot_index [OF g p] .
  define rs' where "rs' = put_handle i p h rs"
  note nth = put_handle_nth [OF i(1), of _ p h, folded rs'_def]
  have len: "length rs' = length rs" by (simp add: rs'_def put_handle_def)
  have "geom_ok rs'"
    using g unfolding geom_ok_def
    by (auto simp: sorted_wrt_iff_nth_less all_set_conv_all_nth len nth)
  moreover have "map (\<lambda>r. (rptr r, end_ptr r)) rs' = map (\<lambda>r. (rptr r, end_ptr r)) rs"
    by (rule nth_equalityI) (auto simp: len nth)
  then have "extents_of rs' = extents_of rs"
    unfolding extents_of_def by (metis set_map)
  moreover have "map memory_size rs' = map memory_size rs"
    by (rule nth_equalityI) (auto simp: len nth)
  moreover have "hmap rs' q = (if q = p then h else hmap rs q)" if q: "q \<in> slots (extents_of rs)" for q
  proof -
    obtain j where j: "j < length rs" "inside (rs ! j) q" "256 dvd q - rptr (rs ! j)" using slot_index [OF g q] .
    then have j': "j < length rs'" "inside (rs' ! j) q" by (auto simp: len nth inside_def)
    have k: "(p - rptr (rs ! i)) div 256 < length (handles (rs ! i))"
    proof -
      have "p - rptr (rs ! i) < memory_size (rs ! i)" "256 dvd memory_size (rs ! i)" "length (handles (rs ! i)) = memory_size (rs ! i) div 256"
        using i g by (auto simp: inside_def end_ptr_def geom_ok_def)
      then show ?thesis by (auto elim!: dvdE)
    qed
    have same: "q = p" if "i = j" "(q - rptr (rs ! i)) div 256 = (p - rptr (rs ! i)) div 256"
    proof -
      have "q - rptr (rs ! i) = p - rptr (rs ! i)" using that i j by (auto elim!: dvdE)
      then show ?thesis using i j that by (auto simp: inside_def)
    qed
    show ?thesis
    proof (cases "q = p")
      case True
      then have "i = j" using RegionFor_inside [OF g i(1,2)] RegionFor_inside [OF g j(1,2)] by simp
      have "hmap rs' q = handles (rs' ! j) ! ((q - rptr (rs' ! j)) div 256)"
        by (simp add: hmap_def get_handle_inside [OF \<open>geom_ok rs'\<close> j'])
      also have "\<dots> = h" using True k i \<open>i = j\<close> by (simp add: rs'_def put_handle_def)
      finally show ?thesis using True by simp
    next
      case False
      then have "i \<noteq> j \<or> (q - rptr (rs ! i)) div 256 \<noteq> (p - rptr (rs ! i)) div 256" using same by blast
      then have "handles (rs' ! j) ! ((q - rptr (rs ! j)) div 256) = handles (rs ! j) ! ((q - rptr (rs ! j)) div 256)"
        using i j by (auto simp: rs'_def put_handle_def nth_list_update)
      then show ?thesis using False j j'
        by (simp add: hmap_def get_handle_inside [OF \<open>geom_ok rs'\<close> j'] get_handle_inside [OF g j(1,2)] nth)
    qed
  qed
  ultimately show ?thesis using set_handle_inside [OF g i(1,2), of h] by (auto simp: rs'_def)
qed

lemma get_handle_slot:
  assumes "geom_ok rs" "p \<in> slots (extents_of rs)"
  shows "get_handle rs p = Done (hmap rs p)"
  using slot_index [OF assms] get_handle_inside [OF assms(1)] by (metis hmap_def outcome.case(2))

subsection \<open>Ordered handle lists\<close>

definition cless :: "(handle \<Rightarrow> chunk) \<Rightarrow> handle \<Rightarrow> handle \<Rightarrow> bool" where
  "cless cs x y \<longleftrightarrow> csize (cs x) < csize (cs y) \<or> csize (cs x) = csize (cs y) \<and> cptr (cs x) < cptr (cs y)"

lemma chunk_less_cless: "chunk_less a = cless ((!) (chunks a))"
  by (auto simp: chunk_less_def cless_def Let_def fun_eq_iff)

lemma cless_trans: "cless cs x y \<Longrightarrow> cless cs y z \<Longrightarrow> cless cs x z"
  by (auto simp: cless_def)

lemma cless_total: "cptr (cs x) \<noteq> cptr (cs y) \<Longrightarrow> cless cs x y \<or> cless cs y x"
  by (auto simp: cless_def)

lemma set_set_insert:
  assumes "\<And>y. y \<in> set ys \<Longrightarrow> cptr (cs x) \<noteq> cptr (cs y)"
  shows "set (set_insert (cless cs) x ys) = insert x (set ys)"
  using assms by (induction ys) (use cless_total [of cs x] in auto)

lemma sorted_set_insert:
  assumes "sorted_wrt (cless cs) ys" "\<And>y. y \<in> set ys \<Longrightarrow> cptr (cs x) \<noteq> cptr (cs y)"
  shows "sorted_wrt (cless cs) (set_insert (cless cs) x ys)"
  using assms
proof (induction ys)
  case (Cons y ys)
  then have *: "set (set_insert (cless cs) x ys) = insert x (set ys)" by (intro set_set_insert) auto
  from Cons show ?case by (auto simp: * dest: cless_trans)
qed simp

lemma set_erase_eq:
  assumes "\<And>y. y \<in> set ys \<Longrightarrow> y \<noteq> x \<Longrightarrow> cptr (cs x) \<noteq> cptr (cs y)"
  shows "set_erase (cless cs) x ys = filter (\<lambda>y. y \<noteq> x) ys"
  unfolding set_erase_def
  by (rule filter_cong) (use assms cless_total [of cs x] in \<open>auto simp: cless_def\<close>)

subsection \<open>Bins\<close>

definition bins_ok :: "handle set \<Rightarrow> (handle \<Rightarrow> chunk) \<Rightarrow> handle list list \<Rightarrow> bool" where
  "bins_ok A cs bs \<longleftrightarrow> length bs = kNumBins \<and>
     (\<forall>b < kNumBins. sorted_wrt (cless cs) (bs ! b)) \<and>
     (\<forall>b < kNumBins. \<forall>h. h \<in> set (bs ! b) \<longleftrightarrow> h \<in> A \<and> bin_num (cs h) = Some b) \<and>
     (\<forall>h \<in> A. \<forall>b. bin_num (cs h) = Some b \<longrightarrow> b = BinNumForSize (csize (cs h)) \<and> \<not> in_use (cs h))"

lemma binsD:
  assumes "bins_ok A cs bs"
  shows "length bs = kNumBins" "b < kNumBins \<Longrightarrow> sorted_wrt (cless cs) (bs ! b)"
    "b < kNumBins \<Longrightarrow> h \<in> set (bs ! b) \<longleftrightarrow> h \<in> A \<and> bin_num (cs h) = Some b"
    "h \<in> A \<Longrightarrow> bin_num (cs h) = Some b \<Longrightarrow> b = BinNumForSize (csize (cs h))"
    "h \<in> A \<Longrightarrow> bin_num (cs h) = Some b \<Longrightarrow> \<not> in_use (cs h)"
  using assms unfolding bins_ok_def by blast+

lemma bins_okI:
  assumes "length bs = kNumBins" "\<And>b. b < kNumBins \<Longrightarrow> sorted_wrt (cless cs) (bs ! b)"
    "\<And>b h. b < kNumBins \<Longrightarrow> h \<in> set (bs ! b) \<longleftrightarrow> h \<in> A \<and> bin_num (cs h) = Some b"
    "\<And>b h. h \<in> A \<Longrightarrow> bin_num (cs h) = Some b \<Longrightarrow> b = BinNumForSize (csize (cs h)) \<and> \<not> in_use (cs h)"
  shows "bins_ok A cs bs"
  using assms unfolding bins_ok_def by blast

text \<open>A change that leaves every binned chunk alone keeps the bins.\<close>

definition same_bin_data :: "chunk \<Rightarrow> chunk \<Rightarrow> bool" where
  "same_bin_data c c' \<longleftrightarrow> bin_num c = bin_num c' \<and> csize c = csize c' \<and> cptr c = cptr c' \<and> allocation_id c = allocation_id c'"

lemma sorted_wrt_cong_set:
  assumes "\<And>x. x \<in> set xs \<Longrightarrow> csize (cs' x) = csize (cs x) \<and> cptr (cs' x) = cptr (cs x)" "sorted_wrt (cless cs) xs"
  shows "sorted_wrt (cless cs') xs"
  using assms(2) by (rule sorted_wrt_mono_rel [rotated]) (use assms(1) in \<open>auto simp: cless_def\<close>)

lemma bins_ok_frame:
  assumes B: "bins_ok A cs bs"
    and keep: "\<And>k. k \<in> A \<Longrightarrow> bin_num (cs k) \<noteq> None \<Longrightarrow> k \<in> A' \<and> same_bin_data (cs k) (cs' k)"
    and new: "\<And>k. k \<in> A' \<Longrightarrow> bin_num (cs' k) \<noteq> None \<Longrightarrow> k \<in> A \<and> bin_num (cs k) \<noteq> None"
  shows "bins_ok A' cs' bs"
proof (rule bins_okI)
  show "length bs = kNumBins" by (rule binsD(1) [OF B])
next
  fix b assume b: "b < kNumBins"
  show "sorted_wrt (cless cs') (bs ! b)"
  proof (rule sorted_wrt_cong_set [OF _ binsD(2) [OF B b]])
    fix x assume "x \<in> set (bs ! b)"
    then show "csize (cs' x) = csize (cs x) \<and> cptr (cs' x) = cptr (cs x)"
      using binsD(3) [OF B b, of x] keep [of x] by (simp add: same_bin_data_def)
  qed
  fix h
  show "h \<in> set (bs ! b) \<longleftrightarrow> h \<in> A' \<and> bin_num (cs' h) = Some b"
    using binsD(3) [OF B b, of h] keep [of h] new [of h] by (auto simp: same_bin_data_def)
next
  fix b h assume "h \<in> A'" "bin_num (cs' h) = Some b"
  then show "b = BinNumForSize (csize (cs' h)) \<and> \<not> in_use (cs' h)"
    using new [of h] keep [of h] binsD(4,5) [OF B, of h b] by (auto simp: same_bin_data_def in_use_def)
qed

lemma bins_ok_insert:
  assumes L: "layout_ok A cs G" and B: "bins_ok A cs bs" and h: "h \<in> A" "bin_num (cs h) = None" "\<not> in_use (cs h)"
    and b: "b = BinNumForSize (csize (cs h))" and cs': "cs' = cs(h := (cs h)\<lparr>bin_num := Some b\<rparr>)"
  shows "bins_ok A cs' (bs[b := set_insert (cless cs') h (bs ! b)])"
proof -
  have bl: "b < kNumBins" unfolding b by (rule BinNumForSize_less)
  have "h \<notin> set (bs ! b)" using binsD(3) [OF B bl] h(2) by simp
  have ptr: "cptr (cs' h) \<noteq> cptr (cs' y)" if "y \<in> set (bs ! b)" for y
    using binsD(3) [OF B bl, of y] that cptr_inj [OF L h(1), of y] h(2) by (auto simp: cs')
  have srt: "sorted_wrt (cless cs') (bs ! k)" if "k < kNumBins" for k
    by (rule sorted_wrt_cong_set [OF _ binsD(2) [OF B that]]) (auto simp: cs')
  show ?thesis
  proof (rule bins_okI)
    fix k assume k: "k < kNumBins"
    show "sorted_wrt (cless cs') (bs[b := set_insert (cless cs') h (bs ! b)] ! k)"
      using srt [OF k] sorted_set_insert [OF srt [OF bl] ptr] k binsD(1) [OF B] by (cases "k = b") simp_all
    fix x
    show "x \<in> set (bs[b := set_insert (cless cs') h (bs ! b)] ! k) \<longleftrightarrow> x \<in> A \<and> bin_num (cs' x) = Some k"
      using set_set_insert [of "bs ! b" cs' h, OF ptr] binsD(3) [OF B k, of x] k binsD(1) [OF B] h bl by (cases "k = b") (auto simp: cs')
  next
    fix k x assume "x \<in> A" "bin_num (cs' x) = Some k"
    then show "k = BinNumForSize (csize (cs' x)) \<and> \<not> in_use (cs' x)"
      using binsD(4,5) [OF B, of x k] h b by (auto simp: cs' in_use_def split: if_splits)
  qed (use binsD(1) [OF B] in simp)
qed

lemma bins_ok_remove:
  assumes B: "bins_ok A cs bs" and h: "h \<in> A" "bin_num (cs h) = Some b" and b: "b < kNumBins"
    and cs': "cs' = cs(h := (cs h)\<lparr>bin_num := None\<rparr>)" and bin': "bin' = filter (\<lambda>y. y \<noteq> h) (bs ! b)"
  shows "bins_ok A cs' (bs[b := bin'])"
proof (rule bins_okI)
  fix k assume k: "k < kNumBins"
  have "sorted_wrt (cless cs') (bs ! k)"
    by (rule sorted_wrt_cong_set [OF _ binsD(2) [OF B k]]) (auto simp: cs')
  then show "sorted_wrt (cless cs') (bs[b := bin'] ! k)"
    using k binsD(1) [OF B] by (cases "k = b") (simp_all add: bin' sorted_wrt_filter)
  fix x
  show "x \<in> set (bs[b := bin'] ! k) \<longleftrightarrow> x \<in> A \<and> bin_num (cs' x) = Some k"
    using binsD(3) [OF B k, of x] k binsD(1) [OF B] h by (cases "k = b") (auto simp: cs' bin')
next
  fix k x assume "x \<in> A" "bin_num (cs' x) = Some k"
  then show "k = BinNumForSize (csize (cs' x)) \<and> \<not> in_use (cs' x)"
    using binsD(4,5) [OF B, of x k] h by (auto simp: cs' split: if_splits)
qed (use binsD(1) [OF B] in simp)

lemma distinct_sorted_cless: "sorted_wrt (cless cs) xs \<Longrightarrow> distinct xs"
  by (induction xs) (auto simp: cless_def)

abbreviation cs_of :: "bfc \<Rightarrow> handle \<Rightarrow> chunk" where
  "cs_of a \<equiv> (!) (chunks a)"

lemma upd_chunk_simps [simp]:
  "memory_limit (upd_chunk h f a) = memory_limit a"
  "curr_region_allocation_bytes (upd_chunk h f a) = curr_region_allocation_bytes a"
  "total_region_allocated_bytes (upd_chunk h f a) = total_region_allocated_bytes a"
  "started_backpedal (upd_chunk h f a) = started_backpedal a"
  "bins (upd_chunk h f a) = bins a" "regions (upd_chunk h f a) = regions a"
  "free_chunks_list (upd_chunk h f a) = free_chunks_list a"
  "next_allocation_id (upd_chunk h f a) = next_allocation_id a"
  "stats (upd_chunk h f a) = stats a" "timing_counter (upd_chunk h f a) = timing_counter a"
  "length (chunks (upd_chunk h f a)) = length (chunks a)"
  by (simp_all add: upd_chunk_def)

lemma cs_of_upd: "h < length (chunks a) \<Longrightarrow> cs_of (upd_chunk h f a) = (cs_of a)(h := f (cs_of a h))"
  by (auto simp: upd_chunk_def fun_eq_iff nth_list_update)

fun free_chain :: "chunk list \<Rightarrow> handle option \<Rightarrow> handle list \<Rightarrow> bool" where
  "free_chain cs p [] \<longleftrightarrow> p = None"
| "free_chain cs p (h # hs) \<longleftrightarrow> p = Some h \<and> h < length cs \<and> free_chain cs (cnext (cs ! h)) hs"

definition free_list_ok :: "bfc \<Rightarrow> handle list \<Rightarrow> bool" where
  "free_list_ok a fl \<longleftrightarrow> free_chain (chunks a) (free_chunks_list a) fl \<and> distinct fl \<and>
     (\<forall>h \<in> set fl. bin_num (cs_of a h) = None \<and> \<not> in_use (cs_of a h))"

definition active :: "bfc \<Rightarrow> handle list \<Rightarrow> handle set" where
  "active a fl = {..<length (chunks a)} - set fl"

definition binned :: "handle set \<Rightarrow> handle set \<Rightarrow> (handle \<Rightarrow> chunk) \<Rightarrow> bool" where
  "binned A X cs \<longleftrightarrow> (\<forall>h \<in> A - X. \<not> in_use (cs h) \<longrightarrow> bin_num (cs h) \<noteq> None) \<and>
     (\<forall>h \<in> X. h \<in> A \<and> bin_num (cs h) = None \<and> \<not> in_use (cs h))"

definition coalesced :: "handle set \<Rightarrow> handle set \<Rightarrow> (handle \<Rightarrow> chunk) \<Rightarrow> bool" where
  "coalesced A X cs \<longleftrightarrow> (\<forall>h \<in> A. \<forall>k. cnext (cs h) = Some k \<longrightarrow> \<not> in_use (cs h) \<longrightarrow> \<not> in_use (cs k) \<longrightarrow>
     h \<in> X \<or> k \<in> X)"

definition ids_ok :: "handle set \<Rightarrow> (handle \<Rightarrow> chunk) \<Rightarrow> int \<Rightarrow> bool" where
  "ids_ok A cs nxt \<longleftrightarrow> 1 \<le> nxt \<and>
     (\<forall>h \<in> A. in_use (cs h) \<longrightarrow> 1 \<le> allocation_id (cs h) \<and> allocation_id (cs h) < nxt) \<and>
     (\<forall>h \<in> A. \<forall>k \<in> A. in_use (cs h) \<longrightarrow> in_use (cs k) \<longrightarrow> allocation_id (cs h) = allocation_id (cs k) \<longrightarrow> h = k)"

definition used_bytes :: "handle set \<Rightarrow> (handle \<Rightarrow> chunk) \<Rightarrow> int" where
  "used_bytes A cs = (\<Sum>h \<in> A. if in_use (cs h) then int (csize (cs h)) else 0)"

definition mem_ok :: "bfc \<Rightarrow> bool" where
  "mem_ok a \<longleftrightarrow> total_region_allocated_bytes a = sum_list (map memory_size (regions a)) \<and>
     total_region_allocated_bytes a \<le> memory_limit a \<and> memory_limit a < 2 ^ 64 \<and>
     256 dvd curr_region_allocation_bytes a"

definition bfc_inv :: "bfc \<Rightarrow> handle list \<Rightarrow> handle set \<Rightarrow> bool" where
  "bfc_inv a fl X \<longleftrightarrow> geom_ok (regions a) \<and> free_list_ok a fl \<and>
     layout_ok (active a fl) (cs_of a) (extents_of (regions a)) \<and>
     handle_ok (active a fl) (cs_of a) (extents_of (regions a)) (hmap (regions a)) \<and>
     bins_ok (active a fl) (cs_of a) (bins a) \<and> binned (active a fl) X (cs_of a) \<and>
     coalesced (active a fl) X (cs_of a) \<and> ids_ok (active a fl) (cs_of a) (next_allocation_id a) \<and>
     bytes_in_use (stats a) = used_bytes (active a fl) (cs_of a) \<and> mem_ok a"

lemma invD:
  assumes "bfc_inv a fl X"
  shows "geom_ok (regions a)" "free_list_ok a fl" "layout_ok (active a fl) (cs_of a) (extents_of (regions a))"
    "handle_ok (active a fl) (cs_of a) (extents_of (regions a)) (hmap (regions a))"
    "bins_ok (active a fl) (cs_of a) (bins a)" "binned (active a fl) X (cs_of a)"
    "coalesced (active a fl) X (cs_of a)" "ids_ok (active a fl) (cs_of a) (next_allocation_id a)"
    "bytes_in_use (stats a) = used_bytes (active a fl) (cs_of a)" "mem_ok a"
  using assms by (simp_all add: bfc_inv_def)

lemma active_less: "h \<in> active a fl \<Longrightarrow> h < length (chunks a)"
  by (simp add: active_def)

lemma ChunkFromHandle_active [simp]: "h \<in> active a fl \<Longrightarrow> ChunkFromHandle a h = Done (cs_of a h)"
  by (simp add: ChunkFromHandle_def active_def)

lemma free_chain_cong:
  assumes "\<And>h. h \<in> set hs \<Longrightarrow> cnext (cs' ! h) = cnext (cs ! h)" "length cs \<le> length cs'" "free_chain cs p hs"
  shows "free_chain cs' p hs"
  using assms by (induction hs arbitrary: p) auto

lemma free_chain_less: "free_chain cs p hs \<Longrightarrow> h \<in> set hs \<Longrightarrow> h < length cs"
  by (induction hs arbitrary: p) auto

lemma free_list_ok_cong:
  assumes "free_list_ok a fl" "free_chunks_list a' = free_chunks_list a" "length (chunks a') = length (chunks a)"
    "\<And>h. h \<in> set fl \<Longrightarrow> cs_of a' h = cs_of a h"
  shows "free_list_ok a' fl"
  using assms free_chain_cong [of fl "chunks a'" "chunks a" "free_chunks_list a"] by (simp add: free_list_ok_def)

subsection \<open>Chunk table entries\<close>

lemma AllocateChunk_ok:
  assumes "free_list_ok a fl"
  shows "\<exists>new a1 fl'. AllocateChunk a = Done (new, a1) \<and> new \<notin> active a fl \<and> new < length (chunks a1) \<and>
    active a1 fl' = insert new (active a fl) \<and> free_list_ok a1 fl' \<and> new \<notin> set fl' \<and>
    (\<forall>k. k < length (chunks a) \<longrightarrow> cs_of a1 k = cs_of a k) \<and> bin_num (cs_of a1 new) = None \<and>
    (\<exists>cs f. a1 = a\<lparr>chunks := cs, free_chunks_list := f\<rparr>)"
proof (cases fl)
  case Nil
  then have n: "free_chunks_list a = None" using assms by (simp add: free_list_ok_def)
  let ?a1 = "a\<lparr>chunks := chunks a @ [new_chunk]\<rparr>"
  have "AllocateChunk a = Done (length (chunks a), ?a1)" by (simp add: AllocateChunk_def n)
  moreover have "free_list_ok ?a1 []" by (simp add: free_list_ok_def n)
  moreover have "active ?a1 [] = insert (length (chunks a)) (active a fl)" by (auto simp: active_def Nil)
  moreover have "\<exists>cs f. ?a1 = a\<lparr>chunks := cs, free_chunks_list := f\<rparr>"
    by (rule exI [of _ "chunks a @ [new_chunk]"], rule exI [of _ "free_chunks_list a"]) simp
  moreover have "length (chunks a) \<notin> active a fl" by (simp add: active_def)
  ultimately show ?thesis
    by (intro exI [of _ "length (chunks a)"] exI [of _ ?a1] exI [of _ "[]"]) (simp add: nth_append new_chunk_def)
next
  case (Cons h hs)
  then have n: "free_chunks_list a = Some h" "h < length (chunks a)" "free_chain (chunks a) (cnext (cs_of a h)) hs"
     "h \<notin> set hs" "distinct hs" "bin_num (cs_of a h) = None"
     "\<forall>k \<in> set hs. bin_num (cs_of a k) = None \<and> \<not> in_use (cs_of a k)"
    using assms by (auto simp: free_list_ok_def)
  let ?a1 = "a\<lparr>free_chunks_list := cnext (cs_of a h)\<rparr>"
  have "AllocateChunk a = Done (h, ?a1)" by (simp add: AllocateChunk_def n ChunkFromHandle_def)
  moreover have "free_list_ok ?a1 hs" using n by (simp add: free_list_ok_def)
  moreover have "active ?a1 hs = insert h (active a fl)" using n by (auto simp: active_def Cons)
  moreover have "\<exists>cs f. ?a1 = a\<lparr>chunks := cs, free_chunks_list := f\<rparr>"
    by (rule exI [of _ "chunks a"], rule exI [of _ "cnext (cs_of a h)"]) simp
  moreover have "h \<notin> active a fl" by (simp add: active_def Cons)
  ultimately show ?thesis using n
    by (intro exI [of _ h] exI [of _ ?a1] exI [of _ hs]) simp
qed

lemma DeallocateChunk_ok:
  assumes "free_list_ok a fl" "h \<in> active a fl" "bin_num (cs_of a h) = None" "\<not> in_use (cs_of a h)"
  shows "\<exists>a'. DeallocateChunk h a = Done a' \<and> free_list_ok a' (h # fl) \<and> active a' (h # fl) = active a fl - {h} \<and>
    (\<forall>k. k \<noteq> h \<longrightarrow> cs_of a' k = cs_of a k) \<and> (\<exists>cs. a' = a\<lparr>chunks := cs, free_chunks_list := Some h\<rparr>)"
proof -
  let ?a' = "(upd_chunk h (\<lambda>c. c\<lparr>cnext := free_chunks_list a\<rparr>) a)\<lparr>free_chunks_list := Some h\<rparr>"
  have h: "h < length (chunks a)" "h \<notin> set fl" using assms(2) by (auto simp: active_def)
  have "free_list_ok ?a' (h # fl)"
  proof -
    have "free_chain (chunks (upd_chunk h (\<lambda>c. c\<lparr>cnext := free_chunks_list a\<rparr>) a)) (free_chunks_list a) fl"
    proof (rule free_chain_cong)
      show "free_chain (chunks a) (free_chunks_list a) fl" using assms(1) by (simp add: free_list_ok_def)
    qed (use h in \<open>auto simp: cs_of_upd\<close>)
    moreover have "bin_num (cs_of ?a' k) = None \<and> \<not> in_use (cs_of ?a' k)" if "k \<in> set (h # fl)" for k
      using that assms h by (cases "k = h") (simp_all add: cs_of_upd free_list_ok_def in_use_def)
    ultimately show ?thesis using assms(1) h by (simp add: free_list_ok_def cs_of_upd)
  qed
  moreover have "active ?a' (h # fl) = active a fl - {h}" by (auto simp: active_def)
  moreover have "\<exists>cs. ?a' = a\<lparr>chunks := cs, free_chunks_list := Some h\<rparr>" by (simp add: upd_chunk_def) blast
  moreover have "DeallocateChunk h a = Done ?a'" using assms(2) by (simp add: DeallocateChunk_def)
  moreover have "\<forall>k. k \<noteq> h \<longrightarrow> cs_of ?a' k = cs_of a k" using h by (simp add: cs_of_upd)
  ultimately show ?thesis by blast
qed

end
