(* ===== verification/Bfc_Steps.thy ===== *)
theory Bfc_Steps
  imports Bfc_State
begin

text \<open>
  The internal operations keep the invariant: moving a chunk into and out of its bin, marking it used
  or free, \<^verbatim>\<open>Merge\<close> and \<^verbatim>\<open>SplitChunk\<close>. Each lemma says that the operation does not run into a \<^verbatim>\<open>CHECK\<close>.
\<close>

lemma handle_ok_cong:
  assumes "\<And>k. k \<in> A \<Longrightarrow> cptr (cs' k) = cptr (cs k)" "handle_ok A cs G H"
  shows "handle_ok A cs' G H"
  unfolding handle_ok_def using handleD [OF assms(2)] assms(1) by auto

lemma ids_ok_cong:
  assumes "\<And>k. k \<in> A \<Longrightarrow> allocation_id (cs' k) = allocation_id (cs k)" "ids_ok A cs n"
  shows "ids_ok A cs' n"
  using assms unfolding ids_ok_def in_use_def by simp

lemma used_bytes_cong:
  assumes "\<And>k. k \<in> A \<Longrightarrow> allocation_id (cs' k) = allocation_id (cs k) \<and> csize (cs' k) = csize (cs k)"
  shows "used_bytes A cs' = used_bytes A cs"
  unfolding used_bytes_def in_use_def using assms by (intro sum.cong) auto

text \<open>The neighbours of a chunk are in use or set aside.\<close>

definition fenced :: "handle set \<Rightarrow> (handle \<Rightarrow> chunk) \<Rightarrow> handle \<Rightarrow> bool" where
  "fenced X cs h \<longleftrightarrow> (\<forall>k. cnext (cs h) = Some k \<longrightarrow> in_use (cs k) \<or> k \<in> X - {h}) \<and>
     (\<forall>k. cprev (cs h) = Some k \<longrightarrow> in_use (cs k) \<or> k \<in> X - {h})"

lemma bin_update_inv:
  assumes I: "bfc_inv a fl X" and h: "h \<in> active a fl"
    and cs': "cs_of a' = (cs_of a)(h := (cs_of a h)\<lparr>bin_num := b\<rparr>)"
    and a': "a' = a\<lparr>chunks := chunks a', bins := bins a'\<rparr>" "length (chunks a') = length (chunks a)"
    and B: "bins_ok (active a fl) (cs_of a') (bins a')"
    and X: "binned (active a fl) X' (cs_of a')" "coalesced (active a fl) X' (cs_of a')"
  shows "bfc_inv a' fl X'"
proof -
  have f: "regions a' = regions a" "free_chunks_list a' = free_chunks_list a" "next_allocation_id a' = next_allocation_id a"
    "stats a' = stats a" "mem_ok a' = mem_ok a"
    by (subst a'(1), simp add: mem_ok_def)+
  have act: "active a' fl = active a fl" using a'(2) by (simp add: active_def)
  have "h \<notin> set fl" using h by (simp add: active_def)
  then have "free_list_ok a' fl"
    by (intro free_list_ok_cong [OF invD(2) [OF I] f(2) a'(2)]) (auto simp: cs')
  moreover have "layout_ok (active a fl) (cs_of a') (extents_of (regions a))"
    by (rule layout_ok_cong [OF _ invD(3) [OF I]]) (simp add: cs')
  moreover have "handle_ok (active a fl) (cs_of a') (extents_of (regions a)) (hmap (regions a))"
    by (rule handle_ok_cong [OF _ invD(4) [OF I]]) (simp add: cs')
  moreover have "ids_ok (active a fl) (cs_of a') (next_allocation_id a)"
    by (rule ids_ok_cong [OF _ invD(8) [OF I]]) (simp add: cs')
  moreover have "used_bytes (active a fl) (cs_of a') = used_bytes (active a fl) (cs_of a)"
    by (rule used_bytes_cong) (simp add: cs')
  ultimately show ?thesis
    using invD(1,9,10) [OF I] B X by (simp add: bfc_inv_def f act)
qed

lemma in_use_bin_num [simp]: "in_use (c\<lparr>bin_num := b\<rparr>) = in_use c"
  by (simp add: in_use_def)

lemma InsertFreeChunkIntoBin_ok:
  assumes I: "bfc_inv a fl X" and h: "h \<in> X" and F: "fenced X (cs_of a) h"
  shows "\<exists>a'. InsertFreeChunkIntoBin h a = Done a' \<and> bfc_inv a' fl (X - {h}) \<and>
     cs_of a' = (cs_of a)(h := (cs_of a h)\<lparr>bin_num := Some (BinNumForSize (csize (cs_of a h)))\<rparr>) \<and>
     length (chunks a') = length (chunks a) \<and> a' = a\<lparr>chunks := chunks a', bins := bins a'\<rparr>"
proof -
  let ?b = "BinNumForSize (csize (cs_of a h))"
  let ?a1 = "upd_chunk h (\<lambda>c. c\<lparr>bin_num := Some ?b\<rparr>) a"
  let ?a' = "?a1\<lparr>bins := (bins a)[?b := set_insert (chunk_less ?a1) h (bins a ! ?b)]\<rparr>"
  from invD(6) [OF I] h have h': "h \<in> active a fl" "bin_num (cs_of a h) = None" "\<not> in_use (cs_of a h)"
    by (auto simp: binned_def)
  have op: "InsertFreeChunkIntoBin h a = Done ?a'"
    using h' by (simp add: InsertFreeChunkIntoBin_def Let_def)
  have cs': "cs_of ?a' = (cs_of a)(h := (cs_of a h)\<lparr>bin_num := Some ?b\<rparr>)"
    using active_less [OF h'(1)] by (simp add: cs_of_upd)
  have frame: "?a' = a\<lparr>chunks := chunks ?a', bins := bins ?a'\<rparr>" "length (chunks ?a') = length (chunks a)"
    by (simp_all add: upd_chunk_def)
  have inv: "bfc_inv ?a' fl (X - {h})"
  proof (rule bin_update_inv [OF I h'(1) cs' frame])
    show "bins_ok (active a fl) (cs_of ?a') (bins ?a')"
      using bins_ok_insert [OF invD(3,5) [OF I] h' refl cs'] cs' by (simp add: chunk_less_cless)
    show "binned (active a fl) (X - {h}) (cs_of ?a')"
      using invD(6) [OF I] h' unfolding binned_def cs' by auto
    show "coalesced (active a fl) (X - {h}) (cs_of ?a')"
      unfolding coalesced_def
    proof (intro ballI allI impI)
      fix x k assume x: "x \<in> active a fl" "cnext (cs_of ?a' x) = Some k" "\<not> in_use (cs_of ?a' x)" "\<not> in_use (cs_of ?a' k)"
      then have x': "cnext (cs_of a x) = Some k" "\<not> in_use (cs_of a x)" "\<not> in_use (cs_of a k)"
        unfolding cs' by (auto split: if_splits)
      then have "x \<in> X \<or> k \<in> X" using invD(7) [OF I] x(1) unfolding coalesced_def by blast
      moreover have "cprev (cs_of a k) = Some x"
        using nextD(2) [of "active a fl" "cs_of a" _ x k] x(1) x'(1) invD(3) [OF I] by (auto simp: layout_ok_def)
      ultimately show "x \<in> X - {h} \<or> k \<in> X - {h}"
        using F x' unfolding fenced_def by (cases "x = h"; cases "k = h") auto
    qed
  qed
  show ?thesis using op inv cs' frame by (intro exI [of _ ?a']) (simp only: simp_thms)
qed

lemma binned_mono_remove:
  assumes "binned A X cs" "h \<in> A" "\<not> in_use (cs h)"
  shows "binned A (insert h X) (cs(h := (cs h)\<lparr>bin_num := None\<rparr>))"
  using assms unfolding binned_def by auto

lemma coalesced_mono_remove:
  assumes "coalesced A X cs"
  shows "coalesced A (insert h X) (cs(h := (cs h)\<lparr>bin_num := b\<rparr>))"
  using assms unfolding coalesced_def by (auto split: if_splits)

lemma binned_bin:
  assumes "binned A X cs" "h \<in> A" "h \<notin> X" "\<not> in_use (cs h)" "bins_ok A cs bs"
  obtains b where "bin_num (cs h) = Some b" "b < kNumBins" "h \<in> set (bs ! b)"
  using assms binsD(3,4) [OF assms(5)] BinNumForSize_less unfolding binned_def
  by (metis DiffI not_None_eq)

lemma RemoveFreeChunkFromBin_ok:
  assumes I: "bfc_inv a fl X" and h: "h \<in> active a fl" "h \<notin> X" "\<not> in_use (cs_of a h)"
  shows "\<exists>a'. RemoveFreeChunkFromBin h a = Done a' \<and> bfc_inv a' fl (insert h X) \<and>
     cs_of a' = (cs_of a)(h := (cs_of a h)\<lparr>bin_num := None\<rparr>) \<and>
     length (chunks a') = length (chunks a) \<and> a' = a\<lparr>chunks := chunks a', bins := bins a'\<rparr>"
proof -
  obtain b where b: "bin_num (cs_of a h) = Some b" "b < kNumBins" "h \<in> set (bins a ! b)"
    using binned_bin [OF invD(6) [OF I] h invD(5) [OF I]] .
  let ?bin = "filter (\<lambda>y. y \<noteq> h) (bins a ! b)"
  let ?a' = "upd_chunk h (\<lambda>c. c\<lparr>bin_num := None\<rparr>) (a\<lparr>bins := (bins a)[b := ?bin]\<rparr>)"
  have er: "set_erase (chunk_less a) h (bins a ! b) = ?bin"
    unfolding chunk_less_cless
  proof (rule set_erase_eq)
    fix y assume "y \<in> set (bins a ! b)" "y \<noteq> h"
    then show "cptr (cs_of a h) \<noteq> cptr (cs_of a y)"
      using binsD(3) [OF invD(5) [OF I] b(2), of y] cptr_inj [OF invD(3) [OF I] h(1), of y] by auto
  qed
  have "length ?bin < length (bins a ! b)" using b(3) by (rule length_filter_less) simp
  then have op: "RemoveFreeChunkFromBin h a = Done ?a'"
    using h b(1) er by (simp add: RemoveFreeChunkFromBin_def Let_def)
  have cs': "cs_of ?a' = (cs_of a)(h := (cs_of a h)\<lparr>bin_num := None\<rparr>)"
    using active_less [OF h(1)] by (simp add: cs_of_upd)
  have frame: "?a' = a\<lparr>chunks := chunks ?a', bins := bins ?a'\<rparr>" "length (chunks ?a') = length (chunks a)"
    by (simp_all add: upd_chunk_def)
  have "bfc_inv ?a' fl (insert h X)"
    by (rule bin_update_inv [OF I h(1) cs' frame])
      (use bins_ok_remove [OF invD(5) [OF I] h(1) b(1,2) cs' refl] binned_mono_remove [OF invD(6) [OF I] h(1,3)]
        coalesced_mono_remove [OF invD(7) [OF I]] in \<open>simp_all add: cs'\<close>)
  then show ?thesis using op cs' frame by (intro exI [of _ ?a']) (simp only: simp_thms)
qed

lemma RemoveFreeChunkIterFromBin_ok:
  assumes I: "bfc_inv a fl X" and b: "b < kNumBins" "h \<in> set (bins a ! b)"
  shows "\<exists>a'. RemoveFreeChunkIterFromBin b h a = Done a' \<and> bfc_inv a' fl (insert h X) \<and>
     cs_of a' = (cs_of a)(h := (cs_of a h)\<lparr>bin_num := None\<rparr>) \<and>
     length (chunks a') = length (chunks a) \<and> a' = a\<lparr>chunks := chunks a', bins := bins a'\<rparr>"
proof -
  have h: "h \<in> active a fl" "bin_num (cs_of a h) = Some b" using binsD(3) [OF invD(5) [OF I] b(1)] b(2) by auto
  have nu: "\<not> in_use (cs_of a h)" using binsD(5) [OF invD(5) [OF I] h] .
  let ?bin = "remove1 h (bins a ! b)"
  let ?a' = "upd_chunk h (\<lambda>c. c\<lparr>bin_num := None\<rparr>) (a\<lparr>bins := (bins a)[b := ?bin]\<rparr>)"
  have bin: "?bin = filter (\<lambda>y. y \<noteq> h) (bins a ! b)"
    using distinct_remove1_removeAll [OF distinct_sorted_cless [OF binsD(2) [OF invD(5) [OF I] b(1)]], of h]
    by (simp add: removeAll_filter_not_eq eq_commute)
  have op: "RemoveFreeChunkIterFromBin b h a = Done ?a'"
    using h nu by (simp add: RemoveFreeChunkIterFromBin_def)
  have cs': "cs_of ?a' = (cs_of a)(h := (cs_of a h)\<lparr>bin_num := None\<rparr>)"
    using active_less [OF h(1)] by (simp add: cs_of_upd)
  have frame: "?a' = a\<lparr>chunks := chunks ?a', bins := bins ?a'\<rparr>" "length (chunks ?a') = length (chunks a)"
    by (simp_all add: upd_chunk_def)
  have "bfc_inv ?a' fl (insert h X)"
    by (rule bin_update_inv [OF I h(1) cs' frame])
      (use bins_ok_remove [OF invD(5) [OF I] h b(1) cs' bin] binned_mono_remove [OF invD(6) [OF I] h(1) nu]
        coalesced_mono_remove [OF invD(7) [OF I]] in \<open>simp_all add: cs'\<close>)
  then show ?thesis using op cs' frame by (intro exI [of _ ?a']) (simp only: simp_thms)
qed

lemma finite_active [simp]: "finite (active a fl)"
  by (simp add: active_def)

lemma used_bytes_update:
  assumes "finite A" "h \<in> A" "csize c = csize (cs h)"
  shows "used_bytes A (cs(h := c)) = used_bytes A cs - (if in_use (cs h) then int (csize (cs h)) else 0)
    + (if in_use c then int (csize (cs h)) else 0)"
proof -
  have *: "used_bytes A cs' = (if in_use (cs' h) then int (csize (cs' h)) else 0)
      + (\<Sum>k \<in> A - {h}. if in_use (cs' k) then int (csize (cs' k)) else 0)" for cs'
    unfolding used_bytes_def using assms(1,2) by (rule sum.remove)
  have "(\<Sum>k \<in> A - {h}. if in_use ((cs(h := c)) k) then int (csize ((cs(h := c)) k)) else 0)
    = (\<Sum>k \<in> A - {h}. if in_use (cs k) then int (csize (cs k)) else 0)"
    by (rule sum.cong) auto
  then show ?thesis
    using * [of cs] * [of "cs(h := c)"] assms(3) by simp
qed

definition same_layout :: "chunk \<Rightarrow> chunk \<Rightarrow> bool" where
  "same_layout c c' \<longleftrightarrow> cptr c = cptr c' \<and> csize c = csize c' \<and> cnext c = cnext c' \<and> cprev c = cprev c' \<and>
     bin_num c = bin_num c'"

lemma alloc_update_inv:
  assumes I: "bfc_inv a fl X" and h: "h \<in> active a fl" "bin_num (cs_of a h) = None"
    and cs': "cs_of a' = (cs_of a)(h := c)" and c: "same_layout c (cs_of a h)"
    and f: "length (chunks a') = length (chunks a)" "regions a' = regions a" "free_chunks_list a' = free_chunks_list a"
      "bins a' = bins a" "mem_ok a' = mem_ok a"
    and X: "binned (active a fl) X' (cs_of a')" "coalesced (active a fl) X' (cs_of a')"
    and ids: "ids_ok (active a fl) (cs_of a') (next_allocation_id a')"
    and used: "bytes_in_use (stats a') = used_bytes (active a fl) (cs_of a')"
  shows "bfc_inv a' fl X'"
proof -
  have act: "active a' fl = active a fl" using f by (simp add: active_def)
  have "h \<notin> set fl" using h by (simp add: active_def)
  then have "free_list_ok a' fl"
    by (intro free_list_ok_cong [OF invD(2) [OF I] f(3) f(1)]) (auto simp: cs')
  moreover have "layout_ok (active a fl) (cs_of a') (extents_of (regions a))"
    by (rule layout_ok_cong [OF _ invD(3) [OF I]]) (use c in \<open>simp add: cs' same_layout_def\<close>)
  moreover have "handle_ok (active a fl) (cs_of a') (extents_of (regions a)) (hmap (regions a))"
    by (rule handle_ok_cong [OF _ invD(4) [OF I]]) (use c in \<open>simp add: cs' same_layout_def\<close>)
  moreover have "bins_ok (active a fl) (cs_of a') (bins a)"
    by (rule bins_ok_frame [OF invD(5) [OF I]]) (use c h in \<open>auto simp: cs' same_layout_def same_bin_data_def split: if_splits\<close>)
  ultimately show ?thesis
    using invD(1,10) [OF I] X ids used by (simp add: bfc_inv_def f act)
qed

lemma mark_free_fields:
  assumes "h < length (chunks a)"
  shows "\<exists>fc. cs_of (mark_free h a) = (cs_of a)(h := (cs_of a h)\<lparr>allocation_id := -1, freed_count := fc\<rparr>)"
    "length (chunks (mark_free h a)) = length (chunks a)" "regions (mark_free h a) = regions a"
    "free_chunks_list (mark_free h a) = free_chunks_list a" "bins (mark_free h a) = bins a"
    "next_allocation_id (mark_free h a) = next_allocation_id a" "mem_ok (mark_free h a) = mem_ok a"
    "bytes_in_use (stats (mark_free h a)) = bytes_in_use (stats a) - int (csize (cs_of a h))"
proof -
  show "\<exists>fc. cs_of (mark_free h a) = (cs_of a)(h := (cs_of a h)\<lparr>allocation_id := -1, freed_count := fc\<rparr>)"
  proof (cases "timing_counter a")
    case None
    then show ?thesis using assms
      by (intro exI [of _ "freed_count (cs_of a h)"]) (simp add: mark_free_def Let_def cs_of_upd)
  next
    case (Some t)
    then show ?thesis using assms
      by (intro exI [of _ "t + 1"]) (simp add: mark_free_def Let_def cs_of_upd upd_chunk_def fun_eq_iff nth_list_update)
  qed
qed (use assms in \<open>auto simp: mark_free_def Let_def mem_ok_def split: option.splits\<close>)

lemma mark_free_inv:
  assumes I: "bfc_inv a fl {}" and h: "h \<in> active a fl" "in_use (cs_of a h)"
  shows "bfc_inv (mark_free h a) fl {h}"
proof -
  note f = mark_free_fields [OF active_less [OF h(1)]]
  obtain fc where cs': "cs_of (mark_free h a) = (cs_of a)(h := (cs_of a h)\<lparr>allocation_id := -1, freed_count := fc\<rparr>)"
    using f(1) ..
  let ?c = "(cs_of a h)\<lparr>allocation_id := -1, freed_count := fc\<rparr>"
  have b: "bin_num (cs_of a h) = None"
    using binsD(5) [OF invD(5) [OF I] h(1)] h(2) by (cases "bin_num (cs_of a h)") auto
  show ?thesis
  proof (rule alloc_update_inv [OF I h(1) b cs' _ f(2,3,4,5,7)])
    show "same_layout ?c (cs_of a h)" by (simp add: same_layout_def)
    show "binned (active a fl) {h} (cs_of (mark_free h a))"
      using invD(6) [OF I] h b unfolding binned_def cs' by (auto simp: in_use_def)
    show "coalesced (active a fl) {h} (cs_of (mark_free h a))"
      using invD(7) [OF I] unfolding coalesced_def cs' by (auto split: if_splits)
    show "ids_ok (active a fl) (cs_of (mark_free h a)) (next_allocation_id (mark_free h a))"
      using invD(8) [OF I] unfolding ids_ok_def cs' f by (auto simp: in_use_def split: if_splits)
    show "bytes_in_use (stats (mark_free h a)) = used_bytes (active a fl) (cs_of (mark_free h a))"
      using invD(9) [OF I] h used_bytes_update [OF finite_active h(1), of ?c "cs_of a"]
      unfolding cs' f by (simp add: in_use_def)
  qed
qed

lemma mark_used_fields:
  assumes "h < length (chunks a)"
  shows "cs_of (mark_used h n a) = (cs_of a)(h := (cs_of a h)\<lparr>requested_size := n, allocation_id := next_allocation_id a\<rparr>)"
    "length (chunks (mark_used h n a)) = length (chunks a)" "regions (mark_used h n a) = regions a"
    "free_chunks_list (mark_used h n a) = free_chunks_list a" "bins (mark_used h n a) = bins a"
    "next_allocation_id (mark_used h n a) = next_allocation_id a + 1" "mem_ok (mark_used h n a) = mem_ok a"
    "bytes_in_use (stats (mark_used h n a)) = bytes_in_use (stats a) + int (csize (cs_of a h))"
  using assms by (auto simp: mark_used_def Let_def mem_ok_def cs_of_upd)

lemma mark_used_inv:
  assumes I: "bfc_inv a fl {h}"
  shows "bfc_inv (mark_used h n a) fl {}"
proof -
  have h: "h \<in> active a fl" and b: "bin_num (cs_of a h) = None" and u: "\<not> in_use (cs_of a h)"
    using invD(6) [OF I] by (auto simp: binned_def)
  note f = mark_used_fields [OF active_less [OF h], of n]
  let ?c = "(cs_of a h)\<lparr>requested_size := n, allocation_id := next_allocation_id a\<rparr>"
  have id: "1 \<le> next_allocation_id a" using invD(8) [OF I] by (simp add: ids_ok_def)
  then have u': "in_use ?c" by (simp add: in_use_def)
  show ?thesis
  proof (rule alloc_update_inv [OF I h b f(1) _ f(2,3,4,5,7)])
    show "same_layout ?c (cs_of a h)" by (simp add: same_layout_def)
    show "binned (active a fl) {} (cs_of (mark_used h n a))"
      using invD(6) [OF I] u' unfolding binned_def f by auto
    show "coalesced (active a fl) {} (cs_of (mark_used h n a))"
      using invD(7) [OF I] u' unfolding coalesced_def f by (auto split: if_splits)
    show "ids_ok (active a fl) (cs_of (mark_used h n a)) (next_allocation_id (mark_used h n a))"
    proof -
      have old: "1 \<le> allocation_id (cs_of a x)" "allocation_id (cs_of a x) < next_allocation_id a"
        if "x \<in> active a fl" "in_use (cs_of a x)" for x
        using invD(8) [OF I] that unfolding ids_ok_def by blast+
      have inj: "x = y" if "x \<in> active a fl" "y \<in> active a fl" "in_use (cs_of a x)" "in_use (cs_of a y)"
          "allocation_id (cs_of a x) = allocation_id (cs_of a y)" for x y
        using invD(8) [OF I] that unfolding ids_ok_def by blast
      have fr: "allocation_id (cs_of a x) \<noteq> next_allocation_id a" if "x \<in> active a fl" "in_use (cs_of a x)" for x
        using old(2) [OF that] by simp
      show ?thesis
        unfolding ids_ok_def f
      proof (intro conjI ballI impI)
        fix x assume "x \<in> active a fl" "in_use (((cs_of a)(h := ?c)) x)"
        then show "1 \<le> allocation_id (((cs_of a)(h := ?c)) x)" "allocation_id (((cs_of a)(h := ?c)) x) < next_allocation_id a + 1"
          using old [of x] id by (cases "x = h"; simp)+
      next
        fix x y assume "x \<in> active a fl" "y \<in> active a fl" "in_use (((cs_of a)(h := ?c)) x)" "in_use (((cs_of a)(h := ?c)) y)"
          "allocation_id (((cs_of a)(h := ?c)) x) = allocation_id (((cs_of a)(h := ?c)) y)"
        then show "x = y" using inj [of x y] fr [of x] fr [of y] by (cases "x = h"; cases "y = h") simp_all
      qed (use id in simp)
    qed
    show "bytes_in_use (stats (mark_used h n a)) = used_bytes (active a fl) (cs_of (mark_used h n a))"
      using invD(9) [OF I] u u' used_bytes_update [OF finite_active h, of ?c "cs_of a"]
      unfolding f by simp
  qed
qed

subsection \<open>Merge\<close>

lemma Merge_ok:
  assumes I: "bfc_inv a fl X" and X: "h1 \<in> X" "h2 \<in> X" and n: "cnext (cs_of a h1) = Some h2"
  shows "\<exists>a'. Merge h1 h2 a = Done a' \<and> bfc_inv a' (h2 # fl) (X - {h2}) \<and>
    (\<forall>k. k \<noteq> h2 \<longrightarrow> cs_of a' k = merge_cs h1 h2 (cs_of a) k) \<and>
    active a' (h2 # fl) = active a fl - {h2} \<and> extents_of (regions a') = extents_of (regions a)"
proof -
  let ?A = "active a fl" and ?G = "extents_of (regions a)"
  have h: "h1 \<in> ?A" "bin_num (cs_of a h1) = None" "\<not> in_use (cs_of a h1)"
     "h2 \<in> ?A" "bin_num (cs_of a h2) = None" "\<not> in_use (cs_of a h2)"
    using invD(6) [OF I] X by (auto simp: binned_def)
  note L = invD(3) [OF I]
  have M: "can_merge ?A (cs_of a) h1 h2" using h n by (simp add: can_merge_def)
  note f = merge_facts [OF L M] and ms = merge_simps [OF L M]
  define a1 where "a1 = upd_chunk h1 (\<lambda>c. c\<lparr>cnext := cnext (cs_of a h2)\<rparr>) a"
  define a2 where "a2 = (case cnext (cs_of a h2) of None \<Rightarrow> a1 | Some k \<Rightarrow> upd_chunk k (\<lambda>c. c\<lparr>cprev := Some h1\<rparr>) a1)"
  define a3 where "a3 = upd_chunk h1 (\<lambda>c. c\<lparr>csize := csize c + csize (cs_of a h2),
                freed_count := max (freed_count c) (freed_count (cs_of a h2))\<rparr>) a2"
  have nx: "k \<in> ?A" if "cnext (cs_of a h2) = Some k" for k
    using nextD(1) [of ?A "cs_of a" ?G h2 k] L h(4) that by (simp add: layout_ok_def)
  have len: "length (chunks a1) = length (chunks a)" "length (chunks a2) = length (chunks a)" "length (chunks a3) = length (chunks a)"
    by (auto simp: a1_def a2_def a3_def split: option.split)
  have cs3: "cs_of a3 = merge_cs h1 h2 (cs_of a)"
    using active_less [OF h(1)] active_less [OF nx]
    by (simp add: a3_def a2_def a1_def merge_cs_def Let_def cs_of_upd split: option.split)
  have a3: "regions a3 = regions a" "bins a3 = bins a" "free_chunks_list a3 = free_chunks_list a"
    "next_allocation_id a3 = next_allocation_id a" "stats a3 = stats a" "mem_ok a3 = mem_ok a"
    by (auto simp: a3_def a2_def a1_def mem_ok_def split: option.split)
  have act3: "active a3 fl = ?A" using len by (simp add: active_def)
  have fl3: "free_list_ok a3 fl"
  proof (rule free_list_ok_cong [OF invD(2) [OF I] a3(3) len(3)])
    fix k assume "k \<in> set fl"
    then have "k \<notin> ?A" by (simp add: active_def)
    then have "k \<noteq> h1" "cnext (cs_of a h2) \<noteq> Some k" using h nx by auto
    then show "cs_of a3 k = cs_of a k" unfolding cs3 by (auto simp: merge_cs_def Let_def split: option.split)
  qed
  have sl: "cptr (cs_of a h2) \<in> slots ?G"
    using chunk_slot [of ?A "cs_of a" ?G h2] L h by (simp add: layout_ok_def)
  obtain rs' where rs': "set_handle (cptr (cs_of a h2)) None (regions a) = Done rs'" "geom_ok rs'" "extents_of rs' = ?G"
      "map memory_size rs' = map memory_size (regions a)"
      "\<forall>q \<in> slots ?G. hmap rs' q = (if q = cptr (cs_of a h2) then None else hmap (regions a) q)"
    using set_handle_slot [OF invD(1) [OF I] sl, of None] by blast
  define a4 where "a4 = a3\<lparr>regions := rs'\<rparr>"
  have "free_list_ok a4 fl" "h2 \<in> active a4 fl" "bin_num (cs_of a4 h2) = None" "\<not> in_use (cs_of a4 h2)"
    using fl3 act3 h ms(5,6) [of h2] by (simp_all add: a4_def free_list_ok_def active_def cs3 in_use_def)
  from DeallocateChunk_ok [OF this] obtain a' where a': "DeallocateChunk h2 a4 = Done a'"
    "free_list_ok a' (h2 # fl)" "active a' (h2 # fl) = active a4 fl - {h2}" "\<forall>k. k \<noteq> h2 \<longrightarrow> cs_of a' k = cs_of a4 k"
    "\<exists>cs. a' = a4\<lparr>chunks := cs, free_chunks_list := Some h2\<rparr>" by blast
  have act': "active a' (h2 # fl) = ?A - {h2}" using a'(3) act3 by (simp add: a4_def active_def)
  have cs': "cs_of a' k = merge_cs h1 h2 (cs_of a) k" if "k \<noteq> h2" for k
    using a'(4) that cs3 by (simp add: a4_def)
  have fr: "regions a' = rs'" "bins a' = bins a" "next_allocation_id a' = next_allocation_id a" "stats a' = stats a"
      "total_region_allocated_bytes a' = total_region_allocated_bytes a3" "memory_limit a' = memory_limit a3"
      "curr_region_allocation_bytes a' = curr_region_allocation_bytes a3"
    using a'(5) a3 by (auto simp: a4_def)
  have op: "Merge h1 h2 a = Done a'"
  proof -
    have "DeleteChunk h2 a3 = Done a'"
      using active_less [OF h(4)] len(3) rs'(1) a'(1) ms(1) [of h2]
      by (simp add: DeleteChunk_def ChunkFromHandle_def cs3 set_region_handle_def a3(1) a4_def)
    moreover have "(case cnext (cs_of a h2) of None \<Rightarrow> Done a1
            | Some k \<Rightarrow> obind (ChunkFromHandle a1 k) (\<lambda>_. Done (upd_chunk k (\<lambda>c. c\<lparr>cprev := Some h1\<rparr>) a1))) = Done a2"
      using active_less [OF nx] len(1) by (auto simp: a2_def ChunkFromHandle_def split: option.split)
    ultimately show ?thesis
      using h f(5) unfolding Merge_def Let_def a1_def a3_def by simp
  qed
  have "bfc_inv a' (h2 # fl) (X - {h2})"
    unfolding bfc_inv_def act' fr rs'(3)
  proof (intro conjI)
    show "geom_ok rs'" "free_list_ok a' (h2 # fl)" by (rule rs'(2), rule a'(2))
    show "layout_ok (?A - {h2}) (cs_of a') ?G"
      by (rule layout_ok_cong [OF _ merge_layout_ok [OF L M]]) (simp add: cs')
    show "handle_ok (?A - {h2}) (cs_of a') ?G (hmap rs')"
      by (rule handle_ok_cong [OF _ handle_ok_merge [OF L M invD(4) [OF I]]]) (use rs'(5) in \<open>simp_all add: cs'\<close>)
    show "bins_ok (?A - {h2}) (cs_of a') (bins a)"
    proof (rule bins_ok_frame [OF invD(5) [OF I]])
      fix k assume "k \<in> ?A" "bin_num (cs_of a k) \<noteq> None"
      then have "k \<noteq> h1" "k \<noteq> h2" using h by auto
      then show "k \<in> ?A - {h2} \<and> same_bin_data (cs_of a k) (cs_of a' k)"
        using \<open>k \<in> ?A\<close> by (simp add: cs' ms same_bin_data_def)
    next
      fix k assume "k \<in> ?A - {h2}" "bin_num (cs_of a' k) \<noteq> None"
      then show "k \<in> ?A \<and> bin_num (cs_of a k) \<noteq> None" by (simp add: cs' ms)
    qed
    show "binned (?A - {h2}) (X - {h2}) (cs_of a')"
      using invD(6) [OF I] unfolding binned_def by (auto simp: cs' ms in_use_def)
    show "coalesced (?A - {h2}) (X - {h2}) (cs_of a')"
      unfolding coalesced_def
    proof (intro ballI allI impI)
      fix x k assume x: "x \<in> ?A - {h2}" "cnext (cs_of a' x) = Some k" "\<not> in_use (cs_of a' x)" "\<not> in_use (cs_of a' k)"
      have k: "k \<in> ?A - {h2}"
        using nextD(1) [OF merge_next_ok [OF L M], of x k] x cs' [of x] by simp
      show "x \<in> X - {h2} \<or> k \<in> X - {h2}"
        using x k X invD(7) [OF I] cs' [of x] cs' [of k] ms(3) [of x] ms(5) [of x] ms(5) [of k] f(3)
        unfolding coalesced_def in_use_def by (cases "x = h1") auto
    qed
    show "ids_ok (?A - {h2}) (cs_of a') (next_allocation_id a)"
      using invD(8) [OF I] unfolding ids_ok_def by (simp add: cs' ms in_use_def)
    have "used_bytes ?A (cs_of a) = used_bytes (?A - {h2}) (cs_of a)"
      unfolding used_bytes_def using h(4,6) by (simp add: sum.remove)
    also have "\<dots> = used_bytes (?A - {h2}) (cs_of a')"
      unfolding used_bytes_def using h(3) by (intro sum.cong) (auto simp: cs' ms in_use_def)
    finally show "bytes_in_use (stats a) = used_bytes (?A - {h2}) (cs_of a')" using invD(9) [OF I] by simp
    show "mem_ok a'" using invD(10) [OF I] a3(6) rs'(4) a3(1) by (simp add: mem_ok_def fr)
  qed
  then show ?thesis using op cs' act' fr(1) rs'(3) by (intro exI [of _ a']) simp
qed

lemma SplitChunk_ok:
  assumes I: "bfc_inv a fl X" and h: "h \<in> X" and n: "0 < n" "n < csize (cs_of a h)" "256 dvd n"
    and nb': "\<forall>k. cnext (cs_of a h) = Some k \<longrightarrow> in_use (cs_of a k)"
  shows "\<exists>a' fl' new. SplitChunk h n a = Done a' \<and> bfc_inv a' fl' X \<and> new \<notin> active a fl \<and>
    active a' fl' = insert new (active a fl) \<and> cptr (cs_of a' h) = cptr (cs_of a h) \<and> csize (cs_of a' h) = n \<and>
    \<not> in_use (cs_of a' new) \<and>
    (\<forall>k \<in> active a fl - {h}. cptr (cs_of a' k) = cptr (cs_of a k) \<and> csize (cs_of a' k) = csize (cs_of a k) \<and>
        allocation_id (cs_of a' k) = allocation_id (cs_of a k) \<and> requested_size (cs_of a' k) = requested_size (cs_of a k)) \<and>
    next_allocation_id a' = next_allocation_id a \<and> extents_of (regions a') = extents_of (regions a)"
proof -
  note nb = nb' [rule_format]
  let ?A = "active a fl" and ?G = "extents_of (regions a)"
  have hA: "h \<in> ?A" "bin_num (cs_of a h) = None" "\<not> in_use (cs_of a h)"
    using invD(6) [OF I] h by (auto simp: binned_def)
  obtain new a1 fl' where a1: "AllocateChunk a = Done (new, a1)" "new \<notin> ?A" "new < length (chunks a1)"
    "active a1 fl' = insert new ?A" "free_list_ok a1 fl'" "new \<notin> set fl'"
    "\<forall>k. k < length (chunks a) \<longrightarrow> cs_of a1 k = cs_of a k" "bin_num (cs_of a1 new) = None"
    "\<exists>cs f. a1 = a\<lparr>chunks := cs, free_chunks_list := f\<rparr>"
    using AllocateChunk_ok [OF invD(2) [OF I]] by blast
  have cs1: "cs_of a1 k = cs_of a k" if "k \<in> ?A" for k using a1(7) active_less [OF that] by simp
  have f1: "regions a1 = regions a" "bins a1 = bins a" "next_allocation_id a1 = next_allocation_id a" "stats a1 = stats a" "mem_ok a1 = mem_ok a"
    using a1(9) by (auto simp: mem_ok_def)
  have L: "layout_ok ?A (cs_of a1) ?G"
    by (rule layout_ok_cong [OF _ invD(3) [OF I]]) (simp add: cs1)
  have H: "handle_ok ?A (cs_of a1) ?G (hmap (regions a))"
    by (rule handle_ok_cong [OF _ invD(4) [OF I]]) (simp add: cs1)
  have S: "can_split ?A (cs_of a1) h new n" using hA n a1(2) cs1 [OF hA(1)] by (simp add: can_split_def)
  note ss = split_simps [OF L S]
  have sl: "cptr (cs_of a h) + n \<in> slots ?G"
    using chunk_slot [OF split_chunk_ok [OF L S], of new] ss(1) [of new] cs1 [OF hA(1)] by simp
  obtain rs' where rs': "set_handle (cptr (cs_of a h) + n) (Some new) (regions a) = Done rs'" "geom_ok rs'" "extents_of rs' = ?G"
      "map memory_size rs' = map memory_size (regions a)"
      "\<forall>q \<in> slots ?G. hmap rs' q = (if q = cptr (cs_of a h) + n then Some new else hmap (regions a) q)"
    using set_handle_slot [OF invD(1) [OF I] sl, of "Some new"] by blast
  let ?c = "cs_of a h"
  define a2 where "a2 = a1\<lparr>regions := rs'\<rparr>"
  define a3 where "a3 = upd_chunk new (\<lambda>m. m\<lparr>cptr := cptr ?c + n,
                csize := csize ?c - n, allocation_id := -1,
                freed_count := freed_count ?c, cprev := Some h, cnext := cnext ?c\<rparr>) a2"
  define a4 where "a4 = upd_chunk h (\<lambda>c. c\<lparr>csize := n, cnext := Some new\<rparr>) a3"
  define a5 where "a5 = (case cnext ?c of None \<Rightarrow> a4 | Some hn \<Rightarrow> upd_chunk hn (\<lambda>m. m\<lparr>cprev := Some new\<rparr>) a4)"
  have nx: "k \<in> ?A" if "cnext ?c = Some k" for k
    using nextD(1) [of ?A "cs_of a" ?G h k] invD(3) [OF I] hA(1) that by (simp add: layout_ok_def)
  have lt: "k < length (chunks a1)" if "k \<in> ?A" for k
    using a1(4) that active_less [of k a1 fl'] by simp
  have len: "length (chunks a4) = length (chunks a1)" "length (chunks a5) = length (chunks a1)"
    by (auto simp: a2_def a3_def a4_def a5_def split: option.split)
  have hnew: "h \<noteq> new" using hA a1(2) by auto
  have cs5: "cs_of a5 = split_cs h new n (cs_of a1)"
    using lt [OF hA(1)] lt [OF nx] a1(3) cs1 [OF hA(1)] hnew
    by (simp add: a5_def a4_def a3_def a2_def split_cs_def Let_def cs_of_upd split: option.split)
  have f5: "regions a5 = rs'" "bins a5 = bins a" "free_chunks_list a5 = free_chunks_list a1"
    "next_allocation_id a5 = next_allocation_id a" "stats a5 = stats a"
    "total_region_allocated_bytes a5 = total_region_allocated_bytes a" "memory_limit a5 = memory_limit a"
    "curr_region_allocation_bytes a5 = curr_region_allocation_bytes a"
    using f1 a1(9) by (auto simp: a5_def a4_def a3_def a2_def split: option.split)
  have act5: "active a5 fl' = insert new ?A" using len a1(4) by (simp add: active_def)
  have fl5: "free_list_ok a5 fl'"
  proof (rule free_list_ok_cong [OF a1(5) f5(3) len(2)])
    fix k assume "k \<in> set fl'"
    then have "k \<notin> insert new ?A" unfolding a1(4) [symmetric] by (simp add: active_def)
    then have "k \<noteq> h" "k \<noteq> new" "cnext (cs_of a1 h) \<noteq> Some k" using hA nx cs1 by auto
    then show "cs_of a5 k = cs_of a1 k" unfolding cs5 by (auto simp: split_cs_def Let_def split: option.split)
  qed
  have I5: "bfc_inv a5 fl' (insert new X)"
    unfolding bfc_inv_def act5 f5 rs'(3) cs5
  proof (intro conjI)
    show "geom_ok rs'" "free_list_ok a5 fl'" by (rule rs'(2), rule fl5)
    show "layout_ok (insert new ?A) (split_cs h new n (cs_of a1)) ?G" by (rule split_layout_ok [OF L S])
    show "handle_ok (insert new ?A) (split_cs h new n (cs_of a1)) ?G (hmap rs')"
      by (rule handle_ok_split [OF L S H]) (use rs'(5) cs1 [OF hA(1)] in simp)
    show "bins_ok (insert new ?A) (split_cs h new n (cs_of a1)) (bins a)"
    proof (rule bins_ok_frame [OF invD(5) [OF I]])
      fix k assume k: "k \<in> ?A" "bin_num (cs_of a k) \<noteq> None"
      then have "k \<noteq> h" "k \<noteq> new" using hA a1(2) by auto
      then show "k \<in> insert new ?A \<and> same_bin_data (cs_of a k) (split_cs h new n (cs_of a1) k)"
        using k(1) by (simp add: ss same_bin_data_def cs1)
    next
      fix k assume "k \<in> insert new ?A" "bin_num (split_cs h new n (cs_of a1) k) \<noteq> None"
      then show "k \<in> ?A \<and> bin_num (cs_of a k) \<noteq> None"
        using a1(8) by (cases "k = new") (auto simp: ss cs1)
    qed
    show "binned (insert new ?A) (insert new X) (split_cs h new n (cs_of a1))"
      using invD(6) [OF I] a1(8) unfolding binned_def by (auto simp: ss cs1 in_use_def)
    show "coalesced (insert new ?A) (insert new X) (split_cs h new n (cs_of a1))"
      unfolding coalesced_def
    proof (intro ballI allI impI)
      fix x k assume x: "x \<in> insert new ?A" "cnext (split_cs h new n (cs_of a1) x) = Some k"
         "\<not> in_use (split_cs h new n (cs_of a1) x)" "\<not> in_use (split_cs h new n (cs_of a1) k)"
      show "x \<in> insert new X \<or> k \<in> insert new X"
      proof (cases "x = new \<or> x = h")
        case False
        then have x': "x \<in> ?A" "cnext (cs_of a x) = Some k" using x(1,2) by (auto simp: ss cs1)
        then have "k \<in> ?A" using nextD(1) [of ?A "cs_of a" ?G x k] invD(3) [OF I] by (simp add: layout_ok_def)
        then have "\<not> in_use (cs_of a x)" "\<not> in_use (cs_of a k)"
          using x(3,4) x' False a1(2) by (auto simp: ss cs1 in_use_def split: if_splits)
        then show ?thesis using x' invD(7) [OF I] unfolding coalesced_def by blast
      qed (use h in auto)
    qed
    show "ids_ok (insert new ?A) (split_cs h new n (cs_of a1)) (next_allocation_id a)"
      using invD(8) [OF I] unfolding ids_ok_def by (auto simp: ss cs1 in_use_def split: if_splits)
    have "used_bytes (insert new ?A) (split_cs h new n (cs_of a1)) = used_bytes ?A (split_cs h new n (cs_of a1))"
      unfolding used_bytes_def using a1(2) by (simp add: ss in_use_def)
    also have "\<dots> = used_bytes ?A (cs_of a)"
      unfolding used_bytes_def using hA(3) a1(2) by (intro sum.cong) (auto simp: ss cs1 in_use_def)
    finally show "bytes_in_use (stats a) = used_bytes (insert new ?A) (split_cs h new n (cs_of a1))"
      using invD(9) [OF I] by simp
    show "mem_ok a5" using invD(10) [OF I] rs'(4) by (simp add: mem_ok_def f5)
  qed
  have newX: "new \<notin> X" using invD(6) [OF I] a1(2) by (auto simp: binned_def)
  have F: "fenced (insert new X) (cs_of a5) new"
    unfolding fenced_def cs5 using h hnew nb a1(2) nx newX by (auto simp: ss cs1 in_use_def hA)
  obtain a' where a': "InsertFreeChunkIntoBin new a5 = Done a'" "bfc_inv a' fl' (insert new X - {new})"
     "cs_of a' = (cs_of a5)(new := (cs_of a5 new)\<lparr>bin_num := Some (BinNumForSize (csize (cs_of a5 new)))\<rparr>)"
     "length (chunks a') = length (chunks a5)" "a' = a5\<lparr>chunks := chunks a', bins := bins a'\<rparr>"
    using InsertFreeChunkIntoBin_ok [OF I5 _ F] by blast
  have "SplitChunk h n a = Done a'"
  proof -
    have "(case cnext ?c of None \<Rightarrow> Done a4
            | Some hn \<Rightarrow> obind (ChunkFromHandle a4 hn) (\<lambda>_. Done (upd_chunk hn (\<lambda>m. m\<lparr>cprev := Some new\<rparr>) a4))) = Done a5"
      using lt [OF nx] len(1) by (auto simp: a5_def ChunkFromHandle_def split: option.split)
    moreover have "ChunkFromHandle a1 h = Done ?c" "ChunkFromHandle a1 new = Done (cs_of a1 new)"
      using lt [OF hA(1)] a1(3) cs1 [OF hA(1)] by (simp_all add: ChunkFromHandle_def)
    moreover have "set_region_handle (cptr ?c + n) (Some new) a1 = Done a2"
      using rs'(1) f1(1) by (simp add: set_region_handle_def a2_def)
    ultimately show ?thesis
      using hA a1(1) a'(1) unfolding SplitChunk_def Let_def a4_def a3_def by simp
  qed
  moreover have "bfc_inv a' fl' X" using a'(2) newX by simp
  moreover have "active a' fl' = insert new ?A" using a'(4) act5 by (simp add: active_def)
  moreover have "cptr (cs_of a' h) = cptr (cs_of a h)" "csize (cs_of a' h) = n"
    using hnew by (simp_all add: a'(3) cs5 ss cs1 hA)
  moreover have "\<not> in_use (cs_of a' new)" by (simp add: a'(3) cs5 ss in_use_def)
  moreover have "\<forall>k \<in> ?A - {h}. cptr (cs_of a' k) = cptr (cs_of a k) \<and> csize (cs_of a' k) = csize (cs_of a k) \<and>
        allocation_id (cs_of a' k) = allocation_id (cs_of a k) \<and> requested_size (cs_of a' k) = requested_size (cs_of a k)"
    using a1(2) by (auto simp: a'(3) cs5 ss cs1)
  moreover have "next_allocation_id a' = next_allocation_id a" "regions a' = rs'"
    by (subst a'(5), simp add: f5)+
  ultimately show ?thesis using a1(2) rs'(3) by (intro exI [of _ a'] exI [of _ fl'] exI [of _ new]) simp
qed

end
