(* ===== verification/Bfc_Find.thy ===== *)
theory Bfc_Find
  imports Bfc_Steps
begin

text \<open>
  \<^verbatim>\<open>FindChunkPtr\<close> is best fit: walking the bins upwards finds a free chunk of the least size that
  serves the request, among those the \<^verbatim>\<open>freed_before\<close> filter admits. The set \<open>live\<close> of blocks handed out
  (address, size, allocation id, requested size) is the abstract state of the allocator.
\<close>

subsection \<open>Best fit\<close>

definition fits :: "bfc \<Rightarrow> nat \<Rightarrow> nat \<Rightarrow> handle \<Rightarrow> bool" where
  "fits a rounded_bytes freed_before h \<longleftrightarrow>
     \<not> (freed_before > 0 \<and> freed_before < freed_count (cs_of a h)) \<and> rounded_bytes \<le> csize (cs_of a h)"

lemma scan_bin_find:
  assumes "\<And>h. h \<in> set hs \<Longrightarrow> h < length (chunks a) \<and> \<not> in_use (cs_of a h)"
  shows "scan_bin a rb fb hs = Done (find (fits a rb fb) hs)"
  using assms by (induction hs) (auto simp: ChunkFromHandle_def fits_def)

definition scan_spec :: "bfc \<Rightarrow> nat \<Rightarrow> nat \<Rightarrow> nat list \<Rightarrow> (nat \<times> handle) option \<Rightarrow> bool" where
  "scan_spec a rb fb bs r \<longleftrightarrow> (case r of
     None \<Rightarrow> \<forall>b \<in> set bs. \<forall>k \<in> set (bins a ! b). \<not> fits a rb fb k
   | Some (b, h) \<Rightarrow> b \<in> set bs \<and> h \<in> set (bins a ! b) \<and> fits a rb fb h \<and>
      (\<forall>k \<in> set (bins a ! b). fits a rb fb k \<longrightarrow> k = h \<or> cless (cs_of a) h k) \<and>
      (\<forall>b' \<in> set bs. b' < b \<longrightarrow> (\<forall>k \<in> set (bins a ! b'). \<not> fits a rb fb k)))"

lemma find_sorted:
  assumes "sorted_wrt R xs" "find P xs = Some x" "y \<in> set xs" "P y"
  shows "y = x \<or> R x y"
proof -
  obtain i where i: "i < length xs" "x = xs ! i" "\<forall>j < i. \<not> P (xs ! j)"
    using assms(2) by (auto simp: find_Some_iff)
  obtain j where j: "j < length xs" "y = xs ! j" using assms(3) by (auto simp: in_set_conv_nth)
  have "\<not> j < i" using i(3) j(2) assms(4) by auto
  then show ?thesis using assms(1) i j by (cases "i = j") (auto simp: sorted_wrt_iff_nth_less)
qed

lemma scan_bins_spec:
  assumes B: "bins_ok (active a fl) (cs_of a) (bins a)" and bs: "sorted_wrt (<) bs" "\<And>b. b \<in> set bs \<Longrightarrow> b < kNumBins"
  shows "\<exists>r. scan_bins a rb fb bs = Done r \<and> scan_spec a rb fb bs r"
  using bs
proof (induction bs)
  case Nil
  show ?case by (simp add: scan_spec_def)
next
  case (Cons b bs)
  have b: "b < kNumBins" using Cons.prems by simp
  have step: "scan_bin a rb fb (bins a ! b) = Done (find (fits a rb fb) (bins a ! b))"
    using binsD(3) [OF B b] binsD(5) [OF B] by (intro scan_bin_find) (auto dest: active_less)
  show ?case
  proof (cases "find (fits a rb fb) (bins a ! b)")
    case None
    then have none: "\<forall>k \<in> set (bins a ! b). \<not> fits a rb fb k" by (auto simp: find_None_iff)
    have "sorted_wrt (<) bs" "\<And>b. b \<in> set bs \<Longrightarrow> b < kNumBins" using Cons.prems by auto
    from Cons.IH [OF this] obtain r where r: "scan_bins a rb fb bs = Done r" "scan_spec a rb fb bs r" by blast
    have "scan_spec a rb fb (b # bs) r"
      using r(2) none by (cases r) (auto simp: scan_spec_def)
    then show ?thesis using step None r(1) by simp
  next
    case (Some h)
    then have "h \<in> set (bins a ! b)" "fits a rb fb h" by (auto simp: find_Some_iff)
    moreover have "\<not> b' < b" if "b' \<in> set (b # bs)" for b' using Cons.prems(1) that by auto
    moreover have "k = h \<or> cless (cs_of a) h k" if "k \<in> set (bins a ! b)" "fits a rb fb k" for k
      by (rule find_sorted [OF binsD(2) [OF B b] Some that])
    ultimately have "scan_spec a rb fb (b # bs) (Some (b, h))" by (simp add: scan_spec_def)
    then show ?thesis using step Some by simp
  qed
qed

lemma csize_less:
  assumes "layout_ok A cs G" "h \<in> A"
  shows "csize (cs h) < 2 ^ 64" "256 \<le> csize (cs h)"
proof -
  have c: "chunk_ok A cs G" and e: "extents_ok G" using assms(1) by (auto simp: layout_ok_def)
  from chunkD(3) [OF c assms(2)] e show "csize (cs h) < 2 ^ 64" unfolding extents_ok_def by fastforce
  show "256 \<le> csize (cs h)" using chunkD(1,2) [OF c assms(2)] by (simp add: dvd_imp_le)
qed

text \<open>The free chunks a request may use.\<close>

definition candidates :: "bfc \<Rightarrow> handle list \<Rightarrow> nat \<Rightarrow> nat \<Rightarrow> handle set" where
  "candidates a fl rb fb = {h \<in> active a fl. \<not> in_use (cs_of a h) \<and> fits a rb fb h}"

lemma scan_bins_best:
  assumes I: "bfc_inv a fl {}"
  shows "scan_bins a rb fb [BinNumForSize rb..<kNumBins] = Done None \<and> candidates a fl rb fb = {} \<or>
    (\<exists>b h. scan_bins a rb fb [BinNumForSize rb..<kNumBins] = Done (Some (b, h)) \<and> b < kNumBins \<and> h \<in> set (bins a ! b) \<and>
       h \<in> candidates a fl rb fb \<and> (\<forall>k \<in> candidates a fl rb fb. csize (cs_of a h) \<le> csize (cs_of a k)))"
proof -
  note B = invD(5) [OF I] and L = invD(3) [OF I]
  let ?bs = "[BinNumForSize rb..<kNumBins]"
  have bin: "BinNumForSize (csize (cs_of a k)) \<in> set ?bs \<and> k \<in> set (bins a ! BinNumForSize (csize (cs_of a k)))"
    if k: "k \<in> candidates a fl rb fb" for k
  proof -
    from k have k': "k \<in> active a fl" "\<not> in_use (cs_of a k)" "rb \<le> csize (cs_of a k)"
      by (auto simp: candidates_def fits_def)
    obtain b where b: "bin_num (cs_of a k) = Some b" "b < kNumBins" "k \<in> set (bins a ! b)"
      using binned_bin [OF invD(6) [OF I] k'(1) _ k'(2) B] by auto
    have "b = BinNumForSize (csize (cs_of a k))" by (rule binsD(4) [OF B k'(1) b(1)])
    moreover have "BinNumForSize rb \<le> BinNumForSize (csize (cs_of a k))"
      by (rule BinNumForSize_mono [OF k'(3) csize_less(1) [OF L k'(1)]])
    ultimately show ?thesis using b by simp
  qed
  have fit: "fits a rb fb k" if "k \<in> candidates a fl rb fb" for k using that by (simp add: candidates_def)
  have "sorted_wrt (<) ?bs" by simp
  moreover have "b < kNumBins" if "b \<in> set ?bs" for b using that by simp
  ultimately obtain r where r: "scan_bins a rb fb ?bs = Done r" "scan_spec a rb fb ?bs r"
    using scan_bins_spec [OF B] by blast
  show ?thesis
  proof (cases r)
    case None
    then have "candidates a fl rb fb = {}" using r(2) bin fit unfolding scan_spec_def by fastforce
    with None r(1) show ?thesis by simp
  next
    case (Some bh)
    then obtain b h where r': "r = Some (b, h)" by (cases bh) simp
    have 2: "b \<in> set ?bs" "b \<in> set ?bs" "h \<in> set (bins a ! b)" "fits a rb fb h"
      "\<forall>k \<in> set (bins a ! b). fits a rb fb k \<longrightarrow> k = h \<or> cless (cs_of a) h k"
      "\<forall>b' \<in> set ?bs. b' < b \<longrightarrow> (\<forall>k \<in> set (bins a ! b'). \<not> fits a rb fb k)"
      using r(2) unfolding r' scan_spec_def by simp_all
    have b: "b < kNumBins" using 2(2) by simp
    have h: "h \<in> active a fl" "bin_num (cs_of a h) = Some b" using binsD(3) [OF B b] 2(3) by auto
    have hc: "h \<in> candidates a fl rb fb" using h 2(4) binsD(5) [OF B h] by (simp add: candidates_def)
    have hb: "b = BinNumForSize (csize (cs_of a h))" by (rule binsD(4) [OF B h])
    have "csize (cs_of a h) \<le> csize (cs_of a k)" if k: "k \<in> candidates a fl rb fb" for k
    proof (rule ccontr)
      assume less: "\<not> csize (cs_of a h) \<le> csize (cs_of a k)"
      let ?bk = "BinNumForSize (csize (cs_of a k))"
      have "?bk \<le> b" unfolding hb using less csize_less(1) [OF L h(1)] by (intro BinNumForSize_mono) auto
      moreover have "\<not> ?bk < b" using 2(6) bin [OF k] fit [OF k] by blast
      ultimately have "k = h \<or> cless (cs_of a) h k" using 2(5) bin [OF k] fit [OF k] by auto
      with less show False by (auto simp: cless_def)
    qed
    with r(1) r' 2(3) b hc show ?thesis by blast
  qed
qed

type_synonym block = "nat \<times> nat \<times> int \<times> nat"

definition block_of :: "chunk \<Rightarrow> block" where
  "block_of c = (cptr c, csize c, allocation_id c, requested_size c)"

definition live :: "bfc \<Rightarrow> block set" where
  "live a = block_of ` {c \<in> set (chunks a). in_use c}"

lemma live_active:
  assumes "bfc_inv a fl X"
  shows "live a = (\<lambda>h. block_of (cs_of a h)) ` {h \<in> active a fl. in_use (cs_of a h)}"
proof -
  have "in_use (cs_of a h) \<Longrightarrow> h \<notin> set fl" for h
    using invD(2) [OF assms] by (auto simp: free_list_ok_def)
  then have "{c \<in> set (chunks a). in_use c} = cs_of a ` {h \<in> active a fl. in_use (cs_of a h)}"
    by (auto simp: active_def in_set_conv_nth image_iff)
  then show ?thesis by (simp add: live_def image_image)
qed

lemma block_of_cong:
  "cptr c = cptr c' \<Longrightarrow> csize c = csize c' \<Longrightarrow> allocation_id c = allocation_id c' \<Longrightarrow>
   requested_size c = requested_size c' \<Longrightarrow> block_of c = block_of c' \<and> in_use c = in_use c'"
  by (simp add: block_of_def in_use_def)

text \<open>Adding one used chunk, leaving the other used chunks alone.\<close>

lemma live_add:
  assumes I: "bfc_inv a fl X" and I': "bfc_inv a' fl' X'"
    and A: "active a fl \<subseteq> active a' fl'" "\<And>k. k \<in> active a' fl' - active a fl \<Longrightarrow> \<not> in_use (cs_of a' k)"
    and h: "h \<in> active a fl" "\<not> in_use (cs_of a h)" "in_use (cs_of a' h)"
    and o: "\<And>k. k \<in> active a fl \<Longrightarrow> k \<noteq> h \<Longrightarrow> block_of (cs_of a' k) = block_of (cs_of a k) \<and> in_use (cs_of a' k) = in_use (cs_of a k)"
  shows "live a' = insert (block_of (cs_of a' h)) (live a)"
proof -
  have "{k \<in> active a' fl'. in_use (cs_of a' k)} = insert h {k \<in> active a fl. in_use (cs_of a k)}"
    using A h o by blast
  then have "live a' = insert (block_of (cs_of a' h)) ((\<lambda>k. block_of (cs_of a' k)) ` {k \<in> active a fl. in_use (cs_of a k)})"
    by (simp add: live_active [OF I'])
  also have "(\<lambda>k. block_of (cs_of a' k)) ` {k \<in> active a fl. in_use (cs_of a k)} = live a"
    unfolding live_active [OF I] by (rule image_cong) (use o h in auto)
  finally show ?thesis .
qed

lemma live_remove:
  assumes I: "bfc_inv a fl X" and I': "bfc_inv a' fl' X'"
    and A: "active a' fl' \<subseteq> active a fl" "\<And>k. k \<in> active a fl - active a' fl' \<Longrightarrow> k = h \<or> \<not> in_use (cs_of a k)"
    and h: "h \<in> active a fl" "in_use (cs_of a h)" "h \<in> active a' fl' \<Longrightarrow> \<not> in_use (cs_of a' h)"
    and o: "\<And>k. k \<in> active a' fl' \<Longrightarrow> k \<noteq> h \<Longrightarrow> in_use (cs_of a' k) = in_use (cs_of a k)"
    and o': "\<And>k. k \<in> active a' fl' \<Longrightarrow> k \<noteq> h \<Longrightarrow> in_use (cs_of a k) \<Longrightarrow> block_of (cs_of a' k) = block_of (cs_of a k)"
  shows "live a' = live a - {block_of (cs_of a h)}"
proof -
  have "{k \<in> active a' fl'. in_use (cs_of a' k)} = {k \<in> active a fl. in_use (cs_of a k)} - {h}"
    using A h o by blast
  then have "live a' = (\<lambda>k. block_of (cs_of a' k)) ` ({k \<in> active a fl. in_use (cs_of a k)} - {h})"
    by (simp add: live_active [OF I'])
  also have "\<dots> = (\<lambda>k. block_of (cs_of a k)) ` ({k \<in> active a fl. in_use (cs_of a k)} - {h})"
    by (rule image_cong) (use A(2) o o' in auto)
  also have "\<dots> = live a - {block_of (cs_of a h)}"
  proof -
    have "block_of (cs_of a k) \<noteq> block_of (cs_of a h)" if "k \<in> active a fl" "k \<noteq> h" for k
      using cptr_inj [OF invD(3) [OF I] that(1) h(1)] that(2) by (auto simp: block_of_def)
    then show ?thesis unfolding live_active [OF I] by (auto simp del: split_paired_All) blast
  qed
  finally show ?thesis .
qed

lemma should_split_less:
  assumes "should_split sz rb" "rb \<le> sz" "0 < rb" "rb < 2 ^ 63"
  shows "rb < sz"
proof -
  have "wrap64 (rb * 2) = rb * 2" using assms(4) by simp
  then show ?thesis using assms by (auto simp: should_split_def kMaxInternalFragmentation_def)
qed

lemma next_in_use:
  assumes I: "bfc_inv a fl {}" and h: "h \<in> active a fl" "\<not> in_use (cs_of a h)"
  shows "cnext (cs_of a h) = Some k \<Longrightarrow> in_use (cs_of a k)" "cprev (cs_of a h) = Some k \<Longrightarrow> in_use (cs_of a k)"
proof -
  show "cnext (cs_of a h) = Some k \<Longrightarrow> in_use (cs_of a k)"
    using invD(7) [OF I] h unfolding coalesced_def by blast
  assume "cprev (cs_of a h) = Some k"
  then have "k \<in> active a fl" "cnext (cs_of a k) = Some h"
    using invD(3) [OF I] h(1) unfolding layout_ok_def prev_ok_def by blast+
  then show "in_use (cs_of a k)" using invD(7) [OF I] h unfolding coalesced_def by blast
qed

text \<open>The optional split: the chunk taken out of its bin is cut down to the rounded size, if that is worth it.\<close>

lemma maybe_split_ok:
  assumes I: "bfc_inv a fl {h}" and rb: "256 dvd rb" "0 < rb" "rb < 2 ^ 63" "rb \<le> csize (cs_of a h)"
    and nx: "\<forall>k. cnext (cs_of a h) = Some k \<longrightarrow> in_use (cs_of a k)"
  shows "\<exists>a2 fl2. (if should_split (csize (cs_of a h)) rb then SplitChunk h rb a else Done a) = Done a2 \<and>
      bfc_inv a2 fl2 {h} \<and> active a fl \<subseteq> active a2 fl2 \<and> (\<forall>k \<in> active a2 fl2 - active a fl. \<not> in_use (cs_of a2 k)) \<and>
      cptr (cs_of a2 h) = cptr (cs_of a h) \<and>
      csize (cs_of a2 h) = (if should_split (csize (cs_of a h)) rb then rb else csize (cs_of a h)) \<and>
      (\<forall>k \<in> active a fl - {h}. block_of (cs_of a2 k) = block_of (cs_of a k) \<and> in_use (cs_of a2 k) = in_use (cs_of a k)) \<and>
      next_allocation_id a2 = next_allocation_id a \<and> extents_of (regions a2) = extents_of (regions a)"
proof (cases "should_split (csize (cs_of a h)) rb")
  case True
  obtain a2 fl2 new where s: "SplitChunk h rb a = Done a2" "bfc_inv a2 fl2 {h}" "active a2 fl2 = insert new (active a fl)"
        "cptr (cs_of a2 h) = cptr (cs_of a h)" "csize (cs_of a2 h) = rb" "\<not> in_use (cs_of a2 new)"
        and o: "\<forall>k \<in> active a fl - {h}. cptr (cs_of a2 k) = cptr (cs_of a k) \<and> csize (cs_of a2 k) = csize (cs_of a k) \<and>
          allocation_id (cs_of a2 k) = allocation_id (cs_of a k) \<and> requested_size (cs_of a2 k) = requested_size (cs_of a k)"
        and e: "next_allocation_id a2 = next_allocation_id a" "extents_of (regions a2) = extents_of (regions a)"
    using SplitChunk_ok [OF I singletonI rb(2) should_split_less [OF True rb(4,2,3)] rb(1) nx] by (elim exE conjE) simp
  have "block_of (cs_of a2 k) = block_of (cs_of a k) \<and> in_use (cs_of a2 k) = in_use (cs_of a k)"
    if "k \<in> active a fl - {h}" for k
    using o [rule_format, of k] that by (simp add: block_of_def in_use_def)
  moreover have "\<forall>k \<in> active a2 fl2 - active a fl. \<not> in_use (cs_of a2 k)" "active a fl \<subseteq> active a2 fl2"
    using s(3,6) by auto
  ultimately show ?thesis using s(1,2,4,5) e True by (intro exI [of _ a2] exI [of _ fl2]) simp
next
  case False
  then show ?thesis using I by (intro exI [of _ a] exI [of _ fl]) simp
qed

lemma FindChunkPtr_ok:
  assumes I: "bfc_inv a fl {}" and rb: "256 dvd rb" "0 < rb" "rb < 2 ^ 63"
  shows "FindChunkPtr (BinNumForSize rb) rb nb fb a = Done (None, a) \<and> candidates a fl rb fb = {} \<or>
    (\<exists>h a' fl' sz. FindChunkPtr (BinNumForSize rb) rb nb fb a = Done (Some (cptr (cs_of a h)), a') \<and>
       bfc_inv a' fl' {} \<and> h \<in> candidates a fl rb fb \<and>
       (\<forall>k \<in> candidates a fl rb fb. csize (cs_of a h) \<le> csize (cs_of a k)) \<and>
       sz = (if should_split (csize (cs_of a h)) rb then rb else csize (cs_of a h)) \<and>
       live a' = insert (cptr (cs_of a h), sz, next_allocation_id a, nb) (live a) \<and>
       next_allocation_id a' = next_allocation_id a + 1 \<and> extents_of (regions a') = extents_of (regions a))"
    (is "_ \<or> ?found")
proof -
  consider "scan_bins a rb fb [BinNumForSize rb..<kNumBins] = Done None" "candidates a fl rb fb = {}"
    | b h where "scan_bins a rb fb [BinNumForSize rb..<kNumBins] = Done (Some (b, h))" "b < kNumBins" "h \<in> set (bins a ! b)"
       "h \<in> candidates a fl rb fb" "\<forall>k \<in> candidates a fl rb fb. csize (cs_of a h) \<le> csize (cs_of a k)"
    using scan_bins_best [OF I, of rb fb] by blast
  then show ?thesis
  proof cases
    case 1
    then show ?thesis by (simp add: FindChunkPtr_def)
  next
    case (2 b h)
    have h: "h \<in> active a fl" "\<not> in_use (cs_of a h)" "rb \<le> csize (cs_of a h)" using 2(4) by (auto simp: candidates_def fits_def)
    obtain a1 where a1: "RemoveFreeChunkIterFromBin b h a = Done a1" "bfc_inv a1 fl {h}"
       "cs_of a1 = (cs_of a)(h := (cs_of a h)\<lparr>bin_num := None\<rparr>)" "length (chunks a1) = length (chunks a)"
       "a1 = a\<lparr>chunks := chunks a1, bins := bins a1\<rparr>"
      using RemoveFreeChunkIterFromBin_ok [OF I 2(2,3)] by blast
    have f1: "next_allocation_id a1 = next_allocation_id a" "regions a1 = regions a" by (subst a1(5), simp)+
    have act1: "active a1 fl = active a fl" using a1(4) by (simp add: active_def)
    let ?split = "should_split (csize (cs_of a h)) rb"
    define sz where "sz = (if ?split then rb else csize (cs_of a h))"
    have nx: "\<forall>k. cnext (cs_of a1 h) = Some k \<longrightarrow> in_use (cs_of a1 k)"
      using next_in_use(1) [OF I h(1,2)] a1(3) h(2) by (auto simp: in_use_def)
    have c1: "csize (cs_of a1 h) = csize (cs_of a h)" "cptr (cs_of a1 h) = cptr (cs_of a h)"
      "block_of (cs_of a1 k) = block_of (cs_of a k)" "in_use (cs_of a1 k) = in_use (cs_of a k)" for k
      by (simp_all add: a1(3) block_of_def in_use_def)
    obtain a2 fl2 where a2: "(if should_split (csize (cs_of a h)) rb then SplitChunk h rb a1 else Done a1) = Done a2"
      "bfc_inv a2 fl2 {h}" "active a fl \<subseteq> active a2 fl2" "\<forall>k \<in> active a2 fl2 - active a fl. \<not> in_use (cs_of a2 k)"
      "cptr (cs_of a2 h) = cptr (cs_of a h)" "csize (cs_of a2 h) = sz"
      "\<forall>k \<in> active a fl - {h}. block_of (cs_of a2 k) = block_of (cs_of a k) \<and> in_use (cs_of a2 k) = in_use (cs_of a k)"
      "next_allocation_id a2 = next_allocation_id a" "extents_of (regions a2) = extents_of (regions a)"
      using maybe_split_ok [OF a1(2) rb, unfolded c1, OF h(3) nx [unfolded c1]] unfolding act1 f1 sz_def
      by (elim exE conjE) simp
    define a' where "a' = mark_used h nb a2"
    have I': "bfc_inv a' fl2 {}" unfolding a'_def by (rule mark_used_inv [OF a2(2)])
    have h2: "h \<in> active a2 fl2" using a2(3) h(1) by blast
    note m = mark_used_fields [OF active_less [OF h2], of nb, folded a'_def]
    have act': "active a' fl2 = active a2 fl2" using m(2) by (simp add: active_def)
    have id: "1 \<le> next_allocation_id a" using invD(8) [OF I] by (simp add: ids_ok_def)
    have "live a' = insert (block_of (cs_of a' h)) (live a)"
    proof (rule live_add [OF I I'])
      show "in_use (cs_of a' h)" using id by (simp add: m(1) in_use_def a2(8))
    qed (use a2 h act' m(1) in auto)
    then have "live a' = insert (cptr (cs_of a h), sz, next_allocation_id a, nb) (live a)"
      using a2(5,6,8) by (simp add: block_of_def m(1))
    moreover have "FindChunkPtr (BinNumForSize rb) rb nb fb a = Done (Some (cptr (cs_of a h)), a')"
      using 2(1) a1(1) a2(1,5) c1(1) by (simp add: FindChunkPtr_def a'_def)
    moreover have "next_allocation_id a' = next_allocation_id a + 1" "extents_of (regions a') = extents_of (regions a)"
      using m(3,6) a2(8,9) by simp_all
    ultimately have ?found using I' 2(4,5) sz_def by blast
    then show ?thesis ..
  qed
qed

end
