(* ===== verification/Bfc_Free.thy ===== *)
theory Bfc_Free
  imports Bfc_Find
begin

text \<open>
  \<^verbatim>\<open>FreeAndMaybeCoalesce\<close> and \<^verbatim>\<open>DeallocateRaw\<close>: the freed chunk is merged with its free neighbours, no
  used chunk is touched, and exactly the freed block leaves the set of live blocks.
\<close>

subsection \<open>Freeing\<close>

lemma merge_other:
  assumes L: "layout_ok A cs G" and M: "can_merge A cs h1 h2" and k: "k \<noteq> h1"
  shows "block_of (merge_cs h1 h2 cs k) = block_of (cs k)" "in_use (merge_cs h1 h2 cs j) = in_use (cs j)"
  using k by (simp_all add: block_of_def in_use_def merge_simps [OF L M])

text \<open>One coalescing step: take the free neighbour out of its bin and merge.\<close>

lemma remove_and_merge:
  assumes I: "bfc_inv a fl {x}" and y: "y \<in> active a fl" "y \<noteq> x" "\<not> in_use (cs_of a y)"
    and n: "cnext (cs_of a h1) = Some h2" and hh: "(h1 = x \<and> h2 = y) \<or> (h1 = y \<and> h2 = x)"
  shows "\<exists>a'. obind (RemoveFreeChunkFromBin y a) (Merge h1 h2) = Done a' \<and> bfc_inv a' (h2 # fl) {h1} \<and>
     active a' (h2 # fl) = active a fl - {h2} \<and> extents_of (regions a') = extents_of (regions a) \<and>
     cnext (cs_of a' h1) = cnext (cs_of a h2) \<and> cprev (cs_of a' h1) = cprev (cs_of a h1) \<and>
     (\<forall>k \<in> active a fl - {h2}. in_use (cs_of a' k) = in_use (cs_of a k) \<and>
        (k \<noteq> h1 \<longrightarrow> block_of (cs_of a' k) = block_of (cs_of a k)))"
proof -
  obtain a1 where a1: "RemoveFreeChunkFromBin y a = Done a1" "bfc_inv a1 fl (insert y {x})"
     "cs_of a1 = (cs_of a)(y := (cs_of a y)\<lparr>bin_num := None\<rparr>)" "length (chunks a1) = length (chunks a)"
     "a1 = a\<lparr>chunks := chunks a1, bins := bins a1\<rparr>"
    using RemoveFreeChunkFromBin_ok [OF I y(1) _ y(3)] y(2) by blast
  have f1: "regions a1 = regions a" by (subst a1(5), simp)
  have act1: "active a1 fl = active a fl" using a1(4) by (simp add: active_def)
  have n1: "cnext (cs_of a1 h1) = Some h2" using n a1(3) by (cases "h1 = y") simp_all
  have X: "h1 \<in> insert y {x}" "h2 \<in> insert y {x}" "insert y {x} - {h2} = {h1}" using hh y(2) by auto
  obtain a' where a': "Merge h1 h2 a1 = Done a'" "bfc_inv a' (h2 # fl) {h1}"
     "\<forall>k. k \<noteq> h2 \<longrightarrow> cs_of a' k = merge_cs h1 h2 (cs_of a1) k" "active a' (h2 # fl) = active a1 fl - {h2}"
     "extents_of (regions a') = extents_of (regions a1)"
    using Merge_ok [OF a1(2) X(1,2) n1] unfolding X(3) by blast
  note L1 = invD(3) [OF a1(2)]
  have M: "can_merge (active a1 fl) (cs_of a1) h1 h2"
    using n1 invD(6) [OF a1(2)] X by (auto simp: can_merge_def binned_def)
  note f = merge_facts [OF L1 M] and ms = merge_simps [OF L1 M]
  have nself: "cnext (cs_of a1 h2) \<noteq> Some h1"
  proof
    assume "cnext (cs_of a1 h2) = Some h1"
    then have "cptr (cs_of a1 h1) = cptr (cs_of a1 h2) + csize (cs_of a1 h2)"
      using nextD(3) [of "active a1 fl" "cs_of a1" _ h2 h1] L1 f(2) unfolding layout_ok_def by blast
    then show False using f by simp
  qed
  have "cnext (cs_of a' h1) = cnext (cs_of a h2)" "cprev (cs_of a' h1) = cprev (cs_of a h1)"
    using a'(3) f(3) nself by (simp_all add: ms, simp_all add: a1(3))
  moreover have "in_use (cs_of a' k) = in_use (cs_of a k) \<and> (k \<noteq> h1 \<longrightarrow> block_of (cs_of a' k) = block_of (cs_of a k))"
    if "k \<in> active a fl - {h2}" for k
    using that a'(3) by (simp add: ms block_of_def in_use_def) (simp add: a1(3))
  ultimately show ?thesis using a1(1) a' act1 f1 by (intro exI [of _ a']) simp
qed

lemma link_facts:
  assumes I: "bfc_inv a fl X" and h: "h \<in> active a fl"
  shows "cnext (cs_of a h) = Some k \<Longrightarrow> k \<in> active a fl \<and> cptr (cs_of a h) < cptr (cs_of a k) \<and> cprev (cs_of a k) = Some h"
    "cprev (cs_of a h) = Some k \<Longrightarrow> k \<in> active a fl \<and> cptr (cs_of a k) < cptr (cs_of a h) \<and> cnext (cs_of a k) = Some h"
proof -
  have nx: "next_ok (active a fl) (cs_of a) (extents_of (regions a))" and c: "chunk_ok (active a fl) (cs_of a) (extents_of (regions a))"
    and p: "prev_ok (active a fl) (cs_of a) (extents_of (regions a))"
    using invD(3) [OF I] by (auto simp: layout_ok_def)
  have *: "cnext (cs_of a x) = Some y \<Longrightarrow> x \<in> active a fl \<Longrightarrow> y \<in> active a fl \<and> cptr (cs_of a x) < cptr (cs_of a y) \<and> cprev (cs_of a y) = Some x" for x y
    using nextD [OF nx, of x y] chunkD(1) [OF c, of x] by auto
  then show "cnext (cs_of a h) = Some k \<Longrightarrow> k \<in> active a fl \<and> cptr (cs_of a h) < cptr (cs_of a k) \<and> cprev (cs_of a k) = Some h"
    using h by blast
  assume "cprev (cs_of a h) = Some k"
  then have "k \<in> active a fl" "cnext (cs_of a k) = Some h" using p h unfolding prev_ok_def by blast+
  then show "k \<in> active a fl \<and> cptr (cs_of a k) < cptr (cs_of a h) \<and> cnext (cs_of a k) = Some h" using * by blast
qed

text \<open>What coalescing may change: free chunks disappear, and no used chunk is touched.\<close>

definition shrunk :: "bfc \<Rightarrow> handle list \<Rightarrow> bfc \<Rightarrow> handle list \<Rightarrow> bool" where
  "shrunk a fl a' fl' \<longleftrightarrow> active a' fl' \<subseteq> active a fl \<and> (\<forall>k \<in> active a fl - active a' fl'. \<not> in_use (cs_of a k)) \<and>
     (\<forall>k \<in> active a' fl'. in_use (cs_of a' k) = in_use (cs_of a k) \<and>
        (in_use (cs_of a k) \<longrightarrow> block_of (cs_of a' k) = block_of (cs_of a k))) \<and>
     extents_of (regions a') = extents_of (regions a)"

lemma shrunk_refl [simp]: "shrunk a fl a fl"
  by (simp add: shrunk_def)

lemma shrunk_trans: "shrunk a fl a1 fl1 \<Longrightarrow> shrunk a1 fl1 a2 fl2 \<Longrightarrow> shrunk a fl a2 fl2"
  unfolding shrunk_def by (auto simp: subset_iff)

lemma merge_step:
  assumes I: "bfc_inv a fl {x}" and y: "y \<in> active a fl" "y \<noteq> x" "\<not> in_use (cs_of a y)"
    and n: "cnext (cs_of a h1) = Some h2" and hh: "(h1 = x \<and> h2 = y) \<or> (h1 = y \<and> h2 = x)"
  obtains a' where "obind (RemoveFreeChunkFromBin y a) (Merge h1 h2) = Done a'" "bfc_inv a' (h2 # fl) {h1}"
     "shrunk a fl a' (h2 # fl)" "active a' (h2 # fl) = active a fl - {h2}"
     "cnext (cs_of a' h1) = cnext (cs_of a h2)" "cprev (cs_of a' h1) = cprev (cs_of a h1)"
proof -
  have x: "x \<in> active a fl" "\<not> in_use (cs_of a x)" using invD(6) [OF I] by (auto simp: binned_def)
  obtain a' where a': "obind (RemoveFreeChunkFromBin y a) (Merge h1 h2) = Done a'" "bfc_inv a' (h2 # fl) {h1}"
     "active a' (h2 # fl) = active a fl - {h2}" "extents_of (regions a') = extents_of (regions a)"
     "cnext (cs_of a' h1) = cnext (cs_of a h2)" "cprev (cs_of a' h1) = cprev (cs_of a h1)"
     and o: "\<forall>k \<in> active a fl - {h2}. in_use (cs_of a' k) = in_use (cs_of a k) \<and>
        (k \<noteq> h1 \<longrightarrow> block_of (cs_of a' k) = block_of (cs_of a k))"
    using remove_and_merge [OF assms] by (elim exE conjE) simp
  have "\<not> in_use (cs_of a h1)" "\<not> in_use (cs_of a h2)" using hh x(2) y(3) by auto
  then have "shrunk a fl a' (h2 # fl)" using a'(3,4) o unfolding shrunk_def by auto
  then show thesis using that a' by blast
qed

lemma coalesce_next_ok:
  assumes I: "bfc_inv a fl {h}"
  shows "\<exists>a2 fl2. (case cnext (chunks a ! h) of None \<Rightarrow> Done a
            | Some n \<Rightarrow> obind (ChunkFromHandle a n) (\<lambda>cn.
                if in_use cn then Done a
                else obind (RemoveFreeChunkFromBin n a) (\<lambda>a'. Merge h n a'))) = Done a2 \<and>
     bfc_inv a2 fl2 {h} \<and> shrunk a fl a2 fl2 \<and> (\<forall>k. cnext (cs_of a2 h) = Some k \<longrightarrow> in_use (cs_of a2 k))"
proof (cases "cnext (cs_of a h)")
  case None
  then show ?thesis using I by (intro exI [of _ a] exI [of _ fl]) simp
next
  case (Some n)
  have h: "h \<in> active a fl" using invD(6) [OF I] by (simp add: binned_def)
  note l = link_facts(1) [OF I h Some]
  show ?thesis
  proof (cases "in_use (cs_of a n)")
    case True
    then show ?thesis using I Some l by (intro exI [of _ a] exI [of _ fl]) (simp add: ChunkFromHandle_active [of n a fl])
  next
    case False
    have nh: "n \<noteq> h" using l by auto
    obtain a' where a': "obind (RemoveFreeChunkFromBin n a) (Merge h n) = Done a'" "bfc_inv a' (n # fl) {h}"
     "shrunk a fl a' (n # fl)" "active a' (n # fl) = active a fl - {n}" "cnext (cs_of a' h) = cnext (cs_of a n)"
      by (rule merge_step [OF I _ nh False Some]) (use l in simp_all)
    have "in_use (cs_of a' k)" if k: "cnext (cs_of a' h) = Some k" for k
    proof -
      have k': "cnext (cs_of a n) = Some k" using k a'(5) by simp
      note lk = link_facts(1) [OF I _ k']
      have "k \<noteq> h" "k \<noteq> n" using l lk by auto
      then have "in_use (cs_of a k)" using invD(7) [OF I] l k' False nh unfolding coalesced_def by blast
      moreover have "k \<in> active a' (n # fl)" using lk l a'(4) \<open>k \<noteq> n\<close> by simp
      ultimately show ?thesis using a'(3) unfolding shrunk_def by blast
    qed
    then show ?thesis using a' False l Some
      by (intro exI [of _ a'] exI [of _ "n # fl"]) (simp add: ChunkFromHandle_active [of n a fl] o_def)
  qed
qed

lemma coalesce_prev_ok:
  assumes I: "bfc_inv a fl {h}" and nx: "\<forall>k. cnext (cs_of a h) = Some k \<longrightarrow> in_use (cs_of a k)"
  shows "\<exists>a3 fl3 g. (case cprev (chunks a ! h) of None \<Rightarrow> Done (h, a)
            | Some p \<Rightarrow> obind (ChunkFromHandle a p) (\<lambda>cp.
                if in_use cp then Done (h, a)
                else obind (RemoveFreeChunkFromBin p a) (\<lambda>a'.
                     obind (Merge p h a') (\<lambda>a''. Done (p, a''))))) = Done (g, a3) \<and>
     bfc_inv a3 fl3 {g} \<and> shrunk a fl a3 fl3 \<and> fenced {g} (cs_of a3) g"
proof (cases "cprev (cs_of a h)")
  case None
  then show ?thesis using I nx by (intro exI [of _ a] exI [of _ fl] exI [of _ h]) (simp add: fenced_def)
next
  case (Some p)
  have h: "h \<in> active a fl" using invD(6) [OF I] by (simp add: binned_def)
  note l = link_facts(2) [OF I h Some]
  show ?thesis
  proof (cases "in_use (cs_of a p)")
    case True
    then show ?thesis using I Some l nx
      by (intro exI [of _ a] exI [of _ fl] exI [of _ h]) (simp add: ChunkFromHandle_active [of p a fl] fenced_def)
  next
    case False
    have ph: "p \<noteq> h" using l by auto
    obtain a' where a': "obind (RemoveFreeChunkFromBin p a) (Merge p h) = Done a'" "bfc_inv a' (h # fl) {p}"
     "shrunk a fl a' (h # fl)" "active a' (h # fl) = active a fl - {h}" "cnext (cs_of a' p) = cnext (cs_of a h)"
     "cprev (cs_of a' p) = cprev (cs_of a p)"
      by (rule merge_step [OF I _ ph False, of p h]) (use l in simp_all)
    have keep: "in_use (cs_of a' k)" if "k \<in> active a fl" "k \<noteq> h" "in_use (cs_of a k)" for k
      using that a'(3,4) unfolding shrunk_def by blast
    have "fenced {p} (cs_of a') p"
      unfolding fenced_def
    proof (intro conjI allI impI disjI1)
      fix k assume "cnext (cs_of a' p) = Some k"
      then have k: "cnext (cs_of a h) = Some k" using a'(5) by simp
      show "in_use (cs_of a' k)" using link_facts(1) [OF I h k] nx k by (intro keep) auto
    next
      fix k assume "cprev (cs_of a' p) = Some k"
      then have "cprev (cs_of a p) = Some k" using a'(6) by simp
      note lk = link_facts(2) [OF I _ this]
      have "k \<noteq> h" using l lk by auto
      moreover have "in_use (cs_of a k)"
        using invD(7) [OF I] lk l False ph \<open>k \<noteq> h\<close> unfolding coalesced_def by blast
      ultimately show "in_use (cs_of a' k)" using lk l by (intro keep) auto
    qed
    moreover have "obind (RemoveFreeChunkFromBin p a) (\<lambda>a'. obind (Merge p h a') (\<lambda>a''. Done (p, a''))) = Done (p, a')"
      using a'(1) by (cases "RemoveFreeChunkFromBin p a") simp_all
    ultimately show ?thesis using a' False l Some
      by (intro exI [of _ a'] exI [of _ "h # fl"] exI [of _ p]) (simp add: ChunkFromHandle_active [of p a fl])
  qed
qed

lemma FreeAndMaybeCoalesce_ok:
  assumes I: "bfc_inv a fl {}" and h: "h \<in> active a fl" "in_use (cs_of a h)"
  shows "\<exists>a' fl'. FreeAndMaybeCoalesce h a = Done a' \<and> bfc_inv a' fl' {} \<and>
     live a' = live a - {block_of (cs_of a h)} \<and> extents_of (regions a') = extents_of (regions a)"
proof -
  have b: "bin_num (cs_of a h) = None"
    using binsD(5) [OF invD(5) [OF I] h(1)] h(2) by (cases "bin_num (cs_of a h)") auto
  define a1 where "a1 = mark_free h a"
  note m = mark_free_fields [OF active_less [OF h(1)], folded a1_def]
  have I1: "bfc_inv a1 fl {h}" unfolding a1_def by (rule mark_free_inv [OF I h])
  have act1: "active a1 fl = active a fl" using m(2) by (simp add: active_def)
  have cs1: "\<not> in_use (cs_of a1 h)" "k \<noteq> h \<Longrightarrow> cs_of a1 k = cs_of a k" for k using m(1) by (auto simp: in_use_def)
  obtain a2 fl2 where a2: "(case cnext (chunks a1 ! h) of None \<Rightarrow> Done a1
            | Some n \<Rightarrow> obind (ChunkFromHandle a1 n) (\<lambda>cn.
                if in_use cn then Done a1
                else obind (RemoveFreeChunkFromBin n a1) (\<lambda>a'. Merge h n a'))) = Done a2"
     "bfc_inv a2 fl2 {h}" "shrunk a1 fl a2 fl2" "\<forall>k. cnext (cs_of a2 h) = Some k \<longrightarrow> in_use (cs_of a2 k)"
    using coalesce_next_ok [OF I1] by (elim exE conjE) simp
  obtain a3 fl3 g where a3: "(case cprev (chunks a2 ! h) of None \<Rightarrow> Done (h, a2)
            | Some p \<Rightarrow> obind (ChunkFromHandle a2 p) (\<lambda>cp.
                if in_use cp then Done (h, a2)
                else obind (RemoveFreeChunkFromBin p a2) (\<lambda>a'.
                     obind (Merge p h a') (\<lambda>a''. Done (p, a''))))) = Done (g, a3)"
     "bfc_inv a3 fl3 {g}" "shrunk a2 fl2 a3 fl3" "fenced {g} (cs_of a3) g"
    using coalesce_prev_ok [OF a2(2,4)] by (elim exE conjE) simp
  obtain a' where a': "InsertFreeChunkIntoBin g a3 = Done a'" "bfc_inv a' fl3 {}"
     "cs_of a' = (cs_of a3)(g := (cs_of a3 g)\<lparr>bin_num := Some (BinNumForSize (csize (cs_of a3 g)))\<rparr>)"
     "length (chunks a') = length (chunks a3)" "a' = a3\<lparr>chunks := chunks a', bins := bins a'\<rparr>"
    using InsertFreeChunkIntoBin_ok [OF a3(2) singletonI a3(4)] by (elim exE conjE) simp
  have "shrunk a3 fl3 a' fl3"
    using a'(3,4) arg_cong [OF a'(5), of regions] by (auto simp: shrunk_def active_def block_of_def in_use_def)
  then have S: "shrunk a1 fl a' fl3" using shrunk_trans a2(3) a3(3) by blast
  have d: "k = h \<or> \<not> in_use (cs_of a k)" if "k \<in> active a fl - active a' fl3" for k
  proof -
    have "\<not> in_use (cs_of a1 k)" using S act1 that unfolding shrunk_def by blast
    then show ?thesis using cs1(2) [of k] by (cases "k = h") simp_all
  qed
  have "live a' = live a - {block_of (cs_of a h)}"
    by (rule live_remove [OF I a'(2) _ _ h]) (use S act1 cs1 d in \<open>auto simp: shrunk_def\<close>)
  moreover have "FreeAndMaybeCoalesce h a = Done a'"
    using h b a2(1) a3(1) a'(1) ChunkFromHandle_active [OF h(1)]
    by (simp add: FreeAndMaybeCoalesce_def Let_def flip: a1_def)
  moreover have "extents_of (regions a') = extents_of (regions a)" using S m(3) by (simp add: shrunk_def)
  ultimately show ?thesis using a'(2) by blast
qed

lemma live_handle:
  assumes I: "bfc_inv a fl X" and b: "(p, sz, i, rq) \<in> live a"
  obtains h where "h \<in> active a fl" "in_use (cs_of a h)" "block_of (cs_of a h) = (p, sz, i, rq)"
    "get_handle (regions a) p = Done (Some h)"
proof -
  obtain h where h: "h \<in> active a fl" "in_use (cs_of a h)" "block_of (cs_of a h) = (p, sz, i, rq)"
    using b unfolding live_active [OF I] by fastforce
  have "cptr (cs_of a h) \<in> slots (extents_of (regions a))"
    using invD(3) [OF I] h(1) by (intro chunk_slot) (auto simp: layout_ok_def)
  then have "get_handle (regions a) p = Done (Some h)"
    using get_handle_slot [OF invD(1) [OF I]] handleD(1) [OF invD(4) [OF I] h(1)] h(3) by (simp add: block_of_def)
  with h show thesis by (rule that)
qed

lemma DeallocateRawInternal_ok:
  assumes I: "bfc_inv a fl {}" and b: "(p, sz, i, rq) \<in> live a"
  shows "\<exists>a' fl'. DeallocateRawInternal (Some p) a = Done a' \<and> bfc_inv a' fl' {} \<and>
     live a' = live a - {(p, sz, i, rq)} \<and> extents_of (regions a') = extents_of (regions a)"
proof -
  obtain h where h: "h \<in> active a fl" "in_use (cs_of a h)" "block_of (cs_of a h) = (p, sz, i, rq)"
    "get_handle (regions a) p = Done (Some h)" by (rule live_handle [OF assms])
  then show ?thesis using FreeAndMaybeCoalesce_ok [OF I h(1,2)] by (simp add: DeallocateRawInternal_def)
qed

lemma lookup_chunk_ok:
  assumes I: "bfc_inv a fl {}" and b: "(p, sz, i, rq) \<in> live a"
  shows "RequestedSize (Some p) a = Done rq" "AllocatedSize p a = Done sz" "AllocationId p a = Done i"
proof -
  obtain h where h: "h \<in> active a fl" "block_of (cs_of a h) = (p, sz, i, rq)"
    "get_handle (regions a) p = Done (Some h)" by (rule live_handle [OF assms])
  have "lookup_chunk p a = Done (cs_of a h)" using h(3) ChunkFromHandle_active [OF h(1)] by (simp add: lookup_chunk_def)
  then show "RequestedSize (Some p) a = Done rq" "AllocatedSize p a = Done sz" "AllocationId p a = Done i"
    using h(2) by (simp_all add: RequestedSize_def AllocatedSize_def AllocationId_def block_of_def)
qed

end
