(* ===== verification/Bfc_Extend.thy ===== *)
theory Bfc_Extend
  imports Bfc_Free
begin

text \<open>
  \<^verbatim>\<open>Extend\<close>: a new region enters the region table and is one free chunk; when the two loops end, and what
  they return. The sub-allocator is a parameter; what the allocator relies on is that a region it hands
  out does not overlap the regions in hand (\<open>sub_alloc_ok\<close>).
\<close>

subsection \<open>Adding a region\<close>

lemma set_AddAllocationRegion: "set (AddAllocationRegion p n rs) = insert (new_region p n) (set rs)"
  by (induction rs) auto

lemma sum_AddAllocationRegion:
  "sum_list (map memory_size (AddAllocationRegion p n rs)) = n + sum_list (map memory_size rs)"
  by (induction rs) (auto simp: new_region_def)

lemma extents_AddAllocationRegion: "extents_of (AddAllocationRegion p n rs) = insert (p, p + n) (extents_of rs)"
  by (auto simp: extents_of_def set_AddAllocationRegion new_region_def end_ptr_def)

definition fresh_extent :: "extents \<Rightarrow> nat \<Rightarrow> nat \<Rightarrow> bool" where
  "fresh_extent G p n \<longleftrightarrow> 0 < n \<and> 256 dvd n \<and> p + n < 2 ^ 64 \<and> (\<forall>(b, e) \<in> G. e \<le> p \<or> p + n \<le> b)"

lemma geom_ok_AddAllocationRegion:
  assumes "geom_ok rs" "fresh_extent (extents_of rs) p n"
  shows "geom_ok (AddAllocationRegion p n rs)"
  using assms
proof (induction rs)
  case Nil
  then show ?case by (auto simp: geom_ok_def fresh_extent_def new_region_def end_ptr_def bfc_consts)
next
  case (Cons r rs)
  then have n: "0 < n" "256 dvd n" "p + n < 2 ^ 64" by (auto simp: fresh_extent_def)
  have d: "end_ptr s \<le> p \<or> p + n \<le> rptr s" if "s \<in> set (r # rs)" for s
    using Cons.prems(2) that by (auto simp: fresh_extent_def extents_of_def)
  have srt: "\<forall>s \<in> set rs. end_ptr r \<le> rptr s" and pos: "\<forall>s \<in> set (r # rs). rptr s < end_ptr s"
    using Cons.prems(1) by (auto simp: geom_ok_def end_ptr_def)
  have new: "0 < memory_size (new_region p n) \<and> 256 dvd memory_size (new_region p n) \<and> end_ptr (new_region p n) < 2 ^ 64 \<and>
        length (handles (new_region p n)) = memory_size (new_region p n) div 256"
    using n by (auto simp: new_region_def end_ptr_def bfc_consts)
  show ?case
  proof (cases "p < end_ptr r")
    case True
    then have "p + n \<le> rptr r" using d [of r] by simp
    moreover have "p + n \<le> rptr s" if "s \<in> set rs" for s
    proof -
      have "end_ptr r \<le> rptr s" "rptr s < end_ptr s" using srt pos that by auto
      then show ?thesis using d [of s] that True by simp
    qed
    ultimately show ?thesis using True Cons.prems(1) new
      by (auto simp: geom_ok_def end_ptr_def new_region_def)
  next
    case False
    have "geom_ok (AddAllocationRegion p n rs)"
      by (rule Cons.IH) (use Cons.prems in \<open>auto simp: geom_ok_def fresh_extent_def extents_of_def\<close>)
    then show ?thesis using False Cons.prems(1) new
      by (auto simp: geom_ok_def set_AddAllocationRegion new_region_def)
  qed
qed

lemma hmap_region:
  assumes g: "geom_ok rs" and r: "r \<in> set rs" and q: "rptr r \<le> q" "q < end_ptr r"
  shows "hmap rs q = handles r ! ((q - rptr r) div 256)"
proof -
  obtain i where "i < length rs" "rs ! i = r" using r by (auto simp: in_set_conv_nth)
  then show ?thesis using get_handle_inside [OF g, of i q] q by (simp add: inside_def hmap_def)
qed

lemma hmap_AddAllocationRegion:
  assumes g: "geom_ok rs" and f: "fresh_extent (extents_of rs) p n"
  shows "q \<in> slots (extents_of rs) \<Longrightarrow> hmap (AddAllocationRegion p n rs) q = hmap rs q"
    "p \<le> q \<Longrightarrow> q < p + n \<Longrightarrow> hmap (AddAllocationRegion p n rs) q = None"
proof -
  note g' = geom_ok_AddAllocationRegion [OF assms]
  show "hmap (AddAllocationRegion p n rs) q = hmap rs q" if sq: "q \<in> slots (extents_of rs)"
  proof -
    obtain r where "r \<in> set rs" "rptr r \<le> q" "q < end_ptr r" using sq by (fastforce simp: slots_def extents_of_def)
    then show ?thesis using hmap_region [OF g, of r q] hmap_region [OF g', of r q] by (simp add: set_AddAllocationRegion)
  qed
  assume q: "p \<le> q" "q < p + n"
  have "(q - p) div 256 < n div 256"
  proof -
    obtain m where m: "n = 256 * m" using f by (auto simp: fresh_extent_def elim: dvdE)
    then show ?thesis using q by (simp add: less_mult_imp_div_less mult.commute)
  qed
  moreover have "(n + 255) div 256 = n div 256" using f by (auto simp: fresh_extent_def elim!: dvdE)
  ultimately show "hmap (AddAllocationRegion p n rs) q = None"
    using hmap_region [OF g', of "new_region p n" q] q
    by (simp add: set_AddAllocationRegion end_ptr_def new_region_def bfc_consts)
qed

lemma slots_insert: "slots (insert (b, e) G) = slots G \<union> {q. b \<le> q \<and> q < e \<and> 256 dvd q - b}"
  by (auto simp: slots_def)

text \<open>A state that has one more region than an invariant state, and one chunk spanning it that is not yet in a bin.\<close>

lemma new_chunk_inv:
  assumes I: "bfc_inv a fl {}" and f: "fresh_extent (extents_of (regions a)) p n"
    and lim: "total_region_allocated_bytes a + n \<le> memory_limit a"
    and new: "new \<notin> active a fl" "active a' fl' = insert new (active a fl)" "free_list_ok a' fl'"
    and cs: "\<And>k. k \<in> active a fl \<Longrightarrow> cs_of a' k = cs_of a k"
    and c: "cptr (cs_of a' new) = p" "csize (cs_of a' new) = n" "allocation_id (cs_of a' new) = -1"
      "cprev (cs_of a' new) = None" "cnext (cs_of a' new) = None" "bin_num (cs_of a' new) = None"
    and rs: "geom_ok (regions a')" "extents_of (regions a') = insert (p, p + n) (extents_of (regions a))"
      "sum_list (map memory_size (regions a')) = n + sum_list (map memory_size (regions a))"
    and hm: "\<And>q. q \<in> slots (extents_of (regions a)) \<Longrightarrow> hmap (regions a') q = hmap (regions a) q"
      "\<And>q. p \<le> q \<Longrightarrow> q < p + n \<Longrightarrow> 256 dvd q - p \<Longrightarrow> hmap (regions a') q = (if q = p then Some new else None)"
    and o: "bins a' = bins a" "next_allocation_id a' = next_allocation_id a" "stats a' = stats a"
      "total_region_allocated_bytes a' = total_region_allocated_bytes a + n" "memory_limit a' = memory_limit a"
      "curr_region_allocation_bytes a' = curr_region_allocation_bytes a"
  shows "bfc_inv a' fl' {new}"
proof -
  let ?A = "active a fl" and ?G = "extents_of (regions a)"
  have fin: "finite ?A" by (simp add: active_def)
  have sl: "cptr (cs_of a k) \<in> slots ?G" if "k \<in> ?A" for k
    using invD(3) [OF I] that by (intro chunk_slot) (auto simp: layout_ok_def)
  have nx: "k \<in> ?A" if "x \<in> ?A" "cnext (cs_of a x) = Some k" for x k using link_facts(1) [OF I that] by simp
  have iu: "\<not> in_use (cs_of a' new)" using c by (simp add: in_use_def)
  show ?thesis
    unfolding bfc_inv_def new(2) rs(2) o
  proof (intro conjI)
    show "layout_ok (insert new ?A) (cs_of a') (insert (p, p + n) ?G)"
      using geom_ok_extents [OF rs(1)] rs(2) f c
      by (intro add_layout_ok [OF invD(3) [OF I] new(1) _ _ _ _ _ _ cs]) (auto simp: fresh_extent_def)
    show "handle_ok (insert new ?A) (cs_of a') (insert (p, p + n) ?G) (hmap (regions a'))"
      unfolding handle_ok_def
    proof (intro conjI ballI allI impI)
      fix k assume "k \<in> insert new ?A"
      then show "hmap (regions a') (cptr (cs_of a' k)) = Some k"
        using hm(2) [of p] hm(1) [OF sl [of k]] handleD(1) [OF invD(4) [OF I], of k] c(1) cs f by (auto simp: fresh_extent_def)
    next
      fix q k assume q: "q \<in> slots (insert (p, p + n) ?G)" and h: "hmap (regions a') q = Some k"
      have "k \<in> insert new ?A \<and> cptr (cs_of a' k) = q"
      proof (cases "q \<in> slots ?G")
        case True
        then show ?thesis using handleD(2,3) [OF invD(4) [OF I], of q k] hm(1) [OF True] h cs by simp
      next
        case False
        then have "q = p \<and> k = new" using hm(2) [of q] q h by (auto simp: slots_insert split: if_splits)
        then show ?thesis using c(1) by simp
      qed
      then show "k \<in> insert new ?A" "cptr (cs_of a' k) = q" by simp_all
    qed
    show "bins_ok (insert new ?A) (cs_of a') (bins a)"
      by (rule bins_ok_frame [OF invD(5) [OF I]]) (use new(1) cs c(6) in \<open>auto simp: same_bin_data_def\<close>)
    show "binned (insert new ?A) {new} (cs_of a')"
      using invD(6) [OF I] iu c(6) unfolding binned_def by (auto simp: cs)
    show "coalesced (insert new ?A) {new} (cs_of a')"
      using invD(7) [OF I] c(5) nx unfolding coalesced_def by (auto simp: cs)
    show "ids_ok (insert new ?A) (cs_of a') (next_allocation_id a)"
      using invD(8) [OF I] iu unfolding ids_ok_def by (auto simp: cs)
    have "used_bytes (insert new ?A) (cs_of a') = used_bytes ?A (cs_of a')"
      using new(1) iu fin unfolding used_bytes_def by simp
    also have "\<dots> = used_bytes ?A (cs_of a)" unfolding used_bytes_def by (rule sum.cong) (simp_all add: cs)
    finally show "bytes_in_use (stats a) = used_bytes (insert new ?A) (cs_of a')" using invD(9) [OF I] by simp
    show "mem_ok a'" using invD(10) [OF I] lim rs(3) by (simp add: mem_ok_def o)
  qed (use rs(1) new(3) in simp_all)
qed

lemma add_region_ok:
  assumes I: "bfc_inv a fl {}" and f: "fresh_extent (extents_of (regions a)) p n"
    and lim: "total_region_allocated_bytes a + n \<le> memory_limit a"
  shows "\<exists>a' fl' h. add_region p n a = Done a' \<and> bfc_inv a' fl' {} \<and> live a' = live a \<and>
     extents_of (regions a') = insert (p, p + n) (extents_of (regions a)) \<and>
     next_allocation_id a' = next_allocation_id a \<and>
     h \<in> active a' fl' \<and> \<not> in_use (cs_of a' h) \<and> cptr (cs_of a' h) = p \<and> csize (cs_of a' h) = n \<and> freed_count (cs_of a' h) = 0"
proof -
  let ?A = "active a fl" and ?G = "extents_of (regions a)"
  let ?rs = "AddAllocationRegion p n (regions a)"
  define a1 where "a1 = a\<lparr>total_region_allocated_bytes := total_region_allocated_bytes a + n, regions := ?rs\<rparr>"
  have w: "wrap64 (total_region_allocated_bytes a + n) = total_region_allocated_bytes a + n"
    using lim invD(10) [OF I] by (simp add: mem_ok_def)
  have fl1: "free_list_ok a1 fl" using invD(2) [OF I] by (simp add: free_list_ok_def a1_def)
  have act1: "active a1 fl = ?A" by (simp add: active_def a1_def)
  obtain new a2 fl' where a2: "AllocateChunk a1 = Done (new, a2)" "new \<notin> active a1 fl" "new < length (chunks a2)"
    "active a2 fl' = insert new (active a1 fl)" "free_list_ok a2 fl'" "new \<notin> set fl'"
    "\<forall>k. k < length (chunks a1) \<longrightarrow> cs_of a2 k = cs_of a1 k" "bin_num (cs_of a2 new) = None"
    and fld: "\<exists>cs f. a2 = a1\<lparr>chunks := cs, free_chunks_list := f\<rparr>"
    using AllocateChunk_ok [OF fl1] by blast
  have g': "geom_ok ?rs" by (rule geom_ok_AddAllocationRegion [OF invD(1) [OF I] f])
  note G' = extents_AddAllocationRegion [of p n "regions a"]
  have sl: "p \<in> slots (extents_of ?rs)" using f by (auto simp: G' slots_insert fresh_extent_def)
  obtain rs' where rs': "set_handle p (Some new) ?rs = Done rs'" "geom_ok rs'" "extents_of rs' = extents_of ?rs"
      "map memory_size rs' = map memory_size ?rs"
      "\<forall>q \<in> slots (extents_of ?rs). hmap rs' q = (if q = p then Some new else hmap ?rs q)"
    using set_handle_slot [OF g' sl, of "Some new"] by blast
  define a3 where "a3 = upd_chunk new (\<lambda>c. c\<lparr>cptr := p, csize := n, allocation_id := -1,
                 cprev := None, cnext := None, freed_count := 0\<rparr>) a2"
  define a4 where "a4 = a3\<lparr>regions := rs'\<rparr>"
  have f4: "regions a4 = rs'" "bins a4 = bins a" "free_chunks_list a4 = free_chunks_list a2"
    "next_allocation_id a4 = next_allocation_id a" "stats a4 = stats a"
    "total_region_allocated_bytes a4 = total_region_allocated_bytes a + n" "memory_limit a4 = memory_limit a"
    "curr_region_allocation_bytes a4 = curr_region_allocation_bytes a" "length (chunks a4) = length (chunks a2)"
    using fld by (auto simp: a4_def a3_def a1_def)
  have cs4: "cs_of a4 = (cs_of a2)(new := (cs_of a2 new)\<lparr>cptr := p, csize := n, allocation_id := -1,
                 cprev := None, cnext := None, freed_count := 0\<rparr>)"
    using a2(3) by (simp add: a4_def a3_def cs_of_upd)
  have new: "new \<notin> ?A" using a2(2) act1 by simp
  have cs: "cs_of a4 k = cs_of a k" if "k \<in> ?A" for k
    using that new a2(7) active_less [OF that] by (auto simp: cs4 a1_def)
  have act4: "active a4 fl' = insert new ?A" using f4(9) a2(4) act1 by (simp add: active_def)
  have I4: "bfc_inv a4 fl' {new}"
  proof (rule new_chunk_inv [OF I f lim new act4 _ cs])
    show "free_list_ok a4 fl'"
      by (rule free_list_ok_cong [OF a2(5) f4(3,9)]) (use a2(6) cs4 in auto)
    show "sum_list (map memory_size (regions a4)) = n + sum_list (map memory_size (regions a))"
      by (simp add: f4 rs'(4) sum_AddAllocationRegion)
    note hm = hmap_AddAllocationRegion [OF invD(1) [OF I] f]
    show "hmap (regions a4) q = hmap (regions a) q" if "q \<in> slots ?G" for q
    proof -
      have "q \<noteq> p" using that f by (auto simp: slots_def fresh_extent_def)
      then show ?thesis using that rs'(5) hm(1) by (simp add: f4 G' slots_insert)
    qed
    show "hmap (regions a4) q = (if q = p then Some new else None)" if "p \<le> q" "q < p + n" "256 dvd q - p" for q
      using that rs'(5) hm(2) by (simp add: f4 G' slots_insert)
  qed (use rs'(2,3) G' a2(8) in \<open>simp_all add: f4 cs4\<close>)
  obtain a' where a': "InsertFreeChunkIntoBin new a4 = Done a'" "bfc_inv a' fl' ({new} - {new})"
     "cs_of a' = (cs_of a4)(new := (cs_of a4 new)\<lparr>bin_num := Some (BinNumForSize (csize (cs_of a4 new)))\<rparr>)"
     "length (chunks a') = length (chunks a4)" "a' = a4\<lparr>chunks := chunks a', bins := bins a'\<rparr>"
    using InsertFreeChunkIntoBin_ok [OF I4 singletonI] by (auto simp: fenced_def cs4)
  have f': "regions a' = rs'" "next_allocation_id a' = next_allocation_id a" by (subst a'(5), simp add: f4)+
  have act': "active a' fl' = insert new ?A" using a'(4) act4 by (simp add: active_def)
  have op: "add_region p n a = Done a'"
  proof -
    have "regions a3 = ?rs" using fld by (auto simp: a3_def a1_def)
    then have "set_region_handle p (Some new) a3 = Done a4" using rs'(1) by (simp add: set_region_handle_def a4_def)
    then show ?thesis using a2(1,3) a'(1)
      by (simp add: add_region_def Let_def w ChunkFromHandle_def flip: a1_def a3_def)
  qed
  have I': "bfc_inv a' fl' {}" using a'(2) by simp
  have "{h \<in> insert new ?A. in_use (cs_of a' h)} = {h \<in> ?A. in_use (cs_of a h)}"
    using new by (auto simp: a'(3) cs, auto simp: cs4 in_use_def)
  moreover have "block_of (cs_of a' k) = block_of (cs_of a k)" if "k \<in> ?A" for k
    using that new by (auto simp: a'(3) cs)
  ultimately have lv: "live a' = live a"
    unfolding live_active [OF I] live_active [OF I'] act' by auto
  show ?thesis
  proof (intro exI conjI)
    show "new \<in> active a' fl'" unfolding act' by simp
    show "\<not> in_use (cs_of a' new)" "cptr (cs_of a' new) = p" "csize (cs_of a' new) = n" "freed_count (cs_of a' new) = 0"
      by (simp_all add: a'(3) cs4 in_use_def)
  qed (use op I' lv f' rs'(3) G' act' in simp_all)
qed

subsection \<open>The loops of Extend\<close>

lemma bit_length_lower: "0 < n \<Longrightarrow> 2 ^ (bit_length n - 1) \<le> n"
proof (induction n rule: bit_length.induct)
  case (1 n)
  show ?case
  proof (cases "n div 2 = 0")
    case True
    then have "n = 1" using 1(2) by simp
    then show ?thesis by (simp add: bit_length.simps)
  next
    case False
    then have "2 ^ (bit_length (n div 2) - 1) \<le> n div 2" using 1 by simp
    moreover have "0 < bit_length (n div 2)" using False by (subst bit_length.simps) simp
    ultimately have "2 * 2 ^ (bit_length (n div 2) - 1) \<le> n" by linarith
    then show ?thesis using 1(2) \<open>0 < bit_length (n div 2)\<close> by (subst bit_length.simps) (simp add: power_eq_if)
  qed
qed

lemma round24_upper: "2 ^ 24 * round24 n \<le> (2 ^ 24 + 1) * n"
proof (cases "bit_length n - 24 = 0")
  case True
  then show ?thesis by (simp add: round24_def)
next
  case False
  define e where "e = bit_length n - 24"
  have e: "0 < e" "bit_length n = e + 24" using False by (simp_all add: e_def)
  then have "0 < n" by (cases n) (simp_all add: bit_length.simps)
  then have low: "2 ^ (e - 1) * 2 ^ 24 \<le> n"
  proof -
    have "(2::nat) ^ (e - 1) * 2 ^ 24 = 2 ^ (bit_length n - 1)"
      using e by (simp only: power_add [symmetric]) simp
    then show ?thesis using bit_length_lower [of n] \<open>0 < n\<close> by simp
  qed
  have two: "(2::nat) ^ e = 2 * 2 ^ (e - 1)" using e(1) by (simp add: power_eq_if)
  have n: "n div 2 ^ e * 2 ^ e + n mod 2 ^ e = n" by (rule div_mult_mod_eq)
  have "round24 n \<le> n + 2 ^ (e - 1)"
    using n two by (auto simp: round24_def Let_def e_def [symmetric] e(1) algebra_simps)
  then show ?thesis using low by (simp add: algebra_simps)
qed

lemma backpedal_product:
  "2 ^ 72 * (round24 (round24 b * 15099494) div 2 ^ 24) \<le> 15099494 * (2 ^ 24 + 1) * (2 ^ 24 + 1) * b"
proof -
  have x: "2 ^ 24 * round24 b \<le> (2 ^ 24 + 1) * b" by (rule round24_upper)
  have y: "2 ^ 24 * round24 (round24 b * 15099494) \<le> (2 ^ 24 + 1) * (round24 b * 15099494)" by (rule round24_upper)
  have z: "2 ^ 24 * (m div 2 ^ 24) \<le> m" for m :: nat by simp
  show ?thesis using x y z [of "round24 (round24 b * 15099494)"] by simp
qed

lemma backpedal_bytes_le:
  assumes "256 dvd b" "b < 2 ^ 64"
  shows "256 dvd backpedal_bytes b" "backpedal_bytes b \<le> b" "2304 < b \<Longrightarrow> backpedal_bytes b < b"
proof -
  define w where "w = round24 (round24 b * 15099494) div 2 ^ 24"
  have w: "2 ^ 72 * w \<le> 15099494 * (2 ^ 24 + 1) * (2 ^ 24 + 1) * b" unfolding w_def by (rule backpedal_product)
  have eq: "backpedal_bytes b = RoundedBytes w" by (simp add: backpedal_bytes_def w_def)
  show "256 dvd backpedal_bytes b" by (simp add: eq)
  have wb: "w \<le> b" using w by simp
  have b255: "b + 255 < 2 ^ 64" using assms by (auto elim!: dvdE)
  then have "RoundedBytes w = 256 * ((w + 255) div 256)" using wb by (intro RoundedBytes_eq) simp
  moreover have "(w + 255) div 256 \<le> (b + 255) div 256" using wb by (intro div_le_mono) simp
  moreover have "(b + 255) div 256 = b div 256" using assms(1) by (auto elim!: dvdE)
  ultimately show "backpedal_bytes b \<le> b" using eq assms(1) by (auto elim!: dvdE)
  assume "2304 < b"
  then have b: "2560 \<le> b" using assms by (auto elim!: dvdE)
  have "w + 256 \<le> b" using w b by simp
  moreover have "RoundedBytes w < w + 256" by (rule RoundedBytes_less) (use b255 wb in simp)
  ultimately show "backpedal_bytes b < b" by (simp add: eq)
qed

lemma backpedal_bytes_stuck:
  assumes "256 dvd b" "b \<le> 2304"
  shows "backpedal_bytes b = b"
proof -
  obtain k where k: "b = 256 * k" using assms(1) by (auto elim: dvdE)
  then have "k = 0 \<or> k = 1 \<or> k = 2 \<or> k = 3 \<or> k = 4 \<or> k = 5 \<or> k = 6 \<or> k = 7 \<or> k = 8 \<or> k = 9"
    using assms(2) by arith
  then show ?thesis
    by (elim disjE) (simp_all add: k backpedal_bytes_def round24_def RoundedBytes_def bfc_consts Let_def bit_length.simps)
qed

lemma grow_loop_dvd:
  "grow_loop fuel rb cur inc = Some (cur', inc') \<Longrightarrow> 256 dvd cur \<Longrightarrow> 256 dvd cur' \<and> rb \<le> cur'"
proof (induction fuel arbitrary: cur inc)
  case (Suc fuel)
  have "256 dvd wrap64 (cur * 2)" using Suc.prems(2) by (auto simp: wrap64_def intro!: dvd_mod)
  then show ?case using Suc.IH [of "wrap64 (cur * 2)" True] Suc.prems by (auto split: if_splits)
qed simp

text \<open>Doubling a positive value reaches any size up to \<open>2 ^ 63\<close> before it wraps.\<close>

lemma grow_loop_terminates:
  assumes "rb \<le> 2 ^ 63" "0 < cur" "2 ^ 64 \<le> cur * 2 ^ fuel"  "cur < 2 ^ 64"
  shows "\<exists>r. grow_loop fuel rb cur inc = Some r"
  using assms(2-)
proof (induction fuel arbitrary: cur inc)
  case (Suc fuel)
  show ?case
  proof (cases "rb > cur")
    case True
    then have "cur * 2 < 2 ^ 64" using assms(1) by simp
    then show ?thesis using True Suc.IH [of "cur * 2" True] Suc.prems by (simp add: mult.assoc mult.commute)
  qed simp
qed simp

lemma backpedal_loop_bounds:
  assumes "backpedal_loop alloc fuel al rb b s = Some (Some p, b', s')" "256 dvd b" "b < 2 ^ 64"
  shows "256 dvd b' \<and> rb \<le> b' \<and> b' \<le> b \<and> (\<exists>s0. alloc s0 al b' = (Some p, s'))"
  using assms
proof (induction fuel arbitrary: b s)
  case (Suc fuel)
  note bb = backpedal_bytes_le(1,2) [OF Suc.prems(2,3)]
  show ?case
    using Suc.prems(1) Suc.IH [of "backpedal_bytes b"] bb Suc.prems(3)
    by (fastforce simp: Let_def split: if_splits prod.splits option.splits)
qed simp

lemma backpedal_loop_terminates:
  assumes "2304 < rb" "256 dvd b" "b < 2 ^ 64" "b < 256 * fuel"
  shows "\<exists>r. backpedal_loop alloc fuel al rb b s = Some r"
  using assms(2-)
proof (induction fuel arbitrary: b s)
  case (Suc fuel)
  have "backpedal_loop alloc (Suc fuel) al rb b s \<noteq> None"
  proof (cases "backpedal_bytes b < rb")
    case False
    then have b: "2304 < b" using backpedal_bytes_le(2) [OF Suc.prems(1,2)] assms(1) by simp
    note bb = backpedal_bytes_le(1) [OF Suc.prems(1,2)] backpedal_bytes_le(3) [OF Suc.prems(1,2) b]
    have "backpedal_bytes b + 256 \<le> b" using bb Suc.prems(1) by (auto elim!: dvdE)
    then have "\<exists>r. backpedal_loop alloc fuel al rb (backpedal_bytes b) s = Some r" for s
      using Suc.IH [OF bb(1)] Suc.prems by simp
    then show ?thesis by (auto simp: Let_def split: prod.split option.split)
  qed (simp add: Let_def)
  then show ?case by blast
qed simp

text \<open>Below that size the factor loses against the rounding: the request never shrinks.\<close>

lemma backpedal_loop_diverges:
  assumes "\<And>s. fst (alloc s al b) = None" "256 dvd b" "rb \<le> b" "b \<le> 2304"
  shows "backpedal_loop alloc fuel al rb b s = None"
proof (induction fuel arbitrary: s)
  case (Suc fuel)
  obtain s' where "alloc s al b = (None, s')" using assms(1) [of s] by (cases "alloc s al b") simp
  then show ?case using Suc assms(3) by (simp add: Let_def backpedal_bytes_stuck [OF assms(2,4)])
qed simp

text \<open>What the allocator relies on: a region the sub-allocator hands out is new memory.\<close>

definition sub_alloc_ok :: "'s sub_alloc \<Rightarrow> extents \<Rightarrow> bool" where
  "sub_alloc_ok alloc G \<longleftrightarrow> (\<forall>s al n p s'. alloc s al n = (Some p, s') \<longrightarrow>
     p + n < 2 ^ 64 \<and> (\<forall>(b, e) \<in> G. e \<le> p \<or> p + n \<le> b))"

text \<open>When the retry loop is known to end.\<close>

definition backs_off :: "'s sub_alloc \<Rightarrow> nat \<Rightarrow> bfc \<Rightarrow> bool" where
  "backs_off alloc rb a \<longleftrightarrow> 2304 < rb \<or> started_backpedal a \<or> (\<forall>s al n. fst (alloc s al n) \<noteq> None)"

definition available :: "bfc \<Rightarrow> nat" where
  "available a = (memory_limit a - total_region_allocated_bytes a) div 256 * 256"

lemma inv_growth_cong:
  assumes "bfc_inv a fl X" "256 dvd c"
  shows "bfc_inv (a\<lparr>curr_region_allocation_bytes := c\<rparr>) fl X" "bfc_inv (a\<lparr>started_backpedal := b\<rparr>) fl X"
  using assms by (simp_all add: bfc_inv_def free_list_ok_def active_def mem_ok_def)

lemma live_growth_cong [simp]:
  "live (a\<lparr>curr_region_allocation_bytes := c\<rparr>) = live a" "live (a\<lparr>started_backpedal := b\<rparr>) = live a"
  by (simp_all add: live_def)

lemma available_eq:
  assumes "mem_ok a"
  shows "wrap64 (memory_limit a + 2 ^ 64 - total_region_allocated_bytes a) div kMinAllocationSize * kMinAllocationSize = available a"
    "256 dvd available a" "available a < 2 ^ 64" "total_region_allocated_bytes a + available a \<le> memory_limit a"
proof -
  have m: "total_region_allocated_bytes a \<le> memory_limit a" "memory_limit a < 2 ^ 64" using assms by (auto simp: mem_ok_def)
  then have "memory_limit a + 2 ^ 64 - total_region_allocated_bytes a = memory_limit a - total_region_allocated_bytes a + 2 ^ 64" by simp
  then have "wrap64 (memory_limit a + 2 ^ 64 - total_region_allocated_bytes a) = memory_limit a - total_region_allocated_bytes a"
    using m by (simp only: wrap64_def mod_add_self2) simp
  then show "wrap64 (memory_limit a + 2 ^ 64 - total_region_allocated_bytes a) div kMinAllocationSize * kMinAllocationSize = available a"
    by (simp add: available_def bfc_consts)
  show "256 dvd available a" by (simp add: available_def)
  have "available a \<le> memory_limit a - total_region_allocated_bytes a" unfolding available_def by (rule div_times_less_eq_dividend)
  then show "available a < 2 ^ 64" "total_region_allocated_bytes a + available a \<le> memory_limit a" using m by simp_all
qed

lemma request_region_ok:
  assumes b: "256 dvd b" "b < 2 ^ 64" "rb \<le> b"
    and r: "request_region alloc fuel al rb b a s = Some (m, b', s', a')"
  shows "a' = a \<or> a' = a\<lparr>started_backpedal := True\<rparr>"
    "m = Some p \<Longrightarrow> 256 dvd b' \<and> rb \<le> b' \<and> b' \<le> b \<and> (\<exists>s0. alloc s0 al b' = (Some p, s'))"
proof -
  show "a' = a \<or> a' = a\<lparr>started_backpedal := True\<rparr>"
    using r by (auto simp: request_region_def split: prod.splits option.splits if_splits)
  assume m: "m = Some p"
  obtain q s1 where q: "alloc s al b = (q, s1)" by (cases "alloc s al b")
  show "256 dvd b' \<and> rb \<le> b' \<and> b' \<le> b \<and> (\<exists>s0. alloc s0 al b' = (Some p, s'))"
  proof (cases q)
    case None
    then have "backpedal_loop alloc fuel al rb b s1 = Some (Some p, b', s')"
      using r q m by (auto simp: request_region_def split: if_splits)
    then show ?thesis by (rule backpedal_loop_bounds [OF _ b(1,2)])
  next
    case (Some q')
    then show ?thesis using r q m b by (auto simp: request_region_def)
  qed
qed

lemma request_region_terminates:
  assumes "backs_off alloc rb a" "256 dvd b" "b < 2 ^ 64" "b < 256 * fuel"
  shows "\<exists>r. request_region alloc fuel al rb b a s = Some r"
proof (cases "alloc s al b")
  case (Pair q s1)
  show ?thesis
  proof (cases q)
    case None
    then have "started_backpedal a \<or> 2304 < rb"
      using assms(1) Pair by (metis backs_off_def fst_conv)
    then show ?thesis
      using Pair None backpedal_loop_terminates [OF _ assms(2-), of rb alloc al s1] by (auto simp: request_region_def)
  qed (simp add: Pair request_region_def)
qed

lemma Extend_eq:
  assumes "mem_ok a"
  shows "Extend alloc fuel al rb a s =
     (if rb > available a then Some (Done (False, a, s))
      else case grow_loop fuel rb (curr_region_allocation_bytes a) False of None \<Rightarrow> None
      | Some (cur, increased) \<Rightarrow>
        (case request_region alloc fuel al rb (min cur (available a)) (a\<lparr>curr_region_allocation_bytes := cur\<rparr>) s of
          None \<Rightarrow> None
        | Some (None, _, s2, a2) \<Rightarrow> Some (Done (False, a2, s2))
        | Some (Some mem_addr, bytes2, s2, a2) \<Rightarrow>
          Some (obind (add_region mem_addr bytes2 (if increased then a2 else a2\<lparr>curr_region_allocation_bytes :=
                             wrap64 (curr_region_allocation_bytes a2 * 2)\<rparr>)) (\<lambda>a4. Done (True, a4, s2)))))"
  unfolding Extend_def Let_def available_eq(1) [OF assms] by simp

definition extended :: "bool \<Rightarrow> nat \<Rightarrow> bfc \<Rightarrow> bfc \<Rightarrow> handle list \<Rightarrow> bool" where
  "extended ok rb a a' fl' \<longleftrightarrow> bfc_inv a' fl' {} \<and> live a' = live a \<and> next_allocation_id a' = next_allocation_id a \<and>
     extents_of (regions a) \<subseteq> extents_of (regions a') \<and>
     (ok \<longrightarrow> (\<exists>h \<in> active a' fl'. \<not> in_use (cs_of a' h) \<and> rb \<le> csize (cs_of a' h) \<and> freed_count (cs_of a' h) = 0))"

lemma Extend_ok:
  assumes I: "bfc_inv a fl {}" and sa: "sub_alloc_ok alloc (extents_of (regions a))" and rb: "0 < rb"
    and ret: "Extend alloc fuel al rb a s = Some r"
  shows "\<exists>ok a' s' fl'. r = Done (ok, a', s') \<and> extended ok rb a a' fl'"
proof (cases "rb > available a")
  case True
  then show ?thesis using ret I by (auto simp: Extend_eq [OF invD(10) [OF I]] extended_def)
next
  case False
  note av = available_eq [OF invD(10) [OF I]]
  obtain cur inc where g: "grow_loop fuel rb (curr_region_allocation_bytes a) False = Some (cur, inc)"
    using ret False by (auto simp: Extend_eq [OF invD(10) [OF I]] split: option.splits)
  have cur: "256 dvd cur" "rb \<le> cur" using grow_loop_dvd [OF g] invD(10) [OF I] by (simp_all add: mem_ok_def)
  define b where "b = min cur (available a)"
  have b: "256 dvd b" "b < 2 ^ 64" "rb \<le> b" "b \<le> available a"
    using cur av(2,3) False by (auto simp: b_def min_def)
  let ?a1 = "a\<lparr>curr_region_allocation_bytes := cur\<rparr>"
  obtain m b' s' a2 where r: "request_region alloc fuel al rb b ?a1 s = Some (m, b', s', a2)"
    using ret False g by (auto simp: Extend_eq [OF invD(10) [OF I]] b_def split: option.splits)
  note rr = request_region_ok [OF b(1-3) r]
  have a2: "bfc_inv a2 fl {}" "live a2 = live a" "next_allocation_id a2 = next_allocation_id a" "regions a2 = regions a"
    "total_region_allocated_bytes a2 = total_region_allocated_bytes a" "memory_limit a2 = memory_limit a"
    using rr(1) inv_growth_cong [OF I cur(1)] inv_growth_cong(2) [OF inv_growth_cong(1) [OF I cur(1)] cur(1)] by auto
  show ?thesis
  proof (cases m)
    case None
    then have "r = Done (False, a2, s')" using ret False g r by (simp add: Extend_eq [OF invD(10) [OF I]] b_def)
    then show ?thesis using a2 by (auto simp: extended_def)
  next
    case (Some p)
    define a3 where "a3 = (if inc then a2 else a2\<lparr>curr_region_allocation_bytes := wrap64 (curr_region_allocation_bytes a2 * 2)\<rparr>)"
    note bp = rr(2) [OF Some]
    have "256 dvd wrap64 (curr_region_allocation_bytes a2 * 2)"
      using invD(10) [OF a2(1)] by (auto simp: wrap64_def mem_ok_def intro!: dvd_mod)
    then have a3: "bfc_inv a3 fl {}" "live a3 = live a" "next_allocation_id a3 = next_allocation_id a" "regions a3 = regions a"
      "total_region_allocated_bytes a3 = total_region_allocated_bytes a" "memory_limit a3 = memory_limit a"
      using a2 inv_growth_cong(1) [OF a2(1)] by (auto simp: a3_def)
    have "fresh_extent (extents_of (regions a3)) p b'"
    proof -
      obtain s0 where "alloc s0 al b' = (Some p, s')" using bp by blast
      then have "p + b' < 2 ^ 64 \<and> (\<forall>(b, e) \<in> extents_of (regions a). e \<le> p \<or> p + b' \<le> b)"
        using sa unfolding sub_alloc_ok_def by blast
      then show ?thesis using bp rb a3(4) by (simp add: fresh_extent_def)
    qed
    moreover have "total_region_allocated_bytes a3 + b' \<le> memory_limit a3" using bp b(4) av(4) a3 by simp
    ultimately obtain a4 fl' h where a4: "add_region p b' a3 = Done a4" "bfc_inv a4 fl' {}" "live a4 = live a3"
     "extents_of (regions a4) = insert (p, p + b') (extents_of (regions a3))" "next_allocation_id a4 = next_allocation_id a3"
     "h \<in> active a4 fl'" "\<not> in_use (cs_of a4 h)" "csize (cs_of a4 h) = b'" "freed_count (cs_of a4 h) = 0"
      using add_region_ok [OF a3(1)] by (metis (no_types, lifting))
    have "r = Done (True, a4, s')" using ret False g r Some a4(1) by (simp add: Extend_eq [OF invD(10) [OF I]] b_def a3_def)
    moreover have "extended True rb a a4 fl'" using a4 a3 bp by (auto simp: extended_def)
    ultimately show ?thesis by blast
  qed
qed

lemma Extend_terminates:
  assumes I: "bfc_inv a fl {}" and rb: "rb \<le> 2 ^ 63" and c: "0 < curr_region_allocation_bytes a" "curr_region_allocation_bytes a < 2 ^ 64"
    and bo: "backs_off alloc rb a" and f: "64 \<le> fuel" "memory_limit a < 256 * fuel"
  shows "\<exists>r. Extend alloc fuel al rb a s = Some r"
proof (cases "rb > available a")
  case False
  note av = available_eq [OF invD(10) [OF I]]
  have "(2::nat) ^ 64 \<le> 2 ^ fuel" using f(1) by (rule power_increasing) simp
  also have "\<dots> \<le> curr_region_allocation_bytes a * 2 ^ fuel" using c(1) by simp
  finally obtain cur inc where g: "grow_loop fuel rb (curr_region_allocation_bytes a) False = Some (cur, inc)"
    using grow_loop_terminates [OF rb c(1) _ c(2)] by (metis surj_pair)
  have cur: "256 dvd cur" "rb \<le> cur" using grow_loop_dvd [OF g] invD(10) [OF I] by (simp_all add: mem_ok_def)
  have b: "256 dvd min cur (available a)" "min cur (available a) < 2 ^ 64" "min cur (available a) < 256 * fuel"
    using cur av(2-4) f(2) by (auto simp: min_def)
  have "backs_off alloc rb (a\<lparr>curr_region_allocation_bytes := cur\<rparr>)" using bo by (simp add: backs_off_def)
  from request_region_terminates [OF this b, of al s] obtain m b' s' a'
    where "request_region alloc fuel al rb (min cur (available a)) (a\<lparr>curr_region_allocation_bytes := cur\<rparr>) s = Some (m, b', s', a')"
    by (metis surj_pair)
  then show ?thesis using g False by (cases m) (simp_all add: Extend_eq [OF invD(10) [OF I]])
qed (simp add: Extend_eq [OF invD(10) [OF I]])

end
