(* ===== verification/Bfc_Correct.thy ===== *)
theory Bfc_Correct
  imports Bfc_Extend
begin

text \<open>
  The allocator as its clients see it. \<open>bfc_wf\<close> is the invariant between calls and \<open>live\<close> the set
  of blocks handed out; \<^verbatim>\<open>AllocateRawInternal\<close> adds one block that overlaps no other, \<^verbatim>\<open>DeallocateRaw\<close>
  removes one. The locale \<open>block_allocator\<close> states that contract and derives that no client that
  releases only what it holds can make the allocator abort; it is interpreted on the allocator once
  the allocator has taken all of its memory.
\<close>



definition bfc_wf :: "bfc \<Rightarrow> bool" where
  "bfc_wf a \<longleftrightarrow> (\<exists>fl. bfc_inv a fl {})"

definition disjoint_blocks :: "block \<Rightarrow> block \<Rightarrow> bool" where
  "disjoint_blocks b b' \<longleftrightarrow> (case b of (p, sz, _) \<Rightarrow> case b' of (p', sz', _) \<Rightarrow> p + sz \<le> p' \<or> p' + sz' \<le> p)"

lemma live_disjoint:
  assumes I: "bfc_wf a" and b: "b \<in> live a" "b' \<in> live a" "b \<noteq> b'"
  shows "disjoint_blocks b b'"
proof -
  obtain fl where I: "bfc_inv a fl {}" using I by (auto simp: bfc_wf_def)
  obtain h h' where h: "h \<in> active a fl" "h' \<in> active a fl" "b = block_of (cs_of a h)" "b' = block_of (cs_of a h')"
    using b(1,2) unfolding live_active [OF I] by blast
  then have "h \<noteq> h'" using b(3) by auto
  then show ?thesis using invD(3) [OF I] disjD [of "active a fl" "cs_of a" h h'] h
    by (auto simp: disjoint_blocks_def block_of_def layout_ok_def)
qed

lemma live_block:
  assumes I: "bfc_wf a" and b: "(p, sz, i, rq) \<in> live a"
  shows "0 < sz" "256 dvd sz" "\<exists>(b, e) \<in> extents_of (regions a). b \<le> p \<and> p + sz \<le> e \<and> 256 dvd p - b"
    "1 \<le> i" "i < next_allocation_id a"
proof -
  obtain fl where I: "bfc_inv a fl {}" using I by (auto simp: bfc_wf_def)
  obtain h where h: "h \<in> active a fl" "in_use (cs_of a h)" "block_of (cs_of a h) = (p, sz, i, rq)"
    by (rule live_handle [OF I b])
  have c: "chunk_ok (active a fl) (cs_of a) (extents_of (regions a))" using invD(3) [OF I] by (simp add: layout_ok_def)
  show "0 < sz" "256 dvd sz" "\<exists>(b, e) \<in> extents_of (regions a). b \<le> p \<and> p + sz \<le> e \<and> 256 dvd p - b"
    using chunkD [OF c h(1)] h(3) by (auto simp: block_of_def)
  show "1 \<le> i" "i < next_allocation_id a"
    using invD(8) [OF I] h by (auto simp: ids_ok_def block_of_def)
qed

lemma live_bytes:
  assumes "bfc_wf a"
  shows "bytes_in_use (stats a) = (\<Sum>(p, sz, i, rq) \<in> live a. int sz)"
proof -
  obtain fl where I: "bfc_inv a fl {}" using assms by (auto simp: bfc_wf_def)
  have inj: "inj_on (\<lambda>h. block_of (cs_of a h)) {h \<in> active a fl. in_use (cs_of a h)}"
    using cptr_inj [OF invD(3) [OF I]] by (intro inj_onI) (auto simp: block_of_def)
  have "(\<Sum>(p, sz, i, rq) \<in> live a. int sz) = (\<Sum>h \<in> {h \<in> active a fl. in_use (cs_of a h)}. int (csize (cs_of a h)))"
    unfolding live_active [OF I] sum.reindex [OF inj] by (simp add: block_of_def)
  also have "\<dots> = used_bytes (active a fl) (cs_of a)"
    unfolding used_bytes_def by (subst sum.inter_filter) (simp_all add: active_def)
  finally show ?thesis using invD(9) [OF I] by simp
qed

lemma BFCAllocator_inv:
  assumes "tm < 2 ^ 64"
  shows "bfc_inv (BFCAllocator tm growth) [] {}" "live (BFCAllocator tm growth) = {}"
proof -
  show "live (BFCAllocator tm growth) = {}" by (simp add: live_def BFCAllocator_def)
  show "bfc_inv (BFCAllocator tm growth) [] {}"
    using assms by (auto simp: bfc_inv_def BFCAllocator_def geom_ok_def free_list_ok_def active_def layout_ok_def
      extents_ok_def chunk_ok_def next_ok_def prev_ok_def disj_ok_def cover_ok_def handle_ok_def extents_of_def slots_def
      bins_ok_def binned_def coalesced_def ids_ok_def used_bytes_def mem_ok_def)
qed

text \<open>The result an allocation may have.\<close>

definition allocated :: "nat \<Rightarrow> nat option \<Rightarrow> bfc \<Rightarrow> bfc \<Rightarrow> bool" where
  "allocated nb r a a' \<longleftrightarrow> bfc_wf a' \<and> extents_of (regions a) \<subseteq> extents_of (regions a') \<and>
     (case r of None \<Rightarrow> live a' = live a
      | Some p \<Rightarrow> \<exists>sz. RoundedBytes nb \<le> sz \<and> live a' = insert (p, sz, next_allocation_id a, nb) (live a))"

lemma FindChunkPtr_allocated:
  assumes I: "bfc_inv a fl {}" and nb: "0 < nb" "nb \<le> 2 ^ 63 - 256"
  shows "\<exists>r a'. FindChunkPtr (BinNumForSize (RoundedBytes nb)) (RoundedBytes nb) nb fb a = Done (r, a') \<and>
     allocated nb r a a' \<and> (r = None \<longleftrightarrow> candidates a fl (RoundedBytes nb) fb = {}) \<and> (r = None \<longrightarrow> a' = a)"
proof -
  have rb: "256 dvd RoundedBytes nb" "0 < RoundedBytes nb" "RoundedBytes nb < 2 ^ 63"
    using RoundedBytes_ge [of nb] RoundedBytes_less [of nb] nb by auto
  from FindChunkPtr_ok [OF I rb, of nb fb] consider
    "FindChunkPtr (BinNumForSize (RoundedBytes nb)) (RoundedBytes nb) nb fb a = Done (None, a)" "candidates a fl (RoundedBytes nb) fb = {}"
  | h a' fl' sz where "FindChunkPtr (BinNumForSize (RoundedBytes nb)) (RoundedBytes nb) nb fb a = Done (Some (cptr (cs_of a h)), a')"
       "bfc_inv a' fl' {}" "h \<in> candidates a fl (RoundedBytes nb) fb"
       "sz = (if should_split (csize (cs_of a h)) (RoundedBytes nb) then RoundedBytes nb else csize (cs_of a h))"
       "live a' = insert (cptr (cs_of a h), sz, next_allocation_id a, nb) (live a)" "extents_of (regions a') = extents_of (regions a)"
    by (elim disjE exE conjE) simp_all
  then show ?thesis
  proof cases
    case 1
    then show ?thesis using I by (auto simp: allocated_def bfc_wf_def)
  next
    case (2 h a' fl' sz)
    have "RoundedBytes nb \<le> sz" using 2(3,4) by (auto simp: candidates_def fits_def)
    then have "allocated nb (Some (cptr (cs_of a h))) a a'" using 2 by (auto simp: allocated_def bfc_wf_def)
    then show ?thesis using 2 by auto
  qed
qed

lemma AllocateRawInternal_ok:
  assumes I: "bfc_wf a" and nb: "nb \<le> 2 ^ 63 - 256" and sa: "sub_alloc_ok alloc (extents_of (regions a))"
    and ret: "AllocateRawInternal alloc fuel al nb fb a s = Some r"
  shows "\<exists>p a' s'. r = Done (p, a', s') \<and> allocated nb p a a'"
proof (cases "nb = 0")
  case True
  then show ?thesis using ret I by (auto simp: AllocateRawInternal_def allocated_def)
next
  case False
  obtain fl where I: "bfc_inv a fl {}" using I by (auto simp: bfc_wf_def)
  let ?rb = "RoundedBytes nb"
  let ?F = "FindChunkPtr (BinNumForSize ?rb) ?rb nb fb"
  have rb: "0 < ?rb" using RoundedBytes_ge [of nb] nb False by simp
  from False have nb0: "0 < nb" by simp
  obtain p a1 where f1: "?F a = Done (p, a1)" "allocated nb p a a1" "p = None \<Longrightarrow> a1 = a"
    using FindChunkPtr_allocated [OF I nb0 nb, of fb] by blast
  show ?thesis
  proof (cases p)
    case (Some q)
    then show ?thesis using ret False f1 by (auto simp: AllocateRawInternal_def Let_def)
  next
    case None
    with f1 have F: "?F a = Done (None, a)" by simp
    then obtain e where e: "Extend alloc fuel al ?rb a s = Some e"
      using ret False by (auto simp: AllocateRawInternal_def Let_def split: option.splits)
    obtain ok a2 s2 fl2 where x: "e = Done (ok, a2, s2)" "extended ok ?rb a a2 fl2"
      using Extend_ok [OF I sa rb e] by blast
    show ?thesis
    proof (cases ok)
      case False
      then have "r = Done (None, a2, s2)" using ret \<open>nb \<noteq> 0\<close> F e x(1) by (simp add: AllocateRawInternal_def Let_def)
      then show ?thesis using x(2) by (auto simp: allocated_def extended_def bfc_wf_def)
    next
      case True
      have I2: "bfc_inv a2 fl2 {}" using x(2) by (simp add: extended_def)
      obtain p3 a3 where f3: "?F a2 = Done (p3, a3)" "allocated nb p3 a2 a3"
        using FindChunkPtr_allocated [OF I2 nb0 nb, of fb] by blast
      then have "r = Done (p3, a3, s2)" using ret \<open>nb \<noteq> 0\<close> True F e x(1) by (simp add: AllocateRawInternal_def Let_def)
      moreover have "allocated nb p3 a a3" using f3(2) x(2) by (auto simp: allocated_def extended_def split: option.splits)
      ultimately show ?thesis by blast
    qed
  qed
qed

lemma AllocateRawInternal_terminates:
  assumes I: "bfc_wf a" and nb: "nb \<le> 2 ^ 63 - 256"
    and c: "0 < curr_region_allocation_bytes a" "curr_region_allocation_bytes a < 2 ^ 64"
    and bo: "backs_off alloc (RoundedBytes nb) a" and f: "64 \<le> fuel" "memory_limit a < 256 * fuel"
  shows "\<exists>r. AllocateRawInternal alloc fuel al nb fb a s = Some r"
proof (cases "nb = 0")
  case False
  obtain fl where I: "bfc_inv a fl {}" using I by (auto simp: bfc_wf_def)
  have rb: "RoundedBytes nb \<le> 2 ^ 63" using RoundedBytes_less [of nb] nb by simp
  obtain p a1 where f1: "FindChunkPtr (BinNumForSize (RoundedBytes nb)) (RoundedBytes nb) nb fb a = Done (p, a1)" "p = None \<Longrightarrow> a1 = a"
    using FindChunkPtr_allocated [OF I _ nb, of fb] False by blast
  obtain e where e: "Extend alloc fuel al (RoundedBytes nb) a s = Some e"
    using Extend_terminates [OF I rb c bo f] by blast
  show ?thesis
    using False f1 e by (cases p) (auto simp: AllocateRawInternal_def Let_def split: outcome.split prod.split bool.split)
qed (simp add: AllocateRawInternal_def)


text \<open>A request fails only if no free chunk serves it and the allocator could not grow.\<close>

lemma AllocateRawInternal_None:
  assumes I: "bfc_wf a" and nb: "0 < nb" "nb \<le> 2 ^ 63 - 256" and sa: "sub_alloc_ok alloc (extents_of (regions a))"
    and ret: "AllocateRawInternal alloc fuel al nb fb a s = Some (Done (None, a', s'))"
  shows "Extend alloc fuel al (RoundedBytes nb) a s = Some (Done (False, a', s'))"
    "c \<in> set (chunks a) \<Longrightarrow> bin_num c \<noteq> None \<Longrightarrow> csize c < RoundedBytes nb \<or> (0 < fb \<and> fb < freed_count c)"
proof -
  obtain fl where I: "bfc_inv a fl {}" using I by (auto simp: bfc_wf_def)
  let ?rb = "RoundedBytes nb"
  let ?F = "FindChunkPtr (BinNumForSize ?rb) ?rb nb fb"
  have rb: "0 < ?rb" using RoundedBytes_ge [of nb] nb by simp
  obtain p a1 where f1: "?F a = Done (p, a1)" "p = None \<longleftrightarrow> candidates a fl ?rb fb = {}" "p = None \<longrightarrow> a1 = a"
    using FindChunkPtr_allocated [OF I nb, of fb] by blast
  have p: "p = None" using ret nb f1(1) by (cases p) (simp_all add: AllocateRawInternal_def Let_def)
  then have F: "?F a = Done (None, a)" using f1 by simp
  obtain e where e: "Extend alloc fuel al ?rb a s = Some e"
    using ret nb F by (auto simp: AllocateRawInternal_def Let_def split: option.splits)
  obtain ok a2 s2 fl2 where x: "e = Done (ok, a2, s2)" "extended ok ?rb a a2 fl2"
    using Extend_ok [OF I sa rb e] by blast
  have "\<not> ok"
  proof
    assume ok
    then obtain h where "h \<in> candidates a2 fl2 ?rb fb" using x(2) unfolding extended_def candidates_def fits_def by fastforce
    moreover have "bfc_inv a2 fl2 {}" using x(2) by (simp add: extended_def)
    ultimately obtain q a3 where "?F a2 = Done (Some q, a3)"
      using FindChunkPtr_allocated [of a2 fl2 nb fb] nb by fastforce
    then show False using ret nb F e x(1) \<open>ok\<close> by (simp add: AllocateRawInternal_def Let_def)
  qed
  then show "Extend alloc fuel al ?rb a s = Some (Done (False, a', s'))"
    using ret nb F e x(1) by (simp add: AllocateRawInternal_def Let_def)
  assume c: "c \<in> set (chunks a)" "bin_num c \<noteq> None"
  then obtain h where h: "c = cs_of a h" "h < length (chunks a)" by (auto simp: in_set_conv_nth)
  then have "h \<notin> set fl" using invD(2) [OF I] c(2) by (auto simp: free_list_ok_def)
  then have h: "c = cs_of a h" "h \<in> active a fl" using h by (simp_all add: active_def)
  moreover have "\<not> in_use c" using binsD(5) [OF invD(5) [OF I] h(2)] c(2) h(1) by (cases "bin_num c") auto
  ultimately show "csize c < ?rb \<or> (0 < fb \<and> fb < freed_count c)"
    using f1(2) p by (auto simp: candidates_def fits_def)
qed

subsection \<open>What no operation but growing changes\<close>

definition growth :: "bfc \<Rightarrow> nat \<times> nat \<times> nat \<times> bool" where
  "growth a = (memory_limit a, total_region_allocated_bytes a, curr_region_allocation_bytes a, started_backpedal a)"

lemma growth_steps:
  "growth (upd_chunk h f a) = growth a" "growth (a\<lparr>regions := rs\<rparr>) = growth a"
  "growth (a\<lparr>bins := bs\<rparr>) = growth a" "growth (a\<lparr>chunks := cs\<rparr>) = growth a"
  "growth (a\<lparr>free_chunks_list := f'\<rparr>) = growth a"
  "growth (mark_free h a) = growth a" "growth (mark_used h n a) = growth a"
  by (simp_all add: growth_def mark_free_def mark_used_def Let_def split: option.split)

lemma growth_bins:
  "InsertFreeChunkIntoBin h a = Done a' \<Longrightarrow> growth a' = growth a"
  "RemoveFreeChunkIterFromBin b h a = Done a' \<Longrightarrow> growth a' = growth a"
  "RemoveFreeChunkFromBin h a = Done a' \<Longrightarrow> growth a' = growth a"
  by (auto simp: InsertFreeChunkIntoBin_def RemoveFreeChunkIterFromBin_def RemoveFreeChunkFromBin_def
      obind_Done_iff Let_def growth_def split: if_splits option.splits)

lemma growth_table:
  "AllocateChunk a = Done (h, a') \<Longrightarrow> growth a' = growth a"
  "DeallocateChunk h a = Done a' \<Longrightarrow> growth a' = growth a"
  "set_region_handle p ho a = Done a' \<Longrightarrow> growth a' = growth a"
  by (auto simp: AllocateChunk_def DeallocateChunk_def set_region_handle_def
      obind_Done_iff Let_def growth_def split: if_splits option.splits)


lemmas growth_simps = growth_steps growth_bins growth_table

lemma growth_Split: "SplitChunk h n a = Done a' \<Longrightarrow> growth a' = growth a"
  unfolding SplitChunk_def Let_def
  by (auto simp: obind_Done_iff growth_steps split: if_splits option.splits dest!: growth_bins(1) growth_table)

lemma growth_Merge: "Merge h h' a = Done a' \<Longrightarrow> growth a' = growth a"
  unfolding Merge_def DeleteChunk_def Let_def
  by (auto simp: obind_Done_iff growth_steps split: if_splits option.splits dest!: growth_bins growth_table)

lemma growth_FindChunkPtr: "FindChunkPtr bn rb nb fb a = Done (r, a') \<Longrightarrow> growth a' = growth a"
  unfolding FindChunkPtr_def
  by (auto simp: obind_Done_iff growth_steps split: if_splits option.splits prod.splits dest!: growth_bins growth_Split)

lemma growth_Free:
  assumes "FreeAndMaybeCoalesce h a = Done a'"
  shows "growth a' = growth a"
proof -
  let ?a1 = "mark_free h a"
  let ?next = "case cnext (chunks ?a1 ! h) of None \<Rightarrow> Done ?a1
            | Some n \<Rightarrow> obind (ChunkFromHandle ?a1 n) (\<lambda>cn.
                if in_use cn then Done ?a1
                else obind (RemoveFreeChunkFromBin n ?a1) (\<lambda>a'. Merge h n a'))"
  let ?prev = "\<lambda>a2. case cprev (chunks a2 ! h) of None \<Rightarrow> Done (h, a2)
            | Some p \<Rightarrow> obind (ChunkFromHandle a2 p) (\<lambda>cp.
                if in_use cp then Done (h, a2)
                else obind (RemoveFreeChunkFromBin p a2) (\<lambda>a'.
                     obind (Merge p h a') (\<lambda>a''. Done (p, a''))))"
  obtain a2 g a3 where s: "?next = Done a2" "?prev a2 = Done (g, a3)" "InsertFreeChunkIntoBin g a3 = Done a'"
    using assms unfolding FreeAndMaybeCoalesce_def Let_def obind_Done_iff
    by (auto simp: obind_Done_iff simp del: obind.simps split: if_splits)
  have "growth a2 = growth ?a1"
    using s(1) growth_bins(3) growth_Merge by (fastforce simp: obind_Done_iff split: option.splits if_splits)
  moreover have "growth a3 = growth a2"
    using s(2) growth_bins(3) growth_Merge by (fastforce simp: obind_Done_iff split: option.splits if_splits)
  ultimately show ?thesis using growth_bins(1) [OF s(3)] by (simp add: growth_steps)
qed

lemma growth_DeallocateRawInternal: "DeallocateRawInternal p a = Done a' \<Longrightarrow> growth a' = growth a"
  by (auto simp: DeallocateRawInternal_def obind_Done_iff split: option.splits dest: growth_Free)

lemma available_growth: "growth a' = growth a \<Longrightarrow> available a' = available a"
  by (simp add: growth_def available_def)

subsection \<open>Clients\<close>

text \<open>
  A client acquires blocks and releases blocks that it holds, in any order; \<open>held\<close> lists the
  addresses it holds.
\<close>

datatype client_op = Acquire nat | Release nat

fun run_client ::
  "(nat \<Rightarrow> 's \<Rightarrow> (nat option \<times> 's) outcome) \<Rightarrow> (nat \<Rightarrow> 's \<Rightarrow> 's outcome) \<Rightarrow>
   client_op list \<Rightarrow> 's \<Rightarrow> nat list \<Rightarrow> ('s \<times> nat list) outcome"
where
  "run_client alloc dealloc [] s held = Done (s, held)"
| "run_client alloc dealloc (Acquire n # ops) s held =
     obind (alloc n s) (\<lambda>(r, s'). run_client alloc dealloc ops s'
       (case r of None \<Rightarrow> held | Some p \<Rightarrow> p # held))"
| "run_client alloc dealloc (Release k # ops) s held =
     (if k < length held
      then obind (dealloc (held ! k) s) (\<lambda>s'. run_client alloc dealloc ops s' (take k held @ drop (Suc k) held))
      else run_client alloc dealloc ops s held)"

locale block_allocator =
  fixes inv :: "'s \<Rightarrow> bool" and blocks :: "'s \<Rightarrow> block set" and size_ok :: "nat \<Rightarrow> bool"
    and alloc :: "nat \<Rightarrow> 's \<Rightarrow> (nat option \<times> 's) outcome" and dealloc :: "nat \<Rightarrow> 's \<Rightarrow> 's outcome"
  assumes alloc_law: "inv s \<Longrightarrow> size_ok n \<Longrightarrow> \<exists>r s'. alloc n s = Done (r, s') \<and> inv s' \<and>
      (case r of None \<Rightarrow> blocks s' = blocks s
       | Some p \<Rightarrow> \<exists>sz i. n \<le> sz \<and> (p, sz, i, n) \<notin> blocks s \<and> blocks s' = insert (p, sz, i, n) (blocks s))"
    and dealloc_law: "inv s \<Longrightarrow> (p, sz, i, n) \<in> blocks s \<Longrightarrow>
      \<exists>s'. dealloc p s = Done s' \<and> inv s' \<and> blocks s' = blocks s - {(p, sz, i, n)}"
    and blocks_disjoint: "inv s \<Longrightarrow> b \<in> blocks s \<Longrightarrow> b' \<in> blocks s \<Longrightarrow> b \<noteq> b' \<Longrightarrow> disjoint_blocks b b'"
    and blocks_pos: "inv s \<Longrightarrow> (p, sz, i, n) \<in> blocks s \<Longrightarrow> 0 < sz"
begin

definition holds :: "'s \<Rightarrow> nat list \<Rightarrow> bool" where
  "holds s held \<longleftrightarrow> inv s \<and> distinct held \<and> fst ` blocks s = set held"

lemma addr_unique:
  assumes "inv s" "b \<in> blocks s" "b' \<in> blocks s" "fst b = fst b'"
  shows "b = b'"
proof (rule ccontr)
  assume "b \<noteq> b'"
  with assms have "disjoint_blocks b b'" by (intro blocks_disjoint)
  moreover obtain p sz i n where "b = (p, sz, i, n)" by (cases b)
  moreover obtain p' sz' i' n' where "b' = (p', sz', i', n')" by (cases b')
  ultimately show False using blocks_pos [OF assms(1)] assms(2-) by (fastforce simp: disjoint_blocks_def)
qed

lemma holds_Acquire:
  assumes "holds s held" "size_ok n"
  shows "\<exists>r s'. alloc n s = Done (r, s') \<and> holds s' (case r of None \<Rightarrow> held | Some p \<Rightarrow> p # held)"
proof -
  have s: "inv s" "distinct held" "fst ` blocks s = set held" using assms(1) by (auto simp: holds_def)
  obtain r s' where a: "alloc n s = Done (r, s')" "inv s'"
    "case r of None \<Rightarrow> blocks s' = blocks s
       | Some p \<Rightarrow> \<exists>sz i. n \<le> sz \<and> (p, sz, i, n) \<notin> blocks s \<and> blocks s' = insert (p, sz, i, n) (blocks s)"
    using alloc_law [OF s(1) assms(2)] by blast
  show ?thesis
  proof (cases r)
    case None
    then show ?thesis using a s by (auto simp: holds_def)
  next
    case (Some p)
    then obtain sz i where b: "(p, sz, i, n) \<notin> blocks s" "blocks s' = insert (p, sz, i, n) (blocks s)" using a(3) by auto
    have "p \<notin> set held"
    proof
      assume "p \<in> set held"
      then obtain b' where "b' \<in> blocks s" "fst b' = p" using s(3) by (metis imageE)
      then show False using addr_unique [OF a(2), of "(p, sz, i, n)" b'] b by auto
    qed
    then show ?thesis using a(1,2) b s Some by (auto simp: holds_def)
  qed
qed

lemma holds_Release:
  assumes "holds s held" "k < length held"
  shows "\<exists>s'. dealloc (held ! k) s = Done s' \<and> holds s' (take k held @ drop (Suc k) held)"
proof -
  have s: "inv s" "distinct held" "fst ` blocks s = set held" using assms(1) by (auto simp: holds_def)
  have split: "held = take k held @ held ! k # drop (Suc k) held" using assms(2) by (rule id_take_nth_drop)
  have "held ! k \<in> fst ` blocks s" using s(3) assms(2) by simp
  then obtain sz i n where b: "(held ! k, sz, i, n) \<in> blocks s" by auto
  obtain s' where d: "dealloc (held ! k) s = Done s'" "inv s'" "blocks s' = blocks s - {(held ! k, sz, i, n)}"
    using dealloc_law [OF s(1) b] by blast
  have "inj_on fst (blocks s)" using addr_unique [OF s(1)] by (auto intro!: inj_onI)
  then have "fst ` blocks s' = set held - {held ! k}"
    using b unfolding d(3) s(3) [symmetric] by (subst inj_on_image_set_diff) auto
  moreover have "distinct (take k held @ held ! k # drop (Suc k) held)" "set held = set (take k held @ held ! k # drop (Suc k) held)"
    using s(2) split by simp_all
  ultimately show ?thesis using d(1,2) by (auto simp: holds_def)
qed

lemma run_client_safe:
  assumes "holds s held" "\<forall>n. Acquire n \<in> set ops \<longrightarrow> size_ok n"
  shows "\<exists>s' held'. run_client alloc dealloc ops s held = Done (s', held') \<and> holds s' held'"
  using assms
proof (induction ops arbitrary: s held)
  case (Cons op ops)
  show ?case
  proof (cases op)
    case (Acquire n)
    obtain r s' where "alloc n s = Done (r, s')" "holds s' (case r of None \<Rightarrow> held | Some p \<Rightarrow> p # held)"
      using holds_Acquire [OF Cons.prems(1), of n] Cons.prems(2) Acquire by auto
    then show ?thesis using Cons.IH Cons.prems(2) Acquire by simp
  next
    case (Release k)
    show ?thesis
    proof (cases "k < length held")
      case True
      then show ?thesis using holds_Release [OF Cons.prems(1) True] Cons.IH Cons.prems(2) Release by fastforce
    qed (use Cons Release in simp)
  qed
qed simp

end


subsection \<open>A grown allocator serves its clients\<close>

text \<open>
  Without \<^verbatim>\<open>allow_growth\<close> the first request makes the allocator take all of its memory as one region.
  From then on \<open>available\<close> is 0 and the sub-allocator is not called again.
\<close>

definition bfc_acquire :: "'s sub_alloc \<Rightarrow> nat \<Rightarrow> nat \<Rightarrow> nat \<Rightarrow> bfc \<times> 's \<Rightarrow> (nat option \<times> bfc \<times> 's) outcome" where
  "bfc_acquire alloc fuel alignment n x =
     (case AllocateRawInternal alloc fuel alignment n 0 (fst x) (snd x) of None \<Rightarrow> Abort | Some r \<Rightarrow> r)"

definition bfc_release :: "nat \<Rightarrow> bfc \<times> 's \<Rightarrow> (bfc \<times> 's) outcome" where
  "bfc_release p x = obind (DeallocateRawInternal (Some p) (fst x)) (\<lambda>a. Done (a, snd x))"

definition grown :: "bfc \<times> 's \<Rightarrow> bool" where
  "grown x \<longleftrightarrow> bfc_wf (fst x) \<and> available (fst x) = 0"

lemma bfc_acquire_grown:
  assumes g: "grown (a, s)" and n: "n \<le> 2 ^ 63 - 256"
  shows "\<exists>r a'. bfc_acquire alloc fuel al n (a, s) = Done (r, a', s) \<and> grown (a', s) \<and> allocated n r a a'"
proof (cases "n = 0")
  case True
  then show ?thesis using g by (auto simp: bfc_acquire_def AllocateRawInternal_def allocated_def grown_def)
next
  case False
  obtain fl where I: "bfc_inv a fl {}" using g by (auto simp: grown_def bfc_wf_def)
  have rb: "0 < RoundedBytes n" using RoundedBytes_ge [of n] n False by simp
  from False obtain r a1 where f: "FindChunkPtr (BinNumForSize (RoundedBytes n)) (RoundedBytes n) n 0 a = Done (r, a1)"
     "allocated n r a a1" "r = None \<Longrightarrow> a1 = a"
    using FindChunkPtr_allocated [OF I _ n, of 0] by blast
  have "Extend alloc fuel al (RoundedBytes n) a s = Some (Done (False, a, s))"
    using g rb by (simp add: Extend_eq [OF invD(10) [OF I]] grown_def)
  then have "bfc_acquire alloc fuel al n (a, s) = Done (r, a1, s)"
    using False f by (cases r) (simp_all add: bfc_acquire_def AllocateRawInternal_def Let_def)
  moreover have "grown (a1, s)"
    using g f(2) available_growth [OF growth_FindChunkPtr [OF f(1)]] by (simp add: grown_def allocated_def)
  ultimately show ?thesis using f(2) by blast
qed

lemma bfc_release_grown:
  assumes g: "grown (a, s)" and b: "(p, sz, i, n) \<in> live a"
  shows "\<exists>a'. bfc_release p (a, s) = Done (a', s) \<and> grown (a', s) \<and> live a' = live a - {(p, sz, i, n)}"
proof -
  obtain fl where I: "bfc_inv a fl {}" using g by (auto simp: grown_def bfc_wf_def)
  obtain a' fl' where d: "DeallocateRawInternal (Some p) a = Done a'" "bfc_inv a' fl' {}" "live a' = live a - {(p, sz, i, n)}"
    using DeallocateRawInternal_ok [OF I b] by blast
  then show ?thesis using g available_growth [OF growth_DeallocateRawInternal [OF d(1)]]
    by (auto simp: bfc_release_def grown_def bfc_wf_def)
qed

interpretation bfc_client: block_allocator grown "\<lambda>x. live (fst x)" "\<lambda>n. n \<le> 2 ^ 63 - 256"
  "bfc_acquire alloc fuel al" bfc_release
proof
  fix x :: "bfc \<times> 'a" and n :: nat assume a: "grown x" "n \<le> 2 ^ 63 - 256"
  obtain a s where x: "x = (a, s)" by (cases x)
  obtain r a' where r: "bfc_acquire alloc fuel al n x = Done (r, a', s)" "grown (a', s)" "allocated n r a a'"
    using bfc_acquire_grown [of a s n] a x by blast
  have "n \<le> RoundedBytes n" using a(2) by (intro RoundedBytes_ge) simp
  moreover have "(p, sz, next_allocation_id a, n) \<notin> live a" for p sz
    using live_block(5) [of a] a(1) x by (fastforce simp: grown_def)
  ultimately show "\<exists>r x'. bfc_acquire alloc fuel al n x = Done (r, x') \<and> grown x' \<and>
     (case r of None \<Rightarrow> live (fst x') = live (fst x)
      | Some p \<Rightarrow> \<exists>sz i. n \<le> sz \<and> (p, sz, i, n) \<notin> live (fst x) \<and> live (fst x') = insert (p, sz, i, n) (live (fst x)))"
    using r x unfolding allocated_def
    by (intro exI [of _ r] exI [of _ "(a', s)"]) (auto split: option.splits intro: order_trans)
next
  fix x :: "bfc \<times> 'a" and p sz i n assume a: "grown x" "(p, sz, i, n) \<in> live (fst x)"
  then show "\<exists>x'. bfc_release p x = Done x' \<and> grown x' \<and> live (fst x') = live (fst x) - {(p, sz, i, n)}"
    using bfc_release_grown [of "fst x" "snd x"] by force
  show "0 < sz" using a live_block(1) by (auto simp: grown_def)
next
  fix x :: "bfc \<times> 'a" and b b' assume "grown x" "b \<in> live (fst x)" "b' \<in> live (fst x)" "b \<noteq> b'"
  then show "disjoint_blocks b b'" by (auto simp: grown_def intro: live_disjoint)
qed

subsection \<open>Chunks in service\<close>

lemma bin_num_iff:
  assumes I: "bfc_inv a fl {}" and h: "h < length (chunks a)"
  shows "bin_num (chunks a ! h) \<noteq> None \<longleftrightarrow> h \<in> active a fl \<and> \<not> in_use (chunks a ! h)"
proof
  assume b: "bin_num (chunks a ! h) \<noteq> None"
  then have "h \<in> active a fl" using invD(2) [OF I] h by (auto simp: free_list_ok_def active_def)
  then show "h \<in> active a fl \<and> \<not> in_use (chunks a ! h)"
    using binsD(5) [OF invD(5) [OF I], of h] b by (cases "bin_num (chunks a ! h)") auto
next
  assume "h \<in> active a fl \<and> \<not> in_use (chunks a ! h)"
  then show "bin_num (chunks a ! h) \<noteq> None" using invD(6) [OF I] by (auto simp: binned_def)
qed

text \<open>A chunk table entry is in service if it is used or waits in a bin; the other entries are recycled.\<close>

definition in_service :: "bfc \<Rightarrow> handle \<Rightarrow> bool" where
  "in_service a h \<longleftrightarrow> h < length (chunks a) \<and> (in_use (chunks a ! h) \<or> bin_num (chunks a ! h) \<noteq> None)"

lemma in_service_iff:
  assumes I: "bfc_inv a fl {}"
  shows "in_service a h \<longleftrightarrow> h \<in> active a fl"
proof -
  have "in_use (chunks a ! h) \<Longrightarrow> h < length (chunks a) \<Longrightarrow> h \<in> active a fl"
    using invD(2) [OF I] by (auto simp: free_list_ok_def active_def)
  then show ?thesis using bin_num_iff [OF I, of h] active_less [of h a fl] by (auto simp: in_service_def)
qed

subsection \<open>A small allocator\<close>

text \<open>An allocator of 1024 bytes, its one region at address 4096, before and after a request of 100 bytes.\<close>

definition demo_sub :: "nat sub_alloc" where
  "demo_sub s alignment n = (if s = 0 \<and> n \<le> 1024 then (Some 4096, 1) else (None, s))"
lemma demo_upt21: "[0..<21] = [0,1,2,3,4,5,6,7,8,9,10,11,12,13,14,15,16,17,18,19,20::nat]" by (simp add: upt_rec)
lemma demo_bins: "[0..<kNumBins] = [0,1,2,3,4,5,6,7,8,9,10,11,12,13,14,15,16,17,18,19,20::nat]" by (simp add: bfc_consts demo_upt21)
lemma demo_rep21: "replicate 21 x = [x,x,x,x,x,x,x,x,x,x,x,x,x,x,x,x,x,x,x,x,x]" by (simp add: numeral_eq_Suc)
lemma demo_size_class: "BinNumForSize 256 = 0" "BinNumForSize 512 = 1" "BinNumForSize 768 = 1" "BinNumForSize 1024 = 2"
  by (rule BinNumForSize_eq; simp add: bfc_consts)+

lemma demo_grow: "grow_loop 65 256 1024 False = Some (1024, False)" by (simp add: numeral_eq_Suc)


definition demo_bfc :: bfc where
  "demo_bfc = \<lparr>memory_limit = 1024, curr_region_allocation_bytes = 2048, total_region_allocated_bytes = 1024,
     started_backpedal = False,
     bins = [[], [1], [], [], [], [], [], [], [], [], [], [], [], [], [], [], [], [], [], [], []],
     regions = [\<lparr>rptr = 4096, memory_size = 1024, handles = [Some 0, Some 1, None, None]\<rparr>],
     chunks = [\<lparr>csize = 256, requested_size = 100, allocation_id = 1, cptr = 4096, cprev = None, cnext = Some 1, bin_num = None, freed_count = 0\<rparr>,
               \<lparr>csize = 768, requested_size = 0, allocation_id = -1, cptr = 4352, cprev = Some 0, cnext = None, bin_num = Some 1, freed_count = 0\<rparr>],
     free_chunks_list = None, next_allocation_id = 2,
     stats = \<lparr>num_allocs = 1, bytes_in_use = 256, peak_bytes_in_use = 256, largest_alloc_size = 256, bytes_limit = Some 1024\<rparr>,
     timing_counter = None\<rparr>"
lemma demo_rep4: "replicate 4 x = [x, x, x, x]" by (simp add: numeral_eq_Suc)

lemmas bfc_eval = FindChunkPtr_def AllocateChunk_def ChunkFromHandle_def new_chunk_def upd_chunk_def set_region_handle_def set_handle_def get_handle_def
  IndexFor_def end_ptr_def InsertFreeChunkIntoBin_def RemoveFreeChunkIterFromBin_def RemoveFreeChunkFromBin_def SplitChunk_def Merge_def DeleteChunk_def DeallocateChunk_def
  mark_used_def mark_free_def should_split_def kMaxInternalFragmentation_def wrap64_def in_use_def Let_def chunk_less_def bfc_consts demo_upt21 demo_rep21 demo_rep4 demo_size_class RoundedBytes_def

definition demo_grown :: bfc where
  "demo_grown = \<lparr>memory_limit = 1024, curr_region_allocation_bytes = 2048, total_region_allocated_bytes = 1024,
     started_backpedal = False,
     bins = [[], [], [0], [], [], [], [], [], [], [], [], [], [], [], [], [], [], [], [], [], []],
     regions = [\<lparr>rptr = 4096, memory_size = 1024, handles = [Some 0, None, None, None]\<rparr>],
     chunks = [\<lparr>csize = 1024, requested_size = 0, allocation_id = -1, cptr = 4096, cprev = None, cnext = None,
                bin_num = Some 2, freed_count = 0\<rparr>],
     free_chunks_list = None, next_allocation_id = 1,
     stats = \<lparr>num_allocs = 0, bytes_in_use = 0, peak_bytes_in_use = 0, largest_alloc_size = 0, bytes_limit = Some 1024\<rparr>,
     timing_counter = None\<rparr>"

lemma demo_Extend: "Extend demo_sub 65 64 256 (BFCAllocator 1024 False) 0 = Some (Done (True, demo_grown, 1))"
 by (simp add: Extend_def BFCAllocator_def bfc_eval demo_grow min_def request_region_def demo_sub_def add_region_def new_region_def demo_grown_def)

lemma demo_find0: "FindChunkPtr 0 256 100 0 (BFCAllocator 1024 False) = Done (None, BFCAllocator 1024 False)"
 by (simp add: FindChunkPtr_def demo_bins, simp add: BFCAllocator_def bfc_eval)
lemma demo_find1: "FindChunkPtr 0 256 100 0 demo_grown = Done (Some 4096, demo_bfc)"
 by (simp add: FindChunkPtr_def demo_bins, simp add: demo_grown_def bfc_eval, simp add: demo_bfc_def)
lemma demo_alloc: "AllocateRawInternal demo_sub 65 64 100 0 (BFCAllocator 1024 False) 0 = Some (Done (Some 4096, demo_bfc, 1))"
 by (simp add: AllocateRawInternal_def RoundedBytes_def bfc_consts wrap64_def Let_def demo_size_class demo_find0 demo_find1 demo_Extend)

end
