(* ===== verification/Bfc_Properties.thy ===== *)
theory Bfc_Properties
  imports Bfc_Correct
begin

text \<open>
  The properties of the allocator, each with the concrete state of \<open>Bfc_Correct\<close> as its witness.
\<close>

lemma demo_empty_wf: "bfc_wf (BFCAllocator 1024 False)" "bfc_wf (BFCAllocator 4096 False)"
  using BFCAllocator_inv(1) [of 1024 False] BFCAllocator_inv(1) [of 4096 False] by (auto simp: bfc_wf_def)

lemma demo_sub_ok: "sub_alloc_ok demo_sub (extents_of (regions (BFCAllocator 1024 False)))"
  by (auto simp: sub_alloc_ok_def demo_sub_def BFCAllocator_def extents_of_def split: if_splits)

lemma demo_bfc_wf: "bfc_wf demo_bfc"
  using AllocateRawInternal_ok [OF demo_empty_wf(1) _ demo_sub_ok demo_alloc] by (auto simp: allocated_def)

lemma live_code: "live a = set (map block_of (filter in_use (chunks a)))"
  by (simp add: live_def)

lemma demo_live: "live demo_bfc = {(4096, 256, 1, 100)}"
  by (simp add: live_code demo_bfc_def in_use_def block_of_def)

lemma demo_extents: "extents_of (regions demo_bfc) = {(4096, 5120)}"
  by (simp add: extents_of_def demo_bfc_def end_ptr_def)

lemma demo_grown_state: "grown (demo_bfc, s)"
  using demo_bfc_wf by (simp add: grown_def available_def demo_bfc_def)

text \<open>The same allocator after a second request, and after the first block was freed again.\<close>

definition demo_two :: bfc where
  "demo_two = demo_bfc\<lparr>
     bins := [[], [2], [], [], [], [], [], [], [], [], [], [], [], [], [], [], [], [], [], [], []],
     regions := [\<lparr>rptr = 4096, memory_size = 1024, handles = [Some 0, Some 1, Some 2, None]\<rparr>],
     chunks := [\<lparr>csize = 256, requested_size = 100, allocation_id = 1, cptr = 4096, cprev = None, cnext = Some 1, bin_num = None, freed_count = 0\<rparr>,
               \<lparr>csize = 256, requested_size = 100, allocation_id = 2, cptr = 4352, cprev = Some 0, cnext = Some 2, bin_num = None, freed_count = 0\<rparr>,
               \<lparr>csize = 512, requested_size = 0, allocation_id = -1, cptr = 4608, cprev = Some 1, cnext = None, bin_num = Some 1, freed_count = 0\<rparr>],
     next_allocation_id := 3,
     stats := \<lparr>num_allocs = 2, bytes_in_use = 512, peak_bytes_in_use = 512, largest_alloc_size = 256, bytes_limit = Some 1024\<rparr>\<rparr>"

definition demo_hole :: bfc where
  "demo_hole = demo_two\<lparr>
     bins := [[0], [2], [], [], [], [], [], [], [], [], [], [], [], [], [], [], [], [], [], [], []],
     chunks := [\<lparr>csize = 256, requested_size = 100, allocation_id = -1, cptr = 4096, cprev = None, cnext = Some 1, bin_num = Some 0, freed_count = 0\<rparr>,
               \<lparr>csize = 256, requested_size = 100, allocation_id = 2, cptr = 4352, cprev = Some 0, cnext = Some 2, bin_num = None, freed_count = 0\<rparr>,
               \<lparr>csize = 512, requested_size = 0, allocation_id = -1, cptr = 4608, cprev = Some 1, cnext = None, bin_num = Some 1, freed_count = 0\<rparr>],
     stats := \<lparr>num_allocs = 2, bytes_in_use = 256, peak_bytes_in_use = 512, largest_alloc_size = 256, bytes_limit = Some 1024\<rparr>\<rparr>"

lemma demo_find2: "FindChunkPtr 0 256 100 0 demo_bfc = Done (Some 4352, demo_two)"
  by (simp add: FindChunkPtr_def demo_bins, simp add: demo_bfc_def demo_two_def bfc_eval)

lemma demo_free: "DeallocateRawInternal (Some 4096) demo_two = Done demo_hole"
  by (simp add: DeallocateRawInternal_def FreeAndMaybeCoalesce_def demo_hole_def demo_two_def demo_bfc_def,
      simp add: bfc_eval)

lemma demo_hole_wf: "bfc_wf demo_hole" "live demo_hole = {(4352, 256, 2, 100)}"
proof -
  obtain fl where I: "bfc_inv demo_bfc fl {}" using demo_bfc_wf by (auto simp: bfc_wf_def)
  have c: "RoundedBytes 100 = 256" by (simp add: RoundedBytes_def bfc_consts wrap64_def)
  have "bfc_wf demo_two"
    using FindChunkPtr_allocated [OF I, of 100 0] demo_find2 by (auto simp: c demo_size_class allocated_def)
  moreover have l2: "live demo_two = {(4096, 256, 1, 100), (4352, 256, 2, 100)}"
    by (simp add: live_code demo_two_def in_use_def block_of_def)
  ultimately obtain a' fl' where "DeallocateRawInternal (Some 4096) demo_two = Done a'" "bfc_inv a' fl' {}"
    using DeallocateRawInternal_ok [of demo_two _ 4096 256 1 100] unfolding bfc_wf_def by blast
  then show "bfc_wf demo_hole" using demo_free by (auto simp: bfc_wf_def)
  show "live demo_hole = {(4352, 256, 2, 100)}" by (simp add: live_code demo_hole_def in_use_def block_of_def)
qed



text \<open>
  C24: freeing a live block hits no \<^verbatim>\<open>CHECK\<close>, leaves a well-formed allocator and removes exactly that block.
\<close>

theorem DeallocateRaw_correct:
  assumes "bfc_wf a" "(p, sz, i, n) \<in> live a"
  shows "\<exists>a'. DeallocateRawInternal (Some p) a = Done a' \<and> bfc_wf a' \<and> live a' = live a - {(p, sz, i, n)}"
  using assms DeallocateRawInternal_ok unfolding bfc_wf_def by blast

theorem DeallocateRaw_correct_witness:
  "\<exists>a'. DeallocateRawInternal (Some 4096) demo_bfc = Done a' \<and> bfc_wf a' \<and> live a' = {}"
  using DeallocateRaw_correct [OF demo_bfc_wf, of 4096 256 1 100] by (simp add: demo_live)

text \<open>
  the blocks handed out are pairwise disjoint, and each lies inside one region, starts a multiple of
  256 bytes into it and has a positive size that is a multiple of 256.
\<close>

theorem live_blocks_safe:
  assumes "bfc_wf a" "(p, sz, i, n) \<in> live a"
  shows "0 < sz \<and> 256 dvd sz \<and> (\<exists>(b, e) \<in> extents_of (regions a). b \<le> p \<and> p + sz \<le> e \<and> 256 dvd p - b) \<and>
     (\<forall>b \<in> live a. b \<noteq> (p, sz, i, n) \<longrightarrow> disjoint_blocks (p, sz, i, n) b)"
  using live_block [OF assms] live_disjoint [OF assms(1) assms(2)] by blast

theorem live_blocks_safe_witness:
  "\<exists>(b, e) \<in> {(4096, 5120)}. b \<le> (4096::nat) \<and> 4096 + 256 \<le> (e::nat) \<and> (256::nat) dvd 4096 - b"
  using live_blocks_safe [OF demo_bfc_wf, of 4096 256 1 100] by (simp add: demo_live demo_extents)

text \<open>
  the chunks in service tile the regions: every byte of a region belongs to exactly one of them.
\<close>

theorem chunks_tile_regions:
  assumes "bfc_wf a" "(b, e) \<in> extents_of (regions a)" "b \<le> q" "q < e"
  shows "\<exists>!h. in_service a h \<and> cptr (chunks a ! h) \<le> q \<and> q < cptr (chunks a ! h) + csize (chunks a ! h)"
proof -
  obtain fl where I: "bfc_inv a fl {}" using assms(1) by (auto simp: bfc_wf_def)
  have d: "disj_ok (active a fl) (cs_of a)" and "cover_ok (active a fl) (cs_of a) (extents_of (regions a))"
    using invD(3) [OF I] by (auto simp: layout_ok_def)
  then obtain h where h: "h \<in> active a fl" "cptr (cs_of a h) \<le> q" "q < cptr (cs_of a h) + csize (cs_of a h)"
    using assms(2-) unfolding cover_ok_def by blast
  show ?thesis
    unfolding in_service_iff [OF I]
  proof (rule ex1I [of _ h])
    fix k assume "k \<in> active a fl \<and> cptr (cs_of a k) \<le> q \<and> q < cptr (cs_of a k) + csize (cs_of a k)"
    then show "k = h" using disjD [OF d h(1), of k] h by (cases "k = h") auto
  qed (use h in simp)
qed

theorem chunks_tile_regions_witness:
  "\<exists>!h. in_service demo_bfc h \<and> cptr (chunks demo_bfc ! h) \<le> 4400 \<and> 4400 < cptr (chunks demo_bfc ! h) + csize (chunks demo_bfc ! h)"
  by (rule chunks_tile_regions [OF demo_bfc_wf, of 4096 5120]) (simp_all add: demo_extents)

text \<open>
  free memory is coalesced: the neighbour after a free chunk is in use.
\<close>

theorem free_chunks_coalesced:
  assumes "bfc_wf a" "h < length (chunks a)" "bin_num (chunks a ! h) \<noteq> None" "cnext (chunks a ! h) = Some k"
  shows "k < length (chunks a) \<and> in_use (chunks a ! k) \<and> cptr (chunks a ! k) = cptr (chunks a ! h) + csize (chunks a ! h)"
proof -
  obtain fl where I: "bfc_inv a fl {}" using assms(1) by (auto simp: bfc_wf_def)
  have h: "h \<in> active a fl" "\<not> in_use (chunks a ! h)" using bin_num_iff [OF I assms(2)] assms(3) by auto
  have n: "next_ok (active a fl) (cs_of a) (extents_of (regions a))" using invD(3) [OF I] by (simp add: layout_ok_def)
  then show ?thesis
    using next_in_use(1) [OF I h assms(4)] nextD [OF n h(1), of k] assms(4) active_less [of k a fl] by simp
qed

theorem free_chunks_coalesced_witness: "in_use (chunks demo_hole ! 1)"
  using free_chunks_coalesced [OF demo_hole_wf(1), of 0 1] by (simp add: demo_hole_def)

text \<open>
  the counter \<^verbatim>\<open>stats_.bytes_in_use\<close> is the total size of the live blocks.
\<close>

theorem bytes_in_use_exact:
  assumes "bfc_wf a"
  shows "bytes_in_use (stats a) = (\<Sum>(p, sz, i, n) \<in> live a. int sz)"
  using assms by (rule live_bytes)

theorem bytes_in_use_exact_witness: "bytes_in_use (stats demo_bfc) = 256"
  using bytes_in_use_exact [OF demo_bfc_wf] by (simp add: demo_live)



text \<open>
  a request fails only if it cannot be served: no free chunk that the \<^verbatim>\<open>freed_before\<close> bound admits is large
  enough, and \<^verbatim>\<open>Extend\<close> could not add a region.
\<close>

theorem AllocateRaw_fails_only_when_full:
  assumes "bfc_wf a" "0 < nb" "nb \<le> 2 ^ 63 - 256" "sub_alloc_ok alloc (extents_of (regions a))"
    and "AllocateRawInternal alloc fuel al nb fb a s = Some (Done (None, a', s'))"
  shows "Extend alloc fuel al (RoundedBytes nb) a s = Some (Done (False, a', s')) \<and>
     (\<forall>c \<in> set (chunks a). bin_num c \<noteq> None \<longrightarrow> csize c < RoundedBytes nb \<or> (0 < fb \<and> fb < freed_count c))"
  using AllocateRawInternal_None [OF assms] by blast

theorem AllocateRaw_fails_only_when_full_witness:
  "Extend (\<lambda>s al n. (None, s)) 65 64 1024 demo_bfc (1::nat) = Some (Done (False, demo_bfc, 1)) \<and>
   csize (chunks demo_bfc ! 1) < 1024"
proof -
  have c: "RoundedBytes 1000 = 1024" by (simp add: RoundedBytes_def bfc_consts wrap64_def)
  have "FindChunkPtr 2 1024 1000 0 demo_bfc = Done (None, demo_bfc)"
    by (simp add: FindChunkPtr_def upt_rec bfc_consts, simp add: demo_bfc_def)
  moreover have "Extend (\<lambda>s al n. (None, s)) 65 64 1024 demo_bfc (1::nat) = Some (Done (False, demo_bfc, 1))"
    by (simp add: Extend_def demo_bfc_def bfc_consts wrap64_def Let_def)
  ultimately have "AllocateRawInternal (\<lambda>s al n. (None, s)) 65 64 1000 0 demo_bfc (1::nat) = Some (Done (None, demo_bfc, 1))"
    by (simp add: AllocateRawInternal_def c demo_size_class Let_def)
  moreover have "sub_alloc_ok (\<lambda>s al n. (None, s::nat)) (extents_of (regions demo_bfc))" by (simp add: sub_alloc_ok_def)
  moreover have "chunks demo_bfc ! 1 \<in> set (chunks demo_bfc)" "bin_num (chunks demo_bfc ! 1) \<noteq> None"
    by (simp_all add: demo_bfc_def)
  ultimately show ?thesis
    using AllocateRaw_fails_only_when_full [OF demo_bfc_wf, of 1000 "\<lambda>s al n. (None, s)" 65 64 0 "1::nat" demo_bfc 1]
    unfolding c by fastforce
qed

text \<open>
  \<^verbatim>\<open>RequestedSize\<close>, \<^verbatim>\<open>AllocatedSize\<close> and \<^verbatim>\<open>AllocationId\<close> of a live block return what was recorded when it
  was handed out.
\<close>

theorem size_queries_correct:
  assumes "bfc_wf a" "(p, sz, i, n) \<in> live a"
  shows "RequestedSize (Some p) a = Done n \<and> AllocatedSize p a = Done sz \<and> AllocationId p a = Done i"
  using assms lookup_chunk_ok unfolding bfc_wf_def by blast

theorem size_queries_correct_witness:
  "RequestedSize (Some 4096) demo_bfc = Done 100 \<and> AllocatedSize 4096 demo_bfc = Done 256 \<and> AllocationId 4096 demo_bfc = Done 1"
  by (rule size_queries_correct [OF demo_bfc_wf]) (simp add: demo_live)

text \<open>
  C25: an allocator that has taken all of its memory serves every client: whatever sequence of requests and
  releases of held blocks the client makes, no call aborts or fails to return, the addresses the client holds
  are distinct, and they are exactly the addresses of the live blocks.
\<close>

theorem client_never_aborts:
  assumes "grown (a, s)" "distinct held" "fst ` live a = set held"
    and "\<forall>n. Acquire n \<in> set ops \<longrightarrow> n \<le> 2 ^ 63 - 256"
  shows "\<exists>a' s' held'. run_client (bfc_acquire alloc fuel al) bfc_release ops (a, s) held = Done ((a', s'), held') \<and>
     bfc_wf a' \<and> distinct held' \<and> fst ` live a' = set held'"
proof -
  have "bfc_client.holds (a, s) held" using assms(1-3) by (simp add: bfc_client.holds_def)
  from bfc_client.run_client_safe [OF this assms(4), of alloc fuel al]
  obtain x held' where "run_client (bfc_acquire alloc fuel al) bfc_release ops (a, s) held = Done (x, held')"
    "bfc_client.holds x held'" by blast
  then show ?thesis by (cases x) (auto simp: bfc_client.holds_def grown_def)
qed

theorem client_never_aborts_witness:
  "\<exists>a' s' held'. run_client (bfc_acquire demo_sub 65 64) bfc_release [Acquire 300, Release 1, Acquire 5000, Release 0]
     (demo_bfc, 1) [4096] = Done ((a', s'), held') \<and> bfc_wf a' \<and> distinct held' \<and> fst ` live a' = set held'"
  by (rule client_never_aborts [OF demo_grown_state]) (auto simp: demo_live)

text \<open>
  \<^verbatim>\<open>RoundedBytes\<close> rounds up to the next multiple of 256, except that a request within 255 bytes of \<open>2 ^ 64\<close>
  wraps around to 0.
\<close>

theorem RoundedBytes_spec:
  assumes "n < 2 ^ 64"
  shows "RoundedBytes n = (if n + 255 < 2 ^ 64 then (LEAST m. n \<le> m \<and> 256 dvd m) else 0)"
proof (cases "n + 255 < 2 ^ 64")
  case True
  have "(LEAST m. n \<le> m \<and> 256 dvd m) = RoundedBytes n"
  proof (rule Least_equality)
    show "n \<le> RoundedBytes n \<and> 256 dvd RoundedBytes n" using RoundedBytes_ge [OF True] by simp
    fix m assume m: "n \<le> m \<and> 256 dvd m"
    obtain j where "RoundedBytes n = 256 * j" using dvdE [OF RoundedBytes_dvd [of n]] .
    then show "RoundedBytes n \<le> m" using RoundedBytes_less [OF True] m by (auto elim!: dvdE)
  qed
  then show ?thesis using True by simp
next
  case False
  then have "wrap64 (255 + n) = n + 255 - 2 ^ 64" using assms by (simp add: wrap64_def mod_if)
  then show ?thesis using False assms by (simp add: RoundedBytes_def bfc_consts)
qed

theorem RoundedBytes_spec_witness: "RoundedBytes (2 ^ 64 - 1) = 0"
  using RoundedBytes_spec [of "2 ^ 64 - 1"] by simp

text \<open>
  the size class of \<open>n\<close> bytes is the one whose range \<open>[256 * 2 ^ b, 2 * 256 * 2 ^ b)\<close> holds \<open>n\<close>, the last
  class taking everything beyond, so a larger size never gets a smaller class; the checks the constructor
  runs on every class hold.
\<close>

theorem size_classes_correct:
  assumes "256 \<le> n" "n < 2 ^ 64" "n \<le> m" "m < 2 ^ 64"
  shows "constructor_checks \<and> BinNumForSize n < kNumBins \<and> BinNumForSize n \<le> BinNumForSize m \<and> BinNumToSize (BinNumForSize n) \<le> n \<and>
     (BinNumForSize n < kNumBins - 1 \<longrightarrow> n < 2 * BinNumToSize (BinNumForSize n))"
  using constructor_checks BinNumForSize_less BinNumForSize_mono [of n m] BinNumForSize_bounds [of n] BinNumToSize_eq assms
  by simp

theorem size_classes_correct_witness: "BinNumForSize 1000 < kNumBins \<and> BinNumForSize 1000 \<le> BinNumForSize 5000"
  using size_classes_correct [of 1000 5000] by simp



end
