(* ===== verification/Kernel_Sim.thy ===== *)
theory Kernel_Sim
  imports Prelude
begin

text \<open>
  The co-location simulator, \<^verbatim>\<open>KernelSim/src/App.h\<close> and \<^verbatim>\<open>simColocation\<close> of
  \<^verbatim>\<open>KernelSim/src/KernelSim.cpp\<close>: applications are trees of GPU kernels and memory copies, and a
  discrete-event simulation runs several of them on one GPU, one kernel at a time, memory copies of
  the same direction sharing the bus.

  Kernels live in a store and pointers to kernels are indices into it. The priority queue is the list
  of its elements; which of several events with the least time \<^verbatim>\<open>top()\<close> returns is left open, so the
  simulation is a step relation with an executable step function per event. Printing is left out,
  except where it changes what the program does.
\<close>

text \<open>The operations on \<^verbatim>\<open>double\<close> are the parameter \<open>F\<close> of every definition, a record of the prelude.\<close>

subsection \<open>App.h: kernels, applications, events\<close>

record 'd kernel =
  k_appid :: nat
  k_type :: nat
  k_stream :: int
  k_start :: 'd
  k_length :: 'd
  k_end :: 'd
  k_bw :: 'd
  k_next :: "nat list"
  k_parent :: "nat option"

definition computeEnd :: "'d dops \<Rightarrow> 'd kernel \<Rightarrow> 'd kernel" where
  "computeEnd F k = k\<lparr>k_end := d_add F (k_start k) (k_length k)\<rparr>"

definition Kernel :: "'d dops \<Rightarrow> nat \<Rightarrow> nat \<Rightarrow> int \<Rightarrow> 'd \<Rightarrow> 'd \<Rightarrow> 'd \<Rightarrow> 'd kernel" where
  "Kernel F a t s st l b = computeEnd F
     \<lparr>k_appid = a, k_type = t, k_stream = s, k_start = st, k_length = l, k_end = st, k_bw = b,
      k_next = [], k_parent = None\<rparr>"

definition setStart :: "'d dops \<Rightarrow> 'd \<Rightarrow> 'd kernel \<Rightarrow> 'd kernel" where
  "setStart F s k = computeEnd F (k\<lparr>k_start := s\<rparr>)"

definition setLength :: "'d dops \<Rightarrow> 'd \<Rightarrow> 'd kernel \<Rightarrow> 'd kernel" where
  "setLength F l k = computeEnd F (k\<lparr>k_length := l\<rparr>)"

text \<open>\<^verbatim>\<open>Kernel::setKernel\<close> copies neither \<^verbatim>\<open>bw\<close> nor the successors.\<close>

definition Kernel_setKernel :: "'d dops \<Rightarrow> 'd kernel \<Rightarrow> 'd kernel \<Rightarrow> 'd kernel" where
  "Kernel_setKernel F k this = (computeEnd F (this\<lparr>k_appid := k_appid k, k_type := k_type k,
     k_stream := k_stream k, k_start := k_start k, k_length := k_length k\<rparr>))\<lparr>k_parent := k_parent k\<rparr>"

text \<open>\<^verbatim>\<open>addNextKernel\<close> on the store: \<open>None\<close> for the result \<^verbatim>\<open>false\<close>.\<close>

definition addNextKernel :: "nat \<Rightarrow> nat \<Rightarrow> 'd kernel list \<Rightarrow> 'd kernel list option" where
  "addNextKernel this k ks =
     (if list_ex (\<lambda>n. k_type (ks ! k) = k_type (ks ! n)) (k_next (ks ! this)) then None
      else Some (ks[this := (ks ! this)\<lparr>k_next := k_next (ks ! this) @ [k]\<rparr>]))"

record 'd app =
  a_name :: string
  a_first :: nat
  a_last :: nat
  a_length :: 'd
  a_lengthCPU :: 'd
  a_lengthGPU :: 'd
  a_CPUslow :: 'd

record 'd event =
  e_type :: nat
  e_stream :: int
  e_status :: nat
  e_time :: 'd
  e_length :: 'd
  e_bw :: 'd
  e_kernel :: nat

text \<open>
  \<^verbatim>\<open>Event newEvt; newEvt.setKernel(cur); newEvt.setTime(t); newEvt.setStatus(1)\<close>. The default
  constructor sets \<^verbatim>\<open>bw\<close> to 0 and \<^verbatim>\<open>Event::setKernel\<close> leaves it there.
\<close>

definition submit :: "'d dops \<Rightarrow> 'd kernel list \<Rightarrow> nat \<Rightarrow> 'd \<Rightarrow> 'd event" where
  "submit F ks cur t =
     \<lparr>e_type = k_type (ks ! cur), e_stream = k_stream (ks ! cur), e_status = 1, e_time = t,
      e_length = k_length (ks ! cur), e_bw = d_int F 0, e_kernel = cur\<rparr>"

subsection \<open>simColocation: state\<close>

text \<open>
  The local variables of \<^verbatim>\<open>simColocation\<close>: the queue, \<^verbatim>\<open>count\<close> and \<^verbatim>\<open>bw\<close> by event type, \<^verbatim>\<open>loop\<close>, \<^verbatim>\<open>ac\<close> and
  \<^verbatim>\<open>rt\<close> by application (\<^verbatim>\<open>rt\<close> is not initialised), \<^verbatim>\<open>k_sch\<close> and \<^verbatim>\<open>now\<close>.
\<close>

record 'd sim =
  queue :: "'d event list"
  count :: "nat \<Rightarrow> int"
  bw :: "nat \<Rightarrow> 'd"
  loop :: "nat \<Rightarrow> int"
  ac :: "nat \<Rightarrow> int"
  rt :: "nat \<Rightarrow> 'd option"
  k_sch :: 'd
  now :: 'd

definition init_loop :: "'d dops \<Rightarrow> 'd \<Rightarrow> 'd app \<Rightarrow> int" where
  "init_loop F max_time a = (let l = d_trunc F (d_div F max_time (a_length a)) in if l < 1 then 1 else l)"

definition sim_init :: "'d dops \<Rightarrow> 'd \<Rightarrow> 'd app list \<Rightarrow> 'd kernel list \<Rightarrow> 'd sim" where
  "sim_init F max_time apps ks =
     \<lparr>queue = rev (map (\<lambda>a. submit F ks (a_first a) (k_start (ks ! a_first a))) apps),
      count = (\<lambda>_. 0), bw = (\<lambda>_. d_int F 0),
      loop = (\<lambda>i. if i < length apps then init_loop F max_time (apps ! i) else 0),
      ac = (\<lambda>i. if i < length apps then 1 else 0),
      rt = (\<lambda>_. None), k_sch = d_int F 0, now = d_int F 0\<rparr>"

subsection \<open>simColocation: one event\<close>

text \<open>
  What one round of the loop does: carry on, leave \<^verbatim>\<open>simColocation\<close> with \<^verbatim>\<open>false\<close>, or read \<^verbatim>\<open>top()\<close> of an
  empty queue, which is undefined behaviour.
\<close>

datatype 's round = Go 's | Return_false | Undefined

definition wait_until :: "'d dops \<Rightarrow> 'd \<Rightarrow> 'd event \<Rightarrow> 'd event" where
  "wait_until F ks e = e\<lparr>e_time := d_add F (d_add F (e_time e) (d_sub F ks (e_time e))) (d_eps F)\<rparr>"

text \<open>Case 1, type 1: a submitted kernel starts if the GPU is idle, and else is put off.\<close>

definition submitted_kernel :: "'d dops \<Rightarrow> int \<Rightarrow> 'd event \<Rightarrow> 'd event list \<Rightarrow> 'd sim \<Rightarrow> 'd sim round" where
  "submitted_kernel F verb e rest s =
     (if count s 1 = 0 then
        let e' = e\<lparr>e_status := 2, e_time := d_add F (e_time e) (e_length e)\<rparr> in
        Go (s\<lparr>count := (count s)(1 := count s 1 + 1), k_sch := e_time e', queue := e' # rest, now := e_time e\<rparr>)
      else
        let e' = wait_until F (k_sch s) e in
        if verb \<ge> 1 \<and> d_eq F (e_time e) (e_time e') then Return_false
        else Go (s\<lparr>queue := e' # rest, now := e_time e\<rparr>))"

text \<open>
  Case 1, other types: a submitted memory copy starts at once. With \<open>c\<close> copies of its direction under way,
  it takes \<open>c\<close> times its length, and what is left of the others grows by \<open>c / (c - 1)\<close>. Every event is
  popped into a second queue and pushed back once.
\<close>

definition delay :: "'d dops \<Rightarrow> nat \<Rightarrow> 'd \<Rightarrow> int \<Rightarrow> int \<Rightarrow> 'd event \<Rightarrow> 'd event" where
  "delay F ty t num den e =
     (if e_type e = ty \<and> e_status e = 2
      then e\<lparr>e_time := d_add F (d_div F (d_mul F (d_sub F (e_time e) t) (d_int F num)) (d_int F den)) t\<rparr>
      else e)"

definition submitted_memcpy :: "'d dops \<Rightarrow> int \<Rightarrow> 'd event \<Rightarrow> 'd event list \<Rightarrow> 'd sim \<Rightarrow> 'd sim round" where
  "submitted_memcpy F verb e rest s =
     (let ty = e_type e; t = e_time e; c = count s ty + 1;
          e' = e\<lparr>e_status := 2, e_time := d_add F t (d_mul F (e_length e) (d_int F c))\<rparr>;
          s1 = s\<lparr>count := (count s)(ty := c), bw := (bw s)(ty := d_add F (bw s ty) (e_bw e)), now := t\<rparr> in
      if verb \<ge> 2 \<and> rest = [] then Undefined
      else if c = 1 then Go (s1\<lparr>queue := e' # rest\<rparr>)
      else Go (s1\<lparr>queue := map (delay F ty t c (c - 1)) rest @ [e']\<rparr>))"

text \<open>
  The successors of a finished kernel or copy are submitted. The gap to the successor in the profile is
  stretched by the slowdown of the CPU: the code takes \<^verbatim>\<open>CPUslow\<close> of the finished kernel's application
  after a kernel and of the successor's application after a copy.
\<close>

definition submit_next :: "'d dops \<Rightarrow> 'd kernel list \<Rightarrow> 'd \<Rightarrow> nat \<Rightarrow> (nat \<Rightarrow> 'd) \<Rightarrow> nat \<Rightarrow> 'd sim \<Rightarrow> 'd sim" where
  "submit_next F ks t k slow cur s =
     s\<lparr>queue := submit F ks cur (d_add F t (d_mul F (d_sub F (k_start (ks ! cur)) (k_end (ks ! k)))
                  (d_add F (d_int F 1) (slow cur)))) # queue s,
       ac := (ac s)(k_appid (ks ! cur) := ac s (k_appid (ks ! cur)) + 1)\<rparr>"

definition submit_nexts :: "'d dops \<Rightarrow> 'd kernel list \<Rightarrow> 'd \<Rightarrow> nat \<Rightarrow> (nat \<Rightarrow> 'd) \<Rightarrow> 'd sim \<Rightarrow> 'd sim" where
  "submit_nexts F ks t k slow s = fold (submit_next F ks t k slow) (k_next (ks ! k)) s"

text \<open>
  \<^verbatim>\<open>if(ac[aid] == 0)\<close>: an application with no event left starts its next iteration or records its end.
\<close>

definition end_of_iteration :: "'d dops \<Rightarrow> 'd app list \<Rightarrow> 'd kernel list \<Rightarrow> 'd \<Rightarrow> nat \<Rightarrow> 'd sim \<Rightarrow> 'd sim" where
  "end_of_iteration F apps ks t aid s =
     (if ac s aid = 0 then
        if loop s aid > 1 then
          let cur = a_first (apps ! aid) in
          s\<lparr>queue := submit F ks cur (d_add F (k_start (ks ! cur)) t) # queue s,
            loop := (loop s)(aid := loop s aid - 1), ac := (ac s)(aid := ac s aid + 1)\<rparr>
        else s\<lparr>rt := (rt s)(aid \<mapsto> t)\<rparr>
      else s)"

text \<open>Case 2, type 1.\<close>

definition finished_kernel :: "'d dops \<Rightarrow> 'd app list \<Rightarrow> 'd kernel list \<Rightarrow> 'd event \<Rightarrow> 'd event list \<Rightarrow> 'd sim \<Rightarrow> 'd sim" where
  "finished_kernel F apps ks e rest s =
     submit_nexts F ks (e_time e) (e_kernel e) (\<lambda>_. a_CPUslow (apps ! k_appid (ks ! e_kernel e)))
       (s\<lparr>count := (count s)(1 := count s 1 - 1), k_sch := d_int F 0, queue := rest\<rparr>)"

text \<open>Case 2, other types: the copies of the same direction that are left get the bus share back.\<close>

definition finished_memcpy :: "'d dops \<Rightarrow> 'd app list \<Rightarrow> 'd kernel list \<Rightarrow> 'd event \<Rightarrow> 'd event list \<Rightarrow> 'd sim \<Rightarrow> 'd sim" where
  "finished_memcpy F apps ks e rest s =
     (let ty = e_type e; c = count s ty - 1;
          s1 = submit_nexts F ks (e_time e) (e_kernel e) (\<lambda>cur. a_CPUslow (apps ! k_appid (ks ! cur)))
                 (s\<lparr>count := (count s)(ty := c), bw := (bw s)(ty := d_sub F (bw s ty) (e_bw e)), queue := rest\<rparr>) in
      if c \<ge> 1 then s1\<lparr>queue := map (delay F ty (e_time e) c (c + 1)) (queue s1)\<rparr> else s1)"

definition finished :: "'d dops \<Rightarrow> 'd app list \<Rightarrow> 'd kernel list \<Rightarrow> 'd event \<Rightarrow> 'd event list \<Rightarrow> 'd sim \<Rightarrow> 'd sim" where
  "finished F apps ks e rest s =
     (let aid = k_appid (ks ! e_kernel e); s0 = s\<lparr>ac := (ac s)(aid := ac s aid - 1), now := e_time e\<rparr> in
      end_of_iteration F apps ks (e_time e) aid
        (if e_type e = 1 then finished_kernel F apps ks e rest s0 else finished_memcpy F apps ks e rest s0))"

text \<open>One round of the loop on the event \<open>e\<close> that \<^verbatim>\<open>top()\<close> returned.\<close>

definition sim_round :: "'d dops \<Rightarrow> int \<Rightarrow> 'd app list \<Rightarrow> 'd kernel list \<Rightarrow> 'd event \<Rightarrow> 'd sim \<Rightarrow> 'd sim round" where
  "sim_round F verb apps ks e s =
     (let rest = remove1 e (queue s) in
      if e_status e = 1 then
        if e_type e = 1 then submitted_kernel F verb e rest s else submitted_memcpy F verb e rest s
      else if e_status e = 2 then Go (finished F apps ks e rest s)
      else Go (s\<lparr>now := e_time e\<rparr>))"

subsection \<open>simColocation: the loop\<close>

text \<open>An event that \<^verbatim>\<open>top()\<close> may return: no other event is earlier.\<close>

definition is_top :: "'d dops \<Rightarrow> 'd event \<Rightarrow> 'd sim \<Rightarrow> bool" where
  "is_top F e s \<longleftrightarrow> e \<in> set (queue s) \<and> list_all (\<lambda>e'. \<not> d_lt F (e_time e') (e_time e)) (queue s)"

inductive sim_step :: "'d dops \<Rightarrow> int \<Rightarrow> 'd app list \<Rightarrow> 'd kernel list \<Rightarrow> 'd sim \<Rightarrow> 'd sim \<Rightarrow> bool"
  for F verb apps ks
where
  step: "is_top F e s \<Longrightarrow> sim_round F verb apps ks e s = Go s' \<Longrightarrow> sim_step F verb apps ks s s'"

text \<open>A run that resolves ties by the position in the list; the fuel bounds the number of rounds.\<close>

fun sim_run :: "'d dops \<Rightarrow> int \<Rightarrow> 'd app list \<Rightarrow> 'd kernel list \<Rightarrow> nat \<Rightarrow> 'd sim \<Rightarrow> 'd sim round option" where
  "sim_run F verb apps ks 0 s = None"
| "sim_run F verb apps ks (Suc fuel) s =
     (case find (\<lambda>e. is_top F e s) (queue s) of
        None \<Rightarrow> Some (Go s)
      | Some e \<Rightarrow> (case sim_round F verb apps ks e s of
            Go s' \<Rightarrow> sim_run F verb apps ks fuel s'
          | r \<Rightarrow> Some r))"

text \<open>A line of the table printed at the end: application, iterations, ideal and simulated time, slowdown.\<close>

definition report_line :: "'d dops \<Rightarrow> 'd \<Rightarrow> 'd app list \<Rightarrow> 'd sim \<Rightarrow> nat \<Rightarrow> (nat \<times> int \<times> 'd \<times> 'd \<times> 'd) option" where
  "report_line F max_time apps s i =
     (let l = init_loop F max_time (apps ! i); ideal = d_mul F (d_int F l) (a_length (apps ! i)) in
      map_option (\<lambda>r. (i, l, ideal, r, d_mul F (d_sub F (d_div F r ideal) (d_int F 1)) (d_int F 100))) (rt s i))"

end
