(* ===== verification/Kernel_Sim_Inv.thy ===== *)
theory Kernel_Sim_Inv
  imports Kernel_Sim
begin

text \<open>
  The bookkeeping of the simulator, for every arithmetic \<open>F\<close>: \<^verbatim>\<open>count\<close> and \<^verbatim>\<open>ac\<close> count the events in the
  queue, at most one kernel runs at a time, and every round that does not put an event off takes one
  unit off the work that is left.
\<close>

subsection \<open>Well-formed programs\<close>

definition prog_ok :: "'d app list \<Rightarrow> 'd kernel list \<Rightarrow> bool" where
  "prog_ok apps ks \<longleftrightarrow>
     (\<forall>k < length ks. k_type (ks ! k) \<in> {1, 2, 3} \<and> k_appid (ks ! k) < length apps \<and>
        (\<forall>c \<in> set (k_next (ks ! k)). k < c \<and> c < length ks \<and> k_appid (ks ! c) = k_appid (ks ! k))) \<and>
     (\<forall>i < length apps. a_first (apps ! i) < length ks \<and> k_appid (ks ! a_first (apps ! i)) = i)"

lemma prog_okD:
  assumes "prog_ok apps ks"
  shows "k < length ks \<Longrightarrow> k_type (ks ! k) \<in> {1, 2, 3}" "k < length ks \<Longrightarrow> k_appid (ks ! k) < length apps"
    "k < length ks \<Longrightarrow> c \<in> set (k_next (ks ! k)) \<Longrightarrow> k < c \<and> c < length ks \<and> k_appid (ks ! c) = k_appid (ks ! k)"
    "i < length apps \<Longrightarrow> a_first (apps ! i) < length ks" "i < length apps \<Longrightarrow> k_appid (ks ! a_first (apps ! i)) = i"
  using assms unfolding prog_ok_def by blast+

text \<open>The number of kernels in the tree below a kernel.\<close>

function tsize :: "'d kernel list \<Rightarrow> nat \<Rightarrow> int" where
  "tsize ks k = (if k < length ks then 1 + sum_list (map (\<lambda>c. if k < c then tsize ks c else 0) (k_next (ks ! k))) else 0)"
  by pat_completeness auto
termination by (relation "measure (\<lambda>(ks, k). length ks - k)") auto

declare tsize.simps [simp del]

lemma tsize_eq:
  assumes "prog_ok apps ks" "k < length ks"
  shows "tsize ks k = 1 + sum_list (map (tsize ks) (k_next (ks ! k)))"
  using assms(2) prog_okD(3) [OF assms] by (subst tsize.simps) (auto intro!: arg_cong [of _ _ sum_list])

subsection \<open>Counting events\<close>

definition num :: "('a \<Rightarrow> bool) \<Rightarrow> 'a list \<Rightarrow> int" where
  "num P xs = int (length (filter P xs))"

lemma num_simps [simp]:
  "num P [] = 0" "num P (x # xs) = (if P x then 1 else 0) + num P xs" "num P (xs @ ys) = num P xs + num P ys"
  "num P (rev xs) = num P xs"
  by (simp_all add: num_def rev_filter [symmetric])

lemma num_map [simp]: "num P (map f xs) = num (\<lambda>x. P (f x)) xs"
  by (simp add: num_def filter_map o_def)

lemma num_nonneg [simp]: "0 \<le> num P xs"
  by (simp add: num_def)

lemma num_remove1: "e \<in> set xs \<Longrightarrow> num P (remove1 e xs) = num P xs - (if P e then 1 else 0)"
  by (induction xs) auto

lemma num_0_iff: "num P xs = 0 \<longleftrightarrow> (\<forall>x \<in> set xs. \<not> P x)"
  by (simp add: num_def filter_empty_conv)

lemma num_cong: "(\<And>x. x \<in> set xs \<Longrightarrow> P x = Q x) \<Longrightarrow> num P xs = num Q xs"
  by (simp add: num_def cong: filter_cong)

lemma num_all: "(\<And>x. x \<in> set xs \<Longrightarrow> P x) \<Longrightarrow> num P xs = int (length xs)"
  by (simp add: num_def)

lemma num_none: "(\<And>x. x \<in> set xs \<Longrightarrow> \<not> P x) \<Longrightarrow> num P xs = 0"
  by (simp add: num_0_iff)

lemma num_mset: "mset xs = mset ys \<Longrightarrow> num P xs = num P ys"
  by (metis num_def mset_filter size_mset)

lemma sum_list_mset: "mset xs = mset ys \<Longrightarrow> sum_list (map f xs) = (sum_list (map f ys) :: int)"
  by (metis mset_map sum_mset_sum_list)

lemma set_remove1_sub: "x \<in> set (remove1 e xs) \<Longrightarrow> x \<in> set xs"
  using set_remove1_subset by fast

lemma num_index: "num (\<lambda>j. j = i) [0..<n] = (if i < n then 1 else 0)"
  by (induction n) auto

subsection \<open>The invariant\<close>

definition event_ok :: "'d kernel list \<Rightarrow> 'd event \<Rightarrow> bool" where
  "event_ok ks e \<longleftrightarrow> e_kernel e < length ks \<and> e_type e = k_type (ks ! e_kernel e) \<and> e_status e \<in> {1, 2}"

definition running :: "nat \<Rightarrow> 'd event \<Rightarrow> bool" where
  "running t e \<longleftrightarrow> e_status e = 2 \<and> e_type e = t"

definition of_app :: "'d kernel list \<Rightarrow> nat \<Rightarrow> 'd event \<Rightarrow> bool" where
  "of_app ks i e \<longleftrightarrow> k_appid (ks ! e_kernel e) = i"

definition sim_inv :: "'d app list \<Rightarrow> 'd kernel list \<Rightarrow> 'd sim \<Rightarrow> bool" where
  "sim_inv apps ks s \<longleftrightarrow> (\<forall>e \<in> set (queue s). event_ok ks e) \<and>
     (\<forall>t \<in> {1, 2, 3}. count s t = num (running t) (queue s)) \<and> count s 1 \<le> 1 \<and>
     (\<forall>i < length apps. ac s i = num (of_app ks i) (queue s)) \<and>
     (\<forall>i < length apps. 1 \<le> loop s i \<and> (ac s i = 0 \<longrightarrow> loop s i = 1 \<and> rt s i \<noteq> None)) \<and>
     (\<forall>e \<in> set (queue s). running 1 e \<longrightarrow> e_time e = k_sch s)"

lemma sim_invD:
  assumes "sim_inv apps ks s"
  shows "e \<in> set (queue s) \<Longrightarrow> event_ok ks e" "t \<in> {1, 2, 3} \<Longrightarrow> count s t = num (running t) (queue s)" "count s 1 \<le> 1"
    "i < length apps \<Longrightarrow> ac s i = num (of_app ks i) (queue s)" "i < length apps \<Longrightarrow> 1 \<le> loop s i"
    "i < length apps \<Longrightarrow> ac s i = 0 \<Longrightarrow> loop s i = 1 \<and> rt s i \<noteq> None"
    "e \<in> set (queue s) \<Longrightarrow> running 1 e \<Longrightarrow> e_time e = k_sch s"
  using assms unfolding sim_inv_def by blast+

text \<open>The work left: two units for a kernel that is submitted, one for a kernel that runs, and all iterations to come.\<close>

definition weight :: "'d kernel list \<Rightarrow> 'd event \<Rightarrow> int" where
  "weight ks e = 2 * tsize ks (e_kernel e) - (if e_status e = 2 then 1 else 0)"

definition work :: "'d app list \<Rightarrow> 'd kernel list \<Rightarrow> 'd sim \<Rightarrow> int" where
  "work apps ks s = sum_list (map (weight ks) (queue s)) +
     (\<Sum>i < length apps. (loop s i - 1) * (2 * tsize ks (a_first (apps ! i))))"

lemma event_updates [simp]:
  "event_ok ks (e\<lparr>e_time := t\<rparr>) = event_ok ks e" "event_ok ks e \<Longrightarrow> event_ok ks (e\<lparr>e_status := 2\<rparr>)"
  "running ty (e\<lparr>e_time := t\<rparr>) = running ty e" "running ty (e\<lparr>e_status := 2\<rparr>) \<longleftrightarrow> e_type e = ty"
  "of_app ks i (e\<lparr>e_time := t\<rparr>) = of_app ks i e" "of_app ks i (e\<lparr>e_status := 2\<rparr>) = of_app ks i e"
  "weight ks (e\<lparr>e_time := t\<rparr>) = weight ks e" "weight ks (e\<lparr>e_status := 2\<rparr>) = 2 * tsize ks (e_kernel e) - 1"
  by (simp_all add: event_ok_def running_def of_app_def weight_def)

lemma delay_simps [simp]:
  "event_ok ks (delay F ty t n d e) = event_ok ks e" "running ty' (delay F ty t n d e) = running ty' e"
  "of_app ks i (delay F ty t n d e) = of_app ks i e" "weight ks (delay F ty t n d e) = weight ks e"
  by (simp_all add: delay_def)

lemma delay_kernel: "ty \<noteq> 1 \<Longrightarrow> running 1 e \<Longrightarrow> delay F ty t n d e = e"
  by (auto simp: delay_def running_def)

lemma submit_simps [simp]:
  "e_time (submit F ks c t) = t" "\<not> running ty (submit F ks c t)" "of_app ks i (submit F ks c t) \<longleftrightarrow> k_appid (ks ! c) = i"
  "c < length ks \<Longrightarrow> event_ok ks (submit F ks c t)" "weight ks (submit F ks c t) = 2 * tsize ks c"
  by (simp_all add: submit_def running_def of_app_def event_ok_def weight_def)

subsection \<open>Starting the simulation\<close>

lemma sim_init_inv:
  assumes P: "prog_ok apps ks"
  shows "sim_inv apps ks (sim_init F mx apps ks)"
    "work apps ks (sim_init F mx apps ks) = (\<Sum>i < length apps. init_loop F mx (apps ! i) * (2 * tsize ks (a_first (apps ! i))))"
proof -
  have one: "num (\<lambda>a. k_appid (ks ! a_first a) = i) apps = 1" if "i < length apps" for i
  proof -
    have "num (\<lambda>a. k_appid (ks ! a_first a) = i) apps = num (\<lambda>a. k_appid (ks ! a_first a) = i) (map ((!) apps) [0..<length apps])"
      by (simp only: map_nth)
    also have "\<dots> = num (\<lambda>j. j = i) [0..<length apps]"
      unfolding num_map by (rule num_cong) (simp add: prog_okD(5) [OF P])
    finally show ?thesis using that by (simp add: num_index)
  qed
  have f: "a_first a < length ks" if "a \<in> set apps" for a
    using that prog_okD(4) [OF P] by (auto simp: in_set_conv_nth)
  show "sim_inv apps ks (sim_init F mx apps ks)"
    unfolding sim_inv_def sim_init_def using f one
    by (auto simp: num_none init_loop_def Let_def)
  have "sum_list (map (\<lambda>a. 2 * tsize ks (a_first a)) apps) = (\<Sum>i < length apps. 2 * tsize ks (a_first (apps ! i)))"
    by (simp add: sum_list_sum_nth atLeast0LessThan)
  then show "work apps ks (sim_init F mx apps ks) = (\<Sum>i < length apps. init_loop F mx (apps ! i) * (2 * tsize ks (a_first (apps ! i))))"
    by (simp add: work_def sim_init_def rev_map [symmetric] sum_list_rev o_def sum.distrib [symmetric] algebra_simps)
qed

subsection \<open>Rounds\<close>

definition next_time :: "'d dops \<Rightarrow> 'd kernel list \<Rightarrow> 'd \<Rightarrow> nat \<Rightarrow> (nat \<Rightarrow> 'd) \<Rightarrow> nat \<Rightarrow> 'd" where
  "next_time F ks t k slow c = d_add F t (d_mul F (d_sub F (k_start (ks ! c)) (k_end (ks ! k))) (d_add F (d_int F 1) (slow c)))"

lemma submit_nexts_eq:
  "submit_nexts F ks t k slow s = s\<lparr>queue := rev (map (\<lambda>c. submit F ks c (next_time F ks t k slow c)) (k_next (ks ! k))) @ queue s,
     ac := (\<lambda>i. ac s i + num (\<lambda>c. k_appid (ks ! c) = i) (k_next (ks ! k)))\<rparr>"
proof -
  have "fold (submit_next F ks t k slow) cs s = s\<lparr>queue := rev (map (\<lambda>c. submit F ks c (next_time F ks t k slow c)) cs) @ queue s,
     ac := (\<lambda>i. ac s i + num (\<lambda>c. k_appid (ks ! c) = i) cs)\<rparr>" for cs
    by (induction cs arbitrary: s) (auto simp: submit_next_def next_time_def fun_eq_iff)
  then show ?thesis unfolding submit_nexts_def by blast
qed

text \<open>What a round does to the queue, as far as the invariant depends on it, when an event \<open>e\<close> finishes.\<close>

lemma end_of_iteration_inv:
  assumes P: "prog_ok apps ks" and aid: "aid < length apps"
    and q: "\<forall>e \<in> set (queue s). event_ok ks e" "\<forall>t \<in> {1, 2, 3}. count s t = num (running t) (queue s)" "count s 1 \<le> 1"
      "\<forall>i < length apps. ac s i = num (of_app ks i) (queue s)"
      "\<forall>i < length apps. 1 \<le> loop s i" "\<forall>i < length apps. i \<noteq> aid \<longrightarrow> ac s i = 0 \<longrightarrow> loop s i = 1 \<and> rt s i \<noteq> None"
      "\<forall>e \<in> set (queue s). running 1 e \<longrightarrow> e_time e = k_sch s"
  shows "sim_inv apps ks (end_of_iteration F apps ks t aid s)" "work apps ks (end_of_iteration F apps ks t aid s) = work apps ks s"
proof -
  let ?f = "a_first (apps ! aid)"
  note f = prog_okD(4,5) [OF P aid]
  show "sim_inv apps ks (end_of_iteration F apps ks t aid s)"
    using q f aid unfolding sim_inv_def end_of_iteration_def Let_def by auto
  have "(\<Sum>i < length apps. (((loop s)(aid := loop s aid - 1)) i - 1) * (2 * tsize ks (a_first (apps ! i)))) + 2 * tsize ks ?f =
     (\<Sum>i < length apps. (loop s i - 1) * (2 * tsize ks (a_first (apps ! i))))"
  proof -
    have *: "(\<Sum>i < length apps. g i) = g aid + (\<Sum>i \<in> {..<length apps} - {aid}. g i)" for g :: "nat \<Rightarrow> int"
      using aid by (intro sum.remove) auto
    show ?thesis unfolding * [of "\<lambda>i. (((loop s)(aid := loop s aid - 1)) i - 1) * (2 * tsize ks (a_first (apps ! i)))"]
        * [of "\<lambda>i. (loop s i - 1) * (2 * tsize ks (a_first (apps ! i)))"]
      by (simp add: algebra_simps)
  qed
  then show "work apps ks (end_of_iteration F apps ks t aid s) = work apps ks s"
    by (auto simp: work_def end_of_iteration_def Let_def)
qed


definition finish_event :: "'d dops \<Rightarrow> 'd app list \<Rightarrow> 'd kernel list \<Rightarrow> 'd event \<Rightarrow> 'd event list \<Rightarrow> 'd sim \<Rightarrow> 'd sim" where
  "finish_event F apps ks e rest s =
     (if e_type e = 1 then finished_kernel F apps ks e rest s else finished_memcpy F apps ks e rest s)"

lemma finish_event_fields:
  "sim.count (finish_event F apps ks e rest s) = (sim.count s)(e_type e := sim.count s (e_type e) - 1)"
  "loop (finish_event F apps ks e rest s) = loop s" "rt (finish_event F apps ks e rest s) = rt s"
  "ac (finish_event F apps ks e rest s) = (\<lambda>i. ac s i + num (\<lambda>c. k_appid (ks ! c) = i) (k_next (ks ! e_kernel e)))"
  "k_sch (finish_event F apps ks e rest s) = (if e_type e = 1 then d_int F 0 else k_sch s)"
  by (simp_all add: finish_event_def finished_kernel_def finished_memcpy_def Let_def submit_nexts_eq)

lemma finish_event_queue:
  obtains tm D where
    "queue (finish_event F apps ks e rest s) = map D (rev (map (\<lambda>c. submit F ks c (tm c)) (k_next (ks ! e_kernel e))) @ rest)"
    "D = (\<lambda>e. e) \<or> (\<exists>t n d. D = delay F (e_type e) t n d) \<and> e_type e \<noteq> 1"
proof -
  let ?slow = "\<lambda>c. a_CPUslow (apps ! k_appid (ks ! (if e_type e = 1 then e_kernel e else c)))"
  let ?c = "sim.count s (e_type e) - 1"
  let ?D = "if e_type e \<noteq> 1 \<and> ?c \<ge> 1 then delay F (e_type e) (e_time e) ?c (?c + 1) else (\<lambda>e. e)"
  have "queue (finish_event F apps ks e rest s) =
     map ?D (rev (map (\<lambda>c. submit F ks c (next_time F ks (e_time e) (e_kernel e) ?slow c)) (k_next (ks ! e_kernel e))) @ rest)"
    by (cases "e_type e = 1") (auto simp: finish_event_def finished_kernel_def finished_memcpy_def Let_def submit_nexts_eq)
  then show thesis by (rule that) auto
qed

lemma finished_inv:
  assumes P: "prog_ok apps ks" and I: "sim_inv apps ks s" and e: "e \<in> set (queue s)" "e_status e = 2"
  shows "sim_inv apps ks (finished F apps ks e (remove1 e (queue s)) s)"
    "work apps ks (finished F apps ks e (remove1 e (queue s)) s) = work apps ks s - 1"
proof -
  let ?aid = "k_appid (ks ! e_kernel e)" and ?rest = "remove1 e (queue s)" and ?next = "k_next (ks ! e_kernel e)"
  have ok: "e_kernel e < length ks" "e_type e = k_type (ks ! e_kernel e)" using sim_invD(1) [OF I e(1)] by (auto simp: event_ok_def)
  have ty: "e_type e \<in> {1, 2, 3}" using ok prog_okD(1) [OF P] by simp
  have aid: "?aid < length apps" using prog_okD(2) [OF P ok(1)] .
  note c = prog_okD(3) [OF P ok(1)]
  let ?s0 = "s\<lparr>ac := (ac s)(?aid := ac s ?aid - 1), now := e_time e\<rparr>"
  define s1 where "s1 = finish_event F apps ks e ?rest ?s0"
  have fin: "finished F apps ks e ?rest s = end_of_iteration F apps ks (e_time e) ?aid s1"
    by (simp add: finished_def s1_def finish_event_def Let_def)
  obtain tm D where q1: "queue s1 = map D (rev (map (\<lambda>c. submit F ks c (tm c)) ?next) @ ?rest)"
    and D: "D = (\<lambda>e. e) \<or> (\<exists>t n d. D = delay F (e_type e) t n d) \<and> e_type e \<noteq> 1"
    unfolding s1_def by (rule finish_event_queue)
  note f1 = finish_event_fields [of F apps ks e ?rest ?s0, folded s1_def, simplified]
  have D': "event_ok ks (D x) = event_ok ks x" "running t (D x) = running t x" "of_app ks i (D x) = of_app ks i x"
    "weight ks (D x) = weight ks x" for t i x using D by auto
  have re: "running t e \<longleftrightarrow> e_type e = t" for t using e(2) by (simp add: running_def)
  have num1: "num (running t) (queue s1) = num (running t) (queue s) - (if e_type e = t then 1 else 0)" for t
    using num_remove1 [OF e(1)] re by (simp add: q1 D' num_none)
  have numa: "num (of_app ks i) (queue s1) = num (\<lambda>c. k_appid (ks ! c) = i) ?next + num (of_app ks i) (queue s) - (if ?aid = i then 1 else 0)" for i
    using num_remove1 [OF e(1), of "of_app ks i"] by (simp add: q1 D') (simp add: of_app_def)
  have app: "num (\<lambda>c. k_appid (ks ! c) = i) ?next = (if i = ?aid then int (length ?next) else 0)" for i
    using c by (auto intro!: num_none num_all)
  have k1: "\<forall>x \<in> set (queue s1). running 1 x \<longrightarrow> e_time x = k_sch s1"
  proof (cases "e_type e = 1")
    case True
    then have "num (running 1) (queue s1) = 0"
      using num1 [of 1] sim_invD(2) [OF I, of 1] sim_invD(3) [OF I] num_nonneg [of "running 1" "queue s1"] by simp
    then show ?thesis by (simp add: num_0_iff)
  next
    case False
    then have "D x = x" if "running 1 x" for x using D delay_kernel [OF False that] by auto
    moreover have "e_time x = k_sch s" if "x \<in> set ?rest" "running 1 x" for x
      using sim_invD(7) [OF I] set_remove1_sub [OF that(1)] that(2) by blast
    ultimately show ?thesis using False by (auto simp: q1 D' f1)
  qed
  have "\<forall>x \<in> set (queue s1). event_ok ks x"
    using c sim_invD(1) [OF I] set_remove1_sub [of _ e "queue s"] unfolding q1 set_map ball_simps D' set_append set_rev by auto
  moreover have "\<forall>t \<in> {1, 2, 3}. sim.count s1 t = num (running t) (queue s1)"
    using ty sim_invD(2) [OF I] by (auto simp: f1 num1)
  moreover have "sim.count s1 1 \<le> 1" using sim_invD(3) [OF I] by (cases "e_type e = 1") (simp_all add: f1)
  moreover have "\<forall>i < length apps. ac s1 i = num (of_app ks i) (queue s1)"
    using sim_invD(4) [OF I] by (simp add: f1 numa)
  moreover have "\<forall>i < length apps. 1 \<le> loop s1 i" using sim_invD(5) [OF I] by (simp add: f1)
  moreover have "\<forall>i < length apps. i \<noteq> ?aid \<longrightarrow> ac s1 i = 0 \<longrightarrow> loop s1 i = 1 \<and> rt s1 i \<noteq> None"
    using sim_invD(6) [OF I] by (simp add: f1 app)
  ultimately have "sim_inv apps ks (end_of_iteration F apps ks (e_time e) ?aid s1)"
    and w: "work apps ks (end_of_iteration F apps ks (e_time e) ?aid s1) = work apps ks s1"
    using end_of_iteration_inv [OF P aid, of s1 F "e_time e"] k1 by blast+
  then show "sim_inv apps ks (finished F apps ks e ?rest s)" by (simp add: fin)
  have "work apps ks s1 = work apps ks s - 1"
  proof -
    have "sum_list (map (weight ks) (queue s)) = weight ks e + sum_list (map (weight ks) ?rest)"
      by (rule sum_list_map_remove1 [OF e(1)])
    moreover have "sum_list (map (weight ks) (queue s1)) = 2 * sum_list (map (tsize ks) ?next) + sum_list (map (weight ks) ?rest)"
      by (simp add: q1 D' o_def rev_map [symmetric] sum_list_rev sum_list_const_mult)
    moreover have "weight ks e = 2 * sum_list (map (tsize ks) ?next) + 1"
      using e(2) tsize_eq [OF P ok(1)] by (simp add: weight_def)
    ultimately show ?thesis by (simp add: work_def f1)
  qed
  then show "work apps ks (finished F apps ks e ?rest s) = work apps ks s - 1"
    using w by (simp add: fin)
qed


text \<open>The event \<open>e\<close> is replaced by \<open>e'\<close> and the events of one direction are delayed.\<close>

lemma replace_inv:
  assumes I: "sim_inv apps ks s" and e: "e \<in> set (queue s)"
    and q: "mset (queue s') = mset (e' # map D (remove1 e (queue s)))"
    and D: "D = (\<lambda>x. x) \<or> (\<exists>ty t n d. D = delay F ty t n d \<and> ty \<noteq> 1)"
    and e': "event_ok ks e'" "e_kernel e' = e_kernel e" "e_type e' = e_type e"
    and cnt: "\<forall>t \<in> {1, 2, 3}. sim.count s' t = sim.count s t + (if running t e' then 1 else 0) - (if running t e then 1 else 0)"
    and f: "sim.count s' 1 \<le> 1" "loop s' = loop s" "ac s' = ac s" "rt s' = rt s"
    and k: "\<forall>x \<in> insert e' (set (remove1 e (queue s))). running 1 x \<longrightarrow> e_time x = k_sch s'"
  shows "sim_inv apps ks s'" "work apps ks s' = work apps ks s + weight ks e' - weight ks e"
proof -
  have D': "event_ok ks (D x) = event_ok ks x" "running t (D x) = running t x" "of_app ks i (D x) = of_app ks i x"
    "weight ks (D x) = weight ks x" for t i x using D by auto
  have n: "num P (queue s') = num (\<lambda>x. P (D x)) (remove1 e (queue s)) + (if P e' then 1 else 0)" for P
    using num_mset [OF q] by simp
  have set': "set (queue s') = insert e' (D ` set (remove1 e (queue s)))"
    using mset_eq_setD [OF q] by simp
  have oe: "of_app ks i e' = of_app ks i e" for i by (simp add: of_app_def e'(2))
  show "sim_inv apps ks s'"
    unfolding sim_inv_def
  proof (intro conjI)
    show "\<forall>x \<in> set (queue s'). event_ok ks x"
      using e'(1) sim_invD(1) [OF I] set_remove1_sub [of _ e "queue s"] by (auto simp: set' D')
    show "\<forall>t \<in> {1, 2, 3}. sim.count s' t = num (running t) (queue s')"
      using cnt sim_invD(2) [OF I] by (simp add: n D' num_remove1 [OF e])
    show "\<forall>i < length apps. ac s' i = num (of_app ks i) (queue s')"
      using sim_invD(4) [OF I] by (simp add: n D' num_remove1 [OF e] f oe)
    show "\<forall>i < length apps. 1 \<le> loop s' i \<and> (ac s' i = 0 \<longrightarrow> loop s' i = 1 \<and> rt s' i \<noteq> None)"
      using sim_invD(5,6) [OF I] by (simp add: f)
    have "D x = x" if "running 1 x" for x using D delay_kernel that by fastforce
    then show "\<forall>x \<in> set (queue s'). running 1 x \<longrightarrow> e_time x = k_sch s'"
      using k by (auto simp: set' D')
  qed (rule f(1))
  have "sum_list (map (weight ks) (queue s')) = sum_list (map (weight ks) (remove1 e (queue s))) + weight ks e'"
    using sum_list_mset [OF q] by (simp add: D' o_def)
  then show "work apps ks s' = work apps ks s + weight ks e' - weight ks e"
    using sum_list_map_remove1 [OF e, of "weight ks"] by (simp add: work_def f)
qed

lemma submitted_kernel_inv:
  assumes I: "sim_inv apps ks s" and e: "e \<in> set (queue s)" "e_status e = 1" "e_type e = 1"
    and r: "submitted_kernel F verb e (remove1 e (queue s)) s = Go s'"
  shows "sim_inv apps ks s' \<and> (if sim.count s 1 = 0 then work apps ks s' = work apps ks s - 1
     else work apps ks s' = work apps ks s \<and> s' = s\<lparr>queue := wait_until F (k_sch s) e # remove1 e (queue s), now := e_time e\<rparr>)"
proof -
  have ok: "event_ok ks e" using sim_invD(1) [OF I e(1)] .
  have ne: "\<not> running t e" for t using e(2) by (simp add: running_def)
  have old: "e_time x = k_sch s" if "x \<in> set (remove1 e (queue s))" "running 1 x" for x
    using sim_invD(7) [OF I] set_remove1_sub [OF that(1)] that(2) by blast
  have we: "weight ks e = 2 * tsize ks (e_kernel e)" using e(2) by (simp add: weight_def)
  show ?thesis
  proof (cases "sim.count s 1 = 0")
    case True
    then have "num (running 1) (remove1 e (queue s)) = 0" using sim_invD(2) [OF I, of 1] ne num_remove1 [OF e(1)] by simp
    then have none: "\<forall>x \<in> set (remove1 e (queue s)). \<not> running 1 x" by (simp add: num_0_iff)
    let ?e' = "e\<lparr>e_status := 2, e_time := d_add F (e_time e) (e_length e)\<rparr>"
    have s': "s' = s\<lparr>count := (sim.count s)(1 := 1), k_sch := e_time ?e', queue := ?e' # remove1 e (queue s), now := e_time e\<rparr>"
      using r True by (simp add: submitted_kernel_def Let_def)
    have "sim_inv apps ks s'" "work apps ks s' = work apps ks s + weight ks ?e' - weight ks e"
      by (rule replace_inv [OF I e(1), where D = "\<lambda>x. x" and e' = ?e']; use ok ne none True e(3) in \<open>simp add: s'\<close>)+
    then show ?thesis using True we by simp
  next
    case False
    let ?e' = "wait_until F (k_sch s) e"
    have s': "s' = s\<lparr>queue := ?e' # remove1 e (queue s), now := e_time e\<rparr>"
      using r False by (auto simp: submitted_kernel_def Let_def split: if_splits)
    have "sim_inv apps ks s'" "work apps ks s' = work apps ks s + weight ks ?e' - weight ks e"
      by (rule replace_inv [OF I e(1), where D = "\<lambda>x. x" and e' = ?e'];
          use ok ne old sim_invD(3) [OF I] in \<open>simp add: s' wait_until_def\<close>)+
    then show ?thesis using False s' by (simp add: wait_until_def)
  qed
qed

lemma submitted_memcpy_inv:
  assumes P: "prog_ok apps ks" and I: "sim_inv apps ks s" and e: "e \<in> set (queue s)" "e_status e = 1" "e_type e \<noteq> 1"
    and r: "submitted_memcpy F verb e (remove1 e (queue s)) s = Go s'"
  shows "sim_inv apps ks s' \<and> work apps ks s' = work apps ks s - 1"
proof -
  have ok: "event_ok ks e" using sim_invD(1) [OF I e(1)] .
  have ty: "e_type e \<in> {1, 2, 3}" using ok prog_okD(1) [OF P] by (simp add: event_ok_def)
  have ne: "\<not> running t e" for t using e(2) by (simp add: running_def)
  have old: "e_time x = k_sch s" if "x \<in> set (remove1 e (queue s))" "running 1 x" for x
    using sim_invD(7) [OF I] set_remove1_sub [OF that(1)] that(2) by blast
  have we: "weight ks e = 2 * tsize ks (e_kernel e)" using e(2) by (simp add: weight_def)
  let ?c = "sim.count s (e_type e) + 1"
  let ?e' = "e\<lparr>e_status := 2, e_time := d_add F (e_time e) (d_mul F (e_length e) (d_int F ?c))\<rparr>"
  let ?D = "if ?c = 1 then (\<lambda>x. x) else delay F (e_type e) (e_time e) ?c (?c - 1)"
  have s': "mset (queue s') = mset (?e' # map ?D (remove1 e (queue s)))" "sim.count s' = (sim.count s)(e_type e := ?c)"
    "loop s' = loop s" "ac s' = ac s" "rt s' = rt s" "k_sch s' = k_sch s"
    using r by (auto simp: submitted_memcpy_def Let_def split: if_splits)
  have D: "?D = (\<lambda>x. x) \<or> (\<exists>ty t n d. ?D = delay F ty t n d \<and> ty \<noteq> 1)" using e(3) by auto
  have "sim_inv apps ks s'" "work apps ks s' = work apps ks s + weight ks ?e' - weight ks e"
    by (rule replace_inv [OF I e(1) s'(1) D]; use ok ne old sim_invD(3) [OF I] e(3) in \<open>simp add: s' running_def [of 1 e]\<close>)+
  then show ?thesis using we by simp
qed

text \<open>
  One round keeps the invariant and takes one unit of work off, unless it puts off a kernel because
  the GPU is busy.
\<close>

definition waits :: "'d event \<Rightarrow> 'd sim \<Rightarrow> bool" where
  "waits e s \<longleftrightarrow> e_status e = 1 \<and> e_type e = 1 \<and> sim.count s 1 \<noteq> 0"

lemma sim_round_inv:
  assumes P: "prog_ok apps ks" and I: "sim_inv apps ks s" and e: "e \<in> set (queue s)"
    and r: "sim_round F verb apps ks e s = Go s'"
  shows "sim_inv apps ks s'"
    "work apps ks s' = work apps ks s - (if waits e s then 0 else 1)"
    "waits e s \<Longrightarrow> s' = s\<lparr>queue := wait_until F (k_sch s) e # remove1 e (queue s), now := e_time e\<rparr>"
proof -
  consider "e_status e = 1" "e_type e = 1" | "e_status e = 1" "e_type e \<noteq> 1" | "e_status e = 2"
    using sim_invD(1) [OF I e] by (auto simp: event_ok_def)
  then have "sim_inv apps ks s' \<and> work apps ks s' = work apps ks s - (if waits e s then 0 else 1) \<and>
    (waits e s \<longrightarrow> s' = s\<lparr>queue := wait_until F (k_sch s) e # remove1 e (queue s), now := e_time e\<rparr>)"
  proof cases
    case 1
    then have "submitted_kernel F verb e (remove1 e (queue s)) s = Go s'" using r by (simp add: sim_round_def Let_def)
    from submitted_kernel_inv [OF I e 1 this] show ?thesis using 1 by (auto simp: waits_def split: if_splits)
  next
    case 2
    then have "submitted_memcpy F verb e (remove1 e (queue s)) s = Go s'" using r by (simp add: sim_round_def Let_def)
    from submitted_memcpy_inv [OF P I e 2 this] show ?thesis using 2 by (simp add: waits_def)
  next
    case 3
    then have "s' = finished F apps ks e (remove1 e (queue s)) s" using r by (simp add: sim_round_def Let_def)
    then show ?thesis using finished_inv [OF P I e 3, of F] 3 by (simp add: waits_def)
  qed
  then show "sim_inv apps ks s'" "work apps ks s' = work apps ks s - (if waits e s then 0 else 1)"
    "waits e s \<Longrightarrow> s' = s\<lparr>queue := wait_until F (k_sch s) e # remove1 e (queue s), now := e_time e\<rparr>" by blast+
qed

end
