(* ===== verification/Kernel_Sim_Run.thy ===== *)
theory Kernel_Sim_Run
  imports Kernel_Sim_Inv Complex_Main
begin

text \<open>
  Runs of the simulator. What depends on the arithmetic is stated in the locale \<open>clock\<close>: the comparison
  orders times, and putting a kernel off moves it beyond the end of the kernel that runs. Under these
  laws every run ends, whatever order \<^verbatim>\<open>top()\<close> takes events of equal time in. Exact rational arithmetic
  satisfies them; rounded arithmetic does as long as the step of \<^verbatim>\<open>0.00001\<close> is not lost in rounding, which
  is what the program tests with \<^verbatim>\<open>now == newEvt.getTime()\<close> when it is verbose.
\<close>

subsection \<open>Runs\<close>

text \<open>A run, with the number of rounds that did not put a kernel off.\<close>

inductive sim_path :: "'d dops \<Rightarrow> int \<Rightarrow> 'd app list \<Rightarrow> 'd kernel list \<Rightarrow> 'd sim \<Rightarrow> nat \<Rightarrow> 'd sim \<Rightarrow> bool"
  for F verb apps ks
where
  start: "sim_path F verb apps ks s 0 s"
| round: "sim_path F verb apps ks s n s1 \<Longrightarrow> is_top F e s1 \<Longrightarrow> sim_round F verb apps ks e s1 = Go s2 \<Longrightarrow>
    sim_path F verb apps ks s (n + (if waits e s1 then 0 else 1)) s2"

inductive_cases sim_stepE: "sim_step F verb apps ks s s'"

lemma sim_path_steps: "sim_path F verb apps ks s n s' \<Longrightarrow> (sim_step F verb apps ks)\<^sup>*\<^sup>* s s'"
  by (induction rule: sim_path.induct) (auto intro: sim_step.intros rtranclp.rtrancl_into_rtrancl)

lemma sim_path_inv:
  assumes "sim_path F verb apps ks s n s'" "prog_ok apps ks" "sim_inv apps ks s"
  shows "sim_inv apps ks s' \<and> work apps ks s' = work apps ks s - int n"
  using assms
proof (induction rule: sim_path.induct)
  case (round s n s1 e s2)
  have e: "e \<in> set (queue s1)" using round.hyps by (simp add: is_top_def)
  show ?case using sim_round_inv(1,2) [OF round.prems(1) _ e round.hyps(3)] round.IH [OF round.prems] by simp
qed simp

lemma steps_inv:
  assumes "(sim_step F verb apps ks)\<^sup>*\<^sup>* s s'" "prog_ok apps ks" "sim_inv apps ks s"
  shows "sim_inv apps ks s'"
  using assms
proof (induction rule: rtranclp_induct)
  case (step s1 s2)
  then show ?case by (auto elim!: sim_stepE simp: is_top_def intro: sim_round_inv(1))
qed simp

lemma tsize_pos: "k < length ks \<Longrightarrow> 1 \<le> tsize ks k"
proof (induction ks k rule: tsize.induct)
  case (1 ks k)
  have "0 \<le> (if k < c then tsize ks c else 0)" if "c \<in> set (k_next (ks ! k))" for c
    using 1(1) [of c] 1(2) that by (cases "c < length ks") (auto simp: tsize.simps [of ks c])
  then have "0 \<le> sum_list (map (\<lambda>c. if k < c then tsize ks c else 0) (k_next (ks ! k)))"
    by (intro sum_list_nonneg) (metis (no_types, lifting) imageE set_map)
  then show ?case using 1(2) by (subst tsize.simps) simp
qed

lemma work_nonneg:
  assumes P: "prog_ok apps ks" and I: "sim_inv apps ks s"
  shows "0 \<le> work apps ks s"
proof -
  have "0 \<le> weight ks e" if "e \<in> set (queue s)" for e
    using sim_invD(1) [OF I that] tsize_pos [of "e_kernel e" ks] by (simp add: weight_def event_ok_def)
  moreover have "0 \<le> (loop s i - 1) * (2 * tsize ks (a_first (apps ! i)))" if "i < length apps" for i
    using sim_invD(5) [OF I that] tsize_pos [OF prog_okD(4) [OF P that]] by simp
  ultimately show ?thesis unfolding work_def by (intro add_nonneg_nonneg sum_list_nonneg sum_nonneg) auto
qed

lemma work_done:
  assumes I: "sim_inv apps ks s" and q: "queue s = []"
  shows "work apps ks s = 0" "i < length apps \<Longrightarrow> loop s i = 1 \<and> ac s i = 0 \<and> rt s i \<noteq> None"
proof -
  have "loop s i = 1 \<and> ac s i = 0 \<and> rt s i \<noteq> None" if "i < length apps" for i
    using sim_invD(4,6) [OF I that] q by simp
  then show "work apps ks s = 0" "i < length apps \<Longrightarrow> loop s i = 1 \<and> ac s i = 0 \<and> rt s i \<noteq> None"
    by (simp_all add: work_def q)
qed

subsection \<open>Termination\<close>

definition held_up :: "'d dops \<Rightarrow> 'd sim \<Rightarrow> 'd event \<Rightarrow> bool" where
  "held_up F s e \<longleftrightarrow> e_status e = 1 \<and> e_type e = 1 \<and> \<not> d_lt F (k_sch s) (e_time e)"

locale clock =
  fixes F :: "'d dops"
  assumes lt_irrefl: "\<not> d_lt F x x"
    and lt_trans: "d_lt F x y \<Longrightarrow> d_lt F y z \<Longrightarrow> d_lt F x z"
    and eq_cong: "d_eq F x y \<Longrightarrow> d_lt F z x = d_lt F z y"
    and wait_law: "\<not> d_lt F k x \<Longrightarrow> d_lt F k (d_add F (d_add F x (d_sub F k x)) (d_eps F))"
begin

lemma min_exists: "xs \<noteq> [] \<Longrightarrow> \<exists>e \<in> set xs. \<forall>x \<in> set xs. \<not> d_lt F (e_time x) (e_time e)"
proof (induction xs)
  case (Cons y ys)
  show ?case
  proof (cases "ys = []")
    case False
    then obtain e where e: "e \<in> set ys" "\<forall>x \<in> set ys. \<not> d_lt F (e_time x) (e_time e)" using Cons.IH by blast
    show ?thesis
    proof (cases "d_lt F (e_time y) (e_time e)")
      case True
      have "\<not> d_lt F (e_time x) (e_time y)" if "x \<in> set ys" for x using e(2) that lt_trans True by blast
      then show ?thesis using lt_irrefl by (intro bexI [of _ y]) auto
    qed (use e in auto)
  qed (simp add: lt_irrefl)
qed simp

lemma top_exists: "queue s \<noteq> [] \<Longrightarrow> \<exists>e. is_top F e s"
  using min_exists [of "queue s"] by (auto simp: is_top_def list_all_iff)

lemma top_held_up:
  assumes I: "sim_inv apps ks s" and e: "is_top F e s" and w: "waits e s"
  shows "held_up F s e" "\<not> held_up F s (wait_until F (k_sch s) e)"
proof -
  have "num (running 1) (queue s) \<noteq> 0" using sim_invD(2) [OF I, of 1] w by (simp add: waits_def)
  then obtain r where r: "r \<in> set (queue s)" "running 1 r" by (auto simp: num_0_iff)
  then have "e_time r = k_sch s" using sim_invD(7) [OF I] by blast
  then have k: "\<not> d_lt F (k_sch s) (e_time e)" using e r(1) by (auto simp: is_top_def list_all_iff)
  then show "held_up F s e" "\<not> held_up F s (wait_until F (k_sch s) e)"
    using w wait_law [OF k] by (auto simp: waits_def held_up_def wait_until_def)
qed

lemma round_defined:
  assumes I: "sim_inv apps ks s" and e: "is_top F e s" and v: "verb < 2"
  shows "\<exists>s'. sim_round F verb apps ks e s = Go s'"
proof -
  have "\<not> d_eq F (e_time e) (e_time (wait_until F (k_sch s) e))" if "waits e s"
    using top_held_up [OF I e that] eq_cong unfolding held_up_def by (auto simp: wait_until_def)
  then show ?thesis using v
    by (auto simp: sim_round_def submitted_kernel_def submitted_memcpy_def Let_def waits_def)
qed

lemma round_decreases:
  assumes P: "prog_ok apps ks" and I: "sim_inv apps ks s" and e: "is_top F e s" and r: "sim_round F verb apps ks e s = Go s'"
  shows "((nat (work apps ks s'), nat (num (held_up F s') (queue s'))),
          (nat (work apps ks s), nat (num (held_up F s) (queue s)))) \<in> less_than <*lex*> less_than"
proof (cases "waits e s")
  case True
  have q: "e \<in> set (queue s)" using e by (simp add: is_top_def)
  note s' = sim_round_inv(3) [OF P I q r True]
  have "held_up F s' = held_up F s" by (simp add: s' held_up_def fun_eq_iff)
  then have "num (held_up F s') (queue s') = num (held_up F s) (queue s) - 1"
    using top_held_up [OF I e True] num_remove1 [OF q, of "held_up F s"] by (simp add: s')
  moreover have "0 < num (held_up F s) (queue s)"
    using num_0_iff [of "held_up F s" "queue s"] num_nonneg [of "held_up F s" "queue s"] q top_held_up(1) [OF I e True] by (auto simp: order_le_less)
  ultimately show ?thesis using sim_round_inv(2) [OF P I q r] True by simp
next
  case False
  have q: "e \<in> set (queue s)" using e by (simp add: is_top_def)
  have "0 \<le> work apps ks s'" by (rule work_nonneg [OF P sim_round_inv(1) [OF P I q r]])
  then show ?thesis using sim_round_inv(2) [OF P I q r] False by simp
qed

lemma run_completes:
  assumes P: "prog_ok apps ks" and I: "sim_inv apps ks s" and v: "verb < 2"
  shows "\<exists>fuel s'. sim_run F verb apps ks fuel s = Some (Go s') \<and> sim_inv apps ks s' \<and> queue s' = []"
  using I
proof (induction "(nat (work apps ks s), nat (num (held_up F s) (queue s)))" arbitrary: s
    rule: wf_induct_rule [OF wf_lex_prod [OF wf_less_than wf_less_than]])
  case (1 s)
  show ?case
  proof (cases "queue s = []")
    case True
    then show ?thesis using 1(2) by (intro exI [of _ 1] exI [of _ s]) simp
  next
    case False
    then obtain e' where "is_top F e' s" "e' \<in> set (queue s)" using top_exists by (auto simp: is_top_def)
    then obtain e where e: "find (\<lambda>e. is_top F e s) (queue s) = Some e" by (cases "find (\<lambda>e. is_top F e s) (queue s)") (auto simp: find_None_iff)
    then have t: "is_top F e s" by (auto simp: find_Some_iff)
    obtain s1 where s1: "sim_round F verb apps ks e s = Go s1" using round_defined [OF 1(2) t v] by blast
    have I1: "sim_inv apps ks s1" using sim_round_inv(1) [OF P 1(2) _ s1] t by (simp add: is_top_def)
    obtain fuel s' where "sim_run F verb apps ks fuel s1 = Some (Go s')" "sim_inv apps ks s'" "queue s' = []"
      using 1(1) [OF round_decreases [OF P 1(2) t s1] I1] by blast
    then show ?thesis using e s1 by (intro exI [of _ "Suc fuel"] exI [of _ s']) simp
  qed
qed

text \<open>No run goes on for ever, however ties are broken.\<close>

lemma no_infinite_run:
  assumes P: "prog_ok apps ks" and I: "sim_inv apps ks (f 0)" and st: "\<And>i. sim_step F verb apps ks (f i) (f (Suc i))"
  shows False
proof -
  have inv: "sim_inv apps ks (f i)" for i
  proof (induction i)
    case (Suc i)
    then show ?case using st [of i] P by (auto elim!: sim_stepE simp: is_top_def intro: sim_round_inv(1))
  qed (rule I)
  let ?m = "\<lambda>i. (nat (work apps ks (f i)), nat (num (held_up F (f i)) (queue (f i))))"
  have "(?m (Suc i), ?m i) \<in> less_than <*lex*> less_than" for i
    using st [of i] round_decreases [OF P inv] by (auto elim!: sim_stepE simp del: in_lex_prod)
  then have "\<exists>g. \<forall>i. (g (Suc i), g i) \<in> less_than <*lex*> less_than" by (intro exI [of _ ?m]) simp
  then show False using wf_lex_prod [OF wf_less_than wf_less_than] unfolding wf_iff_no_infinite_down_chain by blast
qed

end

subsection \<open>Exact arithmetic\<close>

definition exact :: "rat dops" where
  "exact = \<lparr>d_add = (+), d_sub = (-), d_mul = (*), d_div = (/), d_lt = (<), d_le = (\<le>), d_eq = (=), d_int = of_int,
     d_trunc = (\<lambda>x. if x \<ge> 0 then \<lfloor>x\<rfloor> else \<lceil>x\<rceil>), d_eps = 1 / 100000\<rparr>"

lemma exact_simps [simp]:
  "d_add exact = (+)" "d_sub exact = (-)" "d_mul exact = (*)" "d_div exact = (/)" "d_lt exact = (<)" "d_le exact = (\<le>)"
  "d_eq exact = (=)" "d_int exact = of_int" "d_trunc exact = (\<lambda>x. if x \<ge> 0 then \<lfloor>x\<rfloor> else \<lceil>x\<rceil>)" "d_eps exact = 1 / 100000"
  by (simp_all add: exact_def)

interpretation exact: clock exact
  by unfold_locales auto


subsection \<open>Time does not run backwards\<close>

text \<open>A profile whose times make sense: no negative durations, successors start after their predecessor ends.\<close>

definition times_ok :: "rat app list \<Rightarrow> rat kernel list \<Rightarrow> bool" where
  "times_ok apps ks \<longleftrightarrow>
     (\<forall>k < length ks. 0 \<le> k_length (ks ! k) \<and> (\<forall>c \<in> set (k_next (ks ! k)). k_end (ks ! k) \<le> k_start (ks ! c))) \<and>
     (\<forall>a \<in> set apps. -1 \<le> a_CPUslow a \<and> 0 \<le> k_start (ks ! a_first a))"

definition ahead :: "rat kernel list \<Rightarrow> rat sim \<Rightarrow> bool" where
  "ahead ks s \<longleftrightarrow> (\<forall>e \<in> set (queue s). now s \<le> e_time e \<and> e_length e = k_length (ks ! e_kernel e))"

lemma delay_ahead:
  assumes "t \<le> e_time e" "0 \<le> n" "0 < d"
  shows "t \<le> e_time (delay exact ty t n d e)"
  using assms by (auto simp: delay_def)

lemma delay_length [simp]: "e_length (delay F ty t n d e) = e_length e" "e_kernel (delay F ty t n d e) = e_kernel e"
  by (simp_all add: delay_def)

lemma finish_event_ahead:
  assumes P: "prog_ok apps ks" and T: "times_ok apps ks" and k: "e_kernel e < length ks"
    and q: "\<forall>x \<in> set rest. e_time e \<le> e_time x \<and> e_length x = k_length (ks ! e_kernel x)"
    and x: "x \<in> set (queue (finish_event exact apps ks e rest s))"
  shows "e_time e \<le> e_time x \<and> e_length x = k_length (ks ! e_kernel x)"
proof -
  have slow: "0 \<le> 1 + a_CPUslow (apps ! k_appid (ks ! c))" if "c < length ks" for c
  proof -
    have "-1 \<le> a_CPUslow (apps ! k_appid (ks ! c))"
      using T nth_mem [OF prog_okD(2) [OF P that]] unfolding times_ok_def by blast
    then show ?thesis by simp
  qed
  have c: "c < length ks" "k_end (ks ! e_kernel e) \<le> k_start (ks ! c)" if "c \<in> set (k_next (ks ! e_kernel e))" for c
    using prog_okD(3) [OF P k that] T k that by (auto simp: times_ok_def)
  have nt: "e_time e \<le> next_time exact ks (e_time e) (e_kernel e) (\<lambda>c. a_CPUslow (apps ! k_appid (ks ! j c))) c"
    if "c \<in> set (k_next (ks ! e_kernel e))" "j c < length ks" for c j
    using slow [OF that(2)] c(2) [OF that(1)] by (simp add: next_time_def)
  define j where "j c = (if e_type e = 1 then e_kernel e else c)" for c
  define base where "base = rev (map (\<lambda>c. submit exact ks c (next_time exact ks (e_time e) (e_kernel e)
     (\<lambda>c. a_CPUslow (apps ! k_appid (ks ! j c))) c)) (k_next (ks ! e_kernel e))) @ rest"
  have base: "e_time e \<le> e_time y \<and> e_length y = k_length (ks ! e_kernel y)" if "y \<in> set base" for y
    using that q nt k c(1) by (auto simp: base_def j_def submit_def)
  let ?c = "sim.count s (e_type e) - 1"
  have "queue (finish_event exact apps ks e rest s) = map (if e_type e \<noteq> 1 \<and> ?c \<ge> 1 then delay exact (e_type e) (e_time e) ?c (?c + 1) else (\<lambda>e. e)) base"
    by (cases "e_type e = 1") (simp_all add: finish_event_def finished_kernel_def finished_memcpy_def Let_def submit_nexts_eq base_def j_def)
  then show ?thesis using x base delay_ahead [where n = ?c and d = "?c + 1"] by (auto split: if_splits)
qed

lemma round_ahead:
  assumes P: "prog_ok apps ks" and T: "times_ok apps ks" and I: "sim_inv apps ks s" and A: "ahead ks s"
    and e: "is_top exact e s" and r: "sim_round exact verb apps ks e s = Go s'"
  shows "ahead ks s' \<and> now s \<le> now s' \<and> now s' = e_time e"
proof -
  let ?rest = "remove1 e (queue s)"
  have q: "e \<in> set (queue s)" using e by (simp add: is_top_def)
  have k: "e_kernel e < length ks" "e_type e = k_type (ks ! e_kernel e)" using sim_invD(1) [OF I q] by (auto simp: event_ok_def)
  have len: "0 \<le> e_length e" "e_length e = k_length (ks ! e_kernel e)" using A q T k by (auto simp: ahead_def times_ok_def)
  have rest: "\<forall>x \<in> set ?rest. e_time e \<le> e_time x \<and> e_length x = k_length (ks ! e_kernel x)"
    using A e set_remove1_sub [of _ e "queue s"] by (fastforce simp: ahead_def is_top_def list_all_iff)
  have now: "now s \<le> e_time e" using A q by (simp add: ahead_def)
  consider "e_status e = 1" "e_type e = 1" | "e_status e = 1" "e_type e \<noteq> 1" | "e_status e = 2"
    using sim_invD(1) [OF I q] by (auto simp: event_ok_def)
  then have "ahead ks s' \<and> now s' = e_time e"
  proof cases
    case 1
    show ?thesis
    proof (cases "waits e s")
      case True
      have "\<not> k_sch s < e_time e" using exact.top_held_up(1) [OF I e True] by (simp add: held_up_def)
      then show ?thesis using sim_round_inv(3) [OF P I q r True] rest len by (auto simp: ahead_def wait_until_def)
    next
      case False
      then show ?thesis using r 1 rest len
        by (auto simp: sim_round_def submitted_kernel_def Let_def waits_def ahead_def)
    qed
  next
    case 2
    have c: "0 \<le> sim.count s (e_type e)"
      using prog_okD(1) [OF P k(1)] k(2) sim_invD(2) [OF I, of "e_type e"] num_nonneg by metis
    then have "e_time e \<le> e_time (delay exact (e_type e) (e_time e) (sim.count s (e_type e) + 1) (sim.count s (e_type e)) x)"
      if "x \<in> set ?rest" "sim.count s (e_type e) \<noteq> 0" for x using delay_ahead rest that by simp
    then show ?thesis using r 2 rest len c
      by (auto simp: sim_round_def submitted_memcpy_def Let_def ahead_def split: if_splits)
  next
    case 3
    have aid: "k_appid (ks ! e_kernel e) < length apps" by (rule prog_okD(2) [OF P k(1)])
    let ?s1 = "finish_event exact apps ks e ?rest (s\<lparr>ac := (ac s)(k_appid (ks ! e_kernel e) := ac s (k_appid (ks ! e_kernel e)) - 1), now := e_time e\<rparr>)"
    have s': "s' = end_of_iteration exact apps ks (e_time e) (k_appid (ks ! e_kernel e)) ?s1"
      using r 3 by (simp add: sim_round_def finished_def finish_event_def Let_def)
    have n1: "now ?s1 = e_time e"
      by (simp add: finish_event_def finished_kernel_def finished_memcpy_def Let_def submit_nexts_eq)
    have "0 \<le> k_start (ks ! a_first (apps ! k_appid (ks ! e_kernel e)))" using T aid by (simp add: times_ok_def)
    then show ?thesis using finish_event_ahead [OF P T k(1) rest] n1
      by (auto simp: s' end_of_iteration_def Let_def ahead_def submit_def)
  qed
  then show ?thesis using now by simp
qed

lemma init_ahead:
  assumes "times_ok apps ks"
  shows "ahead ks (sim_init exact mx apps ks)"
  using assms by (auto simp: ahead_def sim_init_def times_ok_def submit_def)

end
