(* ===== verification/Kernel_Sim_Props.thy ===== *)
theory Kernel_Sim_Props
  imports Kernel_Sim_Run
begin

text \<open>
  The properties of the co-location simulator, with a small pair of applications as their witness.
\<close>

subsection \<open>Two small applications\<close>

definition demo_ks :: "rat kernel list" where
  "demo_ks =
     [(Kernel exact 0 1 0 0 0 0)\<lparr>k_next := [1]\<rparr>, (Kernel exact 0 2 7 1 2 3)\<lparr>k_next := [2], k_parent := Some 0\<rparr>,
      (Kernel exact 0 1 0 5 0 0)\<lparr>k_parent := Some 1\<rparr>,
      (Kernel exact 1 1 0 0 0 0)\<lparr>k_next := [4]\<rparr>, (Kernel exact 1 1 7 2 3 0)\<lparr>k_next := [5], k_parent := Some 3\<rparr>,
      (Kernel exact 1 1 0 10 0 0)\<lparr>k_parent := Some 4\<rparr>]"

definition demo_apps :: "rat app list" where
  "demo_apps = [\<lparr>a_name = ''a'', a_first = 0, a_last = 2, a_length = 5, a_lengthCPU = 3, a_lengthGPU = 2, a_CPUslow = 0\<rparr>,
     \<lparr>a_name = ''b'', a_first = 3, a_last = 5, a_length = 10, a_lengthCPU = 7, a_lengthGPU = 3, a_CPUslow = 1\<rparr>]"

lemma all_less_6: "(\<forall>k < 6. P k) \<longleftrightarrow> P 0 \<and> P 1 \<and> P 2 \<and> P 3 \<and> P 4 \<and> P (5::nat)"
  by (auto simp: numeral_eq_Suc All_less_Suc)

lemma all_less_2: "(\<forall>k < 2. P k) \<longleftrightarrow> P 0 \<and> P (1::nat)"
  by (auto simp: numeral_eq_Suc All_less_Suc)

lemma demo_lengths: "length demo_ks = 6" "length demo_apps = 2"
  by (simp_all add: demo_ks_def demo_apps_def)

lemma demo_prog_ok: "prog_ok demo_apps demo_ks"
  unfolding prog_ok_def demo_lengths all_less_6 all_less_2
  by (simp add: demo_ks_def demo_apps_def Kernel_def computeEnd_def)

lemma demo_times_ok: "times_ok demo_apps demo_ks"
  unfolding times_ok_def demo_lengths all_less_6
  by (simp add: demo_ks_def demo_apps_def Kernel_def computeEnd_def)

lemma demo_work: "(\<Sum>i < length demo_apps. init_loop exact 10 (demo_apps ! i) * (2 * tsize demo_ks (a_first (demo_apps ! i)))) = 18"
proof -
  have "tsize demo_ks 0 = 3" "tsize demo_ks 3 = 3"
    by (simp_all add: demo_ks_def Kernel_def computeEnd_def tsize.simps)
  then show ?thesis by (simp add: demo_lengths numeral_2_eq_2) (simp add: demo_apps_def init_loop_def)
qed

text \<open>One round from the start: the GPU takes the first kernel of the second application.\<close>

definition demo_head :: "rat event" where
  "demo_head = submit exact demo_ks 3 0"

lemma demo_step: "\<exists>s. sim_step exact 0 demo_apps demo_ks (sim_init exact 10 demo_apps demo_ks) s"
proof -
  have "is_top exact demo_head (sim_init exact 10 demo_apps demo_ks)"
    by (simp add: is_top_def sim_init_def demo_head_def) (simp add: demo_apps_def demo_ks_def Kernel_def computeEnd_def)
  from exact.round_defined [OF sim_init_inv(1) [OF demo_prog_ok] this, of 0]
  show ?thesis using \<open>is_top exact demo_head _\<close> by (auto intro: sim_step.intros)
qed

lemma run_path:
  "sim_run F verb apps ks fuel s = Some (Go s') \<Longrightarrow> sim_path F verb apps ks s0 n s \<Longrightarrow> \<exists>m. sim_path F verb apps ks s0 m s'"
proof (induction fuel arbitrary: s n)
  case (Suc fuel)
  show ?case
  proof (cases "find (\<lambda>e. is_top F e s) (queue s)")
    case None
    then show ?thesis using Suc.prems by auto
  next
    case (Some e)
    then have t: "is_top F e s" by (auto simp: find_Some_iff)
    obtain s1 where s1: "sim_round F verb apps ks e s = Go s1"
      using Suc.prems(1) Some by (cases "sim_round F verb apps ks e s") auto
    show ?thesis using Suc.IH [OF _ sim_path.round [OF Suc.prems(2) t s1]] Suc.prems(1) Some s1 by simp
  qed
qed simp

subsection \<open>Bandwidth\<close>

definition no_bandwidth :: "'d dops \<Rightarrow> 'd sim \<Rightarrow> bool" where
  "no_bandwidth F s \<longleftrightarrow> (\<forall>e \<in> set (queue s). e_bw e = d_int F 0)"

lemma delay_bw [simp]: "e_bw (delay F ty t n d e) = e_bw e"
  by (simp add: delay_def)

lemma submit_bw [simp]: "e_bw (submit F ks c t) = d_int F 0"
  by (simp add: submit_def)

lemma round_no_bandwidth:
  assumes "no_bandwidth F s" "e \<in> set (queue s)" "sim_round F verb apps ks e s = Go s'"
  shows "no_bandwidth F s'"
proof -
  have rest: "\<forall>x \<in> set (remove1 e (queue s)). e_bw x = d_int F 0" "e_bw e = d_int F 0"
    using assms(1,2) set_remove1_sub [of _ e "queue s"] by (auto simp: no_bandwidth_def)
  have fin: "no_bandwidth F (finish_event F apps ks e (remove1 e (queue s)) s0)" for s0
  proof -
    obtain tm D where "queue (finish_event F apps ks e (remove1 e (queue s)) s0) =
        map D (rev (map (\<lambda>c. submit F ks c (tm c)) (k_next (ks ! e_kernel e))) @ remove1 e (queue s))"
      "D = (\<lambda>e. e) \<or> (\<exists>t n d. D = delay F (e_type e) t n d) \<and> e_type e \<noteq> 1" by (rule finish_event_queue)
    then show ?thesis using rest(1) by (auto simp: no_bandwidth_def)
  qed
  show ?thesis
  proof (cases "e_status e = 2")
    case True
    then have "s' = end_of_iteration F apps ks (e_time e) (k_appid (ks ! e_kernel e))
      (finish_event F apps ks e (remove1 e (queue s)) (s\<lparr>ac := (ac s)(k_appid (ks ! e_kernel e) := ac s (k_appid (ks ! e_kernel e)) - 1), now := e_time e\<rparr>))"
      using assms(3) by (simp add: sim_round_def finished_def finish_event_def Let_def)
    then show ?thesis using fin by (auto simp: end_of_iteration_def Let_def no_bandwidth_def)
  next
    case False
    then show ?thesis using assms rest
      by (auto simp: sim_round_def submitted_kernel_def submitted_memcpy_def wait_until_def Let_def no_bandwidth_def split: if_splits)
  qed
qed

subsection \<open>Properties\<close>

text \<open>
  C36: in every state the simulation can reach, with any arithmetic and however ties are broken, at most one
  kernel runs on the GPU, and \<^verbatim>\<open>count\<close> is the number of kernels and of memory copies of each direction that run.
\<close>

theorem one_kernel_at_a_time:
  assumes "prog_ok apps ks" "(sim_step F verb apps ks)\<^sup>*\<^sup>* (sim_init F mx apps ks) s"
  shows "length (filter (running 1) (queue s)) \<le> 1 \<and> sim.count s 1 = int (length (filter (running 1) (queue s))) \<and>
     sim.count s 2 = int (length (filter (running 2) (queue s))) \<and> sim.count s 3 = int (length (filter (running 3) (queue s)))"
proof -
  have I: "sim_inv apps ks s" by (rule steps_inv [OF assms(2,1) sim_init_inv(1) [OF assms(1)]])
  show ?thesis using sim_invD(2) [OF I, of 1] sim_invD(2) [OF I, of 2] sim_invD(2) [OF I, of 3] sim_invD(3) [OF I]
    by (simp add: num_def)
qed

theorem one_kernel_at_a_time_witness:
  "\<exists>s. sim_step exact 0 demo_apps demo_ks (sim_init exact 10 demo_apps demo_ks) s \<and> length (filter (running 1) (queue s)) \<le> 1"
  using demo_step one_kernel_at_a_time [OF demo_prog_ok, of exact 0 10] by blast

text \<open>
  the simulation ends, with every application having started its last iteration, no event of it left, and its
  finishing time recorded. The arithmetic may be any that satisfies the laws of the locale \<open>clock\<close>; the verbosity is
  below 2 (at 2 and above the program may read the top of an empty queue).
\<close>

theorem simulation_completes:
  assumes "clock F" "prog_ok apps ks" "verb < 2"
  shows "\<exists>fuel s'. sim_run F verb apps ks fuel (sim_init F mx apps ks) = Some (Go s') \<and> queue s' = [] \<and>
     (\<forall>i < length apps. loop s' i = 1 \<and> ac s' i = 0 \<and> rt s' i \<noteq> None)"
  using clock.run_completes [OF assms(1,2) sim_init_inv(1) [OF assms(2)] assms(3)] work_done(2) by blast

theorem simulation_completes_witness:
  "\<exists>fuel s'. sim_run exact 1 demo_apps demo_ks fuel (sim_init exact 10 demo_apps demo_ks) = Some (Go s') \<and> rt s' 0 \<noteq> None"
proof -
  have "0 < length demo_apps" "(1::int) < 2" by (simp_all add: demo_lengths)
  then show ?thesis using simulation_completes [OF exact.clock_axioms demo_prog_ok, of 1 10] by blast
qed

text \<open>
  no run goes on for ever, however ties between events of equal time are broken.
\<close>

theorem no_endless_simulation:
  assumes "clock F" "prog_ok apps ks" "f 0 = sim_init F mx apps ks"
  shows "\<not> (\<forall>i::nat. sim_step F verb apps ks (f i) (f (Suc i)))"
  using clock.no_infinite_run [OF assms(1,2), of f verb] sim_init_inv(1) [OF assms(2)] assms(3) by metis

theorem no_endless_simulation_witness:
  "\<not> (\<forall>i::nat. sim_step exact 0 demo_apps demo_ks (sim_init exact 10 demo_apps demo_ks) (sim_init exact 10 demo_apps demo_ks))"
  using no_endless_simulation [OF exact.clock_axioms demo_prog_ok, of "\<lambda>_. sim_init exact 10 demo_apps demo_ks" 10 0] by simp

text \<open>
  every complete run, with any arithmetic and however ties are broken, starts and finishes each kernel of each
  application exactly as often as the application has iterations: apart from the rounds that put a waiting kernel
  off, it has two rounds per kernel and iteration.
\<close>

theorem every_kernel_runs:
  assumes "prog_ok apps ks" "sim_path F verb apps ks (sim_init F mx apps ks) n s" "queue s = []"
  shows "int n = (\<Sum>i < length apps. init_loop F mx (apps ! i) * (2 * tsize ks (a_first (apps ! i))))"
proof -
  have "sim_inv apps ks s" "work apps ks s = work apps ks (sim_init F mx apps ks) - int n"
    using sim_path_inv [OF assms(2,1) sim_init_inv(1) [OF assms(1)]] by simp_all
  then show ?thesis using work_done(1) [of apps ks s] assms(3) sim_init_inv(2) [OF assms(1), of F mx] by simp
qed

theorem every_kernel_runs_witness:
  "\<exists>n s. sim_path exact 0 demo_apps demo_ks (sim_init exact 10 demo_apps demo_ks) n s \<and> queue s = [] \<and> n = 18"
proof -
  obtain fuel s where r: "sim_run exact 0 demo_apps demo_ks fuel (sim_init exact 10 demo_apps demo_ks) = Some (Go s)" "queue s = []"
    using exact.run_completes [OF demo_prog_ok sim_init_inv(1) [OF demo_prog_ok], of 0] by force
  from run_path [OF this(1) sim_path.start] obtain n
    where "sim_path exact 0 demo_apps demo_ks (sim_init exact 10 demo_apps demo_ks) n s" by blast
  moreover from every_kernel_runs [OF demo_prog_ok this r(2)] have "n = 18" by (simp add: demo_work)
  ultimately show ?thesis using r(2) by blast
qed

text \<open>
  with exact arithmetic and a profile without negative gaps and durations, simulated time never runs backwards.
\<close>

theorem time_is_monotone:
  assumes "prog_ok apps ks" "times_ok apps ks"
    and "(sim_step exact verb apps ks)\<^sup>*\<^sup>* (sim_init exact mx apps ks) s" "sim_step exact verb apps ks s s'"
  shows "now s \<le> now s'"
proof -
  have "sim_inv apps ks s \<and> ahead ks s"
    using assms(3)
  proof (induction rule: rtranclp_induct)
    case base
    show ?case using sim_init_inv(1) [OF assms(1)] init_ahead [OF assms(2)] by blast
  next
    case (step s1 s2)
    then show ?case using sim_round_inv(1) [OF assms(1)] round_ahead [OF assms(1,2)]
      by (auto elim!: sim_stepE simp: is_top_def)
  qed
  then show ?thesis using assms(4) round_ahead [OF assms(1,2)] by (blast elim: sim_stepE)
qed

theorem time_is_monotone_witness:
  "\<exists>s'. sim_step exact 0 demo_apps demo_ks (sim_init exact 10 demo_apps demo_ks) s' \<and>
     now (sim_init exact 10 demo_apps demo_ks) \<le> now s'"
  using demo_step time_is_monotone [OF demo_prog_ok demo_times_ok rtranclp.rtrancl_refl] by blast

text \<open>
  the bandwidth of a kernel never reaches the simulation: every event of every reachable state carries the
  bandwidth 0 of the default constructor.
\<close>

theorem bandwidth_is_ignored:
  assumes "(sim_step F verb apps ks)\<^sup>*\<^sup>* (sim_init F mx apps ks) s" "e \<in> set (queue s)"
  shows "e_bw e = d_int F 0"
proof -
  have "no_bandwidth F s" using assms(1)
  proof (induction rule: rtranclp_induct)
    case base
    show ?case by (auto simp: no_bandwidth_def sim_init_def)
  next
    case (step s1 s2)
    then show ?case by (auto elim!: sim_stepE simp: is_top_def intro: round_no_bandwidth)
  qed
  then show ?thesis using assms(2) by (simp add: no_bandwidth_def)
qed

theorem bandwidth_is_ignored_witness: "e_bw demo_head = 0"
proof -
  have "demo_head \<in> set (queue (sim_init exact 10 demo_apps demo_ks))"
    by (simp add: sim_init_def demo_head_def) (simp add: demo_apps_def demo_ks_def Kernel_def computeEnd_def)
  from bandwidth_is_ignored [OF rtranclp.rtrancl_refl this] show ?thesis by simp
qed

text \<open>
  a round reads the top of an empty queue exactly when the verbosity is 2 or more and the event is a submitted
  memory copy that is the only event in the queue.
\<close>

theorem empty_queue_read:
  assumes "queue s = e # es"
  shows "sim_round F verb apps ks e s = Undefined \<longleftrightarrow> 2 \<le> verb \<and> e_status e = 1 \<and> e_type e \<noteq> 1 \<and> es = []"
  using assms by (auto simp: sim_round_def submitted_kernel_def submitted_memcpy_def Let_def)

theorem empty_queue_read_witness:
  "sim_round exact 2 demo_apps demo_ks (submit exact demo_ks 1 1)
     ((sim_init exact 10 demo_apps demo_ks)\<lparr>queue := [submit exact demo_ks 1 1]\<rparr>) = Undefined"
  using empty_queue_read [of "(sim_init exact 10 demo_apps demo_ks)\<lparr>queue := [submit exact demo_ks 1 1]\<rparr>" "submit exact demo_ks 1 1" "[]"]
  by (simp add: submit_def demo_ks_def Kernel_def computeEnd_def)

end
