(* ===== verification/Kernel_Sim_Input.thy ===== *)
theory Kernel_Sim_Input
  imports Kernel_Sim_Run
begin

text \<open>
  \<^verbatim>\<open>getInput\<close> of \<^verbatim>\<open>KernelSim/src/KernelSim.cpp\<close>: reading the profiles of the applications into trees of
  kernels. The input is taken after tokenisation: a profile is its three header lines and its rows.
\<close>

subsection \<open>Profiles\<close>

record 'd row =
  r_stream :: 'd
  r_name :: string
  r_start :: 'd
  r_length :: 'd
  r_bw :: 'd

text \<open>\<open>p_label\<close> is the last of the three header labels; the other two are read and dropped.\<close>

record 'd profile =
  p_CPUslow :: 'd
  p_length :: 'd
  p_lengthGPU :: 'd
  p_lengthCPU :: 'd
  p_label :: string
  p_rows :: "'d row list"

text \<open>
  What reading can come to: \<^verbatim>\<open>return false\<close> with the number in the message, or a step through a null pointer
  or past the end of \<^verbatim>\<open>Apps\<close>, which is undefined.
\<close>

datatype 'a load = Loaded 'a | Load_error nat | Load_undefined

fun lbind :: "'a load \<Rightarrow> ('a \<Rightarrow> 'b load) \<Rightarrow> 'b load" where
  "lbind (Loaded x) f = f x"
| "lbind (Load_error n) f = Load_error n"
| "lbind Load_undefined f = Load_undefined"

lemma lbind_Loaded_iff: "lbind m f = Loaded y \<longleftrightarrow> (\<exists>x. m = Loaded x \<and> f x = Loaded y)"
  by (cases m) auto

subsection \<open>One row\<close>

definition row_type :: "string \<Rightarrow> nat" where
  "row_type name = (if name = ''[CUDA_memcpy_HtoD]'' then 2 else if name = ''[CUDA_memcpy_DtoH]'' then 3 else 1)"

definition row_kernel :: "'d dops \<Rightarrow> nat \<Rightarrow> 'd row \<Rightarrow> 'd kernel" where
  "row_kernel F i r =
     (setLength F (r_length r) (setStart F (r_start r)
       ((Kernel F 0 0 0 (d_int F 0) (d_int F 0) (d_int F 0))
          \<lparr>k_stream := d_trunc F (r_stream r), k_appid := i, k_type := row_type (r_name r)\<rparr>)))\<lparr>k_bw := r_bw r\<rparr>"

text \<open>\<^verbatim>\<open>newKernel->setParent(p)\<close> and \<^verbatim>\<open>p->addNextKernel(newKernel)\<close>; the new kernel gets the next free index.\<close>

definition attach :: "nat \<Rightarrow> 'd kernel \<Rightarrow> 'd kernel list \<Rightarrow> 'd kernel list option" where
  "attach p k ks = addNextKernel p (length ks) (ks @ [k\<lparr>k_parent := Some p\<rparr>])"

text \<open>
  A row hangs below the kernel that was added last if it starts after that kernel ends, else below the last
  sibling of that kernel that has ended, else below the parent. The state is the store and the last kernel.
\<close>

definition add_row :: "'d dops \<Rightarrow> nat \<Rightarrow> 'd row \<Rightarrow> 'd kernel list \<times> nat \<Rightarrow> ('d kernel list \<times> nat) load" where
  "add_row F i r = (\<lambda>(ks, last).
     if r_name r = ''[CUDA_memset]'' then Loaded (ks, last)
     else let k = row_kernel F i r in
       if d_le F (k_end (ks ! last)) (k_start k) then
         (case attach last k ks of None \<Rightarrow> Load_error 0 | Some ks' \<Rightarrow> Loaded (ks', length ks))
       else case k_parent (ks ! last) of
         None \<Rightarrow> Load_undefined
       | Some par \<Rightarrow>
         (case find (\<lambda>bro. d_le F (k_end (ks ! bro)) (k_start k)) (rev (k_next (ks ! par))) of
            Some bro \<Rightarrow> (case attach bro k ks of None \<Rightarrow> Load_error 1 | Some ks' \<Rightarrow> Loaded (ks', length ks))
          | None \<Rightarrow>
            if d_lt F (k_start k) (k_end (ks ! par)) then Load_error 2
            else (case attach par k ks of None \<Rightarrow> Loaded (ks, last) | Some ks' \<Rightarrow> Loaded (ks', length ks))))"

fun add_rows :: "'d dops \<Rightarrow> nat \<Rightarrow> 'd row list \<Rightarrow> 'd kernel list \<times> nat \<Rightarrow> ('d kernel list \<times> nat) load" where
  "add_rows F i [] st = Loaded st"
| "add_rows F i (r # rs) st = lbind (add_row F i r st) (add_rows F i rs)"

subsection \<open>Applications\<close>

text \<open>
  The head and the tail are kernels of length 0. The result of \<^verbatim>\<open>addNextKernel(tail)\<close> is not looked at.
\<close>

definition load_app :: "'d dops \<Rightarrow> nat \<Rightarrow> string \<Rightarrow> 'd profile \<Rightarrow> 'd kernel list \<Rightarrow> ('d app \<times> 'd kernel list) load" where
  "load_app F i name p ks =
     (let z = d_int F 0; head = length ks in
      lbind (add_rows F i (p_rows p) (ks @ [Kernel F i 1 0 z z z], head)) (\<lambda>(ks1, last).
        let tail = (Kernel F i 1 0 (p_length p) z z)\<lparr>k_parent := Some last\<rparr>;
            ks2 = (case addNextKernel last (length ks1) (ks1 @ [tail]) of None \<Rightarrow> ks1 @ [tail] | Some ks' \<Rightarrow> ks') in
        Loaded (\<lparr>a_name = name, a_first = head, a_last = length ks1, a_length = p_length p,
                 a_lengthCPU = p_lengthCPU p, a_lengthGPU = p_lengthGPU p, a_CPUslow = p_CPUslow p\<rparr>, ks2)))"

text \<open>
  \<^verbatim>\<open>newApp.setName(temp)\<close> names an application after the token that was read last, not after its file:
  \<open>temp\<close> is the name in the last row of the application before it.
\<close>

definition last_token :: "'d profile \<Rightarrow> string" where
  "last_token p = (if p_rows p = [] then p_label p else r_name (List.last (p_rows p)))"

fun load_apps :: "'d dops \<Rightarrow> nat \<Rightarrow> string \<Rightarrow> 'd profile list \<Rightarrow> 'd kernel list \<Rightarrow> ('d app list \<times> 'd kernel list) load" where
  "load_apps F i temp [] ks = Loaded ([], ks)"
| "load_apps F i temp (p # ps) ks =
     lbind (load_app F i temp p ks) (\<lambda>(a, ks1).
     lbind (load_apps F (Suc i) (last_token p) ps ks1) (\<lambda>(as, ks2). Loaded (a # as, ks2)))"

text \<open>The last line of \<^verbatim>\<open>getInput\<close> looks at \<^verbatim>\<open>Apps[0]\<close>.\<close>

definition getInput :: "'d dops \<Rightarrow> 'd profile list \<Rightarrow> ('d app list \<times> 'd kernel list) load" where
  "getInput F ps = lbind (load_apps F 0 [] ps []) (\<lambda>(apps, ks). if apps = [] then Load_undefined else Loaded (apps, ks))"

text \<open>\<^verbatim>\<open>main\<close>: the exit status is 0, or -1 when reading or the simulation reported an error.\<close>

definition main_program :: "'d dops \<Rightarrow> 'd \<Rightarrow> int \<Rightarrow> nat \<Rightarrow> 'd profile list \<Rightarrow> int load option" where
  "main_program F max_time verb fuel ps =
     (case getInput F ps of
        Load_error n \<Rightarrow> Some (Loaded (-1))
      | Load_undefined \<Rightarrow> Some Load_undefined
      | Loaded (apps, ks) \<Rightarrow>
        (case sim_run F verb apps ks fuel (sim_init F max_time apps ks) of
           None \<Rightarrow> None
         | Some (Go s) \<Rightarrow> Some (Loaded 0)
         | Some Return_false \<Rightarrow> Some (Loaded (-1))
         | Some Undefined \<Rightarrow> Some Load_undefined))"

subsection \<open>The trees that are built\<close>

lemma find_Some_in: "find P (rev xs) = Some x \<Longrightarrow> x \<in> set xs"
  by (auto simp: find_Some_iff) (metis length_rev nth_mem set_rev)

definition store_ok :: "nat \<Rightarrow> 'd kernel list \<Rightarrow> bool" where
  "store_ok n ks \<longleftrightarrow> (\<forall>k < length ks. k_type (ks ! k) \<in> {1, 2, 3} \<and> k_appid (ks ! k) < n \<and>
     (\<forall>c \<in> set (k_next (ks ! k)). k < c \<and> c < length ks \<and> k_appid (ks ! c) = k_appid (ks ! k)) \<and>
     distinct (map (\<lambda>c. k_type (ks ! c)) (k_next (ks ! k))) \<and>
     (\<forall>p. k_parent (ks ! k) = Some p \<longrightarrow> p < k \<and> k \<in> set (k_next (ks ! p))))"

lemma store_okD:
  assumes "store_ok n ks" "j < length ks"
  shows "k_type (ks ! j) \<in> {1, 2, 3}" "k_appid (ks ! j) < n"
    "c \<in> set (k_next (ks ! j)) \<Longrightarrow> j < c \<and> c < length ks \<and> k_appid (ks ! c) = k_appid (ks ! j)"
    "distinct (map (\<lambda>c. k_type (ks ! c)) (k_next (ks ! j)))"
    "k_parent (ks ! j) = Some q \<Longrightarrow> q < j \<and> j \<in> set (k_next (ks ! q))"
  using assms unfolding store_ok_def by blast+

text \<open>
  While application \<open>i\<close> is read: its kernels follow those of the applications before it, \<open>ks0\<close>, all but the
  head have a parent, and the last one has no successor yet.
\<close>

definition building :: "nat \<Rightarrow> 'd kernel list \<Rightarrow> 'd kernel list \<times> nat \<Rightarrow> bool" where
  "building i ks0 st \<longleftrightarrow> (case st of (ks, l) \<Rightarrow> store_ok i ks0 \<and> store_ok (Suc i) ks \<and> take (length ks0) ks = ks0 \<and>
     length ks0 \<le> l \<and> l < length ks \<and> (\<forall>k < length ks. length ks0 \<le> k \<longrightarrow> k_appid (ks ! k) = i) \<and> k_next (ks ! l) = [] \<and>
     (\<forall>k < length ks. length ks0 < k \<longrightarrow> k_parent (ks ! k) \<noteq> None))"

lemma buildingD:
  assumes "building i ks0 (ks, l)"
  shows "store_ok i ks0" "store_ok (Suc i) ks" "take (length ks0) ks = ks0" "length ks0 \<le> l" "l < length ks"
    "k < length ks \<Longrightarrow> length ks0 \<le> k \<Longrightarrow> k_appid (ks ! k) = i" "k_next (ks ! l) = []"
    "k < length ks \<Longrightarrow> length ks0 < k \<Longrightarrow> k_parent (ks ! k) \<noteq> None"
  using assms by (auto simp: building_def)

lemma attach_nth:
  assumes "attach p k ks = Some ks'" "p < length ks"
  shows "length ks' = Suc (length ks)" "ks' ! length ks = k\<lparr>k_parent := Some p\<rparr>"
    "ks' ! p = (ks ! p)\<lparr>k_next := k_next (ks ! p) @ [length ks]\<rparr>" "j < length ks \<Longrightarrow> j \<noteq> p \<Longrightarrow> ks' ! j = ks ! j"
  using assms by (auto simp: attach_def addNextKernel_def nth_append split: if_splits)

lemma attach_store_ok:
  assumes S: "store_ok n ks" and a: "attach p k ks = Some ks'" and p: "p < length ks"
    and k: "k_type k \<in> {1, 2, 3}" "k_appid k = k_appid (ks ! p)" "k_next k = []"
  shows "store_ok n ks'"
proof -
  note at = attach_nth [OF a p]
  have keep: "k_type (ks' ! j) = k_type (ks ! j)" "k_appid (ks' ! j) = k_appid (ks ! j)" "k_parent (ks' ! j) = k_parent (ks ! j)"
    "set (k_next (ks ! j)) \<subseteq> set (k_next (ks' ! j))" if "j < length ks" for j
    using at(3) at(4) [OF that] by (cases "j = p"; auto)+
  have fresh: "\<not> list_ex (\<lambda>m. k_type k = k_type (ks ! m)) (k_next (ks ! p))"
  proof -
    have "\<not> list_ex (\<lambda>m. k_type ((ks @ [k\<lparr>k_parent := Some p\<rparr>]) ! length ks) = k_type ((ks @ [k\<lparr>k_parent := Some p\<rparr>]) ! m))
        (k_next ((ks @ [k\<lparr>k_parent := Some p\<rparr>]) ! p))"
      using a by (auto simp: attach_def addNextKernel_def split: if_splits)
    moreover have "m < length ks" if "m \<in> set (k_next (ks ! p))" for m using store_okD(3) [OF S p] that by blast
    ultimately show ?thesis using p by (simp add: nth_append list_ex_iff)
  qed
  note old = store_okD [OF S]
  have mp: "map (\<lambda>c. k_type (ks' ! c)) (k_next (ks ! j)) = map (\<lambda>c. k_type (ks ! c)) (k_next (ks ! j))" if "j < length ks" for j
    using old(3) [OF that] keep(1) by auto
  have par: "q < j \<and> j \<in> set (k_next (ks' ! q))" if "j < length ks" "k_parent (ks ! j) = Some q" for j q
    using old(5) [OF that] keep(4) [of q] that(1) by auto
  show ?thesis
    unfolding store_ok_def at(1)
  proof (intro allI impI)
    fix j assume "j < Suc (length ks)"
    then consider "j = length ks" | "j = p" | "j < length ks" "j \<noteq> p" by linarith
    then show "k_type (ks' ! j) \<in> {1, 2, 3} \<and> k_appid (ks' ! j) < n \<and>
      (\<forall>c \<in> set (k_next (ks' ! j)). j < c \<and> c < Suc (length ks) \<and> k_appid (ks' ! c) = k_appid (ks' ! j)) \<and>
      distinct (map (\<lambda>c. k_type (ks' ! c)) (k_next (ks' ! j))) \<and>
      (\<forall>q. k_parent (ks' ! j) = Some q \<longrightarrow> q < j \<and> j \<in> set (k_next (ks' ! q)))"
    proof cases
      case 1
      then show ?thesis using at(2,3) k p old(2) [OF p] by simp
    next
      case 2
      have "distinct (map (\<lambda>c. k_type (ks' ! c)) (k_next (ks' ! p)))"
        using old(4) [OF p] fresh by (auto simp: at(2,3) mp [OF p] list_ex_iff)
      moreover have "k_appid (ks' ! c) = k_appid (ks ! p)" "p < c" "c < Suc (length ks)" if "c \<in> set (k_next (ks' ! p))" for c
        using that at(2,3) k(2) p old(3) [OF p] keep(2) by (auto simp: less_Suc_eq)
      ultimately show ?thesis using 2 p old(1,2) [OF p] keep(1-3) [OF p] par [OF p] by auto
    next
      case 3
      have "distinct (map (\<lambda>c. k_type (ks' ! c)) (k_next (ks ! j)))" using old(4) [OF 3(1)] by (simp only: mp [OF 3(1)])
      then show ?thesis using par [OF 3(1)] 3 old(1,2) [OF 3(1)] old(3) [OF 3(1)] keep(2) at(4) by (auto simp: less_Suc_eq)
    qed
  qed
qed

lemma row_kernel_simps [simp]:
  "k_type (row_kernel F i r) = row_type (r_name r)" "k_appid (row_kernel F i r) = i" "k_next (row_kernel F i r) = []"
  "k_start (row_kernel F i r) = r_start r" "k_end (row_kernel F i r) = d_add F (r_start r) (r_length r)" "k_bw (row_kernel F i r) = r_bw r"
  by (simp_all add: row_kernel_def setLength_def setStart_def Kernel_def computeEnd_def)

lemma row_type_range: "row_type n \<in> {1, 2, 3}"
  by (simp add: row_type_def)

text \<open>Hanging a kernel below any kernel of the application keeps the trees and makes it the last one.\<close>

lemma attach_building:
  assumes B: "building i ks0 (ks, l)" and p: "length ks0 \<le> p" "p < length ks" and a: "attach p k ks = Some ks'"
    and k: "k_type k \<in> {1, 2, 3}" "k_appid k = i" "k_next k = []"
  shows "building i ks0 (ks', length ks)"
proof -
  note b = buildingD [OF B]
  note at = attach_nth [OF a p(2)]
  have "store_ok (Suc i) ks'"
    by (rule attach_store_ok [OF b(2) a p(2)]) (use k b(6) p in auto)
  moreover have "take (length ks0) ks' = ks0"
  proof -
    have "take (length ks0) ks' = take (length ks0) ks"
      by (rule nth_equalityI) (use at p in auto)
    then show ?thesis using b(3) by simp
  qed
  moreover have "k_appid (ks' ! j) = i" if "j < Suc (length ks)" "length ks0 \<le> j" for j
    using that at b(6) p k by (cases "j = length ks"; cases "j = p"; auto)
  moreover have "k_parent (ks' ! j) \<noteq> None" if "j < Suc (length ks)" "length ks0 < j" for j
    using that at b(8) p by (cases "j = length ks"; cases "j = p"; auto)
  ultimately show ?thesis using at b(1,4,5) k(3) p by (simp add: building_def)
qed

lemma attach_last:
  assumes "building i ks0 (ks, l)"
  shows "attach l k ks \<noteq> None"
  using buildingD(5,7) [OF assms] by (auto simp: attach_def addNextKernel_def nth_append)

lemma add_row_building:
  assumes B: "building i ks0 (ks, l)" and r: "add_row F i r (ks, l) = Loaded st"
  shows "building i ks0 st"
proof -
  note b = buildingD [OF B]
  have par: "length ks0 \<le> p \<and> p < length ks" if "k_parent (ks ! l) = Some p" for p
  proof -
    have pl: "p < l" "l \<in> set (k_next (ks ! p))" using store_okD(5) [OF b(2,5) that] by auto
    then have p: "p < length ks" "k_appid (ks ! p) = i" using store_okD(3) [OF b(2), of p l] b(5) b(6) [OF b(5,4)] by auto
    have "\<not> p < length ks0"
    proof
      assume "p < length ks0"
      then have "k_appid (ks0 ! p) < i" by (rule store_okD(2) [OF b(1)])
      moreover have "ks0 ! p = ks ! p" using b(3) nth_take [OF \<open>p < length ks0\<close>, of ks] by simp
      ultimately show False using p(2) by simp
    qed
    then show ?thesis using p by simp
  qed
  have bro: "length ks0 \<le> q \<and> q < length ks" if "k_parent (ks ! l) = Some p" "q \<in> set (k_next (ks ! p))" for p q
    using par [OF that(1)] store_okD(3) [OF b(2), of p q] that(2) by simp
  have at: "building i ks0 (ks', length ks)" if "length ks0 \<le> p" "p < length ks" "attach p (row_kernel F i r) ks = Some ks'" for p ks'
    by (rule attach_building [OF B that]) (use row_type_range in auto)
  have at_bro: "building i ks0 (ks', length ks)"
    if "k_parent (ks ! l) = Some p" "q \<in> set (k_next (ks ! p))" "attach q (row_kernel F i r) ks = Some ks'" for p q ks'
    using at bro [OF that(1,2)] that(3) by blast
  show ?thesis
    using r B at [OF b(4,5)] at par at_bro
    by (auto simp: add_row_def Let_def split: if_splits option.splits dest!: find_Some_in)
qed

lemma add_row_no_error0: "building i ks0 (ks, l) \<Longrightarrow> add_row F i r (ks, l) \<noteq> Load_error 0"
  using attach_last [of i ks0 ks l "row_kernel F i r"] by (auto simp: add_row_def Let_def split: option.splits)

lemma add_rows_building:
  assumes "building i ks0 st"
  shows "(\<forall>st'. add_rows F i rs st = Loaded st' \<longrightarrow> building i ks0 st') \<and> add_rows F i rs st \<noteq> Load_error 0"
  using assms
proof (induction rs arbitrary: st)
  case (Cons r rs)
  obtain ks l where st: "st = (ks, l)" by (cases st)
  show ?case
  proof (cases "add_row F i r st")
    case (Loaded st1)
    then have "building i ks0 st1" using add_row_building [of i ks0 ks l F r st1] Cons.prems st by simp
    then show ?thesis using Cons.IH [of st1] Loaded by simp
  next
    case (Load_error n)
    then show ?thesis using add_row_no_error0 [of i ks0 ks l F r] Cons.prems st by auto
  qed simp
qed simp

lemma store_ok_mono: "store_ok n ks \<Longrightarrow> n \<le> m \<Longrightarrow> store_ok m ks"
  unfolding store_ok_def by (meson order_less_le_trans)

lemma store_ok_append:
  assumes S: "store_ok n ks" and k: "k_type k \<in> {1, 2, 3}" "k_appid k < n" "k_next k = []" "k_parent k = None"
  shows "store_ok n (ks @ [k])"
  unfolding store_ok_def
proof (intro allI impI)
  fix j assume "j < length (ks @ [k])"
  then consider "j = length ks" | "j < length ks" by fastforce
  then show "k_type ((ks @ [k]) ! j) \<in> {1, 2, 3} \<and> k_appid ((ks @ [k]) ! j) < n \<and>
     (\<forall>c \<in> set (k_next ((ks @ [k]) ! j)). j < c \<and> c < length (ks @ [k]) \<and> k_appid ((ks @ [k]) ! c) = k_appid ((ks @ [k]) ! j)) \<and>
     distinct (map (\<lambda>c. k_type ((ks @ [k]) ! c)) (k_next ((ks @ [k]) ! j))) \<and>
     (\<forall>p. k_parent ((ks @ [k]) ! j) = Some p \<longrightarrow> p < j \<and> j \<in> set (k_next ((ks @ [k]) ! p)))"
  proof cases
    case 1
    then show ?thesis using k by simp
  next
    case 2
    note old = store_okD [OF S 2]
    have "map (\<lambda>c. k_type ((ks @ [k]) ! c)) (k_next (ks ! j)) = map (\<lambda>c. k_type (ks ! c)) (k_next (ks ! j))"
      using old(3) by (auto simp: nth_append)
    then have "distinct (map (\<lambda>c. k_type ((ks @ [k]) ! c)) (k_next (ks ! j)))" using old(4) by (simp only:)
    moreover have "p < j \<and> j \<in> set (k_next ((ks @ [k]) ! p))" if "k_parent (ks ! j) = Some p" for p
      using old(5) [OF that] 2 by (simp add: nth_append)
    moreover have "j < c \<and> c < length (ks @ [k]) \<and> k_appid ((ks @ [k]) ! c) = k_appid (ks ! j)" if "c \<in> set (k_next (ks ! j))" for c
      using old(3) [OF that] by (simp add: nth_append)
    moreover have j: "(ks @ [k]) ! j = ks ! j" using 2 by (simp add: nth_append)
    ultimately show ?thesis using old(1,2) unfolding j by blast
  qed
qed

lemma Kernel_simps [simp]:
  "k_type (Kernel F a t s st l b) = t" "k_appid (Kernel F a t s st l b) = a" "k_next (Kernel F a t s st l b) = []"
  "k_parent (Kernel F a t s st l b) = None"
  by (simp_all add: Kernel_def computeEnd_def)

lemma load_app_ok:
  assumes S: "store_ok i ks" and l: "load_app F i nm p ks = Loaded (a, ks2)"
  shows "store_ok (Suc i) ks2 \<and> take (length ks) ks2 = ks \<and> length ks < length ks2 \<and>
     a_first a = length ks \<and> k_appid (ks2 ! length ks) = i \<and> a_last a < length ks2 \<and> k_type (ks2 ! a_last a) = 1 \<and>
     (\<forall>k < length ks2. length ks < k \<longrightarrow> k_parent (ks2 ! k) \<noteq> None)"
proof -
  let ?z = "d_int F 0"
  let ?ks1 = "ks @ [Kernel F i 1 0 ?z ?z ?z]"
  have "store_ok (Suc i) ?ks1" by (rule store_ok_append [OF store_ok_mono [OF S]]) simp_all
  then have B0: "building i ks (?ks1, length ks)" using S by (auto simp: building_def nth_append)
  obtain ks1 last where r: "add_rows F i (p_rows p) (?ks1, length ks) = Loaded (ks1, last)"
    using l by (auto simp: load_app_def Let_def lbind_Loaded_iff)
  have B: "building i ks (ks1, last)" using add_rows_building [OF B0] r by blast
  note b = buildingD [OF B]
  let ?t = "Kernel F i 1 0 (p_length p) ?z ?z"
  obtain ks3 where t: "attach last ?t ks1 = Some ks3" using attach_last [OF B, of ?t] by blast
  have B3: "building i ks (ks3, length ks1)" by (rule attach_building [OF B b(4,5) t]) simp_all
  note b3 = buildingD [OF B3] and at = attach_nth [OF t b(5)]
  have "ks2 = ks3" "a_first a = length ks" "a_last a = length ks1"
    using l r t by (auto simp: load_app_def Let_def attach_def)
  then show ?thesis using b3 at b(4,5) by simp
qed

lemma load_apps_ok:
  assumes "store_ok i ks" "load_apps F i temp ps ks = Loaded (as, ks2)"
  shows "store_ok (i + length ps) ks2 \<and> take (length ks) ks2 = ks \<and> length ks \<le> length ks2 \<and> length as = length ps \<and>
     (\<forall>j < length as. a_first (as ! j) < length ks2 \<and> k_appid (ks2 ! a_first (as ! j)) = i + j)"
  using assms
proof (induction ps arbitrary: i ks as temp)
  case (Cons p ps)
  then obtain a ks1 as' where l: "load_app F i temp p ks = Loaded (a, ks1)"
    "load_apps F (Suc i) (last_token p) ps ks1 = Loaded (as', ks2)" "as = a # as'"
    by (auto simp: lbind_Loaded_iff)
  note o = load_app_ok [OF Cons.prems(1) l(1)]
  have I: "store_ok (Suc i + length ps) ks2" "take (length ks1) ks2 = ks1" "length ks1 \<le> length ks2" "length as' = length ps"
     "\<forall>j < length as'. a_first (as' ! j) < length ks2 \<and> k_appid (ks2 ! a_first (as' ! j)) = Suc i + j"
    using Cons.IH [OF _ l(2)] o by blast+
  have "ks2 ! length ks = ks1 ! length ks" using I(2) o nth_take [of "length ks" "length ks1" ks2] by simp
  moreover have "take (length ks) ks2 = ks" using I(2) o by (metis min.absorb1 less_imp_le take_take)
  ultimately show ?case using I o l(3) by (auto simp: nth_Cons split: nat.split)
qed simp

lemma getInput_ok:
  assumes "getInput F ps = Loaded (apps, ks)"
  shows "store_ok (length apps) ks" "prog_ok apps ks" "apps \<noteq> []" "length apps = length ps"
proof -
  have l: "load_apps F 0 [] ps [] = Loaded (apps, ks)" and "apps \<noteq> []"
    using assms by (auto simp: getInput_def lbind_Loaded_iff split: if_splits)
  have "store_ok 0 []" by (simp add: store_ok_def)
  note o = load_apps_ok [OF this l]
  show S: "store_ok (length apps) ks" "apps \<noteq> []" "length apps = length ps" using o \<open>apps \<noteq> []\<close> by simp_all
  show "prog_ok apps ks" unfolding prog_ok_def
  proof (intro conjI allI impI)
    fix i assume "i < length apps"
    then show "a_first (apps ! i) < length ks" "k_appid (ks ! a_first (apps ! i)) = i" using o by auto
  qed (use store_okD(1-3) [OF S(1)] in blast)+
qed


lemma load_apps_no_error0:
  "store_ok i ks \<Longrightarrow> load_apps F i temp ps ks \<noteq> Load_error 0"
proof (induction ps arbitrary: i ks temp)
  case (Cons p ps)
  let ?z = "d_int F 0"
  have "store_ok (Suc i) (ks @ [Kernel F i 1 0 ?z ?z ?z])" by (rule store_ok_append [OF store_ok_mono [OF Cons.prems]]) simp_all
  then have B0: "building i ks (ks @ [Kernel F i 1 0 ?z ?z ?z], length ks)" using Cons.prems by (auto simp: building_def nth_append)
  have "load_app F i temp p ks \<noteq> Load_error 0"
    using add_rows_building [OF B0, of F "p_rows p"]
    by (cases "add_rows F i (p_rows p) (ks @ [Kernel F i 1 0 ?z ?z ?z], length ks)") (auto simp: load_app_def Let_def)
  then show ?case
  proof (cases "load_app F i temp p ks")
    case (Loaded x)
    obtain a ks1 where x: "x = (a, ks1)" by (cases x)
    have "load_apps F (Suc i) (last_token p) ps ks1 \<noteq> Load_error 0"
      using Cons.IH load_app_ok [OF Cons.prems Loaded [unfolded x]] by blast
    then show ?thesis using Loaded x by (cases "load_apps F (Suc i) (last_token p) ps ks1") auto
  qed auto
qed simp

lemma load_apps_names:
  "load_apps F i temp ps ks = Loaded (as, ks2) \<Longrightarrow> map a_name as = take (length ps) (temp # map last_token ps)"
proof (induction ps arbitrary: i temp ks as)
  case (Cons p ps)
  then obtain a ks1 as' where l: "load_app F i temp p ks = Loaded (a, ks1)"
    "load_apps F (Suc i) (last_token p) ps ks1 = Loaded (as', ks2)" "as = a # as'"
    by (auto simp: lbind_Loaded_iff)
  have "a_name a = temp" using l(1) by (auto simp: load_app_def Let_def lbind_Loaded_iff)
  then show ?case using Cons.IH [OF l(2)] l(3) by simp
qed simp

subsection \<open>Properties\<close>

definition demo_profile :: "rat profile" where
  "demo_profile = \<lparr>p_CPUslow = 0, p_length = 9, p_lengthGPU = 4, p_lengthCPU = 5, p_label = ''CPU'',
     p_rows = [\<lparr>r_stream = 7, r_name = ''[CUDA_memcpy_HtoD]'', r_start = 1, r_length = 2, r_bw = 3\<rparr>,
               \<lparr>r_stream = 7, r_name = ''gemm'', r_start = 2, r_length = 3, r_bw = 0\<rparr>,
               \<lparr>r_stream = 7, r_name = ''relu'', r_start = 5, r_length = 1, r_bw = 0\<rparr>]\<rparr>"

lemma demo_getInput: "\<exists>a ks. getInput exact [demo_profile] = Loaded ([a], ks) \<and> length ks = 5 \<and> k_next (ks ! 0) = [1, 2] \<and> k_next (ks ! 2) = [3] \<and>
   k_parent (ks ! 3) = Some 2"
  by (simp add: getInput_def load_app_def demo_profile_def add_row_def row_kernel_def row_type_def Kernel_def setStart_def setLength_def
      computeEnd_def attach_def addNextKernel_def Let_def)



text \<open>
  the check that reports \<^verbatim>\<open>invalid type[0]\<close> never fires: the kernel that was added last has no successor yet.
\<close>

theorem getInput_no_error0: "getInput F ps \<noteq> Load_error 0"
proof -
  have "load_apps F 0 [] ps [] \<noteq> Load_error 0" by (rule load_apps_no_error0) (simp add: store_ok_def)
  then show ?thesis by (cases "load_apps F 0 [] ps []") (auto simp: getInput_def split: prod.split if_splits)
qed



text \<open>
  applications are named after the wrong token: the first one gets the empty name and each later one the name
  in the last row (or the last header label) of the profile before it.
\<close>

theorem application_names:
  assumes "getInput F ps = Loaded (apps, ks)"
  shows "map a_name apps = take (length ps) ([] # map last_token ps)"
  using assms load_apps_names by (fastforce simp: getInput_def lbind_Loaded_iff split: if_splits)

theorem application_names_witness: "\<exists>a ks. getInput exact [demo_profile] = Loaded ([a], ks) \<and> a_name a = []"
  using demo_getInput application_names [of exact "[demo_profile]"] by fastforce

end
