(* ===== verification/Trace_Tools.thy ===== *)
theory Trace_Tools
  imports Prelude
begin

text \<open>
  The two trace tools at the top of the repository. \<^verbatim>\<open>Parse_nvprof.cpp\<close> turns the comma-separated GPU trace
  of the profiler into lines of duration, size and kernel name; \<^verbatim>\<open>PatternAnalysis.cpp\<close> groups such lines by
  name and prints the groups by falling number of calls. Input streams are modelled with their state bits,
  because both programs loop on \<^verbatim>\<open>eof()\<close> and use variables that a failed extraction leaves untouched.
\<close>

subsection \<open>Input streams\<close>

record stream =
  unread :: string
  eofbit :: bool
  failbit :: bool

definition open_stream :: "string \<Rightarrow> stream" where
  "open_stream s = \<lparr>unread = s, eofbit = False, failbit = False\<rparr>"

text \<open>\<^verbatim>\<open>getline(s, x, d)\<close>: the new stream and the new value of \<open>x\<close>, which stays when the stream is not good.\<close>

definition getline :: "char \<Rightarrow> stream \<Rightarrow> string \<Rightarrow> stream \<times> string" where
  "getline d s x =
     (if eofbit s \<or> failbit s then (s\<lparr>failbit := True\<rparr>, x)
      else let w = takeWhile (\<lambda>c. c \<noteq> d) (unread s) in
        case dropWhile (\<lambda>c. c \<noteq> d) (unread s) of
          [] \<Rightarrow> (s\<lparr>unread := [], eofbit := True, failbit := (w = [])\<rparr>, w)
        | _ # r \<Rightarrow> (s\<lparr>unread := r\<rparr>, w))"

text \<open>
  \<^verbatim>\<open>s >> x\<close> for a \<^verbatim>\<open>double\<close>: the conversion \<open>rd\<close> is a parameter. It finds no input after leading blanks, or a
  number and the text behind it, or it fails and stores the value that the standard prescribes.
\<close>

datatype 'd extraction = No_input | Got 'd string | Failed 'd

definition extract_double :: "(string \<Rightarrow> 'd extraction) \<Rightarrow> stream \<Rightarrow> 'd \<Rightarrow> stream \<times> 'd" where
  "extract_double rd s x =
     (if eofbit s \<or> failbit s then (s\<lparr>failbit := True\<rparr>, x)
      else case rd (unread s) of
          No_input \<Rightarrow> (s\<lparr>unread := [], eofbit := True, failbit := True\<rparr>, x)
        | Got v r \<Rightarrow> (s\<lparr>unread := r, eofbit := (r = [])\<rparr>, v)
        | Failed v \<Rightarrow> (s\<lparr>failbit := True\<rparr>, v))"

text \<open>The values of \<^verbatim>\<open>line\<close> in the rounds of \<^verbatim>\<open>while(cin.eof() == false) { getline(cin, line); ... }\<close>.\<close>

definition newline :: char where
  "newline = CHR 0x0A"

text \<open>A line that is there in full, and the last one.\<close>

lemma getline_delim: "d \<notin> set w \<Longrightarrow> getline d (open_stream (w @ d # r)) x = (open_stream r, w)"
proof -
  assume "d \<notin> set w"
  then have "takeWhile (\<lambda>c. c \<noteq> d) (w @ d # r) = w" "dropWhile (\<lambda>c. c \<noteq> d) (w @ d # r) = d # r"
    by (induction w) auto
  then show ?thesis by (simp add: getline_def open_stream_def)
qed

lemma getline_last:
  "d \<notin> set w \<Longrightarrow> getline d (open_stream w) x = (\<lparr>unread = [], eofbit = True, failbit = (w = [])\<rparr>, w)"
proof -
  assume "d \<notin> set w"
  then have w: "takeWhile (\<lambda>c. c \<noteq> d) w = w" "dropWhile (\<lambda>c. c \<noteq> d) w = []"
    by (induction w) auto
  show ?thesis unfolding getline_def open_stream_def by (simp only: stream.simps w) simp
qed

function input_lines :: "stream \<Rightarrow> string \<Rightarrow> string list" where
  "input_lines s x =
     (if eofbit s \<or> failbit s then []
      else let (s', x') = getline newline s x in x' # input_lines s' x')"
  by auto
termination
proof (relation "measure (\<lambda>(s, x). length (unread s) + (if eofbit s then 0 else 1))")
  fix s x z s' x'
  assume s: "\<not> (eofbit s \<or> failbit s)" "z = getline newline s x" "(s', x') = z"
  have "length (dropWhile (\<lambda>c. c \<noteq> newline) (unread s)) \<le> length (unread s)" by (rule length_dropWhile_le)
  with s show "((s', x'), s, x) \<in> measure (\<lambda>(s, x). length (unread s) + (if eofbit s then 0 else 1))"
    by (cases "dropWhile (\<lambda>c. c \<noteq> newline) (unread s)") (auto simp: getline_def Let_def)
qed simp

declare input_lines.simps [simp del]

subsection \<open>Fields between separators\<close>

fun fields :: "char \<Rightarrow> string \<Rightarrow> string list" where
  "fields d [] = [[]]"
| "fields d (c # cs) = (if c = d then [] # fields d cs else (c # hd (fields d cs)) # tl (fields d cs))"

fun join :: "char \<Rightarrow> string list \<Rightarrow> string" where
  "join d [] = []"
| "join d [w] = w"
| "join d (w # ws) = w @ d # join d ws"

lemma fields_nonempty [simp]: "fields d s \<noteq> []"
  by (cases "(d, s)" rule: fields.cases) auto

lemma join_Cons: "ws \<noteq> [] \<Longrightarrow> join d (w # ws) = w @ d # join d ws"
  by (cases ws) auto

lemma join_fields: "join d (fields d s) = s"
proof (induction s)
  case (Cons c cs)
  then show ?case by (cases "fields d cs"; cases "tl (fields d cs)") auto
qed simp

lemma fields_no_sep: "w \<in> set (fields d s) \<Longrightarrow> d \<notin> set w"
proof (induction s arbitrary: w)
  case (Cons c cs)
  then show ?case by (cases "fields d cs") (auto split: if_splits)
qed simp

text \<open>
  The loop on a text of lines joined by newlines goes once over each of them: a text that ends with a
  newline has the empty string as its last line.
\<close>

lemma input_lines_join:
  assumes "ws \<noteq> []" "\<forall>w \<in> set ws. newline \<notin> set w"
  shows "input_lines (open_stream (join newline ws)) x = ws"
  using assms
proof (induction newline ws arbitrary: x rule: join.induct)
  case 1
  then show ?case by simp
next
  case (2 w)
  then show ?case
    using getline_last [of newline w x] by (simp add: input_lines.simps [of "open_stream w"] input_lines.simps [of "\<lparr>unread = _, eofbit = _, failbit = _\<rparr>"]) (simp add: open_stream_def)
next
  case (3 w v ws)
  then show ?case
    using getline_delim [of newline w "join newline (v # ws)" x]
    by (simp add: input_lines.simps [of "open_stream (w @ newline # _)"]) (simp add: open_stream_def)
qed

subsection \<open>Parse_nvprof.cpp\<close>

text \<open>
  The variables that outlive a line: \<^verbatim>\<open>temp\<close> and \<^verbatim>\<open>value\<close>. What is printed for a line is the list of items, the
  end of the line included.
\<close>

datatype 'd item = Text string | Num 'd | Endl

definition skipped :: "string \<Rightarrow> bool" where
  "skipped line \<longleftrightarrow> (case line of [] \<Rightarrow> False | c # _ \<Rightarrow> c = CHR ''='' \<or> c = CHR 0x22 \<or> c = CHR ''s'')"

text \<open>\<^verbatim>\<open>while(ss.eof() == false) { getline(ss, temp, ','); if(ss.eof()) break; cout << "," << temp; }\<close>. A stream fails only at its end
  here, so the test of \<open>failbit\<close> changes nothing.\<close>

function rest_of_name :: "stream \<Rightarrow> string \<Rightarrow> stream \<times> string \<times> string list" where
  "rest_of_name s temp =
     (if eofbit s \<or> failbit s then (s, temp, [])
      else let (s', temp') = getline CHR '','' s temp in
        if eofbit s' then (s', temp', [])
        else let (s2, t, out) = rest_of_name s' temp' in (s2, t, ('','' @ temp') # out))"
  by auto
termination
proof (relation "measure (\<lambda>(s, x). length (unread s))")
  fix s x z s' x'
  assume s: "\<not> (eofbit s \<or> failbit s)" "z = getline CHR '','' s x" "(s', x') = z" "\<not> eofbit s'"
  have "length (dropWhile (\<lambda>c. c \<noteq> CHR '','') (unread s)) \<le> length (unread s)" by (rule length_dropWhile_le)
  with s show "((s', x'), s, x) \<in> measure (\<lambda>(s, x). length (unread s))"
    by (cases "dropWhile (\<lambda>c. c \<noteq> CHR '','') (unread s)") (auto simp: getline_def Let_def)
qed simp

declare rest_of_name.simps [simp del]

text \<open>
  \<^verbatim>\<open>for(i=0; i<20; i++)\<close>, with \<open>n\<close> rounds to go. Field 11 is the size in megabytes; an empty field counts as 0.
\<close>

fun nvprof_fields :: "'d dops \<Rightarrow> (string \<Rightarrow> 'd extraction) \<Rightarrow> nat \<Rightarrow> stream \<Rightarrow> string \<Rightarrow> 'd \<Rightarrow> 'd item list \<Rightarrow> string \<times> 'd \<times> 'd item list" where
  "nvprof_fields F rd 0 s temp val out = (temp, val, out)"
| "nvprof_fields F rd (Suc n) s temp val out =
     (let (s', temp') = getline CHR '','' s temp; i = 19 - n in
      if i = 1 then nvprof_fields F rd n s' temp' val (out @ [Text temp', Text '' ''])
      else if i = 11 then
        let v = snd (extract_double rd (open_stream temp') val);
            v' = d_mul F (if temp' = [] then d_int F 0 else v) (d_int F 1048576) in
        nvprof_fields F rd n s' temp' v' (out @ [Num v', Text '' ''])
      else if i = 18 then
        let (s2, t, pieces) = rest_of_name s' temp' in
        nvprof_fields F rd n s2 t val (out @ [Text temp'] @ map Text pieces @ [Endl])
      else nvprof_fields F rd n s' temp' val out)"

fun parse_lines :: "'d dops \<Rightarrow> (string \<Rightarrow> 'd extraction) \<Rightarrow> string list \<Rightarrow> string \<Rightarrow> 'd \<Rightarrow> 'd item list" where
  "parse_lines F rd [] temp val = []"
| "parse_lines F rd (l # ls) temp val =
     (if skipped l then parse_lines F rd ls temp val
      else let (temp', val', out) = nvprof_fields F rd 20 (open_stream l) temp val [] in
        out @ parse_lines F rd ls temp' val')"

definition Parse_nvprof :: "'d dops \<Rightarrow> (string \<Rightarrow> 'd extraction) \<Rightarrow> 'd \<Rightarrow> string \<Rightarrow> 'd item list" where
  "Parse_nvprof F rd val0 input = parse_lines F rd (input_lines (open_stream input) []) [] val0"

subsection \<open>What is printed for a trace\<close>

text \<open>
  The reference: the second field, the twelfth times \<open>2 ^ 20\<close>, and the fields from the nineteenth to the last
  but one with their commas, for the kernel name may contain commas. An empty line prints a record of its own.
\<close>

definition field_value :: "'d dops \<Rightarrow> (string \<Rightarrow> 'd extraction) \<Rightarrow> string \<Rightarrow> 'd" where
  "field_value F rd w = (if w = [] then d_int F 0 else case rd w of Got v r \<Rightarrow> v | Failed v \<Rightarrow> v | No_input \<Rightarrow> d_int F 0)"

definition nvprof_record :: "'d dops \<Rightarrow> (string \<Rightarrow> 'd extraction) \<Rightarrow> string \<Rightarrow> 'd item list" where
  "nvprof_record F rd l =
     (if l = [] then [Text [], Text '' '', Num (d_mul F (d_int F 0) (d_int F 1048576)), Text '' '', Text [], Endl]
      else let fs = fields CHR '','' l in
        [Text (fs ! 1), Text '' '', Num (d_mul F (field_value F rd (fs ! 11)) (d_int F 1048576)), Text '' '', Text (fs ! 18)]
        @ map (\<lambda>w. Text ('','' @ w)) (drop 19 (butlast fs)) @ [Endl])"

definition trace_line :: "(string \<Rightarrow> 'd extraction) \<Rightarrow> string \<Rightarrow> bool" where
  "trace_line rd l \<longleftrightarrow> l = [] \<or> (let fs = fields CHR '','' l in 20 \<le> length fs \<and> (fs ! 11 = [] \<or> rd (fs ! 11) \<noteq> No_input))"

definition at_end :: "string \<Rightarrow> stream" where
  "at_end w = \<lparr>unread = [], eofbit = True, failbit = (w = [])\<rparr>"

lemma getline_at_end [simp]: "getline d (at_end w) x = (at_end [], x)"
  by (simp add: getline_def at_end_def)

lemma getline_join:
  assumes "\<forall>w \<in> set (w # ws). d \<notin> set w"
  shows "getline d (open_stream (join d (w # ws))) x = (if ws = [] then at_end w else open_stream (join d ws), w)"
  using assms getline_delim [of d w "join d ws"] getline_last [of d w] by (cases ws) (auto simp: at_end_def)

lemma rest_of_name_at_end [simp]: "rest_of_name (at_end w) x = (at_end w, x, [])"
  by (simp add: rest_of_name.simps at_end_def)

lemma rest_of_name_join:
  assumes "\<forall>w \<in> set (w # ws). CHR '','' \<notin> set w"
  shows "rest_of_name (open_stream (join CHR '','' (w # ws))) x =
    (at_end (last (w # ws)), last (w # ws), map ((@) '','') (butlast (w # ws)))"
  using assms
proof (induction ws arbitrary: w x)
  case Nil
  then show ?case
    using getline_join [of w "[]" "CHR '',''" x] by (subst rest_of_name.simps) (simp add: open_stream_def at_end_def)
next
  case (Cons v vs)
  then have "getline CHR '','' (open_stream (join CHR '','' (w # v # vs))) x = (open_stream (join CHR '','' (v # vs)), w)"
    using getline_join [of w "v # vs" "CHR '',''" x] by simp
  moreover have "eofbit (open_stream t) = False" "failbit (open_stream t) = False" for t by (simp_all add: open_stream_def)
  ultimately show ?case using Cons.IH [of v w] Cons.prems by (subst rest_of_name.simps) simp
qed

lemma nvprof_fields_empty:
  "nvprof_fields F rd 20 (open_stream []) temp val [] = ([], d_mul F (d_int F 0) (d_int F 1048576), nvprof_record F rd [])"
proof -
  have "getline CHR '','' (open_stream []) temp = (at_end [], [])"
    using getline_last [of "CHR '',''" "[]" temp] by (simp add: at_end_def)
  then show ?thesis by (simp add: eval_nat_numeral nvprof_record_def Let_def)
qed

lemma long_list_cases:
  assumes "20 \<le> length fs"
  obtains f0 f1 f2 f3 f4 f5 f6 f7 f8 f9 f10 f11 f12 f13 f14 f15 f16 f17 f18 g gs
  where "fs = [f0, f1, f2, f3, f4, f5, f6, f7, f8, f9, f10, f11, f12, f13, f14, f15, f16, f17, f18] @ g # gs"
  using assms by (simp only: eval_nat_numeral Suc_le_length_iff BitM.simps append.simps) metis

lemma nvprof_fields_line:
  assumes l: "trace_line rd l" "l \<noteq> []"
  shows "nvprof_fields F rd 20 (open_stream l) temp val [] =
    (last (fields CHR '','' l), d_mul F (field_value F rd (fields CHR '','' l ! 11)) (d_int F 1048576), nvprof_record F rd l)"
proof -
  define fs where "fs = fields CHR '','' l"
  have len: "20 \<le> length fs" and ok: "fs ! 11 = [] \<or> rd (fs ! 11) \<noteq> No_input"
    using l by (auto simp: trace_line_def fs_def Let_def)
  have sep: "\<forall>w \<in> set fs. CHR '','' \<notin> set w" using fields_no_sep by (auto simp: fs_def)
  have l_fs: "open_stream l = open_stream (join CHR '','' fs)" by (simp add: fs_def join_fields)
  have out: "nvprof_record F rd l = [Text (fs ! 1), Text '' '', Num (d_mul F (field_value F rd (fs ! 11)) (d_int F 1048576)), Text '' '', Text (fs ! 18)]
      @ map (\<lambda>w. Text ('','' @ w)) (drop 19 (butlast fs)) @ [Endl]"
    using l by (simp add: nvprof_record_def fs_def Let_def)
  have v: "(if w = [] then d_int F 0 else snd (extract_double rd (open_stream w) x)) = field_value F rd w"
    if "w = [] \<or> rd w \<noteq> No_input" for w x
    using that by (auto simp: field_value_def extract_double_def open_stream_def split: extraction.splits)
  obtain f0 f1 f2 f3 f4 f5 f6 f7 f8 f9 f10 f11 f12 f13 f14 f15 f16 f17 f18 g gs
    where fs: "fs = [f0, f1, f2, f3, f4, f5, f6, f7, f8, f9, f10, f11, f12, f13, f14, f15, f16, f17, f18] @ g # gs"
    using long_list_cases [OF len] .
  show ?thesis
    using sep ok unfolding out l_fs fs fs_def [symmetric]
    by (simp add: eval_nat_numeral getline_join rest_of_name_join v Let_def del: join.simps)
qed

lemma parse_lines_records:
  assumes "\<forall>l \<in> set ls. skipped l \<or> trace_line rd l"
  shows "parse_lines F rd ls temp val = concat (map (nvprof_record F rd) (filter (\<lambda>l. \<not> skipped l) ls))"
  using assms
proof (induction ls arbitrary: temp val)
  case (Cons l ls)
  then show ?case by (cases "l = []") (auto simp: nvprof_fields_empty nvprof_fields_line)
qed simp

subsection \<open>PatternAnalysis.cpp\<close>

text \<open>The three vectors that are kept in step; \<^verbatim>\<open>nk\<close> is the length of \<^verbatim>\<open>name\<close>.\<close>

record 'd groups =
  name :: "string list"
  duration :: "'d list list"
  sizes :: "'d list list"

definition new_group :: "string \<Rightarrow> 'd \<Rightarrow> 'd \<Rightarrow> 'd groups \<Rightarrow> 'd groups" where
  "new_group temp v1 v2 g = g\<lparr>name := name g @ [temp], duration := duration g @ [[v1]], sizes := sizes g @ [[v2]]\<rparr>"

text \<open>\<^verbatim>\<open>for(i=0; i<nk; i++) if(name[i] == temp) break;\<close>\<close>

fun find_name :: "string \<Rightarrow> string list \<Rightarrow> nat" where
  "find_name temp [] = 0"
| "find_name temp (n # ns) = (if n = temp then 0 else Suc (find_name temp ns))"

definition add_sample :: "string \<Rightarrow> 'd \<Rightarrow> 'd \<Rightarrow> 'd groups \<Rightarrow> 'd groups" where
  "add_sample temp v1 v2 g =
     (let nk = length (name g) in
      if nk = 0 then new_group temp v1 v2 g
      else let i = find_name temp (name g) in
        if i = nk then new_group temp v1 v2 g
        else g\<lparr>duration := (duration g)[i := duration g ! i @ [v1]], sizes := (sizes g)[i := sizes g ! i @ [v2]]\<rparr>)"

text \<open>
  The variables \<^verbatim>\<open>v1\<close>, \<^verbatim>\<open>v2\<close> and \<^verbatim>\<open>temp\<close> after each line: \<^verbatim>\<open>ss >> v1 >> v2; getline(ss, temp)\<close>. They are declared
  outside the loop, so that a line without numbers leaves the values of the line before.
\<close>

definition read_sample :: "(string \<Rightarrow> 'd extraction) \<Rightarrow> string \<Rightarrow> 'd \<times> 'd \<times> string \<Rightarrow> 'd \<times> 'd \<times> string" where
  "read_sample rd line = (\<lambda>(v1, v2, temp).
     let (s1, v1') = extract_double rd (open_stream line) v1;
         (s2, v2') = extract_double rd s1 v2;
         (s3, temp') = getline newline s2 temp in (v1', v2', temp'))"

fun read_samples :: "(string \<Rightarrow> 'd extraction) \<Rightarrow> string list \<Rightarrow> 'd \<times> 'd \<times> string \<Rightarrow> ('d \<times> 'd \<times> string) list" where
  "read_samples rd [] x = []"
| "read_samples rd (l # ls) x = (let x' = read_sample rd l x in x' # read_samples rd ls x')"

definition group_samples :: "('d \<times> 'd \<times> string) list \<Rightarrow> 'd groups" where
  "group_samples xs = fold (\<lambda>(v1, v2, temp). add_sample temp v1 v2) xs \<lparr>name = [], duration = [], sizes = []\<rparr>"

definition swap_groups :: "nat \<Rightarrow> nat \<Rightarrow> 'd groups \<Rightarrow> 'd groups" where
  "swap_groups i j g =
     g\<lparr>name := (name g)[i := name g ! j, j := name g ! i],
       duration := (duration g)[i := duration g ! j, j := duration g ! i],
       sizes := (sizes g)[i := sizes g ! j, j := sizes g ! i]\<rparr>"

definition sort_step :: "nat \<Rightarrow> nat \<Rightarrow> 'd groups \<Rightarrow> 'd groups" where
  "sort_step i j g = (if length (duration g ! i) > length (duration g ! j) then swap_groups i j g else g)"

definition sort_groups :: "'d groups \<Rightarrow> 'd groups" where
  "sort_groups g = fold (\<lambda>i. fold (sort_step i) [0..<i]) [0..<length (name g)] g"

definition average :: "'d dops \<Rightarrow> 'd list \<Rightarrow> 'd" where
  "average F xs = d_div F (fold (\<lambda>x a. d_add F a x) xs (d_int F 0)) (d_int F (int (length xs)))"

text \<open>A line of the report: the number of calls, the mean duration and size, the name.\<close>

definition report :: "'d dops \<Rightarrow> 'd groups \<Rightarrow> (nat \<times> 'd \<times> 'd \<times> string) list" where
  "report F g = map (\<lambda>i. (length (duration g ! i), average F (duration g ! i), average F (sizes g ! i), name g ! i))
     [0..<length (name g)]"

text \<open>The program; \<^verbatim>\<open>v1\<close> and \<^verbatim>\<open>v2\<close> are not initialised, their first values are parameters.\<close>

definition PatternAnalysis :: "'d dops \<Rightarrow> (string \<Rightarrow> 'd extraction) \<Rightarrow> 'd \<Rightarrow> 'd \<Rightarrow> string \<Rightarrow> (nat \<times> 'd \<times> 'd \<times> string) list" where
  "PatternAnalysis F rd v1 v2 input =
     report F (sort_groups (group_samples (read_samples rd (input_lines (open_stream input) []) (v1, v2, []))))"

subsection \<open>Grouping\<close>

definition samples_of :: "string \<Rightarrow> ('d \<times> 'd \<times> string) list \<Rightarrow> ('d \<times> 'd \<times> string) list" where
  "samples_of n xs = filter (\<lambda>x. snd (snd x) = n) xs"

text \<open>What the three vectors hold after the samples \<open>xs\<close>.\<close>

definition grouped :: "('d \<times> 'd \<times> string) list \<Rightarrow> 'd groups \<Rightarrow> bool" where
  "grouped xs g \<longleftrightarrow> distinct (name g) \<and> set (name g) = (snd \<circ> snd) ` set xs \<and>
     duration g = map (\<lambda>n. map fst (samples_of n xs)) (name g) \<and>
     sizes g = map (\<lambda>n. map (fst \<circ> snd) (samples_of n xs)) (name g)"

lemma find_name_less: "find_name t ns < length ns \<longleftrightarrow> t \<in> set ns"
  by (induction ns) auto

lemma find_name_le: "find_name t ns \<le> length ns"
  by (induction ns) auto

lemma nth_find_name: "t \<in> set ns \<Longrightarrow> ns ! find_name t ns = t"
  by (induction ns) auto

lemma samples_of_snoc: "samples_of n (xs @ [(v1, v2, t)]) = samples_of n xs @ (if t = n then [(v1, v2, t)] else [])"
  by (simp add: samples_of_def)

lemma samples_of_empty: "t \<notin> (snd \<circ> snd) ` set xs \<Longrightarrow> samples_of t xs = []"
  by (force simp: samples_of_def filter_empty_conv)

lemma map_update_at:
  assumes "distinct ns" "i < length ns" "ns ! i = t" "v = f' t" "\<And>n. n \<noteq> t \<Longrightarrow> f n = f' n"
  shows "(map f ns)[i := v] = map f' ns"
  using assms by (auto simp: list_eq_iff_nth_eq nth_list_update nth_eq_iff_index_eq)

lemma grouped_add_sample:
  assumes g: "grouped xs g"
  shows "grouped (xs @ [(v1, v2, t)]) (add_sample t v1 v2 g)"
proof (cases "t \<in> set (name g)")
  case False
  then have new: "add_sample t v1 v2 g = new_group t v1 v2 g"
    using find_name_le [of t "name g"] find_name_less [of t "name g"] by (auto simp: add_sample_def Let_def)
  have "samples_of t xs = []" using g False by (intro samples_of_empty) (simp add: grouped_def)
  then show ?thesis using g False unfolding new
    by (auto simp: grouped_def new_group_def samples_of_snoc)
next
  case True
  let ?i = "find_name t (name g)"
  have i: "?i < length (name g)" "name g ! ?i = t" using True by (simp_all add: find_name_less nth_find_name)
  have upd: "add_sample t v1 v2 g = g\<lparr>duration := (duration g)[?i := duration g ! ?i @ [v1]], sizes := (sizes g)[?i := sizes g ! ?i @ [v2]]\<rparr>"
    using i by (auto simp: add_sample_def Let_def)
  have d: "distinct (name g)" using g by (simp add: grouped_def)
  have "(duration g)[?i := map fst (samples_of t xs) @ [v1]] = map (\<lambda>n. map fst (samples_of n (xs @ [(v1, v2, t)]))) (name g)"
    "(sizes g)[?i := map (fst \<circ> snd) (samples_of t xs) @ [v2]] = map (\<lambda>n. map (fst \<circ> snd) (samples_of n (xs @ [(v1, v2, t)]))) (name g)"
    using g by (auto simp: grouped_def samples_of_snoc intro!: map_update_at [OF d i])
  then show ?thesis using g True i unfolding upd by (simp add: grouped_def insert_absorb)
qed

lemma grouped_group_samples: "grouped xs (group_samples xs)"
proof (induction xs rule: rev_induct)
  case Nil
  then show ?case by (simp add: group_samples_def grouped_def)
next
  case (snoc x xs)
  then show ?case using grouped_add_sample by (cases x) (auto simp: group_samples_def)
qed

subsection \<open>Sorting\<close>

text \<open>
  The exchange sort on the list of rows. A round of the outer loop pushes row \<open>i\<close> into the sorted rows before
  it, every row it displaces moving on.
\<close>

definition rows :: "'d groups \<Rightarrow> (string \<times> 'd list \<times> 'd list) list" where
  "rows g = zip (name g) (zip (duration g) (sizes g))"

definition same_length :: "'d groups \<Rightarrow> bool" where
  "same_length g \<longleftrightarrow> length (duration g) = length (name g) \<and> length (sizes g) = length (name g)"

definition calls :: "string \<times> 'd list \<times> 'd list \<Rightarrow> nat" where
  "calls r = length (fst (snd r))"

fun push :: "('a \<Rightarrow> nat) \<Rightarrow> 'a \<Rightarrow> 'a list \<Rightarrow> 'a list" where
  "push f x [] = [x]"
| "push f x (y # ys) = (if f x > f y then x # push f y ys else y # push f x ys)"

definition exchange :: "('a \<Rightarrow> nat) \<Rightarrow> nat \<Rightarrow> nat \<Rightarrow> 'a list \<Rightarrow> 'a list" where
  "exchange f i j xs = (if f (xs ! i) > f (xs ! j) then xs[i := xs ! j, j := xs ! i] else xs)"

lemma mset_push: "mset (push f x ys) = add_mset x (mset ys)"
  by (induction f x ys rule: push.induct) auto

lemma set_push: "set (push f x ys) = insert x (set ys)"
  by (metis mset_push set_mset_add_mset_insert set_mset_mset)

lemma sorted_push: "sorted_wrt (\<lambda>a b. f a \<ge> f b) ys \<Longrightarrow> sorted_wrt (\<lambda>a b. f a \<ge> f b) (push f x ys)"
proof (induction f x ys rule: push.induct)
  case (2 f x y ys)
  then show ?case by (fastforce simp: set_push)
qed simp

lemma exchange_run:
  "fold (exchange f (length p + length ys)) [length p..<length p + length ys] (p @ ys @ x # zs) = p @ push f x ys @ zs"
proof (induction ys arbitrary: p x)
  case (Cons y ys)
  have "exchange f (length p + length (y # ys)) (length p) (p @ (y # ys) @ x # zs) =
    (if f x > f y then p @ (x # ys) @ y # zs else p @ (y # ys) @ x # zs)"
    by (simp add: exchange_def nth_append list_update_append)
  then show ?case
    using Cons.IH [of "p @ [x]" y] Cons.IH [of "p @ [y]" x] by (simp add: upt_conv_Cons del: upt_Suc)
qed simp

lemma exchange_rounds:
  assumes "n \<le> length xs"
  shows "\<exists>ys. fold (\<lambda>i. fold (exchange f i) [0..<i]) [0..<n] xs = ys @ drop n xs \<and> mset ys = mset (take n xs) \<and>
    sorted_wrt (\<lambda>a b. f a \<ge> f b) ys"
  using assms
proof (induction n)
  case (Suc n)
  then obtain ys where ys: "fold (\<lambda>i. fold (exchange f i) [0..<i]) [0..<n] xs = ys @ drop n xs" "mset ys = mset (take n xs)"
    "sorted_wrt (\<lambda>a b. f a \<ge> f b) ys" by auto
  have n: "n < length xs" "length ys = n" using Suc.prems arg_cong [OF ys(2), of size] by auto
  then have "fold (\<lambda>i. fold (exchange f i) [0..<i]) [0..<Suc n] xs = push f (xs ! n) ys @ drop (Suc n) xs"
    using exchange_run [of f "[]" ys "xs ! n" "drop (Suc n) xs"] ys(1) by (simp add: Cons_nth_drop_Suc)
  then show ?case using ys n by (auto simp: mset_push sorted_push take_Suc_conv_app_nth)
qed simp

lemma rows_nth: "same_length g \<Longrightarrow> i < length (name g) \<Longrightarrow> rows g ! i = (name g ! i, duration g ! i, sizes g ! i)"
  by (simp add: rows_def same_length_def)

lemma length_rows: "same_length g \<Longrightarrow> length (rows g) = length (name g)"
  by (simp add: rows_def same_length_def)

lemma sort_step_rows:
  assumes "same_length g" "i < length (name g)" "j < length (name g)"
  shows "rows (sort_step i j g) = exchange calls i j (rows g)" "same_length (sort_step i j g)"
    "length (name (sort_step i j g)) = length (name g)"
  using assms by (auto simp: sort_step_def exchange_def calls_def rows_nth swap_groups_def same_length_def)
    (auto simp: rows_def zip_update)

lemma sort_steps_rows:
  assumes "same_length g" "i < length (name g)" "\<forall>j \<in> set js. j < length (name g)"
  shows "rows (fold (sort_step i) js g) = fold (exchange calls i) js (rows g) \<and> same_length (fold (sort_step i) js g) \<and>
    length (name (fold (sort_step i) js g)) = length (name g)"
  using assms by (induction js arbitrary: g) (auto simp: sort_step_rows)

lemma sort_rounds_rows:
  assumes "same_length g" "\<forall>i \<in> set is. i < length (name g)"
  shows "rows (fold (\<lambda>i. fold (sort_step i) [0..<i]) is g) = fold (\<lambda>i. fold (exchange calls i) [0..<i]) is (rows g) \<and>
    same_length (fold (\<lambda>i. fold (sort_step i) [0..<i]) is g)"
  using assms
proof (induction "is" arbitrary: g)
  case (Cons i "is")
  have "rows (fold (sort_step i) [0..<i] g) = fold (exchange calls i) [0..<i] (rows g) \<and>
      same_length (fold (sort_step i) [0..<i] g) \<and> length (name (fold (sort_step i) [0..<i] g)) = length (name g)"
    by (rule sort_steps_rows) (use Cons.prems in auto)
  then show ?case using Cons.IH [of "fold (sort_step i) [0..<i] g"] Cons.prems by simp
qed simp

lemma sort_groups_rows:
  assumes "same_length g"
  shows "mset (rows (sort_groups g)) = mset (rows g)" "same_length (sort_groups g)"
    "sorted_wrt (\<lambda>a b. calls a \<ge> calls b) (rows (sort_groups g))"
proof -
  have r: "rows (sort_groups g) = fold (\<lambda>i. fold (exchange calls i) [0..<i]) [0..<length (rows g)] (rows g)"
    and s: "same_length (sort_groups g)"
    using sort_rounds_rows [OF assms, of "[0..<length (name g)]"] assms by (auto simp: sort_groups_def length_rows)
  show "mset (rows (sort_groups g)) = mset (rows g)" "sorted_wrt (\<lambda>a b. calls a \<ge> calls b) (rows (sort_groups g))"
    using exchange_rounds [of "length (rows g)" "rows g" calls] by (auto simp: r)
  show "same_length (sort_groups g)" by (fact s)
qed

subsection \<open>Properties of the trace tools\<close>

text \<open>
  C39: \<^verbatim>\<open>Parse_nvprof\<close> prints one record for each line of the trace that is not a header: the duration, the
  size in bytes and the whole kernel name, commas included; only the last field, the correlation number, is cut
  off. An empty line, such as the one after a final newline, yields a record with no duration and no name.
\<close>

theorem Parse_nvprof_correct:
  assumes "ls \<noteq> []" "\<forall>l \<in> set ls. newline \<notin> set l \<and> (skipped l \<or> trace_line rd l)"
  shows "Parse_nvprof F rd val0 (join newline ls) = concat (map (nvprof_record F rd) (filter (\<lambda>l. \<not> skipped l) ls))"
  using assms by (simp add: Parse_nvprof_def input_lines_join parse_lines_records)

definition demo_ops :: "int dops" where
  "demo_ops = \<lparr>d_add = (+), d_sub = (-), d_mul = (*), d_div = (div), d_lt = (<), d_le = (\<le>), d_eq = (=), d_int = id, d_trunc = id, d_eps = 0\<rparr>"

definition demo_rd :: "string \<Rightarrow> int extraction" where
  "demo_rd s = (case s of [] \<Rightarrow> No_input | c # cs \<Rightarrow> if c = CHR ''2'' then Got 2 cs else Failed 0)"

theorem Parse_nvprof_correct_witness:
  "Parse_nvprof demo_ops demo_rd 0 (join newline [''=x'', '',7,,,,,,,,,,2,,,,,,,f<a,b>,9'']) =
    [Text ''7'', Text '' '', Num 2097152, Text '' '', Text ''f<a'', Text '',b>'', Endl]"
  using Parse_nvprof_correct [of "[''=x'', '',7,,,,,,,,,,2,,,,,,,f<a,b>,9'']" demo_rd demo_ops 0]
  by (simp add: newline_def skipped_def trace_line_def demo_rd_def demo_ops_def nvprof_record_def field_value_def)


text \<open>
  a final newline makes \<^verbatim>\<open>PatternAnalysis\<close> count the last sample twice: the loop runs once more on an empty
  line, which leaves the numbers and the name of the line before in place.
\<close>

theorem last_sample_counted_twice:
  assumes "rd [] = No_input" "ls \<noteq> []" "\<forall>l \<in> set ls. newline \<notin> set l"
  shows "read_samples rd (input_lines (open_stream (join newline ls @ [newline])) []) x =
    (let xs = read_samples rd (input_lines (open_stream (join newline ls)) []) x in xs @ [last xs])"
proof -
  have j: "join newline ls @ [newline] = join newline (ls @ [[]])" using assms(2)
    by (induction newline ls rule: join.induct) (auto simp: join_Cons)
  have e: "read_sample rd [] y = y" for y
    using assms(1) by (cases y) (simp add: read_sample_def extract_double_def open_stream_def getline_def)
  have "read_samples rd (ms @ [[]]) y = read_samples rd ms y @ [last (read_samples rd ms y)]" if "ms \<noteq> []" for ms y
    using that by (induction ms arbitrary: y rule: list_nonempty_induct) (auto simp: e Let_def, metis last.simps read_samples.simps list.distinct(1) neq_Nil_conv)
  with assms(2) show ?thesis unfolding j using assms(2,3) by (simp add: input_lines_join Let_def)
qed

theorem last_sample_counted_twice_witness:
  "read_samples demo_rd (input_lines (open_stream (''22 f'' @ [newline])) []) (0, 0, []) = [(2, 2, '' f''), (2, 2, '' f'')]"
proof -
  have "demo_rd [] = No_input" "newline \<notin> set ''22 f''" by (simp_all add: demo_rd_def newline_def)
  then show ?thesis
    using last_sample_counted_twice [of demo_rd "[''22 f'']" "(0, 0, [])"] input_lines_join [of "[''22 f'']" "[]"]
    by (simp add: read_sample_def extract_double_def demo_rd_def open_stream_def getline_def newline_def)
qed

end
