(* ===== verification/Direct_Session.thy ===== *)
theory Direct_Session
  imports Prelude
begin

text \<open>
  \<^verbatim>\<open>DirectSession::Run\<close> of \<^verbatim>\<open>core/common_runtime/direct_session.cc\<close>, which this repository changed to run every
  request in eight slices of its inputs, with what it calls: \<^verbatim>\<open>Tensor::Slice\<close> (\<^verbatim>\<open>core/framework/tensor.cc\<close>),
  \<^verbatim>\<open>FunctionCallFrame\<close> (\<^verbatim>\<open>core/framework/function.cc\<close>), the session store (\<^verbatim>\<open>core/common_runtime/session_state.cc\<close>)
  and the cache of executors, \<^verbatim>\<open>GetOrCreateExecutors\<close>.

  The building of executors (\<^verbatim>\<open>CreateExecutors\<close>) and the execution of one step (\<^verbatim>\<open>RunInternal\<close>) are parameters.
  A step may change the state of the devices, \<open>'w\<close>, and the session store. Dimensions are below \<open>2 ^ 31\<close>, so that
  the \<^verbatim>\<open>int\<close> arithmetic on slice bounds is exact.
\<close>

subsection \<open>Tensors\<close>

text \<open>
  A tensor is its element type, its dimensions and its elements in row-major order. A resource tensor holds a
  handle: the container and the name.
\<close>

datatype dtype = DT_RESOURCE | DT nat

datatype 'a elem = Val 'a | Handle string string

record 'a tensor =
  t_dtype :: dtype
  t_dims :: "nat list"
  t_elems :: "'a elem list"

definition NumElements :: "'a tensor \<Rightarrow> nat" where
  "NumElements t = prod_list (t_dims t)"

definition tensor_ok :: "'a tensor \<Rightarrow> bool" where
  "tensor_ok t \<longleftrightarrow> length (t_elems t) = NumElements t"

text \<open>
  \<^verbatim>\<open>dim_size(0)\<close> of a scalar reads a dimension that is not there (only debug builds check); the value it finds
  is the parameter \<open>junk\<close>.
\<close>

definition dim_size0 :: "nat \<Rightarrow> 'a tensor \<Rightarrow> nat" where
  "dim_size0 junk t = (case t_dims t of [] \<Rightarrow> junk | d # _ \<Rightarrow> d)"

definition Slice :: "nat \<Rightarrow> nat \<Rightarrow> 'a tensor \<Rightarrow> 'a tensor outcome" where
  "Slice start limit t =
     (case t_dims t of [] \<Rightarrow> Abort
      | dim0_size # ds \<Rightarrow>
        if \<not> start \<le> limit \<or> \<not> limit \<le> dim0_size then Abort
        else if start = 0 \<and> limit = dim0_size then Done t
        else if dim0_size > 0 then
          let elems_per_dim0 = NumElements t div dim0_size; delta = start * elems_per_dim0;
              num_elems = (limit - start) * elems_per_dim0 in
          Done (t\<lparr>t_dims := (limit - start) # ds, t_elems := take num_elems (drop delta (t_elems t))\<rparr>)
        else Done (t\<lparr>t_elems := []\<rparr>))"

text \<open>\<^verbatim>\<open>Tensor()\<close>: a vector of no floats. What a move leaves behind has lost its buffer.\<close>

definition default_tensor :: "'a tensor" where
  "default_tensor = \<lparr>t_dtype = DT 1, t_dims = [0], t_elems = []\<rparr>"

definition moved_from :: "'a tensor \<Rightarrow> 'a tensor" where
  "moved_from t = t\<lparr>t_elems := []\<rparr>"

subsection \<open>FunctionCallFrame\<close>

record 'a call_frame =
  arg_types :: "dtype list"
  ret_types :: "dtype list"
  args :: "'a tensor list"
  rets :: "'a tensor option list"

definition FunctionCallFrame :: "dtype list \<Rightarrow> dtype list \<Rightarrow> 'a call_frame" where
  "FunctionCallFrame ats rts = \<lparr>arg_types = ats, ret_types = rts,
     args = replicate (length ats) default_tensor, rets = replicate (length rts) None\<rparr>"

fun set_args :: "dtype list \<Rightarrow> 'a tensor list \<Rightarrow> 'a tensor list \<Rightarrow> status_error option \<times> 'a tensor list" where
  "set_args (ty # ts) (a # as) (b # bs) =
     (if ty \<noteq> t_dtype a then (Some InvalidArgument, b # bs)
      else let (s, bs') = set_args ts as bs in (s, a # bs'))"
| "set_args ts as bs = (None, bs)"

definition SetArgs :: "'a tensor list \<Rightarrow> 'a call_frame \<Rightarrow> status_error option \<times> 'a call_frame" where
  "SetArgs as fr =
     (if length as \<noteq> length (arg_types fr) then (Some InvalidArgument, fr)
      else let (s, as') = set_args (arg_types fr) as (args fr) in (s, fr\<lparr>args := as'\<rparr>))"

definition GetArg :: "int \<Rightarrow> 'a call_frame \<Rightarrow> status_error + 'a tensor" where
  "GetArg index fr = (if index < 0 \<or> nat index \<ge> length (args fr) then Inl InvalidArgument else Inr (args fr ! nat index))"

definition SetRetval :: "int \<Rightarrow> 'a tensor \<Rightarrow> 'a call_frame \<Rightarrow> status_error option \<times> 'a call_frame" where
  "SetRetval index val fr =
     (if index < 0 \<or> nat index \<ge> length (rets fr) then (Some InvalidArgument, fr)
      else if t_dtype val \<noteq> ret_types fr ! nat index then (Some InvalidArgument, fr)
      else case rets fr ! nat index of
          None \<Rightarrow> (None, fr\<lparr>rets := (rets fr)[nat index := Some val]\<rparr>)
        | Some _ \<Rightarrow> (Some Internal, fr))"

fun GetRetvals :: "'a tensor option list \<Rightarrow> status_error + 'a tensor list" where
  "GetRetvals [] = Inr []"
| "GetRetvals (None # rs) = Inl Internal"
| "GetRetvals (Some r # rs) = (case GetRetvals rs of Inl e \<Rightarrow> Inl e | Inr ts \<Rightarrow> Inr (r # ts))"

fun ConsumeRetvals :: "bool \<Rightarrow> 'a tensor option list \<Rightarrow> status_error + 'a tensor list" where
  "ConsumeRetvals allow_dead [] = Inr []"
| "ConsumeRetvals allow_dead (Some r # rs) =
     (case ConsumeRetvals allow_dead rs of Inl e \<Rightarrow> Inl e | Inr ts \<Rightarrow> Inr (r # ts))"
| "ConsumeRetvals allow_dead (None # rs) =
     (if allow_dead then (case ConsumeRetvals allow_dead rs of Inl e \<Rightarrow> Inl e | Inr ts \<Rightarrow> Inr (default_tensor # ts))
      else Inl Internal)"

subsection \<open>Session store\<close>

type_synonym 'a store = "string \<rightharpoonup> 'a tensor"

definition GetTensor :: "string \<Rightarrow> 'a store \<Rightarrow> status_error + 'a tensor" where
  "GetTensor handle st = (case st handle of None \<Rightarrow> Inl InvalidArgument | Some t \<Rightarrow> Inr t)"

definition AddTensor :: "string \<Rightarrow> 'a tensor \<Rightarrow> 'a store \<Rightarrow> status_error + 'a store" where
  "AddTensor handle t st = (case st handle of Some _ \<Rightarrow> Inl InvalidArgument | None \<Rightarrow> Inr (st(handle \<mapsto> t)))"

definition DeleteTensor :: "string \<Rightarrow> 'a store \<Rightarrow> status_error + 'a store" where
  "DeleteTensor handle st = (case st handle of None \<Rightarrow> Inl InvalidArgument | Some _ \<Rightarrow> Inr (st(handle := None)))"

text \<open>\<^verbatim>\<open>scalar<ResourceHandle>()\<close> checks that there is exactly one element.\<close>

definition ResourceHandleToInputTensor :: "'a store \<Rightarrow> 'a tensor \<Rightarrow> (status_error + 'a tensor) outcome" where
  "ResourceHandleToInputTensor st t =
     (if t_dtype t \<noteq> DT_RESOURCE then Done (Inl InvalidArgument)
      else case t_elems t of
          [Handle container hname] \<Rightarrow>
            Done (if container = ''TensorHandle'' then GetTensor hname st else Inl InvalidArgument)
        | _ \<Rightarrow> Abort)"

subsection \<open>The cache of executors\<close>

text \<open>
  \<^verbatim>\<open>ExecutorsAndKeys\<close>, as far as \<^verbatim>\<open>Run\<close> reads it. The two index maps are association lists with distinct keys.
\<close>

record exec =
  input_types :: "dtype list"
  output_types :: "dtype list"
  input_name_to_index :: "(string \<times> nat) list"
  output_name_to_index :: "(string \<times> nat) list"

text \<open>\<^verbatim>\<open>operator[]\<close> of an \<^verbatim>\<open>unordered_map\<close> yields 0 for a key that is missing.\<close>

definition at_key :: "(string \<times> nat) list \<Rightarrow> string \<Rightarrow> nat" where
  "at_key m k = (case map_of m k of None \<Rightarrow> 0 | Some i \<Rightarrow> i)"

record ('w, 'a) session =
  closed :: bool
  graph_created :: bool
  executors :: "string \<rightharpoonup> exec"
  step_id_counter :: nat
  state :: "'w \<times> 'a store"
  input_bytes :: "nat list"

fun Join :: "string list \<Rightarrow> string \<Rightarrow> string" where
  "Join [] sep = []"
| "Join [s] sep = s"
| "Join (s # ss) sep = s @ sep @ Join ss sep"

definition executor_key :: "string list \<Rightarrow> string list \<Rightarrow> string list \<Rightarrow> bool \<Rightarrow> string \<Rightarrow> string" where
  "executor_key ins outs targets partial_run watches =
     Join ins '','' @ ''->'' @ Join outs '','' @ ''/'' @ Join targets '','' @ ''/'' @
     (if partial_run then ''1'' else ''0'') @ ''/'' @ watches"

text \<open>\<^verbatim>\<open>std::sort\<close> on strings: by the byte values.\<close>

fun string_le :: "string \<Rightarrow> string \<Rightarrow> bool" where
  "string_le [] t = True"
| "string_le (c # s) [] = False"
| "string_le (c # s) (d # t) = (of_char c < (of_char d :: nat) \<or> c = d \<and> string_le s t)"

fun insert_string :: "string \<Rightarrow> string list \<Rightarrow> string list" where
  "insert_string s [] = [s]"
| "insert_string s (t # ts) = (if string_le s t then s # t # ts else t # insert_string s ts)"

definition sort_strings :: "string list \<Rightarrow> string list" where
  "sort_strings ss = foldr insert_string ss []"

text \<open>\<^verbatim>\<open>emplace\<close> keeps an entry that is there.\<close>

definition emplace :: "string \<Rightarrow> exec \<Rightarrow> (string \<rightharpoonup> exec) \<Rightarrow> (string \<rightharpoonup> exec)" where
  "emplace k e m = (if m k = None then m(k \<mapsto> e) else m)"

definition GetOrCreateExecutors ::
  "(string list \<Rightarrow> string list \<Rightarrow> string list \<Rightarrow> status_error + exec) \<Rightarrow> bool \<Rightarrow> string \<Rightarrow>
   string list \<Rightarrow> string list \<Rightarrow> string list \<Rightarrow> ('w, 'a) session \<Rightarrow> (status_error + exec) \<times> ('w, 'a) session" where
  "GetOrCreateExecutors create partial_run watches ins outs targets s =
     (let key = executor_key ins outs targets partial_run watches in
      case executors s key of
        Some e \<Rightarrow> (Inr e, s)
      | None \<Rightarrow>
        let sorted_key = executor_key (sort_strings ins) (sort_strings outs) (sort_strings targets) partial_run watches in
        (case executors s sorted_key of
           Some e \<Rightarrow> (Inr e, s\<lparr>executors := emplace key e (executors s)\<rparr>)
         | None \<Rightarrow>
           (case create (sort_strings ins) (sort_strings outs) (sort_strings targets) of
              Inl err \<Rightarrow> (Inl err, s)
            | Inr ek \<Rightarrow>
              let m = emplace sorted_key ek (executors s); e = the (m sorted_key) in
              (Inr e, s\<lparr>executors := emplace key e m\<rparr>))))"

subsection \<open>Run\<close>

text \<open>What \<^verbatim>\<open>Run\<close> depends on: \<^verbatim>\<open>CreateExecutors\<close>, \<^verbatim>\<open>RunInternal\<close>, \<^verbatim>\<open>AllocatedBytes\<close>, and the junk of \<open>dim_size0\<close>.\<close>

record ('w, 'a) env =
  CreateExecutors :: "string list \<Rightarrow> string list \<Rightarrow> string list \<Rightarrow> status_error + exec"
  RunInternal :: "nat \<Rightarrow> exec \<Rightarrow> 'a call_frame \<Rightarrow> 'w \<times> 'a store \<Rightarrow> status_error option \<times> 'a call_frame \<times> 'w \<times> 'a store"
  AllocatedBytes :: "'a tensor \<Rightarrow> nat"
  junk :: nat

definition spl :: nat where
  "spl = 8"

definition CheckNotClosed :: "('w, 'a) session \<Rightarrow> status_error option" where
  "CheckNotClosed s = (if closed s then Some Cancelled else None)"

definition CheckGraphCreated :: "('w, 'a) session \<Rightarrow> status_error option" where
  "CheckGraphCreated s = (if \<not> graph_created s then Some InvalidArgument else None)"

definition Close :: "('w, 'a) session \<Rightarrow> ('w, 'a) session" where
  "Close s = s\<lparr>closed := True\<rparr>"

text \<open>The number that is recorded for the inputs: an eighth of each, and then each again in full.\<close>

definition input_size :: "('w, 'a) env \<Rightarrow> (string \<times> 'a tensor) list \<Rightarrow> nat" where
  "input_size E ins = fold (\<lambda>(n, t) size. wrap64 (wrap64 (size + AllocatedBytes E t div spl) + AllocatedBytes E t)) ins 0"

text \<open>The loop that fills \<^verbatim>\<open>feed_args\<close> for slice \<open>sc\<close>.\<close>

fun feed_inputs :: "('w, 'a) env \<Rightarrow> nat \<Rightarrow> exec \<Rightarrow> 'a store \<Rightarrow> (string \<times> 'a tensor) list \<Rightarrow> 'a tensor list \<Rightarrow>
    (status_error + 'a tensor list) outcome" where
  "feed_inputs E sc ek st [] feed_args = Done (Inr feed_args)"
| "feed_inputs E sc ek st ((n, t) # ins) feed_args =
     (let sps = dim_size0 (junk E) t div spl in
      obind (if t_dtype t = DT_RESOURCE then ResourceHandleToInputTensor st t else Done (Inr t)) (\<lambda>r.
        case r of
          Inl e \<Rightarrow> Done (Inl e)
        | Inr u \<Rightarrow> obind (Slice (sc * sps) ((sc + 1) * sps) u) (\<lambda>sl.
            feed_inputs E sc ek st ins (feed_args[at_key (input_name_to_index ek) n := sl]))))"

text \<open>\<^verbatim>\<open>first_indices[i]\<close>, and the loop that fills \<^verbatim>\<open>outputs\<close>, moving tensors out of \<^verbatim>\<open>sorted_outputs\<close>.\<close>

definition first_index :: "string list \<Rightarrow> nat \<Rightarrow> nat" where
  "first_index names i = the (find (\<lambda>j. names ! i = names ! j) [0..<Suc i])"

fun collect_outputs :: "exec \<Rightarrow> bool \<Rightarrow> string list \<Rightarrow> nat list \<Rightarrow> 'a tensor list \<Rightarrow> 'a tensor list \<Rightarrow> 'a tensor list" where
  "collect_outputs ek unique_outputs names [] sorted_outputs outs = outs"
| "collect_outputs ek unique_outputs names (i # is) sorted_outputs outs =
     (if unique_outputs \<or> first_index names i = i then
        let k = at_key (output_name_to_index ek) (names ! i) in
        collect_outputs ek unique_outputs names is (sorted_outputs[k := moved_from (sorted_outputs ! k)]) (outs @ [sorted_outputs ! k])
      else collect_outputs ek unique_outputs names is sorted_outputs (outs @ [outs ! first_index names i]))"

definition receive_outputs :: "exec \<Rightarrow> string list \<Rightarrow> 'a tensor list \<Rightarrow> 'a tensor list" where
  "receive_outputs ek names sorted_outputs =
     collect_outputs ek (length names = length (output_name_to_index ek)) names [0..<length names] sorted_outputs []"

definition internal_to_invalid :: "status_error \<Rightarrow> status_error" where
  "internal_to_invalid e = (if e = Internal then InvalidArgument else e)"

text \<open>
  The body of the loop over the slices. The state carries the session, the vector of the caller (\<open>None\<close> for a null
  pointer) and the local \<^verbatim>\<open>output_gather\<close>.
\<close>

type_synonym ('w, 'a) run_state = "('w, 'a) session \<times> 'a tensor list option \<times> 'a tensor list"

definition run_slice :: "('w, 'a) env \<Rightarrow> string \<Rightarrow> (string \<times> 'a tensor) list \<Rightarrow> string list \<Rightarrow> string list \<Rightarrow> nat \<Rightarrow>
    ('w, 'a) run_state \<Rightarrow> (status_error option \<times> ('w, 'a) run_state) outcome" where
  "run_slice E watches ins output_names targets sc = (\<lambda>(s, outs, gather).
     let s1 = s\<lparr>input_bytes := input_bytes s @ [input_size E ins]\<rparr> in
     case GetOrCreateExecutors (CreateExecutors E) False watches (map fst ins) output_names targets s1 of
       (Inl e, s2) \<Rightarrow> Done (Some e, s2, outs, gather)
     | (Inr ek, s2) \<Rightarrow>
       obind (feed_inputs E sc ek (snd (state s2)) ins (replicate (length ins) default_tensor)) (\<lambda>r.
         case r of
           Inl e \<Rightarrow> Done (Some e, s2, outs, gather)
         | Inr feed_args \<Rightarrow>
           (case SetArgs feed_args (FunctionCallFrame (input_types ek) (output_types ek)) of
              (Some e, fr) \<Rightarrow> Done (Some (internal_to_invalid e), s2, outs, gather)
            | (None, fr) \<Rightarrow>
              let step_id = step_id_counter s2 in
              (case RunInternal E step_id ek fr (state s2) of (err, fr', w) \<Rightarrow>
                let s3 = s2\<lparr>step_id_counter := step_id + 1, state := w\<rparr> in
                case err of
                  Some e \<Rightarrow> Done (Some e, s3, outs, gather)
                | None \<Rightarrow>
                  (case outs of
                     None \<Rightarrow> Done (None, s3, None, gather)
                   | Some _ \<Rightarrow>
                     (case ConsumeRetvals False (rets fr') of
                        Inl e \<Rightarrow> Done (Some (internal_to_invalid e), s3, outs, gather)
                      | Inr sorted_outputs \<Rightarrow>
                        let os = receive_outputs ek output_names sorted_outputs in
                        Done (None, s3, Some os, if gather = [] then os else gather @ os)))))))"

fun run_slices :: "('w, 'a) env \<Rightarrow> string \<Rightarrow> (string \<times> 'a tensor) list \<Rightarrow> string list \<Rightarrow> string list \<Rightarrow> nat list \<Rightarrow>
    ('w, 'a) run_state \<Rightarrow> (status_error option \<times> ('w, 'a) run_state) outcome" where
  "run_slices E watches ins output_names targets [] rs = Done (None, rs)"
| "run_slices E watches ins output_names targets (sc # scs) rs =
     obind (run_slice E watches ins output_names targets sc rs) (\<lambda>(err, rs').
       case err of Some e \<Rightarrow> Done (Some e, rs') | None \<Rightarrow> run_slices E watches ins output_names targets scs rs')"

text \<open>
  \<^verbatim>\<open>DirectSession::Run\<close>: the status, the session and the vector of the caller. The last statement before the
  return, \<^verbatim>\<open>outputs = &output_gather\<close>, sets the pointer that is the function's own copy of its argument: the
  vector of the caller keeps what the last slice wrote and \<^verbatim>\<open>output_gather\<close> is destroyed.
\<close>

definition DirectSession_Run :: "('w, 'a) env \<Rightarrow> string \<Rightarrow> (string \<times> 'a tensor) list \<Rightarrow> string list \<Rightarrow> string list \<Rightarrow>
    'a tensor list option \<Rightarrow> ('w, 'a) session \<Rightarrow> (status_error option \<times> ('w, 'a) session \<times> 'a tensor list option) outcome" where
  "DirectSession_Run E watches ins output_names targets outs s =
     (case CheckNotClosed s of Some e \<Rightarrow> Done (Some e, s, outs) | None \<Rightarrow>
      case CheckGraphCreated s of Some e \<Rightarrow> Done (Some e, s, outs) | None \<Rightarrow>
      obind (if length ins \<ge> 2 then Slice 0 (dim_size0 (junk E) (snd (ins ! 1)) div spl) (snd (ins ! 1)) else Done default_tensor) (\<lambda>_.
      obind (run_slices E watches ins output_names targets [0..<spl] (s, outs, [])) (\<lambda>(err, s', outs', gather).
        Done (err, s', outs'))))"

subsection \<open>Slices\<close>

definition slice_of :: "nat \<Rightarrow> 'a tensor \<Rightarrow> 'a tensor" where
  "slice_of sc t =
     (let sps = hd (t_dims t) div spl; row = prod_list (tl (t_dims t)) in
      t\<lparr>t_dims := sps # tl (t_dims t), t_elems := take (sps * row) (drop (sc * sps * row) (t_elems t))\<rparr>)"

lemma Slice_rows:
  assumes t: "tensor_ok t" "t_dims t = n # ds" and b: "a \<le> b" "b \<le> n"
  shows "Slice a b t = Done (t\<lparr>t_dims := (b - a) # ds, t_elems := take ((b - a) * prod_list ds) (drop (a * prod_list ds) (t_elems t))\<rparr>)"
proof -
  have len: "length (t_elems t) = n * prod_list ds" using t by (simp add: tensor_ok_def NumElements_def)
  have same: "t\<lparr>t_dims := n # ds, t_elems := t_elems t\<rparr> = t" using t by simp
  show ?thesis
    using t b len same by (cases "n = 0") (auto simp: Slice_def NumElements_def Let_def)
qed

lemma slice_bounds: "sc < spl \<Longrightarrow> sc * (n div spl) \<le> (sc + 1) * (n div spl) \<and> (sc + 1) * (n div spl) \<le> n"
proof -
  assume "sc < spl"
  then have "(sc + 1) * (n div spl) \<le> spl * (n div spl)" by (intro mult_right_mono) auto
  then show ?thesis by (auto intro: le_trans)
qed

lemma Slice_slice_of:
  assumes "tensor_ok t" "t_dims t \<noteq> []" "sc < spl"
  shows "Slice (sc * (hd (t_dims t) div spl)) ((sc + 1) * (hd (t_dims t) div spl)) t = Done (slice_of sc t)"
  using assms slice_bounds [OF assms(3), of "hd (t_dims t)"] Slice_rows [OF assms(1), of "hd (t_dims t)" "tl (t_dims t)"]
  by (simp add: slice_of_def Let_def)

lemma take_drop_blocks: "concat (map (\<lambda>i. take k (drop (i * k) xs)) [0..<m]) = take (m * k) xs"
proof (induction m)
  case (Suc m)
  then show ?case by (simp add: take_add [of "m * k" k] add.commute [of k])
qed simp

lemma concat_slices:
  "concat (map (\<lambda>sc. t_elems (slice_of sc t)) [0..<m]) = take (m * (hd (t_dims t) div spl * prod_list (tl (t_dims t)))) (t_elems t)"
  using take_drop_blocks [of "hd (t_dims t) div spl * prod_list (tl (t_dims t))" "t_elems t" m]
  by (simp add: slice_of_def Let_def mult.assoc)

lemma slice_of_ok:
  assumes "tensor_ok t" "t_dims t \<noteq> []" "sc < spl"
  shows "tensor_ok (slice_of sc t)"
proof -
  let ?n = "hd (t_dims t)" and ?row = "prod_list (tl (t_dims t))"
  have "length (t_elems t) = ?n * ?row" using assms(1,2) by (cases "t_dims t") (auto simp: tensor_ok_def NumElements_def)
  moreover have "(sc + 1) * (?n div spl) * ?row \<le> ?n * ?row" using slice_bounds [OF assms(3)] by (intro mult_right_mono) auto
  ultimately show ?thesis by (simp add: tensor_ok_def NumElements_def slice_of_def Let_def algebra_simps)
qed

subsection \<open>Feeding\<close>

definition batch_input :: "string \<times> 'a tensor \<Rightarrow> bool" where
  "batch_input x \<longleftrightarrow> tensor_ok (snd x) \<and> t_dims (snd x) \<noteq> [] \<and> t_dtype (snd x) \<noteq> DT_RESOURCE"

lemma dim_size0_hd [simp]: "t_dims t \<noteq> [] \<Longrightarrow> dim_size0 j t = hd (t_dims t)"
  by (cases "t_dims t") (auto simp: dim_size0_def)

definition put_slices :: "nat \<Rightarrow> exec \<Rightarrow> (string \<times> 'a tensor) list \<Rightarrow> 'a tensor list \<Rightarrow> 'a tensor list" where
  "put_slices sc ek ins fa = fold (\<lambda>(n, t) fa. fa[at_key (input_name_to_index ek) n := slice_of sc t]) ins fa"

lemma feed_inputs_batch:
  assumes "\<forall>x \<in> set ins. batch_input x" "sc < spl"
  shows "feed_inputs E sc ek st ins fa = Done (Inr (put_slices sc ek ins fa))"
  using assms
proof (induction ins arbitrary: fa)
  case (Cons x ins)
  then show ?case by (cases x) (auto simp: batch_input_def put_slices_def Slice_slice_of [simplified] Let_def)
qed (simp add: put_slices_def)

lemma feed_inputs_scalar:
  assumes "\<forall>x \<in> set ins. tensor_ok (snd x) \<and> t_dtype (snd x) \<noteq> DT_RESOURCE" "x \<in> set ins" "t_dims (snd x) = []" "sc < spl"
  shows "feed_inputs E sc ek st ins fa = Abort"
  using assms
proof (induction ins arbitrary: fa)
  case (Cons y ins)
  obtain n t where y: "y = (n, t)" by (cases y)
  show ?case
  proof (cases "t_dims t = []")
    case True
    then show ?thesis using Cons.prems y by (auto simp: Let_def Slice_def)
  next
    case False
    then show ?thesis using Cons y by (auto simp: Let_def Slice_slice_of [simplified])
  qed
qed simp

lemma put_slices_length [simp]: "length (put_slices sc ek ins fa) = length fa"
  unfolding put_slices_def by (induction ins arbitrary: fa) (auto simp: case_prod_unfold)

lemma put_slices_other:
  "i \<notin> set (map (at_key (input_name_to_index ek) \<circ> fst) ins) \<Longrightarrow> put_slices sc ek ins fa ! i = fa ! i"
  unfolding put_slices_def by (induction ins arbitrary: fa) (auto simp: case_prod_unfold)

lemma put_slices_nth:
  assumes "distinct (map (at_key (input_name_to_index ek) \<circ> fst) ins)" "(n, t) \<in> set ins"
    "\<forall>x \<in> set ins. at_key (input_name_to_index ek) (fst x) < length fa"
  shows "put_slices sc ek ins fa ! at_key (input_name_to_index ek) n = slice_of sc t"
  using assms
proof (induction ins arbitrary: fa)
  case (Cons x ins)
  have step: "put_slices sc ek (x # ins) fa = put_slices sc ek ins (fa[at_key (input_name_to_index ek) (fst x) := slice_of sc (snd x)])"
    by (cases x) (simp add: put_slices_def)
  show ?case
  proof (cases "x = (n, t)")
    case True
    then show ?thesis unfolding step using Cons.prems put_slices_other [of "at_key (input_name_to_index ek) n" ek ins] by simp
  next
    case False
    then show ?thesis using Cons by (simp add: step)
  qed
qed simp

lemma set_args_all:
  assumes "length ts = length as" "length bs = length as" "\<forall>i < length as. ts ! i = t_dtype (as ! i)"
  shows "set_args ts as bs = (None, as)"
  using assms
proof (induction ts as bs rule: set_args.induct)
  case (1 ty ts a as b bs)
  then show ?case by (force simp: All_less_Suc2)
qed (auto simp: length_Suc_conv)

subsection \<open>Receiving\<close>

lemma find_append: "find P (xs @ ys) = (case find P xs of None \<Rightarrow> find P ys | Some x \<Rightarrow> Some x)"
  by (induction xs) auto

lemma first_index_eq: "first_index names i = i \<longleftrightarrow> names ! i \<notin> set (take i names)" if "i < length names"
proof -
  have *: "[0..<Suc i] = [0..<i] @ [i]" by simp
  show ?thesis
  proof (cases "names ! i \<in> set (take i names)")
    case True
    then obtain j where "j < i" "names ! i = names ! j" using that by (auto simp: in_set_conv_nth)
    then have "find (\<lambda>j. names ! i = names ! j) [0..<i] \<noteq> None" by (auto simp: find_None_iff)
    then obtain k where k: "find (\<lambda>j. names ! i = names ! j) [0..<i] = Some k" by auto
    then have "k < i" by (auto simp: find_Some_iff)
    moreover have "first_index names i = k" using k by (simp only: first_index_def * find_append) simp
    ultimately show ?thesis using True by simp
  next
    case False
    then have "find (\<lambda>j. names ! i = names ! j) [0..<i] = None" using that
      by (auto simp: find_None_iff in_set_conv_nth)
    then show ?thesis using False by (simp only: first_index_def * find_append) simp
  qed
qed

lemma first_index_repeated:
  assumes "i < length names" "first_index names i \<noteq> i"
  shows "first_index names i < i" "names ! first_index names i = names ! i"
proof -
  have "find (\<lambda>j. names ! i = names ! j) [0..<Suc i] \<noteq> None" by (auto simp: find_None_iff)
  then obtain k where k: "find (\<lambda>j. names ! i = names ! j) [0..<Suc i] = Some k" by auto
  then have "k < Suc i" "names ! i = names ! k" by (auto simp: find_Some_iff simp del: upt_Suc)
  moreover have "first_index names i = k" using k by (simp add: first_index_def del: upt_Suc)
  ultimately show "first_index names i < i" "names ! first_index names i = names ! i" using assms(2) by auto
qed

lemma collect_outputs_map:
  assumes u: "u \<Longrightarrow> distinct names" and inj: "inj_on (at_key (output_name_to_index ek)) (set names)"
    and b: "\<forall>n \<in> set names. at_key (output_name_to_index ek) n < length srt0"
    and i: "i \<le> length names" "length srt = length srt0"
    and srt: "\<forall>n \<in> set names. n \<notin> set (take i names) \<longrightarrow>
      srt ! at_key (output_name_to_index ek) n = srt0 ! at_key (output_name_to_index ek) n"
  shows "collect_outputs ek u names [i..<length names] srt (map (\<lambda>n. srt0 ! at_key (output_name_to_index ek) n) (take i names)) =
    map (\<lambda>n. srt0 ! at_key (output_name_to_index ek) n) names"
  using i srt
proof (induction "length names - i" arbitrary: i srt)
  case 0
  then show ?case by simp
next
  case (Suc m)
  let ?k = "at_key (output_name_to_index ek)"
  have i: "i < length names" using Suc.hyps(2) by simp
  have t: "take (Suc i) names = take i names @ [names ! i]" using i by (rule take_Suc_conv_app_nth)
  show ?case
  proof (cases "u \<or> first_index names i = i")
    case True
    have new: "names ! i \<notin> set (take i names)"
    proof (cases u)
      case True
      then show ?thesis using u i by (auto simp: in_set_conv_nth nth_eq_iff_index_eq)
    next
      case False
      then show ?thesis using \<open>u \<or> _\<close> first_index_eq [OF i] by simp
    qed
    have "srt ! ?k (names ! i) = srt0 ! ?k (names ! i)" using Suc.prems i new by simp
    moreover have "\<forall>n \<in> set names. n \<notin> set (take (Suc i) names) \<longrightarrow>
        (srt[?k (names ! i) := moved_from (srt ! ?k (names ! i))]) ! ?k n = srt0 ! ?k n"
      using Suc.prems i inj by (auto simp: t nth_list_update inj_on_eq_iff)
    ultimately show ?thesis
      using Suc.hyps(1) [of "Suc i" "srt[?k (names ! i) := moved_from (srt ! ?k (names ! i))]"] Suc.hyps(2) Suc.prems i True
      by (simp add: upt_conv_Cons t Let_def)
  next
    case False
    then have "first_index names i < i" "names ! first_index names i = names ! i" using first_index_repeated [OF i] by auto
    then show ?thesis
      using Suc.hyps(1) [of "Suc i" srt] Suc.hyps(2) Suc.prems i False by (simp add: upt_conv_Cons t nth_append)
  qed
qed

text \<open>
  What a cache entry has to do with a request: the index maps send the feeds and the fetches to distinct
  positions, and the types agree.
\<close>

definition exec_fits :: "exec \<Rightarrow> (string \<times> 'a tensor) list \<Rightarrow> string list \<Rightarrow> bool" where
  "exec_fits ek ins names \<longleftrightarrow>
     length (input_types ek) = length ins \<and>
     distinct (map (at_key (input_name_to_index ek) \<circ> fst) ins) \<and>
     list_all (\<lambda>x. at_key (input_name_to_index ek) (fst x) < length ins \<and>
       input_types ek ! at_key (input_name_to_index ek) (fst x) = t_dtype (snd x)) ins \<and>
     distinct (map fst (output_name_to_index ek)) \<and> set (map fst (output_name_to_index ek)) = set names \<and>
     distinct (map (at_key (output_name_to_index ek)) (remdups names)) \<and>
     list_all (\<lambda>n. at_key (output_name_to_index ek) n < length (output_types ek)) names"

lemma receive_outputs_map:
  assumes "exec_fits ek ins names" "length srt = length (output_types ek)"
  shows "receive_outputs ek names srt = map (\<lambda>n. srt ! at_key (output_name_to_index ek) n) names"
proof -
  have "distinct names" if "length names = length (output_name_to_index ek)"
  proof (rule card_distinct)
    have "card (set names) = card (set (map fst (output_name_to_index ek)))" using assms(1) by (simp add: exec_fits_def)
    also have "\<dots> = length names" using assms(1) that by (subst distinct_card) (simp_all add: exec_fits_def)
    finally show "card (set names) = length names" .
  qed
  moreover have "inj_on (at_key (output_name_to_index ek)) (set names)"
    using assms(1) by (simp add: exec_fits_def distinct_map)
  ultimately show ?thesis
    using collect_outputs_map [of "length names = length (output_name_to_index ek)" names ek srt 0 srt] assms
    by (simp add: receive_outputs_def exec_fits_def list_all_iff)
qed

lemma ConsumeRetvals_all: "ConsumeRetvals False (map Some ts) = Inr ts"
  by (induction ts) auto

subsection \<open>A request on a session that has an executor for it\<close>

definition ready :: "string \<Rightarrow> (string \<times> 'a tensor) list \<Rightarrow> string list \<Rightarrow> string list \<Rightarrow> exec \<Rightarrow> ('w, 'a) session \<Rightarrow> bool" where
  "ready watches ins names targets ek s \<longleftrightarrow>
     \<not> closed s \<and> graph_created s \<and> executors s (executor_key (map fst ins) names targets False watches) = Some ek"

text \<open>A step that computes \<open>f\<close> of its arguments and changes nothing else.\<close>

definition computes :: "('w, 'a) env \<Rightarrow> exec \<Rightarrow> ('a tensor list \<Rightarrow> 'a tensor list) \<Rightarrow> bool" where
  "computes E ek f \<longleftrightarrow>
     (\<forall>step fr w. RunInternal E step ek fr w = (None, fr\<lparr>rets := map Some (f (args fr))\<rparr>, w)) \<and>
     (\<forall>as. length (f as) = length (output_types ek))"

lemma SetArgs_put_slices:
  fixes ins :: "(string \<times> 'a tensor) list" and sc :: nat
  assumes fits: "exec_fits ek ins names"
  defines "fa \<equiv> put_slices sc ek ins (replicate (length ins) default_tensor)"
  shows "SetArgs fa (FunctionCallFrame (input_types ek) (output_types ek)) =
    (None, (FunctionCallFrame (input_types ek) (output_types ek))\<lparr>args := fa\<rparr>)"
proof -
  let ?k = "\<lambda>x. at_key (input_name_to_index ek) (fst x)"
  have d: "distinct (map ?k ins)" and b: "\<forall>x \<in> set ins. ?k x < length ins"
    using fits by (auto simp: exec_fits_def list_all_iff comp_def)
  have "card (?k ` set ins) = length ins" using d by (metis distinct_card length_map list.set_map)
  then have onto: "?k ` set ins = {..<length ins}" using b by (intro card_subset_eq) auto
  have "input_types ek ! i = t_dtype (fa ! i)" if "i < length ins" for i
  proof -
    obtain x where x: "x \<in> set ins" "i = ?k x" using onto \<open>i < length ins\<close> by blast
    then have "fa ! i = slice_of sc (snd x)"
      using put_slices_nth [of ek ins "fst x" "snd x" "replicate (length ins) default_tensor" sc] d b by (simp add: fa_def comp_def)
    then show ?thesis using fits x by (auto simp: exec_fits_def list_all_iff slice_of_def Let_def)
  qed
  then have "set_args (input_types ek) fa (replicate (length ins) default_tensor) = (None, fa)"
    using fits by (intro set_args_all) (auto simp: fa_def exec_fits_def)
  then show ?thesis using fits by (simp add: SetArgs_def FunctionCallFrame_def exec_fits_def fa_def)
qed

lemma run_slice_computes:
  fixes ins :: "(string \<times> 'a tensor) list" and s :: "('w, 'a) session"
  assumes r: "ready watches ins names targets ek s" and fits: "exec_fits ek ins names"
    and ins: "\<forall>x \<in> set ins. batch_input x" and f: "computes E ek f" and sc: "sc < spl"
  shows "\<exists>g'. run_slice E watches ins names targets sc (s, Some os, g) =
    Done (None, s\<lparr>input_bytes := input_bytes s @ [input_size E ins], step_id_counter := step_id_counter s + 1\<rparr>,
      Some (map (\<lambda>n. f (put_slices sc ek ins (replicate (length ins) default_tensor)) ! at_key (output_name_to_index ek) n) names), g')"
proof -
  let ?fa = "put_slices sc ek ins (replicate (length ins) default_tensor :: 'a tensor list)"
  have "receive_outputs ek names (f ?fa) = map (\<lambda>n. f ?fa ! at_key (output_name_to_index ek) n) names"
    using receive_outputs_map [OF fits, of "f ?fa"] f by (simp add: computes_def)
  moreover have "RunInternal E step ek fr w = (None, fr\<lparr>rets := map Some (f (args fr))\<rparr>, w)" for step fr w
    using f unfolding computes_def by blast
  moreover have unchanged: "t\<lparr>state := state s\<rparr> = t" if "state t = state s" for t :: "('w, 'a) session"
    using that by (metis session.surjective session.update_convs(5))
  ultimately show ?thesis
    using r f unchanged SetArgs_put_slices [OF fits, of sc] feed_inputs_batch [OF ins sc, of E ek "snd (state s)"]
    by (simp add: run_slice_def ready_def GetOrCreateExecutors_def ConsumeRetvals_all Let_def)
qed

lemma run_slices_computes:
  assumes "ready watches ins names targets ek s" "exec_fits ek ins names"
    "\<forall>x \<in> set ins. batch_input x" "computes E ek f" "\<forall>sc \<in> set scs. sc < spl"
  shows "\<exists>s' g'. run_slices E watches ins names targets scs (s, Some os, g) = Done (None, s',
      Some (if scs = [] then os else map (\<lambda>n. f (put_slices (last scs) ek ins (replicate (length ins) default_tensor)) !
        at_key (output_name_to_index ek) n) names), g') \<and>
    step_id_counter s' = step_id_counter s + length scs \<and>
    input_bytes s' = input_bytes s @ replicate (length scs) (input_size E ins) \<and> state s' = state s"
  using assms(1,5)
proof (induction scs arbitrary: s os g)
  case (Cons sc scs)
  let ?s = "s\<lparr>input_bytes := input_bytes s @ [input_size E ins], step_id_counter := step_id_counter s + 1\<rparr>"
  let ?os = "map (\<lambda>n. f (put_slices sc ek ins (replicate (length ins) default_tensor)) ! at_key (output_name_to_index ek) n) names"
  obtain g1 where g1: "run_slice E watches ins names targets sc (s, Some os, g) = Done (None, ?s, Some ?os, g1)"
    using run_slice_computes [OF Cons.prems(1) assms(2,3,4)] Cons.prems(2) by fastforce
  have "ready watches ins names targets ek ?s" using Cons.prems(1) by (simp add: ready_def)
  from Cons.IH [OF this, of ?os g1] Cons.prems(2) g1 show ?case by (auto simp: replicate_append_same)
qed simp

lemma obind_Abort: "obind m (\<lambda>_. Abort) = Abort"
  by (cases m) auto

lemma probe_Done:
  assumes "\<forall>x \<in> set ins. batch_input x" "2 \<le> length ins"
  shows "\<exists>u. Slice 0 (dim_size0 j (snd (ins ! 1)) div spl) (snd (ins ! 1)) = Done u"
proof -
  have "batch_input (ins ! 1)" using assms by simp
  then show ?thesis using Slice_slice_of [of "snd (ins ! 1)" 0] by (simp add: batch_input_def spl_def)
qed

subsection \<open>Properties of Run\<close>


definition demo_tensor :: "nat tensor" where
  "demo_tensor = \<lparr>t_dtype = DT 1, t_dims = [9, 1], t_elems = map Val [0..<9]\<rparr>"



text \<open>
  a scalar feed kills the process: a request with an input of rank 0 ends in the \<^verbatim>\<open>CHECK\<close> of \<^verbatim>\<open>Tensor::Slice\<close>,
  whatever the executor would compute.
\<close>

theorem scalar_feed_aborts:
  assumes "ready watches ins names targets ek s" "\<forall>x \<in> set ins. tensor_ok (snd x) \<and> t_dtype (snd x) \<noteq> DT_RESOURCE"
    "(n, t) \<in> set ins" "t_dims t = []"
  shows "DirectSession_Run E watches ins names targets outs s = Abort"
proof -
  have "run_slice E watches ins names targets 0 (s, outs, g) = Abort" for g
    using assms(1) feed_inputs_scalar [OF assms(2,3), of 0 E ek "snd (state s)"] assms(4)
    by (simp add: run_slice_def ready_def GetOrCreateExecutors_def Let_def spl_def)
  then have "run_slices E watches ins names targets [0..<spl] (s, outs, []) = Abort"
    by (simp add: spl_def upt_conv_Cons)
  then show ?thesis using assms(1)
    by (simp add: DirectSession_Run_def ready_def CheckNotClosed_def CheckGraphCreated_def obind_Abort)
qed

subsection \<open>Witnesses for Run\<close>

definition demo_exec :: exec where
  "demo_exec = \<lparr>input_types = [DT 1], output_types = [DT 1], input_name_to_index = [(''x:0'', 0)], output_name_to_index = [(''y:0'', 0)]\<rparr>"

definition demo_env :: "(unit, nat) env" where
  "demo_env = \<lparr>CreateExecutors = (\<lambda>_ _ _. Inl NotFound),
     RunInternal = (\<lambda>step ek fr w. (None, fr\<lparr>rets := map Some [args fr ! 0]\<rparr>, w)),
     AllocatedBytes = (\<lambda>t. 4 * length (t_elems t)), junk = 0\<rparr>"

definition demo_session :: "(unit, nat) session" where
  "demo_session = \<lparr>closed = False, graph_created = True,
     executors = [executor_key [''x:0''] [''y:0''] [] False [] \<mapsto> demo_exec], step_id_counter = 0, state = ((), Map.empty), input_bytes = []\<rparr>"


theorem scalar_feed_aborts_witness:
  "DirectSession_Run demo_env [] [(''x:0'', \<lparr>t_dtype = DT 1, t_dims = [], t_elems = [Val 3]\<rparr>)] [''y:0''] [] (Some []) demo_session = Abort"
  by (rule scalar_feed_aborts [of _ _ _ _ demo_exec _ "''x:0''" "\<lparr>t_dtype = DT 1, t_dims = [], t_elems = [Val 3]\<rparr>"])
    (simp_all add: ready_def demo_session_def tensor_ok_def NumElements_def)

subsection \<open>The cache\<close>

text \<open>
  Requests that differ only in the order of their names share one executor: after a request, any request with the
  same sorted key gets the same entry, and nothing is created.
\<close>

theorem executors_shared:
  assumes "GetOrCreateExecutors create p watches ins outs targets s = (Inr e, s1)"
    "executors s (executor_key ins outs targets p watches) = None"
    "sort_strings ins' = sort_strings ins" "sort_strings outs' = sort_strings outs" "sort_strings targets' = sort_strings targets"
    "executors s1 (executor_key ins' outs' targets' p watches) \<in> {None, Some e}"
  shows "fst (GetOrCreateExecutors create' p watches ins' outs' targets' s1) = Inr e"
  using assms
  by (auto simp: GetOrCreateExecutors_def emplace_def Let_def split: option.splits sum.splits if_splits)

text \<open>
  The key joins the names with characters that names may contain: two different requests can have the same
  key, and the second one is then served with the executor of the first.
\<close>

theorem executor_key_collision:
  "executor_key [] [''a''] [''b/c''] False [] = executor_key [] [''a/b''] [''c''] False []"
  by (simp add: executor_key_def)

end
