(* ===== verification/Pending_Counts.thy ===== *)
theory Pending_Counts
  imports Prelude
begin

text \<open>
  \<^verbatim>\<open>core/common_runtime/pending_counts.h\<close>: the packed table in which the executor counts, for every node of an
  iteration, the inputs that are still to arrive and those that arrived dead. A node with small counts has one
  byte, three bits for each count and one for the started flag; the others have two 32-bit words. The table is
  the array of bytes, and a handle says where a node's counts are and in which form.

  The bit fields are laid out as the compilers of the supported platforms do: from the least significant bit, words
  with the least significant byte first. Bytes are numbers below 256. The assertions \<^verbatim>\<open>DCHECK\<close>, which only debug builds evaluate, are
  hypotheses of the lemmas.
\<close>

subsection \<open>Handles and their layout\<close>

datatype node_state = PENDING_NOTREADY | PENDING_READY | STARTED | COMPLETED

record handle =
  byte_offset :: nat
  is_large :: bool

definition kMaxCountForPackedCounts :: nat where
  "kMaxCountForPackedCounts = 7"

definition CreateHandle :: "nat \<Rightarrow> nat \<Rightarrow> nat \<Rightarrow> handle \<times> nat" where
  "CreateHandle max_pending max_dead next_offset =
     (if max_pending > kMaxCountForPackedCounts \<or> max_dead > kMaxCountForPackedCounts then
        let B = 8; offset = (next_offset + B - 1) div B * B in
        (\<lparr>byte_offset = offset, is_large = True\<rparr>, offset + B)
      else (\<lparr>byte_offset = next_offset, is_large = False\<rparr>, next_offset + 1))"

subsection \<open>The two representations\<close>

record counts =
  c_pending :: nat
  c_dead :: nat
  c_started :: bool

definition Packed :: "nat list \<Rightarrow> nat \<Rightarrow> counts" where
  "Packed bs i = \<lparr>c_pending = bs ! i mod 8, c_dead = bs ! i div 8 mod 8, c_started = (bs ! i div 64 mod 2 = 1)\<rparr>"

definition put_packed :: "nat \<Rightarrow> counts \<Rightarrow> nat list \<Rightarrow> nat list" where
  "put_packed i c bs = bs[i := c_pending c mod 8 + 8 * (c_dead c mod 8) + 64 * of_bool (c_started c) + 128 * (bs ! i div 128)]"

definition word_at :: "nat list \<Rightarrow> nat \<Rightarrow> nat" where
  "word_at bs i = bs ! i + 2 ^ 8 * bs ! (i + 1) + 2 ^ 16 * bs ! (i + 2) + 2 ^ 24 * bs ! (i + 3)"

definition put_word :: "nat \<Rightarrow> nat \<Rightarrow> nat list \<Rightarrow> nat list" where
  "put_word i w bs = bs[i := w mod 256, i + 1 := w div 2 ^ 8 mod 256, i + 2 := w div 2 ^ 16 mod 256, i + 3 := w div 2 ^ 24 mod 256]"

definition Large :: "nat list \<Rightarrow> nat \<Rightarrow> counts" where
  "Large bs i = \<lparr>c_pending = word_at bs i, c_dead = word_at bs (i + 4) mod 2 ^ 31, c_started = (word_at bs (i + 4) div 2 ^ 31 mod 2 = 1)\<rparr>"

definition put_large :: "nat \<Rightarrow> counts \<Rightarrow> nat list \<Rightarrow> nat list" where
  "put_large i c bs = put_word (i + 4) (c_dead c mod 2 ^ 31 + 2 ^ 31 * of_bool (c_started c)) (put_word i (c_pending c mod 2 ^ 32) bs)"

definition counts_of :: "handle \<Rightarrow> nat list \<Rightarrow> counts" where
  "counts_of h bs = (if is_large h then Large bs (byte_offset h) else Packed bs (byte_offset h))"

definition put_counts :: "handle \<Rightarrow> counts \<Rightarrow> nat list \<Rightarrow> nat list" where
  "put_counts h c bs = (if is_large h then put_large (byte_offset h) c bs else put_packed (byte_offset h) c bs)"

definition pending_bits :: "handle \<Rightarrow> nat" where
  "pending_bits h = (if is_large h then 32 else 3)"

definition dead_bits :: "handle \<Rightarrow> nat" where
  "dead_bits h = (if is_large h then 31 else 3)"

subsection \<open>Operations\<close>

definition NodeStateForStruct :: "counts \<Rightarrow> node_state" where
  "NodeStateForStruct c =
     (if c_started c then if c_pending c = 0 then STARTED else COMPLETED
      else if c_pending c = 0 then PENDING_READY else PENDING_NOTREADY)"

definition set_initial_count :: "handle \<Rightarrow> nat \<Rightarrow> nat list \<Rightarrow> nat list" where
  "set_initial_count h n bs = put_counts h \<lparr>c_pending = n, c_dead = 0, c_started = False\<rparr> bs"

definition node_state :: "handle \<Rightarrow> nat list \<Rightarrow> node_state" where
  "node_state h bs = NodeStateForStruct (counts_of h bs)"

definition mark_started :: "handle \<Rightarrow> nat list \<Rightarrow> nat list" where
  "mark_started h bs = put_counts h ((counts_of h bs)\<lparr>c_started := True\<rparr>) bs"

definition mark_completed :: "handle \<Rightarrow> nat list \<Rightarrow> nat list" where
  "mark_completed h bs = put_counts h ((counts_of h bs)\<lparr>c_pending := 1\<rparr>) bs"

definition pending :: "handle \<Rightarrow> nat list \<Rightarrow> nat" where
  "pending h bs = (if NodeStateForStruct (counts_of h bs) = PENDING_NOTREADY then c_pending (counts_of h bs) else 0)"

text \<open>\<^verbatim>\<open>c->pending -= v\<close> wraps at the width of the field.\<close>

definition sub_pending :: "handle \<Rightarrow> nat \<Rightarrow> counts \<Rightarrow> counts" where
  "sub_pending h v c = c\<lparr>c_pending := nat ((int (c_pending c) - int v) mod 2 ^ pending_bits h)\<rparr>"

definition decrement_pending :: "handle \<Rightarrow> nat \<Rightarrow> nat list \<Rightarrow> nat \<times> nat list" where
  "decrement_pending h v bs = (let c = sub_pending h v (counts_of h bs) in (c_pending c, put_counts h c bs))"

text \<open>\<^verbatim>\<open>c->pending &= ~1\<close>, and \<^verbatim>\<open>&= 0x6\<close> on three bits: the lowest bit is cleared.\<close>

definition mark_live :: "handle \<Rightarrow> nat list \<Rightarrow> nat list" where
  "mark_live h bs =
     (let c = counts_of h bs in
      if NodeStateForStruct c = PENDING_NOTREADY then put_counts h (c\<lparr>c_pending := c_pending c - c_pending c mod 2\<rparr>) bs else bs)"

definition dead_count :: "handle \<Rightarrow> nat list \<Rightarrow> nat" where
  "dead_count h bs = c_dead (counts_of h bs)"

definition add_dead :: "handle \<Rightarrow> counts \<Rightarrow> counts" where
  "add_dead h c = (if NodeStateForStruct c = PENDING_NOTREADY then c\<lparr>c_dead := (c_dead c + 1) mod 2 ^ dead_bits h\<rparr> else c)"

definition increment_dead_count :: "handle \<Rightarrow> nat list \<Rightarrow> nat list" where
  "increment_dead_count h bs =
     (let c = counts_of h bs in if NodeStateForStruct c = PENDING_NOTREADY then put_counts h (add_dead h c) bs else bs)"

definition adjust_for_activation :: "handle \<Rightarrow> bool \<Rightarrow> nat list \<Rightarrow> nat \<times> nat \<times> nat list" where
  "adjust_for_activation h increment_dead bs =
     (let c = counts_of h bs; c1 = (if increment_dead then add_dead h c else c); c2 = sub_pending h 1 c1 in
      (c_pending c2, c_dead c2, put_counts h c2 bs))"

subsection \<open>Reading what was written\<close>

text \<open>The bytes of a handle, and counts that its fields can hold.\<close>

definition footprint :: "handle \<Rightarrow> nat set" where
  "footprint h = {byte_offset h ..< byte_offset h + (if is_large h then 8 else 1)}"

definition in_table :: "handle \<Rightarrow> nat list \<Rightarrow> bool" where
  "in_table h bs \<longleftrightarrow> footprint h \<subseteq> {..<length bs}"

definition apart :: "handle \<Rightarrow> handle \<Rightarrow> bool" where
  "apart h h' \<longleftrightarrow> footprint h \<inter> footprint h' = {}"

definition fits :: "handle \<Rightarrow> counts \<Rightarrow> bool" where
  "fits h c \<longleftrightarrow> c_pending c < 2 ^ pending_bits h \<and> c_dead c < 2 ^ dead_bits h"

lemma footprint_simps [simp]:
  "is_large h \<Longrightarrow> footprint h = {byte_offset h ..< byte_offset h + 8}"
  "\<not> is_large h \<Longrightarrow> footprint h = {byte_offset h}"
  by (auto simp: footprint_def)

lemma word_bytes: "w < 2 ^ 32 \<Longrightarrow> w mod 256 + 2 ^ 8 * (w div 2 ^ 8 mod 256) + 2 ^ 16 * (w div 2 ^ 16 mod 256) + 2 ^ 24 * (w div 2 ^ 24 mod 256) = (w :: nat)"
proof -
  assume w: "w < 2 ^ 32"
  define a b c where "a = w div 2 ^ 8" and "b = a div 2 ^ 8" and "c = b div 2 ^ 8"
  have eqs: "w div 2 ^ 16 = b" "w div 2 ^ 24 = c" by (simp_all add: a_def b_def c_def flip: div_mult2_eq)
  have "w = 2 ^ 8 * a + w mod 2 ^ 8" "a = 2 ^ 8 * b + a mod 2 ^ 8" "b = 2 ^ 8 * c + b mod 2 ^ 8" by (simp_all add: a_def b_def c_def)
  moreover have "c < 2 ^ 8" using w unfolding eqs(2) [symmetric] by (simp add: less_mult_imp_div_less)
  ultimately show ?thesis unfolding eqs a_def [symmetric] by simp
qed

lemma word_at_put_word [simp]: "i + 3 < length bs \<Longrightarrow> w < 2 ^ 32 \<Longrightarrow> word_at (put_word i w bs) i = w"
  using word_bytes [of w] by (simp add: word_at_def put_word_def nth_list_update)

lemma nth_put_word: "j \<notin> {i..<i + 4} \<Longrightarrow> put_word i w bs ! j = bs ! j"
  by (auto simp: put_word_def nth_list_update)

lemma word_at_cong: "\<forall>j \<in> {i..<i + 4}. bs ! j = bs' ! j \<Longrightarrow> word_at bs i = word_at bs' i"
  by (simp add: word_at_def)

lemma length_put_word [simp]: "length (put_word i w bs) = length bs"
  by (simp add: put_word_def)

lemma Large_put_large:
  assumes "i + 7 < length bs" "c_pending c < 2 ^ 32" "c_dead c < 2 ^ 31"
  shows "Large (put_large i c bs) i = c"
proof -
  let ?w = "c_dead c mod 2 ^ 31 + 2 ^ 31 * of_bool (c_started c)"
  have w: "?w < 2 ^ 32" "?w mod 2 ^ 31 = c_dead c" "(?w div 2 ^ 31 mod 2 = 1) = c_started c"
    using assms(3) by (cases "c_started c"; simp)+
  have "word_at (put_large i c bs) (i + 4) = ?w" using assms w(1) by (simp add: put_large_def add.commute)
  moreover have "word_at (put_large i c bs) i = word_at (put_word i (c_pending c mod 2 ^ 32) bs) i"
    unfolding put_large_def by (rule word_at_cong) (simp add: nth_put_word)
  ultimately show ?thesis using assms w by (simp add: Large_def)
qed

lemma Packed_put_packed:
  assumes "i < length bs" "c_pending c < 8" "c_dead c < 8"
  shows "Packed (put_packed i c bs) i = c"
proof -
  have byte: "(p + 8 * d + 64 * of_bool s + 128 * x) mod 8 = p" "(p + 8 * d + 64 * of_bool s + 128 * x) div 8 mod 8 = d"
    "((p + 8 * d + 64 * of_bool s + 128 * x) div 64 mod 2 = 1) = s" if "p < 8" "d < 8" for p d x :: nat and s
  proof -
    let ?n = "p + 8 * d + 64 * of_bool s + 128 * x" and ?y = "of_bool s + 2 * x"
    have n: "?n = p + 8 * (d + 8 * ?y)" by simp
    have n8: "?n div 8 = d + 8 * ?y" unfolding n using that by simp
    show "?n mod 8 = p" unfolding n by (simp only: mod_mult_self2) (simp add: that)
    show "?n div 8 mod 8 = d" unfolding n8 by (simp only: mod_mult_self2) (simp add: that)
    have "?n div 64 = ?n div 8 div 8" by (simp flip: div_mult2_eq)
    then have "?n div 64 = ?y" unfolding n8 using that by simp
    then show "(?n div 64 mod 2 = 1) = s" by auto
  qed
  show ?thesis using assms by (cases c) (simp add: Packed_def put_packed_def byte del: One_nat_def)
qed

lemma nth_put_counts: "j \<notin> footprint h \<Longrightarrow> put_counts h c bs ! j = bs ! j"
  by (auto simp: put_counts_def put_large_def put_packed_def nth_put_word)

lemma length_put_counts [simp]: "length (put_counts h c bs) = length bs"
  by (simp add: put_counts_def put_large_def put_packed_def)

lemma in_table_put_counts [simp]: "in_table h (put_counts h' c bs) = in_table h bs"
  by (simp add: in_table_def)

lemma counts_of_put_counts:
  assumes "in_table h bs" "fits h c"
  shows "counts_of h (put_counts h c bs) = c"
  using assms by (cases "is_large h")
    (auto simp: counts_of_def put_counts_def in_table_def fits_def pending_bits_def dead_bits_def
      intro!: Large_put_large Packed_put_packed dest: subsetD [of _ _ "byte_offset h + 7"])

lemma counts_of_put_other:
  assumes "apart h h'"
  shows "counts_of h (put_counts h' c bs) = counts_of h bs"
proof -
  have same: "put_counts h' c bs ! j = bs ! j" if "j \<in> footprint h" for j
    using assms that by (intro nth_put_counts) (auto simp: apart_def)
  have w: "word_at (put_counts h' c bs) i = word_at bs i" if "is_large h" "i \<in> {byte_offset h, byte_offset h + 4}" for i
    using that by (intro word_at_cong ballI same) auto
  show ?thesis
    using same [of "byte_offset h"] w by (cases "is_large h") (simp_all add: counts_of_def Large_def Packed_def)
qed

subsection \<open>The table as an interface\<close>

text \<open>
  What the executor relies on: each handle has a cell of its own that holds counts up to its limits. The
  operations are changes of one cell.
\<close>

locale counter_table =
  fixes get :: "'h \<Rightarrow> 't \<Rightarrow> 'c" and put :: "'h \<Rightarrow> 'c \<Rightarrow> 't \<Rightarrow> 't"
    and has_cell :: "'h \<Rightarrow> 't \<Rightarrow> bool" and holds :: "'h \<Rightarrow> 'c \<Rightarrow> bool" and distinct_cells :: "'h \<Rightarrow> 'h \<Rightarrow> bool"
  assumes get_put: "has_cell h t \<Longrightarrow> holds h c \<Longrightarrow> get h (put h c t) = c"
    and get_put_other: "distinct_cells h h' \<Longrightarrow> get h (put h' c t) = get h t"
    and has_cell_put: "has_cell h (put h' c t) = has_cell h t"
begin

lemma has_cell_fold: "has_cell h (fold (\<lambda>(h, c). put h c) hcs t) = has_cell h t"
  by (induction hcs arbitrary: t) (simp_all add: has_cell_put case_prod_unfold)

text \<open>Writing a list of cells one after the other: every cell holds what was written to it.\<close>

lemma get_put_list:
  assumes "pairwise distinct_cells (set (map fst hcs))" "distinct (map fst hcs)" "(h, c) \<in> set hcs"
    "has_cell h t" "holds h c"
  shows "get h (fold (\<lambda>(h, c). put h c) hcs t) = c"
  using assms
proof (induction hcs rule: rev_induct)
  case (snoc x hcs)
  show ?case
  proof (cases "x = (h, c)")
    case True
    then show ?thesis using snoc.prems by (simp add: get_put has_cell_fold)
  next
    case False
    then have *: "(h, c) \<in> set hcs" using snoc.prems(3) by auto
    then have "h \<in> fst ` set hcs" by force
    moreover have "fst x \<notin> fst ` set hcs" using snoc.prems(2) by simp
    ultimately have "h \<noteq> fst x" by blast
    then have "distinct_cells h (fst x)" using snoc.prems(1) * by (force simp: pairwise_def)
    moreover have "get h (fold (\<lambda>(h, c). put h c) hcs t) = c"
      using snoc.IH snoc.prems * by (auto intro: pairwise_subset)
    ultimately show ?thesis by (cases x) (simp add: get_put_other)
  qed
qed simp

end

interpretation pc: counter_table counts_of put_counts in_table fits apart
  by unfold_locales (simp_all add: counts_of_put_counts counts_of_put_other)

lemmas table_simps = pc.get_put pc.get_put_other pc.has_cell_put

subsection \<open>Layout\<close>

text \<open>The handles of a list of nodes with their maximal counts, in the order of creation.\<close>

fun create_handles :: "(nat \<times> nat) list \<Rightarrow> nat \<Rightarrow> handle list \<times> nat" where
  "create_handles [] next_offset = ([], next_offset)"
| "create_handles ((mp, md) # ms) next_offset =
     (let (h, n1) = CreateHandle mp md next_offset; (hs, n2) = create_handles ms n1 in (h # hs, n2))"

lemma CreateHandle_bounds:
  assumes "CreateHandle mp md n = (h, n')"
  shows "footprint h \<subseteq> {n..<n'}" "n < n'" "is_large h \<Longrightarrow> 8 dvd byte_offset h"
proof -
  have "n \<le> (n + 7) div 8 * 8" by presburger
  then show "footprint h \<subseteq> {n..<n'}" "n < n'" "is_large h \<Longrightarrow> 8 dvd byte_offset h"
    using assms by (auto simp: CreateHandle_def Let_def footprint_def split: if_splits)
qed

lemma create_handles_bounds:
  "create_handles ms n = (hs, n') \<Longrightarrow> n \<le> n' \<and> length hs = length ms \<and> (\<forall>h \<in> set hs. footprint h \<subseteq> {n..<n'})"
proof (induction ms arbitrary: n hs n')
  case (Cons m ms)
  obtain h n1 hs1 where h: "CreateHandle (fst m) (snd m) n = (h, n1)" "create_handles ms n1 = (hs1, n')" "hs = h # hs1"
    using Cons.prems by (cases m) (auto split: prod.splits)
  from Cons.IH [OF h(2)] CreateHandle_bounds [OF h(1)] h(3) show ?case by force
qed simp

lemma create_handles_apart:
  "create_handles ms n = (hs, n') \<Longrightarrow> i < j \<Longrightarrow> j < length hs \<Longrightarrow> apart (hs ! i) (hs ! j)"
proof (induction ms arbitrary: n hs i j)
  case (Cons m ms)
  obtain h n1 hs1 where h: "CreateHandle (fst m) (snd m) n = (h, n1)" "create_handles ms n1 = (hs1, n')" "hs = h # hs1"
    using Cons.prems by (cases m) (auto split: prod.splits)
  show ?case
  proof (cases i)
    case 0
    have "hs ! j \<in> set hs1" using Cons.prems(2,3) 0 h(3) by (cases j) auto
    then have "footprint (hs ! j) \<subseteq> {n1..<n'}" using create_handles_bounds [OF h(2)] by auto
    then show ?thesis using CreateHandle_bounds(1) [OF h(1)] 0 h(3) by (fastforce simp: apart_def)
  next
    case (Suc i')
    then show ?thesis using Cons.IH [OF h(2), of i' "j - 1"] Cons.prems(2,3) h(3) by (cases j) auto
  qed
qed simp

lemma create_handles_fits:
  "create_handles ms n = (hs, n') \<Longrightarrow> i < length ms \<Longrightarrow> fst (ms ! i) < 2 ^ 31 \<Longrightarrow> snd (ms ! i) < 2 ^ 31 \<Longrightarrow>
   p \<le> fst (ms ! i) \<Longrightarrow> d \<le> snd (ms ! i) \<Longrightarrow> fits (hs ! i) \<lparr>c_pending = p, c_dead = d, c_started = s\<rparr>"
proof (induction ms arbitrary: n hs i)
  case (Cons m ms)
  obtain h n1 hs1 where h: "CreateHandle (fst m) (snd m) n = (h, n1)" "create_handles ms n1 = (hs1, n')" "hs = h # hs1"
    using Cons.prems by (cases m) (auto split: prod.splits)
  show ?case
  proof (cases i)
    case 0
    then show ?thesis using Cons.prems h
      by (auto simp: CreateHandle_def Let_def fits_def pending_bits_def dead_bits_def kMaxCountForPackedCounts_def split: if_splits)
  next
    case (Suc i')
    then show ?thesis using Cons.IH [OF h(2), of i'] Cons.prems h(3) by simp
  qed
qed simp

lemma apart_sym: "apart h h' = apart h' h"
  by (auto simp: apart_def)

end
