(* ===== verification/Executor.thy ===== *)
theory Executor
  imports Pending_Counts
begin

text \<open>
  The dataflow executor, \<^verbatim>\<open>core/common_runtime/executor.cc\<close>. A step starts with the nodes that have no input;
  a node that has run sends its outputs along its edges, and each destination that has now what it waits for is
  scheduled. Loops run in frames: a frame has a window of iterations in flight, each with its own counts and
  inputs. The scheduling of \<^verbatim>\<open>Process\<close>, \<^verbatim>\<open>PropagateOutputs\<close>, \<^verbatim>\<open>NodeDone\<close> and of the frames is modelled in full.

  A kernel is a parameter: it gets the entries of the inputs of a node and the state of the device and returns an error or
  its outputs, an output without value being dead. \<^verbatim>\<open>PrepareInputs\<close> and \<^verbatim>\<open>ProcessOutputs\<close> belong to that
  parameter. A device that cannot fill its context map ends the step before it starts, and is left out, as are statistics and logging. Threads interleave between nodes: a step of the model processes one scheduled node, any of them.
  Pointers to frames are frame names, for \<^verbatim>\<open>outstanding_frames_\<close> has one frame of each name; \<open>None\<close> as the result of a function
  is a step through a null pointer.
\<close>

subsection \<open>Graphs\<close>

record edge =
  src :: nat
  src_output :: int
  dst :: nat
  dst_input :: nat

record gnode =
  is_merge :: bool
  is_enter :: bool
  is_constant_enter :: bool
  is_exit :: bool
  is_next_iteration :: bool
  is_control_trigger :: bool
  is_sink :: bool
  is_transfer :: bool
  num_inputs :: nat
  num_outputs :: nat
  frame_attr :: string
  parallel_iterations :: nat

record graph =
  nodes :: "gnode list"
  edges :: "edge list"

definition kControlSlot :: int where
  "kControlSlot = -1"

definition IsControlEdge :: "edge \<Rightarrow> bool" where
  "IsControlEdge e \<longleftrightarrow> src_output e = kControlSlot"

definition in_edges :: "graph \<Rightarrow> nat \<Rightarrow> edge list" where
  "in_edges g n = filter (\<lambda>e. dst e = n) (edges g)"

definition out_edges :: "graph \<Rightarrow> nat \<Rightarrow> edge list" where
  "out_edges g n = filter (\<lambda>e. src e = n) (edges g)"

definition GetMaxPendingCounts :: "graph \<Rightarrow> nat \<Rightarrow> nat \<times> nat" where
  "GetMaxPendingCounts g n =
     (let num_in_edges = length (in_edges g n) in
      (if is_merge (nodes g ! n) then 1 + 2 * length (filter IsControlEdge (in_edges g n)) else num_in_edges, num_in_edges))"

subsection \<open>Initialize: where the counts and the inputs of a node are\<close>

record frame_info =
  input_count :: nat
  total_inputs :: nat
  next_offset :: nat
  pending_counts :: "nat list"

text \<open>\<^verbatim>\<open>EnsureFrameInfo\<close>: a frame that is not there yet is empty.\<close>

type_synonym frame_infos = "string \<Rightarrow> frame_info"

definition no_frames :: frame_infos where
  "no_frames = (\<lambda>_. \<lparr>input_count = 0, total_inputs = 0, next_offset = 0, pending_counts = []\<rparr>)"

record impl =
  impl_graph :: graph
  frame_names :: "string list"
  input_start :: "nat list"
  pending_id :: "handle list"
  root_nodes :: "nat list"
  frame_info_of :: frame_infos

fun place_nodes :: "graph \<Rightarrow> string list \<Rightarrow> nat list \<Rightarrow> impl \<Rightarrow> impl" where
  "place_nodes g fns [] im = im"
| "place_nodes g fns (n # ns) im =
     (let f = fns ! n; fi = frame_info_of im f; (mp, md) = GetMaxPendingCounts g n;
          (h, off) = CreateHandle mp md (next_offset fi);
          fis = (frame_info_of im)(f := fi\<lparr>total_inputs := total_inputs fi + num_inputs (nodes g ! n), next_offset := off\<rparr>);
          ef = frame_attr (nodes g ! n);
          fis' = (if is_enter (nodes g ! n) then fis(ef := (fis ef)\<lparr>input_count := input_count (fis ef) + 1\<rparr>) else fis) in
      place_nodes g fns ns
        (im\<lparr>root_nodes := root_nodes im @ (if in_edges g n = [] then [n] else []),
            input_start := input_start im @ [total_inputs fi], pending_id := pending_id im @ [h], frame_info_of := fis'\<rparr>))"

definition InitializePending :: "impl \<Rightarrow> impl" where
  "InitializePending im =
     (let g = impl_graph im;
          fis = (\<lambda>f. (frame_info_of im f)\<lparr>pending_counts := replicate (next_offset (frame_info_of im f)) 0\<rparr>) in
      im\<lparr>frame_info_of := fold (\<lambda>n fis.
           let f = frame_names im ! n in
           fis(f := (fis f)\<lparr>pending_counts := set_initial_count (pending_id im ! n) (fst (GetMaxPendingCounts g n)) (pending_counts (fis f))\<rparr>))
         [0..<length (nodes g)] fis\<rparr>)"

definition Initialize :: "graph \<Rightarrow> string list \<Rightarrow> impl" where
  "Initialize g fns = InitializePending (place_nodes g fns [0..<length (nodes g)]
     \<lparr>impl_graph = g, frame_names = fns, input_start = [], pending_id = [], root_nodes = [], frame_info_of = no_frames\<rparr>)"

subsection \<open>Iterations and frames\<close>

text \<open>An entry is \<open>None\<close> when it has no value.\<close>

record 'v iteration =
  input_tensors :: "'v option list"
  outstanding_ops :: nat
  outstanding_frame_count :: int
  it_counts :: "nat list"

record 'v frame =
  frame_name :: string
  parent_iter :: nat
  parent_frame :: "string option"
  max_parallel_iterations :: nat
  num_pending_inputs :: int
  iteration_count :: nat
  num_outstanding_iterations :: int
  iterations :: "'v iteration option list"
  next_iter_roots :: "(nat \<times> 'v option) list"
  inv_values :: "(nat \<times> 'v option) list"
  dead_exits :: "nat list"
  f_pending_counts :: "nat list"
  total_input_tensors :: nat

record tagged_node =
  t_node :: nat
  input_frame :: string
  input_iter :: nat
  is_dead :: bool

definition IterationState :: "nat list \<Rightarrow> nat \<Rightarrow> 'v iteration" where
  "IterationState pcs n = \<lparr>input_tensors = replicate n None, outstanding_ops = 0, outstanding_frame_count = 0, it_counts = pcs\<rparr>"

definition GetIteration :: "'v frame \<Rightarrow> nat \<Rightarrow> 'v iteration option" where
  "GetIteration fr iter = iterations fr ! (iter mod length (iterations fr))"

definition SetIteration :: "nat \<Rightarrow> 'v iteration option \<Rightarrow> 'v frame \<Rightarrow> 'v frame" where
  "SetIteration iter st fr = fr\<lparr>iterations := (iterations fr)[iter mod length (iterations fr) := st]\<rparr>"

definition IsFrameDone :: "'v frame \<Rightarrow> bool" where
  "IsFrameDone fr \<longleftrightarrow> num_pending_inputs fr = 0 \<and> num_outstanding_iterations fr = 0"

definition IsIterationDone :: "'v frame \<Rightarrow> nat \<Rightarrow> bool option" where
  "IsIterationDone fr iter =
     (case GetIteration fr iter of
        None \<Rightarrow> None
      | Some st \<Rightarrow> Some (outstanding_ops st = 0 \<and> outstanding_frame_count st = 0 \<and>
          (if iter = 0 then num_pending_inputs fr = 0 else GetIteration fr (iter - 1) = None)))"

subsection \<open>ActivateNodes\<close>

text \<open>
  One edge arrives at its destination, a node with counts at \<open>h\<close>: whether the destination is dead, whether it is ready,
  whether it takes the value, and the counts. \<open>from_enter\<close> says that the source is an Enter node.
\<close>

definition deliver :: "gnode \<Rightarrow> handle \<Rightarrow> bool \<Rightarrow> bool \<Rightarrow> bool \<Rightarrow> bool \<Rightarrow> nat list \<Rightarrow> bool \<times> bool \<times> bool \<times> nat list" where
  "deliver d h from_enter src_dead is_control_edge has_value bs =
     (if is_merge d then
        if is_control_edge then
          let bs1 = snd (decrement_pending h 2 bs); count = pending h bs1; dead_cnt = dead_count h bs1;
              dst_dead = (dead_cnt = num_inputs d) in
          (dst_dead, count = 0 \<or> count = 1 \<and> dst_dead, False, bs1)
        else if has_value then
          let count = pending h bs; bs1 = mark_live h bs in
          (False, count = 1, count mod 2 = 1, bs1)
        else
          let bs1 = increment_dead_count h bs; dead_cnt = dead_count h bs1;
              dst_dead = (dead_cnt = num_inputs d \<or> from_enter) in
          (dst_dead, pending h bs1 = 1 \<and> dst_dead, False, bs1)
      else
        let (p, dead, bs1) = adjust_for_activation h (src_dead \<or> \<not> is_control_edge \<and> \<not> has_value) bs in
        (dead > 0, p = 0, \<not> is_control_edge, bs1))"

definition slot_value :: "'v option list \<Rightarrow> edge \<Rightarrow> 'v option" where
  "slot_value outputs e = outputs ! nat (src_output e)"

text \<open>
  An edge marked \<^verbatim>\<open>is_last\<close> moves the entry instead of copying it. It is the last edge of its slot, so that nothing reads
  the entry afterwards, and both are copies here.
\<close>

definition activate_edge :: "impl \<Rightarrow> string \<Rightarrow> nat \<Rightarrow> nat \<Rightarrow> bool \<Rightarrow> 'v option list \<Rightarrow> edge \<Rightarrow>
    'v iteration \<times> tagged_node list \<Rightarrow> 'v iteration \<times> tagged_node list" where
  "activate_edge im fname iter item src_dead outputs e = (\<lambda>(st, ready).
     let d = nodes (impl_graph im) ! dst e in
     if is_sink d then (st, ready)
     else
       let (dst_dead, dst_ready, dst_need_input, bs) =
             deliver d (pending_id im ! dst e) (is_enter (nodes (impl_graph im) ! item)) src_dead (IsControlEdge e)
               (\<not> IsControlEdge e \<and> slot_value outputs e \<noteq> None) (it_counts st);
           st1 = st\<lparr>it_counts := bs\<rparr>;
           st2 = (if dst_need_input
                  then st1\<lparr>input_tensors := (input_tensors st1)[input_start im ! dst e + dst_input e := slot_value outputs e]\<rparr>
                  else st1) in
       if dst_ready
       then (st2\<lparr>outstanding_ops := outstanding_ops st2 + 1\<rparr>,
             ready @ [\<lparr>t_node = dst e, input_frame = fname, input_iter = iter, is_dead = (dst_dead \<and> \<not> is_control_trigger d)\<rparr>])
       else (st2, ready))"

definition ActivateNodes :: "impl \<Rightarrow> nat \<Rightarrow> bool \<Rightarrow> nat \<Rightarrow> 'v option list \<Rightarrow> 'v frame \<times> tagged_node list \<Rightarrow>
    ('v frame \<times> tagged_node list) option" where
  "ActivateNodes im item src_dead iter outputs = (\<lambda>(fr, ready).
     case GetIteration fr iter of
       None \<Rightarrow> None
     | Some st \<Rightarrow>
       let (st', ready') = fold (activate_edge im (frame_name fr) iter item src_dead outputs) (out_edges (impl_graph im) item) (st, ready) in
       Some (SetIteration iter (Some st') fr, ready'))"

text \<open>\<^verbatim>\<open>ActivateNexts\<close>, \<^verbatim>\<open>ActivateLoopInvs\<close>: send the entries of a list to their successors in iteration \<open>iter\<close>.\<close>

fun activate_entries :: "impl \<Rightarrow> nat \<Rightarrow> (nat \<times> 'v option) list \<Rightarrow> 'v frame \<times> tagged_node list \<Rightarrow> ('v frame \<times> tagged_node list) option" where
  "activate_entries im iter [] x = Some x"
| "activate_entries im iter ((n, entry) # es) x =
     Option.bind (ActivateNodes im n (entry = None) iter [entry] x) (activate_entries im iter es)"

definition ActivateNexts :: "impl \<Rightarrow> nat \<Rightarrow> 'v frame \<times> tagged_node list \<Rightarrow> ('v frame \<times> tagged_node list) option" where
  "ActivateNexts im iter x =
     map_option (\<lambda>(fr, ready). (fr\<lparr>next_iter_roots := []\<rparr>, ready)) (activate_entries im iter (next_iter_roots (fst x)) x)"

definition ActivateLoopInvs :: "impl \<Rightarrow> nat \<Rightarrow> 'v frame \<times> tagged_node list \<Rightarrow> ('v frame \<times> tagged_node list) option" where
  "ActivateLoopInvs im iter x = activate_entries im iter (inv_values (fst x)) x"

fun activate_iterations :: "impl \<Rightarrow> nat \<Rightarrow> 'v option \<Rightarrow> nat list \<Rightarrow> 'v frame \<times> tagged_node list \<Rightarrow> ('v frame \<times> tagged_node list) option" where
  "activate_iterations im n entry [] x = Some x"
| "activate_iterations im n entry (i # is) x =
     Option.bind (ActivateNodes im n (entry = None) i [entry] x) (activate_iterations im n entry is)"

definition AddLoopInv :: "impl \<Rightarrow> nat \<Rightarrow> 'v option \<Rightarrow> 'v frame \<times> tagged_node list \<Rightarrow> ('v frame \<times> tagged_node list) option" where
  "AddLoopInv im item entry = (\<lambda>(fr, ready).
     activate_iterations im item entry [0..<iteration_count fr + 1] (fr\<lparr>inv_values := inv_values fr @ [(item, entry)]\<rparr>, ready))"

definition IncrementIteration :: "impl \<Rightarrow> 'v frame \<times> tagged_node list \<Rightarrow> ('v frame \<times> tagged_node list) option" where
  "IncrementIteration im = (\<lambda>(fr, ready).
     let next_iter = iteration_count fr + 1;
         fr1 = SetIteration next_iter (Some (IterationState (f_pending_counts fr) (total_input_tensors fr))) (fr\<lparr>iteration_count := next_iter\<rparr>);
         fr2 = fr1\<lparr>num_outstanding_iterations := num_outstanding_iterations fr1 + 1, dead_exits := []\<rparr> in
     Option.bind (ActivateNexts im next_iter (fr2, ready)) (ActivateLoopInvs im next_iter))"

subsection \<open>CleanupIterations\<close>

text \<open>
  The activations leave the number of iterations and the deferred roots as they are, and a new iteration uses the
  deferred roots up: so the loop of \<^verbatim>\<open>CleanupIterations\<close> ends.
\<close>

lemma ActivateNodes_fields:
  assumes "ActivateNodes im n b i os x = Some y"
  shows "iteration_count (fst y) = iteration_count (fst x) \<and> next_iter_roots (fst y) = next_iter_roots (fst x) \<and>
    inv_values (fst y) = inv_values (fst x)"
  using assms by (auto simp: ActivateNodes_def SetIteration_def Let_def split: option.splits prod.splits)

lemma activate_entries_fields:
  "activate_entries im i es x = Some y \<Longrightarrow> iteration_count (fst y) = iteration_count (fst x) \<and>
    next_iter_roots (fst y) = next_iter_roots (fst x) \<and> inv_values (fst y) = inv_values (fst x)"
proof (induction im i es x rule: activate_entries.induct)
  case (2 im iter n entry es x)
  then obtain z where z: "ActivateNodes im n (entry = None) iter [entry] x = Some z" "activate_entries im iter es z = Some y"
    by (auto simp: bind_eq_Some_conv)
  with "2.IH" [OF z] ActivateNodes_fields [OF z(1)] show ?case by simp
qed simp

lemma IncrementIteration_fields:
  assumes "IncrementIteration im (fr, ready) = Some (fr', ready')"
  shows "iteration_count fr' = iteration_count fr + 1 \<and> next_iter_roots fr' = []"
  using assms
  by (auto simp: IncrementIteration_def Let_def bind_eq_Some_conv ActivateNexts_def ActivateLoopInvs_def SetIteration_def
      dest!: activate_entries_fields)

function CleanupIterations :: "impl \<Rightarrow> nat \<Rightarrow> 'v frame \<times> tagged_node list \<Rightarrow> (bool \<times> 'v frame \<times> tagged_node list) option" where
  "CleanupIterations im curr_iter (fr, ready) =
     (if curr_iter \<le> iteration_count fr then
        case IsIterationDone fr curr_iter of
          None \<Rightarrow> None
        | Some False \<Rightarrow> Some (IsFrameDone fr, fr, ready)
        | Some True \<Rightarrow>
          let fr1 = SetIteration curr_iter None fr;
              fr2 = fr1\<lparr>num_outstanding_iterations := num_outstanding_iterations fr1 - 1\<rparr> in
          if next_iter_roots fr2 = [] then CleanupIterations im (curr_iter + 1) (fr2, ready)
          else (case IncrementIteration im (fr2, ready) of
                  None \<Rightarrow> None
                | Some x \<Rightarrow> CleanupIterations im (curr_iter + 1) x)
      else Some (IsFrameDone fr, fr, ready))"
  by pat_completeness auto
termination
proof (relation "measure (\<lambda>(im, i, fr, ready). iteration_count fr + 1 - i + (if next_iter_roots fr = [] then 0 else 1))", goal_cases)
  case (3 im curr_iter fr ready b fr1 fr2 x)
  then show ?case by (cases x) (auto simp: SetIteration_def dest!: IncrementIteration_fields)
qed (auto simp: SetIteration_def)

declare CleanupIterations.simps [simp del]

definition DecrementOutstandingOps :: "impl \<Rightarrow> nat \<Rightarrow> 'v frame \<times> tagged_node list \<Rightarrow> (bool \<times> 'v frame \<times> tagged_node list) option" where
  "DecrementOutstandingOps im iter = (\<lambda>(fr, ready).
     case GetIteration fr iter of
       None \<Rightarrow> None
     | Some st \<Rightarrow>
       let fr1 = SetIteration iter (Some (st\<lparr>outstanding_ops := outstanding_ops st - 1\<rparr>)) fr in
       if outstanding_ops st - 1 \<noteq> 0 then Some (False, fr1, ready) else CleanupIterations im iter (fr1, ready))"

subsection \<open>The state of a step\<close>

text \<open>
  The frames by name, the counter of scheduled nodes, the status, the scheduled nodes (those handed to the runner
  and those in the inline queues), the device, and whether \<^verbatim>\<open>ScheduleFinish\<close> was called. \<open>ran\<close> records the nodes that were
  processed, in order; the code has no such variable.
\<close>

record ('v, 's, 'e) exec_state =
  outstanding_frames :: "(string \<times> 'v frame) list"
  num_outstanding_ops :: int
  status :: "'e option"
  scheduled :: "tagged_node list"
  device :: 's
  finished :: bool
  ran :: "tagged_node list"

definition find_frame :: "string \<Rightarrow> ('v, 's, 'e) exec_state \<Rightarrow> 'v frame option" where
  "find_frame f st = map_of (outstanding_frames st) f"

definition set_frame :: "'v frame \<Rightarrow> ('v, 's, 'e) exec_state \<Rightarrow> ('v, 's, 'e) exec_state" where
  "set_frame fr st = st\<lparr>outstanding_frames := (frame_name fr, fr) # filter (\<lambda>(f, _). f \<noteq> frame_name fr) (outstanding_frames st)\<rparr>"

definition erase_frame :: "string \<Rightarrow> ('v, 's, 'e) exec_state \<Rightarrow> ('v, 's, 'e) exec_state" where
  "erase_frame f st = st\<lparr>outstanding_frames := filter (\<lambda>(f', _). f' \<noteq> f) (outstanding_frames st)\<rparr>"

fun decimal :: "nat \<Rightarrow> string" where
  "decimal n = (if n < 10 then [char_of (48 + n)] else decimal (n div 10) @ [char_of (48 + n mod 10)])"

declare decimal.simps [simp del]

definition MakeFrameName :: "'v frame \<Rightarrow> nat \<Rightarrow> string \<Rightarrow> string" where
  "MakeFrameName fr iter enter_name = frame_name fr @ '';'' @ decimal iter @ '';'' @ enter_name"

definition new_frame :: "impl \<Rightarrow> string \<Rightarrow> string \<Rightarrow> string option \<Rightarrow> nat \<Rightarrow> nat \<Rightarrow> nat \<Rightarrow> 'v frame" where
  "new_frame im name info parent iter parallel slots =
     (let fi = frame_info_of im info in
      \<lparr>frame_name = name, parent_iter = iter, parent_frame = parent, max_parallel_iterations = parallel,
       num_pending_inputs = int (input_count fi), iteration_count = 0, num_outstanding_iterations = 1,
       iterations = Some (IterationState (pending_counts fi) (total_inputs fi)) # replicate (slots - 1) None,
       next_iter_roots = [], inv_values = [], dead_exits = [], f_pending_counts = pending_counts fi,
       total_input_tensors = total_inputs fi\<rparr>)"

text \<open>\<^verbatim>\<open>FindOrCreateChildFrame\<close>: the child frame, and the state with that frame in it.\<close>

definition FindOrCreateChildFrame :: "impl \<Rightarrow> 'v frame \<Rightarrow> nat \<Rightarrow> nat \<Rightarrow> ('v, 's, 'e) exec_state \<Rightarrow> ('v frame \<times> ('v, 's, 'e) exec_state) option" where
  "FindOrCreateChildFrame im fr iter n st =
     (let enter_name = frame_attr (nodes (impl_graph im) ! n); child_name = MakeFrameName fr iter enter_name;
          parallel_iters = parallel_iterations (nodes (impl_graph im) ! n) in
      case find_frame child_name st of
        Some child \<Rightarrow> Some (child, st)
      | None \<Rightarrow>
        (case GetIteration fr iter of
           None \<Rightarrow> None
         | Some it \<Rightarrow>
           let child = new_frame im child_name enter_name (Some (frame_name fr)) iter parallel_iters (parallel_iters + 1);
               fr' = SetIteration iter (Some (it\<lparr>outstanding_frame_count := outstanding_frame_count it + 1\<rparr>)) fr in
           Some (child, set_frame child (set_frame fr' st))))"

subsection \<open>DeleteFrame and CleanupFramesIterations\<close>

text \<open>A dead exit sends deadness along an edge of the parent frame.\<close>

definition dead_exit_edge :: "impl \<Rightarrow> string \<Rightarrow> nat \<Rightarrow> edge \<Rightarrow> 'v iteration \<times> tagged_node list \<Rightarrow> 'v iteration \<times> tagged_node list" where
  "dead_exit_edge im fname iter e = (\<lambda>(it, ready).
     let d = nodes (impl_graph im) ! dst e; h = pending_id im ! dst e in
     if is_sink d then (it, ready)
     else
       let (dst_dead, dst_ready, bs) =
             (if is_merge d then
                if IsControlEdge e then
                  let bs1 = snd (decrement_pending h 2 (it_counts it)); count = pending h bs1;
                      dead = (dead_count h bs1 = num_inputs d) in (dead, count = 0 \<or> count = 1 \<and> dead, bs1)
                else
                  let bs1 = increment_dead_count h (it_counts it); dead = (dead_count h bs1 = num_inputs d) in
                  (dead, pending h bs1 = 1 \<and> dead, bs1)
              else
                let (p, bs2) = decrement_pending h 1 (increment_dead_count h (it_counts it)) in (True, p = 0, bs2));
           it1 = it\<lparr>it_counts := bs\<rparr> in
       if dst_ready
       then (it1\<lparr>outstanding_ops := outstanding_ops it1 + 1\<rparr>,
             ready @ [\<lparr>t_node = dst e, input_frame = fname, input_iter = iter, is_dead = (dst_dead \<and> \<not> is_control_trigger d)\<rparr>])
       else (it1, ready))"

definition DeleteFrame :: "impl \<Rightarrow> 'v frame \<Rightarrow> ('v, 's, 'e) exec_state \<times> tagged_node list \<Rightarrow> (('v, 's, 'e) exec_state \<times> tagged_node list) option" where
  "DeleteFrame im fr = (\<lambda>(st, ready).
     case parent_frame fr of
       None \<Rightarrow> Some (erase_frame (frame_name fr) st, ready)
     | Some p \<Rightarrow>
       if dead_exits fr = [] then Some (erase_frame (frame_name fr) st, ready)
       else
         Option.bind (find_frame p st) (\<lambda>pf.
         Option.bind (GetIteration pf (parent_iter fr)) (\<lambda>it.
           let (it', ready') = fold (\<lambda>n. fold (dead_exit_edge im p (parent_iter fr)) (out_edges (impl_graph im) n)) (dead_exits fr) (it, ready) in
           Some (erase_frame (frame_name fr) (set_frame (SetIteration (parent_iter fr) (Some it') pf) st), ready'))))"

partial_function (option) CleanupFramesIterations ::
  "impl \<Rightarrow> string \<Rightarrow> nat \<Rightarrow> ('v, 's, 'e) exec_state \<times> tagged_node list \<Rightarrow> (('v, 's, 'e) exec_state \<times> tagged_node list) option" where
  "CleanupFramesIterations im f iter x =
     Option.bind (find_frame f (fst x)) (\<lambda>fr.
     Option.bind (GetIteration fr iter) (\<lambda>it.
     Option.bind (CleanupIterations im iter
        (SetIteration iter (Some (it\<lparr>outstanding_frame_count := outstanding_frame_count it - 1\<rparr>)) fr, snd x)) (\<lambda>(frame_done, fr', ready).
       if frame_done then
         Option.bind (DeleteFrame im fr' (set_frame fr' (fst x), ready)) (\<lambda>y.
           case parent_frame fr' of None \<Rightarrow> Some y | Some p \<Rightarrow> CleanupFramesIterations im p (parent_iter fr') y)
       else Some (set_frame fr' (fst x), ready))))"

declare CleanupFramesIterations.simps [code]

subsection \<open>PropagateOutputs\<close>

text \<open>
  The four kinds of nodes, on the frame \<open>fr\<close> in which the node ran: whether the frame is done, the frame and the
  state after the activations, and the nodes that became ready. The state has every frame that was changed except \<open>fr\<close> itself.
\<close>

definition propagate_normal :: "impl \<Rightarrow> tagged_node \<Rightarrow> 'v option list \<Rightarrow> 'v frame \<Rightarrow> ('v, 's, 'e) exec_state \<Rightarrow>
    (bool \<times> 'v frame \<times> ('v, 's, 'e) exec_state \<times> tagged_node list) option" where
  "propagate_normal im t outputs fr st =
     Option.bind (ActivateNodes im (t_node t) (is_dead t) (input_iter t) outputs (fr, [])) (\<lambda>x.
     Option.bind (DecrementOutstandingOps im (input_iter t) x) (\<lambda>(frame_done, fr', ready). Some (frame_done, fr', st, ready)))"

definition propagate_enter :: "impl \<Rightarrow> tagged_node \<Rightarrow> 'v option list \<Rightarrow> 'v frame \<Rightarrow> ('v, 's, 'e) exec_state \<Rightarrow>
    (bool \<times> 'v frame \<times> ('v, 's, 'e) exec_state \<times> tagged_node list) option" where
  "propagate_enter im t outputs fr st =
     Option.bind (FindOrCreateChildFrame im fr (input_iter t) (t_node t) st) (\<lambda>(child, st1).
     Option.bind (if is_constant_enter (nodes (impl_graph im) ! t_node t)
                  then AddLoopInv im (t_node t) (outputs ! 0) (child, [])
                  else ActivateNodes im (t_node t) (is_dead t) 0 outputs (child, [])) (\<lambda>(child1, ready).
     let st2 = set_frame (child1\<lparr>num_pending_inputs := num_pending_inputs child1 - 1\<rparr>) st1 in
     Option.bind (find_frame (frame_name fr) st2) (\<lambda>fr1.
     Option.bind (DecrementOutstandingOps im (input_iter t) (fr1, ready)) (\<lambda>(frame_done, fr', ready').
       Some (frame_done, fr', st2, ready')))))"

definition propagate_exit :: "impl \<Rightarrow> tagged_node \<Rightarrow> 'v option list \<Rightarrow> 'v frame \<Rightarrow> ('v, 's, 'e) exec_state \<Rightarrow>
    (bool \<times> 'v frame \<times> ('v, 's, 'e) exec_state \<times> tagged_node list) option" where
  "propagate_exit im t outputs fr st =
     (if is_dead t then
        let fr1 = (if input_iter t = iteration_count fr then fr\<lparr>dead_exits := dead_exits fr @ [t_node t]\<rparr> else fr) in
        Option.bind (DecrementOutstandingOps im (input_iter t) (fr1, [])) (\<lambda>(frame_done, fr', ready). Some (frame_done, fr', st, ready))
      else
        Option.bind (parent_frame fr) (\<lambda>p.
        Option.bind (find_frame p st) (\<lambda>pf.
        Option.bind (ActivateNodes im (t_node t) (is_dead t) (parent_iter fr) outputs (pf, [])) (\<lambda>(pf1, ready).
        let st1 = set_frame pf1 st in
        Option.bind (DecrementOutstandingOps im (input_iter t) (fr, ready)) (\<lambda>(frame_done, fr', ready'). Some (frame_done, fr', st1, ready'))))))"

definition propagate_next :: "impl \<Rightarrow> tagged_node \<Rightarrow> 'v option list \<Rightarrow> 'v frame \<Rightarrow> ('v, 's, 'e) exec_state \<Rightarrow>
    (bool \<times> 'v frame \<times> ('v, 's, 'e) exec_state \<times> tagged_node list) option" where
  "propagate_next im t outputs fr st =
     Option.bind
       (if is_dead t then Some (fr, [])
        else if input_iter t = iteration_count fr \<and> num_outstanding_iterations fr = int (max_parallel_iterations fr)
        then Some (fr\<lparr>next_iter_roots := next_iter_roots fr @ [(t_node t, outputs ! 0)]\<rparr>, [])
        else Option.bind (if input_iter t = iteration_count fr then IncrementIteration im (fr, []) else Some (fr, []))
               (ActivateNodes im (t_node t) (is_dead t) (input_iter t + 1) outputs)) (\<lambda>x.
     Option.bind (DecrementOutstandingOps im (input_iter t) x) (\<lambda>(frame_done, fr', ready). Some (frame_done, fr', st, ready)))"

definition PropagateOutputs :: "impl \<Rightarrow> tagged_node \<Rightarrow> 'v option list \<Rightarrow> ('v, 's, 'e) exec_state \<Rightarrow>
    (('v, 's, 'e) exec_state \<times> tagged_node list) option" where
  "PropagateOutputs im t outputs st =
     Option.bind (find_frame (input_frame t) st) (\<lambda>fr.
     let n = nodes (impl_graph im) ! t_node t in
     Option.bind
       (if \<not> (is_enter n \<or> is_exit n \<or> is_next_iteration n) then propagate_normal im t outputs fr st
        else if is_enter n then propagate_enter im t outputs fr st
        else if is_exit n then propagate_exit im t outputs fr st
        else propagate_next im t outputs fr st) (\<lambda>(frame_done, fr', st1, ready).
       let st2 = set_frame fr' st1 in
       if frame_done then
         Option.bind (DeleteFrame im fr' (st2, ready)) (\<lambda>y.
           case parent_frame fr' of None \<Rightarrow> Some y | Some p \<Rightarrow> CleanupFramesIterations im p (parent_iter fr') y)
       else Some (st2, ready)))"

subsection \<open>Process and NodeDone\<close>

definition NodeDone :: "'e option \<Rightarrow> tagged_node list \<Rightarrow> ('v, 's, 'e) exec_state \<Rightarrow> ('v, 's, 'e) exec_state" where
  "NodeDone err ready st =
     (let st1 = (if err \<noteq> None \<and> status st = None then st\<lparr>status := err\<rparr> else st) in
      if ready = [] \<or> err \<noteq> None
      then st1\<lparr>num_outstanding_ops := num_outstanding_ops st1 - 1, finished := (finished st1 \<or> num_outstanding_ops st1 = 1)\<rparr>
      else st1\<lparr>num_outstanding_ops := num_outstanding_ops st1 + int (length ready) - 1, scheduled := scheduled st1 @ ready\<rparr>)"

definition clear_inputs :: "nat \<Rightarrow> nat \<Rightarrow> 'v option list \<Rightarrow> 'v option list" where
  "clear_inputs start n ts = fold (\<lambda>i ts. ts[start + i := None]) [0..<n] ts"

type_synonym ('v, 's, 'e) kernels = "nat \<Rightarrow> 'v option list \<Rightarrow> 's \<Rightarrow> ('e + 'v option list) \<times> 's"

text \<open>
  One round of the loop of \<^verbatim>\<open>Process\<close> on the scheduled node \<open>t\<close>. The loop declares its status \<open>s\<close> outside and does not
  reset it, so that a dead node, whose kernel is skipped, is done with the status of the node that the same thread
  processed before.
\<close>

definition Process :: "('v, 's, 'e) kernels \<Rightarrow> impl \<Rightarrow> 'e option \<Rightarrow> tagged_node \<Rightarrow> ('v, 's, 'e) exec_state \<Rightarrow> ('v, 's, 'e) exec_state option" where
  "Process compute im s t st =
     Option.bind (find_frame (input_frame t) st) (\<lambda>fr.
     Option.bind (GetIteration fr (input_iter t)) (\<lambda>it.
     let n = nodes (impl_graph im) ! t_node t; start = input_start im ! t_node t;
         (result, dev) = (if is_dead t \<and> \<not> is_transfer n
                          then (case s of None \<Rightarrow> Inr (replicate (num_outputs n) None) | Some e \<Rightarrow> Inl e, device st)
                          else compute (t_node t) (take (num_inputs n) (drop start (input_tensors it))) (device st));
         fr1 = SetIteration (input_iter t) (Some (it\<lparr>input_tensors := clear_inputs start (num_inputs n) (input_tensors it)\<rparr>)) fr;
         st1 = (set_frame fr1 st)\<lparr>device := dev, scheduled := remove1 t (scheduled st), ran := ran st @ [t]\<rparr> in
     case result of
       Inl e \<Rightarrow> Some (NodeDone (Some e) [] st1)
     | Inr outputs \<Rightarrow> Option.bind (PropagateOutputs im t outputs st1) (\<lambda>(st2, ready). Some (NodeDone None ready st2))))"

subsection \<open>RunAsync\<close>

definition RunAsync :: "impl \<Rightarrow> 's \<Rightarrow> ('v, 's, 'e) exec_state" where
  "RunAsync im dev =
     (let root = new_frame im [] [] None 0 1 1; ready = map (\<lambda>n. \<lparr>t_node = n, input_frame = [], input_iter = 0, is_dead = False\<rparr>) (root_nodes im) in
      \<lparr>outstanding_frames = [([], root\<lparr>iterations := map (map_option (\<lambda>it. it\<lparr>outstanding_ops := length ready\<rparr>)) (iterations root)\<rparr>)],
       num_outstanding_ops = int (length ready), status = None, scheduled = ready, device = dev, finished = (ready = []), ran = []\<rparr>)"

text \<open>
  A step of the executor. The scheduled nodes are those handed to the runner and those in the inline queues of the threads, and any of
  them may be next. A thread starts with status OK; it has an error left over only when a node has failed before.
\<close>

inductive exec_step :: "('v, 's, 'e) kernels \<Rightarrow> impl \<Rightarrow> ('v, 's, 'e) exec_state \<Rightarrow> ('v, 's, 'e) exec_state \<Rightarrow> bool"
  for compute im
where
  step: "t \<in> set (scheduled st) \<Longrightarrow> s = None \<or> status st \<noteq> None \<Longrightarrow> Process compute im s t st = Some st' \<Longrightarrow> exec_step compute im st st'"

inductive_cases exec_stepE: "exec_step compute im st st'"

end
