(* ===== verification/Executor_Node.thy ===== *)
theory Executor_Node
  imports Executor
begin

text \<open>
  When a node becomes ready. The edges that arrive at a node are events; what the packed counts hold is a function
  of the events so far, and the node is reported ready by exactly one of them, the one that completes its inputs:
  the last one, or for a Merge node the one after which all control inputs are there and a live data input or only dead ones.
\<close>

subsection \<open>Events\<close>

text \<open>The arrival of an edge: is the source dead, is it a control edge, does it carry a value.\<close>

record arrival =
  ev_src_dead :: bool
  ev_control :: bool
  ev_value :: bool

definition controls :: "arrival list \<Rightarrow> nat" where
  "controls evs = length (filter ev_control evs)"

definition datas :: "arrival list \<Rightarrow> nat" where
  "datas evs = length (filter (\<lambda>a. \<not> ev_control a) evs)"

definition deads :: "arrival list \<Rightarrow> nat" where
  "deads evs = length (filter (\<lambda>a. \<not> ev_control a \<and> \<not> ev_value a) evs)"

definition some_live :: "arrival list \<Rightarrow> bool" where
  "some_live evs \<longleftrightarrow> list_ex (\<lambda>a. \<not> ev_control a \<and> ev_value a) evs"

definition counted_dead :: "arrival \<Rightarrow> bool" where
  "counted_dead a \<longleftrightarrow> ev_src_dead a \<or> \<not> ev_control a \<and> \<not> ev_value a"

text \<open>A node with \<open>c\<close> control and \<open>m\<close> data inputs has what it waits for.\<close>

definition complete :: "gnode \<Rightarrow> nat \<Rightarrow> nat \<Rightarrow> arrival list \<Rightarrow> bool" where
  "complete d c m evs \<longleftrightarrow>
     (if is_merge d then controls evs = c \<and> (some_live evs \<or> deads evs = m) else length evs = c + m)"

definition runs_dead :: "gnode \<Rightarrow> nat \<Rightarrow> arrival list \<Rightarrow> bool" where
  "runs_dead d m evs \<longleftrightarrow> (if is_merge d then deads evs = m else list_ex counted_dead evs)"

text \<open>What the counts of the node are after the events.\<close>

definition cell_inv :: "gnode \<Rightarrow> nat \<Rightarrow> nat \<Rightarrow> arrival list \<Rightarrow> counts \<Rightarrow> bool" where
  "cell_inv d c m evs cell \<longleftrightarrow> \<not> c_started cell \<and>
     (if is_merge d
      then c_pending cell = 2 * (c - controls evs) + of_bool (\<not> some_live evs) \<and> c_dead cell \<le> deads evs \<and>
        (\<not> some_live evs \<longrightarrow> c_dead cell = deads evs)
      else c_pending cell = c + m - length evs \<and> c_dead cell = length (filter counted_dead evs))"

definition capacity :: "gnode \<Rightarrow> nat \<Rightarrow> nat \<Rightarrow> handle \<Rightarrow> bool" where
  "capacity d c m h \<longleftrightarrow> (if is_merge d then 1 + 2 * c else c + m) < 2 ^ pending_bits h \<and> c + m < 2 ^ dead_bits h"

lemma events_snoc [simp]:
  "controls (evs @ [a]) = controls evs + of_bool (ev_control a)"
  "datas (evs @ [a]) = datas evs + of_bool (\<not> ev_control a)"
  "deads (evs @ [a]) = deads evs + of_bool (\<not> ev_control a \<and> \<not> ev_value a)"
  "some_live (evs @ [a]) = (some_live evs \<or> \<not> ev_control a \<and> ev_value a)"
  by (auto simp: controls_def datas_def deads_def some_live_def)

lemma events_Nil [simp]: "controls [] = 0" "datas [] = 0" "deads [] = 0" "\<not> some_live []"
  by (simp_all add: controls_def datas_def deads_def some_live_def)

lemma length_events: "length evs = controls evs + datas evs"
  by (induction evs rule: rev_induct) auto

lemma deads_le_datas: "deads evs \<le> datas evs"
  by (induction evs rule: rev_induct) auto

lemma live_deads: "some_live evs \<Longrightarrow> deads evs < datas evs"
proof (induction evs rule: rev_induct)
  case (snoc a evs)
  then show ?case using deads_le_datas [of evs] by (cases "some_live evs") auto
qed simp

lemma no_live_deads: "\<not> some_live evs \<Longrightarrow> deads evs = datas evs"
  by (induction evs rule: rev_induct) auto

lemma counted_dead_le: "length (filter counted_dead evs) \<le> length evs"
  by simp

subsection \<open>One event\<close>

lemma sub_pending_exact: "v \<le> c_pending c \<Longrightarrow> c_pending c < 2 ^ pending_bits h \<Longrightarrow> sub_pending h v c = c\<lparr>c_pending := c_pending c - v\<rparr>"
proof -
  assume v: "v \<le> c_pending c" "c_pending c < 2 ^ pending_bits h"
  have "int (c_pending c) < 2 ^ pending_bits h" using v(2) by (metis of_nat_less_iff of_nat_numeral of_nat_power)
  then have "(int (c_pending c) - int v) mod 2 ^ pending_bits h = int (c_pending c) - int v"
    using v(1) by (intro mod_pos_pos_trivial) linarith+
  then show ?thesis using v by (simp add: sub_pending_def nat_diff_distrib')
qed

lemma notready_iff: "\<not> c_started c \<Longrightarrow> NodeStateForStruct c = PENDING_NOTREADY \<longleftrightarrow> c_pending c > 0"
  by (simp add: NodeStateForStruct_def)

lemma pending_raw: "\<not> c_started (counts_of h bs) \<Longrightarrow> pending h bs = c_pending (counts_of h bs)"
  by (simp add: pending_def notready_iff)

lemma put_counts_frame:
  assumes "in_table h bs" "fits h c" "bs' = put_counts h c bs"
  shows "counts_of h bs' = c" "apart h' h \<Longrightarrow> counts_of h' bs' = counts_of h' bs" "length bs' = length bs"
  using assms by (auto simp: table_simps)

lemma deliver_frame:
  assumes "deliver d h fe sd ctrl hv bs = (dd, rd, ni, bs')"
  shows "length bs' = length bs \<and> (apart h' h \<longrightarrow> counts_of h' bs' = counts_of h' bs)"
  using assms
  by (auto simp: deliver_def decrement_pending_def mark_live_def increment_dead_count_def adjust_for_activation_def Let_def
      table_simps split: if_splits)

lemma deliver_merge_control:
  assumes "in_table h bs" "cell_inv d c m evs (counts_of h bs)" "is_merge d" "num_inputs d = m" "capacity d c m h"
    "controls evs < c" "datas evs \<le> m" "deliver d h False sd True hv bs = (dd, rd, ni, bs')"
    and a: "a = \<lparr>ev_src_dead = sd, ev_control = True, ev_value = hv\<rparr>"
  shows "cell_inv d c m (evs @ [a]) (counts_of h bs')" "rd \<longleftrightarrow> complete d c m (evs @ [a]) \<and> \<not> complete d c m evs"
    "rd \<Longrightarrow> dd \<longleftrightarrow> runs_dead d m (evs @ [a])"
proof -
  let ?c = "counts_of h bs"
  have p: "c_pending ?c = 2 * (c - controls evs) + of_bool (\<not> some_live evs)" "c_dead ?c \<le> deads evs"
    "\<not> some_live evs \<longrightarrow> c_dead ?c = deads evs" "\<not> c_started ?c"
    using assms by (auto simp: cell_inv_def)
  have le: "2 \<le> c_pending ?c" "c_pending ?c \<le> 1 + 2 * c" using p(1) assms(6) by auto
  then have sub: "sub_pending h 2 ?c = ?c\<lparr>c_pending := c_pending ?c - 2\<rparr>"
    using assms(5) by (intro sub_pending_exact) (auto simp: capacity_def assms(3))
  have "c_dead ?c \<le> m" using p(2) deads_le_datas [of evs] assms(7) by linarith
  then have fit: "fits h (?c\<lparr>c_pending := c_pending ?c - 2\<rparr>)"
    using le assms(3,5) by (auto simp: fits_def capacity_def)
  have bs': "bs' = put_counts h (?c\<lparr>c_pending := c_pending ?c - 2\<rparr>) bs"
    using assms(3,8) sub by (auto simp: deliver_def decrement_pending_def Let_def)
  note new = put_counts_frame(1) [OF assms(1) fit bs']
  have dd: "dd \<longleftrightarrow> c_dead ?c = m" and rd: "rd \<longleftrightarrow> c_pending ?c = 2 \<or> c_pending ?c = 3 \<and> dd"
    using assms(3,4,8) new p(4) le by (auto simp: deliver_def decrement_pending_def Let_def sub pending_raw dead_count_def simp flip: bs')
  have live: "some_live evs \<Longrightarrow> c_dead ?c < m" using live_deads [of evs] p(2) assms(7) by linarith
  show "cell_inv d c m (evs @ [a]) (counts_of h bs')"
    using p assms(3,6) by (auto simp: new cell_inv_def a)
  show "rd \<longleftrightarrow> complete d c m (evs @ [a]) \<and> \<not> complete d c m evs"
    using p dd rd live assms(3,6) by (cases "some_live evs") (auto simp: complete_def a)
  show "rd \<Longrightarrow> dd \<longleftrightarrow> runs_dead d m (evs @ [a])"
    using p dd rd live live_deads [of evs] assms(3,6,7) by (cases "some_live evs") (auto simp: runs_dead_def a)
qed

lemma deliver_merge_live:
  assumes "in_table h bs" "cell_inv d c m evs (counts_of h bs)" "is_merge d" "capacity d c m h"
    "controls evs \<le> c" "datas evs < m" "deliver d h False sd False True bs = (dd, rd, ni, bs')"
    and a: "a = \<lparr>ev_src_dead = sd, ev_control = False, ev_value = True\<rparr>"
  shows "cell_inv d c m (evs @ [a]) (counts_of h bs')" "rd \<longleftrightarrow> complete d c m (evs @ [a]) \<and> \<not> complete d c m evs"
    "rd \<Longrightarrow> dd \<longleftrightarrow> runs_dead d m (evs @ [a])"
proof -
  let ?c = "counts_of h bs" and ?c' = "(counts_of h bs)\<lparr>c_pending := c_pending (counts_of h bs) - c_pending (counts_of h bs) mod 2\<rparr>"
  have p: "c_pending ?c = 2 * (c - controls evs) + of_bool (\<not> some_live evs)" "c_dead ?c \<le> deads evs"
    "\<not> some_live evs \<longrightarrow> c_dead ?c = deads evs" "\<not> c_started ?c"
    using assms by (auto simp: cell_inv_def)
  have d: "deads evs < m" using deads_le_datas [of evs] assms(6) by linarith
  then have fit: "fits h ?c'" using p assms(3,4,5) by (auto simp: fits_def capacity_def)
  have bs': "bs' = (if c_pending ?c > 0 then put_counts h ?c' bs else bs)" and dd: "\<not> dd" and rd: "rd \<longleftrightarrow> c_pending ?c = 1"
    using assms(3,7) p(4) by (auto simp: deliver_def mark_live_def Let_def notready_iff pending_raw)
  have new: "counts_of h bs' = ?c'"
    using put_counts_frame(1) [OF assms(1) fit refl] by (auto simp: bs')
  show "cell_inv d c m (evs @ [a]) (counts_of h bs')"
    using p assms(3) by (auto simp: new cell_inv_def a)
  show "rd \<longleftrightarrow> complete d c m (evs @ [a]) \<and> \<not> complete d c m evs"
    using p rd d assms(3,5) by (cases "some_live evs") (auto simp: complete_def a)
  show "rd \<Longrightarrow> dd \<longleftrightarrow> runs_dead d m (evs @ [a])"
    using dd d assms(3) by (auto simp: runs_dead_def a)
qed

lemma deliver_merge_dead:
  assumes "in_table h bs" "cell_inv d c m evs (counts_of h bs)" "is_merge d" "num_inputs d = m" "capacity d c m h"
    "controls evs \<le> c" "datas evs < m" "deliver d h False sd False False bs = (dd, rd, ni, bs')"
    and a: "a = \<lparr>ev_src_dead = sd, ev_control = False, ev_value = False\<rparr>"
  shows "cell_inv d c m (evs @ [a]) (counts_of h bs')" "rd \<longleftrightarrow> complete d c m (evs @ [a]) \<and> \<not> complete d c m evs"
    "rd \<Longrightarrow> dd \<longleftrightarrow> runs_dead d m (evs @ [a])"
proof -
  let ?c = "counts_of h bs" and ?c' = "(counts_of h bs)\<lparr>c_dead := c_dead (counts_of h bs) + 1\<rparr>"
  have p: "c_pending ?c = 2 * (c - controls evs) + of_bool (\<not> some_live evs)" "c_dead ?c \<le> deads evs"
    "\<not> some_live evs \<longrightarrow> c_dead ?c = deads evs" "\<not> c_started ?c"
    using assms by (auto simp: cell_inv_def)
  have d: "deads evs < m" using deads_le_datas [of evs] assms(7) by linarith
  have cap: "c_dead ?c + 1 < 2 ^ dead_bits h" "c_pending ?c < 2 ^ pending_bits h"
    using p d assms(3,5,6) by (auto simp: capacity_def)
  then have fit: "fits h ?c'" by (simp add: fits_def)
  have add: "add_dead h ?c = (if c_pending ?c > 0 then ?c' else ?c)" using cap p(4) by (simp add: add_dead_def notready_iff)
  have bs': "bs' = (if c_pending ?c > 0 then put_counts h ?c' bs else bs)"
    using assms(3,8) p(4) add by (auto simp: deliver_def increment_dead_count_def Let_def notready_iff)
  have new: "counts_of h bs' = (if c_pending ?c > 0 then ?c' else ?c)"
    using put_counts_frame(1) [OF assms(1) fit refl] by (auto simp: bs')
  have "increment_dead_count h bs = bs'" using assms(3,8) by (auto simp: deliver_def Let_def)
  moreover have "pending h bs' = c_pending ?c" using new p(4) by (subst pending_raw) auto
  ultimately have dd: "dd \<longleftrightarrow> c_dead (counts_of h bs') = m" and rd: "rd \<longleftrightarrow> c_pending ?c = 1 \<and> dd"
    using assms(3,4,8) by (auto simp: deliver_def Let_def dead_count_def)
  show "cell_inv d c m (evs @ [a]) (counts_of h bs')"
    using p assms(3) by (auto simp: new cell_inv_def a)
  show "rd \<longleftrightarrow> complete d c m (evs @ [a]) \<and> \<not> complete d c m evs"
    using p rd dd d new assms(3,6) by (cases "some_live evs") (auto simp: complete_def a)
  show "rd \<Longrightarrow> dd \<longleftrightarrow> runs_dead d m (evs @ [a])"
    using p rd dd new assms(3,6) by (cases "some_live evs") (auto simp: runs_dead_def a)
qed

lemma deliver_plain:
  assumes "in_table h bs" "cell_inv d c m evs (counts_of h bs)" "\<not> is_merge d" "capacity d c m h"
    "length evs < c + m" "deliver d h fe sd ctrl hv bs = (dd, rd, ni, bs')"
    and a: "a = \<lparr>ev_src_dead = sd, ev_control = ctrl, ev_value = hv\<rparr>"
  shows "cell_inv d c m (evs @ [a]) (counts_of h bs')" "rd \<longleftrightarrow> complete d c m (evs @ [a]) \<and> \<not> complete d c m evs"
    "rd \<Longrightarrow> dd \<longleftrightarrow> runs_dead d m (evs @ [a])"
proof -
  let ?c = "counts_of h bs" and ?inc = "sd \<or> \<not> ctrl \<and> \<not> hv"
  let ?c' = "(counts_of h bs)\<lparr>c_pending := c_pending (counts_of h bs) - 1, c_dead := c_dead (counts_of h bs) + of_bool (sd \<or> \<not> ctrl \<and> \<not> hv)\<rparr>"
  have p: "c_pending ?c = c + m - length evs" "c_dead ?c = length (filter counted_dead evs)" "\<not> c_started ?c"
    using assms by (auto simp: cell_inv_def)
  have "c_dead ?c + 1 \<le> c + m" using p(2) assms(5) counted_dead_le [of evs] by linarith
  then have le: "1 \<le> c_pending ?c" "c_pending ?c < 2 ^ pending_bits h" "c_dead ?c + 1 < 2 ^ dead_bits h"
    using p assms(3,4,5) by (auto simp: capacity_def)
  have add: "(if ?inc then add_dead h ?c else ?c) = ?c\<lparr>c_dead := c_dead ?c + of_bool ?inc\<rparr>"
    using le p(3) by (auto simp: add_dead_def notready_iff)
  have sub: "sub_pending h 1 (?c\<lparr>c_dead := k\<rparr>) = ?c\<lparr>c_dead := k, c_pending := c_pending ?c - 1\<rparr>" for k
    using le by (subst sub_pending_exact) auto
  have c': "?c\<lparr>c_dead := k, c_pending := j\<rparr> = ?c\<lparr>c_pending := j, c_dead := k\<rparr>" for j k by simp
  have fit: "fits h ?c'" using le by (auto simp: fits_def)
  have adj: "adjust_for_activation h ?inc bs = (c_pending ?c - 1, c_dead ?c + of_bool ?inc, put_counts h ?c' bs)"
    unfolding adjust_for_activation_def Let_def add sub c' by simp
  have del: "deliver d h fe sd ctrl hv bs = (0 < c_dead ?c + of_bool ?inc, c_pending ?c - 1 = 0, \<not> ctrl, put_counts h ?c' bs)"
    using assms(3) by (simp only: deliver_def adj if_False prod.case Let_def)
  note eqs = assms(6) [unfolded del prod.inject]
  have bs': "bs' = put_counts h ?c' bs" using eqs by (elim conjE) (erule sym)
  have dd: "dd \<longleftrightarrow> 0 < c_dead ?c + of_bool ?inc" using eqs by (elim conjE) (erule sym)
  have "rd \<longleftrightarrow> c_pending ?c - 1 = 0" using eqs by (elim conjE) (rule sym)
  then have rd: "rd \<longleftrightarrow> c_pending ?c = 1" using le(1) by linarith
  note new = put_counts_frame(1) [OF assms(1) fit bs']
  show "cell_inv d c m (evs @ [a]) (counts_of h bs')"
    using p assms(3) unfolding new by (auto simp: cell_inv_def a counted_dead_def)
  show "rd \<longleftrightarrow> complete d c m (evs @ [a]) \<and> \<not> complete d c m evs"
    using p rd assms(3,5) by (auto simp: complete_def)
  show "rd \<Longrightarrow> dd \<longleftrightarrow> runs_dead d m (evs @ [a])"
    using p dd assms(3) by (auto simp: runs_dead_def a counted_dead_def list_ex_iff filter_empty_conv)
qed

text \<open>The four cases together. \<open>m\<close> data inputs are what a Merge node waits for.\<close>

definition node_shape :: "gnode \<Rightarrow> nat \<Rightarrow> nat \<Rightarrow> bool" where
  "node_shape d c m \<longleftrightarrow> (is_merge d \<longrightarrow> num_inputs d = m)"

lemma deliver_event:
  assumes "in_table h bs" "cell_inv d c m evs (counts_of h bs)" "node_shape d c m" "capacity d c m h"
    and a: "a = \<lparr>ev_src_dead = sd, ev_control = ctrl, ev_value = hv\<rparr>"
    and bounds: "controls (evs @ [a]) \<le> c" "datas (evs @ [a]) \<le> m"
    and del: "deliver d h False sd ctrl hv bs = (dd, rd, ni, bs')"
  shows "cell_inv d c m (evs @ [a]) (counts_of h bs') \<and> (rd \<longleftrightarrow> complete d c m (evs @ [a]) \<and> \<not> complete d c m evs) \<and>
    (rd \<longrightarrow> (dd \<longleftrightarrow> runs_dead d m (evs @ [a])))"
proof (cases "is_merge d")
  case True
  then have m: "num_inputs d = m" using assms(3) by (simp add: node_shape_def)
  consider "ctrl" | "\<not> ctrl" "hv" | "\<not> ctrl" "\<not> hv" by blast
  then show ?thesis
  proof cases
    case 1
    then show ?thesis using deliver_merge_control [OF assms(1,2) True m assms(4), of sd hv dd rd ni bs' a] bounds del a by simp
  next
    case 2
    then show ?thesis using deliver_merge_live [OF assms(1,2) True assms(4), of sd dd rd ni bs' a] bounds del a by simp
  next
    case 3
    then show ?thesis using deliver_merge_dead [OF assms(1,2) True m assms(4), of sd dd rd ni bs' a] bounds del a by simp
  qed
next
  case False
  have "length (evs @ [a]) \<le> c + m" using bounds length_events [of "evs @ [a]"] by linarith
  then show ?thesis using deliver_plain [OF assms(1,2) False assms(4), of False sd ctrl hv dd rd ni bs' a] del a by simp
qed

lemma complete_mono:
  assumes "complete d c m evs" "controls (evs @ [a]) \<le> c" "datas (evs @ [a]) \<le> m"
  shows "complete d c m (evs @ [a])"
proof (cases "is_merge d")
  case True
  then show ?thesis using assms deads_le_datas [of evs] by (auto simp: complete_def)
next
  case False
  then show ?thesis using assms length_events [of "evs @ [a]"] by (simp add: complete_def)
qed

lemma complete_all:
  assumes "controls evs = c" "datas evs = m"
  shows "complete d c m evs"
  using assms length_events [of evs] no_live_deads [of evs] by (auto simp: complete_def)

subsection \<open>All events of a node\<close>

text \<open>The flags that \<^verbatim>\<open>ActivateNodes\<close> computes for a node when events arrive one after the other.\<close>

fun deliver_all :: "gnode \<Rightarrow> handle \<Rightarrow> arrival list \<Rightarrow> nat list \<Rightarrow> (bool \<times> bool) list \<times> nat list" where
  "deliver_all d h [] bs = ([], bs)"
| "deliver_all d h (a # as) bs =
     (let (dd, rd, ni, bs1) = deliver d h False (ev_src_dead a) (ev_control a) (ev_value a) bs;
          (fs, bs2) = deliver_all d h as bs1 in ((dd, rd) # fs, bs2))"

lemma deliver_all_ready:
  assumes "in_table h bs" "cell_inv d c m evs (counts_of h bs)" "node_shape d c m" "capacity d c m h"
    "controls (evs @ as) \<le> c" "datas (evs @ as) \<le> m" "deliver_all d h as bs = (fs, bs')"
  shows "length fs = length as \<and> (\<forall>i < length as. snd (fs ! i) \<longleftrightarrow>
    complete d c m (evs @ take (Suc i) as) \<and> \<not> complete d c m (evs @ take i as))"
  using assms
proof (induction as arbitrary: evs bs fs)
  case (Cons a as)
  obtain dd rd ni bs1 where 1: "deliver d h False (ev_src_dead a) (ev_control a) (ev_value a) bs = (dd, rd, ni, bs1)"
    using prod_cases4 by blast
  obtain fs1 where 2: "deliver_all d h as bs1 = (fs1, bs')" "fs = (dd, rd) # fs1"
    using Cons.prems(7) 1 by (auto split: prod.splits)
  have le: "controls (evs @ [a]) \<le> c" "datas (evs @ [a]) \<le> m"
    using Cons.prems(5,6) by (auto simp: controls_def datas_def)
  have a: "a = \<lparr>ev_src_dead = ev_src_dead a, ev_control = ev_control a, ev_value = ev_value a\<rparr>" by simp
  note step = deliver_event [OF Cons.prems(1-4) a le 1]
  have "in_table h bs1" using deliver_frame [OF 1] Cons.prems(1) by (simp add: in_table_def)
  then have "length fs1 = length as \<and> (\<forall>i < length as. snd (fs1 ! i) \<longleftrightarrow>
      complete d c m ((evs @ [a]) @ take (Suc i) as) \<and> \<not> complete d c m ((evs @ [a]) @ take i as))"
    using Cons.IH [of bs1 "evs @ [a]"] step Cons.prems 2 by simp
  then show ?case using step 2 by (auto simp: less_Suc_eq_0_disj)
qed simp

lemma exactly_one_change:
  fixes P :: "nat \<Rightarrow> bool"
  assumes "\<not> P 0" "P n" "\<And>i. i < n \<Longrightarrow> P i \<Longrightarrow> P (Suc i)"
  shows "\<exists>!i. i < n \<and> P (Suc i) \<and> \<not> P i"
proof -
  define k where "k = (LEAST k. P k)"
  have k: "P k" "\<And>j. j < k \<Longrightarrow> \<not> P j" "k \<le> n"
    using assms(2) by (auto simp: k_def intro: LeastI Least_le dest: not_less_Least)
  have "k \<noteq> 0" using k(1) assms(1) by metis
  have up: "P j" if "k \<le> j" "j \<le> n" for j using that by (induction j rule: dec_induct) (auto simp: k(1) intro: assms(3))
  show ?thesis
  proof (rule ex1I [of _ "k - 1"])
    show "k - 1 < n \<and> P (Suc (k - 1)) \<and> \<not> P (k - 1)" using k \<open>k \<noteq> 0\<close> by auto
    show "j = k - 1" if "j < n \<and> P (Suc j) \<and> \<not> P j" for j
      using that up [of j] k(2) [of "Suc j"] by (metis One_nat_def Suc_lessI diff_Suc_1 leI less_imp_le_nat)
  qed
qed

subsection \<open>A node becomes ready exactly once\<close>

lemma initial_cell:
  assumes "in_table h bs" "capacity d c m h"
  shows "cell_inv d c m [] (counts_of h (set_initial_count h (if is_merge d then 1 + 2 * c else c + m) bs))"
proof -
  have "fits h \<lparr>c_pending = (if is_merge d then 1 + 2 * c else c + m), c_dead = 0, c_started = False\<rparr>"
    using assms(2) by (auto simp: fits_def capacity_def)
  then show ?thesis using assms(1) by (auto simp: set_initial_count_def table_simps cell_inv_def)
qed

lemma initially_incomplete: "0 < c + m \<Longrightarrow> node_shape d c m \<Longrightarrow> \<not> (is_merge d \<and> c = 0 \<and> m = 0) \<Longrightarrow> \<not> complete d c m []"
  by (auto simp: complete_def)


text \<open>
  A Merge node with one control input and two data inputs: a dead value, then a live one, then the control edge, which finds it
  ready.
\<close>

definition sample_merge :: gnode where
  "sample_merge = \<lparr>is_merge = True, is_enter = False, is_constant_enter = False, is_exit = False, is_next_iteration = False,
     is_control_trigger = False, is_sink = False, is_transfer = False, num_inputs = 2, num_outputs = 1, frame_attr = [], parallel_iterations = 0\<rparr>"

definition sample_arrivals :: "arrival list" where
  "sample_arrivals = [\<lparr>ev_src_dead = True, ev_control = False, ev_value = False\<rparr>, \<lparr>ev_src_dead = False, ev_control = False, ev_value = True\<rparr>,
     \<lparr>ev_src_dead = False, ev_control = True, ev_value = False\<rparr>]"


end
