(* ===== verification/Executor_Status.thy ===== *)
theory Executor_Status
  imports Executor
begin

text \<open>
  What holds in every run of the executor, on any graph, with loops or without: the counter of outstanding nodes counts the
  scheduled nodes, the end of the step is reported when there are none left, and the status is the first error of a kernel.
\<close>

subsection \<open>Only the frames change while outputs are propagated\<close>

definition same_run :: "('v, 's, 'e) exec_state \<Rightarrow> ('v, 's, 'e) exec_state \<Rightarrow> bool" where
  "same_run st st' \<longleftrightarrow> num_outstanding_ops st' = num_outstanding_ops st \<and> status st' = status st \<and> scheduled st' = scheduled st \<and>
     finished st' = finished st \<and> ran st' = ran st \<and> device st' = device st"

lemma same_run_simps [simp]:
  "same_run st st" "same_run st (set_frame fr st') \<longleftrightarrow> same_run st st'" "same_run st (erase_frame f st') \<longleftrightarrow> same_run st st'"
  "same_run (set_frame fr st) st' \<longleftrightarrow> same_run st st'"
  by (simp_all add: same_run_def set_frame_def erase_frame_def)

lemma same_run_trans: "same_run st st' \<Longrightarrow> same_run st' st'' \<Longrightarrow> same_run st st''"
  by (simp add: same_run_def)

lemma FindOrCreateChildFrame_same: "FindOrCreateChildFrame im fr i n st = Some (c, st') \<Longrightarrow> same_run st st'"
  by (auto simp: FindOrCreateChildFrame_def Let_def split: option.splits)

lemma DeleteFrame_same: "DeleteFrame im fr (st, ready) = Some (st', ready') \<Longrightarrow> same_run st st'"
  by (auto simp: DeleteFrame_def Let_def bind_eq_Some_conv case_prod_beta split: option.splits if_splits)

lemma CleanupFramesIterations_same:
  assumes "CleanupFramesIterations im f i x = Some y"
  shows "same_run (fst x) (fst y)"
proof (rule CleanupFramesIterations.raw_induct [of "\<lambda>im f i x y. same_run (fst x) (fst y)" "(((im, f), i), x)" y, unfolded prod.case, OF _ assms], goal_cases)
  case (1 rec im f i x y)
  then obtain fr it b fr' ready where c: "CleanupIterations im i
      (SetIteration i (Some (it\<lparr>outstanding_frame_count := outstanding_frame_count it - 1\<rparr>)) fr, snd x) = Some (b, fr', ready)"
    and y: "(if b then Option.bind (DeleteFrame im fr' (set_frame fr' (fst x), ready))
        (\<lambda>y. case parent_frame fr' of None \<Rightarrow> Some y | Some p \<Rightarrow> rec im p (parent_iter fr') y)
      else Some (set_frame fr' (fst x), ready)) = Some y"
    by (auto simp: bind_eq_Some_conv)
  show ?case
  proof (cases b)
    case True
    then obtain z where z: "DeleteFrame im fr' (set_frame fr' (fst x), ready) = Some z"
      "(case parent_frame fr' of None \<Rightarrow> Some z | Some p \<Rightarrow> rec im p (parent_iter fr') z) = Some y"
      using y by (auto simp: bind_eq_Some_conv)
    have "same_run (fst x) (fst z)" using DeleteFrame_same [of im fr' "set_frame fr' (fst x)" ready "fst z" "snd z"] z(1) by simp
    moreover have "same_run (fst z) (fst y)" using z(2) 1(1) by (cases "parent_frame fr'") auto
    ultimately show ?thesis by (rule same_run_trans)
  qed (use y in auto)
qed

definition propagate :: "impl \<Rightarrow> tagged_node \<Rightarrow> 'v option list \<Rightarrow> 'v frame \<Rightarrow> ('v, 's, 'e) exec_state \<Rightarrow>
    (bool \<times> 'v frame \<times> ('v, 's, 'e) exec_state \<times> tagged_node list) option" where
  "propagate im t outputs fr st =
     (let n = nodes (impl_graph im) ! t_node t in
      if \<not> (is_enter n \<or> is_exit n \<or> is_next_iteration n) then propagate_normal im t outputs fr st
      else if is_enter n then propagate_enter im t outputs fr st
      else if is_exit n then propagate_exit im t outputs fr st
      else propagate_next im t outputs fr st)"

lemma PropagateOutputs_propagate:
  "PropagateOutputs im t outputs st = Option.bind (find_frame (input_frame t) st) (\<lambda>fr.
     Option.bind (propagate im t outputs fr st) (\<lambda>(frame_done, fr', st1, ready).
       if frame_done then
         Option.bind (DeleteFrame im fr' (set_frame fr' st1, ready)) (\<lambda>y.
           case parent_frame fr' of None \<Rightarrow> Some y | Some p \<Rightarrow> CleanupFramesIterations im p (parent_iter fr') y)
       else Some (set_frame fr' st1, ready)))"
  unfolding PropagateOutputs_def propagate_def Let_def ..

lemma PropagateOutputs_same:
  assumes "PropagateOutputs im t outputs st = Some (st', ready)"
  shows "same_run st st'"
proof -
  obtain fr where x: "Option.bind (propagate im t outputs fr st) (\<lambda>(frame_done, fr', st1, ready).
       if frame_done then
         Option.bind (DeleteFrame im fr' (set_frame fr' st1, ready)) (\<lambda>y.
           case parent_frame fr' of None \<Rightarrow> Some y | Some p \<Rightarrow> CleanupFramesIterations im p (parent_iter fr') y)
       else Some (set_frame fr' st1, ready)) = Some (st', ready)"
    using assms unfolding PropagateOutputs_propagate bind_eq_Some_conv [of "find_frame _ _"] by blast
  then obtain b fr' st1 r where p: "propagate im t outputs fr st = Some (b, fr', st1, r)"
    and q: "(if b then Option.bind (DeleteFrame im fr' (set_frame fr' st1, r)) (\<lambda>y.
           case parent_frame fr' of None \<Rightarrow> Some y | Some p \<Rightarrow> CleanupFramesIterations im p (parent_iter fr') y)
       else Some (set_frame fr' st1, r)) = Some (st', ready)"
    unfolding bind_eq_Some_conv by auto
  have 1: "same_run st st1"
    using p by (auto simp: propagate_def propagate_normal_def propagate_enter_def propagate_exit_def propagate_next_def Let_def bind_eq_Some_conv
        dest: FindOrCreateChildFrame_same split: if_splits)
  have "same_run st1 st'"
  proof (cases b)
    case True
    then obtain z where z: "DeleteFrame im fr' (set_frame fr' st1, r) = Some z"
      "(case parent_frame fr' of None \<Rightarrow> Some z | Some p \<Rightarrow> CleanupFramesIterations im p (parent_iter fr') z) = Some (st', ready)"
      using q by (auto simp: bind_eq_Some_conv)
    have "same_run st1 (fst z)" using DeleteFrame_same [of im fr' "set_frame fr' st1" r "fst z" "snd z"] z(1) by simp
    moreover have "same_run (fst z) st'" using z(2) CleanupFramesIterations_same by (cases "parent_frame fr'") fastforce+
    ultimately show ?thesis by (rule same_run_trans)
  qed (use q in auto)
  with 1 show ?thesis by (rule same_run_trans)
qed

subsection \<open>Steps\<close>

lemma Process_unfold:
  assumes "find_frame (input_frame t) st = Some fr" "GetIteration fr (input_iter t) = Some it"
    and "(if is_dead t \<and> \<not> is_transfer (nodes (impl_graph im) ! t_node t)
          then (case s of None \<Rightarrow> Inr (replicate (num_outputs (nodes (impl_graph im) ! t_node t)) None) | Some e \<Rightarrow> Inl e, device st)
          else compute (t_node t) (take (num_inputs (nodes (impl_graph im) ! t_node t)) (drop (input_start im ! t_node t) (input_tensors it))) (device st)) = (result, dev)"
    and "fr1 = SetIteration (input_iter t) (Some (it\<lparr>input_tensors := clear_inputs (input_start im ! t_node t) (num_inputs (nodes (impl_graph im) ! t_node t)) (input_tensors it)\<rparr>)) fr"
    and "st1 = (set_frame fr1 st)\<lparr>device := dev, scheduled := remove1 t (scheduled st), ran := ran st @ [t]\<rparr>"
  shows "Process compute im s t st = (case result of
       Inl e \<Rightarrow> Some (NodeDone (Some e) [] st1)
     | Inr outputs \<Rightarrow> Option.bind (PropagateOutputs im t outputs st1) (\<lambda>(st2, ready). Some (NodeDone None ready st2)))"
  unfolding Process_def Let_def by (simp only: assms bind.simps prod.case)

lemma NodeDone_status: "status (NodeDone err ready st) = (case status st of None \<Rightarrow> err | Some e \<Rightarrow> Some e)"
  by (auto simp: NodeDone_def Let_def split: option.splits)

text \<open>A step takes the node out of the scheduled ones, runs it, and adds what became ready.\<close>

lemma Process_cases:
  assumes "Process compute im s t st = Some st'"
  obtains (error) e st1 where "st' = NodeDone (Some e) [] st1" "scheduled st1 = remove1 t (scheduled st)" "ran st1 = ran st @ [t]"
      "status st1 = status st" "num_outstanding_ops st1 = num_outstanding_ops st" "finished st1 = finished st"
  | (success) ready st1 where "st' = NodeDone None ready st1" "scheduled st1 = remove1 t (scheduled st)" "ran st1 = ran st @ [t]"
      "status st1 = status st" "num_outstanding_ops st1 = num_outstanding_ops st" "finished st1 = finished st"
proof -
  obtain fr it where fi: "find_frame (input_frame t) st = Some fr" "GetIteration fr (input_iter t) = Some it"
    using assms by (auto simp: Process_def bind_eq_Some_conv)
  obtain result dev where res: "(if is_dead t \<and> \<not> is_transfer (nodes (impl_graph im) ! t_node t)
          then (case s of None \<Rightarrow> Inr (replicate (num_outputs (nodes (impl_graph im) ! t_node t)) None) | Some e \<Rightarrow> Inl e, device st)
          else compute (t_node t) (take (num_inputs (nodes (impl_graph im) ! t_node t)) (drop (input_start im ! t_node t) (input_tensors it))) (device st)) = (result, dev)"
    by fastforce
  define fr1 where "fr1 = SetIteration (input_iter t) (Some (it\<lparr>input_tensors := clear_inputs (input_start im ! t_node t) (num_inputs (nodes (impl_graph im) ! t_node t)) (input_tensors it)\<rparr>)) fr"
  define st1 where "st1 = (set_frame fr1 st)\<lparr>device := dev, scheduled := remove1 t (scheduled st), ran := ran st @ [t]\<rparr>"
  note P = Process_unfold [of t st fr it im s compute result dev fr1 st1, OF fi res fr1_def st1_def]
  have st1: "scheduled st1 = remove1 t (scheduled st)" "ran st1 = ran st @ [t]"
      "status st1 = status st" "num_outstanding_ops st1 = num_outstanding_ops st" "finished st1 = finished st"
    by (simp_all add: st1_def set_frame_def)
  show thesis
  proof (cases result)
    case (Inl e)
    then show ?thesis using P assms st1 by (intro error [of e st1]) simp_all
  next
    case (Inr outputs)
    then obtain st2 ready where pr: "PropagateOutputs im t outputs st1 = Some (st2, ready)" "st' = NodeDone None ready st2"
      using P assms by (cases "PropagateOutputs im t outputs st1") auto
    then show ?thesis using PropagateOutputs_same [OF pr(1)] st1 by (intro success [of ready st2]) (simp_all add: same_run_def)
  qed
qed

definition accounted :: "('v, 's, 'e) exec_state \<Rightarrow> bool" where
  "accounted st \<longleftrightarrow> num_outstanding_ops st = int (length (scheduled st)) \<and> (finished st \<longleftrightarrow> scheduled st = [])"

lemma accounted_step:
  assumes "exec_step compute im st st'" "accounted st"
  shows "accounted st'"
  using assms(1)
proof (cases rule: exec_step.cases)
  case (step t s)
  then have "length (scheduled st) = Suc (length (remove1 t (scheduled st)))" "\<not> finished st" "scheduled st \<noteq> []"
    using assms(2) by (auto simp: length_remove1 accounted_def length_greater_0_conv [symmetric] simp del: length_greater_0_conv)
  with step(3) assms(2) show ?thesis
    by (elim Process_cases) (auto simp: accounted_def NodeDone_def Let_def)
qed

lemma status_step:
  assumes "exec_step compute im st st'" "status st = Some e"
  shows "status st' = Some e"
  using assms(1) by (cases rule: exec_step.cases) (use assms(2) in \<open>auto simp: NodeDone_status elim!: Process_cases\<close>)

lemma status_run:
  assumes "(exec_step compute im)\<^sup>*\<^sup>* st st'" "status st = Some e"
  shows "status st' = Some e"
  using assms by (induction rule: rtranclp_induct) (auto intro: status_step)

end
