(* ===== verification/Executor_Dag.thy ===== *)
theory Executor_Dag
  imports Executor_Node Executor_Status
begin

text \<open>
  The executor on an acyclic graph without loops: all nodes are in the root frame, which has one iteration. Every
  run processes each node at most once, a node that is no Merge only after all its predecessors, and when no
  kernel fails every run ends, after as many steps as there are nodes, with every node processed and the frame gone.
\<close>

subsection \<open>Graphs without loops\<close>

definition control_inputs :: "graph \<Rightarrow> nat \<Rightarrow> nat" where
  "control_inputs g n = length (filter IsControlEdge (in_edges g n))"

definition data_inputs :: "graph \<Rightarrow> nat \<Rightarrow> nat" where
  "data_inputs g n = length (filter (\<lambda>e. \<not> IsControlEdge e) (in_edges g n))"

text \<open>
  \<open>rank\<close> orders the nodes along the edges. The sink has inputs and no outputs. Each data edge is one of the inputs of its
  destination. In-degrees are far below what the counts can hold.
\<close>

definition plain_node :: "graph \<Rightarrow> nat \<Rightarrow> bool" where
  "plain_node g n \<longleftrightarrow>
     \<not> is_enter (nodes g ! n) \<and> \<not> is_exit (nodes g ! n) \<and> \<not> is_next_iteration (nodes g ! n) \<and>
     (is_sink (nodes g ! n) \<longrightarrow> in_edges g n \<noteq> []) \<and> num_inputs (nodes g ! n) = data_inputs g n \<and> length (in_edges g n) < 2 ^ 30"

definition plain_graph :: "graph \<Rightarrow> (nat \<Rightarrow> nat) \<Rightarrow> bool" where
  "plain_graph g rank \<longleftrightarrow>
     distinct (edges g) \<and>
     list_all (\<lambda>e. src e < length (nodes g) \<and> dst e < length (nodes g) \<and> rank (src e) < rank (dst e) \<and> \<not> is_sink (nodes g ! src e)) (edges g) \<and>
     list_all (plain_node g) [0..<length (nodes g)]"

lemma plain_edge:
  assumes "plain_graph g rank" "e \<in> set (edges g)"
  shows "src e < length (nodes g)" "dst e < length (nodes g)" "rank (src e) < rank (dst e)" "\<not> is_sink (nodes g ! src e)"
  using assms by (auto simp: plain_graph_def list_all_iff)

lemma plain_nodeD: "plain_graph g rank \<Longrightarrow> n < length (nodes g) \<Longrightarrow> plain_node g n"
  by (simp add: plain_graph_def list_all_iff)

lemma in_degree: "control_inputs g n + data_inputs g n = length (in_edges g n)"
  by (simp add: control_inputs_def data_inputs_def sum_length_filter_compl)

lemma max_counts:
  "GetMaxPendingCounts g n = (if is_merge (nodes g ! n) then 1 + 2 * control_inputs g n else control_inputs g n + data_inputs g n,
     control_inputs g n + data_inputs g n)"
  by (simp add: GetMaxPendingCounts_def control_inputs_def Let_def flip: in_degree)

definition one_frame :: "graph \<Rightarrow> impl" where
  "one_frame g = Initialize g (replicate (length (nodes g)) [])"

subsection \<open>Initialisation\<close>

lemma place_nodes_root:
  assumes "\<forall>n \<in> set ns. n < length fns \<and> fns ! n = [] \<and> \<not> is_enter (nodes g ! n)"
  shows "let im' = place_nodes g fns ns im; (hs, off) = create_handles (map (GetMaxPendingCounts g) ns) (next_offset (frame_info_of im [])) in
    impl_graph im' = impl_graph im \<and> frame_names im' = frame_names im \<and> pending_id im' = pending_id im @ hs \<and>
    root_nodes im' = root_nodes im @ filter (\<lambda>n. in_edges g n = []) ns \<and>
    next_offset (frame_info_of im' []) = off \<and> input_count (frame_info_of im' []) = input_count (frame_info_of im [])"
  using assms
proof (induction ns arbitrary: im)
  case (Cons n ns)
  obtain mp md where mp: "GetMaxPendingCounts g n = (mp, md)" by fastforce
  obtain h off where h: "CreateHandle mp md (next_offset (frame_info_of im [])) = (h, off)" by fastforce
  define im1 where "im1 = im\<lparr>root_nodes := root_nodes im @ (if in_edges g n = [] then [n] else []),
      input_start := input_start im @ [total_inputs (frame_info_of im [])], pending_id := pending_id im @ [h],
      frame_info_of := (frame_info_of im)([] := (frame_info_of im [])\<lparr>total_inputs := total_inputs (frame_info_of im []) + num_inputs (nodes g ! n), next_offset := off\<rparr>)\<rparr>"
  have "place_nodes g fns (n # ns) im = place_nodes g fns ns im1"
    using Cons.prems mp h by (simp add: im1_def Let_def)
  moreover have "next_offset (frame_info_of im1 []) = off" "input_count (frame_info_of im1 []) = input_count (frame_info_of im [])"
    "impl_graph im1 = impl_graph im" "frame_names im1 = frame_names im" by (simp_all add: im1_def)
  ultimately show ?case using Cons.IH [of im1] Cons.prems mp h by (auto simp: Let_def im1_def split: prod.splits)
qed (simp add: Let_def)

lemma InitializePending_root:
  assumes "\<forall>n < length (nodes (impl_graph im)). frame_names im ! n = []"
  shows "frame_info_of (InitializePending im) [] = (frame_info_of im [])\<lparr>pending_counts :=
     fold (\<lambda>n. set_initial_count (pending_id im ! n) (fst (GetMaxPendingCounts (impl_graph im) n))) [0..<length (nodes (impl_graph im))]
       (replicate (next_offset (frame_info_of im [])) 0)\<rparr>"
proof -
  let ?g = "impl_graph im"
  have "fold (\<lambda>n fis. let f = frame_names im ! n in
        fis(f := (fis f)\<lparr>pending_counts := set_initial_count (pending_id im ! n) (fst (GetMaxPendingCounts ?g n)) (pending_counts (fis f))\<rparr>)) ns fis [] =
      (fis [])\<lparr>pending_counts := fold (\<lambda>n. set_initial_count (pending_id im ! n) (fst (GetMaxPendingCounts ?g n))) ns (pending_counts (fis []))\<rparr>"
    if "\<forall>n \<in> set ns. frame_names im ! n = []" for ns and fis :: frame_infos
    using that by (induction ns arbitrary: fis) (auto simp: Let_def)
  from this [of "[0..<length (nodes ?g)]"] show ?thesis using assms by (simp add: InitializePending_def Let_def)
qed

lemma initial_put: "set_initial_count h n = put_counts h \<lparr>c_pending = n, c_dead = 0, c_started = False\<rparr>"
  by (rule ext) (simp add: set_initial_count_def)

text \<open>The facts about the table of a graph that the proofs below use.\<close>

definition table :: "graph \<Rightarrow> nat list" where
  "table g = pending_counts (frame_info_of (one_frame g) [])"

lemma one_frame_facts:
  assumes g: "plain_graph g rank"
  shows "impl_graph (one_frame g) = g" "root_nodes (one_frame g) = filter (\<lambda>n. in_edges g n = []) [0..<length (nodes g)]"
    "input_count (frame_info_of (one_frame g) []) = 0"
    "\<forall>n < length (nodes g). in_table (pending_id (one_frame g) ! n) (table g) \<and>
       capacity (nodes g ! n) (control_inputs g n) (data_inputs g n) (pending_id (one_frame g) ! n) \<and>
       cell_inv (nodes g ! n) (control_inputs g n) (data_inputs g n) [] (counts_of (pending_id (one_frame g) ! n) (table g))"
    "\<forall>n < length (nodes g). \<forall>k < length (nodes g). n \<noteq> k \<longrightarrow> apart (pending_id (one_frame g) ! n) (pending_id (one_frame g) ! k)"
proof -
  let ?N = "length (nodes g)" and ?fns = "replicate (length (nodes g)) [] :: string list"
  let ?im0 = "\<lparr>impl_graph = g, frame_names = ?fns, input_start = [], pending_id = [], root_nodes = [], frame_info_of = no_frames\<rparr>"
  define im where "im = place_nodes g ?fns [0..<?N] ?im0"
  obtain hs off where hs: "create_handles (map (GetMaxPendingCounts g) [0..<?N]) 0 = (hs, off)" by fastforce
  have plain: "\<forall>n \<in> set [0..<?N]. n < length ?fns \<and> ?fns ! n = [] \<and> \<not> is_enter (nodes g ! n)"
    using plain_nodeD [OF g] by (auto simp: plain_node_def)
  have im: "impl_graph im = g" "frame_names im = ?fns" "pending_id im = hs" "next_offset (frame_info_of im []) = off"
    "root_nodes im = filter (\<lambda>n. in_edges g n = []) [0..<?N]" "input_count (frame_info_of im []) = 0"
    using place_nodes_root [OF plain, of ?im0] hs by (simp_all add: im_def Let_def no_frames_def)
  have one: "one_frame g = InitializePending im" by (simp add: one_frame_def Initialize_def im_def)
  let ?init = "\<lambda>n. \<lparr>c_pending = fst (GetMaxPendingCounts g n), c_dead = 0, c_started = False\<rparr>"
  have fi: "frame_info_of (one_frame g) [] = (frame_info_of im [])\<lparr>pending_counts := fold (\<lambda>n. put_counts (hs ! n) (?init n)) [0..<?N] (replicate off 0)\<rparr>"
    using InitializePending_root [of im] im unfolding one by (simp add: initial_put)
  show "impl_graph (one_frame g) = g" "root_nodes (one_frame g) = filter (\<lambda>n. in_edges g n = []) [0..<?N]"
    using im by (simp_all add: one InitializePending_def Let_def)
  show "input_count (frame_info_of (one_frame g) []) = 0" using fi im by simp
  have ids: "pending_id (one_frame g) = hs" using im by (simp add: one InitializePending_def Let_def)
  have len: "length hs = ?N" and foot: "\<forall>h \<in> set hs. footprint h \<subseteq> {0..<off}"
    using create_handles_bounds [OF hs] by auto
  show apart: "\<forall>n < ?N. \<forall>k < ?N. n \<noteq> k \<longrightarrow> apart (pending_id (one_frame g) ! n) (pending_id (one_frame g) ! k)"
    using create_handles_apart [OF hs] len unfolding ids by (metis apart_sym nat_neq_iff)
  show "\<forall>n < ?N. in_table (pending_id (one_frame g) ! n) (table g) \<and>
       capacity (nodes g ! n) (control_inputs g n) (data_inputs g n) (pending_id (one_frame g) ! n) \<and>
       cell_inv (nodes g ! n) (control_inputs g n) (data_inputs g n) [] (counts_of (pending_id (one_frame g) ! n) (table g))"
  proof (intro allI impI)
    fix n
    assume n: "n < ?N"
    let ?mp = "fst (GetMaxPendingCounts g n)" and ?md = "snd (GetMaxPendingCounts g n)"
    have small: "?mp < 2 ^ 31" "?md < 2 ^ 31"
      using plain_nodeD [OF g n] in_degree [of g n] by (auto simp: plain_node_def max_counts)
    have fit: "fits (hs ! n) \<lparr>c_pending = p, c_dead = d, c_started = s\<rparr>" if "p \<le> ?mp" "d \<le> ?md" for p d s
      using create_handles_fits [OF hs, of n p d s] n small that by simp
    have tab: "in_table (hs ! n) (replicate off 0)" using foot len n by (auto simp: in_table_def dest!: bspec [of _ _ "hs ! n"])
    have pw: "pairwise apart (set (map fst (map (\<lambda>n. (hs ! n, ?init n)) [0..<?N])))"
    proof (rule pairwiseI)
      fix a b
      assume "a \<in> set (map fst (map (\<lambda>n. (hs ! n, ?init n)) [0..<?N]))" "b \<in> set (map fst (map (\<lambda>n. (hs ! n, ?init n)) [0..<?N]))" "a \<noteq> b"
      then obtain i j where "a = hs ! i" "b = hs ! j" "i < ?N" "j < ?N" "i \<noteq> j" by force
      then show "apart a b" using apart unfolding ids by blast
    qed
    have "distinct hs"
    proof -
      have "footprint h \<noteq> {}" for h by (auto simp: footprint_def)
      then show ?thesis using apart len unfolding ids by (metis apart_def distinct_conv_nth inf.idem)
    qed
    then have dist: "distinct (map fst (map (\<lambda>n. (hs ! n, ?init n)) [0..<?N]))"
      using len map_nth [of hs] by (simp add: comp_def)
    have "fold (\<lambda>n. put_counts (hs ! n) (?init n)) [0..<?N] t = fold (\<lambda>(h, c). put_counts h c) (map (\<lambda>n. (hs ! n, ?init n)) [0..<?N]) t" for t
      by (simp add: fold_map comp_def)
    then have cell: "counts_of (hs ! n) (table g) = ?init n"
      using pc.get_put_list [OF pw dist _ tab, of "?init n"] fit [of ?mp 0 False] n fi by (simp add: table_def)
    have "length (fold (\<lambda>n. put_counts (hs ! n) (?init n)) ns t) = length t" for ns t by (induction ns arbitrary: t) auto
    then have "in_table (hs ! n) (table g)" using tab fi by (simp add: in_table_def table_def)
    moreover have "capacity (nodes g ! n) (control_inputs g n) (data_inputs g n) (hs ! n)"
      using fit [of ?mp ?md False] by (auto simp: fits_def capacity_def max_counts)
    ultimately show "in_table (pending_id (one_frame g) ! n) (table g) \<and>
       capacity (nodes g ! n) (control_inputs g n) (data_inputs g n) (pending_id (one_frame g) ! n) \<and>
       cell_inv (nodes g ! n) (control_inputs g n) (data_inputs g n) [] (counts_of (pending_id (one_frame g) ! n) (table g))"
      unfolding ids by (simp add: cell cell_inv_def max_counts)
  qed
qed

subsection \<open>Edges that have arrived\<close>

text \<open>The log of arrivals in a run: which edge, and how it arrived.\<close>

type_synonym log = "(edge \<times> arrival) list"

definition arrivals :: "log \<Rightarrow> nat \<Rightarrow> arrival list" where
  "arrivals L v = map snd (filter (\<lambda>x. dst (fst x) = v) L)"

definition log_ok :: "graph \<Rightarrow> log \<Rightarrow> bool" where
  "log_ok g L \<longleftrightarrow> distinct (map fst L) \<and> set (map fst L) \<subseteq> set (edges g) \<and> (\<forall>x \<in> set L. ev_control (snd x) = IsControlEdge (fst x))"

abbreviation node_complete :: "graph \<Rightarrow> log \<Rightarrow> nat \<Rightarrow> bool" where
  "node_complete g L v \<equiv> complete (nodes g ! v) (control_inputs g v) (data_inputs g v) (arrivals L v)"

definition fired :: "graph \<Rightarrow> log \<Rightarrow> nat set" where
  "fired g L = {v. v < length (nodes g) \<and> \<not> is_sink (nodes g ! v) \<and> node_complete g L v}"

definition cells :: "graph \<Rightarrow> log \<Rightarrow> nat list \<Rightarrow> bool" where
  "cells g L bs \<longleftrightarrow> length bs = length (table g) \<and>
     (\<forall>v < length (nodes g). \<not> is_sink (nodes g ! v) \<longrightarrow>
        cell_inv (nodes g ! v) (control_inputs g v) (data_inputs g v) (arrivals L v) (counts_of (pending_id (one_frame g) ! v) bs))"

lemma arrivals_snoc: "arrivals (L @ [(e, a)]) v = arrivals L v @ (if dst e = v then [a] else [])"
  by (simp add: arrivals_def)

lemma distinct_filter_le:
  assumes "distinct xs" "set xs \<subseteq> set ys"
  shows "length (filter P xs) \<le> length (filter P ys)"
proof -
  have "length (filter P xs) = card (set (filter P xs))" using distinct_card [of "filter P xs"] assms(1) by simp
  also have "\<dots> \<le> card (set (filter P ys))" using assms(2) by (intro card_mono) auto
  also have "\<dots> \<le> length (filter P ys)" by (rule card_length)
  finally show ?thesis .
qed

lemma arrivals_count:
  assumes "log_ok g L"
  shows "controls (arrivals L v) = length (filter IsControlEdge (filter (\<lambda>e. dst e = v) (map fst L)))"
    "datas (arrivals L v) = length (filter (\<lambda>e. \<not> IsControlEdge e) (filter (\<lambda>e. dst e = v) (map fst L)))"
proof -
  have *: "\<forall>x \<in> set L. ev_control (snd x) = IsControlEdge (fst x)" using assms by (simp add: log_ok_def)
  then have "filter (\<lambda>x. ev_control (snd x)) (filter (\<lambda>x. dst (fst x) = v) L) = filter (\<lambda>x. IsControlEdge (fst x)) (filter (\<lambda>x. dst (fst x) = v) L)"
    by (intro filter_cong) auto
  then show "controls (arrivals L v) = length (filter IsControlEdge (filter (\<lambda>e. dst e = v) (map fst L)))"
    by (simp add: controls_def arrivals_def filter_map comp_def)
  have "filter (\<lambda>x. \<not> ev_control (snd x)) (filter (\<lambda>x. dst (fst x) = v) L) = filter (\<lambda>x. \<not> IsControlEdge (fst x)) (filter (\<lambda>x. dst (fst x) = v) L)"
    using * by (intro filter_cong) auto
  then show "datas (arrivals L v) = length (filter (\<lambda>e. \<not> IsControlEdge e) (filter (\<lambda>e. dst e = v) (map fst L)))"
    by (simp add: datas_def arrivals_def filter_map comp_def)
qed

lemma arrivals_bounds:
  assumes "log_ok g L"
  shows "controls (arrivals L v) \<le> control_inputs g v" "datas (arrivals L v) \<le> data_inputs g v"
proof -
  have "distinct (filter (\<lambda>e. dst e = v) (map fst L))" "set (filter (\<lambda>e. dst e = v) (map fst L)) \<subseteq> set (in_edges g v)"
    using assms by (auto simp: log_ok_def in_edges_def simp del: filter_map)
  then show "controls (arrivals L v) \<le> control_inputs g v" "datas (arrivals L v) \<le> data_inputs g v"
    by (simp_all only: arrivals_count [OF assms] control_inputs_def data_inputs_def distinct_filter_le)
qed

text \<open>A plain node is complete exactly when all its edges have arrived; any node is complete then.\<close>

lemma all_arrived_complete:
  assumes "log_ok g L" "distinct (edges g)" "set (in_edges g v) \<subseteq> set (map fst L)"
  shows "node_complete g L v"
proof -
  have "distinct (in_edges g v)" "set (in_edges g v) \<subseteq> set (filter (\<lambda>e. dst e = v) (map fst L))"
    using assms(2,3) by (auto simp: in_edges_def)
  then have "control_inputs g v \<le> controls (arrivals L v)" "data_inputs g v \<le> datas (arrivals L v)"
    by (simp_all only: arrivals_count [OF assms(1)] control_inputs_def data_inputs_def distinct_filter_le)
  then show ?thesis using arrivals_bounds [OF assms(1), of v] by (intro complete_all) simp_all
qed

lemma complete_all_arrived:
  assumes L: "log_ok g L" and v: "node_complete g L v" "\<not> is_merge (nodes g ! v)"
  shows "set (in_edges g v) \<subseteq> set (map fst L)"
proof -
  define es where "es = filter (\<lambda>e. dst e = v) (map fst L)"
  have es: "distinct es" "set es \<subseteq> set (in_edges g v)" "set es \<subseteq> set (map fst L)"
    using L by (auto simp: log_ok_def in_edges_def es_def distinct_map)
  have "length es = length (in_edges g v)"
    using v in_degree [of g v] length_events [of "arrivals L v"] arrivals_count [OF L, of v, folded es_def]
      sum_length_filter_compl [of IsControlEdge es] by (simp add: complete_def)
  then have "card (set (in_edges g v)) \<le> card (set es)" using es(1) by (metis card_length distinct_card)
  then have "set es = set (in_edges g v)" using es(2) by (intro card_seteq) auto
  then show ?thesis using es(3) by simp
qed

subsection \<open>Activating the successors of a node\<close>

text \<open>The nodes of the ready list are distinct, were not fired before, and are just those that fired meanwhile.\<close>

definition activated :: "graph \<Rightarrow> nat set \<Rightarrow> log \<Rightarrow> nat \<Rightarrow> 'v iteration \<times> tagged_node list \<Rightarrow> bool" where
  "activated g F L ops x \<longleftrightarrow> (case x of (st, ready) \<Rightarrow>
     cells g L (it_counts st) \<and> outstanding_ops st = ops + length ready \<and> outstanding_frame_count st = 0 \<and>
     distinct (map t_node ready) \<and> set (map t_node ready) \<inter> F = {} \<and> F \<union> set (map t_node ready) = fired g L \<and>
     list_all (\<lambda>t. input_frame t = [] \<and> input_iter t = 0) ready)"

lemma activated_edge:
  assumes g: "plain_graph g rank" and L: "log_ok g (L @ [(e, a)])" and item: "item < length (nodes g)"
    and a: "a = \<lparr>ev_src_dead = sd, ev_control = IsControlEdge e, ev_value = (\<not> IsControlEdge e \<and> slot_value outputs e \<noteq> None)\<rparr>"
    and x: "activated g F L ops x"
  shows "activated g F (L @ [(e, a)]) ops (activate_edge (one_frame g) [] 0 item sd outputs e x)"
proof -
  obtain st ready where xs: "x = (st, ready)" by (cases x)
  let ?v = "dst e" and ?hs = "pending_id (one_frame g)" and ?L' = "L @ [(e, a)]"
  note facts = one_frame_facts [OF g]
  have e: "e \<in> set (edges g)" and L0: "log_ok g L" using L by (auto simp: log_ok_def)
  have v: "?v < length (nodes g)" using plain_edge [OF g e] by simp
  have others: "arrivals ?L' u = arrivals L u" if "u \<noteq> ?v" for u using that by (simp add: arrivals_snoc)
  show ?thesis
  proof (cases "is_sink (nodes g ! ?v)")
    case True
    then have "fired g ?L' = fired g L" by (auto simp: fired_def) (metis others)+
    moreover have "cells g ?L' (it_counts st)" using x True by (auto simp: activated_def xs cells_def) (metis others)
    ultimately show ?thesis using x True by (simp add: activated_def xs activate_edge_def facts(1))
  next
    case False
    let ?d = "nodes g ! ?v"
    obtain dd rd ni bs where del: "deliver ?d (?hs ! ?v) False sd (IsControlEdge e) (\<not> IsControlEdge e \<and> slot_value outputs e \<noteq> None) (it_counts st) = (dd, rd, ni, bs)"
      using prod_cases4 by blast
    have cs: "cells g L (it_counts st)" using x by (simp add: activated_def xs)
    have tab: "in_table (?hs ! ?v) (it_counts st)" using cs facts(4) v by (auto simp: cells_def in_table_def)
    have inv: "cell_inv ?d (control_inputs g ?v) (data_inputs g ?v) (arrivals L ?v) (counts_of (?hs ! ?v) (it_counts st))"
      using cs v False by (simp add: cells_def)
    have shape: "node_shape ?d (control_inputs g ?v) (data_inputs g ?v)"
      using plain_nodeD [OF g v] by (simp add: node_shape_def plain_node_def)
    have new: "arrivals ?L' ?v = arrivals L ?v @ [a]" by (simp add: arrivals_snoc)
    have ev: "cell_inv ?d (control_inputs g ?v) (data_inputs g ?v) (arrivals ?L' ?v) (counts_of (?hs ! ?v) bs) \<and>
        (rd \<longleftrightarrow> node_complete g ?L' ?v \<and> \<not> node_complete g L ?v)"
      using deliver_event [OF tab inv shape _ a _ _ del] facts(4) v arrivals_bounds [OF L, of ?v] unfolding new by simp
    have cs': "cells g ?L' bs"
      using cs ev deliver_frame [OF del] facts(5) v unfolding cells_def by (metis others)
    have keep: "node_complete g ?L' ?v" if "node_complete g L ?v"
      using complete_mono [OF that, of a] arrivals_bounds [OF L, of ?v] unfolding new by simp
    have fired: "fired g ?L' = fired g L \<union> (if rd then {?v} else {})" and fresh: "rd \<Longrightarrow> ?v \<notin> fired g L"
      using ev v False keep by (auto simp: fired_def) (metis others)+
    have act: "\<exists>st' t. activate_edge (one_frame g) [] 0 item sd outputs e x = (st', ready @ (if rd then [t] else [])) \<and>
        it_counts st' = bs \<and> outstanding_ops st' = outstanding_ops st + of_bool rd \<and> outstanding_frame_count st' = outstanding_frame_count st \<and>
        t_node t = ?v \<and> input_frame t = [] \<and> input_iter t = 0"
    proof -
      have "\<not> is_enter (nodes g ! item)" using plain_nodeD [OF g item] by (simp add: plain_node_def)
      then show ?thesis using False del
        by (cases rd; cases ni) (auto simp: xs activate_edge_def facts(1) Let_def intro: exI [of _ "\<lparr>t_node = ?v, input_frame = [], input_iter = 0, is_dead = False\<rparr>"])
    qed
    then obtain st' t where t: "activate_edge (one_frame g) [] 0 item sd outputs e x = (st', ready @ (if rd then [t] else []))"
      "it_counts st' = bs" "outstanding_ops st' = outstanding_ops st + of_bool rd" "outstanding_frame_count st' = outstanding_frame_count st"
      "t_node t = ?v" "input_frame t = []" "input_iter t = 0" by blast
    define R where "R = set (map t_node ready)"
    have R: "R \<inter> F = {}" "F \<union> R = fired g L" "distinct (map t_node ready)" using x by (auto simp: activated_def xs R_def)
    have "?v \<notin> F" "?v \<notin> R" if rd using fresh [OF that] R(2) by auto
    then show ?thesis using x cs' fired R unfolding t(1) activated_def
      by (cases rd) (auto simp: xs t R_def [symmetric] image_iff)
  qed
qed

definition arrival_of :: "bool \<Rightarrow> 'v option list \<Rightarrow> edge \<Rightarrow> arrival" where
  "arrival_of sd outputs e = \<lparr>ev_src_dead = sd, ev_control = IsControlEdge e, ev_value = (\<not> IsControlEdge e \<and> slot_value outputs e \<noteq> None)\<rparr>"

definition log_node :: "graph \<Rightarrow> bool \<Rightarrow> 'v option list \<Rightarrow> nat \<Rightarrow> log" where
  "log_node g sd outputs n = map (\<lambda>e. (e, arrival_of sd outputs e)) (out_edges g n)"

lemma log_ok_prefix: "log_ok g (L @ L') \<Longrightarrow> log_ok g L"
  by (auto simp: log_ok_def)

lemma activated_edges:
  assumes g: "plain_graph g rank" and item: "item < length (nodes g)"
    and L: "log_ok g (L @ map (\<lambda>e. (e, arrival_of sd outputs e)) es)" and x: "activated g F L ops x"
  shows "activated g F (L @ map (\<lambda>e. (e, arrival_of sd outputs e)) es) ops (fold (activate_edge (one_frame g) [] 0 item sd outputs) es x)"
  using L x
proof (induction es arbitrary: L x)
  case (Cons e es)
  have "log_ok g (L @ [(e, arrival_of sd outputs e)])"
    using log_ok_prefix [of g "L @ [(e, arrival_of sd outputs e)]" "map (\<lambda>e. (e, arrival_of sd outputs e)) es"] Cons.prems by simp
  then have "activated g F (L @ [(e, arrival_of sd outputs e)]) ops (activate_edge (one_frame g) [] 0 item sd outputs e x)"
    by (rule activated_edge [OF g _ item arrival_of_def Cons.prems(2)])
  then show ?case using Cons.IH [of "L @ [(e, arrival_of sd outputs e)]"] Cons.prems by simp
qed simp

lemma log_ok_node:
  assumes "plain_graph g rank" "log_ok g L" "\<forall>e \<in> set (map fst L). src e \<noteq> n"
  shows "log_ok g (L @ log_node g sd outputs n)"
  using assms by (auto simp: log_ok_def log_node_def comp_def out_edges_def arrival_of_def plain_graph_def)

subsection \<open>The root frame\<close>

definition root_frame :: "'v frame \<Rightarrow> 'v iteration \<Rightarrow> bool" where
  "root_frame fr it \<longleftrightarrow> frame_name fr = [] \<and> parent_frame fr = None \<and> num_pending_inputs fr = 0 \<and> iteration_count fr = 0 \<and>
     num_outstanding_iterations fr = 1 \<and> iterations fr = [Some it] \<and> next_iter_roots fr = []"

lemma root_frame_access:
  assumes "root_frame fr it"
  shows "GetIteration fr 0 = Some it" "root_frame (SetIteration 0 (Some it') fr) it'"
  using assms by (simp_all add: root_frame_def GetIteration_def SetIteration_def)

lemma cleanup_root:
  assumes "root_frame fr it" "outstanding_ops it = 0" "outstanding_frame_count it = 0"
  shows "\<exists>fr'. CleanupIterations im 0 (fr, ready) = Some (True, fr', ready) \<and> frame_name fr' = [] \<and> parent_frame fr' = None"
proof -
  let ?fr = "(SetIteration 0 None fr)\<lparr>num_outstanding_iterations := num_outstanding_iterations (SetIteration 0 None fr) - 1\<rparr>"
  have "CleanupIterations im (0 + 1) (?fr, ready) = Some (True, ?fr, ready)"
    using assms(1) by (subst CleanupIterations.simps) (simp add: SetIteration_def root_frame_def IsFrameDone_def)
  moreover have "IsIterationDone fr 0 = Some True" using assms root_frame_access [OF assms(1)]
    by (simp add: IsIterationDone_def root_frame_def)
  moreover have "next_iter_roots ?fr = []" using assms(1) by (simp add: SetIteration_def root_frame_def)
  ultimately have "CleanupIterations im 0 (fr, ready) = Some (True, ?fr, ready)"
    by (subst CleanupIterations.simps) (simp add: Let_def)
  then show ?thesis using assms(1) by (simp add: SetIteration_def root_frame_def)
qed

text \<open>
  What \<^verbatim>\<open>PropagateOutputs\<close> does in the root frame. With \<open>k\<close> operations outstanding before, the node itself among them, the
  frame goes away if none is left and nothing became ready.
\<close>

lemma propagate_root:
  fixes st :: "('v, 's, 'e) exec_state"
  assumes g: "plain_graph g rank" and t: "t_node t < length (nodes g)" "input_frame t = []" "input_iter t = 0"
    and fr: "outstanding_frames st = [([], fr)]" "root_frame fr it"
    and act: "activated g F L (outstanding_ops it) (it, [])" and pos: "0 < outstanding_ops it"
    and L: "log_ok g (L @ log_node g (is_dead t) outputs (t_node t))"
  shows "\<exists>st' ready. PropagateOutputs (one_frame g) t outputs st = Some (st', ready) \<and>
    st' = st\<lparr>outstanding_frames := outstanding_frames st'\<rparr> \<and>
    distinct (map t_node ready) \<and> set (map t_node ready) \<inter> F = {} \<and>
    F \<union> set (map t_node ready) = fired g (L @ log_node g (is_dead t) outputs (t_node t)) \<and>
    list_all (\<lambda>t. input_frame t = [] \<and> input_iter t = 0) ready \<and>
    (if outstanding_ops it = 1 \<and> ready = [] then outstanding_frames st' = []
     else \<exists>fr' it'. outstanding_frames st' = [([], fr')] \<and> root_frame fr' it' \<and>
       cells g (L @ log_node g (is_dead t) outputs (t_node t)) (it_counts it') \<and>
       outstanding_ops it' = outstanding_ops it + length ready - 1 \<and> outstanding_frame_count it' = 0)"
proof -
  let ?im = "one_frame g" and ?L = "L @ log_node g (is_dead t) outputs (t_node t)"
  note facts = one_frame_facts [OF g]
  obtain it1 ready where fold: "fold (activate_edge ?im [] 0 (t_node t) (is_dead t) outputs) (out_edges g (t_node t)) (it, []) = (it1, ready)"
    by fastforce
  have a: "activated g F ?L (outstanding_ops it) (it1, ready)"
    using activated_edges [OF g t(1) _ act, of "is_dead t" outputs "out_edges g (t_node t)"] L fold by (simp add: log_node_def)
  have name: "frame_name fr = []" using fr(2) by (simp add: root_frame_def)
  have AN: "ActivateNodes ?im (t_node t) (is_dead t) 0 outputs (fr, []) = Some (SetIteration 0 (Some it1) fr, ready)"
    using root_frame_access(1) [OF fr(2)] fold name by (simp add: ActivateNodes_def facts(1))
  define fr1 where "fr1 = SetIteration 0 (Some it1) fr"
  define it2 where "it2 = it1\<lparr>outstanding_ops := outstanding_ops it1 - 1\<rparr>"
  define fr2 where "fr2 = SetIteration 0 (Some it2) fr1"
  have r1: "root_frame fr1 it1" and r2: "root_frame fr2 it2"
    unfolding fr1_def fr2_def using root_frame_access(2) fr(2) by blast+
  have ops: "outstanding_ops it1 = outstanding_ops it + length ready" using a by (simp add: activated_def)
  have normal: "\<not> (is_enter (nodes g ! t_node t) \<or> is_exit (nodes g ! t_node t) \<or> is_next_iteration (nodes g ! t_node t))"
    using plain_nodeD [OF g t(1)] by (simp add: plain_node_def)
  have find: "find_frame [] st = Some fr" using fr(1) by (simp add: find_frame_def)
  show ?thesis
  proof (cases "outstanding_ops it = 1 \<and> ready = []")
    case True
    then have "outstanding_ops it2 = 0" "outstanding_frame_count it2 = 0" using ops a by (simp_all add: it2_def activated_def)
    then obtain fr3 where fr3: "CleanupIterations ?im 0 (fr2, ready) = Some (True, fr3, ready)" "frame_name fr3 = []" "parent_frame fr3 = None"
      using cleanup_root [OF r2] by blast
    have "DecrementOutstandingOps ?im 0 (fr1, ready) = Some (True, fr3, ready)"
      using root_frame_access(1) [OF r1] fr3(1) ops True by (simp add: DecrementOutstandingOps_def it2_def fr2_def)
    then have "PropagateOutputs ?im t outputs st = Some (erase_frame [] (set_frame fr3 st), ready)"
      using find t normal AN fr3 by (simp add: PropagateOutputs_def propagate_normal_def facts(1) fr1_def DeleteFrame_def)
    moreover have "erase_frame [] (set_frame fr3 st) = st\<lparr>outstanding_frames := []\<rparr>"
      using fr(1) fr3(2) by (simp add: erase_frame_def set_frame_def)
    ultimately show ?thesis using True a by (auto simp: activated_def)
  next
    case False
    then have "outstanding_ops it1 - 1 \<noteq> 0" using ops pos by (cases ready) auto
    then have "DecrementOutstandingOps ?im 0 (fr1, ready) = Some (False, fr2, ready)"
      using root_frame_access(1) [OF r1] by (simp add: DecrementOutstandingOps_def it2_def fr2_def)
    then have "PropagateOutputs ?im t outputs st = Some (set_frame fr2 st, ready)"
      using find t normal AN by (simp add: PropagateOutputs_def propagate_normal_def facts(1) fr1_def)
    moreover have "set_frame fr2 st = st\<lparr>outstanding_frames := [([], fr2)]\<rparr>"
      using fr(1) r2 by (simp add: set_frame_def root_frame_def)
    ultimately show ?thesis using False a r2 ops pos
      by (intro exI [of _ "set_frame fr2 st"] exI [of _ ready]) (auto simp: activated_def it2_def)
  qed
qed

subsection \<open>The invariant of a run\<close>

text \<open>\<open>L\<close> is the log of the edges that have arrived, \<open>fl\<close> the nodes whose kernel failed.\<close>

definition root_present :: "graph \<Rightarrow> log \<Rightarrow> nat list \<Rightarrow> ('v, 's, 'e) exec_state \<Rightarrow> bool" where
  "root_present g L fl st \<longleftrightarrow> (\<exists>fr it. outstanding_frames st = [([], fr)] \<and> root_frame fr it \<and> cells g L (it_counts it) \<and>
     outstanding_ops it = length (scheduled st) + length fl \<and> outstanding_frame_count it = 0)"

definition run_order :: "graph \<Rightarrow> tagged_node list \<Rightarrow> bool" where
  "run_order g ts \<longleftrightarrow> (\<forall>i < length ts. \<not> is_merge (nodes g ! t_node (ts ! i)) \<longrightarrow>
     (\<forall>e \<in> set (in_edges g (t_node (ts ! i))). src e \<in> t_node ` set (take i ts)))"

definition run_inv :: "graph \<Rightarrow> log \<Rightarrow> nat list \<Rightarrow> ('v, 's, 'e) exec_state \<Rightarrow> bool" where
  "run_inv g L fl st \<longleftrightarrow> log_ok g L \<and>
     list_all (\<lambda>t. input_frame t = [] \<and> input_iter t = 0) (scheduled st @ ran st) \<and>
     distinct (map t_node (scheduled st @ ran st)) \<and> set (map t_node (scheduled st @ ran st)) = fired g L \<and>
     set (map fst L) = {e \<in> set (edges g). src e \<in> t_node ` set (ran st) - set fl} \<and>
     set fl \<subseteq> t_node ` set (ran st) \<and>
     num_outstanding_ops st = int (length (scheduled st)) \<and> finished st = (scheduled st = []) \<and> (status st = None) = (fl = []) \<and>
     (scheduled st \<noteq> [] \<or> fl \<noteq> [] \<longrightarrow> root_present g L fl st) \<and>
     (scheduled st = [] \<and> fl = [] \<and> ran st \<noteq> [] \<longrightarrow> outstanding_frames st = []) \<and> run_order g (ran st)"

lemma fired_Nil: "plain_graph g rank \<Longrightarrow> fired g [] = {v. v < length (nodes g) \<and> in_edges g v = []}"
proof -
  assume g: "plain_graph g rank"
  have "node_complete g [] v \<longleftrightarrow> in_edges g v = []" for v
    using in_degree [of g v] by (auto simp: complete_def arrivals_def simp flip: length_0_conv)
  then show ?thesis using plain_nodeD [OF g] by (auto simp: fired_def plain_node_def)
qed

lemma run_inv_init:
  assumes g: "plain_graph g rank"
  shows "run_inv g [] [] (RunAsync (one_frame g) dev :: ('v, 's, 'e) exec_state)"
proof -
  note facts = one_frame_facts [OF g]
  let ?st = "RunAsync (one_frame g) dev :: ('v, 's, 'e) exec_state"
  have sched: "scheduled ?st = map (\<lambda>n. \<lparr>t_node = n, input_frame = [], input_iter = 0, is_dead = False\<rparr>) (filter (\<lambda>n. in_edges g n = []) [0..<length (nodes g)])"
    by (simp add: RunAsync_def Let_def facts(2))
  have "cells g [] (table g)" using facts(4) by (simp add: cells_def arrivals_def)
  then have "root_present g [] [] ?st"
    unfolding root_present_def sched
    by (auto simp: RunAsync_def new_frame_def Let_def facts(2,3) root_frame_def IterationState_def table_def)
  moreover have "ran ?st = []" "status ?st = None" "num_outstanding_ops ?st = int (length (scheduled ?st))" "finished ?st = (scheduled ?st = [])"
    by (simp_all add: RunAsync_def Let_def)
  moreover have "set (map t_node (scheduled ?st)) = fired g []" "distinct (map t_node (scheduled ?st))"
    "list_all (\<lambda>t. input_frame t = [] \<and> input_iter t = 0) (scheduled ?st)"
    unfolding sched using fired_Nil [OF g] by (auto simp: comp_def list_all_iff)
  ultimately show ?thesis by (simp add: run_inv_def log_ok_def run_order_def)
qed

lemma run_order_snoc:
  "run_order g ts \<Longrightarrow> (\<not> is_merge (nodes g ! t_node t) \<Longrightarrow> \<forall>e \<in> set (in_edges g (t_node t)). src e \<in> t_node ` set ts) \<Longrightarrow> run_order g (ts @ [t])"
  by (auto simp: run_order_def less_Suc_eq nth_append)

text \<open>A step of the executor never goes through a null pointer and keeps the invariant.\<close>

lemma remove1_split: "t \<in> set ts \<Longrightarrow> distinct (map f ts) \<Longrightarrow>
  distinct (map f (remove1 t ts)) \<and> set (map f (remove1 t ts)) = set (map f ts) - {f t} \<and> length ts = Suc (length (remove1 t ts))"
proof (induction ts)
  case (Cons x ts)
  then show ?case by (cases "x = t") auto
qed simp

lemma run_invD:
  assumes "run_inv g L fl st"
  shows "log_ok g L" "list_all (\<lambda>t. input_frame t = [] \<and> input_iter t = 0) (scheduled st @ ran st)"
    "distinct (map t_node (scheduled st @ ran st))" "set (map t_node (scheduled st @ ran st)) = fired g L"
    "set (map fst L) = {e \<in> set (edges g). src e \<in> t_node ` set (ran st) - set fl}" "set fl \<subseteq> t_node ` set (ran st)"
    "num_outstanding_ops st = int (length (scheduled st))" "finished st = (scheduled st = [])" "(status st = None) = (fl = [])"
    "scheduled st \<noteq> [] \<or> fl \<noteq> [] \<longrightarrow> root_present g L fl st"
    "scheduled st = [] \<and> fl = [] \<and> ran st \<noteq> [] \<longrightarrow> outstanding_frames st = []" "run_order g (ran st)"
  using assms unfolding run_inv_def by blast+

lemma run_invI:
  assumes "log_ok g L" "list_all (\<lambda>t. input_frame t = [] \<and> input_iter t = 0) (scheduled st @ ran st)"
    "distinct (map t_node (scheduled st @ ran st))" "set (map t_node (scheduled st @ ran st)) = fired g L"
    "set (map fst L) = {e \<in> set (edges g). src e \<in> t_node ` set (ran st) - set fl}" "set fl \<subseteq> t_node ` set (ran st)"
    "num_outstanding_ops st = int (length (scheduled st))" "finished st = (scheduled st = [])" "(status st = None) = (fl = [])"
    "scheduled st \<noteq> [] \<or> fl \<noteq> [] \<Longrightarrow> root_present g L fl st"
    "scheduled st = [] \<Longrightarrow> fl = [] \<Longrightarrow> outstanding_frames st = []" "run_order g (ran st)"
  shows "run_inv g L fl st"
  using assms unfolding run_inv_def by blast

lemma run_inv_step:
  fixes st :: "('v, 's, 'e) exec_state"
  assumes g: "plain_graph g rank" and inv: "run_inv g L fl st" and t: "t \<in> set (scheduled st)" and s: "s = None \<or> status st \<noteq> None"
  shows "\<exists>st' L' fl'. Process compute (one_frame g) s t st = Some st' \<and> run_inv g L' fl' st' \<and> ran st' = ran st @ [t] \<and>
    ((\<forall>n ins s. \<not> isl (fst (compute n ins s))) \<and> fl = [] \<longrightarrow> fl' = [])"
proof -
  let ?im = "one_frame g" and ?v = "t_node t" and ?S = "remove1 t (scheduled st)"
  note facts = one_frame_facts [OF g]
  note I = run_invD [OF inv]
  obtain fr it where fr: "outstanding_frames st = [([], fr)]" "root_frame fr it" and cs: "cells g L (it_counts it)"
    and ops: "outstanding_ops it = length (scheduled st) + length fl" "outstanding_frame_count it = 0"
    using I(10) t unfolding root_present_def by (metis empty_iff empty_set)
  have tag: "input_frame t = []" "input_iter t = 0" using I(2) t by (simp_all add: list_all_iff)
  have v: "?v \<in> fired g L" using I(4) t by auto
  then have vN: "?v < length (nodes g)" by (simp add: fired_def)
  note L = I(1)
  have dist: "distinct (map t_node (scheduled st))" "distinct (map t_node (ran st))"
    "set (map t_node (scheduled st)) \<inter> set (map t_node (ran st)) = {}" using I(3) by auto
  note S = remove1_split [OF t dist(1)]
  have new: "?v \<notin> t_node ` set (ran st)" using dist(3) t by auto
  have order: "run_order g (ran st @ [t])"
  proof (rule run_order_snoc)
    show "run_order g (ran st)" by (rule I(12))
    assume "\<not> is_merge (nodes g ! ?v)"
    then have "set (in_edges g ?v) \<subseteq> set (map fst L)" using complete_all_arrived [OF L] v by (simp add: fired_def)
    then show "\<forall>e \<in> set (in_edges g ?v). src e \<in> t_node ` set (ran st)" using I(5) by blast
  qed
  obtain result dev where res: "(if is_dead t \<and> \<not> is_transfer (nodes g ! ?v) then (case s of None \<Rightarrow> Inr (replicate (num_outputs (nodes g ! ?v)) None) | Some e \<Rightarrow> Inl e, device st)
      else compute ?v (take (num_inputs (nodes g ! ?v)) (drop (input_start ?im ! ?v) (input_tensors it))) (device st)) = (result, dev)"
    by fastforce
  define it1 where "it1 = it\<lparr>input_tensors := clear_inputs (input_start ?im ! ?v) (num_inputs (nodes g ! ?v)) (input_tensors it)\<rparr>"
  define fr1 where "fr1 = SetIteration 0 (Some it1) fr"
  define st1 where "st1 = (set_frame fr1 st)\<lparr>device := dev, scheduled := ?S, ran := ran st @ [t]\<rparr>"
  have r1: "root_frame fr1 it1" unfolding fr1_def by (rule root_frame_access(2) [OF fr(2)])
  have st1: "outstanding_frames st1 = [([], fr1)]" "scheduled st1 = ?S" "ran st1 = ran st @ [t]" "finished st1 = finished st"
    "status st1 = status st" "num_outstanding_ops st1 = num_outstanding_ops st"
    using fr(1) r1 by (simp_all add: st1_def set_frame_def root_frame_def)
  have it1: "cells g L (it_counts it1)" "outstanding_ops it1 = outstanding_ops it" "outstanding_frame_count it1 = 0"
    using cs ops by (simp_all add: it1_def)
  have P: "Process compute ?im s t st = (case result of
       Inl e \<Rightarrow> Some (NodeDone (Some e) [] st1)
     | Inr outputs \<Rightarrow> Option.bind (PropagateOutputs ?im t outputs st1) (\<lambda>(st2, ready). Some (NodeDone None ready st2)))"
    using fr(1) tag root_frame_access(1) [OF fr(2)] res
    by (intro Process_unfold [of t st fr it ?im s compute result dev fr1]) (simp_all only: find_frame_def facts(1) it1_def fr1_def st1_def map_of.simps fun_upd_same fst_conv snd_conv)
  have tags: "list_all (\<lambda>t. input_frame t = [] \<and> input_iter t = 0) (?S @ ran st @ [t])"
    using I(2) tag set_remove1_subset [of t "scheduled st"] by (auto simp: list_all_iff)
  have all: "set (map t_node (?S @ ran st @ [t])) = fired g L" "distinct (map t_node (?S @ ran st @ [t]))"
    using S dist I(4) t new by auto
  show ?thesis
  proof (cases result)
    case (Inl e)
    have err: "fl \<noteq> [] \<or> isl (fst (compute ?v (take (num_inputs (nodes g ! ?v)) (drop (input_start ?im ! ?v) (input_tensors it))) (device st)))"
      using res Inl s I(9) by (auto split: if_splits option.splits)
    let ?st = "NodeDone (Some e) [] st1"
    have fin: "scheduled ?st = ?S" "ran ?st = ran st @ [t]" "outstanding_frames ?st = [([], fr1)]" "status ?st \<noteq> None"
      "num_outstanding_ops ?st = int (length ?S)" "finished ?st = (?S = [])"
      using I(7,8) t st1 S by (auto simp: NodeDone_def Let_def)
    have "run_inv g L (?v # fl) ?st"
    proof (rule run_invI)
      show "root_present g L (?v # fl) ?st" unfolding root_present_def using st1 r1 it1 S ops by (auto simp: fin)
      show "set (map fst L) = {e \<in> set (edges g). src e \<in> t_node ` set (ran ?st) - set (?v # fl)}" using I(5) new by (auto simp: fin)
      show "set (?v # fl) \<subseteq> t_node ` set (ran ?st)" using I(6) by (auto simp: fin)
    qed (use L tags all order fin in simp_all)
    then show ?thesis using P Inl err by (fastforce simp: NodeDone_def Let_def st1)
  next
    case (Inr outputs)
    let ?L = "L @ log_node g (is_dead t) outputs ?v"
    have srcs: "\<forall>e \<in> set (map fst L). src e \<noteq> ?v" using new by (metis (no_types, lifting) I(5) DiffD1 mem_Collect_eq)
    have L': "log_ok g ?L" by (rule log_ok_node [OF g L srcs])
    have act: "activated g (fired g L) L (outstanding_ops it1) (it1, [])" using it1 by (simp add: activated_def)
    have pos: "0 < outstanding_ops it1" using it1 ops S by simp
    obtain st2 ready where pr: "PropagateOutputs ?im t outputs st1 = Some (st2, ready)" "st2 = st1\<lparr>outstanding_frames := outstanding_frames st2\<rparr>"
      "distinct (map t_node ready)" "set (map t_node ready) \<inter> fired g L = {}" "fired g L \<union> set (map t_node ready) = fired g ?L"
      "list_all (\<lambda>t. input_frame t = [] \<and> input_iter t = 0) ready"
      and frames: "if outstanding_ops it1 = 1 \<and> ready = [] then outstanding_frames st2 = []
        else \<exists>fr' it'. outstanding_frames st2 = [([], fr')] \<and> root_frame fr' it' \<and> cells g ?L (it_counts it') \<and>
          outstanding_ops it' = outstanding_ops it1 + length ready - 1 \<and> outstanding_frame_count it' = 0"
      using propagate_root [OF g vN tag st1(1) r1 act pos L'] by blast
    have st2: "scheduled st2 = ?S" "ran st2 = ran st @ [t]" "finished st2 = finished st" "status st2 = status st"
      "num_outstanding_ops st2 = num_outstanding_ops st"
      by (subst pr(2); simp add: st1)+
    let ?st = "NodeDone None ready st2"
    have fin: "scheduled ?st = ?S @ ready" "ran ?st = ran st @ [t]" "outstanding_frames ?st = outstanding_frames st2"
      "status ?st = status st" "num_outstanding_ops ?st = int (length (?S @ ready))" "finished ?st = (?S @ ready = [])"
      using I(7,8) t st2 S by (auto simp: NodeDone_def Let_def)
    have edges: "set (map fst ?L) = {e \<in> set (edges g). src e \<in> t_node ` set (ran st @ [t]) - set fl}"
      using I(5,6) new by (auto simp: log_node_def out_edges_def)
    have "outstanding_ops it1 = 1 \<and> ready = [] \<longleftrightarrow> ?S @ ready = [] \<and> fl = []" using it1 ops S by auto
    then have present: "?S @ ready \<noteq> [] \<or> fl \<noteq> [] \<longrightarrow> root_present g ?L fl ?st" and gone: "?S @ ready = [] \<and> fl = [] \<longrightarrow> outstanding_frames ?st = []"
      using frames it1 ops S unfolding root_present_def fin by auto
    have "run_inv g ?L fl ?st"
    proof (rule run_invI)
      show "log_ok g ?L" by (rule L')
      show "list_all (\<lambda>t. input_frame t = [] \<and> input_iter t = 0) (scheduled ?st @ ran ?st)" using tags pr(6) by (simp add: fin)
      show "distinct (map t_node (scheduled ?st @ ran ?st))" "set (map t_node (scheduled ?st @ ran ?st)) = fired g ?L"
        using all pr(3,4,5) by (auto simp: fin)
      show "set (map fst ?L) = {e \<in> set (edges g). src e \<in> t_node ` set (ran ?st) - set fl}" unfolding fin by (rule edges)
      show "set fl \<subseteq> t_node ` set (ran ?st)" using I(6) by (auto simp: fin)
    qed (use I(9) fin present gone order in simp_all)
    then show ?thesis using P Inr pr(1) fin(2) by auto
  qed
qed

subsection \<open>Runs\<close>

abbreviation runs_to :: "('v, 's, 'e) kernels \<Rightarrow> graph \<Rightarrow> ('v, 's, 'e) exec_state \<Rightarrow> ('v, 's, 'e) exec_state \<Rightarrow> bool" where
  "runs_to compute g \<equiv> (exec_step compute (one_frame g))\<^sup>*\<^sup>*"

definition never_fails :: "('v, 's, 'e) kernels \<Rightarrow> bool" where
  "never_fails compute \<longleftrightarrow> (\<forall>n ins s. \<not> isl (fst (compute n ins s)))"

lemma run_inv_reachable:
  assumes g: "plain_graph g rank" and run: "runs_to compute g (RunAsync (one_frame g) dev) st"
  shows "\<exists>L fl. run_inv g L fl st \<and> (never_fails compute \<longrightarrow> fl = [])"
  using run
proof (induction rule: rtranclp_induct)
  case base
  show ?case by (intro exI conjI impI) (rule run_inv_init [OF g], rule refl)
next
  case (step st st')
  then obtain L fl where inv: "run_inv g L fl st" "never_fails compute \<longrightarrow> fl = []" by blast
  from step.hyps(2) show ?case
  proof (cases rule: exec_step.cases)
    case (step t s)
    then show ?thesis using run_inv_step [OF g inv(1) step(1,2), of compute] inv(2) unfolding never_fails_def
      by (metis option.inject)
  qed
qed

lemma ran_bound:
  assumes "run_inv g L fl st"
  shows "set (map t_node (ran st)) \<subseteq> {v. v < length (nodes g) \<and> \<not> is_sink (nodes g ! v)}"
    "distinct (map t_node (ran st))" "length (ran st) \<le> length (nodes g)"
proof -
  show sub: "set (map t_node (ran st)) \<subseteq> {v. v < length (nodes g) \<and> \<not> is_sink (nodes g ! v)}"
    using run_invD(4) [OF assms] by (auto simp: fired_def)
  show dist: "distinct (map t_node (ran st))" using run_invD(3) [OF assms] by simp
  have "length (ran st) = card (set (map t_node (ran st)))" using distinct_card [OF dist] by simp
  also have "\<dots> \<le> card {0..<length (nodes g)}" using sub by (intro card_mono) auto
  finally show "length (ran st) \<le> length (nodes g)" by simp
qed

lemma run_to_end:
  assumes g: "plain_graph g rank" and inv: "run_inv g L fl st"
  shows "\<exists>st' L' fl'. runs_to compute g st st' \<and> run_inv g L' fl' st' \<and> scheduled st' = []"
  using inv
proof (induction "length (nodes g) - length (ran st)" arbitrary: st L fl rule: less_induct)
  case less
  show ?case
  proof (cases "scheduled st")
    case (Cons t ts)
    then have t: "t \<in> set (scheduled st)" by simp
    from run_inv_step [OF g less.prems t, of None] obtain st' L' fl' where
      st': "Process compute (one_frame g) None t st = Some st'" "run_inv g L' fl' st'" "ran st' = ran st @ [t]" by metis
    have "length (nodes g) - length (ran st') < length (nodes g) - length (ran st)"
      using ran_bound(3) [OF st'(2)] st'(3) by simp
    from less.hyps [OF this st'(2)] exec_step.step [OF t _ st'(1)] show ?thesis
      by (metis converse_rtranclp_into_rtranclp)
  qed (use less.prems in blast)
qed

text \<open>
  When nothing is scheduled any more and no kernel failed, every node has fired: along the rank, all edges into a node have
  arrived.
\<close>

lemma all_fired:
  assumes g: "plain_graph g rank" and inv: "run_inv g L [] st" and empty: "scheduled st = []"
  shows "v < length (nodes g) \<Longrightarrow> \<not> is_sink (nodes g ! v) \<Longrightarrow> v \<in> t_node ` set (ran st)"
proof (induction "rank v" arbitrary: v rule: less_induct)
  case less
  note I = run_invD [OF inv]
  have "e \<in> set (map fst L)" if "e \<in> set (in_edges g v)" for e
  proof -
    have e: "e \<in> set (edges g)" "dst e = v" using that by (auto simp: in_edges_def)
    then show ?thesis using less.hyps [of "src e"] plain_edge [OF g e(1)] unfolding I(5) by simp
  qed
  then have "node_complete g L v" using g by (intro all_arrived_complete [OF I(1)]) (auto simp: plain_graph_def)
  then have "v \<in> fired g L" using less.prems by (simp add: fired_def)
  then show ?case using I(4) empty by auto
qed

subsection \<open>The properties of the executor\<close>

text \<open>
  C5: On any graph, loops included, and in any order of processing, the counter of outstanding nodes is the number of scheduled
  nodes in every reachable state, and the executor has reported the end of the step exactly when none is left.
\<close>

theorem executor_accounting:
  assumes "(exec_step compute im)\<^sup>*\<^sup>* (RunAsync im dev) st"
  shows "num_outstanding_ops st = int (length (scheduled st)) \<and> (finished st \<longleftrightarrow> scheduled st = [])"
proof -
  have "accounted st" using assms
    by (induction rule: rtranclp_induct) (auto simp: accounted_def RunAsync_def Let_def dest: accounted_step [unfolded accounted_def])
  then show ?thesis by (simp add: accounted_def)
qed

text \<open>
  C6: When the kernel of a node that is not dead returns an error, none of the successors of the node is activated, the executor goes
  on, and the status of the step is this error, or the earlier one if there was one, until the end of the run.
\<close>

theorem kernel_error_is_final:
  assumes "find_frame (input_frame t) st = Some fr" "GetIteration fr (input_iter t) = Some it" "\<not> is_dead t"
    and "compute (t_node t) (take (num_inputs (nodes (impl_graph im) ! t_node t)) (drop (input_start im ! t_node t) (input_tensors it))) (device st) = (Inl e, dev)"
  shows "\<exists>st'. Process compute im s t st = Some st' \<and> scheduled st' = remove1 t (scheduled st) \<and>
    (\<forall>st''. (exec_step compute im)\<^sup>*\<^sup>* st' st'' \<longrightarrow> status st'' = Some (case status st of None \<Rightarrow> e | Some e0 \<Rightarrow> e0))"
proof -
  let ?st1 = "(set_frame (SetIteration (input_iter t) (Some (it\<lparr>input_tensors := clear_inputs (input_start im ! t_node t)
      (num_inputs (nodes (impl_graph im) ! t_node t)) (input_tensors it)\<rparr>)) fr) st)\<lparr>device := dev, scheduled := remove1 t (scheduled st), ran := ran st @ [t]\<rparr>"
  have P: "Process compute im s t st = Some (NodeDone (Some e) [] ?st1)"
    using Process_unfold [of t st fr it im s compute "Inl e" dev, OF assms(1,2) _ refl refl] assms(3,4) by simp
  have "status (NodeDone (Some e) [] ?st1) = Some (case status st of None \<Rightarrow> e | Some e0 \<Rightarrow> e0)"
    by (simp add: NodeDone_status set_frame_def split: option.splits)
  moreover have "scheduled (NodeDone (Some e) [] ?st1) = remove1 t (scheduled st)" by (simp add: NodeDone_def Let_def)
  ultimately show ?thesis using P status_run by metis
qed

text \<open>
  C2: In every run of the executor on a graph without loops, whatever the kernels return and in whatever order the scheduled
  nodes are taken, a node is processed at most once, the sink never, and a node that is no Merge only after all the nodes it
  has an edge from.
\<close>

theorem executor_order:
  assumes "plain_graph g rank" "runs_to compute g (RunAsync (one_frame g) dev) st"
  shows "distinct (map t_node (ran st)) \<and> set (map t_node (ran st)) \<subseteq> {v. v < length (nodes g) \<and> \<not> is_sink (nodes g ! v)} \<and>
    run_order g (ran st)"
  using run_inv_reachable [OF assms] ran_bound run_invD(12) by metis

text \<open>
  C3: On a graph without loops, no step of the executor goes through a null pointer, a run has at most as many steps as the graph
  has nodes, it can be continued until nothing is scheduled, and the executor reports that it has finished at just that moment.
\<close>

theorem executor_terminates:
  assumes "plain_graph g rank" "runs_to compute g (RunAsync (one_frame g) dev) st"
  shows "(\<forall>t \<in> set (scheduled st). \<forall>s. s = None \<or> status st \<noteq> None \<longrightarrow> Process compute (one_frame g) s t st \<noteq> None) \<and> length (ran st) \<le> length (nodes g) \<and>
    (\<exists>st'. runs_to compute g st st' \<and> scheduled st' = []) \<and> (finished st \<longleftrightarrow> scheduled st = [])"
proof -
  obtain L fl where inv: "run_inv g L fl st" using run_inv_reachable [OF assms] by blast
  have "\<forall>t \<in> set (scheduled st). \<forall>s. s = None \<or> status st \<noteq> None \<longrightarrow> Process compute (one_frame g) s t st \<noteq> None"
    using run_inv_step [OF assms(1) inv, of _ _ compute] by blast
  then show ?thesis using ran_bound(3) [OF inv] run_to_end [OF assms(1) inv, of compute] run_invD(8) [OF inv] by blast
qed

text \<open>
  C1: A run on a graph without loops that has come to its end with status OK has processed every node except the sink, each once,
  and has deleted the root frame; when no kernel fails, the status is OK.
\<close>

theorem executor_completes:
  assumes "plain_graph g rank" "runs_to compute g (RunAsync (one_frame g) dev) st" "scheduled st = []"
  shows "(status st = None \<longrightarrow> set (map t_node (ran st)) = {v. v < length (nodes g) \<and> \<not> is_sink (nodes g ! v)} \<and>
      distinct (map t_node (ran st)) \<and> (ran st \<noteq> [] \<longrightarrow> outstanding_frames st = [])) \<and>
    (never_fails compute \<longrightarrow> status st = None)"
proof -
  obtain L fl where inv: "run_inv g L fl st" "never_fails compute \<longrightarrow> fl = []" using run_inv_reachable [OF assms(1,2)] by blast
  note I = run_invD [OF inv(1)]
  have "set (map t_node (ran st)) = {v. v < length (nodes g) \<and> \<not> is_sink (nodes g ! v)}" if "fl = []"
    using all_fired [OF assms(1) _ assms(3)] inv(1) that ran_bound(1) [OF inv(1)] by auto
  then show ?thesis using ran_bound(2) [OF inv(1)] I(9,11) assms(3) inv(2) by auto
qed

definition sample_node :: "nat \<Rightarrow> gnode" where
  "sample_node n = \<lparr>is_merge = False, is_enter = False, is_constant_enter = False, is_exit = False, is_next_iteration = False,
     is_control_trigger = False, is_sink = False, is_transfer = False, num_inputs = n, num_outputs = 1, frame_attr = [], parallel_iterations = 0\<rparr>"

text \<open>A diamond: node 0 feeds 1 and 2, which feed the Merge node 3; a control edge goes from 1 to 2; node 4 is the sink.\<close>

definition diamond :: graph where
  "diamond = \<lparr>nodes = [sample_node 0, sample_node 1, sample_node 1, (sample_node 2)\<lparr>is_merge := True\<rparr>, (sample_node 0)\<lparr>is_sink := True\<rparr>],
     edges = [\<lparr>src = 0, src_output = 0, dst = 1, dst_input = 0\<rparr>, \<lparr>src = 0, src_output = 0, dst = 2, dst_input = 0\<rparr>,
       \<lparr>src = 1, src_output = -1, dst = 2, dst_input = 0\<rparr>, \<lparr>src = 1, src_output = 0, dst = 3, dst_input = 0\<rparr>,
       \<lparr>src = 2, src_output = 0, dst = 3, dst_input = 1\<rparr>, \<lparr>src = 3, src_output = -1, dst = 4, dst_input = 0\<rparr>]\<rparr>"

definition sum_kernels :: "(nat, unit, unit) kernels" where
  "sum_kernels n ins s = (Inr [Some (1 + sum_list (map (\<lambda>x. case x of None \<Rightarrow> 0 | Some y \<Rightarrow> y) ins))], s)"

lemma diamond_plain: "plain_graph diamond (\<lambda>n. n)"
  by (simp add: plain_graph_def plain_node_def diamond_def sample_node_def in_edges_def data_inputs_def IsControlEdge_def kControlSlot_def)

lemma sum_kernels_fine: "never_fails sum_kernels"
  by (simp add: never_fails_def sum_kernels_def)

text \<open>A run of the diamond to its end.\<close>

lemma diamond_run: "\<exists>st. runs_to sum_kernels diamond (RunAsync (one_frame diamond) ()) st \<and> scheduled st = []"
  using run_to_end [OF diamond_plain run_inv_init [OF diamond_plain, of "()"], of sum_kernels] by metis

theorem executor_order_witness: "\<exists>st. runs_to sum_kernels diamond (RunAsync (one_frame diamond) ()) st \<and> scheduled st = [] \<and>
    distinct (map t_node (ran st)) \<and> run_order diamond (ran st)"
proof -
  obtain st where st: "runs_to sum_kernels diamond (RunAsync (one_frame diamond) ()) st" "scheduled st = []"
    using diamond_run by blast
  then show ?thesis using executor_order [OF diamond_plain st(1)] by blast
qed

theorem executor_terminates_witness:
  "\<exists>st. runs_to sum_kernels diamond (RunAsync (one_frame diamond) ()) st \<and> finished st \<and> length (ran st) \<le> 5"
proof -
  obtain st where st: "runs_to sum_kernels diamond (RunAsync (one_frame diamond) ()) st" "scheduled st = []"
    using diamond_run by blast
  then show ?thesis using executor_terminates [OF diamond_plain st(1)] by (intro exI [of _ st]) (simp add: diamond_def)
qed

theorem executor_completes_witness:
  "\<exists>st. runs_to sum_kernels diamond (RunAsync (one_frame diamond) ()) st \<and> set (map t_node (ran st)) = {0, 1, 2, 3} \<and>
     status st = None \<and> outstanding_frames st = []"
proof -
  obtain st where st: "runs_to sum_kernels diamond (RunAsync (one_frame diamond) ()) st" "scheduled st = []"
    using diamond_run by blast
  have "{v. v < length (nodes diamond) \<and> \<not> is_sink (nodes diamond ! v)} = {0, 1, 2, 3}"
    by (auto simp: diamond_def sample_node_def less_Suc_eq numeral_eq_Suc)
  with executor_completes [OF diamond_plain st] sum_kernels_fine have stop: "set (map t_node (ran st)) = {0, 1, 2, 3}"
    "status st = None" "ran st \<noteq> [] \<longrightarrow> outstanding_frames st = []" by simp_all
  moreover have "ran st \<noteq> []" using stop(1) by (cases "ran st") auto
  ultimately show ?thesis using st(1) by metis
qed

theorem executor_accounting_witness:
  "\<exists>st. runs_to sum_kernels diamond (RunAsync (one_frame diamond) ()) st \<and> num_outstanding_ops st = 0 \<and> finished st"
proof -
  obtain st where st: "runs_to sum_kernels diamond (RunAsync (one_frame diamond) ()) st" "scheduled st = []"
    using diamond_run by blast
  then show ?thesis using executor_accounting [OF st(1)] by (intro exI [of _ st]) simp
qed

definition failing_kernels :: "(nat, unit, string) kernels" where
  "failing_kernels n ins s = (Inl ''Internal'', s)"

definition first_tag :: tagged_node where
  "first_tag = \<lparr>t_node = 0, input_frame = [], input_iter = 0, is_dead = False\<rparr>"

theorem kernel_error_is_final_witness:
  "\<exists>st'. Process failing_kernels (one_frame diamond) None first_tag (RunAsync (one_frame diamond) ()) = Some st' \<and>
     scheduled st' = [] \<and> status st' = Some ''Internal''"
proof -
  let ?st = "RunAsync (one_frame diamond) () :: (nat, unit, string) exec_state"
  have sched: "scheduled ?st = [first_tag]" and ok: "status ?st = None"
    unfolding RunAsync_def Let_def one_frame_facts(2) [OF diamond_plain]
    by (simp_all add: first_tag_def diamond_def in_edges_def upt_rec)
  have inv: "run_inv diamond [] [] ?st" by (rule run_inv_init [OF diamond_plain])
  obtain fr it where fr: "outstanding_frames ?st = [([], fr)]" "root_frame fr it"
    using run_invD(10) [OF inv] sched unfolding root_present_def by auto
  have *: "find_frame (input_frame first_tag) ?st = Some fr" "GetIteration fr (input_iter first_tag) = Some it" "\<not> is_dead first_tag"
    using fr(1) root_frame_access(1) [OF fr(2)] by (simp_all add: find_frame_def first_tag_def)
  show ?thesis using kernel_error_is_final [of first_tag ?st fr it failing_kernels "one_frame diamond" "''Internal''" "()" None, OF *]
    sched ok by (auto simp: failing_kernels_def)
qed

end
