(* ===== verification/Numbers.thy ===== *)
theory Numbers
  imports Prelude "HOL-Library.Signed_Division" "HOL-Library.Sublist"
begin

text \<open>
  Numbers as text: the printers and parsers of \<^verbatim>\<open>core/lib/strings/numbers.cc\<close> and \<^verbatim>\<open>ConsumeLeadingDigits\<close> of \<^verbatim>\<open>str_util.cc\<close>.
  Strings are lists of characters and integers are mathematical ones, with the wrap-around written out where the
  code relies on it. \<^verbatim>\<open>absl::ConsumePrefix\<close> is not part of the repository: it is the parameter \<open>cp\<close>, which returns what is left
  of the string if the prefix was there.
\<close>

type_synonym consume_prefix = "string \<Rightarrow> string \<Rightarrow> string option"

definition strip_prefix :: consume_prefix where
  "strip_prefix s expected = (if prefix expected s then Some (drop (length expected) s) else None)"

definition documented :: "consume_prefix \<Rightarrow> bool" where
  "documented cp \<longleftrightarrow> (\<forall>s expected. cp s expected = (if prefix expected s then Some (drop (length expected) s) else None))"

lemma documented_strip: "documented cp \<Longrightarrow> cp = strip_prefix"
  by (intro ext) (simp add: documented_def strip_prefix_def)

lemma strip_prefix_documented: "documented strip_prefix"
  by (simp add: documented_def strip_prefix_def)

lemma strip_prefix_append [simp]: "strip_prefix (p @ s) p = Some s"
  by (simp add: strip_prefix_def)

lemma strip_prefix_single [simp]:
  "strip_prefix [] [c] = None" "strip_prefix (d # s) [c] = (if d = c then Some s else None)"
  by (auto simp: strip_prefix_def)

subsection \<open>Printing\<close>

definition digit_char :: "nat \<Rightarrow> char" where
  "digit_char d = char_of (48 + d)"

text \<open>The loop that writes the digits from the last to the first.\<close>

fun digits_rev :: "nat \<Rightarrow> string" where
  "digits_rev i = digit_char (i mod 10) # (if i div 10 > 0 then digits_rev (i div 10) else [])"

declare digits_rev.simps [simp del]

definition FastUInt32ToBufferLeft :: "nat \<Rightarrow> string" where
  "FastUInt32ToBufferLeft i = rev (digits_rev i)"

definition FastUInt64ToBufferLeft :: "nat \<Rightarrow> string" where
  "FastUInt64ToBufferLeft i = rev (digits_rev i)"

definition FastInt32ToBufferLeft :: "int \<Rightarrow> string" where
  "FastInt32ToBufferLeft i =
     (let u = nat (i mod 2 ^ 32) in
      if i < 0 then ''-'' @ FastUInt32ToBufferLeft (nat ((0 - int u) mod 2 ^ 32)) else FastUInt32ToBufferLeft u)"

definition FastInt64ToBufferLeft :: "int \<Rightarrow> string" where
  "FastInt64ToBufferLeft i =
     (let u = nat (i mod 2 ^ 64) in
      if i < 0 then ''-'' @ FastUInt64ToBufferLeft (nat ((0 - int u) mod 2 ^ 64)) else FastUInt64ToBufferLeft u)"

definition hexdigits :: string where
  "hexdigits = ''0123456789abcdef''"

fun hex_loop :: "nat \<Rightarrow> nat \<Rightarrow> string" where
  "hex_loop 0 v = []"
| "hex_loop (Suc n) v = hex_loop n (v div 16) @ [hexdigits ! (v mod 16)]"

definition Uint64ToHexString :: "nat \<Rightarrow> string" where
  "Uint64ToHexString v = hex_loop 16 v"

subsection \<open>Parsing\<close>

definition isspace :: "char \<Rightarrow> bool" where
  "isspace c \<longleftrightarrow> of_char c = (32 :: nat) \<or> 9 \<le> (of_char c :: nat) \<and> of_char c \<le> (13 :: nat)"

definition isdigit :: "char \<Rightarrow> bool" where
  "isdigit c \<longleftrightarrow> 48 \<le> (of_char c :: nat) \<and> of_char c \<le> (57 :: nat)"

definition digit :: "char \<Rightarrow> int" where
  "digit c = int (of_char c) - 48"

definition SafeFirstChar :: "string \<Rightarrow> char" where
  "SafeFirstChar s = (case s of [] \<Rightarrow> CHR 0x00 | c # _ \<Rightarrow> c)"

fun SkipSpaces :: "string \<Rightarrow> string" where
  "SkipSpaces [] = []"
| "SkipSpaces (c # s) = (if isspace c then SkipSpaces s else c # s)"

text \<open>The loops over the digits. Each starts at a digit, so that testing before or after the body is the same.\<close>

fun strto64_pos :: "int \<Rightarrow> string \<Rightarrow> int \<Rightarrow> (int \<times> string) option" where
  "strto64_pos vlimit [] result = Some (result, [])"
| "strto64_pos vlimit (c # s) result =
     (if \<not> isdigit c then Some (result, c # s)
      else if (vlimit - digit c) sdiv 10 < result then None
      else strto64_pos vlimit s (result * 10 + digit c))"

fun strto64_neg :: "int \<Rightarrow> string \<Rightarrow> int \<Rightarrow> (int \<times> string) option" where
  "strto64_neg vlimit [] result = Some (result, [])"
| "strto64_neg vlimit (c # s) result =
     (if \<not> isdigit c then Some (result, c # s)
      else if (vlimit + digit c) sdiv 10 > result then None
      else strto64_neg vlimit s (result * 10 - digit c))"

fun strto32_loop :: "int \<Rightarrow> string \<Rightarrow> int \<Rightarrow> (int \<times> string) option" where
  "strto32_loop vmax [] result = Some (result, [])"
| "strto32_loop vmax (c # s) result =
     (if \<not> isdigit c then Some (result, c # s)
      else if result * 10 + digit c > vmax then None
      else strto32_loop vmax s (result * 10 + digit c))"

definition finish :: "(int \<times> string) option \<Rightarrow> int option" where
  "finish r = (case r of None \<Rightarrow> None | Some (result, s) \<Rightarrow> if SkipSpaces s \<noteq> [] then None else Some result)"

definition safe_strto64 :: "consume_prefix \<Rightarrow> string \<Rightarrow> int option" where
  "safe_strto64 cp str =
     (let str1 = SkipSpaces str in
      case cp str1 ''-'' of
        Some str2 \<Rightarrow> if \<not> isdigit (SafeFirstChar str2) then None else finish (strto64_neg (- (2 ^ 63)) str2 0)
      | None \<Rightarrow> if \<not> isdigit (SafeFirstChar str1) then None else finish (strto64_pos (2 ^ 63 - 1) str1 0))"

definition safe_strtou64 :: "string \<Rightarrow> int option" where
  "safe_strtou64 str =
     (let str1 = SkipSpaces str in
      if \<not> isdigit (SafeFirstChar str1) then None else finish (strto64_pos (2 ^ 64 - 1) str1 0))"

definition safe_strto32 :: "consume_prefix \<Rightarrow> string \<Rightarrow> int option" where
  "safe_strto32 cp str =
     (let str1 = SkipSpaces str;
          (sign, vmax, str2) = (case cp str1 ''-'' of Some s \<Rightarrow> (-1, 2 ^ 31 - 1 + 1, s) | None \<Rightarrow> (1, 2 ^ 31 - 1, str1)) in
      if \<not> isdigit (SafeFirstChar str2) then None
      else map_option (\<lambda>result. result * sign) (finish (strto32_loop vmax str2 0)))"

definition safe_strtou32 :: "string \<Rightarrow> int option" where
  "safe_strtou32 str =
     (let str1 = SkipSpaces str in
      if \<not> isdigit (SafeFirstChar str1) then None else finish (strto32_loop (2 ^ 32 - 1) str1 0))"

fun leading_digits :: "string \<Rightarrow> nat \<Rightarrow> (nat \<times> string) option" where
  "leading_digits [] v = Some (v, [])"
| "leading_digits (c # s) v =
     (if \<not> isdigit c then Some (v, c # s)
      else let new_v = (v * 10 + nat (digit c)) mod 2 ^ 64 in
           if new_v div 8 < v then None else leading_digits s new_v)"

definition ConsumeLeadingDigits :: "string \<Rightarrow> (nat \<times> string) option" where
  "ConsumeLeadingDigits s =
     (case leading_digits s 0 of
        None \<Rightarrow> None
      | Some (v, rest) \<Rightarrow> if length rest < length s then Some (v, rest) else None)"

definition hex_value :: "char \<Rightarrow> nat option" where
  "hex_value c =
     (let n = of_char c :: nat in
      if 48 \<le> n \<and> n \<le> 57 then Some (n - 48)
      else if 97 \<le> n \<and> n \<le> 102 then Some (10 + (n - 97))
      else if 65 \<le> n \<and> n \<le> 70 then Some (10 + (n - 65)) else None)"

fun hex_parse :: "string \<Rightarrow> nat \<Rightarrow> nat option" where
  "hex_parse [] v = Some v"
| "hex_parse (c # s) v = (case hex_value c of None \<Rightarrow> None | Some d \<Rightarrow> hex_parse s (((v * 16) mod 2 ^ 64 + d) mod 2 ^ 64))"

definition HexStringToUint64 :: "string \<Rightarrow> nat option" where
  "HexStringToUint64 s = (if s = [] then None else hex_parse s 0)"

subsection \<open>What the parsers accept\<close>

definition digits_value :: "nat \<Rightarrow> string \<Rightarrow> nat" where
  "digits_value = foldl (\<lambda>v c. v * 10 + (of_char c - 48))"

text \<open>An optional sign, digits, and blanks around it.\<close>

definition parse_nat :: "string \<Rightarrow> nat option" where
  "parse_nat s =
     (let ds = takeWhile isdigit s in
      if ds = [] \<or> list_ex (\<lambda>c. \<not> isspace c) (dropWhile isdigit s) then None else Some (digits_value 0 ds))"

definition parse_int :: "string \<Rightarrow> int option" where
  "parse_int s =
     (let s1 = dropWhile isspace s in
      if prefix ''-'' s1 then map_option (\<lambda>n. - int n) (parse_nat (tl s1)) else map_option int (parse_nat s1))"

definition within :: "int \<Rightarrow> int \<Rightarrow> int option \<Rightarrow> int option" where
  "within lo hi r = (case r of Some v \<Rightarrow> if lo \<le> v \<and> v \<le> hi then Some v else None | None \<Rightarrow> None)"

lemma digits_value_simps [simp]: "digits_value v [] = v" "digits_value v (c # s) = digits_value (v * 10 + (of_char c - 48)) s"
  by (simp_all add: digits_value_def)

lemma digits_value_append: "digits_value v (s @ t) = digits_value (digits_value v s) t"
  by (simp add: digits_value_def)

lemma digits_value_mono: "v \<le> digits_value v s"
proof (induction s arbitrary: v)
  case (Cons c s)
  have "v \<le> v * 10 + (of_char c - 48)" by simp
  then show ?case using Cons.IH [of "v * 10 + (of_char c - 48)"] by simp
qed simp

lemma isdigitD: "isdigit c \<Longrightarrow> digit c = int (of_char c - 48) \<and> 0 \<le> digit c \<and> digit c \<le> 9"
  by (auto simp: isdigit_def digit_def)

lemma SkipSpaces_dropWhile [simp]: "SkipSpaces s = dropWhile isspace s"
  by (induction s) auto

lemma finish_Some [simp]: "finish (Some (v, s)) = (if list_ex (\<lambda>c. \<not> isspace c) s then None else Some v)" "finish None = None"
  by (auto simp: finish_def list_ex_iff dropWhile_eq_Nil_conv)

lemma first_digit: "isdigit (SafeFirstChar s) \<longleftrightarrow> takeWhile isdigit s \<noteq> []"
  by (cases s) (auto simp: SafeFirstChar_def isdigit_def)

lemma trunc_div_pos: "0 \<le> x \<Longrightarrow> x sdiv 10 = x div (10 :: int)"
  by (cases "x = 0") (simp_all add: signed_divide_int_def)

lemma trunc_div_neg: "x \<le> 0 \<Longrightarrow> x sdiv 10 = - ((- x) div (10 :: int))"
  by (cases "x = 0") (auto simp: signed_divide_int_def sgn_if)

text \<open>Each loop returns the value of the digits unless it leaves the range.\<close>

lemma strto64_pos_spec:
  assumes "9 \<le> L" "int v \<le> L"
  shows "strto64_pos L s (int v) =
    (if int (digits_value v (takeWhile isdigit s)) \<le> L then Some (int (digits_value v (takeWhile isdigit s)), dropWhile isdigit s) else None)"
  using assms(2)
proof (induction s arbitrary: v)
  case (Cons c s)
  show ?case
  proof (cases "isdigit c")
    case True
    let ?d = "of_char c - 48 :: nat"
    have d: "digit c = int ?d" "?d \<le> 9" using isdigitD [OF True] by auto
    have "(L - digit c) sdiv 10 < int v \<longleftrightarrow> L < int (v * 10 + ?d)"
      using assms d by (subst trunc_div_pos) auto
    then show ?thesis using True d Cons.IH [of "v * 10 + ?d"] digits_value_mono [of "v * 10 + ?d" "takeWhile isdigit s"]
      by (auto simp del: of_nat_diff)
  qed (use Cons.prems in auto)
qed auto

lemma strto64_neg_spec:
  assumes "9 \<le> L" "int v \<le> L"
  shows "strto64_neg (- L) s (- int v) =
    (if int (digits_value v (takeWhile isdigit s)) \<le> L then Some (- int (digits_value v (takeWhile isdigit s)), dropWhile isdigit s) else None)"
  using assms(2)
proof (induction s arbitrary: v)
  case (Cons c s)
  show ?case
  proof (cases "isdigit c")
    case True
    let ?d = "of_char c - 48 :: nat"
    have d: "digit c = int ?d" "?d \<le> 9" using isdigitD [OF True] by auto
    have "- int v < (- L + digit c) sdiv 10 \<longleftrightarrow> L < int (v * 10 + ?d)"
      using assms d by (subst trunc_div_neg) auto
    moreover have "- int v * 10 - digit c = - int (v * 10 + ?d)" using d by simp
    ultimately have "strto64_neg (- L) (c # s) (- int v) = (if L < int (v * 10 + ?d) then None else strto64_neg (- L) s (- int (v * 10 + ?d)))"
      using True by (simp only: strto64_neg.simps not_True_eq_False if_False)
    then show ?thesis using True Cons.IH [of "v * 10 + ?d"] digits_value_mono [of "v * 10 + ?d" "takeWhile isdigit s"]
      by (auto simp del: of_nat_diff of_nat_add of_nat_mult strto64_neg.simps)
  qed (use Cons.prems in auto)
qed auto

lemma strto32_loop_spec:
  assumes "int v \<le> L"
  shows "strto32_loop L s (int v) =
    (if int (digits_value v (takeWhile isdigit s)) \<le> L then Some (int (digits_value v (takeWhile isdigit s)), dropWhile isdigit s) else None)"
  using assms
proof (induction s arbitrary: v)
  case (Cons c s)
  show ?case
  proof (cases "isdigit c")
    case True
    let ?d = "of_char c - 48 :: nat"
    have d: "digit c = int ?d" using isdigitD [OF True] by auto
    then have "int v * 10 + digit c = int (v * 10 + ?d)" by simp
    then show ?thesis using True Cons.IH [of "v * 10 + ?d"] digits_value_mono [of "v * 10 + ?d" "takeWhile isdigit s"]
      by (auto simp del: of_nat_diff of_nat_add of_nat_mult)
  qed (use Cons.prems in auto)
qed auto

lemma leading_digits_spec:
  assumes "v < 2 ^ 64"
  shows "leading_digits s v =
    (if digits_value v (takeWhile isdigit s) < 2 ^ 64 then Some (digits_value v (takeWhile isdigit s), dropWhile isdigit s) else None)"
  using assms
proof (induction s arbitrary: v)
  case (Cons c s)
  show ?case
  proof (cases "isdigit c")
    case True
    let ?d = "of_char c - 48 :: nat"
    have d: "nat (digit c) = ?d" "?d \<le> 9" using isdigitD [OF True] by auto
    have test: "(v * 10 + ?d) mod 2 ^ 64 div 8 < v \<longleftrightarrow> 2 ^ 64 \<le> v * 10 + ?d"
    proof (cases "v * 10 + ?d < 2 ^ 64")
      case False
      define x where "x = (v * 10 + ?d) mod 2 ^ 64"
      have "x div 8 < v"
      proof (cases "v < 2 ^ 61")
        case True
        then have "x = v * 10 + ?d - 2 ^ 64" using False d(2) by (simp add: x_def le_mod_geq)
        then show ?thesis using False True d(2) by (simp add: div_less_iff_less_mult)
      next
        case False
        have "x < 2 ^ 64" by (simp add: x_def)
        then have "x div 8 < 2 ^ 61" by (simp add: div_less_iff_less_mult)
        then show ?thesis using False by linarith
      qed
      then show ?thesis using False by (simp add: x_def)
    qed auto
    show ?thesis
    proof (cases "v * 10 + ?d < 2 ^ 64")
      case less: True
      then show ?thesis using True d test Cons.IH [OF less] by (simp add: Let_def)
    next
      case False
      then show ?thesis using True d test digits_value_mono [of "v * 10 + ?d" "takeWhile isdigit s"] by (simp add: Let_def)
    qed
  qed (use Cons.prems in auto)
qed auto

text \<open>
  \<^verbatim>\<open>new_v / 8 < v\<close> finds every overflow: \<^verbatim>\<open>ConsumeLeadingDigits\<close> takes the digits in front and returns their value, and fails if there
  are none or the value does not fit.
\<close>

lemma ConsumeLeadingDigits_spec:
  "ConsumeLeadingDigits s =
     (let ds = takeWhile isdigit s in if ds = [] \<or> 2 ^ 64 \<le> digits_value 0 ds then None else Some (digits_value 0 ds, dropWhile isdigit s))"
proof -
  have "length (dropWhile isdigit s) < length s \<longleftrightarrow> takeWhile isdigit s \<noteq> []"
    using takeWhile_dropWhile_id [of isdigit s] by (metis add.left_neutral append_Nil2 length_append length_greater_0_conv less_add_same_cancel2 less_irrefl)
  then show ?thesis by (auto simp: ConsumeLeadingDigits_def leading_digits_spec Let_def)
qed

lemma parse_nat_loop:
  assumes "9 \<le> L"
  shows "(if isdigit (SafeFirstChar s) then finish (strto64_pos L s 0) else None) = within 0 L (map_option int (parse_nat s))"
    "(if isdigit (SafeFirstChar s) then finish (strto32_loop L s 0) else None) = within 0 L (map_option int (parse_nat s))"
    "(if isdigit (SafeFirstChar s) then finish (strto64_neg (- L) s 0) else None) = within (- L) 0 (map_option (\<lambda>n. - int n) (parse_nat s))"
  using assms strto64_pos_spec [of L 0 s] strto32_loop_spec [of 0 L s] strto64_neg_spec [of L 0 s]
  by (auto simp: first_digit parse_nat_def Let_def within_def)

lemma within_sign: "map_option (\<lambda>r. r * sign) (within 0 L (map_option int r)) =
    (if sign = 1 then within 0 L (map_option int r) else within (- L) 0 (map_option (\<lambda>n. - int n) r))" if "sign = 1 \<or> sign = -1"
  using that by (cases r) (auto simp: within_def)

lemma parse_int_neg: "within lo hi (parse_int s) =
    (let s1 = dropWhile isspace s in
     if prefix ''-'' s1 then within lo 0 (map_option (\<lambda>n. - int n) (parse_nat (tl s1))) else within 0 hi (map_option int (parse_nat s1)))"
  if "lo \<le> 0" "0 \<le> hi"
  using that by (auto simp: parse_int_def Let_def within_def split: option.splits)

lemma safe_strto_exact_lemma:
  assumes "documented cp"
  shows "safe_strto64 cp s = within (- (2 ^ 63)) (2 ^ 63 - 1) (parse_int s)"
    "safe_strto32 cp s = within (- (2 ^ 31)) (2 ^ 31 - 1) (parse_int s)"
    "safe_strtou64 s = within 0 (2 ^ 64 - 1) (map_option int (parse_nat (dropWhile isspace s)))"
    "safe_strtou32 s = within 0 (2 ^ 32 - 1) (map_option int (parse_nat (dropWhile isspace s)))"
proof -
  let ?s = "dropWhile isspace s"
  note cp = documented_strip [OF assms]
  show "safe_strtou64 s = within 0 (2 ^ 64 - 1) (map_option int (parse_nat ?s))" "safe_strtou32 s = within 0 (2 ^ 32 - 1) (map_option int (parse_nat ?s))"
    using parse_nat_loop [of "2 ^ 64 - 1" ?s] parse_nat_loop [of "2 ^ 32 - 1" ?s]
    by (simp_all add: safe_strtou64_def safe_strtou32_def Let_def split: if_splits)
  show "safe_strto64 cp s = within (- (2 ^ 63)) (2 ^ 63 - 1) (parse_int s)"
  proof (cases "prefix ''-'' ?s")
    case True
    then have "strip_prefix ?s ''-'' = Some (tl ?s)" by (simp add: strip_prefix_def drop_Suc)
    then show ?thesis using True parse_nat_loop(3) [of "2 ^ 63" "tl ?s"]
      by (simp add: safe_strto64_def cp Let_def parse_int_neg split: if_splits)
  next
    case False
    then show ?thesis using parse_nat_loop(1) [of "2 ^ 63 - 1" ?s]
      by (simp add: safe_strto64_def cp Let_def parse_int_neg strip_prefix_def split: if_splits)
  qed
  show "safe_strto32 cp s = within (- (2 ^ 31)) (2 ^ 31 - 1) (parse_int s)"
  proof (cases "prefix ''-'' ?s")
    case True
    then have "strip_prefix ?s ''-'' = Some (tl ?s)" by (simp add: strip_prefix_def drop_Suc)
    then show ?thesis using True parse_nat_loop(2) [of "2 ^ 31" "tl ?s"] within_sign [of "-1" "2 ^ 31" "parse_nat (tl ?s)"]
      by (simp add: safe_strto32_def cp Let_def parse_int_neg split: if_splits)
  next
    case False
    then show ?thesis using parse_nat_loop(2) [of "2 ^ 31 - 1" ?s] within_sign [of 1 "2 ^ 31 - 1" "parse_nat ?s"]
      by (simp add: safe_strto32_def cp Let_def parse_int_neg strip_prefix_def split: if_splits)
  qed
qed

text \<open>
  C34: the parsers of integers accept exactly the decimal numerals, with blanks around them and, for the signed ones, a minus in
  front, whose value is in the range of the type, and return that value: no overflow goes unnoticed and nothing in range is
  rejected.
\<close>

theorem safe_strto_exact:
  assumes "documented cp"
  shows "safe_strto64 cp s = within (- (2 ^ 63)) (2 ^ 63 - 1) (parse_int s) \<and>
    safe_strto32 cp s = within (- (2 ^ 31)) (2 ^ 31 - 1) (parse_int s) \<and>
    safe_strtou64 s = within 0 (2 ^ 64 - 1) (map_option int (parse_nat (dropWhile isspace s))) \<and>
    safe_strtou32 s = within 0 (2 ^ 32 - 1) (map_option int (parse_nat (dropWhile isspace s)))"
  using safe_strto_exact_lemma [OF assms] by blast

theorem safe_strto_exact_witness:
  "safe_strto32 strip_prefix '' -12 '' = Some (-12) \<and> safe_strto32 strip_prefix ''2147483648'' = None"
proof -
  have "parse_int '' -12 '' = Some (-12)" "parse_int ''2147483648'' = Some 2147483648"
    by (simp_all add: parse_int_def parse_nat_def isspace_def isdigit_def)
  then show ?thesis using safe_strto_exact [OF strip_prefix_documented, of "'' -12 ''"] safe_strto_exact [OF strip_prefix_documented, of "''2147483648''"]
    by (simp add: within_def)
qed

subsection \<open>Printing and parsing\<close>

lemma digit_char_facts [simp]:
  "d < 10 \<Longrightarrow> isdigit (digit_char d)" "d < 10 \<Longrightarrow> of_char (digit_char d) = (48 + d :: nat)"
  by (simp_all add: digit_char_def isdigit_def)

lemma digits_rev_digits: "list_all isdigit (digits_rev n) \<and> digits_rev n \<noteq> []"
proof (induction n rule: digits_rev.induct)
  case (1 n)
  then show ?case by (subst (1 2) digits_rev.simps) simp
qed

lemma digits_value_rev: "digits_value 0 (rev (digits_rev n)) = n"
proof (induction n rule: digits_rev.induct)
  case (1 n)
  show ?case
  proof (cases "n div 10 > 0")
    case True
    then show ?thesis using 1 by (subst digits_rev.simps) (simp add: digits_value_append)
  qed (subst digits_rev.simps, simp)
qed

lemma takeWhile_digits: "list_all isdigit ds \<Longrightarrow> \<not> (s \<noteq> [] \<and> isdigit (hd s)) \<Longrightarrow> takeWhile isdigit (ds @ s) = ds \<and> dropWhile isdigit (ds @ s) = s"
  by (cases s) (auto simp: list_all_iff takeWhile_append dropWhile_append takeWhile_eq_all_conv)

lemma decimal_digits:
  "list_all isdigit (FastUInt64ToBufferLeft n)" "FastUInt64ToBufferLeft n \<noteq> []" "digits_value 0 (FastUInt64ToBufferLeft n) = n"
  using digits_rev_digits by (simp_all add: FastUInt64ToBufferLeft_def digits_value_rev list_all_iff)

lemma parse_nat_decimal: "parse_nat (FastUInt64ToBufferLeft n) = Some n"
proof -
  have "takeWhile isdigit (FastUInt64ToBufferLeft n) = FastUInt64ToBufferLeft n" "dropWhile isdigit (FastUInt64ToBufferLeft n) = []"
    using takeWhile_digits [OF decimal_digits(1), of "[]" n] by (simp_all only: append_Nil2 simp_thms)
  then show ?thesis using decimal_digits(2,3) [of n] by (simp only: parse_nat_def Let_def list_ex_iff list.set bex_simps simp_thms if_False)
qed

lemma decimal_no_space: "dropWhile isspace (FastUInt64ToBufferLeft n) = FastUInt64ToBufferLeft n \<and> \<not> prefix ''-'' (FastUInt64ToBufferLeft n)"
proof -
  obtain c s where cs: "FastUInt64ToBufferLeft n = c # s" using decimal_digits(2) [of n] by (cases "FastUInt64ToBufferLeft n") auto
  then have "isdigit c" using decimal_digits(1) [of n] by simp
  then show ?thesis unfolding cs by (auto simp: isdigit_def isspace_def)
qed

lemma FastUInt32_64 [simp]: "FastUInt32ToBufferLeft = FastUInt64ToBufferLeft"
  by (simp add: FastUInt32ToBufferLeft_def FastUInt64ToBufferLeft_def fun_eq_iff)

lemma FastInt_decimal:
  "- (2 ^ 63) \<le> i \<Longrightarrow> i < 2 ^ 63 \<Longrightarrow> FastInt64ToBufferLeft i = (if i < 0 then ''-'' @ FastUInt64ToBufferLeft (nat (- i)) else FastUInt64ToBufferLeft (nat i))"
  "- (2 ^ 31) \<le> i \<Longrightarrow> i < 2 ^ 31 \<Longrightarrow> FastInt32ToBufferLeft i = (if i < 0 then ''-'' @ FastUInt64ToBufferLeft (nat (- i)) else FastUInt64ToBufferLeft (nat i))"
  by (auto simp: FastInt64ToBufferLeft_def FastInt32ToBufferLeft_def Let_def mod_minus_eq)

lemma parse_int_decimal:
  "parse_int (if i < 0 then ''-'' @ FastUInt64ToBufferLeft (nat (- i)) else FastUInt64ToBufferLeft (nat i)) = Some i"
  using decimal_no_space [of "nat i"] by (auto simp: parse_int_def Let_def parse_nat_decimal isspace_def)

lemma hex_value_digit: "d < 16 \<Longrightarrow> hex_value (hexdigits ! d) = Some d"
proof -
  assume "d < 16"
  then have "d \<in> set [0..<16]" by simp
  moreover have "list_all (\<lambda>d. hex_value (hexdigits ! d) = Some d) [0..<16]" by code_simp
  ultimately show ?thesis by (simp only: list_all_iff)
qed

lemma hex_loop_nonempty: "0 < n \<Longrightarrow> hex_loop n v \<noteq> []"
  by (cases n) auto

lemma hex_parse_append: "hex_parse (s @ t) v = Option.bind (hex_parse s v) (hex_parse t)"
  by (induction s arbitrary: v) (auto split: option.splits)

lemma hex_parse_loop: "n \<le> 16 \<Longrightarrow> v < 16 ^ n \<Longrightarrow> hex_parse (hex_loop n v) 0 = Some v"
proof (induction n arbitrary: v)
  case (Suc n)
  have "v div 16 < 16 ^ n" using Suc.prems by (simp add: div_less_iff_less_mult)
  moreover have "v < 2 ^ 64"
  proof -
    have "(16 :: nat) ^ Suc n \<le> 16 ^ 16" using Suc.prems(1) by (intro power_increasing) auto
    then show ?thesis using Suc.prems(2) by simp
  qed
  ultimately show ?case using Suc by (simp add: hex_parse_append hex_value_digit)
qed simp

lemma hex_roundtrip: "n < 2 ^ 64 \<Longrightarrow> HexStringToUint64 (Uint64ToHexString n) = Some n"
proof -
  assume "n < 2 ^ 64"
  then have "n < 16 ^ 16" by simp
  then show ?thesis using hex_parse_loop [of 16 n] hex_loop_nonempty [of 16 n] by (simp add: HexStringToUint64_def Uint64ToHexString_def)
qed

text \<open>
  what the printers write is read back as the same number: 32- and 64-bit integers, signed and unsigned, in decimal, and 64-bit
  ones in hexadecimal.
\<close>

theorem number_text_roundtrip:
  assumes "documented cp"
  shows "(- (2 ^ 63) \<le> i \<and> i < 2 ^ 63 \<longrightarrow> safe_strto64 cp (FastInt64ToBufferLeft i) = Some i) \<and>
    (- (2 ^ 31) \<le> i \<and> i < 2 ^ 31 \<longrightarrow> safe_strto32 cp (FastInt32ToBufferLeft i) = Some i) \<and>
    (n < 2 ^ 64 \<longrightarrow> safe_strtou64 (FastUInt64ToBufferLeft n) = Some (int n) \<and> HexStringToUint64 (Uint64ToHexString n) = Some n) \<and>
    (n < 2 ^ 32 \<longrightarrow> safe_strtou32 (FastUInt32ToBufferLeft n) = Some (int n))"
proof -
  note exact = safe_strto_exact_lemma [OF assms]
  have "HexStringToUint64 (Uint64ToHexString n) = Some n" if "n < 2 ^ 64" using that by (rule hex_roundtrip)
  moreover have "safe_strto64 cp (FastInt64ToBufferLeft i) = Some i" if "- (2 ^ 63) \<le> i" "i < 2 ^ 63"
    unfolding exact FastInt_decimal(1) [OF that] parse_int_decimal using that by (simp add: within_def)
  moreover have "safe_strto32 cp (FastInt32ToBufferLeft i) = Some i" if "- (2 ^ 31) \<le> i" "i < 2 ^ 31"
    unfolding exact FastInt_decimal(2) [OF that] parse_int_decimal using that by (simp add: within_def)
  moreover have "safe_strtou64 (FastUInt64ToBufferLeft n) = Some (int n)" if "n < 2 ^ 64"
    using that decimal_no_space [of n] by (simp add: exact parse_nat_decimal within_def)
  moreover have "safe_strtou32 (FastUInt32ToBufferLeft n) = Some (int n)" if "n < 2 ^ 32"
    using that decimal_no_space [of n] by (simp add: exact parse_nat_decimal within_def)
  ultimately show ?thesis by blast
qed

theorem number_text_roundtrip_witness:
  "safe_strto64 strip_prefix (FastInt64ToBufferLeft (-9223372036854775808)) = Some (-9223372036854775808) \<and>
   HexStringToUint64 (Uint64ToHexString 48879) = Some 48879"
  using number_text_roundtrip [OF strip_prefix_documented, of "-9223372036854775808" 48879] by simp

end
