(* ===== verification/Device_Names.thy ===== *)
theory Device_Names
  imports Numbers
begin

text \<open>
  Device names, \<^verbatim>\<open>core/util/device_name_utils.cc\<close>: \<^verbatim>\<open>/job:worker/replica:0/task:1/device:GPU:0\<close>, with parts missing or \<^verbatim>\<open>*\<close>. A
  parsed name has a value and a flag for each part. A function that returns false is \<open>None\<close> here, for its callers do not look at
  the name then.
\<close>

subsection \<open>Parsed names\<close>

record parsed_name =
  has_job :: bool
  job :: string
  has_replica :: bool
  replica :: int
  has_task :: bool
  task :: int
  has_type :: bool
  dev_type :: string
  has_id :: bool
  dev_id :: int

definition Clear :: parsed_name where
  "Clear = \<lparr>has_job = False, job = [], has_replica = False, replica = 0, has_task = False, task = 0,
     has_type = False, dev_type = [], has_id = False, dev_id = 0\<rparr>"

text \<open>\<^verbatim>\<open>operator==\<close>: the value of a part counts only where its flag is set.\<close>

definition same_part :: "bool \<Rightarrow> 'a \<Rightarrow> bool \<Rightarrow> 'a \<Rightarrow> bool" where
  "same_part h x h' y \<longleftrightarrow> (if h then h' \<and> x = y else \<not> h')"

definition same_name :: "parsed_name \<Rightarrow> parsed_name \<Rightarrow> bool" where
  "same_name p q \<longleftrightarrow> same_part (has_job p) (job p) (has_job q) (job q) \<and> same_part (has_replica p) (replica p) (has_replica q) (replica q) \<and>
     same_part (has_task p) (task p) (has_task q) (task q) \<and> same_part (has_type p) (dev_type p) (has_type q) (dev_type q) \<and>
     same_part (has_id p) (dev_id p) (has_id q) (dev_id q)"

subsection \<open>The parts of a name\<close>

definition IsAlpha :: "char \<Rightarrow> bool" where
  "IsAlpha c \<longleftrightarrow> (let n = of_char c :: nat in 97 \<le> n \<and> n \<le> 122 \<or> 65 \<le> n \<and> n \<le> 90)"

definition IsAlphaNum :: "char \<Rightarrow> bool" where
  "IsAlphaNum c \<longleftrightarrow> IsAlpha c \<or> (let n = of_char c :: nat in 48 \<le> n \<and> n \<le> 57)"

definition name_char :: "char \<Rightarrow> bool" where
  "name_char c \<longleftrightarrow> IsAlphaNum c \<or> c = CHR ''_''"

definition IsJobName :: "string \<Rightarrow> bool" where
  "IsJobName s = (case s of [] \<Rightarrow> False | c # cs \<Rightarrow> IsAlpha c \<and> list_all name_char cs)"

fun name_rest :: "(char \<Rightarrow> bool) \<Rightarrow> string \<Rightarrow> (string \<times> string) option" where
  "name_rest stop [] = Some ([], [])"
| "name_rest stop (c # s) =
     (if stop c then Some ([], c # s)
      else if \<not> name_char c then None
      else map_option (\<lambda>(n, r). (c # n, r)) (name_rest stop s))"

definition consume_name :: "(char \<Rightarrow> bool) \<Rightarrow> string \<Rightarrow> (string \<times> string) option" where
  "consume_name stop s =
     (case s of [] \<Rightarrow> None
      | c # cs \<Rightarrow> if \<not> IsAlpha c then None else map_option (\<lambda>(n, r). (c # n, r)) (name_rest stop cs))"

definition ConsumeJobName :: "string \<Rightarrow> (string \<times> string) option" where
  "ConsumeJobName = consume_name (\<lambda>c. c = CHR ''/'')"

definition ConsumeDeviceType :: "string \<Rightarrow> (string \<times> string) option" where
  "ConsumeDeviceType = consume_name (\<lambda>c. c = CHR ''/'' \<or> c = CHR '':'')"

text \<open>\<^verbatim>\<open>*val = tmp\<close> keeps the low 32 bits.\<close>

definition to_int32 :: "nat \<Rightarrow> int" where
  "to_int32 n = (let m = int n mod 2 ^ 32 in if m < 2 ^ 31 then m else m - 2 ^ 32)"

definition ConsumeNumber :: "string \<Rightarrow> (int \<times> string) option" where
  "ConsumeNumber s = map_option (\<lambda>(tmp, rest). (to_int32 tmp, rest)) (ConsumeLeadingDigits s)"

subsection \<open>Writing names\<close>

definition DeviceName :: "string \<Rightarrow> int \<Rightarrow> int \<Rightarrow> string \<Rightarrow> string \<Rightarrow> int \<Rightarrow> string outcome" where
  "DeviceName jb rep tsk device_prefix device_type i =
     (if IsJobName jb \<and> 0 \<le> rep \<and> 0 \<le> tsk \<and> device_type \<noteq> [] \<and> 0 \<le> i
      then Done (''/job:'' @ jb @ ''/replica:'' @ FastInt32ToBufferLeft rep @ ''/task:'' @ FastInt32ToBufferLeft tsk @
        device_prefix @ device_type @ '':'' @ FastInt32ToBufferLeft i)
      else Abort)"

definition FullName :: "string \<Rightarrow> int \<Rightarrow> int \<Rightarrow> string \<Rightarrow> int \<Rightarrow> string outcome" where
  "FullName jb rep tsk ty i = DeviceName jb rep tsk ''/device:'' ty i"

text \<open>\<^verbatim>\<open>absl::AsciiStrToLower\<close> is the parameter \<open>lower\<close>.\<close>

definition LegacyName :: "(string \<Rightarrow> string) \<Rightarrow> string \<Rightarrow> int \<Rightarrow> int \<Rightarrow> string \<Rightarrow> int \<Rightarrow> string outcome" where
  "LegacyName lower jb rep tsk ty i = DeviceName jb rep tsk ''/'' (lower ty) i"

definition ParsedNameToString :: "parsed_name \<Rightarrow> string" where
  "ParsedNameToString pn =
     (if has_job pn then ''/job:'' @ job pn else []) @
     (if has_replica pn then ''/replica:'' @ FastInt32ToBufferLeft (replica pn) else []) @
     (if has_task pn then ''/task:'' @ FastInt32ToBufferLeft (task pn) else []) @
     (if has_type pn then ''/device:'' @ dev_type pn @ '':'' @ (if has_id pn then FastInt32ToBufferLeft (dev_id pn) else ''*'') else [])"

definition LocalName :: "string \<Rightarrow> int \<Rightarrow> string" where
  "LocalName ty i = ''/device:'' @ ty @ '':'' @ FastInt32ToBufferLeft i"

definition LegacyLocalName :: "string \<Rightarrow> int \<Rightarrow> string" where
  "LegacyLocalName ty i = ty @ '':'' @ FastInt32ToBufferLeft i"

subsection \<open>ParseFullName\<close>

text \<open>
  One function for each \<^verbatim>\<open>if\<close> in the loop: \<open>None\<close> is \<^verbatim>\<open>return false\<close>, else whether there was progress, what is left, and the name.
\<close>

type_synonym parse_state = "bool \<times> string \<times> parsed_name"

definition parse_job :: "consume_prefix \<Rightarrow> parse_state \<Rightarrow> parse_state option" where
  "parse_job cp = (\<lambda>(progress, s, p).
     case cp s ''/job:'' of None \<Rightarrow> Some (progress, s, p)
     | Some s1 \<Rightarrow> (case cp s1 ''*'' of Some s2 \<Rightarrow> Some (True, s2, p\<lparr>has_job := False\<rparr>)
       | None \<Rightarrow> map_option (\<lambda>(j, s2). (True, s2, p\<lparr>has_job := True, job := j\<rparr>)) (ConsumeJobName s1)))"

definition parse_replica :: "consume_prefix \<Rightarrow> parse_state \<Rightarrow> parse_state option" where
  "parse_replica cp = (\<lambda>(progress, s, p).
     case cp s ''/replica:'' of None \<Rightarrow> Some (progress, s, p)
     | Some s1 \<Rightarrow> (case cp s1 ''*'' of Some s2 \<Rightarrow> Some (True, s2, p\<lparr>has_replica := False\<rparr>)
       | None \<Rightarrow> map_option (\<lambda>(n, s2). (True, s2, p\<lparr>has_replica := True, replica := n\<rparr>)) (ConsumeNumber s1)))"

definition parse_task :: "consume_prefix \<Rightarrow> parse_state \<Rightarrow> parse_state option" where
  "parse_task cp = (\<lambda>(progress, s, p).
     case cp s ''/task:'' of None \<Rightarrow> Some (progress, s, p)
     | Some s1 \<Rightarrow> (case cp s1 ''*'' of Some s2 \<Rightarrow> Some (True, s2, p\<lparr>has_task := False\<rparr>)
       | None \<Rightarrow> map_option (\<lambda>(n, s2). (True, s2, p\<lparr>has_task := True, task := n\<rparr>)) (ConsumeNumber s1)))"

definition parse_id :: "consume_prefix \<Rightarrow> string \<Rightarrow> parsed_name \<Rightarrow> parse_state option" where
  "parse_id cp s p =
     (case cp s ''*'' of Some s1 \<Rightarrow> Some (True, s1, p\<lparr>has_id := False\<rparr>)
      | None \<Rightarrow> map_option (\<lambda>(n, s1). (True, s1, p\<lparr>has_id := True, dev_id := n\<rparr>)) (ConsumeNumber s))"

definition parse_device :: "consume_prefix \<Rightarrow> parse_state \<Rightarrow> parse_state option" where
  "parse_device cp = (\<lambda>(progress, s, p).
     case cp s ''/device:'' of None \<Rightarrow> Some (progress, s, p)
     | Some s1 \<Rightarrow>
       (case (case cp s1 ''*'' of Some s2 \<Rightarrow> Some (s2, p\<lparr>has_type := False\<rparr>)
              | None \<Rightarrow> map_option (\<lambda>(t, s2). (s2, p\<lparr>has_type := True, dev_type := t\<rparr>)) (ConsumeDeviceType s1)) of
          None \<Rightarrow> None
        | Some (s2, p1) \<Rightarrow>
          (case cp s2 '':'' of None \<Rightarrow> Some (True, s2, p1\<lparr>has_id := False\<rparr>) | Some s3 \<Rightarrow> parse_id cp s3 p1)))"

definition parse_legacy :: "consume_prefix \<Rightarrow> string \<Rightarrow> string \<Rightarrow> string \<Rightarrow> parse_state \<Rightarrow> parse_state option" where
  "parse_legacy cp lower_prefix upper_prefix ty = (\<lambda>(progress, s, p).
     case (case cp s lower_prefix of Some s1 \<Rightarrow> Some s1 | None \<Rightarrow> cp s upper_prefix) of
       None \<Rightarrow> Some (progress, s, p)
     | Some s1 \<Rightarrow> parse_id cp s1 (p\<lparr>has_type := True, dev_type := ty\<rparr>))"

definition parse_round :: "consume_prefix \<Rightarrow> string \<times> parsed_name \<Rightarrow> parse_state option" where
  "parse_round cp = (\<lambda>(s, p).
     Option.bind (parse_job cp (False, s, p)) (\<lambda>x1.
     Option.bind (parse_replica cp x1) (\<lambda>x2.
     Option.bind (parse_task cp x2) (\<lambda>x3.
     Option.bind (parse_device cp x3) (\<lambda>x4.
     Option.bind (parse_legacy cp ''/cpu:'' ''/CPU:'' ''CPU'' x4) (\<lambda>x5.
       parse_legacy cp ''/gpu:'' ''/GPU:'' ''GPU'' x5))))))"

text \<open>A round with progress takes a prefix off, so that there are no more rounds than characters: the fuel of the loop.\<close>

fun parse_loop :: "consume_prefix \<Rightarrow> nat \<Rightarrow> string \<Rightarrow> parsed_name \<Rightarrow> parsed_name option" where
  "parse_loop cp fuel [] p = Some p"
| "parse_loop cp 0 (c # s) p = None"
| "parse_loop cp (Suc fuel) (c # s) p =
     (case parse_round cp (c # s, p) of
        Some (True, s1, p1) \<Rightarrow> parse_loop cp fuel s1 p1
      | _ \<Rightarrow> None)"

definition ParseFullName :: "consume_prefix \<Rightarrow> string \<Rightarrow> parsed_name option" where
  "ParseFullName cp fullname = (if fullname = ''/'' then Some Clear else parse_loop cp (length fullname) fullname Clear)"

subsection \<open>Local and canonical names\<close>

definition ParseLocalName :: "consume_prefix \<Rightarrow> string \<Rightarrow> parsed_name \<Rightarrow> parsed_name option" where
  "ParseLocalName cp name p =
     Option.bind (ConsumeDeviceType name) (\<lambda>(t, s1).
     Option.bind (cp s1 '':'') (\<lambda>s2.
     Option.bind (ConsumeNumber s2) (\<lambda>(i, s3).
       if s3 = [] then Some (p\<lparr>has_type := True, dev_type := t, has_id := True, dev_id := i\<rparr>) else None)))"

definition CompleteName :: "parsed_name \<Rightarrow> parsed_name \<Rightarrow> parsed_name" where
  "CompleteName base pn =
     (let p1 = (if \<not> has_job pn then pn\<lparr>job := job base, has_job := True\<rparr> else pn);
          p2 = (if \<not> has_replica p1 then p1\<lparr>replica := replica base, has_replica := True\<rparr> else p1);
          p3 = (if \<not> has_task p2 then p2\<lparr>task := task base, has_task := True\<rparr> else p2);
          p4 = (if \<not> has_type p3 then p3\<lparr>dev_type := dev_type base, has_type := True\<rparr> else p3) in
      if \<not> has_id p4 then p4\<lparr>dev_id := dev_id base, has_id := True\<rparr> else p4)"

definition fully_specified :: "parsed_name \<Rightarrow> bool" where
  "fully_specified pn \<longleftrightarrow> has_job pn \<and> has_replica pn \<and> has_task pn \<and> has_type pn \<and> has_id pn"

definition CanonicalizeDeviceName :: "consume_prefix \<Rightarrow> string \<Rightarrow> string \<Rightarrow> status_error + string" where
  "CanonicalizeDeviceName cp fullname basename =
     (case ParseFullName cp basename of
        None \<Rightarrow> Inl InvalidArgument
      | Some base \<Rightarrow>
        if \<not> fully_specified base then Inl InvalidArgument
        else (case ParseLocalName cp fullname Clear of
                Some pn \<Rightarrow> Inr (ParsedNameToString (CompleteName base pn))
              | None \<Rightarrow> (case ParseFullName cp fullname of
                  Some pn \<Rightarrow> Inr (ParsedNameToString (CompleteName base pn))
                | None \<Rightarrow> Inl InvalidArgument)))"

definition LocalName_of :: "consume_prefix \<Rightarrow> string \<Rightarrow> string outcome" where
  "LocalName_of cp fullname = (case ParseFullName cp fullname of None \<Rightarrow> Abort | Some x \<Rightarrow> Done (LocalName (dev_type x) (dev_id x)))"

definition SplitDeviceName :: "consume_prefix \<Rightarrow> string \<Rightarrow> (string \<times> string) option" where
  "SplitDeviceName cp name =
     (case ParseFullName cp name of
        None \<Rightarrow> None
      | Some pn \<Rightarrow>
        if has_type pn \<and> has_id pn
        then Some ((if has_job pn then ''/job:'' @ job pn else []) @
                   (if has_replica pn then ''/replica:'' @ FastInt32ToBufferLeft (replica pn) else []) @
                   (if has_task pn then ''/task:'' @ FastInt32ToBufferLeft (task pn) else []),
                   dev_type pn @ '':'' @ FastInt32ToBufferLeft (dev_id pn))
        else None)"

definition GetNamesForDeviceMappings :: "(string \<Rightarrow> string) \<Rightarrow> parsed_name \<Rightarrow> string list outcome" where
  "GetNamesForDeviceMappings lower pn =
     (if fully_specified pn
      then obind (FullName (job pn) (replica pn) (task pn) (dev_type pn) (dev_id pn)) (\<lambda>a.
           obind (LegacyName lower (job pn) (replica pn) (task pn) (dev_type pn) (dev_id pn)) (\<lambda>b. Done [a, b]))
      else Done [])"

definition GetLocalNamesForDeviceMappings :: "parsed_name \<Rightarrow> string list" where
  "GetLocalNamesForDeviceMappings pn =
     (if has_type pn \<and> has_id pn then [LocalName (dev_type pn) (dev_id pn), LegacyLocalName (dev_type pn) (dev_id pn)] else [])"

definition DeviceNameToCpuDeviceName :: "consume_prefix \<Rightarrow> string \<Rightarrow> status_error + string" where
  "DeviceNameToCpuDeviceName cp device_name =
     (case ParseFullName cp device_name of
        None \<Rightarrow> Inl Internal
      | Some d \<Rightarrow> Inr (ParsedNameToString (d\<lparr>dev_type := ''CPU'', dev_id := 0\<rparr>)))"

subsection \<open>Specifications\<close>

definition part_spec :: "bool \<Rightarrow> 'a \<Rightarrow> bool \<Rightarrow> 'a \<Rightarrow> bool" where
  "part_spec h x h' y \<longleftrightarrow> \<not> (h \<and> (\<not> h' \<or> x \<noteq> y))"

definition IsSpecification :: "parsed_name \<Rightarrow> parsed_name \<Rightarrow> bool" where
  "IsSpecification less_specific more_specific \<longleftrightarrow>
     part_spec (has_job less_specific) (job less_specific) (has_job more_specific) (job more_specific) \<and>
     part_spec (has_replica less_specific) (replica less_specific) (has_replica more_specific) (replica more_specific) \<and>
     part_spec (has_task less_specific) (task less_specific) (has_task more_specific) (task more_specific) \<and>
     part_spec (has_type less_specific) (dev_type less_specific) (has_type more_specific) (dev_type more_specific) \<and>
     part_spec (has_id less_specific) (dev_id less_specific) (has_id more_specific) (dev_id more_specific)"

definition EnsureSpecification :: "parsed_name \<Rightarrow> parsed_name \<Rightarrow> parsed_name" where
  "EnsureSpecification more_specific less_specific =
     (let m1 = (if has_job less_specific then more_specific\<lparr>has_job := True, job := job less_specific\<rparr> else more_specific);
          m2 = (if has_replica less_specific then m1\<lparr>has_replica := True, replica := replica less_specific\<rparr> else m1);
          m3 = (if has_task less_specific then m2\<lparr>has_task := True, task := task less_specific\<rparr> else m2);
          m4 = (if has_type less_specific then m3\<lparr>has_type := True, dev_type := dev_type less_specific\<rparr> else m3) in
      if has_id less_specific then m4\<lparr>has_id := True, dev_id := dev_id less_specific\<rparr> else m4)"

definition IsCompleteSpecification :: "parsed_name \<Rightarrow> parsed_name \<Rightarrow> bool outcome" where
  "IsCompleteSpecification pattern name =
     (if \<not> fully_specified name then Abort
      else Done (\<not> (has_job pattern \<and> job pattern \<noteq> job name) \<and> \<not> (has_replica pattern \<and> replica pattern \<noteq> replica name) \<and>
        \<not> (has_task pattern \<and> task pattern \<noteq> task name) \<and> \<not> (has_type pattern \<and> dev_type pattern \<noteq> dev_type name) \<and>
        \<not> (has_id pattern \<and> dev_id pattern \<noteq> dev_id name)))"

text \<open>\<^verbatim>\<open>MergeDevNamesImpl\<close>, part by part: \<open>Inl\<close> is an early return, with the status and the target as it is then.\<close>

type_synonym merge_state = "(status_error option \<times> parsed_name) + parsed_name"

definition merge_job :: "parsed_name \<Rightarrow> parsed_name \<Rightarrow> merge_state" where
  "merge_job other t =
     (if \<not> has_job other then Inr t
      else if has_job t \<and> job t \<noteq> job other then Inl (Some InvalidArgument, t)
      else Inr (t\<lparr>has_job := has_job other, job := job other\<rparr>))"

definition merge_replica :: "parsed_name \<Rightarrow> parsed_name \<Rightarrow> merge_state" where
  "merge_replica other t =
     (if \<not> has_replica other then Inr t
      else if has_replica t \<and> replica t \<noteq> replica other then Inl (Some InvalidArgument, t)
      else Inr (t\<lparr>has_replica := has_replica other, replica := replica other\<rparr>))"

definition merge_task :: "parsed_name \<Rightarrow> parsed_name \<Rightarrow> merge_state" where
  "merge_task other t =
     (if \<not> has_task other then Inr t
      else if has_task t \<and> task t \<noteq> task other then Inl (Some InvalidArgument, t)
      else Inr (t\<lparr>has_task := has_task other, task := task other\<rparr>))"

definition merge_type :: "bool \<Rightarrow> bool \<Rightarrow> parsed_name \<Rightarrow> parsed_name \<Rightarrow> merge_state" where
  "merge_type soft override other t =
     (if \<not> has_type other then Inr t
      else if has_type t \<and> dev_type t \<noteq> dev_type other then
        if \<not> soft then Inl (Some InvalidArgument, t)
        else if override then Inr (t\<lparr>dev_type := dev_type other\<rparr>)
        else Inl (None, t\<lparr>has_id := False, has_type := False\<rparr>)
      else Inr (t\<lparr>has_type := has_type other, dev_type := dev_type other\<rparr>))"

definition merge_id :: "bool \<Rightarrow> bool \<Rightarrow> parsed_name \<Rightarrow> parsed_name \<Rightarrow> merge_state" where
  "merge_id soft override other t =
     (if \<not> has_id other then Inr t
      else if has_id t \<and> dev_id t \<noteq> dev_id other then
        if \<not> soft then Inl (Some InvalidArgument, t)
        else if override then Inr (t\<lparr>dev_id := dev_id other\<rparr>)
        else Inl (None, t\<lparr>has_id := False\<rparr>)
      else Inr (t\<lparr>has_id := has_id other, dev_id := dev_id other\<rparr>))"

definition andthen :: "merge_state \<Rightarrow> (parsed_name \<Rightarrow> merge_state) \<Rightarrow> merge_state" where
  "andthen x f = (case x of Inl r \<Rightarrow> Inl r | Inr t \<Rightarrow> f t)"

definition MergeDevNamesImpl :: "parsed_name \<Rightarrow> parsed_name \<Rightarrow> bool \<Rightarrow> bool \<Rightarrow> status_error option \<times> parsed_name" where
  "MergeDevNamesImpl target other soft override =
     (case andthen (andthen (andthen (andthen (merge_job other target) (merge_replica other)) (merge_task other)) (merge_type soft override other))
        (merge_id soft override other) of
        Inl r \<Rightarrow> r
      | Inr t \<Rightarrow> (None, t))"

definition MergeDevNames :: "parsed_name \<Rightarrow> parsed_name \<Rightarrow> bool \<Rightarrow> status_error option \<times> parsed_name" where
  "MergeDevNames target other soft = MergeDevNamesImpl target other soft False"

definition MergeOverrideDevNames :: "parsed_name \<Rightarrow> parsed_name \<Rightarrow> status_error option \<times> parsed_name" where
  "MergeOverrideDevNames target other = MergeDevNamesImpl target other True True"

definition IsSameAddressSpace :: "parsed_name \<Rightarrow> parsed_name \<Rightarrow> bool" where
  "IsSameAddressSpace a b \<longleftrightarrow> (has_job a \<and> has_job b \<and> job a = job b) \<and> (has_replica a \<and> has_replica b \<and> replica a = replica b) \<and>
     (has_task a \<and> has_task b \<and> task a = task b)"

definition IsSameAddressSpace_names :: "consume_prefix \<Rightarrow> string \<Rightarrow> string \<Rightarrow> bool" where
  "IsSameAddressSpace_names cp src dst =
     (case ParseFullName cp src of None \<Rightarrow> False
      | Some x \<Rightarrow> (case ParseFullName cp dst of None \<Rightarrow> False | Some y \<Rightarrow> IsSameAddressSpace x y))"

subsection \<open>Reading back what was written\<close>

lemma name_char_stop: "name_char c \<Longrightarrow> c \<noteq> CHR ''/'' \<and> c \<noteq> CHR '':'' \<and> c \<noteq> CHR ''*''"
  by (auto simp: name_char_def IsAlphaNum_def IsAlpha_def Let_def)

lemma IsAlpha_name_char: "IsAlpha c \<Longrightarrow> name_char c"
  by (simp add: name_char_def IsAlphaNum_def)

definition slash_or_end :: "string \<Rightarrow> bool" where
  "slash_or_end r \<longleftrightarrow> r = [] \<or> hd r = CHR ''/''"

lemma name_rest_append:
  assumes "list_all name_char n" "\<And>c. name_char c \<Longrightarrow> \<not> stop c" "r = [] \<or> stop (hd r)"
  shows "name_rest stop (n @ r) = Some (n, r)"
  using assms(1)
proof (induction n)
  case Nil
  show ?case using assms(3) by (cases r) auto
qed (use assms(2) in auto)

lemma consume_name_append:
  assumes "IsJobName n" "\<And>c. name_char c \<Longrightarrow> \<not> stop c" "r = [] \<or> stop (hd r)"
  shows "consume_name stop (n @ r) = Some (n, r)"
  using assms by (cases n) (auto simp: consume_name_def IsJobName_def name_rest_append)

lemma IsJobName_facts: "IsJobName n \<Longrightarrow> \<exists>c s. n = c # s \<and> name_char c"
  by (auto simp: IsJobName_def IsAlpha_name_char split: list.splits)

lemma ConsumeJobName_append: "IsJobName j \<Longrightarrow> slash_or_end r \<Longrightarrow> ConsumeJobName (j @ r) = Some (j, r) \<and> strip_prefix (j @ r) ''*'' = None"
  using IsJobName_facts [of j] name_char_stop by (auto simp: ConsumeJobName_def slash_or_end_def consume_name_append)

lemma ConsumeDeviceType_append:
  "IsJobName t \<Longrightarrow> ConsumeDeviceType (t @ CHR '':'' # r) = Some (t, CHR '':'' # r) \<and> strip_prefix (t @ CHR '':'' # r) ''*'' = None"
  using IsJobName_facts [of t] name_char_stop by (auto simp: ConsumeDeviceType_def consume_name_append)

lemma to_int32_id: "0 \<le> n \<Longrightarrow> n < 2 ^ 31 \<Longrightarrow> to_int32 (nat n) = n"
  by (simp add: to_int32_def Let_def)

lemma ConsumeNumber_append:
  assumes "0 \<le> n" "n < 2 ^ 31" "slash_or_end r"
  shows "ConsumeNumber (FastInt32ToBufferLeft n @ r) = Some (n, r) \<and> strip_prefix (FastInt32ToBufferLeft n @ r) ''*'' = None"
proof -
  let ?ds = "FastUInt64ToBufferLeft (nat n)"
  have same: "FastInt32ToBufferLeft n = ?ds" using FastInt_decimal(2) [of n] assms by simp
  have "\<not> (r \<noteq> [] \<and> isdigit (hd r))" using assms(3) by (auto simp: slash_or_end_def isdigit_def)
  note tw = takeWhile_digits [OF decimal_digits(1) this, of "nat n"]
  have "ConsumeLeadingDigits (?ds @ r) = Some (nat n, r)"
    unfolding ConsumeLeadingDigits_spec using tw decimal_digits(2,3) [of "nat n"] assms by (simp add: Let_def)
  moreover have "strip_prefix (?ds @ r) ''*'' = None"
    using decimal_digits(1,2) [of "nat n"] by (cases ?ds) (auto simp: isdigit_def)
  ultimately show ?thesis using assms unfolding same by (simp add: ConsumeNumber_def to_int32_id)
qed

definition valid_part :: "bool \<Rightarrow> int \<Rightarrow> bool" where
  "valid_part h n \<longleftrightarrow> (h \<longrightarrow> 0 \<le> n \<and> n < 2 ^ 31)"

definition name_ok :: "parsed_name \<Rightarrow> bool" where
  "name_ok pn \<longleftrightarrow> (has_job pn \<longrightarrow> IsJobName (job pn)) \<and> valid_part (has_replica pn) (replica pn) \<and> valid_part (has_task pn) (task pn) \<and>
     (has_type pn \<longrightarrow> IsJobName (dev_type pn)) \<and> valid_part (has_id pn) (dev_id pn) \<and> (has_id pn \<longrightarrow> has_type pn)"

definition job_text :: "parsed_name \<Rightarrow> string" where
  "job_text pn = (if has_job pn then ''/job:'' @ job pn else [])"

definition replica_text :: "parsed_name \<Rightarrow> string" where
  "replica_text pn = (if has_replica pn then ''/replica:'' @ FastInt32ToBufferLeft (replica pn) else [])"

definition task_text :: "parsed_name \<Rightarrow> string" where
  "task_text pn = (if has_task pn then ''/task:'' @ FastInt32ToBufferLeft (task pn) else [])"

definition device_text :: "parsed_name \<Rightarrow> string" where
  "device_text pn = (if has_type pn then ''/device:'' @ dev_type pn @ '':'' @ (if has_id pn then FastInt32ToBufferLeft (dev_id pn) else ''*'') else [])"

lemmas text_defs = job_text_def replica_text_def task_text_def device_text_def

lemma ParsedNameToString_parts: "ParsedNameToString pn = job_text pn @ replica_text pn @ task_text pn @ device_text pn"
  by (simp add: ParsedNameToString_def text_defs)

lemma parse_job_text:
  assumes "has_job pn \<longrightarrow> IsJobName (job pn)" "slash_or_end r" "strip_prefix r ''/job:'' = None"
  shows "parse_job strip_prefix (b, job_text pn @ r, p) =
    Some (b \<or> has_job pn, r, if has_job pn then p\<lparr>has_job := True, job := job pn\<rparr> else p)"
  using assms ConsumeJobName_append [of "job pn" r] strip_prefix_append [of "''/job:''" "job pn @ r"]
  by (auto simp: parse_job_def job_text_def simp del: strip_prefix_append)

lemma parse_replica_text:
  assumes "valid_part (has_replica pn) (replica pn)" "slash_or_end r" "strip_prefix r ''/replica:'' = None"
  shows "parse_replica strip_prefix (b, replica_text pn @ r, p) =
    Some (b \<or> has_replica pn, r, if has_replica pn then p\<lparr>has_replica := True, replica := replica pn\<rparr> else p)"
  using assms ConsumeNumber_append [of "replica pn" r] strip_prefix_append [of "''/replica:''" "FastInt32ToBufferLeft (replica pn) @ r"]
  by (auto simp: parse_replica_def replica_text_def valid_part_def simp del: strip_prefix_append)

lemma parse_task_text:
  assumes "valid_part (has_task pn) (task pn)" "slash_or_end r" "strip_prefix r ''/task:'' = None"
  shows "parse_task strip_prefix (b, task_text pn @ r, p) =
    Some (b \<or> has_task pn, r, if has_task pn then p\<lparr>has_task := True, task := task pn\<rparr> else p)"
  using assms ConsumeNumber_append [of "task pn" r] strip_prefix_append [of "''/task:''" "FastInt32ToBufferLeft (task pn) @ r"]
  by (auto simp: parse_task_def task_text_def valid_part_def simp del: strip_prefix_append)

lemma parse_device_text:
  assumes "name_ok pn"
  shows "parse_device strip_prefix (b, device_text pn, p) =
    Some (b \<or> has_type pn, [], if has_type pn then p\<lparr>has_type := True, dev_type := dev_type pn, has_id := has_id pn,
        dev_id := (if has_id pn then dev_id pn else dev_id p)\<rparr> else p)"
proof (cases "has_type pn")
  case True
  let ?i = "if has_id pn then FastInt32ToBufferLeft (dev_id pn) else ''*''"
  have "parse_id strip_prefix ?i q = Some (True, [], q\<lparr>has_id := has_id pn, dev_id := (if has_id pn then dev_id pn else dev_id q)\<rparr>)" for q
    using assms ConsumeNumber_append [of "dev_id pn" "[]"] by (auto simp: parse_id_def name_ok_def valid_part_def slash_or_end_def)
  then show ?thesis using True assms ConsumeDeviceType_append [of "dev_type pn" ?i]
      strip_prefix_append [of "''/device:''" "dev_type pn @ CHR '':'' # ?i"]
    by (auto simp: parse_device_def device_text_def name_ok_def simp del: strip_prefix_append)
qed (use assms in \<open>auto simp: parse_device_def device_text_def name_ok_def strip_prefix_def\<close>)

text \<open>What follows a part starts with none of the prefixes that are tried on it.\<close>

lemma rest_facts:
  "slash_or_end (device_text pn)" "slash_or_end (task_text pn @ device_text pn)" "slash_or_end (replica_text pn @ task_text pn @ device_text pn)"
  "strip_prefix (device_text pn) ''/task:'' = None" "strip_prefix (task_text pn @ device_text pn) ''/replica:'' = None"
  "strip_prefix (replica_text pn @ task_text pn @ device_text pn) ''/job:'' = None"
  by (auto simp: slash_or_end_def text_defs strip_prefix_def)

text \<open>The name that is read: the parts that are set, and the defaults for the others.\<close>

definition read_back :: "parsed_name \<Rightarrow> parsed_name" where
  "read_back pn = \<lparr>has_job = has_job pn, job = (if has_job pn then job pn else []),
     has_replica = has_replica pn, replica = (if has_replica pn then replica pn else 0),
     has_task = has_task pn, task = (if has_task pn then task pn else 0),
     has_type = has_type pn, dev_type = (if has_type pn then dev_type pn else []),
     has_id = has_id pn, dev_id = (if has_id pn then dev_id pn else 0)\<rparr>"

lemma parse_round_text:
  assumes "name_ok pn"
  shows "parse_round strip_prefix (ParsedNameToString pn, Clear) =
    Some (has_job pn \<or> has_replica pn \<or> has_task pn \<or> has_type pn, [], read_back pn)"
proof -
  have legacy: "parse_legacy strip_prefix (c # s) (d # t) ty (b, [], p) = Some (b, [], p)" for c s d t ty b p
    by (simp add: parse_legacy_def strip_prefix_def)
  have ok: "has_job pn \<longrightarrow> IsJobName (job pn)" "valid_part (has_replica pn) (replica pn)" "valid_part (has_task pn) (task pn)"
    "\<not> has_type pn \<longrightarrow> \<not> has_id pn"
    using assms by (auto simp: name_ok_def)
  show ?thesis unfolding parse_round_def ParsedNameToString_parts
    using ok by (simp add: parse_job_text parse_replica_text parse_task_text parse_device_text [OF assms] rest_facts legacy)
      (auto simp: read_back_def Clear_def)
qed

lemma ParseFullName_one_round:
  assumes "parse_round cp (c # d # s, Clear) = Some (True, [], p)"
  shows "ParseFullName cp (c # d # s) = Some p"
  using assms by (simp add: ParseFullName_def)

lemma ParseFullName_text:
  assumes "name_ok pn"
  shows "ParseFullName strip_prefix (ParsedNameToString pn) = Some (read_back pn)"
proof (cases "has_job pn \<or> has_replica pn \<or> has_task pn \<or> has_type pn")
  case True
  then have "2 \<le> length (ParsedNameToString pn)" by (auto simp: ParsedNameToString_def)
  then obtain c d s where s: "ParsedNameToString pn = c # d # s"
    by (cases "ParsedNameToString pn"; cases "tl (ParsedNameToString pn)") auto
  then show ?thesis using parse_round_text [OF assms] True ParseFullName_one_round [of strip_prefix c d s] by simp
next
  case False
  then have "ParsedNameToString pn = []" "read_back pn = Clear"
    using assms by (auto simp: ParsedNameToString_def name_ok_def read_back_def Clear_def)
  then show ?thesis by (simp add: ParseFullName_def)
qed


definition sample_name :: parsed_name where
  "sample_name = \<lparr>has_job = True, job = ''worker'', has_replica = False, replica = 0, has_task = True, task = 12,
     has_type = True, dev_type = ''GPU'', has_id = True, dev_id = 3\<rparr>"


subsection \<open>Canonical names\<close>

lemma CompleteName_full: "fully_specified (CompleteName base pn)"
  by (simp add: CompleteName_def fully_specified_def Let_def)

lemma CompleteName_ok: "fully_specified base \<Longrightarrow> name_ok base \<Longrightarrow> name_ok pn \<Longrightarrow> name_ok (CompleteName base pn)"
  by (auto simp: CompleteName_def fully_specified_def name_ok_def valid_part_def Let_def)

lemma CompleteName_id: "fully_specified pn \<Longrightarrow> CompleteName base pn = pn"
  by (simp add: CompleteName_def fully_specified_def)

lemma read_back_full: "fully_specified pn \<Longrightarrow> read_back pn = pn"
  by (simp add: read_back_def fully_specified_def)

lemma text_not_local: "fully_specified pn \<Longrightarrow> ParseLocalName cp (ParsedNameToString pn) p = None"
  by (simp add: ParseLocalName_def ParsedNameToString_def fully_specified_def ConsumeDeviceType_def consume_name_def IsAlpha_def Let_def)

text \<open>
  the canonical name of a device, completed from a base name, names every part, keeps the parts that were given, has those of the
  base name otherwise, and is its own canonical name.
\<close>

theorem canonical_name_correct:
  assumes "documented cp" "name_ok pn" "name_ok base" "fully_specified base"
  shows "\<exists>q. CanonicalizeDeviceName cp (ParsedNameToString pn) (ParsedNameToString base) = Inr (ParsedNameToString q) \<and>
    fully_specified q \<and> job q = (if has_job pn then job pn else job base) \<and> replica q = (if has_replica pn then replica pn else replica base) \<and>
    task q = (if has_task pn then task pn else task base) \<and> dev_type q = (if has_type pn then dev_type pn else dev_type base) \<and>
    dev_id q = (if has_id pn then dev_id pn else dev_id base) \<and>
    CanonicalizeDeviceName cp (ParsedNameToString q) (ParsedNameToString base) = Inr (ParsedNameToString q)"
proof -
  note cp = documented_strip [OF assms(1)]
  let ?q = "CompleteName base (read_back pn)"
  have ok: "name_ok (read_back pn)" using assms(2) by (auto simp: name_ok_def valid_part_def read_back_def)
  have base: "ParseFullName strip_prefix (ParsedNameToString base) = Some base"
    using ParseFullName_text [OF assms(3)] read_back_full [OF assms(4)] by simp
  have qok: "name_ok ?q" "fully_specified ?q" using CompleteName_ok [OF assms(4,3) ok] CompleteName_full by auto
  have q: "ParseFullName strip_prefix (ParsedNameToString ?q) = Some ?q"
    using ParseFullName_text [OF qok(1)] read_back_full [OF qok(2)] by simp
  have "ParseLocalName strip_prefix (ParsedNameToString pn) Clear = None"
    by (auto simp: ParseLocalName_def ParsedNameToString_def ConsumeDeviceType_def consume_name_def IsAlpha_def Let_def)
  then have "CanonicalizeDeviceName cp (ParsedNameToString pn) (ParsedNameToString base) = Inr (ParsedNameToString ?q)"
    unfolding cp CanonicalizeDeviceName_def by (simp add: base assms(4) ParseFullName_text [OF assms(2)])
  moreover have "CanonicalizeDeviceName cp (ParsedNameToString ?q) (ParsedNameToString base) = Inr (ParsedNameToString ?q)"
    unfolding cp CanonicalizeDeviceName_def by (simp add: base assms(4) q text_not_local [OF qok(2)] CompleteName_id [OF qok(2)])
  moreover have "job ?q = (if has_job pn then job pn else job base)" "replica ?q = (if has_replica pn then replica pn else replica base)"
    "task ?q = (if has_task pn then task pn else task base)" "dev_type ?q = (if has_type pn then dev_type pn else dev_type base)"
    "dev_id ?q = (if has_id pn then dev_id pn else dev_id base)"
    by (simp_all add: CompleteName_def read_back_def Let_def)
  ultimately show ?thesis using qok(2) by blast
qed

definition base_name :: parsed_name where
  "base_name = \<lparr>has_job = True, job = ''localhost'', has_replica = True, replica = 0, has_task = True, task = 0,
     has_type = True, dev_type = ''CPU'', has_id = True, dev_id = 0\<rparr>"

theorem canonical_name_correct_witness:
  "\<exists>q. CanonicalizeDeviceName strip_prefix (ParsedNameToString sample_name) (ParsedNameToString base_name) = Inr (ParsedNameToString q) \<and>
     job q = ''worker'' \<and> replica q = 0 \<and> task q = 12 \<and> dev_type q = ''GPU'' \<and> dev_id q = 3"
proof -
  have ok: "name_ok sample_name" "name_ok base_name" "fully_specified base_name" by code_simp+
  show ?thesis using canonical_name_correct [OF strip_prefix_documented ok] by (auto simp: sample_name_def base_name_def)
qed

subsection \<open>Merging\<close>

lemma IsSpecification_refl: "IsSpecification p p"
  by (simp add: IsSpecification_def part_spec_def)

lemma IsSpecification_trans: "IsSpecification p q \<Longrightarrow> IsSpecification q r \<Longrightarrow> IsSpecification p r"
  by (auto simp: IsSpecification_def part_spec_def)

lemma EnsureSpecification_spec: "IsSpecification p (EnsureSpecification q p)"
  by (simp add: IsSpecification_def part_spec_def EnsureSpecification_def Let_def)

lemma part_spec_union:
  "\<not> (h \<and> h' \<and> x \<noteq> y) \<Longrightarrow> part_spec (h \<or> h') (if h' then y else x) g z \<longleftrightarrow> part_spec h x g z \<and> part_spec h' y g z"
  by (auto simp: part_spec_def)

text \<open>Two parts that can be merged, and what comes out.\<close>

definition compatible :: "parsed_name \<Rightarrow> parsed_name \<Rightarrow> bool" where
  "compatible p q \<longleftrightarrow> \<not> (has_job p \<and> has_job q \<and> job p \<noteq> job q) \<and> \<not> (has_replica p \<and> has_replica q \<and> replica p \<noteq> replica q) \<and>
     \<not> (has_task p \<and> has_task q \<and> task p \<noteq> task q) \<and> \<not> (has_type p \<and> has_type q \<and> dev_type p \<noteq> dev_type q) \<and>
     \<not> (has_id p \<and> has_id q \<and> dev_id p \<noteq> dev_id q)"

lemma part_spec_common: "part_spec h x g z \<Longrightarrow> part_spec h' y g z \<Longrightarrow> \<not> (h \<and> h' \<and> x \<noteq> y)"
  by (auto simp: part_spec_def)

lemma common_specification: "IsSpecification p r \<Longrightarrow> IsSpecification q r \<Longrightarrow> compatible p q"
  unfolding IsSpecification_def compatible_def by (elim conjE, intro conjI; erule part_spec_common, assumption)

lemmas merge_defs = merge_job_def merge_replica_def merge_task_def merge_type_def merge_id_def andthen_def

lemma MergeDevNames_compatible:
  "compatible p q \<Longrightarrow> MergeDevNames p q False = (None, EnsureSpecification p q)"
  unfolding MergeDevNames_def MergeDevNamesImpl_def compatible_def EnsureSpecification_def Let_def merge_defs
  by (cases "has_job q"; cases "has_replica q"; cases "has_task q"; cases "has_type q"; cases "has_id q") simp_all

lemma MergeDevNames_incompatible:
  "\<not> compatible p q \<Longrightarrow> fst (MergeDevNames p q False) = Some InvalidArgument"
  unfolding MergeDevNames_def MergeDevNamesImpl_def compatible_def merge_defs
  by (cases "has_job q"; cases "has_replica q"; cases "has_task q"; cases "has_type q"; cases "has_id q") (auto split: if_splits)

text \<open>
  C33: \<^verbatim>\<open>MergeDevNames\<close> without soft placement computes least upper bounds: it succeeds exactly when some name specifies both arguments, and
  then the result specifies both and every name that specifies both specifies the result.
\<close>

theorem merge_is_least_specification:
  "(fst (MergeDevNames p q False) = None \<longleftrightarrow> (\<exists>r. IsSpecification p r \<and> IsSpecification q r)) \<and>
   (fst (MergeDevNames p q False) = None \<longrightarrow>
      (\<forall>r. IsSpecification (snd (MergeDevNames p q False)) r \<longleftrightarrow> IsSpecification p r \<and> IsSpecification q r))"
proof (cases "compatible p q")
  case True
  have "IsSpecification (EnsureSpecification p q) r \<longleftrightarrow> IsSpecification p r \<and> IsSpecification q r" for r
  proof -
    have fields: "has_job (EnsureSpecification p q) = (has_job p \<or> has_job q)" "job (EnsureSpecification p q) = (if has_job q then job q else job p)"
      "has_replica (EnsureSpecification p q) = (has_replica p \<or> has_replica q)" "replica (EnsureSpecification p q) = (if has_replica q then replica q else replica p)"
      "has_task (EnsureSpecification p q) = (has_task p \<or> has_task q)" "task (EnsureSpecification p q) = (if has_task q then task q else task p)"
      "has_type (EnsureSpecification p q) = (has_type p \<or> has_type q)" "dev_type (EnsureSpecification p q) = (if has_type q then dev_type q else dev_type p)"
      "has_id (EnsureSpecification p q) = (has_id p \<or> has_id q)" "dev_id (EnsureSpecification p q) = (if has_id q then dev_id q else dev_id p)"
      by (simp_all add: EnsureSpecification_def Let_def)
    show ?thesis using True unfolding IsSpecification_def fields compatible_def by (elim conjE) (simp only: part_spec_union simp_thms, blast)
  qed
  then show ?thesis using IsSpecification_refl [of "EnsureSpecification p q"] by (auto simp: MergeDevNames_compatible [OF True])
next
  case False
  then have "\<not> (IsSpecification p r \<and> IsSpecification q r)" for r using common_specification by blast
  then show ?thesis using MergeDevNames_incompatible [OF False] by simp
qed

theorem merge_is_least_specification_witness:
  "fst (MergeDevNames sample_name (Clear\<lparr>has_replica := True, replica := 1\<rparr>) False) = None \<and>
   IsSpecification sample_name (snd (MergeDevNames sample_name (Clear\<lparr>has_replica := True, replica := 1\<rparr>) False))"
proof -
  have "fst (MergeDevNames sample_name (Clear\<lparr>has_replica := True, replica := 1\<rparr>) False) = None" by code_simp
  with merge_is_least_specification [of sample_name "Clear\<lparr>has_replica := True, replica := 1\<rparr>"] show ?thesis
    using IsSpecification_refl by blast
qed

text \<open>
  Numbers in a name are read as 64-bit ones and stored as 32-bit ones without a test: the task of \<^verbatim>\<open>/task:4294967297\<close> is 1, and the
  one of \<^verbatim>\<open>/task:4294967295\<close> is -1.
\<close>

theorem device_number_truncated:
  "map_option task (ParseFullName strip_prefix ''/task:4294967297'') = Some 1 \<and>
   map_option task (ParseFullName strip_prefix ''/task:4294967295'') = Some (-1)"
proof -
  have n: "ConsumeNumber ''4294967297'' = Some (1, [])" "ConsumeNumber ''4294967295'' = Some (-1, [])"
    by (simp_all add: ConsumeNumber_def ConsumeLeadingDigits_spec isdigit_def to_int32_def Let_def)
  have start: "parse_job strip_prefix (False, ''/task:'' @ ds, p) = Some (False, ''/task:'' @ ds, p)"
    "parse_replica strip_prefix (False, ''/task:'' @ ds, p) = Some (False, ''/task:'' @ ds, p)" for ds p
    by (simp_all add: parse_job_def parse_replica_def strip_prefix_def)
  have stop: "parse_device strip_prefix (True, [], p) = Some (True, [], p)" "parse_legacy strip_prefix (c # s) (d # t) ty (True, [], p) = Some (True, [], p)"
    for c s d t ty p by (simp_all add: parse_device_def parse_legacy_def strip_prefix_def)
  have "parse_task strip_prefix (False, ''/task:4294967297'', p) = Some (True, [], p\<lparr>has_task := True, task := 1\<rparr>)"
    "parse_task strip_prefix (False, ''/task:4294967295'', p) = Some (True, [], p\<lparr>has_task := True, task := -1\<rparr>)" for p
    by (simp_all add: parse_task_def strip_prefix_def n)
  then have "parse_round strip_prefix (''/task:4294967297'', Clear) = Some (True, [], Clear\<lparr>has_task := True, task := 1\<rparr>)"
    "parse_round strip_prefix (''/task:4294967295'', Clear) = Some (True, [], Clear\<lparr>has_task := True, task := -1\<rparr>)"
    using start [of "''4294967297''"] start [of "''4294967295''"] by (simp_all add: parse_round_def stop)
  from this [THEN ParseFullName_one_round] show ?thesis by simp
qed

end
