(* ===== verification/Rendezvous.thy ===== *)
theory Rendezvous
  imports Device_Names
begin

text \<open>
  \<^verbatim>\<open>core/framework/rendezvous.cc\<close>: the table of channels through which executors exchange tensors, and the keys that name the
  channels. Each operation takes its lock, changes the table, and calls back after it has released the lock: one operation is one step here,
  which returns the calls it makes. The blocking \<^verbatim>\<open>Recv\<close>, which waits for such a call, is left out.
\<close>

subsection \<open>Keys\<close>

record frame_and_iter =
  frame_id :: nat
  iter_id :: int

definition CreateKey :: "string \<Rightarrow> nat \<Rightarrow> string \<Rightarrow> string \<Rightarrow> frame_and_iter \<Rightarrow> string" where
  "CreateKey src_dev incarnation dst_dev name frame_iter =
     src_dev @ '';'' @ Uint64ToHexString incarnation @ '';'' @ dst_dev @ '';'' @ name @ '';'' @
     FastUInt64ToBufferLeft (frame_id frame_iter) @ '':'' @ FastInt64ToBufferLeft (iter_id frame_iter)"

fun ConsumeNextPart :: "string \<Rightarrow> char \<Rightarrow> string \<times> string" where
  "ConsumeNextPart [] delim = ([], [])"
| "ConsumeNextPart (c # s) delim =
     (if c = delim then ([], s) else let (r, rest) = ConsumeNextPart s delim in (c # r, rest))"

record parsed_key =
  buf :: string
  src_device :: string
  pk_src :: parsed_name
  src_incarnation :: nat
  dst_device :: string
  pk_dst :: parsed_name
  edge_name :: string

definition ParseKey :: "consume_prefix \<Rightarrow> string \<Rightarrow> status_error + parsed_key" where
  "ParseKey cp key =
     (let (p0, s0) = ConsumeNextPart key CHR '';''; (p1, s1) = ConsumeNextPart s0 CHR '';''; (p2, s2) = ConsumeNextPart s1 CHR '';'';
          (p3, s3) = ConsumeNextPart s2 CHR '';''; (p4, s4) = ConsumeNextPart s3 CHR '';'' in
      if s4 = [] \<and> p4 \<noteq> [] then
        case ParseFullName cp p0 of None \<Rightarrow> Inl InvalidArgument
        | Some src \<Rightarrow>
        case HexStringToUint64 p1 of None \<Rightarrow> Inl InvalidArgument
        | Some inc \<Rightarrow>
        case ParseFullName cp p2 of None \<Rightarrow> Inl InvalidArgument
        | Some dst \<Rightarrow>
        if p3 = [] then Inl InvalidArgument
        else Inr \<lparr>buf = key, src_device = p0, pk_src = src, src_incarnation = inc, dst_device = p2, pk_dst = dst, edge_name = p3\<rparr>
      else Inl InvalidArgument)"

subsection \<open>The table\<close>

text \<open>
  Device contexts are names; \<open>refs\<close> counts the references that the table holds on each. \<^verbatim>\<open>Tensor()\<close> is the argument \<open>t0\<close>. A callback is
  known by a value of type \<open>'w\<close>. \<open>table_keys\<close> are the hash codes with an entry in the hash table.
\<close>

record args =
  device_context :: "nat option"
  alloc_attrs :: nat

definition Args :: args where
  "Args = \<lparr>device_context = None, alloc_attrs = 0\<rparr>"

record ('v, 'w) item =
  waiter :: "'w option"
  item_value :: 'v
  item_dead :: bool
  send_args :: args
  recv_args :: args

record ('v, 'w) rendezvous =
  rdv_table :: "nat \<Rightarrow> ('v, 'w) item list"
  table_keys :: "nat list"
  rdv_status :: "status_error option"
  refs :: "nat \<Rightarrow> int"

record ('v, 'w) call =
  c_waiter :: 'w
  c_status :: "status_error option"
  c_send_args :: args
  c_recv_args :: args
  c_value :: 'v
  c_dead :: bool

definition NewLocalRendezvous :: "('v, 'w) rendezvous" where
  "NewLocalRendezvous = \<lparr>rdv_table = (\<lambda>_. []), table_keys = [], rdv_status = None, refs = (\<lambda>_. 0)\<rparr>"

definition IsSendValue :: "('v, 'w) item \<Rightarrow> bool" where
  "IsSendValue i \<longleftrightarrow> waiter i = None"

definition add_ref :: "int \<Rightarrow> args \<Rightarrow> (nat \<Rightarrow> int) \<Rightarrow> (nat \<Rightarrow> int)" where
  "add_ref d a r = (case device_context a of None \<Rightarrow> r | Some c \<Rightarrow> r(c := r c + d))"

text \<open>\<^verbatim>\<open>~Item\<close>.\<close>

definition delete_item :: "('v, 'w) item \<Rightarrow> (nat \<Rightarrow> int) \<Rightarrow> (nat \<Rightarrow> int)" where
  "delete_item i r = add_ref (-1) (recv_args i) (add_ref (-1) (send_args i) r)"

definition touch :: "nat \<Rightarrow> ('v, 'w) item list \<Rightarrow> ('v, 'w) rendezvous \<Rightarrow> ('v, 'w) rendezvous" where
  "touch h q r = r\<lparr>rdv_table := (rdv_table r)(h := q), table_keys := (if h \<in> set (table_keys r) then table_keys r else table_keys r @ [h])\<rparr>"

definition Send :: "nat \<Rightarrow> args \<Rightarrow> 'v \<Rightarrow> bool \<Rightarrow> ('v, 'w) rendezvous \<Rightarrow> status_error option \<times> ('v, 'w) rendezvous \<times> ('v, 'w) call list" where
  "Send key_hash sargs val dead r =
     (case rdv_status r of
        Some s \<Rightarrow> (Some s, r, [])
      | None \<Rightarrow>
        let queue = rdv_table r key_hash in
        if queue = [] \<or> IsSendValue (hd queue)
        then let i = \<lparr>waiter = None, item_value = val, item_dead = dead, send_args = sargs, recv_args = Args\<rparr> in
             (None, (touch key_hash (queue @ [i]) r)\<lparr>refs := add_ref 1 sargs (refs r)\<rparr>, [])
        else let i = hd queue in
             (None, (touch key_hash (tl queue) r)\<lparr>refs := delete_item i (refs r)\<rparr>,
              [\<lparr>c_waiter = the (waiter i), c_status = None, c_send_args = sargs, c_recv_args = recv_args i, c_value = val, c_dead = dead\<rparr>]))"

definition RecvAsync :: "'v \<Rightarrow> nat \<Rightarrow> args \<Rightarrow> 'w \<Rightarrow> ('v, 'w) rendezvous \<Rightarrow> ('v, 'w) rendezvous \<times> ('v, 'w) call list" where
  "RecvAsync t0 key_hash rargs w r =
     (case rdv_status r of
        Some s \<Rightarrow> (r, [\<lparr>c_waiter = w, c_status = Some s, c_send_args = Args, c_recv_args = rargs, c_value = t0, c_dead = False\<rparr>])
      | None \<Rightarrow>
        let queue = rdv_table r key_hash in
        if queue = [] \<or> \<not> IsSendValue (hd queue)
        then let i = \<lparr>waiter = Some w, item_value = t0, item_dead = False, send_args = Args, recv_args = rargs\<rparr> in
             ((touch key_hash (queue @ [i]) r)\<lparr>refs := add_ref 1 rargs (refs r)\<rparr>, [])
        else let i = hd queue in
             ((touch key_hash (tl queue) r)\<lparr>refs := delete_item i (refs r)\<rparr>,
              [\<lparr>c_waiter = w, c_status = None, c_send_args = send_args i, c_recv_args = rargs, c_value = item_value i, c_dead = item_dead i\<rparr>]))"

text \<open>
  \<^verbatim>\<open>Status::Update\<close> keeps an error that is there. \<open>order\<close> is the order in which the hash table is traversed.
\<close>

definition abort_calls :: "'v \<Rightarrow> status_error \<Rightarrow> ('v, 'w) item list \<Rightarrow> ('v, 'w) call list" where
  "abort_calls t0 s is =
     map (\<lambda>i. \<lparr>c_waiter = the (waiter i), c_status = Some s, c_send_args = Args, c_recv_args = Args, c_value = t0, c_dead = False\<rparr>)
       (filter (\<lambda>i. \<not> IsSendValue i) is)"

definition StartAbort :: "'v \<Rightarrow> (nat list \<Rightarrow> nat list) \<Rightarrow> status_error \<Rightarrow> ('v, 'w) rendezvous \<Rightarrow> ('v, 'w) rendezvous \<times> ('v, 'w) call list" where
  "StartAbort t0 order s r =
     (let items = concat (map (rdv_table r) (order (table_keys r))) in
      (r\<lparr>rdv_status := (case rdv_status r of None \<Rightarrow> Some s | Some e \<Rightarrow> Some e), rdv_table := (\<lambda>_. []), table_keys := [],
         refs := fold delete_item items (refs r)\<rparr>,
       abort_calls t0 s items))"

definition delete_rendezvous :: "'v \<Rightarrow> (nat list \<Rightarrow> nat list) \<Rightarrow> ('v, 'w) rendezvous \<Rightarrow> ('v, 'w) rendezvous \<times> ('v, 'w) call list" where
  "delete_rendezvous t0 order r = (if table_keys r \<noteq> [] then StartAbort t0 order Cancelled r else (r, []))"

subsection \<open>Sequences of operations\<close>

datatype ('v, 'w) rdv_op = SendOp string args 'v bool | RecvOp string args 'w | AbortOp status_error

text \<open>One operation, with the calls it makes. \<open>KeyHash\<close> is the hash function of the keys.\<close>

definition rdv_step :: "(string \<Rightarrow> nat) \<Rightarrow> 'v \<Rightarrow> (nat list \<Rightarrow> nat list) \<Rightarrow> ('v, 'w) rdv_op \<Rightarrow> ('v, 'w) rendezvous \<Rightarrow>
    ('v, 'w) rendezvous \<times> ('v, 'w) call list" where
  "rdv_step KeyHash t0 order x r =
     (case x of
        SendOp k a v d \<Rightarrow> snd (Send (KeyHash k) a v d r)
      | RecvOp k a w \<Rightarrow> RecvAsync t0 (KeyHash k) a w r
      | AbortOp s \<Rightarrow> StartAbort t0 order s r)"

fun rdv_run :: "(string \<Rightarrow> nat) \<Rightarrow> 'v \<Rightarrow> (nat list \<Rightarrow> nat list) \<Rightarrow> ('v, 'w) rdv_op list \<Rightarrow> ('v, 'w) rendezvous \<Rightarrow>
    ('v, 'w) rendezvous \<times> ('v, 'w) call list" where
  "rdv_run KeyHash t0 order [] r = (r, [])"
| "rdv_run KeyHash t0 order (x # xs) r =
     (let (r1, cs) = rdv_step KeyHash t0 order x r; (r2, ds) = rdv_run KeyHash t0 order xs r1 in (r2, cs @ ds))"

subsection \<open>Keys are read back\<close>

lemma ConsumeNextPart_append: "delim \<notin> set p \<Longrightarrow> ConsumeNextPart (p @ delim # s) delim = (p, s)"
  by (induction p) auto

lemma ConsumeNextPart_end: "delim \<notin> set p \<Longrightarrow> ConsumeNextPart p delim = (p, [])"
  by (induction p) auto

lemma no_semicolon_digits: "CHR '';'' \<notin> set (FastUInt64ToBufferLeft n)" "CHR '':'' \<notin> set (FastUInt64ToBufferLeft n)"
  using decimal_digits(1) [of n] by (auto simp: list_all_iff isdigit_def)

lemma no_semicolon_hex: "CHR '';'' \<notin> set (Uint64ToHexString n)"
proof -
  have "CHR '';'' \<notin> set hexdigits" "length hexdigits = 16" by (simp_all add: hexdigits_def)
  then have "hexdigits ! d \<noteq> CHR '';''" if "d < 16" for d using that by (metis nth_mem)
  then have "CHR '';'' \<notin> set (hex_loop k v)" for k v
  proof (induction k arbitrary: v)
    case (Suc k)
    have "v mod 16 < 16" by simp
    then show ?case using Suc by (metis Un_iff hex_loop.simps(2) list.set_intros(1) set_ConsD set_append singletonD list.set(2) insertE empty_iff empty_set)
  qed simp
  then show ?thesis by (simp add: Uint64ToHexString_def)
qed

definition valid_frame_iter :: "frame_and_iter \<Rightarrow> bool" where
  "valid_frame_iter fi \<longleftrightarrow> frame_id fi < 2 ^ 64 \<and> - (2 ^ 63) \<le> iter_id fi \<and> iter_id fi < 2 ^ 63"

lemma last_part: "valid_frame_iter fi \<Longrightarrow> CHR '';'' \<notin> set (FastUInt64ToBufferLeft (frame_id fi) @ '':'' @ FastInt64ToBufferLeft (iter_id fi))"
  using no_semicolon_digits FastInt_decimal(1) [of "iter_id fi"] by (auto simp: valid_frame_iter_def split: if_splits)

text \<open>
  C31: a key made by \<^verbatim>\<open>CreateKey\<close> from device names without semicolons and a tensor name is taken apart again by \<^verbatim>\<open>ParseKey\<close>.
\<close>

theorem rendezvous_key_roundtrip:
  assumes "ParseFullName cp src = Some p" "ParseFullName cp dst = Some q" "incarnation < 2 ^ 64" "valid_frame_iter fi"
    and "CHR '';'' \<notin> set (src @ dst @ name)" "name \<noteq> []"
  shows "ParseKey cp (CreateKey src incarnation dst name fi) = Inr \<lparr>buf = CreateKey src incarnation dst name fi,
    src_device = src, pk_src = p, src_incarnation = incarnation, dst_device = dst, pk_dst = q, edge_name = name\<rparr>"
proof -
  let ?l = "FastUInt64ToBufferLeft (frame_id fi) @ '':'' @ FastInt64ToBufferLeft (iter_id fi)"
  let ?k = "CreateKey src incarnation dst name fi"
  have k: "?k = src @ CHR '';'' # Uint64ToHexString incarnation @ CHR '';'' # dst @ CHR '';'' # name @ CHR '';'' # ?l"
    by (simp add: CreateKey_def)
  have free: "CHR '';'' \<notin> set src" "CHR '';'' \<notin> set dst" "CHR '';'' \<notin> set name" using assms(5) by simp_all
  have parts: "ConsumeNextPart ?k CHR '';'' = (src, Uint64ToHexString incarnation @ CHR '';'' # dst @ CHR '';'' # name @ CHR '';'' # ?l)"
    "ConsumeNextPart (Uint64ToHexString incarnation @ CHR '';'' # dst @ CHR '';'' # name @ CHR '';'' # ?l) CHR '';'' =
       (Uint64ToHexString incarnation, dst @ CHR '';'' # name @ CHR '';'' # ?l)"
    "ConsumeNextPart (dst @ CHR '';'' # name @ CHR '';'' # ?l) CHR '';'' = (dst, name @ CHR '';'' # ?l)"
    "ConsumeNextPart (name @ CHR '';'' # ?l) CHR '';'' = (name, ?l)" "ConsumeNextPart ?l CHR '';'' = (?l, [])"
    unfolding k by (intro ConsumeNextPart_append ConsumeNextPart_end free no_semicolon_hex last_part [OF assms(4)])+
  have "?l \<noteq> []" by simp
  then show ?thesis
    unfolding ParseKey_def parts(1) Let_def prod.case parts(2) parts(3) parts(4) parts(5)
    using assms(1,2,6) hex_roundtrip [OF assms(3)] by simp
qed

definition sample_frame :: frame_and_iter where
  "sample_frame = \<lparr>frame_id = 0, iter_id = 0\<rparr>"

theorem rendezvous_key_roundtrip_witness:
  "\<exists>k. ParseKey strip_prefix (CreateKey (ParsedNameToString sample_name) 1 (ParsedNameToString base_name) ''edge_5_x'' sample_frame) = Inr k \<and>
     edge_name k = ''edge_5_x'' \<and> same_name (pk_src k) sample_name"
proof -
  have ok: "name_ok sample_name" "name_ok base_name" by code_simp+
  have free: "CHR '';'' \<notin> set (ParsedNameToString sample_name @ ParsedNameToString base_name @ ''edge_5_x'')" by code_simp
  have "same_name (read_back sample_name) sample_name" by code_simp
  then show ?thesis
    using rendezvous_key_roundtrip [OF ParseFullName_text [OF ok(1)] ParseFullName_text [OF ok(2)] _ _ free, of 1 sample_frame]
    by (simp add: valid_frame_iter_def sample_frame_def)
qed

subsection \<open>First in, first out\<close>

definition op_hash :: "(string \<Rightarrow> nat) \<Rightarrow> ('v, 'w) rdv_op \<Rightarrow> nat option" where
  "op_hash KeyHash x = (case x of SendOp k a v d \<Rightarrow> Some (KeyHash k) | RecvOp k a w \<Rightarrow> Some (KeyHash k) | AbortOp s \<Rightarrow> None)"

text \<open>What was sent and what was asked for on a channel, in order, and the calls made by the operations on it.\<close>

fun sends :: "(string \<Rightarrow> nat) \<Rightarrow> nat \<Rightarrow> ('v, 'w) rdv_op list \<Rightarrow> (args \<times> 'v \<times> bool) list" where
  "sends KeyHash h [] = []"
| "sends KeyHash h (SendOp k a v d # xs) = (if KeyHash k = h then [(a, v, d)] else []) @ sends KeyHash h xs"
| "sends KeyHash h (x # xs) = sends KeyHash h xs"

fun recvs :: "(string \<Rightarrow> nat) \<Rightarrow> nat \<Rightarrow> ('v, 'w) rdv_op list \<Rightarrow> (args \<times> 'w) list" where
  "recvs KeyHash h [] = []"
| "recvs KeyHash h (RecvOp k a w # xs) = (if KeyHash k = h then [(a, w)] else []) @ recvs KeyHash h xs"
| "recvs KeyHash h (x # xs) = recvs KeyHash h xs"

fun hash_calls :: "(string \<Rightarrow> nat) \<Rightarrow> 'v \<Rightarrow> (nat list \<Rightarrow> nat list) \<Rightarrow> nat \<Rightarrow> ('v, 'w) rdv_op list \<Rightarrow> ('v, 'w) rendezvous \<Rightarrow> ('v, 'w) call list" where
  "hash_calls KeyHash t0 order h [] r = []"
| "hash_calls KeyHash t0 order h (x # xs) r =
     (let (r1, cs) = rdv_step KeyHash t0 order x r in (if op_hash KeyHash x = Some h then cs else []) @ hash_calls KeyHash t0 order h xs r1)"

definition sent_item :: "args \<times> 'v \<times> bool \<Rightarrow> ('v, 'w) item" where
  "sent_item = (\<lambda>(a, v, d). \<lparr>waiter = None, item_value = v, item_dead = d, send_args = a, recv_args = Args\<rparr>)"

definition waiting_item :: "'v \<Rightarrow> args \<times> 'w \<Rightarrow> ('v, 'w) item" where
  "waiting_item t0 = (\<lambda>(a, w). \<lparr>waiter = Some w, item_value = t0, item_dead = False, send_args = Args, recv_args = a\<rparr>)"

definition delivery :: "(args \<times> 'v \<times> bool) \<times> (args \<times> 'w) \<Rightarrow> ('v, 'w) call" where
  "delivery = (\<lambda>((sa, v, d), (ra, w)). \<lparr>c_waiter = w, c_status = None, c_send_args = sa, c_recv_args = ra, c_value = v, c_dead = d\<rparr>)"

definition channel :: "'v \<Rightarrow> (args \<times> 'v \<times> bool) list \<Rightarrow> (args \<times> 'w) list \<Rightarrow> ('v, 'w) item list" where
  "channel t0 S R = map sent_item (drop (length R) S) @ map (waiting_item t0) (drop (length S) R)"

lemma item_simps [simp]:
  "IsSendValue (sent_item x)" "\<not> IsSendValue (waiting_item t0 y)" "waiter (waiting_item t0 y) = Some (snd y)"
  "recv_args (waiting_item t0 y) = fst y" "send_args (sent_item x) = fst x" "item_value (sent_item x) = fst (snd x)" "item_dead (sent_item x) = snd (snd x)"
  by (simp_all add: IsSendValue_def sent_item_def waiting_item_def split: prod.splits)

lemma item_folds:
  "\<lparr>waiter = None, item_value = v, item_dead = d, send_args = a, recv_args = Args\<rparr> = sent_item (a, v, d)"
  "\<lparr>waiter = Some w, item_value = t0, item_dead = False, send_args = Args, recv_args = a\<rparr> = waiting_item t0 (a, w)"
  by (simp_all add: sent_item_def waiting_item_def)

lemma touch_table [simp]: "rdv_table (touch h q r) h' = (if h' = h then q else rdv_table r h')" "rdv_status (touch h q r) = rdv_status r"
  by (simp_all add: touch_def)

text \<open>A channel holds what was sent and not asked for, or what was asked for and not sent. One operation on it:\<close>

lemma Send_channel:
  assumes "rdv_status r = None" "rdv_table r h = map sent_item S @ map (waiting_item t0) R" "S = [] \<or> R = []" "Send h a v d r = (e, r1, cs)"
  shows "rdv_status r1 = None \<and> (\<forall>h'. h' \<noteq> h \<longrightarrow> rdv_table r1 h' = rdv_table r h') \<and>
    (case R of [] \<Rightarrow> cs = [] \<and> rdv_table r1 h = map sent_item (S @ [(a, v, d)])
     | y # R' \<Rightarrow> cs = [delivery ((a, v, d), y)] \<and> rdv_table r1 h = map (waiting_item t0) R')"
  using assms by (cases R; cases S) (auto simp: Send_def Let_def item_folds delivery_def)

lemma RecvAsync_channel:
  assumes "rdv_status r = None" "rdv_table r h = map sent_item S @ map (waiting_item t0) R" "S = [] \<or> R = []" "RecvAsync t0 h a w r = (r1, cs)"
  shows "rdv_status r1 = None \<and> (\<forall>h'. h' \<noteq> h \<longrightarrow> rdv_table r1 h' = rdv_table r h') \<and>
    (case S of [] \<Rightarrow> cs = [] \<and> rdv_table r1 h = map (waiting_item t0) (R @ [(a, w)])
     | x # S' \<Rightarrow> cs = [delivery (x, (a, w))] \<and> rdv_table r1 h = map sent_item S')"
  using assms by (cases R; cases S) (auto simp: RecvAsync_def Let_def item_folds delivery_def)

definition is_abort :: "('v, 'w) rdv_op \<Rightarrow> bool" where
  "is_abort x = (case x of AbortOp s \<Rightarrow> True | _ \<Rightarrow> False)"

lemma channel_run:
  assumes "rdv_status r = None" "rdv_table r h = map sent_item S @ map (waiting_item t0) R" "S = [] \<or> R = []" "\<not> list_ex is_abort xs"
  shows "hash_calls KeyHash t0 order h xs r = map delivery (zip (S @ sends KeyHash h xs) (R @ recvs KeyHash h xs)) \<and>
    rdv_table (fst (rdv_run KeyHash t0 order xs r)) h = channel t0 (S @ sends KeyHash h xs) (R @ recvs KeyHash h xs)"
  using assms
proof (induction xs arbitrary: r S R)
  case Nil
  then show ?case by (auto simp: channel_def)
next
  case (Cons x xs)
  obtain r1 cs where step: "rdv_step KeyHash t0 order x r = (r1, cs)" by fastforce
  have noab: "\<not> list_ex is_abort xs" using Cons.prems(4) by simp
  have unfold: "hash_calls KeyHash t0 order h (x # xs) r = (if op_hash KeyHash x = Some h then cs else []) @ hash_calls KeyHash t0 order h xs r1"
    "fst (rdv_run KeyHash t0 order (x # xs) r) = fst (rdv_run KeyHash t0 order xs r1)"
    using step by (simp_all add: case_prod_beta)
  show ?case
  proof (cases x)
    case (SendOp k a v d)
    then obtain e where snd: "Send (KeyHash k) a v d r = (e, r1, cs)" using step by (cases "Send (KeyHash k) a v d r") (auto simp: rdv_step_def)
    show ?thesis
    proof (cases "KeyHash k = h")
      case True
      note eff = Send_channel [OF Cons.prems(1-3) snd [unfolded True]]
      show ?thesis
      proof (cases R)
        case Nil
        then show ?thesis using Cons.IH [of r1 "S @ [(a, v, d)]" "[]"] eff noab True SendOp unfold by (simp add: op_hash_def)
      next
        case R: (Cons y R')
        then show ?thesis using Cons.IH [of r1 "[]" R'] eff noab True SendOp unfold Cons.prems(3) by (simp add: op_hash_def channel_def)
      qed
    next
      case False
      then have "rdv_status r1 = None" "rdv_table r1 h = rdv_table r h"
        using snd Cons.prems(1) by (auto simp: Send_def Let_def split: if_splits)
      then show ?thesis using Cons.IH [of r1 S R] Cons.prems noab False SendOp unfold by (simp add: op_hash_def)
    qed
  next
    case (RecvOp k a w)
    then have rcv: "RecvAsync t0 (KeyHash k) a w r = (r1, cs)" using step by (simp add: rdv_step_def)
    show ?thesis
    proof (cases "KeyHash k = h")
      case True
      note eff = RecvAsync_channel [OF Cons.prems(1-3) rcv [unfolded True]]
      show ?thesis
      proof (cases S)
        case Nil
        then show ?thesis using Cons.IH [of r1 "[]" "R @ [(a, w)]"] eff noab True RecvOp unfold by (simp add: op_hash_def)
      next
        case S: (Cons y S')
        then show ?thesis using Cons.IH [of r1 S' "[]"] eff noab True RecvOp unfold Cons.prems(3) by (simp add: op_hash_def channel_def)
      qed
    next
      case False
      then have "rdv_status r1 = None" "rdv_table r1 h = rdv_table r h"
        using rcv Cons.prems(1) by (auto simp: RecvAsync_def Let_def split: if_splits)
      then show ?thesis using Cons.IH [of r1 S R] Cons.prems noab False RecvOp unfold by (simp add: op_hash_def)
    qed
  qed (use Cons.prems(4) in \<open>simp add: is_abort_def\<close>)
qed


definition sample_ops :: "(nat, nat) rdv_op list" where
  "sample_ops = [RecvOp ''a'' Args 1, SendOp ''a'' Args 10 False, SendOp ''bc'' Args 20 False, SendOp ''a'' Args 11 True, RecvOp ''a'' Args 2]"


subsection \<open>Every callback once, every reference returned\<close>

definition rdv_inv :: "('v, 'w) rendezvous \<Rightarrow> bool" where
  "rdv_inv r \<longleftrightarrow> distinct (table_keys r) \<and> (\<forall>h. h \<notin> set (table_keys r) \<longrightarrow> rdv_table r h = []) \<and> (rdv_status r \<noteq> None \<longrightarrow> table_keys r = [])"

definition waiters :: "('v, 'w) item list \<Rightarrow> 'w multiset" where
  "waiters q = mset (map (the \<circ> waiter) (filter (\<lambda>i. \<not> IsSendValue i) q))"

definition item_refs :: "nat \<Rightarrow> ('v, 'w) item \<Rightarrow> int" where
  "item_refs c i = of_bool (device_context (send_args i) = Some c) + of_bool (device_context (recv_args i) = Some c)"

definition queue_refs :: "nat \<Rightarrow> ('v, 'w) item list \<Rightarrow> int" where
  "queue_refs c q = sum_list (map (item_refs c) q)"

text \<open>A quantity of the queues, summed over the table.\<close>

definition total :: "(('v, 'w) item list \<Rightarrow> 'a::comm_monoid_add) \<Rightarrow> ('v, 'w) rendezvous \<Rightarrow> 'a" where
  "total f r = sum (\<lambda>h. f (rdv_table r h)) (set (table_keys r))"

abbreviation waiting :: "('v, 'w) rendezvous \<Rightarrow> 'w multiset" where
  "waiting \<equiv> total waiters"

lemma waiters_simps [simp]:
  "waiters [] = {#}" "waiters (q @ p) = waiters q + waiters p" "waiters (i # q) = (if IsSendValue i then {#} else {#the (waiter i)#}) + waiters q"
  by (simp_all add: waiters_def)

lemma queue_refs_simps [simp]:
  "queue_refs c [] = 0" "queue_refs c (q @ p) = queue_refs c q + queue_refs c p" "queue_refs c (i # q) = item_refs c i + queue_refs c q"
  by (simp_all add: queue_refs_def)

lemma total_touch:
  assumes "rdv_inv r" "f [] = (0 :: 'a::cancel_comm_monoid_add)"
  shows "total f (touch h q r) + f (rdv_table r h) = total f r + f q"
proof -
  let ?K = "set (table_keys r)"
  let ?g = "\<lambda>k. f (if k = h then q else rdv_table r k)"
  have keys: "set (table_keys (touch h q r)) = insert h ?K" by (auto simp: touch_def)
  have "sum ?g (insert h ?K) = f q + sum ?g (?K - {h})" by (simp add: sum.insert_remove)
  also have "sum ?g (?K - {h}) = sum (\<lambda>k. f (rdv_table r k)) (?K - {h})" by (intro sum.cong) auto
  finally have new: "total f (touch h q r) = f q + sum (\<lambda>k. f (rdv_table r k)) (?K - {h})" by (simp add: total_def keys)
  have old: "total f r = f (rdv_table r h) + sum (\<lambda>k. f (rdv_table r k)) (?K - {h})"
  proof (cases "h \<in> ?K")
    case False
    then show ?thesis using assms by (simp add: total_def rdv_inv_def)
  qed (simp add: total_def sum.remove)
  show ?thesis unfolding new old by (simp add: ac_simps)
qed

lemma rdv_inv_touch: "rdv_inv r \<Longrightarrow> rdv_status r = None \<Longrightarrow> rdv_inv (touch h q r)"
  by (auto simp: rdv_inv_def touch_def)

lemma total_refs [simp]: "total f (r\<lparr>refs := x\<rparr>) = total f r" "rdv_inv (r\<lparr>refs := x\<rparr>) = rdv_inv r"
  by (simp_all add: total_def rdv_inv_def)

lemma ref_counts [simp]:
  "add_ref d a x c = x c + d * of_bool (device_context a = Some c)" "delete_item i x c = x c - item_refs c i"
  by (auto simp: add_ref_def delete_item_def item_refs_def split: option.splits)

lemma item_refs_simps [simp]:
  "item_refs c (sent_item x) = of_bool (device_context (fst x) = Some c)" "item_refs c (waiting_item t0 y) = of_bool (device_context (fst y) = Some c)"
  by (cases x; simp add: item_refs_def sent_item_def Args_def) (cases y; simp add: item_refs_def waiting_item_def Args_def)

lemma fold_delete_item: "fold delete_item q x c = x c - queue_refs c q"
  by (induction q arbitrary: x) auto

text \<open>The balance of an operation: callbacks made and waiting afterwards are those waiting before and the one it brought.\<close>

definition op_waiter :: "('v, 'w) rdv_op \<Rightarrow> 'w multiset" where
  "op_waiter x = (case x of RecvOp k a w \<Rightarrow> {#w#} | _ \<Rightarrow> {#})"

definition balanced :: "('v, 'w) rdv_op \<Rightarrow> ('v, 'w) rendezvous \<Rightarrow> ('v, 'w) rendezvous \<Rightarrow> ('v, 'w) call list \<Rightarrow> bool" where
  "balanced x r r' cs \<longleftrightarrow> rdv_inv r' \<and> mset (map c_waiter cs) + waiting r' = waiting r + op_waiter x \<and>
     (\<forall>c. refs r' c - total (queue_refs c) r' = refs r c - total (queue_refs c) r)"

lemma balanced_append:
  assumes inv: "rdv_inv r" "rdv_status r = None" and i: "waiters [i] = op_waiter x" and ref: "\<And>c. item_refs c i = of_bool (device_context a = Some c)"
  shows "balanced x r ((touch h (rdv_table r h @ [i]) r)\<lparr>refs := add_ref 1 a (refs r)\<rparr>) []"
  using total_touch [OF inv(1), of waiters h "rdv_table r h @ [i]"] total_touch [OF inv(1), of "queue_refs c" h "rdv_table r h @ [i]" for c]
    rdv_inv_touch [OF inv] i ref by (simp add: balanced_def algebra_simps)

lemma balanced_pop:
  assumes inv: "rdv_inv r" "rdv_status r = None" and q: "rdv_table r h = i # q" and w: "{#c_waiter y#} = waiters [i] + op_waiter x"
  shows "balanced x r ((touch h q r)\<lparr>refs := delete_item i (refs r)\<rparr>) [y]"
proof -
  have "total (queue_refs c) (touch h q r) + item_refs c i = total (queue_refs c) r" for c
    using total_touch [OF inv(1), of "queue_refs c" h q] q by (simp add: algebra_simps)
  moreover have "waiting (touch h q r) + waiters [i] = waiting r"
    using total_touch [OF inv(1), of waiters h q] q by (simp add: ac_simps)
  ultimately show ?thesis using rdv_inv_touch [OF inv] w unfolding balanced_def by (auto simp: algebra_simps)
qed

lemma Send_balanced:
  assumes "rdv_inv r" "Send h a v d r = (e, r', cs)"
  shows "balanced (SendOp k a v d) r r' cs"
proof (cases "rdv_status r")
  case None
  show ?thesis
  proof (cases "rdv_table r h = [] \<or> IsSendValue (hd (rdv_table r h))")
    case True
    then show ?thesis using balanced_append [OF assms(1) None, of "sent_item (a, v, d)" "SendOp k a v d" a h] None assms(2)
      by (simp add: Send_def Let_def item_folds op_waiter_def)
  next
    case False
    then obtain i q where q: "rdv_table r h = i # q" "\<not> IsSendValue i" by (cases "rdv_table r h") auto
    then show ?thesis using balanced_pop [OF assms(1) None q(1)] None assms(2) by (auto simp: Send_def op_waiter_def)
  qed
qed (use assms in \<open>auto simp: Send_def balanced_def op_waiter_def\<close>)

lemma RecvAsync_balanced:
  assumes "rdv_inv r" "RecvAsync t0 h a w r = (r', cs)"
  shows "balanced (RecvOp k a w) r r' cs"
proof (cases "rdv_status r")
  case None
  show ?thesis
  proof (cases "rdv_table r h = [] \<or> \<not> IsSendValue (hd (rdv_table r h))")
    case True
    then show ?thesis using balanced_append [OF assms(1) None, of "waiting_item t0 (a, w)" "RecvOp k a w" a h] None assms(2)
      by (simp add: RecvAsync_def Let_def item_folds op_waiter_def)
  next
    case False
    then obtain i q where q: "rdv_table r h = i # q" "IsSendValue i" by (cases "rdv_table r h") auto
    then show ?thesis using balanced_pop [OF assms(1) None q(1)] None assms(2) by (auto simp: RecvAsync_def op_waiter_def)
  qed
qed (use assms in \<open>auto simp: RecvAsync_def balanced_def op_waiter_def\<close>)

text \<open>The traversal of the hash table visits each entry once.\<close>

definition visits_all :: "(nat list \<Rightarrow> nat list) \<Rightarrow> bool" where
  "visits_all order \<longleftrightarrow> (\<forall>ks. mset (order ks) = mset ks)"

lemma total_traversal:
  assumes "visits_all order" "rdv_inv r" "f [] = 0" "\<And>p q. f (p @ q) = f p + f q"
  shows "f (concat (map (rdv_table r) (order (table_keys r)))) = total f r"
proof -
  have "f (concat (map (rdv_table r) ks)) = sum_list (map (\<lambda>h. f (rdv_table r h)) ks)" for ks
    using assms(3,4) by (induction ks) auto
  moreover have "sum_list (map (\<lambda>h. f (rdv_table r h)) (order (table_keys r))) = sum_list (map (\<lambda>h. f (rdv_table r h)) (table_keys r))"
  proof -
    have "mset (map (\<lambda>h. f (rdv_table r h)) (order (table_keys r))) = mset (map (\<lambda>h. f (rdv_table r h)) (table_keys r))"
      using assms(1) by (simp add: visits_all_def)
    then show ?thesis by (metis sum_mset_sum_list)
  qed
  ultimately show ?thesis using assms(2) by (simp add: total_def rdv_inv_def sum_list_distinct_conv_sum_set)
qed

lemma abort_calls_waiters: "image_mset c_waiter (mset (abort_calls t0 s q)) = waiters q"
  by (simp add: abort_calls_def waiters_def image_mset.compositionality comp_def)

lemma StartAbort_balanced:
  assumes "rdv_inv r" "visits_all order" "StartAbort t0 order s r = (r', cs)"
  shows "balanced (AbortOp s) r r' cs \<and> rdv_status r' \<noteq> None"
proof -
  let ?items = "concat (map (rdv_table r) (order (table_keys r)))"
  have "waiters ?items = waiting r" "queue_refs c ?items = total (queue_refs c) r" for c
    using total_traversal [OF assms(2,1), of waiters] total_traversal [OF assms(2,1), of "queue_refs c"] by simp_all
  moreover have cs: "cs = abort_calls t0 s ?items" and r': "r' = r\<lparr>rdv_status := (case rdv_status r of None \<Rightarrow> Some s | Some e \<Rightarrow> Some e), rdv_table := (\<lambda>_. []),
      table_keys := [], refs := fold delete_item ?items (refs r)\<rparr>"
    using assms(3) by (simp_all add: StartAbort_def Let_def)
  ultimately show ?thesis
    by (simp add: balanced_def op_waiter_def abort_calls_waiters fold_delete_item) (simp add: total_def rdv_inv_def split: option.splits)
qed

lemma rdv_step_balanced:
  assumes "rdv_inv r" "visits_all order" "rdv_step KeyHash t0 order x r = (r', cs)"
  shows "balanced x r r' cs"
proof (cases x)
  case (SendOp k a v d)
  obtain e r2 cs2 where "Send (KeyHash k) a v d r = (e, r2, cs2)" by (cases "Send (KeyHash k) a v d r")
  then show ?thesis using Send_balanced [OF assms(1)] assms(3) SendOp by (simp add: rdv_step_def)
next
  case (RecvOp k a w)
  then show ?thesis using RecvAsync_balanced [OF assms(1)] assms(3) by (simp add: rdv_step_def)
next
  case (AbortOp s)
  then show ?thesis using StartAbort_balanced [OF assms(1,2)] assms(3) by (simp add: rdv_step_def)
qed

definition receivers :: "('v, 'w) rdv_op list \<Rightarrow> 'w multiset" where
  "receivers xs = sum_list (map op_waiter xs)"

lemma rdv_run_balanced:
  assumes "visits_all order" "rdv_inv r" "rdv_run KeyHash t0 order xs r = (r', cs)"
  shows "rdv_inv r' \<and> mset (map c_waiter cs) + waiting r' = waiting r + receivers xs \<and>
    (\<forall>c. refs r' c - total (queue_refs c) r' = refs r c - total (queue_refs c) r)"
  using assms(2,3)
proof (induction xs arbitrary: r cs)
  case (Cons x xs)
  obtain r1 cs1 where step: "rdv_step KeyHash t0 order x r = (r1, cs1)" by fastforce
  then obtain ds where rest: "rdv_run KeyHash t0 order xs r1 = (r', ds)" "cs = cs1 @ ds"
    using Cons.prems(2) by (auto split: prod.splits)
  have b: "balanced x r r1 cs1" by (rule rdv_step_balanced [OF Cons.prems(1) assms(1) step])
  then have "rdv_inv r1" by (simp add: balanced_def)
  note IH = Cons.IH [OF this rest(1)]
  have "mset (map c_waiter cs) + waiting r' = mset (map c_waiter cs1) + (mset (map c_waiter ds) + waiting r')" by (simp add: rest(2))
  also have "\<dots> = (mset (map c_waiter cs1) + waiting r1) + receivers xs" using IH by (simp add: ac_simps)
  also have "\<dots> = waiting r + receivers (x # xs)" using b by (simp add: balanced_def receivers_def ac_simps)
  finally show ?case using IH b by (simp add: balanced_def)
qed (simp add: receivers_def)

lemma new_rendezvous: "rdv_inv NewLocalRendezvous" "total f NewLocalRendezvous = 0"
  by (simp_all add: rdv_inv_def total_def NewLocalRendezvous_def)

text \<open>
  C10: in every sequence of operations, aborts included, the callbacks made and those still waiting are together exactly the ones
  that \<^verbatim>\<open>RecvAsync\<close> was given, so that none is called twice or lost; once the rendezvous is aborted none is waiting; and the
  references held on device contexts are exactly those of the items in the table.
\<close>

theorem rendezvous_conservation:
  assumes "visits_all order" "rdv_run KeyHash t0 order xs NewLocalRendezvous = (r, cs)"
  shows "mset (map c_waiter cs) + waiting r = receivers xs \<and> (rdv_status r \<noteq> None \<longrightarrow> mset (map c_waiter cs) = receivers xs) \<and>
    (\<forall>c. refs r c = total (queue_refs c) r)"
proof -
  have *: "rdv_inv r" "mset (map c_waiter cs) + waiting r = receivers xs" "\<forall>c. refs r c - total (queue_refs c) r = 0"
    using rdv_run_balanced [OF assms(1) new_rendezvous(1) assms(2)] by (simp_all add: new_rendezvous(2)) (simp add: NewLocalRendezvous_def)
  moreover have "waiting r = {#}" if "rdv_status r \<noteq> None" using *(1) that by (simp add: rdv_inv_def total_def)
  ultimately show ?thesis by auto
qed

definition abort_ops :: "(nat, nat) rdv_op list" where
  "abort_ops = [RecvOp ''a'' \<lparr>device_context = Some 5, alloc_attrs = 0\<rparr> 1, SendOp ''bc'' Args 20 False, RecvOp ''def'' Args 2,
     SendOp ''a'' Args 10 False, AbortOp Cancelled, RecvOp ''a'' Args 3]"

theorem rendezvous_conservation_witness:
  "mset (map c_waiter (snd (rdv_run length 0 rev abort_ops NewLocalRendezvous))) = {#1, 2, 3#} \<and>
   refs (fst (rdv_run length 0 rev abort_ops NewLocalRendezvous)) 5 = total (queue_refs 5) (fst (rdv_run length 0 rev abort_ops NewLocalRendezvous))"
proof -
  let ?x = "rdv_run length 0 rev abort_ops NewLocalRendezvous"
  have "visits_all rev" by (simp add: visits_all_def)
  moreover have "rdv_status (fst ?x) \<noteq> None" by code_simp
  moreover have "receivers abort_ops = {#1, 2, 3#}" by (simp add: receivers_def abort_ops_def op_waiter_def)
  ultimately show ?thesis using rendezvous_conservation [of rev length 0 abort_ops "fst ?x" "snd ?x"] by simp
qed

end
