(* ===== verification/Cancellation_Manager.thy ===== *)
theory Cancellation_Manager
  imports Prelude
begin

text \<open>
  \<^verbatim>\<open>core/framework/cancellation.cc\<close>: callbacks that are to run when a step is cancelled. Each method takes its lock once, except
  \<^verbatim>\<open>StartCancel\<close>, which takes the callbacks over under the lock, runs them without it, comes back for the lock and then notifies, and
  \<^verbatim>\<open>DeregisterCallback\<close>, which may wait for the notification without the lock. The steps of the model are these atomic parts, in any
  interleaving of threads: \<open>cancels\<close> has the threads inside \<^verbatim>\<open>StartCancel\<close>, \<open>waiting\<close> the tokens of those waiting inside
  \<^verbatim>\<open>DeregisterCallback\<close>.

  \<open>registered\<close>, \<open>removed\<close> and \<open>invoked\<close> record what was registered, deregistered or replaced, and called; the code has no such variables.
\<close>

subsection \<open>State and operations\<close>

type_synonym 'c entry = "int \<times> 'c"

text \<open>Where a thread is in \<^verbatim>\<open>StartCancel\<close>: in the loop, with the callbacks left, or before \<^verbatim>\<open>Notify\<close>.\<close>

datatype 'c canceller = Calling (calls: "'c entry list") | Notifying

record 'c manager =
  is_cancelling :: bool
  is_cancelled :: bool
  next_cancellation_token :: int
  callbacks :: "'c entry list"
  notified :: bool
  cancels :: "'c canceller list"
  waiting :: "int list"
  registered :: "'c entry list"
  removed :: "'c entry list"
  invoked :: "'c entry list"

definition CancellationManager :: "'c manager" where
  "CancellationManager = \<lparr>is_cancelling = False, is_cancelled = False, next_cancellation_token = 0, callbacks = [], notified = False,
     cancels = [], waiting = [], registered = [], removed = [], invoked = []\<rparr>"

definition Reset :: "'c manager \<Rightarrow> 'c manager" where
  "Reset m = m\<lparr>is_cancelling := False, is_cancelled := False\<rparr>"

definition drop_nth :: "nat \<Rightarrow> 'a list \<Rightarrow> 'a list" where
  "drop_nth i xs = take i xs @ drop (Suc i) xs"

text \<open>
  \<^verbatim>\<open>StartCancel\<close>: the first locked part; the call of the callback that the traversal of the hash table meets next, any of those left;
  the second locked part; and the notification.
\<close>

definition StartCancel_begin :: "'c manager \<Rightarrow> 'c manager" where
  "StartCancel_begin m =
     (if is_cancelled m \<or> is_cancelling m then m
      else m\<lparr>is_cancelling := True, cancels := cancels m @ [Calling (callbacks m)], callbacks := []\<rparr>)"

definition StartCancel_call :: "nat \<Rightarrow> nat \<Rightarrow> 'c manager \<Rightarrow> 'c manager option" where
  "StartCancel_call i k m =
     (if i < length (cancels m) then
        (case cancels m ! i of
           Calling cs \<Rightarrow>
             if k < length cs
             then Some (m\<lparr>invoked := invoked m @ [cs ! k], cancels := (cancels m)[i := Calling (drop_nth k cs)]\<rparr>)
             else None
         | Notifying \<Rightarrow> None)
      else None)"

definition StartCancel_end :: "nat \<Rightarrow> 'c manager \<Rightarrow> 'c manager option" where
  "StartCancel_end i m =
     (if i < length (cancels m) \<and> cancels m ! i = Calling []
      then Some (m\<lparr>is_cancelling := False, is_cancelled := True, cancels := (cancels m)[i := Notifying]\<rparr>)
      else None)"

definition StartCancel_notify :: "nat \<Rightarrow> 'c manager \<Rightarrow> 'c manager option" where
  "StartCancel_notify i m =
     (if i < length (cancels m) \<and> cancels m ! i = Notifying
      then Some (m\<lparr>notified := True, cancels := drop_nth i (cancels m)\<rparr>)
      else None)"

definition get_cancellation_token :: "'c manager \<Rightarrow> int \<times> 'c manager" where
  "get_cancellation_token m = (next_cancellation_token m, m\<lparr>next_cancellation_token := next_cancellation_token m + 1\<rparr>)"

definition erase :: "int \<Rightarrow> 'c manager \<Rightarrow> 'c manager" where
  "erase token m = m\<lparr>callbacks := filter (\<lambda>e. fst e \<noteq> token) (callbacks m), removed := removed m @ filter (\<lambda>e. fst e = token) (callbacks m)\<rparr>"

text \<open>\<^verbatim>\<open>std::swap(callbacks_[token], callback)\<close>: a callback registered under the same token before is dropped.\<close>

definition RegisterCallback :: "int \<Rightarrow> 'c \<Rightarrow> 'c manager \<Rightarrow> (bool \<times> 'c manager) outcome" where
  "RegisterCallback token callback m =
     (if \<not> token < next_cancellation_token m then Abort
      else let should_register = (\<not> is_cancelled m \<and> \<not> is_cancelling m) in
           Done (should_register,
             if should_register
             then (erase token m)\<lparr>callbacks := callbacks (erase token m) @ [(token, callback)], registered := registered m @ [(token, callback)]\<rparr>
             else m))"

text \<open>\<^verbatim>\<open>DeregisterCallback\<close> up to its return (\<open>Some\<close> its result) or its wait, and the return of the \<open>i\<close>-th waiting call.\<close>

definition DeregisterCallback :: "int \<Rightarrow> 'c manager \<Rightarrow> bool option \<times> 'c manager" where
  "DeregisterCallback token m =
     (if is_cancelled m then (Some False, m)
      else if is_cancelling m then (None, m\<lparr>waiting := waiting m @ [token]\<rparr>)
      else (Some True, erase token m))"

definition WaitForNotification :: "nat \<Rightarrow> 'c manager \<Rightarrow> (bool \<times> 'c manager) option" where
  "WaitForNotification i m =
     (if i < length (waiting m) \<and> notified m then Some (False, m\<lparr>waiting := drop_nth i (waiting m)\<rparr>) else None)"

definition TryDeregisterCallback :: "int \<Rightarrow> 'c manager \<Rightarrow> bool \<times> 'c manager" where
  "TryDeregisterCallback token m = (if is_cancelled m \<or> is_cancelling m then (False, m) else (True, erase token m))"

text \<open>\<^verbatim>\<open>StartCancel\<close> of the only thread, from its beginning to its end, and the destructor.\<close>

definition StartCancel :: "'c manager \<Rightarrow> 'c manager" where
  "StartCancel m =
     (if is_cancelled m \<or> is_cancelling m then m
      else m\<lparr>is_cancelled := True, notified := True, invoked := invoked m @ callbacks m, callbacks := []\<rparr>)"

definition delete_manager :: "'c manager \<Rightarrow> 'c manager" where
  "delete_manager m = (if callbacks m \<noteq> [] then StartCancel m else m)"

subsection \<open>Runs\<close>

text \<open>A step of some thread. \<open>resets\<close> says whether \<^verbatim>\<open>Reset\<close> may be called.\<close>

inductive cm_step :: "bool \<Rightarrow> 'c manager \<Rightarrow> 'c manager \<Rightarrow> bool" for resets where
  token: "get_cancellation_token m = (t, m') \<Longrightarrow> cm_step resets m m'"
| register: "RegisterCallback t c m = Done (b, m') \<Longrightarrow> cm_step resets m m'"
| cancel_begin: "cm_step resets m (StartCancel_begin m)"
| cancel_call: "StartCancel_call i k m = Some m' \<Longrightarrow> cm_step resets m m'"
| cancel_end: "StartCancel_end i m = Some m' \<Longrightarrow> cm_step resets m m'"
| cancel_notify: "StartCancel_notify i m = Some m' \<Longrightarrow> cm_step resets m m'"
| deregister: "DeregisterCallback t m = (b, m') \<Longrightarrow> cm_step resets m m'"
| wakeup: "WaitForNotification i m = Some (b, m') \<Longrightarrow> cm_step resets m m'"
| try_deregister: "TryDeregisterCallback t m = (b, m') \<Longrightarrow> cm_step resets m m'"
| restart: "resets \<Longrightarrow> cm_step resets m (Reset m)"

abbreviation cm_reachable :: "bool \<Rightarrow> 'c manager \<Rightarrow> bool" where
  "cm_reachable resets \<equiv> (cm_step resets)\<^sup>*\<^sup>* CancellationManager"

subsection \<open>Every callback is accounted for\<close>

fun left_calls :: "'c canceller \<Rightarrow> 'c entry list" where
  "left_calls (Calling cs) = cs"
| "left_calls Notifying = []"

definition pending_calls :: "'c manager \<Rightarrow> 'c entry multiset" where
  "pending_calls m = mset (callbacks m) + mset (concat (map left_calls (cancels m)))"

definition accounted_for :: "'c manager \<Rightarrow> bool" where
  "accounted_for m \<longleftrightarrow> mset (registered m) = pending_calls m + mset (invoked m) + mset (removed m)"

lemma mset_drop_nth: "k < length xs \<Longrightarrow> mset xs = {#xs ! k#} + mset (drop_nth k xs)"
  by (subst id_take_nth_drop [of k xs]) (simp_all add: drop_nth_def)

lemma concat_update: "i < length xs \<Longrightarrow> mset (f (xs ! i)) = A + mset (f y) \<Longrightarrow>
    mset (concat (map f xs)) = A + mset (concat (map f (xs[i := y])))"
proof (induction xs arbitrary: i)
  case (Cons x xs)
  then show ?case by (cases i) (simp_all add: ac_simps)
qed simp

lemma concat_drop_nth: "i < length xs \<Longrightarrow> f (xs ! i) = [] \<Longrightarrow> concat (map f (drop_nth i xs)) = concat (map f xs)"
proof (induction xs arbitrary: i)
  case (Cons x xs)
  then show ?case by (cases i) (simp_all add: drop_nth_def)
qed simp

lemma erase_mset: "mset (callbacks (erase t m)) + mset (removed (erase t m)) = mset (callbacks m) + mset (removed m)"
  using multiset_partition [of "mset (callbacks m)" "\<lambda>e. fst e = t"] by (simp add: erase_def ac_simps)

lemma erase_fields [simp]: "cancels (erase t m) = cancels m" "invoked (erase t m) = invoked m" "registered (erase t m) = registered m"
  "is_cancelling (erase t m) = is_cancelling m" "is_cancelled (erase t m) = is_cancelled m" "notified (erase t m) = notified m"
  "next_cancellation_token (erase t m) = next_cancellation_token m" "waiting (erase t m) = waiting m"
  by (simp_all add: erase_def)

lemma accounted_erase: "accounted_for m \<Longrightarrow> accounted_for (erase t m)"
  using erase_mset [of t m] by (simp add: accounted_for_def pending_calls_def ac_simps)

lemma StartCancel_call_elim:
  assumes "StartCancel_call i k m = Some m'"
  obtains cs where "i < length (cancels m)" "cancels m ! i = Calling cs" "k < length cs"
    "m' = m\<lparr>invoked := invoked m @ [cs ! k], cancels := (cancels m)[i := Calling (drop_nth k cs)]\<rparr>"
  using assms by (auto simp: StartCancel_call_def split: if_splits canceller.splits)

lemma accounted_call:
  assumes "StartCancel_call i k m = Some m'" "accounted_for m"
  shows "accounted_for m'"
proof -
  obtain cs where cs: "i < length (cancels m)" "cancels m ! i = Calling cs" "k < length cs"
      "m' = m\<lparr>invoked := invoked m @ [cs ! k], cancels := (cancels m)[i := Calling (drop_nth k cs)]\<rparr>"
    using assms(1) by (rule StartCancel_call_elim)
  then have "mset (concat (map left_calls (cancels m))) = {#cs ! k#} + mset (concat (map left_calls ((cancels m)[i := Calling (drop_nth k cs)])))"
    by (intro concat_update) (simp_all add: mset_drop_nth)
  then show ?thesis using assms(2) cs(4) by (simp add: accounted_for_def pending_calls_def)
qed

lemma accounted_end:
  assumes "StartCancel_end i m = Some m'" "accounted_for m"
  shows "accounted_for m'"
proof -
  have i: "i < length (cancels m)" "cancels m ! i = Calling []"
    and m': "m' = m\<lparr>is_cancelling := False, is_cancelled := True, cancels := (cancels m)[i := Notifying]\<rparr>"
    using assms(1) by (auto simp: StartCancel_end_def split: if_splits)
  have "mset (concat (map left_calls (cancels m))) = {#} + mset (concat (map left_calls ((cancels m)[i := Notifying])))"
    using i by (intro concat_update) simp_all
  then show ?thesis using assms(2) m' by (simp add: accounted_for_def pending_calls_def)
qed

lemma accounted_notify:
  assumes "StartCancel_notify i m = Some m'" "accounted_for m"
  shows "accounted_for m'"
  using assms by (auto simp: StartCancel_notify_def accounted_for_def pending_calls_def concat_drop_nth split: if_splits)

lemma accounted_register:
  assumes "RegisterCallback t c m = Done (b, m')" "accounted_for m"
  shows "accounted_for m'"
  using assms accounted_erase [OF assms(2), of t]
  by (auto simp: RegisterCallback_def Let_def accounted_for_def pending_calls_def ac_simps split: if_splits)

lemma cm_accounted_step: "cm_step resets m m' \<Longrightarrow> accounted_for m \<Longrightarrow> accounted_for m'"
proof (induction rule: cm_step.induct)
  case (deregister t m b m')
  have "accounted_for (m\<lparr>waiting := ts\<rparr>)" for ts using deregister(2) by (simp add: accounted_for_def pending_calls_def)
  then show ?case using deregister accounted_erase by (auto simp: DeregisterCallback_def split: if_splits)
next
  case (try_deregister t m b m')
  then show ?case using accounted_erase by (auto simp: TryDeregisterCallback_def split: if_splits)
qed (auto simp: get_cancellation_token_def StartCancel_begin_def Reset_def WaitForNotification_def accounted_for_def pending_calls_def
    split: if_splits dest: accounted_register accounted_call accounted_end accounted_notify)

lemma accounted_reachable: "cm_reachable resets m \<Longrightarrow> accounted_for m"
proof (induction rule: rtranclp_induct)
  case base
  show ?case by (simp add: accounted_for_def pending_calls_def CancellationManager_def)
qed (rule cm_accounted_step)

subsection \<open>Without Reset\<close>

definition cm_inv :: "'c manager \<Rightarrow> bool" where
  "cm_inv m \<longleftrightarrow>
     (if is_cancelled m then \<not> is_cancelling m \<and> (if notified m then cancels m = [] else cancels m = [Notifying]) \<and> callbacks m = []
      else if is_cancelling m then \<not> notified m \<and> (\<exists>cs. cancels m = [Calling cs]) \<and> callbacks m = []
      else \<not> notified m \<and> cancels m = [] \<and> invoked m = [] \<and> waiting m = [])"

lemma cm_inv_step: "cm_step False m m' \<Longrightarrow> cm_inv m \<Longrightarrow> cm_inv m'"
proof (induction rule: cm_step.induct)
  case (cancel_call i k m m')
  then show ?case by (elim StartCancel_call_elim) (auto simp: cm_inv_def split: if_splits)
next
  case (cancel_notify i m m')
  then show ?case by (auto simp: StartCancel_notify_def cm_inv_def drop_nth_def split: if_splits)
qed (auto simp: get_cancellation_token_def RegisterCallback_def StartCancel_begin_def StartCancel_end_def DeregisterCallback_def
    TryDeregisterCallback_def WaitForNotification_def cm_inv_def Let_def split: if_splits)

lemma cm_inv_reachable: "cm_reachable False m \<Longrightarrow> cm_inv m"
proof (induction rule: rtranclp_induct)
  case base
  show ?case by (simp add: cm_inv_def CancellationManager_def)
qed (rule cm_inv_step)

lemma cm_inv_no_pending: "cm_inv m \<Longrightarrow> is_cancelled m \<or> notified m \<Longrightarrow> pending_calls m = {#}"
  by (auto simp: cm_inv_def pending_calls_def split: if_splits)

text \<open>What was registered and removed stays on record.\<close>

definition records :: "'c manager \<Rightarrow> 'c manager \<Rightarrow> bool" where
  "records m m' \<longleftrightarrow> (\<exists>new. registered m' = registered m @ new) \<and> mset (removed m) \<subseteq># mset (removed m')"

lemma records_refl: "records m m"
  by (simp add: records_def)

lemma records_trans: "records m m' \<Longrightarrow> records m' m'' \<Longrightarrow> records m m''"
  using subset_mset.order_trans by (fastforce simp: records_def)

lemma records_step: "cm_step resets m m' \<Longrightarrow> records m m'"
  by (induction rule: cm_step.induct)
    (auto simp: records_def get_cancellation_token_def RegisterCallback_def StartCancel_begin_def StartCancel_end_def StartCancel_notify_def
      DeregisterCallback_def WaitForNotification_def TryDeregisterCallback_def Reset_def Let_def erase_def
      split: if_splits elim!: StartCancel_call_elim)

lemma records_run: "(cm_step resets)\<^sup>*\<^sup>* m m' \<Longrightarrow> records m m'"
proof (induction rule: rtranclp_induct)
  case (step m' m'')
  then show ?case using records_step records_trans by blast
qed (rule records_refl)

text \<open>Once nothing is pending or was called under a token, only what is registered under it afterwards can be called.\<close>

lemma later_calls:
  assumes acc: "accounted_for m" "accounted_for m'" and run: "records m m'"
    and none: "filter_mset (\<lambda>e. fst e = t) (pending_calls m + mset (invoked m)) = {#}"
  shows "filter_mset (\<lambda>e. fst e = t) (mset (invoked m')) \<subseteq># mset (drop (length (registered m)) (registered m'))"
proof -
  let ?f = "filter_mset (\<lambda>e. fst e = t)"
  obtain new where new: "registered m' = registered m @ new" using run by (auto simp: records_def)
  have before: "?f (mset (registered m)) = ?f (mset (removed m))"
    using acc(1) none by (simp add: accounted_for_def)
  have after: "?f (mset (registered m)) + ?f (mset new) = ?f (pending_calls m') + ?f (mset (invoked m')) + ?f (mset (removed m'))"
    using acc(2) new by (simp add: accounted_for_def flip: filter_union_mset)
  have "?f (mset (removed m)) \<subseteq># ?f (mset (removed m'))"
    using run by (simp add: records_def multiset_filter_mono)
  then have removed: "count (?f (mset (removed m))) e \<le> count (?f (mset (removed m'))) e" for e by (rule mset_subset_eq_count)
  have "count (?f (mset (invoked m'))) e \<le> count (?f (mset new)) e" for e
  proof -
    have "count (?f (mset (removed m))) e + count (?f (mset new)) e
        = count (?f (pending_calls m')) e + count (?f (mset (invoked m'))) e + count (?f (mset (removed m'))) e"
      using arg_cong [OF after, of "\<lambda>A. count A e"] unfolding before by (simp only: count_union)
    with removed [of e] show ?thesis by linarith
  qed
  then have "?f (mset (invoked m')) \<subseteq># ?f (mset new)" by (rule mset_subset_eqI)
  then show ?thesis using new multiset_filter_subset subset_mset.order_trans by fastforce
qed

subsection \<open>A thread alone\<close>

lemma cm_step_calls:
  "cancels m = [Calling cs] \<Longrightarrow>
   (cm_step resets)\<^sup>*\<^sup>* m (m\<lparr>invoked := invoked m @ cs, cancels := [Calling []]\<rparr>)"
proof (induction cs arbitrary: m)
  case Nil
  then have "m\<lparr>invoked := invoked m @ [], cancels := [Calling []]\<rparr> = m" by (cases m) simp
  then show ?case by simp
next
  case (Cons c cs)
  let ?m = "m\<lparr>invoked := invoked m @ [c], cancels := [Calling cs]\<rparr>"
  have "StartCancel_call 0 0 m = Some ?m" using Cons.prems by (simp add: StartCancel_call_def drop_nth_def)
  then have "cm_step resets m ?m" by (rule cm_step.cancel_call)
  moreover have "(cm_step resets)\<^sup>*\<^sup>* ?m (?m\<lparr>invoked := invoked ?m @ cs, cancels := [Calling []]\<rparr>)" by (rule Cons.IH) simp
  ultimately show ?case by (simp add: converse_rtranclp_into_rtranclp)
qed

lemma cm_step_finish:
  assumes "cancels m = [Calling cs]"
  shows "(cm_step resets)\<^sup>*\<^sup>* m (m\<lparr>is_cancelling := False, is_cancelled := True, notified := True, invoked := invoked m @ cs, cancels := []\<rparr>)"
proof -
  let ?m1 = "m\<lparr>invoked := invoked m @ cs, cancels := [Calling []]\<rparr>"
  let ?m2 = "?m1\<lparr>is_cancelling := False, is_cancelled := True, cancels := [Notifying]\<rparr>"
  let ?m3 = "?m2\<lparr>notified := True, cancels := []\<rparr>"
  have "StartCancel_end 0 ?m1 = Some ?m2" "StartCancel_notify 0 ?m2 = Some ?m3"
    by (simp_all add: StartCancel_end_def StartCancel_notify_def drop_nth_def)
  then have "cm_step resets ?m1 ?m2" "cm_step resets ?m2 ?m3" by (auto intro: cm_step.cancel_end cm_step.cancel_notify)
  with cm_step_calls [OF assms, of resets] have "(cm_step resets)\<^sup>*\<^sup>* m ?m3" by (meson rtranclp.rtrancl_into_rtrancl)
  moreover have "?m3 = m\<lparr>is_cancelling := False, is_cancelled := True, notified := True, invoked := invoked m @ cs, cancels := []\<rparr>" by simp
  ultimately show ?thesis by (simp only:)
qed

lemma StartCancel_steps:
  assumes "cancels m = []"
  shows "(cm_step resets)\<^sup>*\<^sup>* m (StartCancel m)"
proof (cases "is_cancelled m \<or> is_cancelling m")
  case False
  let ?m = "StartCancel_begin m"
  have m: "?m = m\<lparr>is_cancelling := True, cancels := [Calling (callbacks m)], callbacks := []\<rparr>"
    using False assms by (simp add: StartCancel_begin_def)
  have "(cm_step resets)\<^sup>*\<^sup>* ?m (?m\<lparr>is_cancelling := False, is_cancelled := True, notified := True,
      invoked := invoked ?m @ callbacks m, cancels := []\<rparr>)"
    by (rule cm_step_finish) (simp add: m)
  also have "?m\<lparr>is_cancelling := False, is_cancelled := True, notified := True, invoked := invoked ?m @ callbacks m, cancels := []\<rparr>
      = StartCancel m"
    using False assms by (simp add: m StartCancel_def)
  finally show ?thesis by (rule converse_rtranclp_into_rtranclp [where r = "cm_step resets", OF cm_step.cancel_begin])
qed (simp add: StartCancel_def)

lemma cm_inv_notified:
  assumes "cm_inv m" "cancels m \<noteq> [] \<or> waiting m \<noteq> []"
  shows "\<exists>m'. (cm_step resets)\<^sup>*\<^sup>* m m' \<and> is_cancelled m' \<and> notified m' \<and> waiting m' = waiting m"
proof (cases "is_cancelled m")
  case False
  then obtain cs where "cancels m = [Calling cs]" using assms by (auto simp: cm_inv_def split: if_splits)
  then show ?thesis using cm_step_finish [of m cs resets] by (intro exI conjI) (assumption, simp_all)
next
  case cancelled: True
  show ?thesis
  proof (cases "notified m")
    case True
    then show ?thesis using cancelled by blast
  next
    case False
    then have "StartCancel_notify 0 m = Some (m\<lparr>notified := True, cancels := []\<rparr>)"
      using assms(1) cancelled by (simp add: cm_inv_def StartCancel_notify_def drop_nth_def)
    then have "(cm_step resets)\<^sup>*\<^sup>* m (m\<lparr>notified := True, cancels := []\<rparr>)" by (intro r_into_rtranclp cm_step.cancel_notify)
    then show ?thesis using cancelled by (intro exI conjI) (assumption, simp_all)
  qed
qed

subsection \<open>What the users of the manager rely on\<close>


text \<open>A manager with two callbacks, one of them deregistered, then cancelled.\<close>

definition two_callbacks :: "nat manager" where
  "two_callbacks = CancellationManager\<lparr>next_cancellation_token := 2, callbacks := [(0, 10), (1, 11)], registered := [(0, 10), (1, 11)]\<rparr>"

lemma two_callbacks_reachable: "cm_reachable resets two_callbacks"
proof -
  let ?m1 = "CancellationManager\<lparr>next_cancellation_token := 1\<rparr> :: nat manager"
  let ?m2 = "CancellationManager\<lparr>next_cancellation_token := 2\<rparr> :: nat manager"
  let ?m3 = "CancellationManager\<lparr>next_cancellation_token := 2, callbacks := [(0, 10)], registered := [(0, 10)]\<rparr> :: nat manager"
  note defs = get_cancellation_token_def RegisterCallback_def erase_def CancellationManager_def two_callbacks_def
  have "cm_step resets CancellationManager ?m1" by (rule cm_step.token [where t = 0]) (simp add: defs)
  moreover have "cm_step resets ?m1 ?m2" by (rule cm_step.token [where t = 1]) (simp add: defs)
  moreover have "cm_step resets ?m2 ?m3" by (rule cm_step.register [where t = 0 and c = 10 and b = True]) (simp add: defs)
  moreover have "cm_step resets ?m3 two_callbacks" by (rule cm_step.register [where t = 1 and c = 11 and b = True]) (simp add: defs)
  ultimately show ?thesis by (meson rtranclp.rtrancl_into_rtrancl rtranclp.rtrancl_refl)
qed

lemma erased_reachable: "cm_reachable resets (erase 0 two_callbacks)"
proof -
  have "cm_step resets two_callbacks (erase 0 two_callbacks)"
    by (rule cm_step.deregister [where t = 0 and b = "Some True"]) (simp add: DeregisterCallback_def two_callbacks_def CancellationManager_def)
  with two_callbacks_reachable show ?thesis by (rule rtranclp.rtrancl_into_rtrancl)
qed

lemma cancelled_reachable: "cm_reachable resets (StartCancel (erase 0 two_callbacks))"
  using erased_reachable by (rule rtranclp_trans) (rule StartCancel_steps, simp add: two_callbacks_def CancellationManager_def)




text \<open>
  \<^verbatim>\<open>Reset\<close> leaves the notification set. After a cancellation and a \<^verbatim>\<open>Reset\<close>, a \<^verbatim>\<open>DeregisterCallback\<close> that meets the next
  cancellation does not wait: it returns false while the callback has still to run.
\<close>

definition reset_race :: "nat manager" where
  "reset_race = \<lparr>is_cancelling = True, is_cancelled = False, next_cancellation_token = 1, callbacks = [], notified = True,
     cancels = [Calling [(0, 10)]], waiting = [0], registered = [(0, 10)], removed = [], invoked = []\<rparr>"

theorem reset_keeps_notification:
  "cm_reachable True reset_race \<and> (\<exists>m'. WaitForNotification 0 reset_race = Some (False, m') \<and> pending_calls m' = {#(0, 10)#})"
proof
  note defs = get_cancellation_token_def RegisterCallback_def erase_def CancellationManager_def StartCancel_def StartCancel_begin_def Reset_def
    DeregisterCallback_def reset_race_def
  let ?m0 = "CancellationManager :: nat manager"
  let ?m1 = "StartCancel ?m0"
  let ?m2 = "Reset ?m1"
  let ?m3 = "?m2\<lparr>next_cancellation_token := 1\<rparr>"
  let ?m4 = "?m3\<lparr>callbacks := [(0, 10)], registered := [(0, 10)]\<rparr>"
  let ?m5 = "StartCancel_begin ?m4"
  have "(cm_step True)\<^sup>*\<^sup>* ?m0 ?m1" by (rule StartCancel_steps) (simp add: CancellationManager_def)
  moreover have "cm_step True ?m1 ?m2" by (rule cm_step.restart) simp
  moreover have "cm_step True ?m2 ?m3" by (rule cm_step.token [where t = 0]) (simp add: defs)
  moreover have "cm_step True ?m3 ?m4" by (rule cm_step.register [where t = 0 and c = 10 and b = True]) (simp add: defs)
  moreover have "cm_step True ?m4 ?m5" by (rule cm_step.cancel_begin)
  moreover have "cm_step True ?m5 reset_race" by (rule cm_step.deregister [where t = 0 and b = None]) (simp add: defs)
  ultimately show "cm_reachable True reset_race" by (meson rtranclp.rtrancl_into_rtrancl)
  show "\<exists>m'. WaitForNotification 0 reset_race = Some (False, m') \<and> pending_calls m' = {#(0, 10)#}"
    by (simp add: WaitForNotification_def reset_race_def pending_calls_def)
qed

text \<open>The destructor runs every callback that is still registered.\<close>

lemma delete_manager_calls:
  assumes "cm_reachable False m" "cancels m = []"
  shows "mset (registered (delete_manager m)) = mset (invoked (delete_manager m)) + mset (removed (delete_manager m))"
  using accounted_reachable [OF assms(1)] cm_inv_reachable [OF assms(1)] assms(2)
  by (auto simp: delete_manager_def StartCancel_def accounted_for_def pending_calls_def cm_inv_def ac_simps split: if_splits)

end
