(* ===== verification/Broadcast.thy ===== *)
theory Broadcast
  imports Prelude
begin

text \<open>
  \<^verbatim>\<open>core/util/bcast.cc\<close>: how two tensors of different shapes take part in one element-wise operation. The constructor
  computes the shape of the output, and shapes with fewer dimensions to which the operands are reshaped and from which they are repeated.
  Products of \<^verbatim>\<open>int64\<close> wrap around.
\<close>

subsection \<open>The constructor\<close>

definition mul64 :: "int \<Rightarrow> int \<Rightarrow> int" where
  "mul64 a b = sint (word_of_int (a * b) :: u64)"

datatype bcast_state = UNKNOWN | SAME | X_ONE | Y_ONE

record bcast =
  bc_valid :: bool
  x_reshape :: "int list"
  x_bcast :: "int list"
  y_reshape :: "int list"
  y_bcast :: "int list"
  result_shape :: "int list"
  output_shape :: "int list"
  grad_x_reduce_idx :: "int list"
  grad_y_reduce_idx :: "int list"

definition new_bcast :: bcast where
  "new_bcast = \<lparr>bc_valid = True, x_reshape = [], x_bcast = [], y_reshape = [], y_bcast = [], result_shape = [], output_shape = [],
     grad_x_reduce_idx = [], grad_y_reduce_idx = []\<rparr>"

text \<open>\<^verbatim>\<open>resize(n, 1)\<close> of the shorter vector.\<close>

definition resize_1 :: "nat \<Rightarrow> int list \<Rightarrow> int list" where
  "resize_1 n v = take n v @ replicate (n - length v) 1"

text \<open>\<^verbatim>\<open>push_back\<close> and \<^verbatim>\<open>back() *=\<close> on the five vectors.\<close>

definition push_dims :: "int \<Rightarrow> int \<Rightarrow> int \<Rightarrow> int \<Rightarrow> int \<Rightarrow> bcast \<Rightarrow> bcast" where
  "push_dims o_i x_i bx_i y_i by_i b =
     b\<lparr>result_shape := result_shape b @ [o_i], x_reshape := x_reshape b @ [x_i], x_bcast := x_bcast b @ [bx_i],
       y_reshape := y_reshape b @ [y_i], y_bcast := y_bcast b @ [by_i]\<rparr>"

definition mul_back :: "int \<Rightarrow> int list \<Rightarrow> int list" where
  "mul_back d v = butlast v @ [mul64 (last v) d]"

definition mul_dims :: "int \<Rightarrow> int \<Rightarrow> int \<Rightarrow> int \<Rightarrow> int \<Rightarrow> bcast \<Rightarrow> bcast" where
  "mul_dims o_i x_i bx_i y_i by_i b =
     b\<lparr>result_shape := mul_back o_i (result_shape b), x_reshape := mul_back x_i (x_reshape b), x_bcast := mul_back bx_i (x_bcast b),
       y_reshape := mul_back y_i (y_reshape b), y_bcast := mul_back by_i (y_bcast b)\<rparr>"

text \<open>One round of the loop: \<open>j\<close> is \<^verbatim>\<open>n - 1 - i\<close>. The result is \<open>None\<close> where the code returns with \<^verbatim>\<open>valid_\<close> false.\<close>

definition bcast_round :: "bool \<Rightarrow> int \<Rightarrow> int \<Rightarrow> int \<Rightarrow> bcast_state \<times> bcast \<Rightarrow> (bcast_state \<times> bcast) option" where
  "bcast_round fewer j x_i y_i = (\<lambda>(prev, b).
     map_option (\<lambda>(curr, o_i, bx_i, by_i, b1).
         let b2 = b1\<lparr>output_shape := output_shape b1 @ [o_i]\<rparr> in
         if curr = SAME \<and> x_i = 1 then
           let b3 = b2\<lparr>grad_x_reduce_idx := grad_x_reduce_idx b2 @ [j], grad_y_reduce_idx := grad_y_reduce_idx b2 @ [j]\<rparr> in
           (prev, if \<not> fewer then push_dims o_i x_i bx_i y_i by_i b3 else b3)
         else if fewer \<and> prev = curr then (curr, mul_dims o_i x_i bx_i y_i by_i b2)
         else (curr, push_dims o_i x_i bx_i y_i by_i b2))
       (if x_i = y_i then Some (SAME, x_i, 1, 1, b)
        else if x_i = 1 then Some (X_ONE, y_i, y_i, 1, b\<lparr>grad_x_reduce_idx := grad_x_reduce_idx b @ [j]\<rparr>)
        else if y_i = 1 then Some (Y_ONE, x_i, 1, x_i, b\<lparr>grad_y_reduce_idx := grad_y_reduce_idx b @ [j]\<rparr>)
        else None))"

fun bcast_loop :: "bool \<Rightarrow> int \<Rightarrow> (int \<times> int) list \<Rightarrow> bcast_state \<times> bcast \<Rightarrow> bcast" where
  "bcast_loop fewer j [] s = snd s"
| "bcast_loop fewer j ((x_i, y_i) # ds) s =
     (case bcast_round fewer j x_i y_i s of
        None \<Rightarrow> (snd s)\<lparr>bc_valid := False\<rparr>
      | Some s1 \<Rightarrow> bcast_loop fewer (j - 1) ds s1)"

definition finish_bcast :: "bcast \<Rightarrow> bcast" where
  "finish_bcast b =
     (let b1 = (if result_shape b = [] then push_dims 1 1 1 1 1 b else b) in
      b1\<lparr>x_reshape := rev (x_reshape b1), x_bcast := rev (x_bcast b1), y_reshape := rev (y_reshape b1), y_bcast := rev (y_bcast b1),
         result_shape := rev (result_shape b1), output_shape := rev (output_shape b1),
         grad_x_reduce_idx := rev (grad_x_reduce_idx b1), grad_y_reduce_idx := rev (grad_y_reduce_idx b1)\<rparr>)"

definition BCast :: "int list \<Rightarrow> int list \<Rightarrow> bool \<Rightarrow> bcast" where
  "BCast sx sy fewer =
     (if sx = sy \<and> fewer then
        let elements = foldl mul64 1 sx in
        new_bcast\<lparr>output_shape := sx, result_shape := [elements], x_reshape := [elements], y_reshape := [elements], x_bcast := [1], y_bcast := [1]\<rparr>
      else
        let x = rev sx; y = rev sy;
            (x1, y1) = (if length x > length y then (x, resize_1 (length x) y) else (resize_1 (length y) x, y));
            b = bcast_loop fewer (int (length x1) - 1) (zip x1 y1) (UNKNOWN, new_bcast)
        in if bc_valid b then finish_bcast b else b)"

subsection \<open>The rule of broadcasting\<close>

text \<open>
  Shapes are aligned at the inner dimension and filled up with 1. A dimension of the output is repeated where the operand has 1. \<open>picked ds os k\<close> is
  the position, in an operand of shape \<open>ds\<close>, of the value that is used for the \<open>k\<close>-th element of an output of shape \<open>os\<close>, both in row-major
  order, when the coordinates of the operand are those of the output modulo its dimensions.
\<close>

definition aligned :: "nat \<Rightarrow> int list \<Rightarrow> int list" where
  "aligned n s = replicate (n - length s) 1 @ s"

definition compatible_dims :: "int \<times> int \<Rightarrow> bool" where
  "compatible_dims d \<longleftrightarrow> fst d = snd d \<or> fst d = 1 \<or> snd d = 1"

fun picked :: "int list \<Rightarrow> int list \<Rightarrow> int \<Rightarrow> int" where
  "picked (d # ds) (n # os) k = (k div prod_list os) mod n mod d * prod_list ds + picked ds os (k mod prod_list os)"
| "picked ds os k = 0"

definition swap_bcast :: "bcast \<Rightarrow> bcast" where
  "swap_bcast b = \<lparr>bc_valid = bc_valid b, x_reshape = y_reshape b, x_bcast = y_bcast b, y_reshape = x_reshape b, y_bcast = x_bcast b,
     result_shape = result_shape b, output_shape = output_shape b, grad_x_reduce_idx = grad_y_reduce_idx b, grad_y_reduce_idx = grad_x_reduce_idx b\<rparr>"

definition swap_state :: "bcast_state \<Rightarrow> bcast_state" where
  "swap_state c = (case c of X_ONE \<Rightarrow> Y_ONE | Y_ONE \<Rightarrow> X_ONE | _ \<Rightarrow> c)"

subsection \<open>Symmetry\<close>

lemma swap_fields [simp]:
  "swap_bcast (push_dims n x bx y by' b) = push_dims n y by' x bx (swap_bcast b)"
  "swap_bcast (mul_dims n x bx y by' b) = mul_dims n y by' x bx (swap_bcast b)"
  "swap_bcast (b\<lparr>output_shape := v\<rparr>) = (swap_bcast b)\<lparr>output_shape := v\<rparr>"
  "swap_bcast (b\<lparr>bc_valid := w\<rparr>) = (swap_bcast b)\<lparr>bc_valid := w\<rparr>"
  "swap_bcast (b\<lparr>grad_x_reduce_idx := v\<rparr>) = (swap_bcast b)\<lparr>grad_y_reduce_idx := v\<rparr>"
  "swap_bcast (b\<lparr>grad_y_reduce_idx := v\<rparr>) = (swap_bcast b)\<lparr>grad_x_reduce_idx := v\<rparr>"
  "output_shape (swap_bcast b) = output_shape b" "grad_x_reduce_idx (swap_bcast b) = grad_y_reduce_idx b"
  "grad_y_reduce_idx (swap_bcast b) = grad_x_reduce_idx b" "bc_valid (swap_bcast b) = bc_valid b" "result_shape (swap_bcast b) = result_shape b"
  "x_reshape (swap_bcast b) = y_reshape b" "y_reshape (swap_bcast b) = x_reshape b" "x_bcast (swap_bcast b) = y_bcast b"
  "y_bcast (swap_bcast b) = x_bcast b" "swap_bcast new_bcast = new_bcast"
  by (simp_all add: swap_bcast_def push_dims_def mul_dims_def new_bcast_def)

lemma swap_state_simps [simp]:
  "swap_state UNKNOWN = UNKNOWN" "swap_state SAME = SAME" "swap_state X_ONE = Y_ONE" "swap_state Y_ONE = X_ONE" "swap_state c = swap_state d \<longleftrightarrow> c = d"
  by (cases c; cases d; simp add: swap_state_def)+

lemma bcast_round_swap:
  "bcast_round fewer j y x (swap_state prev, swap_bcast b) = map_option (\<lambda>(c, b). (swap_state c, swap_bcast b)) (bcast_round fewer j x y (prev, b))"
  by (cases prev; auto simp: bcast_round_def Let_def push_dims_def)

lemma bcast_loop_swap:
  "bcast_loop fewer j (map (\<lambda>(x, y). (y, x)) ds) (swap_state prev, swap_bcast b) = swap_bcast (bcast_loop fewer j ds (prev, b))"
proof (induction ds arbitrary: j prev b)
  case (Cons d ds)
  obtain x y where d: "d = (x, y)" by (cases d)
  show ?case
  proof (cases "bcast_round fewer j x y (prev, b)")
    case None
    then show ?thesis by (simp add: d bcast_round_swap)
  next
    case (Some s)
    obtain c b' where "s = (c, b')" by (cases s)
    then show ?thesis using Some Cons.IH by (simp add: d bcast_round_swap)
  qed
qed simp

lemma finish_swap: "finish_bcast (swap_bcast b) = swap_bcast (finish_bcast b)"
  by (simp add: finish_bcast_def Let_def swap_bcast_def push_dims_def)

lemma zip_swap: "zip ys xs = map (\<lambda>(x, y). (y, x)) (zip xs ys)"
  by (induction xs ys rule: list_induct2') simp_all

text \<open>The aligned and reversed operands.\<close>

lemma resize_rev: "length s \<le> n \<Longrightarrow> resize_1 n (rev s) = rev (aligned n s)"
  by (simp add: resize_1_def aligned_def)

lemma BCast_aligned:
  assumes "\<not> (sx = sy \<and> fewer)" and n: "n = max (length sx) (length sy)"
  shows "BCast sx sy fewer = (let b = bcast_loop fewer (int n - 1) (rev (zip (aligned n sx) (aligned n sy))) (UNKNOWN, new_bcast)
    in if bc_valid b then finish_bcast b else b)"
proof -
  have l: "length (aligned n sx) = n" "length (aligned n sy) = n" using n by (simp_all add: aligned_def)
  have self: "rev s = rev (aligned n s)" if "length s = n" for s using that by (simp add: aligned_def)
  have eq: "(if length (rev sx) > length (rev sy) then (rev sx, resize_1 (length (rev sx)) (rev sy)) else (resize_1 (length (rev sy)) (rev sx), rev sy)) =
      (rev (aligned n sx), rev (aligned n sy))"
    using self [of sx] self [of sy] resize_rev [of sx n] resize_rev [of sy n] n by auto
  show ?thesis unfolding BCast_def if_not_P [OF assms(1)] Let_def eq by (simp add: l zip_rev)
qed

lemma BCast_swap: "BCast sy sx fewer = swap_bcast (BCast sx sy fewer)"
proof (cases "sx = sy \<and> fewer")
  case True
  then show ?thesis by (simp add: BCast_def Let_def swap_bcast_def new_bcast_def)
next
  case False
  define n where "n = max (length sx) (length sy)"
  have "rev (zip (aligned n sy) (aligned n sx)) = map (\<lambda>(x, y). (y, x)) (rev (zip (aligned n sx) (aligned n sy)))" by (simp only: zip_swap [of "aligned n sy" "aligned n sx"] rev_map)
  then have "bcast_loop fewer (int n - 1) (rev (zip (aligned n sy) (aligned n sx))) (UNKNOWN, new_bcast) =
      swap_bcast (bcast_loop fewer (int n - 1) (rev (zip (aligned n sx) (aligned n sy))) (UNKNOWN, new_bcast))"
    using bcast_loop_swap [of fewer "int n - 1" _ UNKNOWN new_bcast] by simp
  then show ?thesis using BCast_aligned [of sx sy fewer n] BCast_aligned [of sy sx fewer n] False n_def
    by (auto simp: Let_def finish_swap max.commute)
qed

subsection \<open>Arithmetic\<close>

lemma mul64_id: "0 \<le> a * b \<Longrightarrow> a * b < 2 ^ 63 \<Longrightarrow> mul64 a b = a * b"
  unfolding mul64_def by (subst signed_of_int) (simp add: signed_take_bit_int_eq_self)

text \<open>The product of the dimensions, with those of size 0 left out: no product that the loop forms is larger.\<close>

definition extent :: "int list \<Rightarrow> int" where
  "extent ds = prod_list (map (max 1) ds)"

lemma extent_simps [simp]: "extent [] = 1" "extent (d # ds) = max 1 d * extent ds" "extent (ds @ es) = extent ds * extent es"
  by (simp_all add: extent_def)

lemma extent_pos: "1 \<le> extent ds"
  by (induction ds) (auto simp: mult_le_cancel_right1 intro: order_trans mult_mono [of 1 _ 1, simplified])

lemma prod_list_nonneg: "\<forall>d \<in> set ds. 0 \<le> d \<Longrightarrow> 0 \<le> prod_list (ds :: int list)"
  by (induction ds) auto

lemma extent_mul_le:
  assumes "0 \<le> v" "v \<le> extent ds" "0 \<le> d" "extent (d # ds) < 2 ^ 63"
  shows "v * d \<le> extent (d # ds)" "0 \<le> v * d" "v * d < 2 ^ 63" "d < 2 ^ 63"
proof -
  have "v * d \<le> extent ds * max 1 d" using assms by (intro mult_mono) simp_all
  then show "v * d \<le> extent (d # ds)" by (simp add: mult.commute)
  then show "v * d < 2 ^ 63" using assms(4) by linarith
  show "0 \<le> v * d" using assms by simp
  have "max 1 d * 1 \<le> max 1 d * extent ds" using extent_pos by (intro mult_left_mono) simp_all
  then show "d < 2 ^ 63" using assms(4) by simp
qed

lemma foldl_mul64:
  "0 \<le> a \<Longrightarrow> max 1 a * extent ds < 2 ^ 63 \<Longrightarrow> \<forall>d \<in> set ds. 0 \<le> d \<Longrightarrow> foldl mul64 a ds = a * prod_list ds"
proof (induction ds arbitrary: a)
  case (Cons d ds)
  have e: "a * d \<le> max 1 a * max 1 d" using Cons.prems by (intro mult_mono) simp_all
  have "max 1 a * max 1 d * 1 \<le> max 1 a * max 1 d * extent ds" using extent_pos by (intro mult_left_mono) simp_all
  then have "a * d < 2 ^ 63" using e Cons.prems(2) by (simp add: mult.assoc)
  then have m: "mul64 a d = a * d" using Cons.prems by (intro mul64_id) simp_all
  have "1 \<le> max 1 a * max 1 d" using mult_mono [of 1 "max 1 a" 1 "max 1 d"] by simp
  then have "max 1 (a * d) \<le> max 1 a * max 1 d" using e by simp
  then have "max 1 (a * d) * extent ds \<le> max 1 a * max 1 d * extent ds" using extent_pos [of ds] by (intro mult_right_mono) simp_all
  then have "max 1 (a * d) * extent ds < 2 ^ 63" using Cons.prems(2) by (simp add: mult.assoc)
  then show ?case using Cons.IH [of "a * d"] Cons.prems m by simp
qed simp

subsection \<open>Positions\<close>

lemma split_position:
  assumes "0 < p" "0 < r"
  shows "(k::int) div p = k div (r * p) * r + k mod (r * p) div p" "k mod (r * p) mod p = k mod p"
proof -
  have "k div p div r = k div (r * p)" "k div p mod r = k mod (r * p) div p"
    using assms by (simp_all add: zdiv_zmult2_eq mult.commute [of r p] zmod_zmult2_eq div_mult1_eq)
  then show "k div p = k div (r * p) * r + k mod (r * p) div p" using div_mult_mod_eq [of "k div p" r] by simp
  show "k mod (r * p) mod p = k mod p" by (simp add: mod_mod_cancel)
qed

lemma div_less_mult: "0 < p \<Longrightarrow> k < n * p \<Longrightarrow> k div p < (n::int)"
proof (rule ccontr)
  assume a: "0 < p" "k < n * p" "\<not> k div p < n"
  then have "n * p \<le> k div p * p" by (intro mult_right_mono) simp_all
  moreover have "0 \<le> k mod p" using a(1) by simp
  ultimately show False using a(2) div_mult_mod_eq [of k p] by linarith
qed

lemma picked_range:
  fixes os :: "int list"
  assumes "0 \<le> k" "k < prod_list (n # os)" "\<forall>d \<in> set (n # os). 0 \<le> d"
  shows "0 < n" "0 < prod_list os" "0 \<le> k mod prod_list os" "k mod prod_list os < prod_list os" "0 \<le> k div prod_list os" "k div prod_list os < n"
proof -
  have "0 \<le> prod_list os" using prod_list_nonneg [of os] assms(3) by simp
  moreover have "0 < n * prod_list os" using assms(1,2) by simp
  ultimately show p: "0 < n" "0 < prod_list os" using assms(3) by (auto simp: zero_less_mult_iff)
  then show "0 \<le> k mod prod_list os" "k mod prod_list os < prod_list os" "0 \<le> k div prod_list os" using assms(1) by (simp_all add: pos_imp_zdiv_nonneg_iff)
  show "k div prod_list os < n" using p(2) assms(2) by (intro div_less_mult) simp_all
qed

lemma picked_same: "0 \<le> k \<Longrightarrow> k < prod_list ds \<Longrightarrow> \<forall>d \<in> set ds. 0 \<le> d \<Longrightarrow> picked ds ds k = k"
proof (induction ds arbitrary: k)
  case (Cons d ds)
  note r = picked_range [OF Cons.prems]
  have "picked ds ds (k mod prod_list ds) = k mod prod_list ds" using Cons.IH r Cons.prems(3) by simp
  then show ?case using r by simp
qed simp

subsection \<open>One operand\<close>

text \<open>
  The loop runs from the inner dimension outwards; \<open>D\<close> has the pairs of dimensions it has seen, the outer one first. \<open>side_ok\<close>: the
  shapes it has built for the first operand, reversed, are right for \<open>D\<close>; with fewer dimensions, the outermost ones are a run of the
  case that the loop remembers.
\<close>

definition out_dim :: "int \<times> int \<Rightarrow> int" where
  "out_dim d = (if fst d = 1 then snd d else fst d)"

definition case_of :: "int \<Rightarrow> int \<Rightarrow> bcast_state" where
  "case_of x y = (if x = y then SAME else if x = 1 then X_ONE else Y_ONE)"

definition side_ok :: "bool \<Rightarrow> bcast_state \<Rightarrow> (int \<times> int) list \<Rightarrow> int list \<Rightarrow> int list \<Rightarrow> int list \<Rightarrow> bool" where
  "side_ok fewer prev D R X B \<longleftrightarrow>
     length X = length B \<and> map2 (*) X B = R \<and> prod_list R = prod_list (map out_dim D) \<and> prod_list X = prod_list (map fst D) \<and>
     (\<forall>k. 0 \<le> k \<and> k < prod_list (map out_dim D) \<longrightarrow> picked X R k = picked (map fst D) (map out_dim D) k) \<and>
     (fewer \<and> prev \<noteq> UNKNOWN \<longrightarrow> (\<exists>v R0 X0 B0. R = v # R0 \<and> X = (if prev = X_ONE then 1 else v) # X0 \<and> B = (if prev = X_ONE then v else 1) # B0 \<and>
        0 \<le> v \<and> v \<le> extent (map (if prev = X_ONE then snd else fst) D)))"

definition nonneg :: "(int \<times> int) list \<Rightarrow> bool" where
  "nonneg D \<longleftrightarrow> (\<forall>d \<in> set D. 0 \<le> fst d \<and> 0 \<le> snd d)"

lemma nonneg_simps [simp]: "nonneg []" "nonneg (d # D) \<longleftrightarrow> 0 \<le> fst d \<and> 0 \<le> snd d \<and> nonneg D"
  by (auto simp: nonneg_def)

lemma nonneg_out: "nonneg D \<Longrightarrow> \<forall>d \<in> set (map out_dim D). 0 \<le> d"
  by (auto simp: nonneg_def out_dim_def)

lemma side_okD:
  assumes "side_ok fewer prev D R X B"
  shows "length X = length B" "map2 (*) X B = R" "prod_list R = prod_list (map out_dim D)" "prod_list X = prod_list (map fst D)"
    "0 \<le> k \<Longrightarrow> k < prod_list (map out_dim D) \<Longrightarrow> picked X R k = picked (map fst D) (map out_dim D) k"
    "fewer \<Longrightarrow> prev \<noteq> UNKNOWN \<Longrightarrow> \<exists>v R0 X0 B0. R = v # R0 \<and> X = (if prev = X_ONE then 1 else v) # X0 \<and>
      B = (if prev = X_ONE then v else 1) # B0 \<and> 0 \<le> v \<and> v \<le> extent (map (if prev = X_ONE then snd else fst) D)"
  using assms unfolding side_ok_def by blast+

lemma side_okI:
  assumes "length X = length B" "map2 (*) X B = R" "prod_list R = prod_list (map out_dim D)" "prod_list X = prod_list (map fst D)"
    "\<And>k. 0 \<le> k \<Longrightarrow> k < prod_list (map out_dim D) \<Longrightarrow> picked X R k = picked (map fst D) (map out_dim D) k"
    "fewer \<Longrightarrow> prev \<noteq> UNKNOWN \<Longrightarrow> \<exists>v R0 X0 B0. R = v # R0 \<and> X = (if prev = X_ONE then 1 else v) # X0 \<and>
      B = (if prev = X_ONE then v else 1) # B0 \<and> 0 \<le> v \<and> v \<le> extent (map (if prev = X_ONE then snd else fst) D)"
  shows "side_ok fewer prev D R X B"
  using assms unfolding side_ok_def by blast

lemma side_skip:
  assumes "side_ok True prev D R X B"
  shows "side_ok True prev ((1, 1) # D) R X B"
proof -
  have "picked X R k = picked (1 # map fst D) (1 # map out_dim D) k" if "0 \<le> k" "k < prod_list (map out_dim D)" for k
    using that side_okD(5) [OF assms] by simp
  then show ?thesis using assms unfolding side_ok_def by (simp add: out_dim_def)
qed

lemma side_push:
  assumes "side_ok fewer prev D R X B" "nonneg ((x, y) # D)" "compatible_dims (x, y)"
    and c: "fewer \<longrightarrow> cs = case_of x y"
  shows "side_ok fewer cs ((x, y) # D) (out_dim (x, y) # R) (x # X) ((if case_of x y = X_ONE then y else 1) # B)"
proof -
  have "picked (x # X) (out_dim (x, y) # R) k = picked (map fst ((x, y) # D)) (map out_dim ((x, y) # D)) k"
    if "0 \<le> k" "k < prod_list (map out_dim ((x, y) # D))" for k
  proof -
    note r = picked_range [OF that(1) that(2) [simplified list.map] nonneg_out [OF assms(2), simplified list.map]]
    show ?thesis using side_okD(3,4) [OF assms(1)] side_okD(5) [OF assms(1) r(3,4)] by simp
  qed
  moreover have "out_dim (x, y) = x * (if case_of x y = X_ONE then y else 1)" by (simp add: case_of_def out_dim_def)
  moreover have "fewer \<longrightarrow> (\<exists>v. out_dim (x, y) = v \<and> x = (if cs = X_ONE then 1 else v) \<and> (if case_of x y = X_ONE then y else 1) = (if cs = X_ONE then v else 1) \<and>
      0 \<le> v \<and> v \<le> extent (map (if cs = X_ONE then snd else fst) ((x, y) # D)))"
  proof
    assume fewer
    have le: "z \<le> max 1 z * extent ds" for z and ds :: "int list" using extent_pos [of ds] mult_left_mono [of 1 "extent ds" "max 1 z"] by simp
    show "\<exists>v. out_dim (x, y) = v \<and> x = (if cs = X_ONE then 1 else v) \<and> (if case_of x y = X_ONE then y else 1) = (if cs = X_ONE then v else 1) \<and>
      0 \<le> v \<and> v \<le> extent (map (if cs = X_ONE then snd else fst) ((x, y) # D))"
      using c \<open>fewer\<close> assms(2) le by (intro exI [of _ "out_dim (x, y)"]) (auto simp: out_dim_def case_of_def extent_pos)
  qed
  ultimately show ?thesis using assms(1) unfolding side_ok_def by (auto simp: mult.commute)
qed

lemma side_mul:
  assumes "side_ok True prev D R X B" "nonneg ((x, y) # D)" "compatible_dims (x, y)" "prev = case_of x y"
    and lim: "extent (map fst ((x, y) # D)) < 2 ^ 63" "extent (map snd ((x, y) # D)) < 2 ^ 63"
  shows "\<exists>r R0 a X0 b B0. R = r # R0 \<and> X = a # X0 \<and> B = b # B0 \<and>
    side_ok True prev ((x, y) # D) (mul64 r (out_dim (x, y)) # R0) (mul64 a x # X0) (mul64 b (if prev = X_ONE then y else 1) # B0)"
proof -
  have "prev \<noteq> UNKNOWN" using assms(4) by (simp add: case_of_def)
  then obtain v R0 X0 B0 where l: "R = v # R0" "X = (if prev = X_ONE then 1 else v) # X0" "B = (if prev = X_ONE then v else 1) # B0"
      "0 \<le> v" "v \<le> extent (map (if prev = X_ONE then snd else fst) D)"
    using side_okD(6) [OF assms(1)] by blast
  define z where "z = (if prev = X_ONE then y else x)"
  have z: "out_dim (x, y) = z" "x = (if prev = X_ONE then 1 else z)" "0 \<le> z"
    using assms(2,4) by (auto simp: z_def out_dim_def case_of_def split: if_splits)
  let ?s = "map (if prev = X_ONE then snd else fst)"
  have zl: "?s ((x, y) # D) = z # ?s D" by (simp add: z_def)
  have "extent (z # ?s D) < 2 ^ 63" using lim unfolding zl [symmetric] by simp
  note e = extent_mul_le [OF l(4,5) z(3) this]
  have m: "mul64 v z = v * z" "mul64 1 1 = 1" using e by (simp_all add: mul64_id)
  let ?R = "v * z # R0" and ?X = "(if prev = X_ONE then 1 else v * z) # X0" and ?B = "(if prev = X_ONE then v * z else 1) # B0"
  note D = side_okD [OF assms(1), unfolded l(1-3)]
  have "side_ok True prev ((x, y) # D) ?R ?X ?B"
  proof (rule side_okI)
    show "prod_list ?R = prod_list (map out_dim ((x, y) # D))" using D(3) z(1) by (simp add: mult.assoc mult.left_commute [of z])
    show "prod_list ?X = prod_list (map fst ((x, y) # D))" using D(4) z(2) by (cases "prev = X_ONE") (simp_all add: mult.assoc mult.left_commute [of z])
    fix k assume k: "0 \<le> k" "k < prod_list (map out_dim ((x, y) # D))"
    note r = picked_range [OF k(1) k(2) [unfolded list.map] nonneg_out [OF assms(2), unfolded list.map]]
    have q: "prod_list (map out_dim D) = v * prod_list R0" using D(3) by simp
    have "0 < v * prod_list R0" using r(2) unfolding q .
    then have pos: "0 < v" "0 < prod_list R0" using l(4) by (auto simp: zero_less_mult_iff)
    have in_run: "picked (map fst D) (map out_dim D) (k mod (v * prod_list R0)) =
        picked ((if prev = X_ONE then 1 else v) # X0) (v # R0) (k mod (v * prod_list R0))"
      using D(5) [OF r(3,4)] unfolding q by simp
    note sp = split_position [OF pos(2,1), of k]
    have "k < v * (out_dim (x, y) * prod_list R0)" using k(2) by (simp add: q mult.left_commute)
    then have b: "0 \<le> k div prod_list R0" "k div prod_list R0 < v * z" "0 \<le> k div (v * prod_list R0)" "k div (v * prod_list R0) < z"
        "0 \<le> k mod (v * prod_list R0) div prod_list R0" "k mod (v * prod_list R0) div prod_list R0 < v"
      using k pos r(5,6) z(1) unfolding q
      by (auto simp: pos_imp_zdiv_nonneg_iff mult.assoc mult.left_commute [of z] intro!: div_less_mult)
    show "picked ?X ?R k = picked (map fst ((x, y) # D)) (map out_dim ((x, y) # D)) k"
    proof (cases "prev = X_ONE")
      case True
      then show ?thesis using in_run z q sp(2) by simp
    next
      case False
      have "prod_list (map fst D) = v * prod_list X0" using D(4) False by simp
      then have "picked (map fst ((x, y) # D)) (map out_dim ((x, y) # D)) k =
          k div (v * prod_list R0) * (v * prod_list X0) + picked (v # X0) (v # R0) (k mod (v * prod_list R0))"
        using in_run z q b(3,4) False by simp
      also have "\<dots> = k div prod_list R0 * prod_list X0 + picked X0 R0 (k mod prod_list R0)"
        using b(5,6) sp(2) unfolding sp(1) by (simp add: algebra_simps)
      finally show ?thesis using b(1,2) False by simp
    qed
  qed (use D l e zl in \<open>auto split: if_splits\<close>)
  then have "side_ok True prev ((x, y) # D) (mul64 v (out_dim (x, y)) # R0) (mul64 (if prev = X_ONE then 1 else v) x # X0)
      (mul64 (if prev = X_ONE then v else 1) (if prev = X_ONE then y else 1) # B0)"
  proof (cases "prev = X_ONE")
    case True
    then have "y = z" "x = 1" using z(2) by (simp_all add: z_def)
    then show ?thesis using \<open>side_ok True prev ((x, y) # D) ?R ?X ?B\<close> m z(1) True by simp
  next
    case False
    then have "x = z" by (simp add: z_def)
    then show ?thesis using \<open>side_ok True prev ((x, y) # D) ?R ?X ?B\<close> m z(1) False by simp
  qed
  then show ?thesis using l(1-3) by blast
qed

subsection \<open>The loop\<close>

text \<open>The positions of the dimensions of size 1, counted from \<open>j\<close>.\<close>

fun ones :: "int \<Rightarrow> int list \<Rightarrow> int list" where
  "ones j [] = []"
| "ones j (d # ds) = (if d = 1 then j # ones (j + 1) ds else ones (j + 1) ds)"

definition loop_ok :: "bool \<Rightarrow> int \<Rightarrow> (int \<times> int) list \<Rightarrow> bcast_state \<Rightarrow> bcast \<Rightarrow> bool" where
  "loop_ok fewer j D prev b \<longleftrightarrow> bc_valid b \<and> rev (output_shape b) = map out_dim D \<and>
     side_ok fewer prev D (rev (result_shape b)) (rev (x_reshape b)) (rev (x_bcast b)) \<and> rev (grad_x_reduce_idx b) = ones (j + 1) (map fst D)"

lemma rev_mul_back: "rev v = a # w \<Longrightarrow> rev (mul_back d v) = mul64 a d # w"
  by (simp add: mul_back_def rev_swap)

lemma loop_ok_round:
  assumes "loop_ok fewer j D prev b" "nonneg ((x, y) # D)" "extent (map fst ((x, y) # D)) < 2 ^ 63" "extent (map snd ((x, y) # D)) < 2 ^ 63"
  shows "if compatible_dims (x, y) then \<exists>c b'. bcast_round fewer j x y (prev, b) = Some (c, b') \<and> loop_ok fewer (j - 1) ((x, y) # D) c b'
    else bcast_round fewer j x y (prev, b) = None"
proof (cases "compatible_dims (x, y)")
  case False
  then show ?thesis by (simp add: compatible_dims_def bcast_round_def)
next
  case c: True
  define b1 where "b1 = (if x = y then if x = 1 then b\<lparr>output_shape := output_shape b @ [1], grad_x_reduce_idx := grad_x_reduce_idx b @ [j],
      grad_y_reduce_idx := grad_y_reduce_idx b @ [j]\<rparr> else b\<lparr>output_shape := output_shape b @ [x]\<rparr>
    else if x = 1 then b\<lparr>grad_x_reduce_idx := grad_x_reduce_idx b @ [j], output_shape := output_shape b @ [y]\<rparr>
    else b\<lparr>grad_y_reduce_idx := grad_y_reduce_idx b @ [j], output_shape := output_shape b @ [x]\<rparr>)"
  let ?bx = "if case_of x y = X_ONE then y else 1" and ?by = "if case_of x y = Y_ONE then x else 1"
  have same: "result_shape b1 = result_shape b" "x_reshape b1 = x_reshape b" "x_bcast b1 = x_bcast b"
    and new: "bc_valid b1" "rev (output_shape b1) = map out_dim ((x, y) # D)" "rev (grad_x_reduce_idx b1) = ones (j - 1 + 1) (map fst ((x, y) # D))"
    using assms(1) c by (auto simp: b1_def loop_ok_def out_dim_def compatible_dims_def rev_swap)
  have side: "side_ok fewer prev D (rev (result_shape b)) (rev (x_reshape b)) (rev (x_bcast b))" using assms(1) by (simp add: loop_ok_def)
  have push: "loop_ok fewer (j - 1) ((x, y) # D) cs (push_dims (out_dim (x, y)) x ?bx y ?by b1)" if "fewer \<longrightarrow> cs = case_of x y" for cs
    using side_push [OF side assms(2) c that] new same by (simp add: loop_ok_def push_dims_def)
  consider (skip) "x = 1" "y = 1" fewer | (ones) "x = 1" "y = 1" "\<not> fewer"
    | (mul) "\<not> (x = 1 \<and> y = 1)" fewer "prev = case_of x y" | (new) "\<not> (x = 1 \<and> y = 1)" "\<not> (fewer \<and> prev = case_of x y)" by blast
  then show ?thesis
  proof cases
    case skip
    then have "bcast_round fewer j x y (prev, b) = Some (prev, b1)" by (simp add: bcast_round_def Let_def b1_def)
    moreover have "loop_ok fewer (j - 1) ((x, y) # D) prev b1"
      using side_skip [of prev D] side skip new same by (simp add: loop_ok_def)
    ultimately show ?thesis using c by simp
  next
    case ones
    then have "bcast_round fewer j x y (prev, b) = Some (prev, push_dims (out_dim (x, y)) x ?bx y ?by b1)"
      by (simp add: bcast_round_def Let_def b1_def out_dim_def case_of_def)
    then show ?thesis using c push [of prev] ones by simp
  next
    case mul
    have r: "bcast_round fewer j x y (prev, b) = Some (prev, mul_dims (out_dim (x, y)) x ?bx y ?by b1)"
      using mul c by (auto simp: bcast_round_def Let_def b1_def out_dim_def case_of_def compatible_dims_def)
    obtain r R0 a X0 d B0 where l: "rev (result_shape b) = r # R0" "rev (x_reshape b) = a # X0" "rev (x_bcast b) = d # B0"
        "side_ok True prev ((x, y) # D) (mul64 r (out_dim (x, y)) # R0) (mul64 a x # X0) (mul64 d ?bx # B0)"
      using side_mul [OF _ assms(2) c mul(3) assms(3,4), of "rev (result_shape b)" "rev (x_reshape b)" "rev (x_bcast b)"] side mul by auto
    have "loop_ok fewer (j - 1) ((x, y) # D) prev (mul_dims (out_dim (x, y)) x ?bx y ?by b1)"
      using l(4) new same mul(2) by (simp add: loop_ok_def mul_dims_def rev_mul_back [OF l(1)] rev_mul_back [OF l(2)] rev_mul_back [OF l(3)])
    then show ?thesis using c r by auto
  next
    case new
    then have "bcast_round fewer j x y (prev, b) = Some (case_of x y, push_dims (out_dim (x, y)) x ?bx y ?by b1)"
      using c by (auto simp: bcast_round_def Let_def b1_def out_dim_def case_of_def compatible_dims_def)
    then show ?thesis using c push [of "case_of x y"] by simp
  qed
qed

lemma bcast_loop_ok:
  assumes "loop_ok fewer j D prev b" "nonneg (rev ds @ D)" "extent (map fst (rev ds @ D)) < 2 ^ 63" "extent (map snd (rev ds @ D)) < 2 ^ 63"
  shows "if \<forall>d \<in> set ds. compatible_dims d then \<exists>c. loop_ok fewer (j - int (length ds)) (rev ds @ D) c (bcast_loop fewer j ds (prev, b))
    else \<not> bc_valid (bcast_loop fewer j ds (prev, b))"
  using assms
proof (induction ds arbitrary: j D prev b)
  case (Cons d ds)
  obtain x y where d: "d = (x, y)" by (cases d)
  have small: "extent (map f ((x, y) # D)) < 2 ^ 63" if "extent (map f (rev (d # ds) @ D)) < 2 ^ 63" for f
    using that mult_right_mono [of 1 "extent (map f (rev ds))" "extent (map f ((x, y) # D))"] extent_pos [of "map f (rev ds)"] extent_pos [of "map f ((x, y) # D)"]
    by (simp add: d)
  have "nonneg ((x, y) # D)" using Cons.prems(2) by (auto simp: nonneg_def d)
  note r = loop_ok_round [OF Cons.prems(1) this small small, OF Cons.prems(3,4)]
  show ?case
  proof (cases "compatible_dims d")
    case False
    then show ?thesis using r by (auto simp: d)
  next
    case True
    then obtain c b' where r: "bcast_round fewer j x y (prev, b) = Some (c, b')" "loop_ok fewer (j - 1) ((x, y) # D) c b'" using r by (auto simp: d)
    have "rev (d # ds) @ D = rev ds @ (x, y) # D" by (simp add: d)
    then show ?thesis using Cons.IH [OF r(2)] Cons.prems(2-4) True r(1) by (auto simp: d diff_diff_eq split: if_splits)
  qed
qed auto

subsection \<open>Results\<close>

lemma finish_fields:
  "bc_valid (finish_bcast b) = bc_valid b" "output_shape (finish_bcast b) = rev (output_shape b)"
  "grad_x_reduce_idx (finish_bcast b) = rev (grad_x_reduce_idx b)"
  "result_shape (finish_bcast b) = (if result_shape b = [] then [1] else rev (result_shape b))"
  "result_shape b = [] \<Longrightarrow> x_reshape b = [] \<Longrightarrow> x_bcast b = [] \<Longrightarrow> x_reshape (finish_bcast b) = [1] \<and> x_bcast (finish_bcast b) = [1]"
  "result_shape b \<noteq> [] \<Longrightarrow> x_reshape (finish_bcast b) = rev (x_reshape b) \<and> x_bcast (finish_bcast b) = rev (x_bcast b)"
  by (simp_all add: finish_bcast_def Let_def push_dims_def)

definition operand_ok :: "int list \<Rightarrow> int list \<Rightarrow> int list \<Rightarrow> int list \<Rightarrow> int list \<Rightarrow> bool" where
  "operand_ok xs os R X B \<longleftrightarrow> length X = length B \<and> map2 (*) X B = R \<and> prod_list R = prod_list os \<and>
     (\<forall>k. 0 \<le> k \<and> k < prod_list os \<longrightarrow> picked X R k = picked xs os k)"

lemma side_operand: "side_ok fewer prev D R X B \<Longrightarrow> operand_ok (map fst D) (map out_dim D) R X B"
  using side_okD [of fewer prev D R X B] unfolding operand_ok_def by blast

lemma finish_operand:
  assumes "side_ok fewer prev D (rev (result_shape b)) (rev (x_reshape b)) (rev (x_bcast b))"
  shows "operand_ok (map fst D) (map out_dim D) (result_shape (finish_bcast b)) (x_reshape (finish_bcast b)) (x_bcast (finish_bcast b))"
proof (cases "result_shape b = []")
  case False
  then show ?thesis using side_operand [OF assms] by (simp add: finish_fields)
next
  case True
  note d = side_okD [OF assms]
  have e: "x_reshape b = []" "x_bcast b = []" using d(1,2) True by (auto simp: zip_eq_Nil_iff)
  have "picked [1] [1] k = picked (map fst D) (map out_dim D) k" if "0 \<le> k" "k < prod_list (map out_dim D)" for k
    using d(5) [OF that] e True by simp
  then show ?thesis using d(3) e True finish_fields(5) [OF True e] by (simp add: operand_ok_def finish_fields)
qed

lemma extent_aligned: "extent (aligned n s) = extent s"
proof -
  have "extent (replicate m 1) = 1" for m by (induction m) simp_all
  then show ?thesis by (simp add: aligned_def)
qed

text \<open>What the constructor computes for its first operand.\<close>

lemma BCast_first:
  assumes "\<forall>d \<in> set sx \<union> set sy. 0 \<le> d" "extent sx < 2 ^ 63" "extent sy < 2 ^ 63"
    and n: "n = max (length sx) (length sy)" and D: "D = zip (aligned n sx) (aligned n sy)" and b: "b = BCast sx sy fewer"
  shows "bc_valid b \<longleftrightarrow> (\<forall>d \<in> set D. compatible_dims d)"
    "bc_valid b \<Longrightarrow> output_shape b = map out_dim D \<and> operand_ok (aligned n sx) (map out_dim D) (result_shape b) (x_reshape b) (x_bcast b) \<and>
       grad_x_reduce_idx b = (if fewer \<and> sx = sy then [] else ones 0 (aligned n sx))"
proof -
  have len: "length (aligned n sx) = n" "length (aligned n sy) = n" using n by (simp_all add: aligned_def)
  then have maps: "map fst D = aligned n sx" "map snd D = aligned n sy" "length D = n" by (simp_all add: D)
  have "bc_valid b = (\<forall>d \<in> set D. compatible_dims d) \<and> (bc_valid b \<longrightarrow> output_shape b = map out_dim D \<and>
      operand_ok (aligned n sx) (map out_dim D) (result_shape b) (x_reshape b) (x_bcast b) \<and>
      grad_x_reduce_idx b = (if fewer \<and> sx = sy then [] else ones 0 (aligned n sx)))"
  proof (cases "sx = sy \<and> fewer")
    case True
    then have al: "aligned n sx = sx" "D = map (\<lambda>d. (d, d)) sx" using n D by (simp_all add: aligned_def zip_same_conv_map)
    have "out_dim (d, d) = d" for d by (simp add: out_dim_def)
    then have os: "map out_dim D = sx" by (simp add: al(2) comp_def)
    have "foldl mul64 1 sx = prod_list sx" using foldl_mul64 [of 1 sx] assms(1,2) by simp
    then have bs: "b = new_bcast\<lparr>output_shape := sx, result_shape := [prod_list sx], x_reshape := [prod_list sx], y_reshape := [prod_list sx],
        x_bcast := [1], y_bcast := [1]\<rparr>" using True by (simp add: b BCast_def Let_def)
    have "picked [prod_list sx] [prod_list sx] k = picked sx sx k" if "0 \<le> k" "k < prod_list sx" for k
      using that picked_same [OF that] assms(1) by simp
    then have "operand_ok sx sx [prod_list sx] [prod_list sx] [1]" by (simp add: operand_ok_def)
    moreover have "\<forall>d \<in> set D. compatible_dims d" by (simp add: al(2) compatible_dims_def)
    ultimately show ?thesis using True unfolding os al(1) by (simp add: bs new_bcast_def)
  next
    case False
    define l where "l = bcast_loop fewer (int n - 1) (rev D) (UNKNOWN, new_bcast)"
    have bl: "b = (if bc_valid l then finish_bcast l else l)" using BCast_aligned [OF False n] by (simp add: b l_def D Let_def)
    have start: "loop_ok fewer (int n - 1) [] UNKNOWN new_bcast" by (simp add: loop_ok_def side_ok_def new_bcast_def)
    have "set (aligned n s) \<subseteq> insert 1 (set s)" for s by (auto simp: aligned_def)
    then have "\<forall>d \<in> set (aligned n sx) \<union> set (aligned n sy). 0 \<le> d" using assms(1) by fastforce
    then have "nonneg D" using maps(1,2) unfolding nonneg_def by (metis UnI1 UnI2 image_eqI list.set_map)
    then have "if \<forall>d \<in> set D. compatible_dims d then \<exists>c. loop_ok fewer (- 1) D c l else \<not> bc_valid l"
      using bcast_loop_ok [OF start, of "rev D"] assms(2,3) by (auto simp: maps extent_aligned l_def split: if_splits)
    then show ?thesis using finish_operand [of fewer _ D l] False bl maps
      by (auto simp: loop_ok_def finish_fields split: if_splits)
  qed
  then show "bc_valid b \<longleftrightarrow> (\<forall>d \<in> set D. compatible_dims d)"
    "bc_valid b \<Longrightarrow> output_shape b = map out_dim D \<and> operand_ok (aligned n sx) (map out_dim D) (result_shape b) (x_reshape b) (x_bcast b) \<and>
       grad_x_reduce_idx b = (if fewer \<and> sx = sy then [] else ones 0 (aligned n sx))" by simp_all
qed

lemma broadcast_shape:
  assumes "\<forall>d \<in> set sx \<union> set sy. 0 \<le> d" "extent sx < 2 ^ 63" "extent sy < 2 ^ 63" "bc_valid (BCast sx sy fewer)"
  shows "output_shape (BCast sx sy fewer) =
    map2 (\<lambda>x y. if x = 1 then y else x) (aligned (max (length sx) (length sy)) sx) (aligned (max (length sx) (length sy)) sy)"
proof -
  have "map out_dim (zip xs ys) = map2 (\<lambda>x y. if x = 1 then y else x) xs ys" for xs ys by (rule map_cong) (auto simp: out_dim_def)
  then show ?thesis using BCast_first(2) [OF assms(1-3) refl refl refl assms(4)] by simp
qed

text \<open>
  C22: Two shapes can be broadcast iff, aligned at the inner dimension, their sizes are equal or one is 1 everywhere. Then the output
  has, in each dimension, the size that is not 1; and reshaping the operands to \<^verbatim>\<open>x_reshape\<close> and \<^verbatim>\<open>y_reshape\<close> and repeating them
  \<^verbatim>\<open>x_bcast\<close> and \<^verbatim>\<open>y_bcast\<close> times, with or without the optimisation that joins dimensions, picks for every element of the output the
  same elements of the operands as repeating the aligned operands themselves does. The dimensions over which a gradient is summed are those in
  which the operand has size 1; for equal shapes, with the optimisation, there are none.
\<close>

theorem broadcast_correct:
  assumes "\<forall>d \<in> set sx \<union> set sy. 0 \<le> d" "extent sx < 2 ^ 63" "extent sy < 2 ^ 63"
  shows "let n = max (length sx) (length sy); xs = aligned n sx; ys = aligned n sy; b = BCast sx sy fewer in
    (bc_valid b \<longleftrightarrow> (\<forall>d \<in> set (zip xs ys). compatible_dims d)) \<and>
    (bc_valid b \<longrightarrow> output_shape b = map2 (\<lambda>x y. if x = 1 then y else x) xs ys \<and> prod_list (result_shape b) = prod_list (output_shape b) \<and>
       map2 (*) (x_reshape b) (x_bcast b) = result_shape b \<and> map2 (*) (y_reshape b) (y_bcast b) = result_shape b \<and>
       (\<forall>k. 0 \<le> k \<and> k < prod_list (output_shape b) \<longrightarrow> picked (x_reshape b) (result_shape b) k = picked xs (output_shape b) k \<and>
          picked (y_reshape b) (result_shape b) k = picked ys (output_shape b) k) \<and>
       grad_x_reduce_idx b = (if fewer \<and> sx = sy then [] else ones 0 xs) \<and> grad_y_reduce_idx b = (if fewer \<and> sx = sy then [] else ones 0 ys))"
proof -
  define n xs ys b where d: "n = max (length sx) (length sy)" "xs = aligned n sx" "ys = aligned n sy" "b = BCast sx sy fewer"
  have n': "n = max (length sy) (length sx)" and nn: "\<forall>d \<in> set sy \<union> set sx. 0 \<le> d" using d(1) assms(1) by auto
  note f = BCast_first [OF assms d(1) refl d(4), folded d(2,3)]
  have sw: "swap_bcast b = BCast sy sx fewer" unfolding d(4) by (rule BCast_swap [symmetric])
  note g = BCast_first [OF nn assms(3,2) n' refl sw, folded d(2,3), simplified]
  have m: "map out_dim (zip xs ys) = map2 (\<lambda>x y. if x = 1 then y else x) xs ys" by (rule map_cong) (auto simp: out_dim_def)
  have v: "output_shape b = map2 (\<lambda>x y. if x = 1 then y else x) xs ys" "operand_ok xs (output_shape b) (result_shape b) (x_reshape b) (x_bcast b)"
      "operand_ok ys (output_shape b) (result_shape b) (y_reshape b) (y_bcast b)"
      "grad_x_reduce_idx b = (if fewer \<and> sx = sy then [] else ones 0 xs)" "grad_y_reduce_idx b = (if fewer \<and> sx = sy then [] else ones 0 ys)"
    if "bc_valid b"
  proof -
    show "output_shape b = map2 (\<lambda>x y. if x = 1 then y else x) xs ys" using f(2) [OF that] m by simp
    show "operand_ok xs (output_shape b) (result_shape b) (x_reshape b) (x_bcast b)" using f(2) [OF that] by simp
    show "operand_ok ys (output_shape b) (result_shape b) (y_reshape b) (y_bcast b)" using g(2) [OF that] by simp
    show "grad_x_reduce_idx b = (if fewer \<and> sx = sy then [] else ones 0 xs)" using f(2) [OF that] by blast
    show "grad_y_reduce_idx b = (if fewer \<and> sx = sy then [] else ones 0 ys)" using g(2) [OF that] by (metis (full_types))
  qed
  have "(bc_valid b \<longleftrightarrow> (\<forall>d \<in> set (zip xs ys). compatible_dims d)) \<and>
    (bc_valid b \<longrightarrow> output_shape b = map2 (\<lambda>x y. if x = 1 then y else x) xs ys \<and> prod_list (result_shape b) = prod_list (output_shape b) \<and>
       map2 (*) (x_reshape b) (x_bcast b) = result_shape b \<and> map2 (*) (y_reshape b) (y_bcast b) = result_shape b \<and>
       (\<forall>k. 0 \<le> k \<and> k < prod_list (output_shape b) \<longrightarrow> picked (x_reshape b) (result_shape b) k = picked xs (output_shape b) k \<and>
          picked (y_reshape b) (result_shape b) k = picked ys (output_shape b) k) \<and>
       grad_x_reduce_idx b = (if fewer \<and> sx = sy then [] else ones 0 xs) \<and> grad_y_reduce_idx b = (if fewer \<and> sx = sy then [] else ones 0 ys))"
    using f(1) v unfolding operand_ok_def by blast
  then show ?thesis by (simp add: d Let_def)
qed

theorem broadcast_correct_witness:
  "output_shape (BCast [2, 3] [3] True) = [2, 3] \<and> x_reshape (BCast [2, 3] [3] True) = [2, 3] \<and> y_reshape (BCast [2, 3] [3] True) = [1, 3] \<and>
   picked (y_reshape (BCast [2, 3] [3] True)) (result_shape (BCast [2, 3] [3] True)) 4 = 1"
proof -
  let ?b = "BCast [2, 3] [3] True"
  have v: "bc_valid ?b" "x_reshape ?b = [2, 3]" "y_reshape ?b = [1, 3]" by code_simp+
  then show ?thesis using broadcast_correct [of "[2, 3]" "[3]" True] by (simp add: aligned_def Let_def)
qed

end
