(* ===== verification/Tensor_Shape.thy ===== *)
theory Tensor_Shape
  imports Pending_Counts Numbers
begin

text \<open>
  \<^verbatim>\<open>core/framework/tensor_shape.h\<close> and \<^verbatim>\<open>.cc\<close>, with \<^verbatim>\<open>core/util/overflow.h\<close>. A shape is sixteen bytes: up to six sizes of
  16 bits or three of 32 bits, or the address of a vector, then the data type, the rank and the tag. The model keeps
  the bytes (little-endian), and the vector beside them in the place of its address. \<^verbatim>\<open>TensorShape\<close> and
  \<^verbatim>\<open>PartialTensorShape\<close> share the code; \<open>kp\<close> is \<^verbatim>\<open>kIsPartial\<close>. A new shape lies in memory that was not initialised: its bytes are the
  argument \<open>mem\<close> of the constructors.
\<close>

subsection \<open>The representation\<close>

record shape_rep =
  buf :: "nat list"
  out_of_line :: "int list"
  num_elements :: int

definition MaxDimensions :: nat where
  "MaxDimensions = 254"

definition kMaxRep16 :: int where
  "kMaxRep16 = 2 ^ 16 - 2"

definition kMaxRep32 :: int where
  "kMaxRep32 = 2 ^ 32 - 2"

definition kUnknownRep16 :: nat where
  "kUnknownRep16 = 2 ^ 16 - 1"

definition kUnknownRep32 :: nat where
  "kUnknownRep32 = 2 ^ 32 - 1"

definition kUnknownRank :: nat where
  "kUnknownRank = 255"

text \<open>The enumeration \<^verbatim>\<open>RepTag\<close>, as it is stored.\<close>

abbreviation (input) REP16 :: nat where
  "REP16 \<equiv> 0"

abbreviation (input) REP32 :: nat where
  "REP32 \<equiv> 1"

abbreviation (input) REP_OUT_OF_LINE :: nat where
  "REP_OUT_OF_LINE \<equiv> 2"

definition data_type :: "shape_rep \<Rightarrow> nat" where
  "data_type s = buf s ! 13"

definition set_data_type :: "nat \<Rightarrow> shape_rep \<Rightarrow> shape_rep" where
  "set_data_type dt s = s\<lparr>buf := (buf s)[13 := dt mod 256]\<rparr>"

definition ndims_byte :: "shape_rep \<Rightarrow> nat" where
  "ndims_byte s = buf s ! 14"

definition set_ndims_byte :: "nat \<Rightarrow> shape_rep \<Rightarrow> shape_rep" where
  "set_ndims_byte nd s = s\<lparr>buf := (buf s)[14 := nd mod 256]\<rparr>"

definition tag :: "shape_rep \<Rightarrow> nat" where
  "tag s = buf s ! 15"

definition set_tag :: "nat \<Rightarrow> shape_rep \<Rightarrow> shape_rep" where
  "set_tag t s = s\<lparr>buf := (buf s)[15 := t mod 256]\<rparr>"

definition set_num_elements :: "int \<Rightarrow> shape_rep \<Rightarrow> shape_rep" where
  "set_num_elements n s = s\<lparr>num_elements := n\<rparr>"

text \<open>\<^verbatim>\<open>as16()->dims_[d]\<close> and \<^verbatim>\<open>as32()->dims_[d]\<close>, read and written.\<close>

definition dim16 :: "shape_rep \<Rightarrow> nat \<Rightarrow> nat" where
  "dim16 s d = buf s ! (2 * d) + 256 * buf s ! (2 * d + 1)"

definition put_dim16 :: "nat \<Rightarrow> nat \<Rightarrow> shape_rep \<Rightarrow> shape_rep" where
  "put_dim16 d v s = s\<lparr>buf := (buf s)[2 * d := v mod 256, 2 * d + 1 := v div 256 mod 256]\<rparr>"

definition dim32 :: "shape_rep \<Rightarrow> nat \<Rightarrow> nat" where
  "dim32 s d = word_at (buf s) (4 * d)"

definition put_dim32 :: "nat \<Rightarrow> nat \<Rightarrow> shape_rep \<Rightarrow> shape_rep" where
  "put_dim32 d v s = s\<lparr>buf := put_word (4 * d) v (buf s)\<rparr>"

subsection \<open>Reading a shape\<close>

definition unknown_rank :: "bool \<Rightarrow> shape_rep \<Rightarrow> bool" where
  "unknown_rank kp s \<longleftrightarrow> kp \<and> ndims_byte s = kUnknownRank"

definition dims :: "bool \<Rightarrow> shape_rep \<Rightarrow> int" where
  "dims kp s = (if kp \<and> ndims_byte s = kUnknownRank then - 1 else int (ndims_byte s))"

definition dim_size :: "bool \<Rightarrow> shape_rep \<Rightarrow> nat \<Rightarrow> int" where
  "dim_size kp s d =
     (if unknown_rank kp s then - 1
      else if tag s = REP16 then (if kp \<and> dim16 s d = kUnknownRep16 then - 1 else int (dim16 s d))
      else if tag s = REP32 then (if kp \<and> dim32 s d = kUnknownRep32 then - 1 else int (dim32 s d))
      else out_of_line s ! d)"

text \<open>The loop \<^verbatim>\<open>for (auto dim : *this)\<close>; \<^verbatim>\<open>end()\<close> has a \<^verbatim>\<open>CHECK\<close>.\<close>

definition dim_sizes :: "bool \<Rightarrow> shape_rep \<Rightarrow> int list outcome" where
  "dim_sizes kp s = (if unknown_rank kp s then Abort else Done (map (dim_size kp s) [0..<ndims_byte s]))"

definition IsFullyDefined :: "bool \<Rightarrow> shape_rep \<Rightarrow> bool" where
  "IsFullyDefined kp s \<longleftrightarrow> \<not> kp \<or> num_elements s \<noteq> - 1"

record shape_proto =
  proto_unknown_rank :: bool
  proto_dim :: "int list"

definition AsProto :: "bool \<Rightarrow> shape_rep \<Rightarrow> shape_proto" where
  "AsProto kp s =
     (if unknown_rank kp s then \<lparr>proto_unknown_rank = True, proto_dim = []\<rparr>
      else \<lparr>proto_unknown_rank = False, proto_dim = map (dim_size kp s) [0..<nat (dims kp s)]\<rparr>)"

text \<open>\<^verbatim>\<open>TensorShapeRep::DebugString\<close> reads any shape as a partial one.\<close>

definition dim_text :: "int \<Rightarrow> string" where
  "dim_text dim = (if dim < 0 then ''?'' else FastInt64ToBufferLeft dim)"

fun dims_text :: "bool \<Rightarrow> int list \<Rightarrow> string" where
  "dims_text first [] = ''''"
| "dims_text first (x # xs) = (if first then '''' else '','') @ dim_text x @ dims_text False xs"

definition DebugString :: "shape_rep \<Rightarrow> string" where
  "DebugString s =
     (if unknown_rank True s then ''<unknown>''
      else ''['' @ dims_text True (map (dim_size True s) [0..<nat (dims True s)]) @ '']'')"

subsection \<open>Multiplication with overflow\<close>

definition to_int64 :: "nat \<Rightarrow> int" where
  "to_int64 u = (if u < 2 ^ 63 then int u else int u - 2 ^ 64)"

definition to_uint64 :: "int \<Rightarrow> nat" where
  "to_uint64 x = nat (x mod 2 ^ 64)"

definition MultiplyWithoutOverflow :: "int \<Rightarrow> int \<Rightarrow> int outcome" where
  "MultiplyWithoutOverflow x y =
     (let ux = to_uint64 x; uy = to_uint64 y; uxy = wrap64 (ux * uy) in
      if drop_bit 32 (ux OR uy) \<noteq> 0 then
        (if \<not> (0 \<le> x \<and> 0 \<le> y) then Abort
         else if ux \<noteq> 0 \<and> uxy div ux \<noteq> uy then Done (- 1)
         else Done (to_int64 uxy))
      else Done (to_int64 uxy))"

subsection \<open>Building a shape\<close>

definition ClearAllButDataType :: "shape_rep \<Rightarrow> shape_rep" where
  "ClearAllButDataType s = set_num_elements 1 (set_ndims_byte 0 (set_tag REP16 (s\<lparr>out_of_line := []\<rparr>)))"

definition DT_INVALID :: nat where
  "DT_INVALID = 0"

definition Clear_shape :: "shape_rep \<Rightarrow> shape_rep" where
  "Clear_shape s = set_data_type DT_INVALID (ClearAllButDataType s)"

text \<open>\<^verbatim>\<open>kIsPartial && size < 0 ? kUnknownRep16 : static_cast<uint16>(size)\<close>, and at 32 bits.\<close>

definition enc16 :: "bool \<Rightarrow> int \<Rightarrow> nat" where
  "enc16 kp sz = (if kp \<and> sz < 0 then kUnknownRep16 else nat (sz mod 2 ^ 16))"

definition enc32 :: "bool \<Rightarrow> int \<Rightarrow> nat" where
  "enc32 kp sz = (if kp \<and> sz < 0 then kUnknownRep32 else nat (sz mod 2 ^ 32))"

fun put_dims32 :: "bool \<Rightarrow> nat \<Rightarrow> int list \<Rightarrow> shape_rep \<Rightarrow> shape_rep" where
  "put_dims32 kp d [] s = s"
| "put_dims32 kp d (v # vs) s = put_dims32 kp (Suc d) vs (put_dim32 d (enc32 kp v) s)"

definition UnsafeAddDim :: "bool \<Rightarrow> int \<Rightarrow> int \<Rightarrow> shape_rep \<Rightarrow> shape_rep outcome" where
  "UnsafeAddDim kp sz new_num_elements s =
     (let nd = ndims_byte s in
      obind
        (if tag s = REP16 \<and> nd < 6 \<and> sz < kMaxRep16 then Done (put_dim16 nd (enc16 kp sz) s)
         else if tag s = REP32 \<and> nd < 3 \<and> sz < kMaxRep32 then Done (put_dim32 nd (enc32 kp sz) s)
         else if tag s = REP_OUT_OF_LINE then Done (s\<lparr>out_of_line := out_of_line s @ [sz]\<rparr>)
         else
           obind (dim_sizes kp s) (\<lambda>vals0.
             let vals = vals0 @ [sz] in
             if length vals \<le> 3 \<and> (\<forall>v \<in> set vals. v < kMaxRep32)
             then Done (put_dims32 kp 0 vals (set_tag REP32 s))
             else Done (set_tag REP_OUT_OF_LINE (s\<lparr>out_of_line := vals\<rparr>))))
        (\<lambda>s1. Done (set_num_elements new_num_elements (set_ndims_byte (nd + 1) s1))))"

definition AddDim :: "bool \<Rightarrow> int \<Rightarrow> shape_rep \<Rightarrow> shape_rep outcome" where
  "AddDim kp sz s =
     (if \<not> kp \<and> sz < 0 then Abort
      else if unknown_rank kp s then Done s
      else if \<not> ndims_byte s < MaxDimensions then Abort
      else if kp \<and> (num_elements s < 0 \<or> sz < 0) then UnsafeAddDim kp sz (- 1) s
      else obind (MultiplyWithoutOverflow (num_elements s) sz) (\<lambda>n.
             if \<not> 0 \<le> n then Abort else UnsafeAddDim kp sz n s))"

fun AddDims :: "bool \<Rightarrow> int list \<Rightarrow> shape_rep \<Rightarrow> shape_rep outcome" where
  "AddDims kp [] s = Done s"
| "AddDims kp (v # vs) s = obind (AddDim kp v s) (AddDims kp vs)"

fun recompute_loop :: "bool \<Rightarrow> int list \<Rightarrow> int \<Rightarrow> int outcome" where
  "recompute_loop kp [] n = Done n"
| "recompute_loop kp (dim # ds) n =
     (if kp \<and> dim < 0 then Done (- 1)
      else obind (MultiplyWithoutOverflow n dim) (\<lambda>m. if \<not> 0 \<le> m then Abort else recompute_loop kp ds m))"

definition RecomputeNumElements :: "bool \<Rightarrow> shape_rep \<Rightarrow> shape_rep outcome" where
  "RecomputeNumElements kp s =
     (if unknown_rank kp s then Done (set_num_elements (- 1) s)
      else obind (dim_sizes kp s) (\<lambda>ds. obind (recompute_loop kp ds 1) (\<lambda>n. Done (set_num_elements n s))))"

definition AppendShape :: "bool \<Rightarrow> shape_rep \<Rightarrow> shape_rep \<Rightarrow> shape_rep outcome" where
  "AppendShape kp shape s = obind (dim_sizes kp shape) (\<lambda>ds. AddDims kp ds s)"

definition InsertDim :: "bool \<Rightarrow> int \<Rightarrow> int \<Rightarrow> shape_rep \<Rightarrow> shape_rep outcome" where
  "InsertDim kp d sz s =
     (if \<not> 0 \<le> d then Abort
      else if \<not> d \<le> dims kp s then Abort
      else if \<not> kp \<and> sz < 0 then Abort
      else if \<not> dims kp s < int MaxDimensions then Abort
      else obind (dim_sizes kp s) (\<lambda>vals.
             AddDims kp (take (nat d) vals @ [sz] @ drop (nat d) vals) (ClearAllButDataType s)))"

definition set_dim :: "bool \<Rightarrow> int \<Rightarrow> int \<Rightarrow> shape_rep \<Rightarrow> shape_rep outcome" where
  "set_dim kp d sz s =
     (if \<not> 0 \<le> d then Abort
      else if \<not> d < dims kp s then Abort
      else if \<not> 0 \<le> sz then Abort
      else obind
        (if tag s = REP16 \<and> sz < kMaxRep16 then Done (put_dim16 (nat d) (enc16 kp sz) s)
         else if tag s = REP32 \<and> sz < kMaxRep32 then Done (put_dim32 (nat d) (enc32 kp sz) s)
         else if tag s = REP_OUT_OF_LINE then Done (s\<lparr>out_of_line := (out_of_line s)[nat d := sz]\<rparr>)
         else obind (dim_sizes kp s) (\<lambda>vals. AddDims kp (vals[nat d := sz]) (ClearAllButDataType s)))
        (RecomputeNumElements kp))"

definition RemoveDimRange :: "bool \<Rightarrow> int \<Rightarrow> int \<Rightarrow> shape_rep \<Rightarrow> shape_rep outcome" where
  "RemoveDimRange kp begin0 end0 s =
     (if unknown_rank kp s then Done s
      else
        let b = (if begin0 < 0 then dims kp s + begin0 + 1 else begin0); e = (if end0 < 0 then dims kp s + end0 + 1 else end0) in
        if \<not> 0 \<le> b then Abort
        else if \<not> b \<le> dims kp s then Abort
        else if \<not> 0 \<le> e then Abort
        else if \<not> e \<le> dims kp s then Abort
        else if e \<le> b then Done s
        else obind (dim_sizes kp s) (\<lambda>vals.
               obind (AddDims kp (take (nat b) vals @ drop (nat e) vals) (ClearAllButDataType s)) (RecomputeNumElements kp)))"

definition RemoveDim :: "bool \<Rightarrow> int \<Rightarrow> shape_rep \<Rightarrow> shape_rep outcome" where
  "RemoveDim kp d s = (if \<not> 0 \<le> d then Abort else RemoveDimRange kp d (d + 1) s)"

definition RemoveLastDims :: "bool \<Rightarrow> int \<Rightarrow> shape_rep \<Rightarrow> shape_rep outcome" where
  "RemoveLastDims kp n s = (if \<not> n \<le> dims kp s then Abort else RemoveDimRange kp (dims kp s - n) (dims kp s) s)"

subsection \<open>Constructors and copies\<close>

definition Set16 :: "bool \<Rightarrow> nat \<Rightarrow> int \<Rightarrow> shape_rep \<Rightarrow> (bool \<times> shape_rep) outcome" where
  "Set16 partial dim val s =
     (if partial \<and> val < 0 then Done (True, put_dim16 dim (2 ^ 16 - 1) s)
      else if \<not> partial \<and> val < 0 then Abort
      else Done (False, put_dim16 dim (nat (val mod 2 ^ 16)) s))"

fun set16_dims :: "bool \<Rightarrow> nat \<Rightarrow> int list \<Rightarrow> shape_rep \<Rightarrow> (bool \<times> shape_rep) outcome" where
  "set16_dims kp d [] s = Done (False, s)"
| "set16_dims kp d (v # vs) s =
     obind (Set16 kp d v s) (\<lambda>(neg, s1). obind (set16_dims kp (Suc d) vs s1) (\<lambda>(neg', s2). Done (neg \<or> neg', s2)))"

definition kMaxSmall :: nat where
  "kMaxSmall = 0xd744"

text \<open>\<^verbatim>\<open>s > kMaxSmall\<close> compares as unsigned numbers, so a negative size counts as large. The cases of one to four dimensions are one here.\<close>

definition InitDims :: "bool \<Rightarrow> int list \<Rightarrow> shape_rep \<Rightarrow> shape_rep outcome" where
  "InitDims kp szs s =
     (let large_size = (\<exists>v \<in> set szs. to_uint64 v > kMaxSmall) in
      if \<not> large_size \<and> 1 \<le> length szs \<and> length szs \<le> 4
      then obind (set16_dims kp 0 szs (set_ndims_byte (length szs) s))
             (\<lambda>(neg, s1). Done (set_num_elements (if neg then - 1 else prod_list szs) s1))
      else AddDims kp szs (set_num_elements 1 (set_ndims_byte 0 s)))"

definition new_shape :: "nat list \<Rightarrow> shape_rep" where
  "new_shape mem = set_data_type DT_INVALID (set_tag REP16 \<lparr>buf = mem, out_of_line = [], num_elements = 0\<rparr>)"

definition TensorShapeBase_dims :: "bool \<Rightarrow> nat list \<Rightarrow> int list \<Rightarrow> shape_rep outcome" where
  "TensorShapeBase_dims kp mem szs = InitDims kp szs (new_shape mem)"

definition TensorShapeBase_proto :: "bool \<Rightarrow> nat list \<Rightarrow> shape_proto \<Rightarrow> shape_rep outcome" where
  "TensorShapeBase_proto kp mem proto =
     (if kp \<and> proto_unknown_rank proto
      then Done (set_num_elements (- 1) (set_ndims_byte kUnknownRank (new_shape mem)))
      else AddDims kp (proto_dim proto) (set_num_elements 1 (set_ndims_byte 0 (new_shape mem))))"

definition TensorShapeBase :: "bool \<Rightarrow> nat list \<Rightarrow> shape_rep" where
  "TensorShapeBase kp mem =
     (if kp then set_num_elements (- 1) (set_ndims_byte kUnknownRank (new_shape mem))
      else set_num_elements 1 (set_ndims_byte 0 (new_shape mem)))"

definition SlowCopyFrom :: "shape_rep \<Rightarrow> shape_rep \<Rightarrow> shape_rep" where
  "SlowCopyFrom b s =
     (if tag b \<noteq> REP_OUT_OF_LINE then s\<lparr>buf := buf b, out_of_line := []\<rparr>
      else let s1 = set_data_type (data_type b) (set_ndims_byte (ndims_byte b) s) in
           if tag s = REP_OUT_OF_LINE then s1\<lparr>out_of_line := out_of_line b\<rparr>
           else (set_tag REP_OUT_OF_LINE s1)\<lparr>out_of_line := out_of_line b\<rparr>)"

definition copy_shape :: "nat list \<Rightarrow> shape_rep \<Rightarrow> shape_rep" where
  "copy_shape mem b =
     (let s = \<lparr>buf = mem, out_of_line = [], num_elements = num_elements b\<rparr> in
      if tag b \<noteq> REP_OUT_OF_LINE then s\<lparr>buf := buf b\<rparr> else SlowCopyFrom b (set_tag REP16 s))"

definition assign_shape :: "shape_rep \<Rightarrow> shape_rep \<Rightarrow> shape_rep" where
  "assign_shape b s =
     (let s1 = s\<lparr>num_elements := num_elements b\<rparr> in
      if tag s \<noteq> REP_OUT_OF_LINE \<and> tag b \<noteq> REP_OUT_OF_LINE then s1\<lparr>buf := buf b\<rparr> else SlowCopyFrom b s1)"

text \<open>The assignment from a temporary: the target takes the bytes and the vector, the source keeps its bytes with the tag \<^verbatim>\<open>REP16\<close>.\<close>

definition move_shape :: "shape_rep \<Rightarrow> shape_rep \<times> shape_rep" where
  "move_shape b = (b, set_tag REP16 (b\<lparr>out_of_line := []\<rparr>))"

subsection \<open>Validation\<close>

fun valid_loop :: "bool \<Rightarrow> int list \<Rightarrow> int \<Rightarrow> bool outcome" where
  "valid_loop kp [] m = Done True"
| "valid_loop kp (sz # ds) m =
     (if sz < (if kp then - 1 else 0) then Done False
      else if sz = - 1 then valid_loop kp ds (- 1)
      else if \<not> kp \<or> 0 \<le> m
      then obind (MultiplyWithoutOverflow m sz) (\<lambda>n. if n < 0 then Done False else valid_loop kp ds n)
      else valid_loop kp ds m)"

definition IsValid :: "bool \<Rightarrow> shape_proto \<Rightarrow> bool outcome" where
  "IsValid kp proto =
     (if kp \<and> proto_unknown_rank proto then Done (proto_dim proto = [])
      else if length (proto_dim proto) > MaxDimensions then Done False
      else valid_loop kp (proto_dim proto) 1)"

text \<open>The loop of \<^verbatim>\<open>IsValidShape\<close> differs in that it reports why.\<close>

definition IsValidShape :: "bool \<Rightarrow> shape_proto \<Rightarrow> status_error option outcome" where
  "IsValidShape kp proto =
     (if kp \<and> proto_unknown_rank proto then Done (if length (proto_dim proto) > 0 then Some InvalidArgument else None)
      else if length (proto_dim proto) > MaxDimensions then Done (Some InvalidArgument)
      else obind (valid_loop kp (proto_dim proto) 1) (\<lambda>ok. Done (if ok then None else Some InvalidArgument)))"

fun make_loop :: "bool \<Rightarrow> int list \<Rightarrow> shape_rep \<Rightarrow> (status_error option \<times> shape_rep) outcome" where
  "make_loop kp [] out = Done (None, out)"
| "make_loop kp (dim # ds) out =
     (if dim < 0 then
        (if \<not> kp then Done (Some InvalidArgument, out)
         else if dim < - 1 then Done (Some InvalidArgument, out)
         else obind (UnsafeAddDim kp (- 1) (- 1) out) (make_loop kp ds))
      else if num_elements out < 0 then obind (UnsafeAddDim kp dim (- 1) out) (make_loop kp ds)
      else obind (MultiplyWithoutOverflow (num_elements out) dim) (\<lambda>n.
             if n < 0 then Done (Some InvalidArgument, out)
             else obind (UnsafeAddDim kp dim n out) (make_loop kp ds)))"

definition MakeShapeHelper :: "bool \<Rightarrow> int list \<Rightarrow> shape_rep \<Rightarrow> (status_error option \<times> shape_rep) outcome" where
  "MakeShapeHelper kp ds out =
     (if length ds > MaxDimensions then Done (Some InvalidArgument, Clear_shape out)
      else make_loop kp ds (Clear_shape out))"

fun num_loop :: "int list \<Rightarrow> int \<Rightarrow> (status_error + int) outcome" where
  "num_loop [] n = Done (Inr n)"
| "num_loop (dim # ds) n = obind (MultiplyWithoutOverflow n dim) (\<lambda>m. if m < 0 then Done (Inl InvalidArgument) else num_loop ds m)"

definition NumElements :: "int list \<Rightarrow> (status_error + int) outcome" where
  "NumElements shape = num_loop shape 1"

subsection \<open>Two shapes\<close>

definition IsSameSize :: "shape_rep \<Rightarrow> shape_rep \<Rightarrow> bool" where
  "IsSameSize a b \<longleftrightarrow> dims False b = dims False a \<and> (\<forall>d \<in> set [0..<nat (dims False a)]. dim_size False a d = dim_size False b d)"

definition StartsWith :: "shape_rep \<Rightarrow> shape_rep \<Rightarrow> bool" where
  "StartsWith shape pre \<longleftrightarrow>
     \<not> dims False shape < dims False pre \<and> (\<forall>i \<in> set [0..<nat (dims False pre)]. dim_size False shape i = dim_size False pre i)"

definition EndsWith :: "shape_rep \<Rightarrow> shape_rep \<Rightarrow> bool" where
  "EndsWith shape suf \<longleftrightarrow>
     \<not> dims False shape < dims False suf \<and>
     (\<forall>i \<in> set [0..<nat (dims False suf)].
        dim_size False shape (nat (dims False shape - dims False suf + int i)) = dim_size False suf i)"

definition Concatenate_dim :: "nat list \<Rightarrow> shape_rep \<Rightarrow> int \<Rightarrow> shape_rep outcome" where
  "Concatenate_dim mem s sz = AddDim True sz (copy_shape mem s)"

definition Concatenate :: "nat list \<Rightarrow> shape_rep \<Rightarrow> shape_rep \<Rightarrow> shape_rep outcome" where
  "Concatenate mem s shape =
     (if unknown_rank True s \<or> unknown_rank True shape then Done (TensorShapeBase True mem)
      else obind (dim_sizes True shape) (\<lambda>ds. AddDims True ds (copy_shape mem s)))"

fun merge_loop :: "(int \<times> int) list \<Rightarrow> shape_rep \<Rightarrow> (status_error option \<times> shape_rep) outcome" where
  "merge_loop [] result = Done (None, result)"
| "merge_loop ((dim0, dim1) # ds) result =
     (if 0 \<le> dim0 \<and> 0 \<le> dim1 \<and> dim0 \<noteq> dim1 then Done (Some InvalidArgument, result)
      else obind (AddDim True (if 0 \<le> dim0 then dim0 else dim1) result) (merge_loop ds))"

text \<open>\<open>result\<close> is an object other than the two arguments, as the \<^verbatim>\<open>CHECK\<close> demands for one of them.\<close>

definition MergeWith :: "shape_rep \<Rightarrow> shape_rep \<Rightarrow> shape_rep \<Rightarrow> (status_error option \<times> shape_rep) outcome" where
  "MergeWith s shape result =
     (if unknown_rank True s then Done (None, assign_shape shape result)
      else if unknown_rank True shape then Done (None, assign_shape s result)
      else if dims True s \<noteq> dims True shape then Done (Some InvalidArgument, result)
      else merge_loop (map (\<lambda>i. (dim_size True s i, dim_size True shape i)) [0..<nat (dims True s)]) (Clear_shape result))"

definition AsTensorShape :: "shape_rep \<Rightarrow> shape_rep \<Rightarrow> bool \<times> shape_rep" where
  "AsTensorShape s shape = (if IsFullyDefined True s then (True, assign_shape s shape) else (False, shape))"

definition IsIdenticalTo :: "shape_rep \<Rightarrow> shape_rep \<Rightarrow> bool" where
  "IsIdenticalTo s shape =
     (if unknown_rank True s \<or> unknown_rank True shape then unknown_rank True s = unknown_rank True shape
      else dims True s = dims True shape \<and> (\<forall>i \<in> set [0..<nat (dims True s)]. dim_size True s i = dim_size True shape i))"

definition IsCompatibleWith :: "shape_rep \<Rightarrow> shape_rep \<Rightarrow> bool" where
  "IsCompatibleWith s shape \<longleftrightarrow>
     unknown_rank True s \<or> unknown_rank True shape \<or>
     dims True s = dims True shape \<and>
     (\<forall>i \<in> set [0..<nat (dims True s)].
        \<not> (0 \<le> dim_size True s i \<and> 0 \<le> dim_size True shape i \<and> dim_size True s i \<noteq> dim_size True shape i))"

definition AreCompatible :: "shape_rep list \<Rightarrow> shape_rep list \<Rightarrow> bool" where
  "AreCompatible shapes0 shapes1 \<longleftrightarrow> length shapes0 = length shapes1 \<and> list_all2 IsCompatibleWith shapes0 shapes1"

definition AreIdentical :: "shape_rep list \<Rightarrow> shape_rep list \<Rightarrow> bool" where
  "AreIdentical shapes0 shapes1 \<longleftrightarrow> length shapes0 = length shapes1 \<and> list_all2 IsIdenticalTo shapes0 shapes1"

end
