(* ===== verification/Tensor_Shape_Correct.thy ===== *)
theory Tensor_Shape_Correct
  imports Tensor_Shape
begin

text \<open>
  The packed shapes of \<open>Tensor_Shape\<close> implement lists of sizes. \<open>represents\<close> is the refinement relation; an operation \<open>builds\<close> a list when
  it ends in a shape that represents it, or aborts because no shape may have these sizes.
\<close>

subsection \<open>Multiplication\<close>

lemma drop_bit_32_zero: "drop_bit 32 (a OR b :: nat) = 0 \<longleftrightarrow> a < 2 ^ 32 \<and> b < 2 ^ 32"
proof -
  have "drop_bit 32 (a OR b) = 0 \<longleftrightarrow> drop_bit 32 a = 0 \<and> drop_bit 32 b = 0" by (auto simp: bit_eq_iff bit_simps)
  moreover have "drop_bit 32 (n::nat) = 0 \<longleftrightarrow> n < 2 ^ 32" for n by (simp add: drop_bit_eq_div div_eq_0_iff)
  ultimately show ?thesis by simp
qed

lemma to_uint64_int: "a < 2 ^ 63 \<Longrightarrow> to_uint64 (int a) = a"
proof -
  assume "a < 2 ^ 63"
  then have "int a mod 2 ^ 64 = int a" by (intro mod_pos_pos_trivial) simp_all
  then show ?thesis by (simp add: to_uint64_def)
qed

lemma int_less_pow: "int a < 2 ^ n \<longleftrightarrow> a < 2 ^ n"
  by (metis of_nat_less_iff of_nat_numeral of_nat_power)

lemma to_int64_neg: "n < 2 ^ 64 \<Longrightarrow> 2 ^ 63 \<le> int n \<Longrightarrow> to_int64 n < 0"
  by (simp add: to_int64_def)

lemma multiply_int:
  assumes "a < 2 ^ 63" "b < 2 ^ 63"
  shows "MultiplyWithoutOverflow (int a) (int b) =
    (if drop_bit 32 (a OR b) \<noteq> 0 \<and> a \<noteq> 0 \<and> wrap64 (a * b) div a \<noteq> b then Done (- 1) else Done (to_int64 (wrap64 (a * b))))"
  unfolding MultiplyWithoutOverflow_def Let_def to_uint64_int [OF assms(1)] to_uint64_int [OF assms(2)] by simp

lemma wrapped_product:
  fixes a b :: nat
  assumes "a \<noteq> 0" "a < 2 ^ 64" "b < 2 ^ 64"
  shows "wrap64 (a * b) div a = b \<longleftrightarrow> a * b < 2 ^ 64"
proof
  assume "wrap64 (a * b) div a = b"
  then have "a * b \<le> wrap64 (a * b)" using div_times_less_eq_dividend [of "wrap64 (a * b)" a] by (simp add: mult.commute)
  then show "a * b < 2 ^ 64" using wrap64_less [of "a * b"] by linarith
qed (use assms in simp)

text \<open>The test of \<^verbatim>\<open>MultiplyWithoutOverflow\<close> is exact.\<close>

lemma MultiplyWithoutOverflow_exact:
  assumes "0 \<le> x" "x < 2 ^ 63" "0 \<le> y" "y < 2 ^ 63"
  obtains n where "MultiplyWithoutOverflow x y = Done n" "x * y < 2 ^ 63 \<Longrightarrow> n = x * y" "2 ^ 63 \<le> x * y \<Longrightarrow> n < 0"
proof -
  obtain a b where xy: "x = int a" "y = int b" using assms(1,3) by (metis nonneg_int_cases)
  then have ab: "x = int a" "y = int b" "a < 2 ^ 63" "b < 2 ^ 63" using assms(2,4) by (simp_all only: int_less_pow)
  have prod: "x * y = int (a * b)" by (simp add: xy)
  note mult = multiply_int [OF ab(3,4)]
  show thesis
  proof (cases "a * b < 2 ^ 64")
    case True
    then have w: "wrap64 (a * b) = a * b" by simp
    have n: "MultiplyWithoutOverflow x y = Done (to_int64 (a * b))" unfolding ab mult w by simp
    show thesis
    proof (rule that [OF n])
      show "to_int64 (a * b) = x * y" if "x * y < 2 ^ 63"
        using that unfolding prod to_int64_def by (simp only: int_less_pow if_True)
      show "to_int64 (a * b) < 0" if "2 ^ 63 \<le> x * y"
        using that True unfolding prod by (intro to_int64_neg)
    qed
  next
    case False
    then have "a \<noteq> 0" by (intro notI) simp
    then have "wrap64 (a * b) div a \<noteq> b" using wrapped_product [of a b] ab(3,4) False by simp
    moreover have "drop_bit 32 (a OR b) \<noteq> 0"
    proof
      assume "drop_bit 32 (a OR b) = 0"
      then have "a < 2 ^ 32" "b < 2 ^ 32" using drop_bit_32_zero [of a b] by auto
      then have "a * b < 2 ^ 32 * 2 ^ 32" by (rule mult_strict_mono) auto
      then show False using False by simp
    qed
    ultimately have "MultiplyWithoutOverflow x y = Done (- 1)" using \<open>a \<noteq> 0\<close> unfolding ab mult by simp
    moreover have "2 ^ 64 \<le> x * y" using False unfolding prod by (metis int_less_pow linorder_not_less )
    ultimately show thesis using that [of "- 1"] by simp
  qed
qed

subsection \<open>Bytes\<close>

lemma dim16_put [simp]:
  assumes "d < 6" "length (buf s) = 16" "v < 2 ^ 16"
  shows "dim16 (put_dim16 d v s) d = v"
proof -
  have "v div 256 < 256" using assms(3) by (simp add: less_mult_imp_div_less)
  then show ?thesis using assms by (simp add: dim16_def put_dim16_def nth_list_update)
qed

lemma dim16_put_other: "d' \<noteq> d \<Longrightarrow> dim16 (put_dim16 d v s) d' = dim16 s d'"
proof -
  assume "d' \<noteq> d"
  then have "2 * d' \<noteq> 2 * d" "2 * d' \<noteq> 2 * d + 1" "2 * d' + 1 \<noteq> 2 * d" by presburger+
  then show ?thesis by (simp add: dim16_def put_dim16_def nth_list_update)
qed

lemma dim32_put [simp]: "d < 3 \<Longrightarrow> length (buf s) = 16 \<Longrightarrow> v < 2 ^ 32 \<Longrightarrow> dim32 (put_dim32 d v s) d = v"
  by (simp add: dim32_def put_dim32_def)

lemma dim32_put_other: "d' \<noteq> d \<Longrightarrow> dim32 (put_dim32 d v s) d' = dim32 s d'"
  unfolding dim32_def put_dim32_def by (auto intro!: word_at_cong nth_put_word simp: put_word_def nth_list_update)

lemma put_fields [simp]:
  "d < 6 \<Longrightarrow> tag (put_dim16 d v s) = tag s" "d < 6 \<Longrightarrow> ndims_byte (put_dim16 d v s) = ndims_byte s"
  "d < 6 \<Longrightarrow> data_type (put_dim16 d v s) = data_type s"
  "d < 3 \<Longrightarrow> tag (put_dim32 d v s) = tag s" "d < 3 \<Longrightarrow> ndims_byte (put_dim32 d v s) = ndims_byte s"
  "d < 3 \<Longrightarrow> data_type (put_dim32 d v s) = data_type s"
  "num_elements (put_dim16 d v s) = num_elements s" "num_elements (put_dim32 d v s) = num_elements s"
  "out_of_line (put_dim16 d v s) = out_of_line s" "out_of_line (put_dim32 d v s) = out_of_line s"
  "length (buf (put_dim16 d v s)) = length (buf s)" "length (buf (put_dim32 d v s)) = length (buf s)"
  by (simp_all add: put_dim16_def put_dim32_def tag_def ndims_byte_def data_type_def nth_put_word nth_list_update)

lemma set_fields [simp]:
  "length (buf s) = 16 \<Longrightarrow> t < 256 \<Longrightarrow> tag (set_tag t s) = t" "tag (set_ndims_byte n s) = tag s" "tag (set_num_elements m s) = tag s"
  "tag (set_data_type t s) = tag s"
  "length (buf s) = 16 \<Longrightarrow> n < 256 \<Longrightarrow> ndims_byte (set_ndims_byte n s) = n" "ndims_byte (set_tag t s) = ndims_byte s"
  "ndims_byte (set_num_elements m s) = ndims_byte s" "ndims_byte (set_data_type t s) = ndims_byte s"
  "num_elements (set_num_elements m s) = m" "num_elements (set_ndims_byte n s) = num_elements s"
  "num_elements (set_tag t s) = num_elements s" "num_elements (set_data_type t s) = num_elements s"
  "length (buf (set_tag t s)) = length (buf s)" "length (buf (set_ndims_byte n s)) = length (buf s)"
  "length (buf (set_num_elements m s)) = length (buf s)" "length (buf (set_data_type t s)) = length (buf s)"
  "out_of_line (set_tag t s) = out_of_line s" "out_of_line (set_ndims_byte n s) = out_of_line s"
  "out_of_line (set_num_elements m s) = out_of_line s" "out_of_line (set_data_type t s) = out_of_line s"
  by (simp_all add: set_tag_def set_ndims_byte_def set_num_elements_def set_data_type_def tag_def ndims_byte_def nth_list_update)

lemma set_fields_dims [simp]:
  "d < 6 \<Longrightarrow> dim16 (set_tag t s) d = dim16 s d" "d < 6 \<Longrightarrow> dim16 (set_ndims_byte n s) d = dim16 s d"
  "dim16 (set_num_elements m s) d = dim16 s d" "d < 6 \<Longrightarrow> dim16 (set_data_type t s) d = dim16 s d"
  "d < 3 \<Longrightarrow> dim32 (set_tag t s) d = dim32 s d" "d < 3 \<Longrightarrow> dim32 (set_ndims_byte n s) d = dim32 s d"
  "dim32 (set_num_elements m s) d = dim32 s d" "d < 3 \<Longrightarrow> dim32 (set_data_type t s) d = dim32 s d"
  by (simp_all add: dim16_def dim32_def word_at_def set_tag_def set_ndims_byte_def set_num_elements_def set_data_type_def nth_list_update)

lemma set_data_types [simp]:
  "data_type (set_tag t s) = data_type s" "data_type (set_ndims_byte n s) = data_type s" "data_type (set_num_elements m s) = data_type s"
  "length (buf s) = 16 \<Longrightarrow> dt < 256 \<Longrightarrow> data_type (set_data_type dt s) = dt"
  by (simp_all add: data_type_def set_tag_def set_ndims_byte_def set_num_elements_def set_data_type_def nth_list_update)

lemma out_of_line_fields [simp]:
  "tag (s\<lparr>out_of_line := v\<rparr>) = tag s" "ndims_byte (s\<lparr>out_of_line := v\<rparr>) = ndims_byte s" "data_type (s\<lparr>out_of_line := v\<rparr>) = data_type s"
  "dim16 (s\<lparr>out_of_line := v\<rparr>) d = dim16 s d" "dim32 (s\<lparr>out_of_line := v\<rparr>) d = dim32 s d"
  by (simp_all add: tag_def ndims_byte_def data_type_def dim16_def dim32_def)

subsection \<open>The sizes a shape may have\<close>

text \<open>
  The number of elements, taken from the left: unknown (\<open>- 1\<close>) from the first unknown size on, \<open>None\<close> when a product before it leaves the
  range of \<^verbatim>\<open>int64\<close>, even if a later size is zero.
\<close>

fun count_from :: "int \<Rightarrow> int list \<Rightarrow> int option" where
  "count_from n [] = Some n"
| "count_from n (x # xs) =
     (if n < 0 \<or> x < 0 then count_from (- 1) xs else if n * x < 2 ^ 63 then count_from (n * x) xs else None)"

definition size_ok :: "bool \<Rightarrow> int \<Rightarrow> bool" where
  "size_ok kp x \<longleftrightarrow> (if kp then - 1 else 0) \<le> x \<and> x < 2 ^ 63"

definition valid_sizes :: "bool \<Rightarrow> int list \<Rightarrow> bool" where
  "valid_sizes kp xs \<longleftrightarrow> length xs \<le> MaxDimensions \<and> (\<forall>x \<in> set xs. size_ok kp x) \<and> count_from 1 xs \<noteq> None"

lemma count_from_unknown: "n < 0 \<Longrightarrow> count_from n xs = Some (if xs = [] then n else - 1)"
  by (induction xs arbitrary: n) auto

lemma count_from_append: "count_from n (xs @ ys) = (case count_from n xs of None \<Rightarrow> None | Some m \<Rightarrow> count_from m ys)"
  by (induction n xs rule: count_from.induct) auto

lemma product_bound: "\<not> n < 0 \<Longrightarrow> \<not> x < 0 \<Longrightarrow> - 1 \<le> n * (x::int)"
  using mult_nonneg_nonneg [of n x] by linarith

lemma count_from_bound: "count_from n xs = Some m \<Longrightarrow> - 1 \<le> n \<Longrightarrow> n < 2 ^ 63 \<Longrightarrow> - 1 \<le> m \<and> m < 2 ^ 63"
  by (induction n xs rule: count_from.induct) (auto split: if_splits simp: product_bound)

lemma count_from_prod: "0 \<le> n \<Longrightarrow> \<forall>x \<in> set xs. 0 \<le> x \<Longrightarrow> count_from n xs = Some m \<Longrightarrow> m = n * prod_list xs \<and> 0 \<le> m"
  by (induction n xs rule: count_from.induct) (auto split: if_splits)

lemma valid_prefix: "valid_sizes kp (xs @ ys) \<Longrightarrow> valid_sizes kp xs"
  by (auto simp: valid_sizes_def count_from_append split: option.splits)

subsection \<open>The refinement relation\<close>

definition sizes :: "bool \<Rightarrow> shape_rep \<Rightarrow> int list" where
  "sizes kp s = map (dim_size kp s) [0..<ndims_byte s]"

text \<open>
  The words in use never hold the code of an unknown size in a \<^verbatim>\<open>TensorShape\<close>, so that it may be read as a \<^verbatim>\<open>PartialTensorShape\<close>.
\<close>

definition rep_ok :: "bool \<Rightarrow> shape_rep \<Rightarrow> bool" where
  "rep_ok kp s \<longleftrightarrow> length (buf s) = 16 \<and> ndims_byte s \<le> MaxDimensions \<and>
     (tag s = REP16 \<and> ndims_byte s \<le> 6 \<and> (\<forall>d < ndims_byte s. dim16 s d < 2 ^ 16 \<and> (\<not> kp \<longrightarrow> dim16 s d \<noteq> kUnknownRep16)) \<or>
      tag s = REP32 \<and> ndims_byte s \<le> 3 \<and> (\<forall>d < ndims_byte s. dim32 s d < 2 ^ 32 \<and> (\<not> kp \<longrightarrow> dim32 s d \<noteq> kUnknownRep32)) \<or>
      tag s = REP_OUT_OF_LINE \<and> length (out_of_line s) = ndims_byte s \<and> (\<forall>x \<in> set (out_of_line s). size_ok kp x))"

definition represents :: "bool \<Rightarrow> shape_rep \<Rightarrow> int list \<Rightarrow> bool" where
  "represents kp s xs \<longleftrightarrow> rep_ok kp s \<and> sizes kp s = xs \<and> count_from 1 xs = Some (num_elements s)"

lemma rep_ok_known [simp]: "rep_ok kp s \<Longrightarrow> \<not> unknown_rank kp s"
  by (auto simp: rep_ok_def unknown_rank_def MaxDimensions_def kUnknownRank_def)

lemma rep_ok_dims: "rep_ok kp s \<Longrightarrow> dims kp s = int (ndims_byte s)"
  by (auto simp: rep_ok_def dims_def MaxDimensions_def kUnknownRank_def)

lemma rep_ok_dim_sizes: "rep_ok kp s \<Longrightarrow> dim_sizes kp s = Done (sizes kp s)"
  by (simp add: dim_sizes_def sizes_def)

lemma length_sizes [simp]: "length (sizes kp s) = ndims_byte s"
  by (simp add: sizes_def)

lemma nth_sizes: "d < ndims_byte s \<Longrightarrow> sizes kp s ! d = dim_size kp s d"
  by (simp add: sizes_def)

lemma dim_size_cases:
  assumes "rep_ok kp s" "d < ndims_byte s"
  shows "tag s = REP16 \<Longrightarrow> dim_size kp s d = (if kp \<and> dim16 s d = kUnknownRep16 then - 1 else int (dim16 s d))"
    "tag s = REP32 \<Longrightarrow> dim_size kp s d = (if kp \<and> dim32 s d = kUnknownRep32 then - 1 else int (dim32 s d))"
    "tag s = REP_OUT_OF_LINE \<Longrightarrow> dim_size kp s d = out_of_line s ! d"
  using assms by (simp_all add: dim_size_def)

lemma rep_ok_cases [consumes 1]:
  assumes "rep_ok kp s"
  obtains (r16) "tag s = REP16" "ndims_byte s \<le> 6" "\<forall>d < ndims_byte s. dim16 s d < 2 ^ 16 \<and> (\<not> kp \<longrightarrow> dim16 s d \<noteq> kUnknownRep16)"
  | (r32) "tag s = REP32" "ndims_byte s \<le> 3" "\<forall>d < ndims_byte s. dim32 s d < 2 ^ 32 \<and> (\<not> kp \<longrightarrow> dim32 s d \<noteq> kUnknownRep32)"
  | (ool) "tag s = REP_OUT_OF_LINE" "length (out_of_line s) = ndims_byte s" "\<forall>x \<in> set (out_of_line s). size_ok kp x"
  using assms unfolding rep_ok_def by (elim conjE disjE) (simp_all only:)

lemma size_ok_int: "a < 2 ^ 32 \<Longrightarrow> size_ok kp (int a)"
  by (simp add: size_ok_def)

lemma sizes_ok: "rep_ok kp s \<Longrightarrow> x \<in> set (sizes kp s) \<Longrightarrow> size_ok kp x"
proof -
  assume ok: "rep_ok kp s" and "x \<in> set (sizes kp s)"
  then obtain d where d: "d < ndims_byte s" "x = dim_size kp s d" by (auto simp: sizes_def)
  have unknown: "size_ok True (- 1)" by (simp add: size_ok_def)
  from ok show ?thesis
  proof (cases rule: rep_ok_cases)
    case r16
    then show ?thesis using d(2) unknown size_ok_int [of "dim16 s d" kp] r16(3) d(1) dim_size_cases(1) [OF ok d(1)] by auto
  next
    case r32
    then show ?thesis using d(2) unknown size_ok_int [of "dim32 s d" kp] r32(3) d(1) dim_size_cases(2) [OF ok d(1)] by auto
  next
    case ool
    then show ?thesis using d dim_size_cases(3) [OF ok d(1)] by simp
  qed
qed

lemma represents_valid: "represents kp s xs \<Longrightarrow> valid_sizes kp xs"
  using sizes_ok by (auto simp: represents_def valid_sizes_def rep_ok_def)

lemma represents_bound: "represents kp s xs \<Longrightarrow> - 1 \<le> num_elements s \<and> num_elements s < 2 ^ 63"
  using count_from_bound [of 1 xs "num_elements s"] by (simp add: represents_def)

lemma represents_known: "represents kp s xs \<Longrightarrow> \<not> kp \<Longrightarrow> 0 \<le> num_elements s"
  using count_from_prod [of 1 xs "num_elements s"] represents_valid [of kp s xs]
  by (fastforce simp: represents_def valid_sizes_def size_ok_def)

subsection \<open>Adding a dimension\<close>

definition dec16 :: "bool \<Rightarrow> nat \<Rightarrow> int" where
  "dec16 kp w = (if kp \<and> w = kUnknownRep16 then - 1 else int w)"

definition dec32 :: "bool \<Rightarrow> nat \<Rightarrow> int" where
  "dec32 kp w = (if kp \<and> w = kUnknownRep32 then - 1 else int w)"

lemma enc16_ok: "size_ok kp x \<Longrightarrow> x < kMaxRep16 \<Longrightarrow> dec16 kp (enc16 kp x) = x \<and> enc16 kp x < 2 ^ 16 \<and> (\<not> kp \<longrightarrow> enc16 kp x \<noteq> kUnknownRep16)"
  by (auto simp: enc16_def dec16_def size_ok_def kMaxRep16_def kUnknownRep16_def split: if_splits)

lemma enc32_ok: "size_ok kp x \<Longrightarrow> x < kMaxRep32 \<Longrightarrow> dec32 kp (enc32 kp x) = x \<and> enc32 kp x < 2 ^ 32 \<and> (\<not> kp \<longrightarrow> enc32 kp x \<noteq> kUnknownRep32)"
  by (auto simp: enc32_def dec32_def size_ok_def kMaxRep32_def kUnknownRep32_def split: if_splits)

text \<open>What it takes for a list to be stored in one of the three ways.\<close>

definition stored :: "bool \<Rightarrow> shape_rep \<Rightarrow> int list \<Rightarrow> bool" where
  "stored kp s xs \<longleftrightarrow>
     (tag s = REP16 \<and> length xs \<le> 6 \<and>
        (\<forall>d < length xs. dim16 s d < 2 ^ 16 \<and> (\<not> kp \<longrightarrow> dim16 s d \<noteq> kUnknownRep16) \<and> dec16 kp (dim16 s d) = xs ! d) \<or>
      tag s = REP32 \<and> length xs \<le> 3 \<and>
        (\<forall>d < length xs. dim32 s d < 2 ^ 32 \<and> (\<not> kp \<longrightarrow> dim32 s d \<noteq> kUnknownRep32) \<and> dec32 kp (dim32 s d) = xs ! d) \<or>
      tag s = REP_OUT_OF_LINE \<and> out_of_line s = xs)"

lemma rep_stored:
  assumes "length (buf s) = 16" "ndims_byte s = length xs" "length xs \<le> MaxDimensions" "\<forall>x \<in> set xs. size_ok kp x"
  shows "rep_ok kp s \<and> sizes kp s = xs \<longleftrightarrow> stored kp s xs"
proof
  assume st: "stored kp s xs"
  have known: "\<not> unknown_rank kp s" using assms(2,3) by (auto simp: unknown_rank_def MaxDimensions_def kUnknownRank_def)
  have ok: "rep_ok kp s" using st assms unfolding rep_ok_def stored_def by auto
  have "dim_size kp s d = xs ! d" if "d < length xs" for d
    using st that known by (auto simp: stored_def dim_size_def dec16_def dec32_def)
  then have "sizes kp s = xs" using assms(2) by (auto simp: sizes_def intro!: nth_equalityI)
  then show "rep_ok kp s \<and> sizes kp s = xs" using ok by simp
next
  assume ok: "rep_ok kp s \<and> sizes kp s = xs"
  then have nth: "xs ! d = dim_size kp s d" if "d < length xs" for d using that assms(2) nth_sizes by metis
  from ok have rep: "rep_ok kp s" by simp
  then show "stored kp s xs"
  proof (cases rule: rep_ok_cases)
    case r16
    have "dec16 kp (dim16 s d) = xs ! d" if "d < length xs" for d
      using nth [OF that] dim_size_cases(1) [OF rep _ r16(1), of d] that assms(2) by (simp add: dec16_def)
    then show ?thesis using r16 assms(2) by (simp add: stored_def)
  next
    case r32
    have "dec32 kp (dim32 s d) = xs ! d" if "d < length xs" for d
      using nth [OF that] dim_size_cases(2) [OF rep _ r32(1), of d] that assms(2) by (simp add: dec32_def)
    then show ?thesis using r32 assms(2) by (simp add: stored_def)
  next
    case ool
    have "out_of_line s ! d = xs ! d" if "d < length xs" for d
      using nth [OF that] dim_size_cases(3) [OF rep _ ool(1), of d] that assms(2) by simp
    then have "out_of_line s = xs" using ool(2) assms(2) by (simp add: nth_equalityI)
    then show ?thesis using ool by (simp add: stored_def)
  qed
qed

lemma put_dims32_fields:
  "d + length vs \<le> 3 \<Longrightarrow> tag (put_dims32 kp d vs s) = tag s \<and> ndims_byte (put_dims32 kp d vs s) = ndims_byte s \<and>
     data_type (put_dims32 kp d vs s) = data_type s \<and> length (buf (put_dims32 kp d vs s)) = length (buf s)"
  by (induction kp d vs s rule: put_dims32.induct) auto

lemma put_dims32_dims:
  "d + length vs \<le> 3 \<Longrightarrow> length (buf s) = 16 \<Longrightarrow> \<forall>v \<in> set vs. enc32 kp v < 2 ^ 32 \<Longrightarrow>
     (i < d \<longrightarrow> dim32 (put_dims32 kp d vs s) i = dim32 s i) \<and>
     (d \<le> i \<and> i < d + length vs \<longrightarrow> dim32 (put_dims32 kp d vs s) i = enc32 kp (vs ! (i - d)))"
proof (induction kp d vs s rule: put_dims32.induct)
  case (2 kp d v vs s)
  then have IH: "(i < Suc d \<longrightarrow> dim32 (put_dims32 kp (Suc d) vs (put_dim32 d (enc32 kp v) s)) i = dim32 (put_dim32 d (enc32 kp v) s) i) \<and>
      (Suc d \<le> i \<and> i < Suc d + length vs \<longrightarrow> dim32 (put_dims32 kp (Suc d) vs (put_dim32 d (enc32 kp v) s)) i = enc32 kp (vs ! (i - Suc d)))"
    by auto
  consider "i < d" | "i = d" | "Suc d \<le> i" by linarith
  then show ?case
  proof cases
    case 3
    then have "(v # vs) ! (i - d) = vs ! (i - Suc d)" by (metis Suc_diff_le diff_Suc_Suc nth_Cons_Suc)
    then show ?thesis using IH 3 by simp
  qed (use IH "2.prems" in \<open>auto simp: dim32_put_other\<close>)
qed simp

lemma stored_put_dims32:
  assumes "tag s = REP32" "length (buf s) = 16" "length xs \<le> 3" "\<forall>v \<in> set xs. size_ok kp v \<and> v < kMaxRep32"
  shows "stored kp (put_dims32 kp 0 xs s) xs"
proof -
  have enc: "\<forall>v \<in> set xs. enc32 kp v < 2 ^ 32" using assms(4) enc32_ok by blast
  have "dim32 (put_dims32 kp 0 xs s) d = enc32 kp (xs ! d)" if "d < length xs" for d
    using put_dims32_dims [OF _ assms(2) enc, of 0 d] assms(3) that by simp
  moreover have "dec32 kp (enc32 kp (xs ! d)) = xs ! d \<and> enc32 kp (xs ! d) < 2 ^ 32 \<and> (\<not> kp \<longrightarrow> enc32 kp (xs ! d) \<noteq> kUnknownRep32)"
    if "d < length xs" for d using assms(4) that by (intro enc32_ok) simp_all
  ultimately have "dim32 (put_dims32 kp 0 xs s) d < 2 ^ 32 \<and> (\<not> kp \<longrightarrow> dim32 (put_dims32 kp 0 xs s) d \<noteq> kUnknownRep32) \<and>
      dec32 kp (dim32 (put_dims32 kp 0 xs s) d) = xs ! d" if "d < length xs" for d using that by metis
  then show ?thesis using assms(1,3) put_dims32_fields [of 0 xs kp s] unfolding stored_def by simp
qed

lemma stored_finish: "stored kp s xs \<Longrightarrow> stored kp (set_num_elements n (set_ndims_byte m s)) xs"
  by (auto simp: stored_def)

lemma UnsafeAddDim_ok:
  assumes ok: "rep_ok kp s" and room: "ndims_byte s < MaxDimensions" and x: "size_ok kp x"
  shows "\<exists>s'. UnsafeAddDim kp x n s = Done s' \<and> rep_ok kp s' \<and> sizes kp s' = sizes kp s @ [x] \<and> num_elements s' = n \<and> data_type s' = data_type s"
proof -
  let ?nd = "ndims_byte s" and ?xs = "sizes kp s"
  let ?finish = "\<lambda>s1. set_num_elements n (set_ndims_byte (?nd + 1) s1)"
  have len: "length (buf s) = 16" using ok by (simp add: rep_ok_def)
  have nd: "?nd + 1 < 256" using room by (simp add: MaxDimensions_def)
  have xs: "\<forall>y \<in> set ?xs. size_ok kp y" using sizes_ok [OF ok] by simp
  have st: "stored kp s ?xs" using rep_stored [of s ?xs kp] ok len xs by (simp add: rep_ok_def)
  have main: "\<exists>s1. UnsafeAddDim kp x n s = Done (?finish s1) \<and> length (buf s1) = 16 \<and> data_type s1 = data_type s \<and>
      stored kp (?finish s1) (?xs @ [x])"
  proof -
    consider (a) "tag s = REP16" "?nd < 6" "x < kMaxRep16"
      | (b) "tag s = REP32" "?nd < 3" "x < kMaxRep32"
      | (c) "tag s = REP_OUT_OF_LINE"
      | (d) "\<not> (tag s = REP16 \<and> ?nd < 6 \<and> x < kMaxRep16)" "\<not> (tag s = REP32 \<and> ?nd < 3 \<and> x < kMaxRep32)" "tag s \<noteq> REP_OUT_OF_LINE"
      by metis
    then show ?thesis
    proof cases
      case a
      then have "UnsafeAddDim kp x n s = Done (?finish (put_dim16 ?nd (enc16 kp x) s))" by (simp add: UnsafeAddDim_def Let_def)
      moreover have "stored kp (?finish (put_dim16 ?nd (enc16 kp x) s)) (?xs @ [x])"
        using st a enc16_ok [OF x a(3)] len by (auto simp: stored_def nth_append less_Suc_eq dim16_put_other)
      ultimately show ?thesis using a len by (intro exI conjI) auto
    next
      case b
      then have "UnsafeAddDim kp x n s = Done (?finish (put_dim32 ?nd (enc32 kp x) s))" by (simp add: UnsafeAddDim_def Let_def)
      moreover have "stored kp (?finish (put_dim32 ?nd (enc32 kp x) s)) (?xs @ [x])"
        using st b enc32_ok [OF x b(3)] len by (auto simp: stored_def nth_append less_Suc_eq dim32_put_other)
      ultimately show ?thesis using b len by (intro exI conjI) auto
    next
      case c
      then have "UnsafeAddDim kp x n s = Done (?finish (s\<lparr>out_of_line := out_of_line s @ [x]\<rparr>))" by (simp add: UnsafeAddDim_def Let_def)
      moreover have "stored kp (?finish (s\<lparr>out_of_line := out_of_line s @ [x]\<rparr>)) (?xs @ [x])"
        using st c by (simp add: stored_def)
      ultimately show ?thesis using len by (intro exI conjI) auto
    next
      case d
      have ds: "dim_sizes kp s = Done ?xs" using rep_ok_dim_sizes [OF ok] .
      show ?thesis
      proof (cases "length (?xs @ [x]) \<le> 3 \<and> (\<forall>v \<in> set (?xs @ [x]). v < kMaxRep32)")
        case True
        let ?s1 = "put_dims32 kp 0 (?xs @ [x]) (set_tag REP32 s)"
        have "UnsafeAddDim kp x n s = Done (?finish ?s1)" by (simp only: UnsafeAddDim_def Let_def d if_False ds obind.simps if_P [OF True])
        moreover have "stored kp (?finish ?s1) (?xs @ [x])"
          using True stored_put_dims32 [of "set_tag REP32 s" "?xs @ [x]" kp] len xs x by (simp add: stored_finish)
        moreover have "length (buf ?s1) = 16" "data_type ?s1 = data_type s"
          using True put_dims32_fields [of 0 "?xs @ [x]" kp "set_tag REP32 s"] len by simp_all
        ultimately show ?thesis by blast
      next
        case False
        let ?s1 = "set_tag REP_OUT_OF_LINE (s\<lparr>out_of_line := ?xs @ [x]\<rparr>)"
        have "UnsafeAddDim kp x n s = Done (?finish ?s1)" by (simp only: UnsafeAddDim_def Let_def d if_False ds obind.simps if_not_P [OF False])
        moreover have "stored kp (?finish ?s1) (?xs @ [x])" using len by (simp add: stored_def)
        ultimately show ?thesis using len by (intro exI conjI) auto
      qed
    qed
  qed
  then obtain s1 where s1: "UnsafeAddDim kp x n s = Done (?finish s1)" "length (buf s1) = 16" "data_type s1 = data_type s"
      "stored kp (?finish s1) (?xs @ [x])" by blast
  moreover have "rep_ok kp (?finish s1) \<and> sizes kp (?finish s1) = ?xs @ [x]"
    using rep_stored [of "?finish s1" "?xs @ [x]" kp] s1 room nd x xs by simp
  ultimately show ?thesis by simp
qed

subsection \<open>Building lists of sizes\<close>

definition builds :: "bool \<Rightarrow> shape_rep outcome \<Rightarrow> int list \<Rightarrow> bool" where
  "builds kp r xs \<longleftrightarrow> (case r of Abort \<Rightarrow> \<not> valid_sizes kp xs | Done s \<Rightarrow> represents kp s xs)"

text \<open>
  What the operations that rebuild a shape need of the one that adds a dimension. A client that adds a list of sizes gets just the
  longer list, and aborts exactly when the longer list is not allowed.
\<close>

locale size_builder =
  fixes add :: "int \<Rightarrow> 's \<Rightarrow> 's outcome" and rep :: "'s \<Rightarrow> int list \<Rightarrow> bool" and valid :: "int list \<Rightarrow> bool"
    and admits :: "int \<Rightarrow> bool"
  assumes add_Done: "rep s xs \<Longrightarrow> admits x \<Longrightarrow> add x s = Done s' \<Longrightarrow> rep s' (xs @ [x])"
    and add_Abort: "rep s xs \<Longrightarrow> admits x \<Longrightarrow> add x s = Abort \<Longrightarrow> \<not> valid (xs @ [x])"
    and valid_take: "valid (xs @ ys) \<Longrightarrow> valid xs"
begin

fun add_all :: "int list \<Rightarrow> 's \<Rightarrow> 's outcome" where
  "add_all [] s = Done s"
| "add_all (x # xs) s = obind (add x s) (add_all xs)"

lemma add_all_rep: "rep s xs \<Longrightarrow> \<forall>y \<in> set ys. admits y \<Longrightarrow>
    (case add_all ys s of Done s' \<Rightarrow> rep s' (xs @ ys) | Abort \<Rightarrow> \<not> valid (xs @ ys))"
proof (induction ys arbitrary: s xs)
  case (Cons y ys)
  show ?case
  proof (cases "add y s")
    case Abort
    then have "\<not> valid (xs @ [y])" using add_Abort Cons.prems by simp
    then have "\<not> valid (xs @ y # ys)" using valid_take [of "xs @ [y]" ys] by auto
    then show ?thesis using Abort by simp
  next
    case (Done s')
    then have "rep s' (xs @ [y])" using add_Done Cons.prems by simp
    then have "case add_all ys s' of Done s'' \<Rightarrow> rep s'' ((xs @ [y]) @ ys) | Abort \<Rightarrow> \<not> valid ((xs @ [y]) @ ys)"
      using Cons.IH [of s' "xs @ [y]"] Cons.prems(2) by simp
    then show ?thesis using Done by (simp split: outcome.splits)
  qed
qed simp

end

text \<open>Sizes that a caller may pass: below \<open>- 1\<close> the behaviour of \<^verbatim>\<open>PartialTensorShape\<close> depends on the representation.\<close>

definition callable_size :: "bool \<Rightarrow> int \<Rightarrow> bool" where
  "callable_size kp x \<longleftrightarrow> - (2 ^ 63) \<le> x \<and> x < 2 ^ 63 \<and> (kp \<longrightarrow> - 1 \<le> x)"

lemma AddDim_Done:
  assumes "represents kp s xs" "callable_size kp x" "AddDim kp x s = Done s'"
  shows "represents kp s' (xs @ [x]) \<and> data_type s' = data_type s"
proof -
  have ok: "rep_ok kp s" and xs: "sizes kp s = xs" "count_from 1 xs = Some (num_elements s)" using assms(1) by (auto simp: represents_def)
  have room: "ndims_byte s < MaxDimensions" and nonneg: "kp \<or> 0 \<le> x" using assms(3) ok by (auto simp: AddDim_def split: if_splits)
  then have x: "size_ok kp x" using assms(2) by (auto simp: size_ok_def callable_size_def)
  have step: "represents kp s' (xs @ [x]) \<and> data_type s' = data_type s"
    if "UnsafeAddDim kp x n s = Done s'" "count_from (num_elements s) [x] = Some n" for n
    using UnsafeAddDim_ok [OF ok room x, of n] that xs by (auto simp: represents_def count_from_append)
  show ?thesis
  proof (cases "kp \<and> (num_elements s < 0 \<or> x < 0)")
    case True
    then show ?thesis using assms(3) ok room by (intro step [of "- 1"]) (auto simp: AddDim_def)
  next
    case False
    then have pos: "0 \<le> num_elements s" "0 \<le> x" using represents_known [OF assms(1)] nonneg by auto
    obtain n where n: "MultiplyWithoutOverflow (num_elements s) x = Done n" "num_elements s * x < 2 ^ 63 \<Longrightarrow> n = num_elements s * x"
        "2 ^ 63 \<le> num_elements s * x \<Longrightarrow> n < 0"
      using MultiplyWithoutOverflow_exact [of "num_elements s" x] pos represents_bound [OF assms(1)] x by (auto simp: size_ok_def)
    then have "0 \<le> n" "UnsafeAddDim kp x n s = Done s'" using assms(3) False ok room nonneg by (auto simp: AddDim_def split: if_splits)
    then show ?thesis using n pos by (intro step) (auto simp: not_less)
  qed
qed

lemma AddDim_Abort:
  assumes "represents kp s xs" "callable_size kp x" "AddDim kp x s = Abort"
  shows "\<not> valid_sizes kp (xs @ [x])"
proof
  assume valid: "valid_sizes kp (xs @ [x])"
  have ok: "rep_ok kp s" and xs: "sizes kp s = xs" "count_from 1 xs = Some (num_elements s)" using assms(1) by (auto simp: represents_def)
  have x: "size_ok kp x" using valid by (simp add: valid_sizes_def)
  have room: "ndims_byte s < MaxDimensions" using valid xs(1) length_sizes [of kp s] by (simp add: valid_sizes_def)
  have count: "count_from (num_elements s) [x] \<noteq> None" using valid xs by (auto simp: valid_sizes_def count_from_append)
  have no: "UnsafeAddDim kp x n s \<noteq> Abort" for n using UnsafeAddDim_ok [OF ok room x, of n] by auto
  show False
  proof (cases "kp \<and> (num_elements s < 0 \<or> x < 0)")
    case True
    then show False using assms(3) no ok room by (auto simp: AddDim_def)
  next
    case False
    then have pos: "0 \<le> num_elements s" "0 \<le> x" using represents_known [OF assms(1)] x by (auto simp: size_ok_def)
    obtain n where n: "MultiplyWithoutOverflow (num_elements s) x = Done n" "num_elements s * x < 2 ^ 63 \<Longrightarrow> n = num_elements s * x"
      using MultiplyWithoutOverflow_exact [of "num_elements s" x] pos represents_bound [OF assms(1)] x by (auto simp: size_ok_def)
    then have "0 \<le> n" using count pos by (auto split: if_splits)
    then show False using assms(3) False no ok room pos n(1) by (auto simp: AddDim_def split: if_splits)
  qed
qed

interpretation sb: size_builder "AddDim kp" "represents kp" "valid_sizes kp" "callable_size kp" for kp
proof (unfold_locales, goal_cases)
  case (1 s xs x s')
  then show ?case using AddDim_Done by blast
next
  case (2 s xs x)
  then show ?case by (rule AddDim_Abort)
next
  case (3 xs ys)
  then show ?case by (rule valid_prefix)
qed

lemma AddDims_add_all: "AddDims kp xs s = sb.add_all kp xs s"
proof (induction xs arbitrary: s)
  case (Cons x xs)
  then show ?case by (cases "AddDim kp x s") simp_all
qed simp

lemma AddDims_builds:
  assumes "represents kp s xs" "\<forall>y \<in> set ys. callable_size kp y"
  shows "builds kp (AddDims kp ys s) (xs @ ys)"
  using sb.add_all_rep [OF assms] unfolding AddDims_add_all builds_def by (simp split: outcome.splits)

lemma represents_rep: "represents kp s xs \<Longrightarrow> rep_ok kp s"
  by (simp add: represents_def)

lemma represents_sizes: "represents kp s xs \<Longrightarrow> sizes kp s = xs"
  by (simp add: represents_def)

lemma represents_length: "represents kp s xs \<Longrightarrow> ndims_byte s = length xs"
  using length_sizes [of kp s] represents_sizes [of kp s xs] by simp

lemma represents_dims: "represents kp s xs \<Longrightarrow> dims kp s = int (length xs)"
  using rep_ok_dims represents_rep represents_length by metis

lemma represents_dim_sizes: "represents kp s xs \<Longrightarrow> dim_sizes kp s = Done xs"
  using rep_ok_dim_sizes represents_rep represents_sizes by metis

lemma represents_buf: "represents kp s xs \<Longrightarrow> length (buf s) = 16"
  by (simp add: represents_def rep_ok_def)

lemma represents_callable: "represents kp s xs \<Longrightarrow> y \<in> set xs \<Longrightarrow> callable_size kp y"
  using represents_valid [of kp s xs] by (auto simp: valid_sizes_def size_ok_def callable_size_def split: if_splits)

lemma represents_empty:
  assumes "length (buf s) = 16" "tag s = REP16" "ndims_byte s = 0" "num_elements s = 1"
  shows "represents kp s []"
  using assms by (simp add: represents_def rep_ok_def sizes_def)

lemma represents_clear: "length (buf s) = 16 \<Longrightarrow> represents kp (ClearAllButDataType s) []"
  by (rule represents_empty) (simp_all add: ClearAllButDataType_def)

lemma represents_Clear: "length (buf s) = 16 \<Longrightarrow> represents kp (Clear_shape s) []"
  by (rule represents_empty) (simp_all add: Clear_shape_def ClearAllButDataType_def)

lemma rebuild_builds:
  "length (buf s) = 16 \<Longrightarrow> \<forall>y \<in> set ys. callable_size kp y \<Longrightarrow> builds kp (AddDims kp ys (ClearAllButDataType s)) ys"
  using AddDims_builds [OF represents_clear, of s ys kp] by simp

lemma builds_obind:
  assumes "builds kp r xs" "\<And>s. represents kp s xs \<Longrightarrow> f s = Done s"
  shows "builds kp (obind r f) xs"
  using assms by (cases r) (simp_all add: builds_def)

subsection \<open>The operations\<close>

lemma AppendShape_builds: "represents kp s xs \<Longrightarrow> represents kp t ys \<Longrightarrow> builds kp (AppendShape kp t s) (xs @ ys)"
  using AddDims_builds represents_callable by (simp add: AppendShape_def represents_dim_sizes)

lemma InsertDim_builds:
  assumes "represents kp s xs" "callable_size kp x" "d \<le> length xs"
  shows "builds kp (InsertDim kp (int d) x s) (take d xs @ [x] @ drop d xs)"
proof -
  let ?ys = "take d xs @ [x] @ drop d xs"
  have ys: "\<forall>y \<in> set ?ys. callable_size kp y"
    using assms(2) represents_callable [OF assms(1)] by (auto dest: in_set_takeD in_set_dropD)
  show ?thesis
  proof (cases "\<not> kp \<and> x < 0 \<or> \<not> length xs < MaxDimensions")
    case True
    then have "InsertDim kp (int d) x s = Abort" "\<not> valid_sizes kp ?ys"
      using assms(3) represents_dims [OF assms(1)] by (auto simp: InsertDim_def valid_sizes_def size_ok_def)
    then show ?thesis by (simp add: builds_def)
  next
    case False
    then have "InsertDim kp (int d) x s = AddDims kp ?ys (ClearAllButDataType s)"
      using assms(3) represents_dims [OF assms(1)] represents_dim_sizes [OF assms(1)] by (auto simp: InsertDim_def)
    then show ?thesis using rebuild_builds [OF represents_buf [OF assms(1)] ys] by simp
  qed
qed

lemma recompute_loop_count:
  "0 \<le> n \<Longrightarrow> n < 2 ^ 63 \<Longrightarrow> \<forall>x \<in> set ds. size_ok kp x \<Longrightarrow>
   recompute_loop kp ds n = (case count_from n ds of None \<Rightarrow> Abort | Some m \<Rightarrow> Done m)"
proof (induction ds arbitrary: n)
  case (Cons x ds)
  show ?case
  proof (cases "x < 0")
    case True
    then show ?thesis using Cons.prems by (auto simp: size_ok_def count_from_unknown)
  next
    case False
    obtain m where m: "MultiplyWithoutOverflow n x = Done m" "n * x < 2 ^ 63 \<Longrightarrow> m = n * x" "2 ^ 63 \<le> n * x \<Longrightarrow> m < 0"
      using MultiplyWithoutOverflow_exact [of n x] Cons.prems False by (auto simp: size_ok_def)
    show ?thesis
    proof (cases "n * x < 2 ^ 63")
      case True
      have "0 \<le> n * x" using Cons.prems(1) False by simp
      then show ?thesis using Cons.IH [of "n * x"] Cons.prems True False m by simp
    next
      case over: False
      then show ?thesis using m Cons.prems(1) False by auto
    qed
  qed
qed simp

lemma RecomputeNumElements_builds:
  assumes "rep_ok kp s"
  shows "builds kp (RecomputeNumElements kp s) (sizes kp s)"
proof -
  have rec: "recompute_loop kp (sizes kp s) 1 = (case count_from 1 (sizes kp s) of None \<Rightarrow> Abort | Some m \<Rightarrow> Done m)"
    using sizes_ok [OF assms] by (intro recompute_loop_count) simp_all
  have n: "rep_ok kp (set_num_elements n s)" "sizes kp (set_num_elements n s) = sizes kp s" for n
    using assms by (simp_all add: rep_ok_def sizes_def dim_size_def unknown_rank_def)
  show ?thesis
    using assms rec rep_ok_dim_sizes [OF assms] n
    by (cases "count_from 1 (sizes kp s)") (simp_all add: RecomputeNumElements_def builds_def valid_sizes_def represents_def)
qed

lemma RecomputeNumElements_id:
  assumes "represents kp s xs"
  shows "RecomputeNumElements kp s = Done s"
proof -
  have ok: "rep_ok kp s" using represents_rep [OF assms] .
  have "recompute_loop kp xs 1 = Done (num_elements s)"
    using recompute_loop_count [of 1 xs kp] assms represents_valid [OF assms] by (simp add: represents_def valid_sizes_def)
  moreover have "set_num_elements (num_elements s) s = s" by (simp add: set_num_elements_def)
  ultimately show ?thesis using ok represents_dim_sizes [OF assms] by (simp add: RecomputeNumElements_def)
qed

lemma RemoveDimRange_builds:
  assumes "represents kp s xs" "b \<le> length xs" "e \<le> length xs"
  shows "builds kp (RemoveDimRange kp (int b) (int e) s) (if e \<le> b then xs else take b xs @ drop e xs)"
proof (cases "e \<le> b")
  case True
  then have "RemoveDimRange kp (int b) (int e) s = Done s"
    using assms represents_dims [OF assms(1)] by (simp add: RemoveDimRange_def Let_def)
  then show ?thesis using True assms(1) by (simp add: builds_def)
next
  case False
  let ?ys = "take b xs @ drop e xs"
  have ys: "\<forall>y \<in> set ?ys. callable_size kp y"
    using represents_callable [OF assms(1)] by (auto dest: in_set_takeD in_set_dropD)
  have "RemoveDimRange kp (int b) (int e) s = obind (AddDims kp ?ys (ClearAllButDataType s)) (RecomputeNumElements kp)"
    using False assms(2,3) represents_dims [OF assms(1)] represents_dim_sizes [OF assms(1)] represents_rep [OF assms(1)]
    by (simp add: RemoveDimRange_def Let_def)
  then show ?thesis
    using builds_obind [OF rebuild_builds [OF represents_buf [OF assms(1)] ys]] RecomputeNumElements_id False by simp
qed

text \<open>Storing a size in place, in each of the three representations.\<close>

lemma stored_update:
  assumes "stored kp s xs" "length (buf s) = 16" "d < length xs" "size_ok kp x"
  shows "tag s = REP16 \<Longrightarrow> x < kMaxRep16 \<Longrightarrow> stored kp (put_dim16 d (enc16 kp x) s) (xs[d := x])"
    "tag s = REP32 \<Longrightarrow> x < kMaxRep32 \<Longrightarrow> stored kp (put_dim32 d (enc32 kp x) s) (xs[d := x])"
    "tag s = REP_OUT_OF_LINE \<Longrightarrow> stored kp (s\<lparr>out_of_line := (out_of_line s)[d := x]\<rparr>) (xs[d := x])"
proof -
  assume t: "tag s = REP16" and x: "x < kMaxRep16"
  have d: "d < 6" "length xs \<le> 6" using assms(1,3) t by (auto simp: stored_def)
  have "dim16 (put_dim16 d (enc16 kp x) s) i = (if i = d then enc16 kp x else dim16 s i)" for i
    using dim16_put_other [of i d] d assms(2) enc16_ok [OF assms(4) x] by simp
  then show "stored kp (put_dim16 d (enc16 kp x) s) (xs[d := x])"
    using assms(1) t d enc16_ok [OF assms(4) x] by (auto simp: stored_def nth_list_update)
next
  assume t: "tag s = REP32" and x: "x < kMaxRep32"
  have d: "d < 3" "length xs \<le> 3" using assms(1,3) t by (auto simp: stored_def)
  have "dim32 (put_dim32 d (enc32 kp x) s) i = (if i = d then enc32 kp x else dim32 s i)" for i
    using dim32_put_other [of i d] d assms(2) enc32_ok [OF assms(4) x] by simp
  then show "stored kp (put_dim32 d (enc32 kp x) s) (xs[d := x])"
    using assms(1) t d enc32_ok [OF assms(4) x] by (auto simp: stored_def nth_list_update)
qed (use assms(1) in \<open>simp add: stored_def\<close>)

lemma represents_stored: "represents kp s xs \<Longrightarrow> stored kp s xs"
proof -
  assume s: "represents kp s xs"
  then have "rep_ok kp s \<and> sizes kp s = xs \<longleftrightarrow> stored kp s xs"
    using represents_valid [OF s] represents_length [OF s] represents_buf [OF s] by (intro rep_stored) (simp_all add: valid_sizes_def)
  then show ?thesis using represents_rep [OF s] represents_sizes [OF s] by simp
qed

lemma stored_rep:
  assumes "stored kp s xs" "length (buf s) = 16" "ndims_byte s = length xs" "length xs \<le> MaxDimensions" "\<forall>x \<in> set xs. size_ok kp x"
  shows "rep_ok kp s" "sizes kp s = xs"
  using rep_stored [of s xs kp] assms by simp_all

lemma set_dim_builds:
  assumes "represents kp s xs" "d < length xs" "0 \<le> x" "x < 2 ^ 63"
  shows "builds kp (set_dim kp (int d) x s) (xs[d := x])"
proof -
  let ?ys = "xs[d := x]"
  have x: "size_ok kp x" and cx: "callable_size kp x" using assms(3,4) by (simp_all add: size_ok_def callable_size_def)
  have valid: "length xs \<le> MaxDimensions" "\<forall>y \<in> set xs. size_ok kp y" using represents_valid [OF assms(1)] by (auto simp: valid_sizes_def)
  then have ys: "length ?ys \<le> MaxDimensions" "\<forall>y \<in> set ?ys. size_ok kp y" using x set_update_subset_insert [of xs d x] by auto
  note st = represents_stored [OF assms(1)] and len = represents_buf [OF assms(1)] and nd = represents_length [OF assms(1)]
  note upd = stored_update [OF st len assms(2) x]
  have d6: "tag s = REP16 \<Longrightarrow> d < 6" and d3: "tag s = REP32 \<Longrightarrow> d < 3" using st assms(2) by (auto simp: stored_def)
  have eq: "set_dim kp (int d) x s = obind
        (if tag s = REP16 \<and> x < kMaxRep16 then Done (put_dim16 d (enc16 kp x) s)
         else if tag s = REP32 \<and> x < kMaxRep32 then Done (put_dim32 d (enc32 kp x) s)
         else if tag s = REP_OUT_OF_LINE then Done (s\<lparr>out_of_line := (out_of_line s)[d := x]\<rparr>)
         else AddDims kp ?ys (ClearAllButDataType s)) (RecomputeNumElements kp)"
    using assms(2,3) represents_dims [OF assms(1)] represents_dim_sizes [OF assms(1)] by (simp add: set_dim_def)
  have inplace: "builds kp (RecomputeNumElements kp s1) ?ys" if "stored kp s1 ?ys" "length (buf s1) = 16" "ndims_byte s1 = ndims_byte s" for s1
  proof -
    have "rep_ok kp s1" "sizes kp s1 = ?ys" using stored_rep [OF that(1,2) _ ys] that(3) nd by simp_all
    then show ?thesis using RecomputeNumElements_builds [of kp s1] by simp
  qed
  consider (a) "tag s = REP16 \<and> x < kMaxRep16" | (b) "tag s = REP32 \<and> x < kMaxRep32" | (c) "tag s = REP_OUT_OF_LINE"
    | (d) "\<not> (tag s = REP16 \<and> x < kMaxRep16)" "\<not> (tag s = REP32 \<and> x < kMaxRep32)" "tag s \<noteq> REP_OUT_OF_LINE" by metis
  then show ?thesis
  proof cases
    case a
    then show ?thesis using inplace [of "put_dim16 d (enc16 kp x) s"] upd(1) len d6 unfolding eq by simp
  next
    case b
    then show ?thesis using inplace [of "put_dim32 d (enc32 kp x) s"] upd(2) len d3 unfolding eq by simp
  next
    case c
    then show ?thesis using inplace [of "s\<lparr>out_of_line := (out_of_line s)[d := x]\<rparr>"] upd(3) len unfolding eq by simp
  next
    case d
    have "\<forall>y \<in> set ?ys. callable_size kp y"
      using represents_callable [OF assms(1)] cx set_update_subset_insert [of xs d x] by auto
    then have "builds kp (AddDims kp ?ys (ClearAllButDataType s)) ?ys" by (rule rebuild_builds [OF len])
    then show ?thesis unfolding eq if_not_P [OF d(1)] if_not_P [OF d(2)] if_not_P [OF d(3)]
      by (rule builds_obind) (rule RecomputeNumElements_id)
  qed
qed

subsection \<open>Constructors\<close>

lemma new_shape_fields [simp]:
  "length mem = 16 \<Longrightarrow> tag (new_shape mem) = REP16" "length (buf (new_shape mem)) = length mem"
  "length mem = 16 \<Longrightarrow> data_type (new_shape mem) = DT_INVALID"
  by (simp_all add: new_shape_def DT_INVALID_def)

lemma kMaxSmall_sizes: "to_uint64 x \<le> kMaxSmall \<Longrightarrow> callable_size kp x \<Longrightarrow> 0 \<le> x \<and> x \<le> int kMaxSmall"
proof -
  assume x: "to_uint64 x \<le> kMaxSmall" "callable_size kp x"
  have "0 \<le> x"
  proof (rule ccontr)
    assume "\<not> 0 \<le> x"
    then have "x mod 2 ^ 64 = x + 2 ^ 64" using x(2) mod_pos_pos_trivial [of "x + 2 ^ 64" "2 ^ 64"] by (simp add: callable_size_def)
    then show False using x \<open>\<not> 0 \<le> x\<close> by (simp add: to_uint64_def kMaxSmall_def callable_size_def nat_le_iff)
  qed
  then show ?thesis using x by (simp add: to_uint64_def callable_size_def)
qed

lemma count_from_small:
  "0 \<le> n \<Longrightarrow> 1 \<le> K \<Longrightarrow> \<forall>x \<in> set xs. 0 \<le> x \<and> x \<le> K \<Longrightarrow> n * K ^ length xs < 2 ^ 63 \<Longrightarrow> count_from n xs = Some (n * prod_list xs)"
proof (induction xs arbitrary: n)
  case (Cons x xs)
  have x: "0 \<le> x" "x \<le> K" using Cons.prems(3) by auto
  have p: "1 \<le> K ^ length xs" using Cons.prems(2) by simp
  have "n * x * K ^ length xs \<le> n * K * K ^ length xs"
    using x Cons.prems(1,2) by (intro mult_right_mono mult_left_mono) auto
  then have bound: "n * x * K ^ length xs < 2 ^ 63" using Cons.prems(4) by (simp add: mult.assoc)
  moreover have "n * x \<le> n * x * K ^ length xs" using p x(1) Cons.prems(1) mult_left_mono [OF p, of "n * x"] by simp
  ultimately have "n * x < 2 ^ 63" by linarith
  then show ?case using Cons.IH [of "n * x"] Cons.prems x bound by (simp add: mult.assoc)
qed simp

lemma set16_dims_ok:
  "\<forall>v \<in> set vs. 0 \<le> v \<and> v \<le> int kMaxSmall \<Longrightarrow> d + length vs \<le> 6 \<Longrightarrow> length (buf s) = 16 \<Longrightarrow>
   \<exists>s'. set16_dims kp d vs s = Done (False, s') \<and> tag s' = tag s \<and> ndims_byte s' = ndims_byte s \<and> length (buf s') = 16 \<and>
     (\<forall>i. i < d \<longrightarrow> dim16 s' i = dim16 s i) \<and> (\<forall>i < length vs. int (dim16 s' (d + i)) = vs ! i)"
proof (induction vs arbitrary: d s)
  case (Cons v vs)
  let ?s = "put_dim16 d (nat (v mod 2 ^ 16)) s"
  have v: "0 \<le> v" "v \<le> int kMaxSmall" "d < 6" using Cons.prems by auto
  then have w: "nat (v mod 2 ^ 16) < 2 ^ 16" "int (nat (v mod 2 ^ 16)) = v" by (simp_all add: kMaxSmall_def)
  obtain s' where s': "set16_dims kp (Suc d) vs ?s = Done (False, s')" "tag s' = tag ?s" "ndims_byte s' = ndims_byte ?s" "length (buf s') = 16"
      "\<forall>i. i < Suc d \<longrightarrow> dim16 s' i = dim16 ?s i" "\<forall>i < length vs. int (dim16 s' (Suc d + i)) = vs ! i"
    using Cons.IH [of "Suc d" ?s] Cons.prems by auto
  have set: "Set16 kp d v s = Done (False, ?s)" using v by (simp add: Set16_def)
  have old: "\<forall>i. i < d \<longrightarrow> dim16 s' i = dim16 s i" using s'(5) by (simp add: dim16_put_other)
  have "int (dim16 s' (d + i)) = (v # vs) ! i" if "i < length (v # vs)" for i
    using that s'(5,6) v(3) w Cons.prems(3) by (cases i) auto
  then show ?case using s' set old v(3) by auto
qed auto

lemma InitDims_builds:
  assumes "length (buf s) = 16" "tag s = REP16" "\<forall>x \<in> set xs. callable_size kp x"
  shows "builds kp (InitDims kp xs s) xs"
proof (cases "(\<forall>v \<in> set xs. to_uint64 v \<le> kMaxSmall) \<and> 1 \<le> length xs \<and> length xs \<le> 4")
  case False
  have "represents kp (set_num_elements 1 (set_ndims_byte 0 s)) []" using assms(1,2) by (intro represents_empty) simp_all
  then have "builds kp (AddDims kp xs (set_num_elements 1 (set_ndims_byte 0 s))) xs" using AddDims_builds [of kp _ "[]" xs] assms(3) by simp
  moreover have "InitDims kp xs s = AddDims kp xs (set_num_elements 1 (set_ndims_byte 0 s))"
    using False by (auto simp: InitDims_def Let_def not_less)
  ultimately show ?thesis by simp
next
  case True
  then have small: "\<forall>v \<in> set xs. 0 \<le> v \<and> v \<le> int kMaxSmall" using assms(3) kMaxSmall_sizes by blast
  let ?s = "set_ndims_byte (length xs) s"
  obtain s' where s': "set16_dims kp 0 xs ?s = Done (False, s')" "tag s' = REP16" "ndims_byte s' = length xs" "length (buf s') = 16"
      "\<forall>i < length xs. int (dim16 s' i) = xs ! i"
    using set16_dims_ok [OF small, of 0 ?s kp] True assms(1,2) by auto
  let ?r = "set_num_elements (prod_list xs) s'"
  have eq: "InitDims kp xs s = Done ?r" using True s'(1) by (auto simp: InitDims_def Let_def not_less)
  have "int kMaxSmall ^ length xs \<le> int kMaxSmall ^ 4" using True by (intro power_increasing) (simp_all add: kMaxSmall_def)
  then have "count_from 1 xs = Some (prod_list xs)"
    using count_from_small [of 1 "int kMaxSmall" xs] small by (simp add: kMaxSmall_def)
  moreover have "dim16 s' i < 2 ^ 16 \<and> dim16 s' i \<noteq> kUnknownRep16 \<and> int (dim16 s' i) = xs ! i" if "i < length xs" for i
    using s'(5) small that nth_mem [OF that] by (fastforce simp: kMaxSmall_def kUnknownRep16_def)
  then have "stored kp ?r xs" using s'(2) True by (simp add: stored_def dec16_def)
  moreover have "\<forall>x \<in> set xs. size_ok kp x" using small by (auto simp: size_ok_def kMaxSmall_def)
  ultimately have "rep_ok kp ?r" "sizes kp ?r = xs" "count_from 1 xs = Some (prod_list xs)"
    using stored_rep [of kp ?r xs] s' True by (simp_all add: MaxDimensions_def)
  then show ?thesis unfolding eq by (simp add: builds_def represents_def)
qed

lemma TensorShapeBase_dims_builds:
  "length mem = 16 \<Longrightarrow> \<forall>x \<in> set xs. callable_size kp x \<Longrightarrow> builds kp (TensorShapeBase_dims kp mem xs) xs"
  unfolding TensorShapeBase_dims_def by (rule InitDims_builds) simp_all

lemma TensorShapeBase_proto_builds:
  assumes "length mem = 16" "\<forall>x \<in> set (proto_dim p). callable_size kp x" "\<not> (kp \<and> proto_unknown_rank p)"
  shows "builds kp (TensorShapeBase_proto kp mem p) (proto_dim p)"
proof -
  have "represents kp (set_num_elements 1 (set_ndims_byte 0 (new_shape mem))) []" using assms(1) by (intro represents_empty) simp_all
  then show ?thesis using AddDims_builds [of kp _ "[]" "proto_dim p"] assms(2)
    unfolding TensorShapeBase_proto_def if_not_P [OF assms(3)] by simp
qed

end
