(* ===== verification/Tensor_Shape_Props.thy ===== *)
theory Tensor_Shape_Props
  imports Tensor_Shape_Correct
begin

text \<open>Validation of shapes from outside, copies, and the results on shapes.\<close>

subsection \<open>Validation\<close>

definition int64_sizes :: "int list \<Rightarrow> bool" where
  "int64_sizes xs \<longleftrightarrow> (\<forall>x \<in> set xs. - (2 ^ 63) \<le> x \<and> x < 2 ^ 63)"

lemma valid_loop_exact:
  "int64_sizes ds \<Longrightarrow> - 1 \<le> n \<Longrightarrow> n < 2 ^ 63 \<Longrightarrow> kp \<or> 0 \<le> n \<Longrightarrow>
   valid_loop kp ds n = Done ((\<forall>x \<in> set ds. size_ok kp x) \<and> count_from n ds \<noteq> None)"
proof (induction ds arbitrary: n)
  case (Cons x ds)
  have x: "x < 2 ^ 63" "int64_sizes ds" using Cons.prems(1) by (auto simp: int64_sizes_def)
  have "x < (if kp then - 1 else 0) \<or> kp \<and> x = - 1 \<or> kp \<and> n = - 1 \<and> 0 \<le> x \<or> 0 \<le> n \<and> 0 \<le> x"
    using Cons.prems(2,4) by (cases kp) (simp_all, presburger+)
  then consider (low) "x < (if kp then - 1 else 0)" | (unknown) "kp" "x = - 1" | (after) "kp" "n = - 1" "0 \<le> x" | (known) "0 \<le> n" "0 \<le> x"
    by metis
  then show ?case
  proof cases
    case low
    then show ?thesis by (auto simp: size_ok_def)
  next
    case unknown
    then show ?thesis using Cons.IH [of "- 1"] x by (simp add: size_ok_def)
  next
    case after
    then show ?thesis using Cons.IH [of "- 1"] x by (simp add: size_ok_def)
  next
    case known
    obtain m where m: "MultiplyWithoutOverflow n x = Done m" "n * x < 2 ^ 63 \<Longrightarrow> m = n * x" "2 ^ 63 \<le> n * x \<Longrightarrow> m < 0"
      using MultiplyWithoutOverflow_exact [of n x] known Cons.prems(3) x(1) by auto
    have nx: "0 \<le> n * x" "\<not> n * x < 0" "- 1 \<le> n * x" using mult_nonneg_nonneg [OF known] by linarith+
    show ?thesis
    proof (cases "n * x < 2 ^ 63")
      case True
      then have "valid_loop kp (x # ds) n = valid_loop kp ds (n * x)" "count_from n (x # ds) = count_from (n * x) ds"
        using m(1) m(2) [OF True] known nx(2) True by auto
      moreover have "size_ok kp x" using known x by (simp add: size_ok_def)
      moreover have "valid_loop kp ds (n * x) = Done ((\<forall>x \<in> set ds. size_ok kp x) \<and> count_from (n * x) ds \<noteq> None)"
        using x(2) nx True by (intro Cons.IH) simp_all
      ultimately show ?thesis by simp
    next
      case False
      then show ?thesis using m known by (simp add: not_less)
    qed
  qed
qed simp

lemma IsValid_exact:
  assumes "int64_sizes (proto_dim p)"
  shows "IsValid kp p = Done (if kp \<and> proto_unknown_rank p then proto_dim p = [] else valid_sizes kp (proto_dim p))"
  using valid_loop_exact [OF assms, of 1 kp] by (auto simp: IsValid_def valid_sizes_def)

lemma IsValidShape_IsValid:
  assumes "int64_sizes (proto_dim p)"
  shows "IsValidShape kp p = obind (IsValid kp p) (\<lambda>ok. Done (if ok then None else Some InvalidArgument))"
  by (simp add: IsValidShape_def IsValid_def)

lemma make_loop_exact:
  "represents kp out xs \<Longrightarrow> int64_sizes ds \<Longrightarrow> length xs + length ds \<le> MaxDimensions \<Longrightarrow>
   \<exists>e out'. make_loop kp ds out = Done (e, out') \<and>
     (if valid_sizes kp (xs @ ds) then e = None \<and> represents kp out' (xs @ ds) else e = Some InvalidArgument)"
proof (induction ds arbitrary: xs out)
  case Nil
  then show ?case using represents_valid by fastforce
next
  case (Cons x ds)
  note ok = represents_rep [OF Cons.prems(1)]
  have room: "ndims_byte out < MaxDimensions" using represents_length [OF Cons.prems(1)] Cons.prems(3) by simp
  have x: "- (2 ^ 63) \<le> x" "x < 2 ^ 63" "int64_sizes ds" using Cons.prems(2) by (auto simp: int64_sizes_def)
  have count: "count_from 1 xs = Some (num_elements out)" using Cons.prems(1) by (simp add: represents_def)
  have step: "\<exists>e out'. obind (UnsafeAddDim kp x n out) (make_loop kp ds) = Done (e, out') \<and>
      (if valid_sizes kp (xs @ x # ds) then e = None \<and> represents kp out' (xs @ x # ds) else e = Some InvalidArgument)"
    if sx: "size_ok kp x" and cn: "count_from (num_elements out) [x] = Some n" for n
  proof -
    obtain s' where s': "UnsafeAddDim kp x n out = Done s'" "rep_ok kp s'" "sizes kp s' = xs @ [x]" "num_elements s' = n"
      using UnsafeAddDim_ok [OF ok room sx, of n] represents_sizes [OF Cons.prems(1)] by auto
    then have "represents kp s' (xs @ [x])" using cn count by (simp add: represents_def count_from_append)
    then show ?thesis using Cons.IH [of s' "xs @ [x]"] x(3) Cons.prems(3)
      unfolding s'(1) obind.simps append_assoc append_Cons append_Nil by simp
  qed
  have bad: "\<not> valid_sizes kp (xs @ x # ds)" if "\<not> size_ok kp x \<or> count_from (num_elements out) [x] = None"
    using that valid_prefix [of kp "xs @ [x]" ds] count by (auto simp: valid_sizes_def count_from_append)
  consider (low) "x < (if kp then - 1 else 0)" | (unknown) "kp" "x = - 1" | (after) "num_elements out < 0" "0 \<le> x"
    | (known) "0 \<le> num_elements out" "0 \<le> x" by (cases "x < 0"; cases kp) fastforce+
  then show ?case
  proof cases
    case low
    then have "make_loop kp (x # ds) out = Done (Some InvalidArgument, out)" by (auto split: if_splits)
    moreover have "\<not> size_ok kp x" using low by (auto simp: size_ok_def)
    ultimately show ?thesis using bad by auto
  next
    case unknown
    then show ?thesis using step [of "- 1"] by (simp add: size_ok_def)
  next
    case after
    have "size_ok kp x" using after x by (simp add: size_ok_def)
    then show ?thesis using step [of "- 1"] after by simp
  next
    case known
    have sx: "size_ok kp x" using known x by (simp add: size_ok_def)
    obtain m where m: "MultiplyWithoutOverflow (num_elements out) x = Done m" "num_elements out * x < 2 ^ 63 \<Longrightarrow> m = num_elements out * x"
        "2 ^ 63 \<le> num_elements out * x \<Longrightarrow> m < 0"
      using MultiplyWithoutOverflow_exact [of "num_elements out" x] known represents_bound [OF Cons.prems(1)] x(2) by auto
    show ?thesis
    proof (cases "num_elements out * x < 2 ^ 63")
      case True
      then have m': "m = num_elements out * x" "\<not> m < 0" using m(2) mult_nonneg_nonneg [OF known] by linarith+
      have "make_loop kp (x # ds) out = obind (UnsafeAddDim kp x m out) (make_loop kp ds)" using m(1) m'(2) known by simp
      moreover have "count_from (num_elements out) [x] = Some m" using True m'(1) known by simp
      ultimately show ?thesis using step [OF sx, of m] by simp
    next
      case False
      then have "make_loop kp (x # ds) out = Done (Some InvalidArgument, out)" using m known by simp
      then show ?thesis using bad False known by auto
    qed
  qed
qed

lemma MakeShapeHelper_exact:
  assumes "length (buf out) = 16" "int64_sizes ds"
  shows "\<exists>e out'. MakeShapeHelper kp ds out = Done (e, out') \<and>
    (if valid_sizes kp ds then e = None \<and> represents kp out' ds else e = Some InvalidArgument)"
proof (cases "length ds > MaxDimensions")
  case True
  then show ?thesis by (simp add: MakeShapeHelper_def valid_sizes_def)
next
  case False
  then have "MakeShapeHelper kp ds out = make_loop kp ds (Clear_shape out)" by (simp add: MakeShapeHelper_def)
  then show ?thesis using make_loop_exact [OF represents_Clear [OF assms(1)] assms(2), of kp] False
    by (simp only: append_Nil list.size add_0 not_less)
qed

subsection \<open>Copies\<close>

text \<open>The value of a partial shape: \<open>None\<close> for an unknown rank.\<close>

fun denotes :: "shape_rep \<Rightarrow> int list option \<Rightarrow> bool" where
  "denotes s None \<longleftrightarrow> length (buf s) = 16 \<and> unknown_rank True s \<and> tag s = REP16 \<and> num_elements s = - 1"
| "denotes s (Some xs) \<longleftrightarrow> represents True s xs"

lemma same_bytes:
  assumes "buf s = buf b" "num_elements s = num_elements b" "tag b = REP16 \<or> tag b = REP32"
  shows "represents kp s xs = represents kp b xs" "denotes s v = denotes b v"
proof -
  have fields: "tag s = tag b" "ndims_byte s = ndims_byte b" "dim16 s d = dim16 b d" "dim32 s d = dim32 b d" for d
    using assms(1) by (simp_all add: tag_def ndims_byte_def dim16_def dim32_def)
  have "dim_size kp s d = dim_size kp b d" for kp d using fields assms(3) by (auto simp: dim_size_def unknown_rank_def)
  then have "sizes kp s = sizes kp b" for kp using fields by (simp add: sizes_def)
  then show rep: "represents kp s xs = represents kp b xs" for kp xs
    using fields assms by (auto simp: represents_def rep_ok_def)
  show "denotes s v = denotes b v" using fields assms rep by (cases v) (simp_all add: unknown_rank_def)
qed

lemma same_vector:
  assumes "represents kp b xs" "tag b = REP_OUT_OF_LINE" "length (buf s) = 16" "tag s = REP_OUT_OF_LINE" "ndims_byte s = ndims_byte b"
    "out_of_line s = out_of_line b" "num_elements s = num_elements b"
  shows "represents kp s xs"
proof -
  have "dim_size kp s d = dim_size kp b d" for d using assms by (simp add: dim_size_def unknown_rank_def)
  then have "sizes kp s = sizes kp b" using assms(5) by (simp add: sizes_def)
  then show ?thesis using assms by (simp add: represents_def rep_ok_def)
qed

lemma assign_represents:
  assumes "represents kp b xs" "length (buf s) = 16"
  shows "represents kp (assign_shape b s) xs"
proof (cases "tag b = REP_OUT_OF_LINE")
  case True
  have nd: "ndims_byte b < 256" using represents_rep [OF assms(1)] by (simp add: rep_ok_def MaxDimensions_def)
  have n: "tag (s\<lparr>num_elements := m\<rparr>) = tag s" for m by (simp add: tag_def)
  show ?thesis
    by (rule same_vector [OF assms(1) True]) (use True assms(2) nd n in \<open>simp_all add: assign_shape_def SlowCopyFrom_def Let_def\<close>)
next
  case False
  then have tag: "tag b = REP16 \<or> tag b = REP32" using represents_rep [OF assms(1)] by (auto simp: rep_ok_def)
  have "buf (assign_shape b s) = buf b" "num_elements (assign_shape b s) = num_elements b"
    using False by (simp_all add: assign_shape_def SlowCopyFrom_def Let_def)
  then show ?thesis using same_bytes(1) [where s = "assign_shape b s" and b = b] tag assms(1) by blast
qed

lemma copy_represents:
  assumes "represents kp b xs" "length mem = 16"
  shows "represents kp (copy_shape mem b) xs"
proof (cases "tag b = REP_OUT_OF_LINE")
  case True
  have nd: "ndims_byte b < 256" using represents_rep [OF assms(1)] by (simp add: rep_ok_def MaxDimensions_def)
  show ?thesis
    by (rule same_vector [OF assms(1) True]) (use True assms(2) nd in \<open>simp_all add: copy_shape_def SlowCopyFrom_def Let_def\<close>)
next
  case False
  then have tag: "tag b = REP16 \<or> tag b = REP32" using represents_rep [OF assms(1)] by (auto simp: rep_ok_def)
  have "buf (copy_shape mem b) = buf b" "num_elements (copy_shape mem b) = num_elements b"
    using False by (simp_all add: copy_shape_def Let_def)
  then show ?thesis using same_bytes(1) [where s = "copy_shape mem b" and b = b] tag assms(1) by blast
qed

lemma assign_denotes: "denotes b v \<Longrightarrow> length (buf s) = 16 \<Longrightarrow> denotes (assign_shape b s) v"
proof (cases v)
  case None
  assume b: "denotes b v" and s: "length (buf s) = 16"
  have "buf (assign_shape b s) = buf b" "num_elements (assign_shape b s) = num_elements b"
    using b None by (simp_all add: assign_shape_def SlowCopyFrom_def Let_def)
  then show ?thesis using same_bytes(2) [of "assign_shape b s" b v] b None by simp
qed (simp add: assign_represents)

text \<open>A \<^verbatim>\<open>TensorShape\<close> may be read as a \<^verbatim>\<open>PartialTensorShape\<close>, and back when every size is known.\<close>

lemma represents_partial:
  assumes "represents False s xs"
  shows "represents True s xs"
proof -
  have st: "stored True s xs" using represents_stored [OF assms] by (auto simp: stored_def dec16_def dec32_def)
  have v: "length xs \<le> MaxDimensions" "\<forall>x \<in> set xs. size_ok True x"
    using represents_valid [OF assms] by (auto simp: valid_sizes_def size_ok_def)
  show ?thesis using stored_rep [OF st represents_buf [OF assms] represents_length [OF assms] v] assms by (simp add: represents_def)
qed

lemma dec_full:
  "dec16 True w = x \<Longrightarrow> 0 \<le> x \<Longrightarrow> dec16 False w = x \<and> w \<noteq> kUnknownRep16"
  "dec32 True w = x \<Longrightarrow> 0 \<le> x \<Longrightarrow> dec32 False w = x \<and> w \<noteq> kUnknownRep32"
  by (auto simp: dec16_def dec32_def split: if_splits)

lemma represents_full:
  assumes "represents True s xs" "\<forall>x \<in> set xs. 0 \<le> x"
  shows "represents False s xs"
proof -
  have st: "stored False s xs"
  proof -
    have "0 \<le> xs ! d" if "d < length xs" for d using assms(2) that by simp
    then show ?thesis using represents_stored [OF assms(1)] unfolding stored_def by (metis dec_full)
  qed
  have v: "length xs \<le> MaxDimensions" "\<forall>x \<in> set xs. size_ok False x"
    using represents_valid [OF assms(1)] assms(2) by (auto simp: valid_sizes_def size_ok_def)
  show ?thesis using stored_rep [OF st represents_buf [OF assms(1)] represents_length [OF assms(1)] v] assms(1) by (simp add: represents_def)
qed

subsection \<open>Merging partial shapes\<close>

text \<open>The known sizes that a partial shape allows.\<close>

definition fills :: "int \<Rightarrow> int \<Rightarrow> bool" where
  "fills a c \<longleftrightarrow> 0 \<le> c \<and> (a < 0 \<or> a = c)"

fun admits :: "int list option \<Rightarrow> int list \<Rightarrow> bool" where
  "admits None cs \<longleftrightarrow> (\<forall>c \<in> set cs. 0 \<le> c)"
| "admits (Some xs) cs \<longleftrightarrow> list_all2 fills xs cs"

definition clash :: "int \<Rightarrow> int \<Rightarrow> bool" where
  "clash a b \<longleftrightarrow> 0 \<le> a \<and> 0 \<le> b \<and> a \<noteq> b"

definition joined :: "int list \<Rightarrow> int list \<Rightarrow> int list" where
  "joined xs ys = map (\<lambda>(a, b). if 0 \<le> a then a else b) (zip xs ys)"

lemma fills_join: "\<not> clash a b \<Longrightarrow> fills (if 0 \<le> a then a else b) c \<longleftrightarrow> fills a c \<and> fills b c"
  by (auto simp: fills_def clash_def)

lemma admits_joined:
  "length xs = length ys \<Longrightarrow> \<forall>(a, b) \<in> set (zip xs ys). \<not> clash a b \<Longrightarrow>
   list_all2 fills (joined xs ys) cs \<longleftrightarrow> list_all2 fills xs cs \<and> list_all2 fills ys cs"
proof (induction xs ys arbitrary: cs rule: list_induct2)
  case (Cons a xs b ys)
  then show ?case using fills_join [of a b] by (cases cs) (auto simp: joined_def)
qed (simp add: joined_def)

lemma clash_not_admitted:
  "(a, b) \<in> set (zip xs ys) \<Longrightarrow> clash a b \<Longrightarrow> \<not> (list_all2 fills xs cs \<and> list_all2 fills ys cs)"
  by (auto simp: in_set_zip list_all2_conv_all_nth clash_def fills_def) (metis linorder_not_less)

lemma admits_all2: "list_all2 fills xs (map (\<lambda>a. if 0 \<le> a then a else 0) xs)"
  by (auto simp: list_all2_conv_all_nth fills_def)

lemma denotes_pair:
  assumes "represents True s xs" "represents True t ys" "length xs = length ys"
  shows "map (\<lambda>i. (dim_size True s i, dim_size True t i)) [0..<nat (dims True s)] = zip xs ys"
proof (rule nth_equalityI)
  have nd: "ndims_byte s = length xs" "ndims_byte t = length ys" using assms(1,2) represents_length by auto
  show "length (map (\<lambda>i. (dim_size True s i, dim_size True t i)) [0..<nat (dims True s)]) = length (zip xs ys)"
    using represents_dims [OF assms(1)] assms(3) by simp
  fix i
  assume "i < length (map (\<lambda>i. (dim_size True s i, dim_size True t i)) [0..<nat (dims True s)])"
  then have i: "i < length xs" using represents_dims [OF assms(1)] by simp
  then have "dim_size True s i = xs ! i" "dim_size True t i = ys ! i"
    using nth_sizes [of i s True] nth_sizes [of i t True] nd represents_sizes [OF assms(1)] represents_sizes [OF assms(2)] assms(3) by simp_all
  then show "map (\<lambda>i. (dim_size True s i, dim_size True t i)) [0..<nat (dims True s)] ! i = zip xs ys ! i"
    using i assms(3) represents_dims [OF assms(1)] by simp
qed

lemma merge_loop_result:
  "represents True r zs \<Longrightarrow> \<forall>(a, b) \<in> set ps. callable_size True a \<and> callable_size True b \<Longrightarrow>
   case merge_loop ps r of
     Abort \<Rightarrow> \<not> valid_sizes True (zs @ map (\<lambda>(a, b). if 0 \<le> a then a else b) ps)
   | Done (None, r') \<Rightarrow> (\<forall>(a, b) \<in> set ps. \<not> clash a b) \<and> represents True r' (zs @ map (\<lambda>(a, b). if 0 \<le> a then a else b) ps)
   | Done (Some e, r') \<Rightarrow> e = InvalidArgument \<and> \<not> (\<forall>(a, b) \<in> set ps. \<not> clash a b)"
proof (induction ps r arbitrary: zs rule: merge_loop.induct)
  case (2 a b ps r)
  let ?x = "if 0 \<le> a then a else b" and ?join = "map (\<lambda>(a, b). if 0 \<le> a then a else b)"
  show ?case
  proof (cases "clash a b")
    case True
    then show ?thesis by (auto simp: clash_def)
  next
    case False
    then have loop: "merge_loop ((a, b) # ps) r = obind (AddDim True ?x r) (merge_loop ps)" by (auto simp: clash_def)
    have x: "callable_size True ?x" using "2.prems"(2) by auto
    show ?thesis
    proof (cases "AddDim True ?x r")
      case Abort
      then have "\<not> valid_sizes True (zs @ [?x])" using AddDim_Abort [OF "2.prems"(1) x] by simp
      then have "\<not> valid_sizes True (zs @ ?join ((a, b) # ps))" using valid_prefix [of True "zs @ [?x]" "?join ps"] by auto
      then show ?thesis unfolding loop Abort by simp
    next
      case (Done r1)
      then have r1: "represents True r1 (zs @ [?x])" using AddDim_Done [OF "2.prems"(1) x] by simp
      show ?thesis
        using "2.IH" [OF False [unfolded clash_def] r1] "2.prems"(2) False unfolding loop Done
        by (auto split: outcome.splits option.splits)
    qed
  qed
qed simp

subsection \<open>Results\<close>


text \<open>A shape in each layout: two small sizes, one of 40000000 beside a small one, and one beyond 32 bits.\<close>

definition sample_shape :: "int list \<Rightarrow> shape_rep" where
  "sample_shape xs = (case TensorShapeBase_dims False (replicate 16 7) xs of Done s \<Rightarrow> s | Abort \<Rightarrow> new_shape [])"

lemma sample_represents: "valid_sizes False xs \<Longrightarrow> represents False (sample_shape xs) xs"
proof -
  assume v: "valid_sizes False xs"
  then have "builds False (TensorShapeBase_dims False (replicate 16 7) xs) xs"
    by (intro TensorShapeBase_dims_builds) (auto simp: valid_sizes_def size_ok_def callable_size_def)
  then show ?thesis using v by (auto simp: builds_def sample_shape_def split: outcome.splits)
qed

lemma sample_valid: "valid_sizes False [3, 4]" "valid_sizes False [40000000, 5]" "valid_sizes False [5000000000, 2]" "valid_sizes False [2]"
  by (simp_all add: valid_sizes_def size_ok_def MaxDimensions_def)




lemma IsCompatibleWith_sizes:
  assumes "represents True s xs" "represents True t ys"
  shows "IsCompatibleWith s t \<longleftrightarrow> length xs = length ys \<and> (\<forall>(a, b) \<in> set (zip xs ys). \<not> clash a b)"
proof (cases "length xs = length ys")
  case True
  have "(\<forall>(a, b) \<in> set (zip xs ys). \<not> clash a b) \<longleftrightarrow>
      (\<forall>i \<in> set [0..<nat (dims True s)]. \<not> clash (dim_size True s i) (dim_size True t i))"
    unfolding denotes_pair [OF assms True, symmetric] by auto
  then show ?thesis using True represents_rep [OF assms(1)] represents_rep [OF assms(2)] represents_dims [OF assms(1)] represents_dims [OF assms(2)]
    by (simp add: IsCompatibleWith_def clash_def)
next
  case False
  then show ?thesis using represents_rep [OF assms(1)] represents_rep [OF assms(2)] represents_dims [OF assms(1)] represents_dims [OF assms(2)]
    by (simp add: IsCompatibleWith_def)
qed

lemma compatible_common:
  "length xs = length ys \<and> (\<forall>(a, b) \<in> set (zip xs ys). \<not> clash a b) \<longleftrightarrow> (\<exists>cs. list_all2 fills xs cs \<and> list_all2 fills ys cs)"
proof
  assume "length xs = length ys \<and> (\<forall>(a, b) \<in> set (zip xs ys). \<not> clash a b)"
  then show "\<exists>cs. list_all2 fills xs cs \<and> list_all2 fills ys cs" using admits_joined admits_all2 by blast
next
  assume "\<exists>cs. list_all2 fills xs cs \<and> list_all2 fills ys cs"
  then obtain cs where cs: "list_all2 fills xs cs" "list_all2 fills ys cs" by blast
  then have "length xs = length ys" using list_all2_lengthD by metis
  then show "length xs = length ys \<and> (\<forall>(a, b) \<in> set (zip xs ys). \<not> clash a b)" using cs clash_not_admitted by blast
qed

lemma admits_known: "represents True s xs \<Longrightarrow> list_all2 fills xs cs \<Longrightarrow> \<forall>c \<in> set cs. 0 \<le> c"
  by (auto simp: list_all2_conv_all_nth in_set_conv_nth fills_def)

lemma MergeWith_sizes:
  assumes "represents True s xs" "represents True t ys" "length (buf r) = 16"
  shows "case MergeWith s t r of
      Abort \<Rightarrow> length xs = length ys \<and> \<not> valid_sizes True (joined xs ys)
    | Done (None, r') \<Rightarrow> length xs = length ys \<and> (\<forall>(a, b) \<in> set (zip xs ys). \<not> clash a b) \<and> represents True r' (joined xs ys)
    | Done (Some e, r') \<Rightarrow> e = InvalidArgument \<and> \<not> (length xs = length ys \<and> (\<forall>(a, b) \<in> set (zip xs ys). \<not> clash a b))"
proof (cases "length xs = length ys")
  case True
  have eq: "MergeWith s t r = merge_loop (zip xs ys) (Clear_shape r)"
    using represents_rep [OF assms(1)] represents_rep [OF assms(2)] represents_dims [OF assms(1)] represents_dims [OF assms(2)] True
      denotes_pair [OF assms(1,2) True] by (simp add: MergeWith_def)
  have "\<forall>(a, b) \<in> set (zip xs ys). callable_size True a \<and> callable_size True b"
    using represents_callable [OF assms(1)] represents_callable [OF assms(2)] by (auto dest: set_zip_leftD set_zip_rightD)
  from merge_loop_result [OF represents_Clear [OF assms(3)] this] show ?thesis
    unfolding eq joined_def using True by (auto split: outcome.splits option.splits)
next
  case False
  then show ?thesis using represents_rep [OF assms(1)] represents_rep [OF assms(2)] represents_dims [OF assms(1)] represents_dims [OF assms(2)]
    by (simp add: MergeWith_def)
qed

text \<open>
  C21: Merging partial shapes is the intersection of what they allow. \<^verbatim>\<open>IsCompatibleWith\<close> holds iff some known sizes fit both shapes;
  \<^verbatim>\<open>MergeWith\<close> returns OK only with a shape that allows exactly the sizes which both allow, and an error only when there are
  none. It aborts the process only when the merged sizes have too many elements.
\<close>

theorem merge_intersects:
  assumes "denotes s a" "denotes t b" "length (buf r) = 16"
  shows "(IsCompatibleWith s t \<longleftrightarrow> (\<exists>cs. admits a cs \<and> admits b cs)) \<and>
    (case MergeWith s t r of
       Done (None, r') \<Rightarrow> \<exists>c. denotes r' c \<and> (\<forall>cs. admits c cs \<longleftrightarrow> admits a cs \<and> admits b cs)
     | Done (Some e, r') \<Rightarrow> e = InvalidArgument \<and> \<not> (\<exists>cs. admits a cs \<and> admits b cs)
     | Abort \<Rightarrow> \<exists>xs ys. a = Some xs \<and> b = Some ys \<and> \<not> valid_sizes True (joined xs ys))"
proof (cases a)
  case None
  then have u: "unknown_rank True s" using assms(1) by simp
  have sub: "admits b cs \<Longrightarrow> admits a cs" for cs using None by (cases b) (auto simp: list_all2_conv_all_nth in_set_conv_nth fills_def)
  have "\<exists>cs. admits b cs" using admits_all2 by (cases b) (auto intro: exI [of _ "[]"])
  moreover have "MergeWith s t r = Done (None, assign_shape t r)" "IsCompatibleWith s t" using u by (simp_all add: MergeWith_def IsCompatibleWith_def)
  ultimately show ?thesis using sub assign_denotes [OF assms(2,3)] by auto
next
  case a: (Some xs)
  show ?thesis
  proof (cases b)
    case None
    then have u: "unknown_rank True t" "\<not> unknown_rank True s" using assms(1,2) a represents_rep by auto
    have sub: "admits a cs \<Longrightarrow> admits b cs" for cs using None a by (auto simp: list_all2_conv_all_nth in_set_conv_nth fills_def)
    have "\<exists>cs. admits a cs" using admits_all2 a by auto
    moreover have "MergeWith s t r = Done (None, assign_shape s r)" "IsCompatibleWith s t" using u by (simp_all add: MergeWith_def IsCompatibleWith_def)
    ultimately show ?thesis using sub assign_denotes [OF assms(1,3)] by auto
  next
    case b: (Some ys)
    have st: "represents True s xs" "represents True t ys" using assms(1,2) a b by simp_all
    have "IsCompatibleWith s t \<longleftrightarrow> (\<exists>cs. admits a cs \<and> admits b cs)"
      using IsCompatibleWith_sizes [OF st] compatible_common [of xs ys] a b by simp
    moreover have "\<exists>c. denotes r' c \<and> (\<forall>cs. admits c cs \<longleftrightarrow> admits a cs \<and> admits b cs)"
      if "length xs = length ys \<and> (\<forall>(a, b) \<in> set (zip xs ys). \<not> clash a b) \<and> represents True r' (joined xs ys)" for r'
      using that admits_joined [of xs ys] a b by (intro exI [of _ "Some (joined xs ys)"]) simp
    ultimately show ?thesis
      using MergeWith_sizes [OF st assms(3)] compatible_common [of xs ys] a b by (auto split: outcome.splits option.splits)
  qed
qed

theorem merge_intersects_witness:
  "denotes (sample_shape [3, 4]) (Some [3, 4]) \<and> denotes (TensorShapeBase True (replicate 16 7)) None \<and>
   IsCompatibleWith (sample_shape [3, 4]) (TensorShapeBase True (replicate 16 7)) \<and>
   \<not> IsCompatibleWith (sample_shape [3, 4]) (sample_shape [2])"
proof -
  have d: "denotes (sample_shape [3, 4]) (Some [3, 4])" "denotes (sample_shape [2]) (Some [2])"
    using sample_represents sample_valid represents_partial by simp_all
  have u: "denotes (TensorShapeBase True (replicate 16 7)) None"
    by (simp add: TensorShapeBase_def unknown_rank_def kUnknownRank_def)
  have len: "length (buf (new_shape (replicate 16 7))) = 16" by simp
  have "admits (Some [3, 4]) [3, 4] \<and> admits None [3, 4]" "\<not> (\<exists>cs. admits (Some [3, 4]) cs \<and> admits (Some [2]) cs)"
    by (auto simp: fills_def list_all2_Cons1)
  then show ?thesis using merge_intersects [OF d(1) u len] merge_intersects [OF d(1,2) len] d u by blast
qed

text \<open>Two compatible shapes, \<open>[?, 2^40]\<close> and \<open>[2^40, ?]\<close>, whose merge ends the process.\<close>

theorem merge_aborts:
  assumes "represents True s [- 1, 2 ^ 40]" "represents True t [2 ^ 40, - 1]" "length (buf r) = 16"
  shows "IsCompatibleWith s t \<and> MergeWith s t r = Abort"
proof -
  have "joined [- 1, 2 ^ 40] [2 ^ 40, - 1] = [2 ^ 40, 2 ^ 40]" by (simp add: joined_def)
  then have bad: "\<not> valid_sizes True (joined [- 1, 2 ^ 40] [2 ^ 40, - 1])" by (simp add: valid_sizes_def)
  have c: "IsCompatibleWith s t" using IsCompatibleWith_sizes [OF assms(1,2)] by (simp add: clash_def)
  then show ?thesis using MergeWith_sizes [OF assms] bad IsCompatibleWith_sizes [OF assms(1,2)]
    by (auto split: outcome.splits option.splits dest: represents_valid)
qed

text \<open>\<^verbatim>\<open>StartsWith\<close>, \<^verbatim>\<open>EndsWith\<close> and \<^verbatim>\<open>IsSameSize\<close> decide what their names say.\<close>

lemma shape_comparisons:
  assumes "represents False s xs" "represents False t ys"
  shows "IsSameSize s t \<longleftrightarrow> xs = ys" "StartsWith s t \<longleftrightarrow> take (length ys) xs = ys"
    "EndsWith s t \<longleftrightarrow> length ys \<le> length xs \<and> drop (length xs - length ys) xs = ys"
proof -
  have nth: "dim_size False s i = xs ! i" if "i < length xs" for i
    using that nth_sizes [of i s False] represents_sizes [OF assms(1)] represents_length [OF assms(1)] by simp
  have nth': "dim_size False t i = ys ! i" if "i < length ys" for i
    using that nth_sizes [of i t False] represents_sizes [OF assms(2)] represents_length [OF assms(2)] by simp
  note d = represents_dims [OF assms(1)] represents_dims [OF assms(2)]
  have "IsSameSize s t \<longleftrightarrow> length xs = length ys \<and> (\<forall>i < length xs. xs ! i = ys ! i)"
    using nth nth' by (auto simp: IsSameSize_def d)
  then show "IsSameSize s t \<longleftrightarrow> xs = ys" using list_eq_iff_nth_eq [of xs ys] by simp
  have "StartsWith s t \<longleftrightarrow> length ys \<le> length xs \<and> (\<forall>i < length ys. xs ! i = ys ! i)"
    using nth nth' by (auto simp: StartsWith_def d)
  also have "\<dots> \<longleftrightarrow> take (length ys) xs = ys"
  proof
    assume ys: "take (length ys) xs = ys"
    from arg_cong [OF this, of length] have "length ys \<le> length xs" by simp
    moreover have "xs ! i = ys ! i" if "i < length ys" for i using that arg_cong [OF ys, of "\<lambda>zs. zs ! i"] by simp
    ultimately show "length ys \<le> length xs \<and> (\<forall>i < length ys. xs ! i = ys ! i)" by blast
  next
    assume "length ys \<le> length xs \<and> (\<forall>i < length ys. xs ! i = ys ! i)"
    then show "take (length ys) xs = ys" by (intro nth_equalityI) simp_all
  qed
  finally show "StartsWith s t \<longleftrightarrow> take (length ys) xs = ys" .
  show "EndsWith s t \<longleftrightarrow> length ys \<le> length xs \<and> drop (length xs - length ys) xs = ys"
  proof (cases "length ys \<le> length xs")
    case True
    then have shift: "nat (int (length xs) - int (length ys) + int i) = length xs - length ys + i" for i by simp
    have "EndsWith s t \<longleftrightarrow> (\<forall>i < length ys. xs ! (length xs - length ys + i) = ys ! i)"
      using True nth nth' by (auto simp: EndsWith_def d shift)
    moreover have "drop (length xs - length ys) xs = ys \<longleftrightarrow> (\<forall>i < length ys. xs ! (length xs - length ys + i) = ys ! i)"
      unfolding list_eq_iff_nth_eq using True by simp
    ultimately show ?thesis using True by blast
  qed (simp add: EndsWith_def d)
qed

end
