(* ===== verification/Broadcast_Shapes.thy ===== *)
theory Broadcast_Shapes
  imports Broadcast Tensor_Shape_Props
begin

text \<open>\<^verbatim>\<open>BCast::FromShape\<close> and \<^verbatim>\<open>BCast::ToShape\<close>: broadcasting of the shapes of \<open>Tensor_Shape\<close>.\<close>

definition FromShape :: "shape_rep \<Rightarrow> int list" where
  "FromShape s = map (\<lambda>i. dim_size False s i) [0..<nat (dims False s)]"

definition ToShape :: "nat list \<Rightarrow> int list \<Rightarrow> shape_rep outcome" where
  "ToShape mem vec = TensorShapeBase_dims False mem vec"

lemma FromShape_represents: "represents False s xs \<Longrightarrow> FromShape s = xs"
  using represents_dims [of False s xs] represents_sizes [of False s xs] represents_length [of False s xs]
  by (simp add: FromShape_def sizes_def)

text \<open>The sizes of a well-formed shape that is not empty meet the assumptions of the rule of broadcasting.\<close>

lemma represents_extent:
  assumes "represents False s xs" "0 \<notin> set xs"
  shows "\<forall>d \<in> set xs. 0 \<le> d" "extent xs < 2 ^ 63"
proof -
  have v: "valid_sizes False xs" using assms(1) by (rule represents_valid)
  then show nn: "\<forall>d \<in> set xs. 0 \<le> d" by (auto simp: valid_sizes_def size_ok_def)
  then have "\<forall>d \<in> set xs. 0 < d" using assms(2) by (metis order_le_less)
  then have "map (max 1) xs = xs" by (intro map_idI) fastforce
  then have "extent xs = num_elements s"
    using count_from_prod [of 1 xs "num_elements s"] nn assms(1) by (simp add: extent_def represents_def)
  then show "extent xs < 2 ^ 63" using represents_bound [OF assms(1)] by simp
qed

text \<open>
  The composition: the shapes of two tensors that are not empty give, when they can be broadcast, an output whose \<^verbatim>\<open>TensorShape\<close> has the
  sizes of the rule; it cannot be built only when it has too many dimensions or elements.
\<close>

lemma broadcast_shapes:
  assumes "represents False s sx" "represents False t sy" "0 \<notin> set sx" "0 \<notin> set sy" "length mem = 16"
    and b: "b = BCast (FromShape s) (FromShape t) fewer" "bc_valid b"
  shows "builds False (ToShape mem (output_shape b)) (output_shape b) \<and>
    output_shape b = map2 (\<lambda>x y. if x = 1 then y else x) (aligned (max (length sx) (length sy)) sx) (aligned (max (length sx) (length sy)) sy)"
proof -
  note ex = represents_extent [OF assms(1,3)] and ey = represents_extent [OF assms(2,4)]
  let ?n = "max (length sx) (length sy)"
  have b': "b = BCast sx sy fewer" using b(1) FromShape_represents assms(1,2) by simp
  have "\<forall>d \<in> set sx \<union> set sy. 0 \<le> d" using ex(1) ey(1) by blast
  then have os: "output_shape b = map2 (\<lambda>x y. if x = 1 then y else x) (aligned ?n sx) (aligned ?n sy)"
    using broadcast_shape [of sx sy] ex(2) ey(2) b' b(2) by simp
  have "callable_size False z" if "z \<in> set sx \<union> set sy \<union> {1}" for z
    using that represents_valid [OF assms(1)] represents_valid [OF assms(2)]
    by (auto simp: callable_size_def valid_sizes_def size_ok_def)
  moreover have "set (output_shape b) \<subseteq> set sx \<union> set sy \<union> {1}"
  proof
    fix z assume "z \<in> set (output_shape b)"
    then obtain x y where xy: "(x, y) \<in> set (zip (aligned ?n sx) (aligned ?n sy))" "z = x \<or> z = y" unfolding os by auto
    have "x \<in> set (aligned ?n sx)" "y \<in> set (aligned ?n sy)" using xy(1) by (rule set_zip_leftD, rule set_zip_rightD)
    then show "z \<in> set sx \<union> set sy \<union> {1}" using xy(2) by (auto simp: aligned_def)
  qed
  ultimately have "\<forall>z \<in> set (output_shape b). callable_size False z" by blast
  then show ?thesis using os TensorShapeBase_dims_builds [OF assms(5)] by (simp add: ToShape_def)
qed

end
