(* ===== verification/Allocator_Retry.thy ===== *)
theory Allocator_Retry
  imports Bfc_Properties
begin

text \<open>
  \<^verbatim>\<open>CR/allocator_retry.cc\<close> and the two methods of the BFC allocator that use it. The world that other threads change is
  explicit: \<open>now\<close> reads the clock in it, and \<open>wait k\<close> is all that happens until a wait of at most \<open>k\<close> milliseconds returns, because
  it was notified or because it timed out.
\<close>

subsection \<open>The loop\<close>

partial_function (option) retry_loop ::
  "(bool \<Rightarrow> 'w \<Rightarrow> (nat option \<times> 'w) outcome option) \<Rightarrow> ('w \<Rightarrow> nat) \<Rightarrow> (nat \<Rightarrow> 'w \<Rightarrow> 'w) \<Rightarrow> nat \<Rightarrow> nat option \<Rightarrow> 'w \<Rightarrow>
   (nat option \<times> 'w) outcome option"
where
  "retry_loop alloc_func now wait max_millis deadline w =
     (case alloc_func False w of
        None \<Rightarrow> None
      | Some Abort \<Rightarrow> Some Abort
      | Some (Done (Some p, w1)) \<Rightarrow> Some (Done (Some p, w1))
      | Some (Done (None, w1)) \<Rightarrow>
        let deadline_micros = (case deadline of None \<Rightarrow> wrap64 (now w1 + max_millis * 1000) | Some d \<Rightarrow> d) in
        if now w1 < deadline_micros
        then retry_loop alloc_func now wait max_millis (Some deadline_micros) (wait ((deadline_micros - now w1) div 1000) w1)
        else alloc_func True w1)"

definition AllocateRaw_retry ::
  "(bool \<Rightarrow> 'w \<Rightarrow> (nat option \<times> 'w) outcome option) \<Rightarrow> ('w \<Rightarrow> nat) \<Rightarrow> (nat \<Rightarrow> 'w \<Rightarrow> 'w) \<Rightarrow> nat \<Rightarrow> nat \<Rightarrow> 'w \<Rightarrow>
   (nat option \<times> 'w) outcome option"
where
  "AllocateRaw_retry alloc_func now wait max_millis num_bytes w =
     (if num_bytes = 0 then Some (Done (None, w)) else retry_loop alloc_func now wait max_millis None w)"

subsection \<open>The allocator\<close>

text \<open>The world of the allocator: its state, the sub-allocator's and the rest.\<close>

type_synonym ('s, 'e) bfc_world = "bfc \<times> 's \<times> 'e"

record 'e attributes =
  no_retry_on_failure :: bool
  freed_by_func :: "('e \<Rightarrow> nat) option"

definition freed_by_count :: "'e attributes \<Rightarrow> 'e \<Rightarrow> nat" where
  "freed_by_count attr e = (case freed_by_func attr of None \<Rightarrow> 0 | Some f \<Rightarrow> f e)"

definition attempt ::
  "'s sub_alloc \<Rightarrow> nat \<Rightarrow> nat \<Rightarrow> nat \<Rightarrow> 'e attributes \<Rightarrow> ('s, 'e) bfc_world \<Rightarrow> (nat option \<times> ('s, 'e) bfc_world) outcome option"
where
  "attempt alloc fuel alignment num_bytes attr w =
     (case w of (a, s, e) \<Rightarrow>
        map_option (\<lambda>r. obind r (\<lambda>(p, a', s'). Done (p, (a', s', e))))
          (AllocateRawInternal alloc fuel alignment num_bytes (freed_by_count attr e) a s))"

definition kMaxMillisToWait :: nat where
  "kMaxMillisToWait = 10000"

definition AllocateRawInternalWithRetry ::
  "'s sub_alloc \<Rightarrow> nat \<Rightarrow> ('e \<Rightarrow> nat) \<Rightarrow> (nat \<Rightarrow> ('s, 'e) bfc_world \<Rightarrow> ('s, 'e) bfc_world) \<Rightarrow> nat \<Rightarrow> nat \<Rightarrow> 'e attributes \<Rightarrow>
   ('s, 'e) bfc_world \<Rightarrow> (nat option \<times> ('s, 'e) bfc_world) outcome option"
where
  "AllocateRawInternalWithRetry alloc fuel now wait alignment num_bytes attr w =
     (case attempt alloc fuel alignment num_bytes attr w of
        None \<Rightarrow> None
      | Some Abort \<Rightarrow> Some Abort
      | Some (Done (Some p, w1)) \<Rightarrow> Some (Done (Some p, w1))
      | Some (Done (None, w1)) \<Rightarrow>
          AllocateRaw_retry (\<lambda>verbose. attempt alloc fuel alignment num_bytes attr) (\<lambda>(a, s, e). now e) wait kMaxMillisToWait num_bytes w1)"

definition BFC_AllocateRaw ::
  "'s sub_alloc \<Rightarrow> nat \<Rightarrow> ('e \<Rightarrow> nat) \<Rightarrow> (nat \<Rightarrow> ('s, 'e) bfc_world \<Rightarrow> ('s, 'e) bfc_world) \<Rightarrow> nat \<Rightarrow> nat \<Rightarrow> 'e attributes \<Rightarrow>
   ('s, 'e) bfc_world \<Rightarrow> (nat option \<times> ('s, 'e) bfc_world) outcome option"
where
  "BFC_AllocateRaw alloc fuel now wait alignment num_bytes attr w =
     (if no_retry_on_failure attr then attempt alloc fuel alignment num_bytes attr w
      else AllocateRawInternalWithRetry alloc fuel now wait alignment num_bytes attr w)"

subsection \<open>What the loop needs and gives\<close>

text \<open>
  The interface between the loop and what it retries: attempts end, and keep an invariant when they fail; so do the steps of other threads
  during a wait, attempts take no time and a wait does.
\<close>

locale retried_alloc =
  fixes alloc_func :: "bool \<Rightarrow> 'w \<Rightarrow> (nat option \<times> 'w) outcome option" and now :: "'w \<Rightarrow> nat" and wait :: "nat \<Rightarrow> 'w \<Rightarrow> 'w"
    and inv :: "'w \<Rightarrow> bool"
  assumes attempts_end: "inv w \<Longrightarrow> \<exists>p w'. alloc_func v w = Some (Done (p, w')) \<and> now w' = now w \<and> (p = None \<longrightarrow> inv w')"
    and waits_keep: "inv w \<Longrightarrow> inv (wait k w)"
    and waits_take_time: "inv w \<Longrightarrow> now w < now (wait k w)"
begin

text \<open>The state in which an attempt was made, after some that failed.\<close>

inductive attempted :: "'w \<Rightarrow> 'w \<Rightarrow> bool" where
  first: "attempted w w"
| again: "attempted w w1 \<Longrightarrow> alloc_func False w1 = Some (Done (None, w2)) \<Longrightarrow> attempted w (wait k w2)"
| last: "attempted w w1 \<Longrightarrow> alloc_func False w1 = Some (Done (None, w2)) \<Longrightarrow> attempted w w2"

lemma attempted_inv: "attempted w w' \<Longrightarrow> inv w \<Longrightarrow> inv w' \<and> now w \<le> now w'"
proof (induction rule: attempted.induct)
  case (again w w1 w2 k)
  then have i: "inv w2" "now w2 = now w1" "now w \<le> now w1" using attempts_end [of w1 False] by auto
  then show ?case using waits_keep waits_take_time [of w2 k] by auto
next
  case (last w w1 w2)
  then show ?case using attempts_end [of w1 False] by auto
qed simp

lemma retry_loop_deadline:
  assumes "inv w" "attempted w0 w"
  shows "\<exists>p w'. retry_loop alloc_func now wait ms (Some d) w = Some (Done (p, w')) \<and>
    (\<exists>v w1. attempted w0 w1 \<and> inv w1 \<and> alloc_func v w1 = Some (Done (p, w'))) \<and> (p = None \<longrightarrow> d \<le> now w')"
  using assms
proof (induction "d - now w" arbitrary: w rule: less_induct)
  case less
  obtain p w1 where a: "alloc_func False w = Some (Done (p, w1))" "p = None \<Longrightarrow> inv w1" "now w1 = now w"
    using attempts_end [OF less.prems(1)] by blast
  show ?case
  proof (cases p)
    case (Some q)
    then show ?thesis using a less.prems by (subst retry_loop.simps) auto
  next
    case None
    note inv = a(2) [OF None]
    show ?thesis
    proof (cases "now w1 < d")
      case True
      let ?w = "wait ((d - now w1) div 1000) w1"
      have "attempted w0 ?w" using attempted.again [OF less.prems(2)] a(1) None by blast
      moreover have "d - now ?w < d - now w" using waits_take_time [OF inv, of "(d - now w1) div 1000"] a(3) True by linarith
      ultimately show ?thesis using less.hyps [of ?w] waits_keep [OF inv] a(1) None True by (subst retry_loop.simps) simp
    next
      case False
      obtain r w2 where b: "alloc_func True w1 = Some (Done (r, w2))" "now w2 = now w1" using attempts_end [OF inv] by blast
      have "attempted w0 w1" using attempted.last [OF less.prems(2)] a(1) None by blast
      then show ?thesis using a b None False inv by (subst retry_loop.simps) auto
    qed
  qed
qed

lemma retry_loop_returns:
  assumes "inv w" "now w + ms * 1000 < 2 ^ 64"
  shows "\<exists>p w'. retry_loop alloc_func now wait ms None w = Some (Done (p, w')) \<and>
    (\<exists>v w1. attempted w w1 \<and> inv w1 \<and> alloc_func v w1 = Some (Done (p, w'))) \<and> (p = None \<longrightarrow> now w + ms * 1000 \<le> now w')"
proof -
  let ?d = "now w + ms * 1000"
  obtain p w1 where a: "alloc_func False w = Some (Done (p, w1))" "now w1 = now w" using attempts_end [OF assms(1)] by blast
  have "retry_loop alloc_func now wait ms None w = retry_loop alloc_func now wait ms (Some ?d) w"
    using a assms(2) by (subst (1 2) retry_loop.simps) (simp split: option.splits)
  then show ?thesis using retry_loop_deadline [OF assms(1) attempted.first, of ms ?d] by simp
qed

end

subsection \<open>Other threads\<close>

text \<open>
  What other threads do while one waits: a script of bursts of requests and releases, each with the time it takes. \<open>held\<close> are the
  addresses in use. When the script is at its end, waits time out.
\<close>

record surroundings =
  clock :: nat
  script :: "(nat \<times> client_op list) list"
  held :: "nat list"

definition others_run :: "'s sub_alloc \<Rightarrow> nat \<Rightarrow> nat \<Rightarrow> nat \<Rightarrow> ('s, surroundings) bfc_world \<Rightarrow> ('s, surroundings) bfc_world" where
  "others_run alloc fuel alignment k w =
     (case w of (a, s, e) \<Rightarrow>
        case script e of
          [] \<Rightarrow> (a, s, e\<lparr>clock := clock e + 1000 * k + 1\<rparr>)
        | (dt, ops) # rest \<Rightarrow>
            (case run_client (bfc_acquire alloc fuel alignment) bfc_release ops (a, s) (held e) of
               Abort \<Rightarrow> (a, s, e)
             | Done ((a', s'), held') \<Rightarrow> (a', s', e\<lparr>clock := clock e + dt + 1, script := rest, held := held'\<rparr>)))"

definition world_ok :: "('s, surroundings) bfc_world \<Rightarrow> bool" where
  "world_ok w \<longleftrightarrow> (case w of (a, s, e) \<Rightarrow>
     grown (a, s) \<and> distinct (held e) \<and> fst ` live a = set (held e) \<and>
     (\<forall>(dt, ops) \<in> set (script e). \<forall>n. Acquire n \<in> set ops \<longrightarrow> n \<le> 2 ^ 63 - 256))"

text \<open>One attempt on an allocator that has all of its memory.\<close>

lemma AllocateRawInternal_grown:
  assumes g: "grown (a, s)" and n: "n \<le> 2 ^ 63 - 256"
  shows "\<exists>r a'. AllocateRawInternal alloc fuel al n fb a s = Some (Done (r, a', s)) \<and> grown (a', s) \<and> allocated n r a a' \<and>
    (r = None \<longrightarrow> a' = a \<and> (0 < n \<longrightarrow>
      (\<forall>c \<in> set (chunks a). bin_num c \<noteq> None \<longrightarrow> csize c < RoundedBytes n \<or> (0 < fb \<and> fb < freed_count c))))"
proof (cases "n = 0")
  case True
  then show ?thesis using g by (auto simp: AllocateRawInternal_def allocated_def grown_def)
next
  case False
  have wf: "bfc_wf a" using g by (simp add: grown_def)
  then obtain fl where I: "bfc_inv a fl {}" by (auto simp: bfc_wf_def)
  have rb: "0 < RoundedBytes n" using RoundedBytes_ge [of n] n False by simp
  from False obtain r a1 where f: "FindChunkPtr (BinNumForSize (RoundedBytes n)) (RoundedBytes n) n fb a = Done (r, a1)"
     "allocated n r a a1" "r = None \<Longrightarrow> a1 = a"
    using FindChunkPtr_allocated [OF I _ n, of fb] by blast
  have ext: "Extend alloc fuel al (RoundedBytes n) a s = Some (Done (False, a, s))" for alloc
    using g rb by (simp add: Extend_eq [OF invD(10) [OF I]] grown_def)
  have eq: "AllocateRawInternal alloc fuel al n fb a s = Some (Done (r, a1, s))" for alloc
    using False f ext by (cases r) (simp_all add: AllocateRawInternal_def Let_def)
  have full: "\<forall>c \<in> set (chunks a). bin_num c \<noteq> None \<longrightarrow> csize c < RoundedBytes n \<or> (0 < fb \<and> fb < freed_count c)" if "r = None"
    using AllocateRawInternal_None(2) [OF wf _ n _ eq [of "\<lambda>s al n. (None, s)", unfolded that]] False by (simp add: sub_alloc_ok_def)
  have "grown (a1, s)"
    using g f(2) available_growth [OF growth_FindChunkPtr [OF f(1)]] by (simp add: grown_def allocated_def)
  then show ?thesis using eq f full by blast
qed

lemma attempt_ok:
  assumes "world_ok (a, s, e)" "n \<le> 2 ^ 63 - 256"
  shows "\<exists>r a'. attempt alloc fuel al n attr (a, s, e) = Some (Done (r, (a', s, e))) \<and> grown (a', s) \<and> allocated n r a a' \<and>
    (r = None \<longrightarrow> a' = a \<and> (0 < n \<longrightarrow> (\<forall>c \<in> set (chunks a). bin_num c \<noteq> None \<longrightarrow>
       csize c < RoundedBytes n \<or> (0 < freed_by_count attr e \<and> freed_by_count attr e < freed_count c))))"
proof -
  have "grown (a, s)" using assms(1) by (simp add: world_ok_def)
  from AllocateRawInternal_grown [OF this assms(2), of alloc fuel al "freed_by_count attr e"] show ?thesis
    by (auto simp: attempt_def)
qed

lemma others_run_ok:
  assumes "world_ok w"
  shows "world_ok (others_run alloc fuel al k w) \<and> (case w of (a, s, e) \<Rightarrow> clock e) < (case others_run alloc fuel al k w of (a, s, e) \<Rightarrow> clock e)"
proof -
  obtain a s e where w: "w = (a, s, e)" by (cases w)
  show ?thesis
  proof (cases "script e")
    case Nil
    then show ?thesis using assms by (simp add: w others_run_def world_ok_def)
  next
    case (Cons b rest)
    obtain dt ops where b: "b = (dt, ops)" by (cases b)
    have "bfc_client.holds (a, s) (held e)" "\<forall>n. Acquire n \<in> set ops \<longrightarrow> n \<le> 2 ^ 63 - 256"
      using assms Cons b by (auto simp: w world_ok_def bfc_client.holds_def)
    from bfc_client.run_client_safe [OF this, of alloc fuel al]
    obtain a' s' h where r: "run_client (bfc_acquire alloc fuel al) bfc_release ops (a, s) (held e) = Done ((a', s'), h)"
      "bfc_client.holds (a', s') h" by fastforce
    then show ?thesis using assms Cons b by (auto simp: w others_run_def world_ok_def bfc_client.holds_def)
  qed
qed

text \<open>Requests of a size that the allocator accepts; larger ones are left out.\<close>

definition sized_attempt ::
  "'s sub_alloc \<Rightarrow> nat \<Rightarrow> nat \<Rightarrow> nat \<Rightarrow> surroundings attributes \<Rightarrow> ('s, surroundings) bfc_world \<Rightarrow>
   (nat option \<times> ('s, surroundings) bfc_world) outcome option"
where
  "sized_attempt alloc fuel al n attr = attempt alloc fuel al (min n (2 ^ 63 - 256)) attr"

interpretation bfc_retry: retried_alloc "\<lambda>v. sized_attempt alloc fuel al n attr" "\<lambda>(a, s, e). clock e" "others_run alloc fuel al" world_ok
  for alloc fuel al n attr
proof (unfold_locales, goal_cases)
  case (1 w v)
  obtain a s e where w: "w = (a, s, e)" by (cases w)
  show ?case using attempt_ok [of a s e "min n (2 ^ 63 - 256)" alloc fuel al attr] 1 by (auto simp: w sized_attempt_def)
next
  case (2 w k)
  then show ?case using others_run_ok by blast
next
  case (3 w k)
  then show ?case using others_run_ok [of w alloc fuel al k] by simp
qed


definition demo_surroundings :: surroundings where
  "demo_surroundings = \<lparr>clock = 7, script = [(5, [Release 0]), (2000, [Acquire 300])], held = [4096]\<rparr>"

definition demo_attributes :: "surroundings attributes" where
  "demo_attributes = \<lparr>no_retry_on_failure = False, freed_by_func = None\<rparr>"


end
