(* ===== verification/Pool_Allocator.thy ===== *)
theory Pool_Allocator
  imports Prelude
begin

text \<open>
  \<^verbatim>\<open>CR/pool_allocator.cc\<close>: freed chunks are kept for reuse, up to a number, and the least recently freed goes back to the allocator
  below. Records of the pooled chunks are in a doubly linked list through their own pointers and in a multimap by size. Records live
  in a heap of their own, \<open>records\<close>; \<open>memory\<close> holds the machine words that the allocator writes before the address it returns. The
  allocator below, \<open>alloc\<close> and \<open>free\<close> with its state \<open>below\<close>, the rounding of sizes and the floating-point test of \<^verbatim>\<open>EvictOne\<close> are
  parameters.
\<close>

subsection \<open>State\<close>

record ptr_record =
  r_ptr :: nat
  r_bytes :: nat
  r_prev :: "nat option"
  r_next :: "nat option"

record 'a pool_state =
  has_size_limit :: bool
  auto_resize :: bool
  pool_size_limit :: nat
  pool :: "(nat \<times> nat) list"
  records :: "nat \<Rightarrow> ptr_record option"
  next_record :: nat
  lru_head :: "nat option"
  lru_tail :: "nat option"
  get_from_pool_count :: int
  put_count :: int
  allocated_count :: int
  evicted_count :: int
  memory :: "nat \<Rightarrow> nat"
  below :: 'a

text \<open>The allocator below, the rounder, and the two decisions of \<^verbatim>\<open>EvictOne\<close> that compute with doubles.\<close>

record 'a pool_env =
  Alloc :: "nat \<Rightarrow> nat \<Rightarrow> 'a \<Rightarrow> nat option \<times> 'a"
  Free :: "nat \<Rightarrow> nat \<Rightarrow> 'a \<Rightarrow> 'a"
  RoundUp :: "nat \<Rightarrow> nat"
  rates_high :: "int \<Rightarrow> int \<Rightarrow> int \<Rightarrow> int \<Rightarrow> bool"
  increased :: "nat \<Rightarrow> nat"

definition PoolAllocator :: "nat \<Rightarrow> bool \<Rightarrow> (nat \<Rightarrow> nat) \<Rightarrow> 'a \<Rightarrow> 'a pool_state outcome" where
  "PoolAllocator limit resize mem b =
     (if resize \<and> \<not> 0 < limit then Abort
      else Done \<lparr>has_size_limit = (limit > 0), auto_resize = resize, pool_size_limit = limit, pool = [], records = (\<lambda>_. None), next_record = 0,
             lru_head = None, lru_tail = None, get_from_pool_count = 0, put_count = 0, allocated_count = 0, evicted_count = 0,
             memory = mem, below = b\<rparr>)"

subsection \<open>Chunks\<close>

definition kPoolAlignment :: nat where
  "kPoolAlignment = 16"

text \<open>\<^verbatim>\<open>ChunkPrefix\<close> is two words: the size at the address of the chunk, its own address eight bytes on.\<close>

definition PrepareChunk :: "nat \<Rightarrow> nat \<Rightarrow> nat \<Rightarrow> (nat \<Rightarrow> nat) \<Rightarrow> (nat \<times> (nat \<Rightarrow> nat)) outcome" where
  "PrepareChunk chunk alignment num_bytes mem =
     (let mem1 = mem(chunk := num_bytes, chunk + 8 := chunk); user = chunk + 16;
          (user1, mem2) =
            (if alignment > kPoolAlignment
             then let aligned = wrap64 (user + alignment); u = aligned AND (2 ^ 64 - alignment) in (u, mem1(u - 8 := chunk))
             else (user, mem1))
      in if \<not> chunk + 16 \<le> user1 then Abort else Done (user1, mem2))"

definition FindPrefix :: "(nat \<Rightarrow> nat) \<Rightarrow> nat \<Rightarrow> nat" where
  "FindPrefix mem user_ptr = mem (user_ptr - 8)"

subsection \<open>The list of records\<close>

text \<open>A write through a null or dangling pointer is \<open>Abort\<close>.\<close>

definition upd_record :: "nat \<Rightarrow> (ptr_record \<Rightarrow> ptr_record) \<Rightarrow> 'a pool_state \<Rightarrow> 'a pool_state outcome" where
  "upd_record i f p = (case records p i of None \<Rightarrow> Abort | Some r \<Rightarrow> Done (p\<lparr>records := (records p)(i \<mapsto> f r)\<rparr>))"

definition RemoveFromList :: "nat \<Rightarrow> 'a pool_state \<Rightarrow> 'a pool_state outcome" where
  "RemoveFromList pr p =
     (case records p pr of
        None \<Rightarrow> Abort
      | Some r \<Rightarrow>
        obind (case r_prev r of
                 None \<Rightarrow> Done (p\<lparr>lru_head := None\<rparr>)
               | Some q \<Rightarrow> upd_record q (\<lambda>x. x\<lparr>r_next := r_next r\<rparr>) p)
          (\<lambda>p1. case r_next r of
                  None \<Rightarrow> Done (p1\<lparr>lru_tail := r_prev r\<rparr>)
                | Some n \<Rightarrow> obind (upd_record n (\<lambda>x. x\<lparr>r_prev := r_prev r\<rparr>) p1)
                    (\<lambda>p2. Done (if lru_head p2 = None then p2\<lparr>lru_head := Some n\<rparr> else p2))))"

definition AddToList :: "nat \<Rightarrow> 'a pool_state \<Rightarrow> 'a pool_state outcome" where
  "AddToList pr p =
     obind (upd_record pr (\<lambda>r. r\<lparr>r_prev := None\<rparr>) p) (\<lambda>p1.
       obind (case lru_head p1 of
                None \<Rightarrow> if lru_tail p1 \<noteq> None then Abort
                        else upd_record pr (\<lambda>r. r\<lparr>r_next := None\<rparr>) (p1\<lparr>lru_tail := Some pr\<rparr>)
              | Some h \<Rightarrow> obind (upd_record pr (\<lambda>r. r\<lparr>r_next := Some h\<rparr>) p1) (upd_record h (\<lambda>r. r\<lparr>r_prev := Some pr\<rparr>)))
         (\<lambda>p2. Done (p2\<lparr>lru_head := Some pr\<rparr>)))"

subsection \<open>The multimap\<close>

text \<open>\<^verbatim>\<open>std::multimap\<close> as a list sorted by key; an element goes behind those with its key, and \<^verbatim>\<open>find\<close> gives the first of them.\<close>

fun mm_insert :: "nat \<times> nat \<Rightarrow> (nat \<times> nat) list \<Rightarrow> (nat \<times> nat) list" where
  "mm_insert e [] = [e]"
| "mm_insert e (x # xs) = (if fst x \<le> fst e then x # mm_insert e xs else e # x # xs)"

text \<open>The loop of \<^verbatim>\<open>EvictOne\<close> from the first element with the key to the element of the record, which it erases.\<close>

fun erase_from :: "nat \<Rightarrow> (nat \<times> nat) list \<Rightarrow> (nat \<times> nat) list option" where
  "erase_from pr [] = None"
| "erase_from pr (x # xs) = (if snd x = pr then Some xs else map_option ((#) x) (erase_from pr xs))"

definition find_erase :: "nat \<Rightarrow> nat \<Rightarrow> (nat \<times> nat) list \<Rightarrow> (nat \<times> nat) list option" where
  "find_erase key pr m =
     map_option ((@) (takeWhile (\<lambda>x. fst x \<noteq> key) m)) (erase_from pr (dropWhile (\<lambda>x. fst x \<noteq> key) m))"

subsection \<open>Operations\<close>

definition kCheckInterval :: int where
  "kCheckInterval = 1000"

definition kMinPoolSize :: nat where
  "kMinPoolSize = 100"

text \<open>The end of \<^verbatim>\<open>EvictOne\<close>: now and then the limit is raised.\<close>

definition maybe_resize :: "'a pool_env \<Rightarrow> 'a pool_state \<Rightarrow> 'a pool_state" where
  "maybe_resize E p =
     (if evicted_count p mod kCheckInterval = 0 \<and> auto_resize p \<and>
         rates_high E (evicted_count p) (put_count p) (allocated_count p) (allocated_count p + get_from_pool_count p)
      then p\<lparr>pool_size_limit := (if pool_size_limit p < kMinPoolSize then kMinPoolSize else increased E (pool_size_limit p)),
             put_count := 0, allocated_count := 0, evicted_count := 0, get_from_pool_count := 0\<rparr>
      else p)"

definition EvictOne :: "'a pool_env \<Rightarrow> 'a pool_state \<Rightarrow> 'a pool_state outcome" where
  "EvictOne E p =
     (case lru_tail p of
        None \<Rightarrow> Abort
      | Some prec \<Rightarrow>
        obind (RemoveFromList prec p) (\<lambda>p1.
          case records p1 prec of
            None \<Rightarrow> Abort
          | Some r \<Rightarrow>
            (case find_erase (r_bytes r) prec (pool p1) of
               None \<Rightarrow> Abort
             | Some m \<Rightarrow>
               Done (maybe_resize E (p1\<lparr>pool := m, below := Free E (r_ptr r) (r_bytes r) (below p1), records := (records p1)(prec := None),
                 evicted_count := evicted_count p1 + 1\<rparr>)))))"

lemma erase_from_length: "erase_from pr m = Some m' \<Longrightarrow> length m = Suc (length m')"
  by (induction m arbitrary: m') (auto split: if_splits)

lemma find_erase_length: "find_erase key pr m = Some m' \<Longrightarrow> length m = Suc (length m')"
  by (auto simp: find_erase_def dest!: erase_from_length)
    (metis add_Suc_right length_append takeWhile_dropWhile_id)

lemma upd_record_pool: "upd_record i f p = Done p' \<Longrightarrow> pool p' = pool p"
  by (auto simp: upd_record_def split: option.splits)

lemma RemoveFromList_pool: "RemoveFromList i p = Done p' \<Longrightarrow> pool p' = pool p"
  by (auto simp: RemoveFromList_def obind_Done_iff dest!: upd_record_pool split: option.splits if_splits)

lemma maybe_resize_pool [simp]: "pool (maybe_resize E p) = pool p"
  by (simp add: maybe_resize_def)

lemma EvictOne_elim:
  assumes "EvictOne E p = Done p'"
  obtains prec p1 r m where "lru_tail p = Some prec" "RemoveFromList prec p = Done p1" "records p1 prec = Some r"
    "find_erase (r_bytes r) prec (pool p1) = Some m"
    "p' = maybe_resize E (p1\<lparr>pool := m, below := Free E (r_ptr r) (r_bytes r) (below p1), records := (records p1)(prec := None),
       evicted_count := evicted_count p1 + 1\<rparr>)"
proof -
  obtain prec where t: "lru_tail p = Some prec" using assms by (cases "lru_tail p") (simp_all add: EvictOne_def)
  obtain p1 where p1: "RemoveFromList prec p = Done p1" using assms t by (cases "RemoveFromList prec p") (simp_all add: EvictOne_def)
  obtain r where r: "records p1 prec = Some r" using assms t p1 by (cases "records p1 prec") (simp_all add: EvictOne_def)
  obtain m where "find_erase (r_bytes r) prec (pool p1) = Some m"
    using assms t p1 r by (cases "find_erase (r_bytes r) prec (pool p1)") (simp_all add: EvictOne_def)
  then show thesis using that t p1 r assms by (simp add: EvictOne_def)
qed

lemma EvictOne_pool:
  assumes "EvictOne E p = Done p'"
  shows "length (pool p) = Suc (length (pool p'))"
  using assms by (rule EvictOne_elim) (auto dest!: RemoveFromList_pool find_erase_length)

function evict_loop :: "'a pool_env \<Rightarrow> 'a pool_state \<Rightarrow> 'a pool_state outcome" where
  "evict_loop E p =
     (if length (pool p) \<ge> pool_size_limit p then (case EvictOne E p of Abort \<Rightarrow> Abort | Done p1 \<Rightarrow> evict_loop E p1) else Done p)"
  by pat_completeness auto
termination
  by (relation "measure (\<lambda>(E, p). length (pool p))") (auto dest: EvictOne_pool)

declare evict_loop.simps [simp del]

definition get_from_pool :: "nat \<Rightarrow> 'a pool_state \<Rightarrow> (nat option \<times> 'a pool_state) outcome" where
  "get_from_pool num_bytes p =
     (case dropWhile (\<lambda>x. fst x \<noteq> num_bytes) (pool p) of
        [] \<Rightarrow> Done (None, p\<lparr>allocated_count := allocated_count p + 1\<rparr>)
      | (k, pr) # rest \<Rightarrow>
        obind (RemoveFromList pr (p\<lparr>get_from_pool_count := get_from_pool_count p + 1\<rparr>)) (\<lambda>p1.
          Done (Some pr, p1\<lparr>pool := takeWhile (\<lambda>x. fst x \<noteq> num_bytes) (pool p1) @ rest\<rparr>)))"

text \<open>\<^verbatim>\<open>PrepareChunk\<close> of the null pointer, when the allocator below has no memory, writes to address 0.\<close>

definition AllocateRaw :: "'a pool_env \<Rightarrow> nat \<Rightarrow> nat \<Rightarrow> 'a pool_state \<Rightarrow> (nat option \<times> 'a pool_state) outcome" where
  "AllocateRaw E alignment num_bytes0 p =
     (if num_bytes0 = 0 then Done (None, p)
      else
        let num_bytes = RoundUp E (wrap64 ((if alignment > kPoolAlignment then wrap64 (num_bytes0 + alignment) else num_bytes0) + 16)) in
        obind (if has_size_limit p then get_from_pool num_bytes p else Done (None, p)) (\<lambda>(pr, p1).
          case pr of
            Some i \<Rightarrow>
              (case records p1 i of
                 None \<Rightarrow> Abort
               | Some r \<Rightarrow>
                 obind (PrepareChunk (r_ptr r) alignment num_bytes (memory p1)) (\<lambda>(u, m).
                   Done (Some u, p1\<lparr>records := (records p1)(i := None), memory := m\<rparr>)))
          | None \<Rightarrow>
              (case Alloc E kPoolAlignment num_bytes (below p1) of
                 (None, b) \<Rightarrow> Abort
               | (Some c, b) \<Rightarrow>
                 obind (PrepareChunk c alignment num_bytes (memory p1)) (\<lambda>(u, m). Done (Some u, p1\<lparr>below := b, memory := m\<rparr>)))))"

definition DeallocateRaw :: "'a pool_env \<Rightarrow> nat option \<Rightarrow> 'a pool_state \<Rightarrow> 'a pool_state outcome" where
  "DeallocateRaw E ptr p =
     (case ptr of
        None \<Rightarrow> Done p
      | Some u \<Rightarrow>
        let cp = FindPrefix (memory p) u in
        if \<not> cp \<le> u then Abort
        else if \<not> has_size_limit p \<and> \<not> auto_resize p then Done (p\<lparr>below := Free E cp (memory p cp) (below p)\<rparr>)
        else obind (evict_loop E (p\<lparr>put_count := put_count p + 1\<rparr>)) (\<lambda>p1.
               let i = next_record p1; n = memory p1 cp;
                   p2 = p1\<lparr>records := (records p1)(i \<mapsto> \<lparr>r_ptr = cp, r_bytes = n, r_prev = None, r_next = None\<rparr>), next_record := i + 1\<rparr> in
               obind (AddToList i p2) (\<lambda>p3. Done (p3\<lparr>pool := mm_insert (n, i) (pool p3)\<rparr>))))"

fun free_all :: "'a pool_env \<Rightarrow> (nat \<times> nat) list \<Rightarrow> 'a pool_state \<Rightarrow> 'a pool_state outcome" where
  "free_all E [] p = Done p"
| "free_all E ((k, pr) # m) p =
     (case records p pr of
        None \<Rightarrow> Abort
      | Some r \<Rightarrow> free_all E m (p\<lparr>below := Free E (r_ptr r) (r_bytes r) (below p), records := (records p)(pr := None)\<rparr>))"

definition Clear_pool :: "'a pool_env \<Rightarrow> 'a pool_state \<Rightarrow> 'a pool_state outcome" where
  "Clear_pool E p =
     (if has_size_limit p
      then obind (free_all E (pool p) p) (\<lambda>p1.
             Done (p1\<lparr>pool := [], get_from_pool_count := 0, put_count := 0, allocated_count := 0, evicted_count := 0,
                      lru_head := None, lru_tail := None\<rparr>))
      else Done p)"

subsection \<open>Rounding\<close>

definition NoopRounder :: "nat \<Rightarrow> nat" where
  "NoopRounder num_bytes = num_bytes"

end
