(* ===== verification/Pool_Correct.thy ===== *)
theory Pool_Correct
  imports Pool_Allocator
begin

text \<open>
  The pool of \<open>Pool_Allocator\<close> implements a list of chunks, most recently freed first. The pointers of the records are a doubly
  linked list of them, the multimap has each of them under its size, and the heap has no other record.
\<close>

subsection \<open>Doubly linked lists\<close>

definition first_of :: "nat list \<Rightarrow> nat option \<Rightarrow> nat option" where
  "first_of xs n = (case xs of [] \<Rightarrow> n | x # _ \<Rightarrow> Some x)"

definition last_of :: "nat list \<Rightarrow> nat option \<Rightarrow> nat option" where
  "last_of xs q = (if xs = [] then q else Some (last xs))"

lemma first_last_simps [simp]:
  "first_of [] n = n" "first_of (x # xs) n = Some x" "first_of (xs @ [x]) n = first_of xs (Some x)"
  "last_of [] q = q" "last_of (xs @ [x]) q = Some x" "last_of (x # xs) q = last_of xs (Some x)"
  "last_of (xs @ y # ys) q = last_of ys (Some y)"
  by (auto simp: first_of_def last_of_def split: list.splits)

fun chain :: "(nat \<Rightarrow> ptr_record option) \<Rightarrow> nat option \<Rightarrow> nat list \<Rightarrow> nat option \<Rightarrow> bool" where
  "chain R q [] n \<longleftrightarrow> True"
| "chain R q (i # is) n \<longleftrightarrow>
     (\<exists>r. R i = Some r \<and> r_prev r = q \<and> r_next r = first_of is n) \<and> chain R (Some i) is n"

lemma chain_append: "chain R q (xs @ ys) n \<longleftrightarrow> chain R q xs (first_of ys n) \<and> chain R (last_of xs q) ys n"
proof (induction xs arbitrary: q)
  case (Cons x xs)
  have "first_of (xs @ ys) n = first_of xs (first_of ys n)" by (cases xs) simp_all
  then show ?case using Cons by auto
qed simp

lemma chain_cong: "\<forall>i \<in> set xs. R i = R' i \<Longrightarrow> chain R q xs n = chain R' q xs n"
  by (induction xs arbitrary: q) auto

lemma chain_fun_upd: "i \<notin> set xs \<Longrightarrow> chain (R(i := r)) q xs n = chain R q xs n"
  by (rule chain_cong) auto

lemma chain_dom: "chain R q xs n \<Longrightarrow> i \<in> set xs \<Longrightarrow> \<exists>r. R i = Some r"
  by (induction xs arbitrary: q) auto

lemma chain_set_next:
  "chain R q (xs @ [x]) n \<Longrightarrow> x \<notin> set xs \<Longrightarrow> R x = Some r \<Longrightarrow> chain (R(x \<mapsto> r\<lparr>r_next := m\<rparr>)) q (xs @ [x]) m"
  by (auto simp: chain_append chain_fun_upd)

lemma chain_set_prev:
  "chain R q (y # ys) n \<Longrightarrow> y \<notin> set ys \<Longrightarrow> R y = Some r \<Longrightarrow> chain (R(y \<mapsto> r\<lparr>r_prev := q'\<rparr>)) q' (y # ys) n"
  by (auto simp: chain_fun_upd)

definition data :: "(nat \<Rightarrow> ptr_record option) \<Rightarrow> nat \<Rightarrow> (nat \<times> nat) option" where
  "data R i = map_option (\<lambda>r. (r_ptr r, r_bytes r)) (R i)"

definition list_ok :: "'a pool_state \<Rightarrow> nat list \<Rightarrow> bool" where
  "list_ok p ids \<longleftrightarrow> chain (records p) None ids None \<and> lru_head p = first_of ids None \<and> lru_tail p = last_of ids None \<and> distinct ids"

lemma RemoveFromList_ok:
  assumes "list_ok p (xs @ i # ys)"
  shows "\<exists>R h t. RemoveFromList i p = Done (p\<lparr>records := R, lru_head := h, lru_tail := t\<rparr>) \<and>
    list_ok (p\<lparr>records := R, lru_head := h, lru_tail := t\<rparr>) (xs @ ys) \<and> data R = data (records p) \<and> R i = records p i"
proof -
  have d: "distinct xs" "distinct ys" "i \<notin> set xs" "i \<notin> set ys" "set xs \<inter> set ys = {}" using assms by (auto simp: list_ok_def)
  have c: "chain (records p) None xs (Some i)" "chain (records p) (Some i) ys None"
    and head: "lru_head p = first_of xs (Some i)" and tail: "lru_tail p = last_of ys (Some i)"
    using assms by (auto simp: list_ok_def chain_append first_of_def split: list.splits)
  obtain r where r: "records p i = Some r" "r_prev r = last_of xs None" "r_next r = first_of ys None"
    using assms by (auto simp: list_ok_def chain_append)
  have result: ?thesis
    if "RemoveFromList i p = Done (p\<lparr>records := R, lru_head := h, lru_tail := t\<rparr>)" "chain R None (xs @ ys) None" "h = first_of (xs @ ys) None"
      "t = last_of (xs @ ys) None" "data R = data (records p)" "R i = records p i" for R h t
    using that d by (intro exI [of _ R] exI [of _ h] exI [of _ t]) (simp add: list_ok_def)
  show ?thesis
  proof (cases xs rule: rev_cases)
    case Nil
    show ?thesis
    proof (cases ys)
      case (Cons y ys')
      obtain ry where ry: "records p y = Some ry" using c(2) Cons by auto
      let ?R = "(records p)(y \<mapsto> ry\<lparr>r_prev := None\<rparr>)"
      have "RemoveFromList i p = Done (p\<lparr>records := ?R, lru_head := Some y, lru_tail := lru_tail p\<rparr>)"
        using r ry Nil Cons by (simp add: RemoveFromList_def upd_record_def)
      moreover have "chain ?R None (y # ys') None" using chain_set_prev [of _ _ y ys'] c(2) d(2) ry Cons by simp
      moreover have "data ?R = data (records p)" using ry by (auto simp: data_def)
      moreover have "?R i = records p i" using d(4) Cons by auto
      ultimately show ?thesis using Nil Cons tail by (intro result [where R = ?R and h = "Some y" and t = "lru_tail p"]) simp_all
    qed (use r Nil in \<open>auto simp: RemoveFromList_def list_ok_def intro!: exI [of _ "records p"]\<close>)
  next
    case xs: (snoc xs' x)
    obtain rx where rx: "records p x = Some rx" using c(1) xs by (auto simp: chain_append)
    let ?R = "(records p)(x \<mapsto> rx\<lparr>r_next := r_next r\<rparr>)"
    have cx: "chain ?R None (xs' @ [x]) (r_next r)" using chain_set_next c(1) d(1) rx xs by auto
    have head': "lru_head p \<noteq> None" using head xs by (cases xs') auto
    have dx: "data ?R = data (records p)" using rx by (auto simp: data_def)
    have ix: "?R i = records p i" using d(3) xs by auto
    show ?thesis
    proof (cases ys)
      case Nil
      have "RemoveFromList i p = Done (p\<lparr>records := ?R, lru_head := lru_head p, lru_tail := Some x\<rparr>)"
        using r rx xs Nil by (simp add: RemoveFromList_def upd_record_def)
      moreover have "lru_head p = first_of (xs @ ys) None" using head xs Nil by (cases xs') simp_all
      moreover have "chain ?R None (xs @ ys) None" using cx r(3) xs Nil by simp
      ultimately show ?thesis using dx ix xs Nil by (intro result [where R = ?R and h = "lru_head p" and t = "Some x"]) simp_all
    next
      case (Cons y ys')
      obtain ry where ry: "records p y = Some ry" using c(2) Cons by auto
      let ?R2 = "?R(y \<mapsto> ry\<lparr>r_prev := Some x\<rparr>)"
      have ne: "y \<noteq> x" "y \<noteq> i" "x \<noteq> i" using d xs Cons by auto
      have "RemoveFromList i p = Done (p\<lparr>records := ?R2, lru_head := lru_head p, lru_tail := lru_tail p\<rparr>)"
        using r rx ry xs Cons ne head' by (simp add: RemoveFromList_def upd_record_def)
      moreover have "chain ?R2 None (xs' @ [x]) (Some y)" using cx chain_fun_upd [of y "xs' @ [x]" ?R] r(3) d xs Cons by auto
      moreover have "chain ?R2 (Some x) (y # ys') None"
        using chain_set_prev [of ?R "Some i" y ys' None ry "Some x"] chain_fun_upd [of x "y # ys'" "records p"] c(2) d ry ne xs Cons by auto
      moreover have "data ?R2 = data (records p)" using rx ry by (auto simp: data_def)
      moreover have "?R2 i = records p i" using ne by simp
      moreover have "lru_head p = first_of (xs @ ys) None" using head xs Cons by (cases xs') simp_all
      ultimately show ?thesis using tail xs Cons by (intro result [where R = ?R2 and h = "lru_head p" and t = "lru_tail p"]) (simp_all add: chain_append del: fun_upd_apply)
    qed
  qed
qed

lemma AddToList_ok:
  assumes "list_ok p ids" "i \<notin> set ids" "records p i = Some r"
  shows "\<exists>R t. AddToList i p = Done (p\<lparr>records := R, lru_head := Some i, lru_tail := t\<rparr>) \<and>
    list_ok (p\<lparr>records := R, lru_head := Some i, lru_tail := t\<rparr>) (i # ids) \<and> data R = data (records p)"
proof (cases ids)
  case Nil
  let ?R = "(records p)(i \<mapsto> r\<lparr>r_prev := None, r_next := None\<rparr>)"
  have "AddToList i p = Done (p\<lparr>records := ?R, lru_head := Some i, lru_tail := Some i\<rparr>)"
    using assms Nil by (simp add: AddToList_def upd_record_def list_ok_def)
  moreover have "data ?R = data (records p)" using assms(3) by (auto simp: data_def)
  ultimately show ?thesis using Nil by (intro exI [of _ ?R] exI [of _ "Some i"]) (simp add: list_ok_def)
next
  case (Cons h ids')
  obtain rh where h: "records p h = Some rh" using assms(1) Cons by (auto simp: list_ok_def)
  let ?R1 = "(records p)(i \<mapsto> r\<lparr>r_prev := None, r_next := Some h\<rparr>)"
  let ?R = "?R1(h \<mapsto> rh\<lparr>r_prev := Some i\<rparr>)"
  have ne: "h \<noteq> i" "i \<notin> set ids'" "h \<notin> set ids'" using assms(1,2) Cons by (auto simp: list_ok_def)
  have "AddToList i p = Done (p\<lparr>records := ?R, lru_head := Some i, lru_tail := lru_tail p\<rparr>)"
    using assms Cons h ne by (simp add: AddToList_def upd_record_def list_ok_def)
  moreover have "data ?R = data (records p)" using assms(3) h by (auto simp: data_def)
  moreover have "chain ?R (Some i) (h # ids') None"
  proof (rule chain_set_prev)
    show "chain ?R1 None (h # ids') None" using assms(1,2) Cons by (subst chain_fun_upd) (simp_all only: list_ok_def not_False_eq_True)
  qed (use h ne in simp_all)
  ultimately show ?thesis using assms(1) Cons ne
    by (intro exI [of _ ?R] exI [of _ "lru_tail p"]) (simp add: list_ok_def del: fun_upd_apply, simp)
qed

subsection \<open>The invariant of the pool\<close>

definition cell :: "'a pool_state \<Rightarrow> nat \<Rightarrow> nat \<times> nat" where
  "cell p i = the (data (records p) i)"

definition lru :: "'a pool_state \<Rightarrow> nat list \<Rightarrow> (nat \<times> nat) list" where
  "lru p ids = map (cell p) ids"

definition pool_inv :: "'a pool_state \<Rightarrow> nat list \<Rightarrow> bool" where
  "pool_inv p ids \<longleftrightarrow> list_ok p ids \<and> dom (records p) = set ids \<and> (\<forall>i \<in> set ids. i < next_record p) \<and>
     mset (pool p) = mset (map (\<lambda>i. (snd (cell p i), i)) ids)"

lemma pool_inv_size: "pool_inv p ids \<Longrightarrow> length (pool p) = length ids"
  by (metis pool_inv_def length_map size_mset)

lemma pool_inv_distinct: "pool_inv p ids \<Longrightarrow> distinct (map snd (pool p))"
proof -
  assume p: "pool_inv p ids"
  then have "mset (map snd (pool p)) = mset ids" by (simp add: pool_inv_def image_mset.compositionality comp_def)
  then show ?thesis using p by (metis list_ok_def mset_eq_imp_distinct_iff pool_inv_def)
qed

lemma pool_inv_entry: "pool_inv p ids \<Longrightarrow> (k, i) \<in> set (pool p) \<longleftrightarrow> i \<in> set ids \<and> k = snd (cell p i)"
proof -
  assume "pool_inv p ids"
  then have "set (pool p) = set (map (\<lambda>i. (snd (cell p i), i)) ids)" by (metis pool_inv_def set_mset_mset)
  then show ?thesis by auto
qed

lemma erase_from_ok:
  "(k, i) \<in> set m \<Longrightarrow> distinct (map snd m) \<Longrightarrow> \<exists>m'. erase_from i m = Some m' \<and> mset m = {#(k, i)#} + mset m'"
proof (induction m)
  case (Cons x m)
  show ?case
  proof (cases "snd x = i")
    case True
    then have "x = (k, i)" using Cons.prems by (force simp: image_iff)
    then show ?thesis by simp
  qed (use Cons in auto)
qed simp

lemma find_erase_ok:
  assumes "(k, i) \<in> set m" "distinct (map snd m)"
  shows "\<exists>m'. find_erase k i m = Some m' \<and> mset m = {#(k, i)#} + mset m'"
proof -
  let ?P = "\<lambda>x. fst x \<noteq> k"
  have split: "m = takeWhile ?P m @ dropWhile ?P m" by simp
  have "(k, i) \<notin> set (takeWhile ?P m)" by (auto dest: set_takeWhileD)
  then have "(k, i) \<in> set (dropWhile ?P m)" using assms(1) split by (metis Un_iff set_append)
  moreover have "distinct (map snd (dropWhile ?P m))" using assms(2) split by (metis distinct_append map_append)
  ultimately obtain m' where "erase_from i (dropWhile ?P m) = Some m'" "mset (dropWhile ?P m) = {#(k, i)#} + mset m'"
    using erase_from_ok by blast
  moreover have "mset m = mset (takeWhile ?P m) + mset (dropWhile ?P m)" by (metis mset_append takeWhile_dropWhile_id)
  ultimately show ?thesis by (auto simp: find_erase_def)
qed

lemma mset_mm_insert: "mset (mm_insert e m) = {#e#} + mset m"
  by (induction m) auto

lemma dom_data: "dom R = {i. data R i \<noteq> None}"
  by (auto simp: data_def)

text \<open>Taking a record out of the list, the multimap and the heap.\<close>

lemma pool_inv_remove:
  assumes "pool_inv p (xs @ i # ys)" "list_ok p' (xs @ ys)" "data R = data (records p)" "records p' = R(i := None)"
    "next_record p' = next_record p" "mset (pool p) = {#(snd (cell p i), i)#} + mset (pool p')"
  shows "pool_inv p' (xs @ ys)" "lru p' (xs @ ys) = lru p xs @ lru p ys"
proof -
  have i: "i \<notin> set (xs @ ys)" "distinct (xs @ i # ys)" using assms(1) by (auto simp: pool_inv_def list_ok_def)
  have dom: "dom R = dom (records p)" using assms(3) by (simp add: dom_data)
  have cell: "cell p' j = cell p j" if "j \<in> set (xs @ ys)" for j
    using that i(1) fun_cong [OF assms(3), of j] by (auto simp: cell_def data_def assms(4))
  have m: "mset (pool p) = mset (map (\<lambda>i. (snd (cell p i), i)) (xs @ i # ys))" using assms(1) by (simp add: pool_inv_def)
  then have "mset (pool p') = mset (map (\<lambda>i. (snd (cell p i), i)) (xs @ ys))" using assms(6) by simp
  also have "\<dots> = mset (map (\<lambda>i. (snd (cell p' i), i)) (xs @ ys))" using cell by (intro arg_cong [of _ _ mset] map_cong) simp_all
  finally show "pool_inv p' (xs @ ys)"
    using assms(1,2,5) i dom unfolding pool_inv_def assms(4) by auto
  show "lru p' (xs @ ys) = lru p xs @ lru p ys" using cell by (simp add: lru_def)
qed

subsection \<open>Eviction\<close>

text \<open>What an eviction does not touch.\<close>

definition same_rest :: "'a pool_state \<Rightarrow> 'a pool_state \<Rightarrow> bool" where
  "same_rest p p' \<longleftrightarrow> has_size_limit p' = has_size_limit p \<and> auto_resize p' = auto_resize p \<and> next_record p' = next_record p \<and>
     memory p' = memory p"

text \<open>Raising the limit does not lower it.\<close>

definition raises :: "'a pool_env \<Rightarrow> bool" where
  "raises E \<longleftrightarrow> (\<forall>n \<ge> kMinPoolSize. n \<le> increased E n)"

lemma maybe_resize_fields [simp]:
  "records (maybe_resize E p) = records p" "lru_head (maybe_resize E p) = lru_head p" "lru_tail (maybe_resize E p) = lru_tail p"
  "below (maybe_resize E p) = below p" "next_record (maybe_resize E p) = next_record p" "memory (maybe_resize E p) = memory p"
  "has_size_limit (maybe_resize E p) = has_size_limit p" "auto_resize (maybe_resize E p) = auto_resize p"
  "\<not> auto_resize p \<Longrightarrow> pool_size_limit (maybe_resize E p) = pool_size_limit p"
  by (simp_all add: maybe_resize_def)

lemma maybe_resize_raises: "raises E \<Longrightarrow> pool_size_limit p \<le> pool_size_limit (maybe_resize E p)"
  by (auto simp: maybe_resize_def raises_def kMinPoolSize_def)

lemma pool_inv_cell:
  assumes "pool_inv p ids" "i \<in> set ids"
  obtains r where "records p i = Some r" "cell p i = (r_ptr r, r_bytes r)"
  using assms chain_dom [of "records p" None ids None i] by (auto simp: pool_inv_def list_ok_def cell_def data_def)

lemma EvictOne_ok:
  assumes inv: "pool_inv p (ids @ [i])" and E: "raises E"
  shows "\<exists>p'. EvictOne E p = Done p' \<and> pool_inv p' ids \<and> lru p' ids = lru p ids \<and>
    below p' = Free E (fst (cell p i)) (snd (cell p i)) (below p) \<and> same_rest p p' \<and>
    pool_size_limit p \<le> pool_size_limit p' \<and> (\<not> auto_resize p \<longrightarrow> pool_size_limit p' = pool_size_limit p)"
proof -
  have lok: "list_ok p (ids @ [i])" using inv by (simp add: pool_inv_def)
  then have tail: "lru_tail p = Some i" by (simp add: list_ok_def)
  obtain R h t where rem: "RemoveFromList i p = Done (p\<lparr>records := R, lru_head := h, lru_tail := t\<rparr>)"
      "list_ok (p\<lparr>records := R, lru_head := h, lru_tail := t\<rparr>) ids" "data R = data (records p)" "R i = records p i"
    using RemoveFromList_ok [of p ids i "[]"] lok by auto
  obtain r where r: "records p i = Some r" "cell p i = (r_ptr r, r_bytes r)" using pool_inv_cell [OF inv, of i] by auto
  have "(r_bytes r, i) \<in> set (pool p)" using pool_inv_entry [OF inv, of "r_bytes r" i] r by simp
  then obtain m where m: "find_erase (r_bytes r) i (pool p) = Some m" "mset (pool p) = {#(r_bytes r, i)#} + mset m"
    using find_erase_ok pool_inv_distinct [OF inv] by blast
  let ?p = "p\<lparr>records := R, lru_head := h, lru_tail := t\<rparr>"
  let ?p' = "maybe_resize E (?p\<lparr>pool := m, below := Free E (r_ptr r) (r_bytes r) (below p), records := R(i := None),
      evicted_count := evicted_count p + 1\<rparr>)"
  have ev: "EvictOne E p = Done ?p'" using tail rem(1,4) r(1) m(1) by (simp add: EvictOne_def)
  have ni: "i \<notin> set ids" using lok by (simp add: list_ok_def)
  have lok': "list_ok ?p' ids"
    using rem(2) ni by (simp add: list_ok_def chain_fun_upd del: fun_upd_apply)
  have "pool_inv ?p' (ids @ [])" "lru ?p' (ids @ []) = lru p ids @ lru p []"
    using pool_inv_remove [of p ids i "[]" ?p' R] inv lok' rem(3) m(2) r(2) by simp_all
  moreover have "pool_size_limit p \<le> pool_size_limit ?p'"
    using maybe_resize_raises [OF E, of "?p\<lparr>pool := m, below := Free E (r_ptr r) (r_bytes r) (below p), records := R(i := None),
      evicted_count := evicted_count p + 1\<rparr>"] by simp
  ultimately show ?thesis using ev r(2) by (intro exI [of _ ?p']) (simp add: same_rest_def lru_def)
qed

text \<open>The chunks that the loop gives back, the least recently freed first.\<close>

fun free_chunks :: "'a pool_env \<Rightarrow> (nat \<times> nat) list \<Rightarrow> 'a \<Rightarrow> 'a" where
  "free_chunks E [] b = b"
| "free_chunks E ((c, n) # cs) b = free_chunks E cs (Free E c n b)"

lemma same_rest_trans: "same_rest p q \<Longrightarrow> same_rest q r \<Longrightarrow> same_rest p r"
  by (simp add: same_rest_def)

lemma evict_loop_ok:
  assumes "pool_inv p ids" "raises E" "0 < pool_size_limit p"
  shows "\<exists>p' k. evict_loop E p = Done p' \<and> k \<le> length ids \<and> pool_inv p' (take k ids) \<and> lru p' (take k ids) = take k (lru p ids) \<and>
    below p' = free_chunks E (rev (drop k (lru p ids))) (below p) \<and> same_rest p p' \<and> k < pool_size_limit p' \<and>
    (\<not> auto_resize p \<longrightarrow> k = min (length ids) (pool_size_limit p - 1) \<and> pool_size_limit p' = pool_size_limit p)"
  using assms
proof (induction ids arbitrary: p rule: rev_induct)
  case Nil
  then have "evict_loop E p = Done p" using pool_inv_size [OF Nil(1)] by (subst evict_loop.simps) simp
  then show ?case using Nil by (intro exI [of _ p] exI [of _ 0]) (simp add: same_rest_def lru_def)
next
  case (snoc i ids)
  show ?case
  proof (cases "length (ids @ [i]) \<ge> pool_size_limit p")
    case False
    then have "evict_loop E p = Done p" using pool_inv_size [OF snoc.prems(1)] by (subst evict_loop.simps) simp
    then show ?thesis using snoc.prems False
      by (intro exI [of _ p] exI [of _ "length (ids @ [i])"]) (auto simp: same_rest_def lru_def)
  next
    case True
    obtain p1 where p1: "EvictOne E p = Done p1" "pool_inv p1 ids" "lru p1 ids = lru p ids"
        "below p1 = Free E (fst (cell p i)) (snd (cell p i)) (below p)" "same_rest p p1" "pool_size_limit p \<le> pool_size_limit p1"
        "\<not> auto_resize p \<longrightarrow> pool_size_limit p1 = pool_size_limit p"
      using EvictOne_ok [OF snoc.prems(1,2)] by blast
    obtain p' k where p': "evict_loop E p1 = Done p'" "k \<le> length ids" "pool_inv p' (take k ids)" "lru p' (take k ids) = take k (lru p1 ids)"
        "below p' = free_chunks E (rev (drop k (lru p1 ids))) (below p1)" "same_rest p1 p'" "k < pool_size_limit p'"
        "\<not> auto_resize p1 \<longrightarrow> k = min (length ids) (pool_size_limit p1 - 1) \<and> pool_size_limit p' = pool_size_limit p1"
      using snoc.IH [OF p1(2) snoc.prems(2)] snoc.prems(3) p1(6) by auto
    have ev: "evict_loop E p = Done p'"
      using True pool_inv_size [OF snoc.prems(1)] p1(1) p'(1) by (subst evict_loop.simps) simp
    have l: "lru p (ids @ [i]) = lru p ids @ [cell p i]" by (simp add: lru_def)
    have len: "length (lru p ids) = length ids" by (simp add: lru_def)
    have "below p' = free_chunks E (rev (drop k (lru p (ids @ [i])))) (below p)"
      using p'(2,5) p1(3,4) len unfolding l by (cases "cell p i") simp
    moreover have "auto_resize p1 = auto_resize p" using p1(5) by (simp add: same_rest_def)
    ultimately show ?thesis using ev p' p1 len l True same_rest_trans [OF p1(5) p'(6)]
      by (intro exI [of _ p'] exI [of _ k]) auto
  qed
qed

subsection \<open>Getting from the pool\<close>

lemma get_from_pool_ok:
  assumes inv: "pool_inv p ids"
  shows "(\<exists>xs i ys p1. ids = xs @ i # ys \<and> snd (cell p i) = n \<and> get_from_pool n p = Done (Some i, p1) \<and>
      records p1 i = records p i \<and> pool_inv (p1\<lparr>records := (records p1)(i := None)\<rparr>) (xs @ ys) \<and>
      lru (p1\<lparr>records := (records p1)(i := None)\<rparr>) (xs @ ys) = lru p xs @ lru p ys \<and>
      below p1 = below p \<and> pool_size_limit p1 = pool_size_limit p \<and> same_rest p p1) \<or>
    (\<forall>i \<in> set ids. snd (cell p i) \<noteq> n) \<and> get_from_pool n p = Done (None, p\<lparr>allocated_count := allocated_count p + 1\<rparr>)"
proof (cases "dropWhile (\<lambda>x. fst x \<noteq> n) (pool p)")
  case Nil
  then have "\<forall>x \<in> set (pool p). fst x \<noteq> n" by (simp add: dropWhile_eq_Nil_conv)
  then have "\<forall>i \<in> set ids. snd (cell p i) \<noteq> n" using pool_inv_entry [OF inv] by fastforce
  moreover have "get_from_pool n p = Done (None, p\<lparr>allocated_count := allocated_count p + 1\<rparr>)" unfolding get_from_pool_def Nil by simp
  ultimately show ?thesis by blast
next
  case (Cons e rest)
  obtain i where e: "e = (n, i)" using Cons hd_dropWhile [of "\<lambda>x. fst x \<noteq> n" "pool p"] by (cases e) simp
  have split: "pool p = takeWhile (\<lambda>x. fst x \<noteq> n) (pool p) @ (n, i) # rest"
    using takeWhile_dropWhile_id [of "\<lambda>x. fst x \<noteq> n" "pool p"] Cons e by simp
  then have "(n, i) \<in> set (pool p)" by (metis in_set_conv_decomp)
  then have i: "i \<in> set ids" "n = snd (cell p i)" using pool_inv_entry [OF inv] by auto
  then obtain xs ys where ids: "ids = xs @ i # ys" by (meson split_list)
  let ?p0 = "p\<lparr>get_from_pool_count := get_from_pool_count p + 1\<rparr>"
  have "list_ok ?p0 (xs @ i # ys)" using inv ids by (simp add: pool_inv_def list_ok_def)
  then obtain R h t where rem: "RemoveFromList i ?p0 = Done (?p0\<lparr>records := R, lru_head := h, lru_tail := t\<rparr>)"
      "list_ok (?p0\<lparr>records := R, lru_head := h, lru_tail := t\<rparr>) (xs @ ys)" "data R = data (records p)" "R i = records p i"
    using RemoveFromList_ok [of ?p0 xs i ys] by auto
  let ?p1 = "?p0\<lparr>records := R, lru_head := h, lru_tail := t, pool := takeWhile (\<lambda>x. fst x \<noteq> n) (pool p) @ rest\<rparr>"
  let ?p' = "?p1\<lparr>records := R(i := None)\<rparr>"
  have get: "get_from_pool n p = Done (Some i, ?p1)" using Cons e rem(1) by (simp add: get_from_pool_def)
  have ni: "i \<notin> set (xs @ ys)" using inv ids by (auto simp: pool_inv_def list_ok_def)
  then have lok: "list_ok ?p' (xs @ ys)" using rem(2) by (simp add: list_ok_def chain_fun_upd del: fun_upd_apply)
  have "mset (pool p) = {#(snd (cell p i), i)#} + mset (pool ?p')" using arg_cong [OF split, of mset] i(2) by simp
  then have "pool_inv ?p' (xs @ ys)" "lru ?p' (xs @ ys) = lru p xs @ lru p ys"
    using pool_inv_remove [of p xs i ys ?p' R] inv ids lok rem(3) by simp_all
  then show ?thesis using get rem(4) ids i(2)
    by (intro disjI1 exI [of _ xs] exI [of _ i] exI [of _ ys] exI [of _ ?p1]) (simp add: same_rest_def)
qed

subsection \<open>Putting into the pool\<close>

lemma DeallocateRaw_ok:
  assumes inv: "pool_inv p ids" and E: "raises E" and lim: "0 < pool_size_limit p" "has_size_limit p"
    and cp: "FindPrefix (memory p) u = c" "c \<le> u"
  shows "\<exists>p' k i. DeallocateRaw E (Some u) p = Done p' \<and> k \<le> length ids \<and> pool_inv p' (i # take k ids) \<and>
    lru p' (i # take k ids) = (c, memory p c) # take k (lru p ids) \<and>
    below p' = free_chunks E (rev (drop k (lru p ids))) (below p) \<and> k < pool_size_limit p' \<and>
    has_size_limit p' \<and> auto_resize p' = auto_resize p \<and> memory p' = memory p \<and>
    (\<not> auto_resize p \<longrightarrow> k = min (length ids) (pool_size_limit p - 1) \<and> pool_size_limit p' = pool_size_limit p)"
proof -
  let ?p0 = "p\<lparr>put_count := put_count p + 1\<rparr>"
  have inv0: "pool_inv ?p0 ids" "lru ?p0 ids = lru p ids" using inv by (simp_all add: pool_inv_def list_ok_def cell_def lru_def)
  have lim0: "0 < pool_size_limit ?p0" using lim by simp
  obtain p1 k where p1: "evict_loop E ?p0 = Done p1" "k \<le> length ids" "pool_inv p1 (take k ids)" "lru p1 (take k ids) = take k (lru p ids)"
      "below p1 = free_chunks E (rev (drop k (lru p ids))) (below p)" "same_rest ?p0 p1" "k < pool_size_limit p1"
      "\<not> auto_resize p \<longrightarrow> k = min (length ids) (pool_size_limit p - 1) \<and> pool_size_limit p1 = pool_size_limit p"
    using evict_loop_ok [OF inv0(1) E lim0] unfolding inv0(2) by auto
  define i n r where "i = next_record p1" and "n = memory p1 c" and "r = \<lparr>r_ptr = c, r_bytes = n, r_prev = None, r_next = None\<rparr>"
  have n: "n = memory p c" using p1(6) by (simp add: n_def same_rest_def)
  let ?p2 = "p1\<lparr>records := (records p1)(i \<mapsto> r), next_record := i + 1\<rparr>"
  have ni: "i \<notin> set (take k ids)" using p1(3) by (auto simp: pool_inv_def i_def)
  have lok: "list_ok ?p2 (take k ids)" using p1(3) ni by (simp add: pool_inv_def list_ok_def chain_fun_upd del: fun_upd_apply)
  obtain R t where add: "AddToList i ?p2 = Done (?p2\<lparr>records := R, lru_head := Some i, lru_tail := t\<rparr>)"
      "list_ok (?p2\<lparr>records := R, lru_head := Some i, lru_tail := t\<rparr>) (i # take k ids)" "data R = data ((records p1)(i \<mapsto> r))"
    using AddToList_ok [OF lok ni, of r] by auto
  let ?p' = "?p2\<lparr>records := R, lru_head := Some i, lru_tail := t, pool := mm_insert (n, i) (pool p1)\<rparr>"
  have dea: "DeallocateRaw E (Some u) p = Done ?p'"
    using cp lim(2) p1(1) add(1) by (simp add: DeallocateRaw_def Let_def i_def [symmetric] n_def [symmetric] r_def [symmetric])
  have ci: "cell ?p' i = (c, n)" using add(3) by (simp add: cell_def data_def r_def)
  have cj: "cell ?p' j = cell p1 j" if "j \<in> set (take k ids)" for j
    using add(3) that ni by (auto simp: cell_def data_def)
  have dom: "dom R = set (i # take k ids)" using add(3) p1(3) by (auto simp: dom_data data_def pool_inv_def)
  have "mset (pool ?p') = mset (map (\<lambda>j. (snd (cell ?p' j), j)) (i # take k ids))"
    using p1(3) ci cj by (simp add: mset_mm_insert pool_inv_def cong: map_cong)
  moreover have "list_ok ?p' (i # take k ids)" using add(2) by (simp add: list_ok_def)
  ultimately have "pool_inv ?p' (i # take k ids)" using p1(3) dom by (auto simp: pool_inv_def i_def)
  moreover have "lru ?p' (i # take k ids) = (c, memory p c) # take k (lru p ids)"
    using ci cj p1(4) n by (simp add: lru_def cong: map_cong)
  ultimately show ?thesis using dea p1 lim
    by (intro exI [of _ ?p'] exI [of _ k] exI [of _ i]) (simp add: same_rest_def)
qed

subsection \<open>Alignment\<close>

lemma and_aligned:
  assumes "k < 64" "a < (2::nat) ^ 64"
  shows "a AND (2 ^ 64 - 2 ^ k) = a div 2 ^ k * 2 ^ k"
proof -
  have "(2::nat) ^ 64 = 2 ^ k * 2 ^ (64 - k)" using assms(1) by (simp flip: power_add)
  then have "(2::nat) ^ 64 - 2 ^ k = push_bit k (mask (64 - k))"
    by (simp add: push_bit_eq_mult mask_eq_exp_minus_1 diff_mult_distrib2 mult.commute)
  moreover have "a AND push_bit k (mask (64 - k)) = push_bit k (take_bit (64 - k) (drop_bit k a))"
    by (rule bit_eqI) (auto simp: bit_and_iff bit_push_bit_iff bit_mask_iff bit_take_bit_iff bit_drop_bit_eq)
  ultimately have "a AND (2 ^ 64 - 2 ^ k) = push_bit k (take_bit (64 - k) (drop_bit k a))" by (simp only:)
  moreover have "drop_bit k a < 2 ^ (64 - k)"
    using assms by (simp add: drop_bit_eq_div less_mult_imp_div_less flip: power_add)
  ultimately show ?thesis by (simp add: take_bit_nat_eq_self push_bit_eq_mult drop_bit_eq_div)
qed

text \<open>Alignments that a caller may ask for.\<close>

definition alignment_ok :: "nat \<Rightarrow> bool" where
  "alignment_ok al \<longleftrightarrow> (\<exists>k. al = 2 ^ k \<and> k < 63)"

lemma pow2_le_dvd: "al = 2 ^ k \<Longrightarrow> (2::nat) ^ j \<le> al \<Longrightarrow> 2 ^ j dvd al"
  by (metis le_imp_power_dvd one_less_numeral_iff power_increasing_iff semiring_norm(76))

text \<open>The address handed out is aligned, behind the prefix and early enough in the chunk, and the words before it lead back to the chunk.\<close>

lemma PrepareChunk_ok:
  assumes al: "alignment_ok al" and c: "16 dvd c" "c + n < 2 ^ 64" and n: "nb + (if al > 16 then al else 0) + 16 \<le> n"
  shows "\<exists>u m. PrepareChunk c al n mem = Done (u, m) \<and> al dvd u \<and> c + 16 \<le> u \<and> u + nb \<le> c + n \<and> m (u - 8) = c \<and> m c = n \<and>
    (\<forall>x. x < c \<or> u \<le> x \<longrightarrow> m x = mem x)"
proof (cases "al > 16")
  case False
  obtain k where k: "al = 2 ^ k" using al by (auto simp: alignment_ok_def)
  have "(2::nat) ^ k \<le> 2 ^ 4" using False k by simp
  then have "k \<le> 4" using power_le_imp_le_exp [of "2::nat" k 4] by simp
  then have "al dvd 16" using le_imp_power_dvd [of k 4 "2::nat"] k by simp
  then have "al dvd c + 16" using c(1) by (meson dvd_add dvd_refl dvd_trans)
  then show ?thesis using False n by (auto simp: PrepareChunk_def kPoolAlignment_def Let_def)
next
  case True
  obtain k where k: "al = 2 ^ k" "k < 63" using al by (auto simp: alignment_ok_def)
  let ?a = "c + 16 + al"
  let ?u = "?a div al * al"
  have a: "?a < 2 ^ 64" using n c(2) True by simp
  then have w: "wrap64 ?a AND (2 ^ 64 - al) = ?u" using and_aligned [of k ?a] k by simp
  have le: "?u \<le> ?a" by simp
  have "?u + ?a mod al = ?a" by (rule div_mult_mod_eq)
  moreover have "?a mod al < al" using True by (intro mod_less_divisor) simp
  ultimately have gt: "c + 16 < ?u" by linarith
  have "(2::nat) ^ 4 dvd al" using True k pow2_le_dvd [of al k 4] by simp
  then have "16 dvd ?u" using dvd_trans [of 16 al ?u] by simp
  then obtain i j where ij: "?u = 16 * i" "c = 16 * j" using c(1) by (metis dvdE)
  have "c + 16 < 16 * i" using gt unfolding ij(1) .
  then have "c + 32 \<le> 16 * i" using ij(2) by presburger
  then have ge: "c + 32 \<le> ?u" unfolding ij(1) .
  have "PrepareChunk c al n mem = Done (?u, (mem(c := n, c + 8 := c))(?u - 8 := c))"
    using True w ge by (simp add: PrepareChunk_def kPoolAlignment_def Let_def)
  moreover have "?u + nb \<le> c + n"
  proof -
    have "nb + al + 16 \<le> n" using n True by simp
    then show ?thesis using le by linarith
  qed
  ultimately show ?thesis using ge by (intro exI conjI) (assumption, auto)
qed

subsection \<open>The allocator below\<close>

text \<open>
  What the pool relies on: the allocator below hands out aligned memory that is not in use, \<open>out\<close> being the blocks it has handed out and
  not got back, and takes back any of them. It may have no memory left.
\<close>

definition apart_blocks :: "nat \<times> nat \<Rightarrow> nat \<times> nat \<Rightarrow> bool" where
  "apart_blocks b d \<longleftrightarrow> fst b + snd b \<le> fst d \<or> fst d + snd d \<le> fst b"

definition lower_ok :: "'a pool_env \<Rightarrow> ('a \<Rightarrow> (nat \<times> nat) set) \<Rightarrow> bool" where
  "lower_ok E out \<longleftrightarrow>
     (\<forall>b n c b'. Alloc E kPoolAlignment n b = (Some c, b') \<longrightarrow>
        16 dvd c \<and> c + n < 2 ^ 64 \<and> (\<forall>d \<in> out b. apart_blocks (c, n) d) \<and> out b' = insert (c, n) (out b)) \<and>
     (\<forall>b c n. (c, n) \<in> out b \<longrightarrow> out (Free E c n b) = out b - {(c, n)})"

definition rounds_up :: "'a pool_env \<Rightarrow> bool" where
  "rounds_up E \<longleftrightarrow> (\<forall>n. n \<le> 2 ^ 63 \<longrightarrow> n \<le> RoundUp E n)"

lemma free_chunks_out:
  "lower_ok E out \<Longrightarrow> set cs \<subseteq> out b \<Longrightarrow> distinct cs \<Longrightarrow> out (free_chunks E cs b) = out b - set cs"
proof (induction cs arbitrary: b)
  case (Cons d cs)
  obtain c n where d: "d = (c, n)" by (cases d)
  have "out (Free E c n b) = out b - {(c, n)}" using Cons.prems(1,2) d by (simp add: lower_ok_def)
  then show ?case using Cons.IH [of "Free E c n b"] Cons.prems d by auto
qed simp

subsection \<open>Clients\<close>

text \<open>A block in the hands of a client: its address, its size and its alignment. The words before the address lead to its chunk.\<close>

type_synonym held_block = "nat \<times> nat \<times> nat"

definition chunk_of :: "(nat \<Rightarrow> nat) \<Rightarrow> held_block \<Rightarrow> nat \<times> nat" where
  "chunk_of mem h = (case h of (u, nb, al) \<Rightarrow> (mem (u - 8), mem (mem (u - 8))))"

definition held_ok :: "(nat \<Rightarrow> nat) \<Rightarrow> held_block \<Rightarrow> bool" where
  "held_ok mem h \<longleftrightarrow> (case h of (u, nb, al) \<Rightarrow> al dvd u \<and>
     (case chunk_of mem h of (c, n) \<Rightarrow> c + 16 \<le> u \<and> u + nb \<le> c + n))"

text \<open>Every block that is out of the allocator below is in the hands of one client or in the pool once, and they do not overlap.\<close>

definition client_inv :: "('a \<Rightarrow> (nat \<times> nat) set) \<Rightarrow> 'a pool_state \<Rightarrow> nat list \<Rightarrow> held_block list \<Rightarrow> bool" where
  "client_inv out p ids hs \<longleftrightarrow>
     pool_inv p ids \<and> (if has_size_limit p then 0 < pool_size_limit p \<and> length ids \<le> pool_size_limit p else ids = [] \<and> \<not> auto_resize p) \<and>
     (\<forall>h \<in> set hs. held_ok (memory p) h) \<and>
     distinct (map (chunk_of (memory p)) hs @ lru p ids) \<and> set (map (chunk_of (memory p)) hs @ lru p ids) = out (below p) \<and>
     (\<forall>b \<in> out (below p). \<forall>d \<in> out (below p). b \<noteq> d \<longrightarrow> apart_blocks b d) \<and>
     (\<forall>(c, n) \<in> out (below p). 16 dvd c \<and> c + n < 2 ^ 64)"

lemma chunk_of_cong:
  assumes "held_ok mem h" "\<forall>x. x < a \<or> a' \<le> x \<longrightarrow> mem' x = mem x" "apart_blocks (chunk_of mem h) (a, a' - a)" "a \<le> a'"
  shows "chunk_of mem' h = chunk_of mem h" "held_ok mem' h"
proof -
  obtain u nb al where h: "h = (u, nb, al)" by (cases h)
  have c: "mem (u - 8) + 16 \<le> u" "u + nb \<le> mem (u - 8) + mem (mem (u - 8))" using assms(1) by (auto simp: h held_ok_def chunk_of_def)
  have "mem' (u - 8) = mem (u - 8)" "mem' (mem (u - 8)) = mem (mem (u - 8))"
    using assms(2,3,4) c by (auto simp: h chunk_of_def apart_blocks_def)
  then show "chunk_of mem' h = chunk_of mem h" by (simp add: h chunk_of_def)
  then show "held_ok mem' h" using assms(1) by (simp add: h held_ok_def)
qed

datatype pool_op = Get nat nat | Put nat | Poke nat nat nat | Empty

text \<open>\<open>Get al nb\<close> allocates, \<open>Put k\<close> frees the \<open>k\<close>-th block held, \<open>Poke k x v\<close> writes a word somewhere inside it, \<open>Empty\<close> calls \<^verbatim>\<open>Clear\<close>.\<close>

fun run_pool :: "'a pool_env \<Rightarrow> pool_op list \<Rightarrow> 'a pool_state \<Rightarrow> held_block list \<Rightarrow> ('a pool_state \<times> held_block list) outcome" where
  "run_pool E [] p hs = Done (p, hs)"
| "run_pool E (Get al nb # ops) p hs =
     obind (AllocateRaw E al nb p) (\<lambda>(r, p'). run_pool E ops p' (case r of None \<Rightarrow> hs | Some u \<Rightarrow> (u, nb, al) # hs))"
| "run_pool E (Put k # ops) p hs =
     (if k < length hs
      then obind (DeallocateRaw E (Some (fst (hs ! k))) p) (\<lambda>p'. run_pool E ops p' (take k hs @ drop (Suc k) hs))
      else run_pool E ops p hs)"
| "run_pool E (Poke k x v # ops) p hs =
     (if k < length hs \<and> (case hs ! k of (u, nb, al) \<Rightarrow> x + 8 \<le> nb)
      then run_pool E ops (p\<lparr>memory := (memory p)(fst (hs ! k) + x := v)\<rparr>) hs
      else run_pool E ops p hs)"
| "run_pool E (Empty # ops) p hs = obind (Clear_pool E p) (\<lambda>p'. run_pool E ops p' hs)"

definition op_ok :: "pool_op \<Rightarrow> bool" where
  "op_ok op \<longleftrightarrow> (case op of Get al nb \<Rightarrow> alignment_ok al \<and> nb + al + 16 \<le> 2 ^ 63 | _ \<Rightarrow> True)"

end
