(* ===== verification/Pool_Clients.thy ===== *)
theory Pool_Clients
  imports Pool_Correct Bits
begin

text \<open>Clients of the pool: no sequence of requests, releases and writes to blocks that are held breaks the invariant of \<open>Pool_Correct\<close>.\<close>

lemma held_after_prepare:
  assumes "\<forall>h \<in> set hs. held_ok mem h" "\<forall>h \<in> set hs. apart_blocks (chunk_of mem h) (c, n)"
    and m: "al dvd u" "c + 16 \<le> u" "u + nb \<le> c + n" "m (u - 8) = c" "m c = n" "\<forall>x. x < c \<or> u \<le> x \<longrightarrow> m x = mem x"
  shows "map (chunk_of m) ((u, nb, al) # hs) = (c, n) # map (chunk_of mem) hs" "\<forall>h \<in> set ((u, nb, al) # hs). held_ok m h"
proof -
  have new: "chunk_of m (u, nb, al) = (c, n)" "held_ok m (u, nb, al)" using m by (simp_all add: chunk_of_def held_ok_def)
  have old: "chunk_of m h = chunk_of mem h" "held_ok m h" if "h \<in> set hs" for h
  proof -
    have "apart_blocks (chunk_of mem h) (c, u - c)" using assms(2) that m(2,3) by (auto simp: apart_blocks_def)
    then show "chunk_of m h = chunk_of mem h" "held_ok m h"
      using chunk_of_cong [of mem h c u m] assms(1) that m(2,6) by auto
  qed
  show "map (chunk_of m) ((u, nb, al) # hs) = (c, n) # map (chunk_of mem) hs" "\<forall>h \<in> set ((u, nb, al) # hs). held_ok m h"
    using new old by auto
qed

lemma request_size:
  assumes "op_ok (Get al nb)" "rounds_up E" "0 < nb"
  shows "nb + (if al > 16 then al else 0) + 16 \<le>
    RoundUp E (wrap64 ((if al > kPoolAlignment then wrap64 (nb + al) else nb) + 16))"
proof -
  have "nb + al + 16 \<le> 2 ^ 63" using assms(1) by (simp add: op_ok_def)
  then have w: "wrap64 ((if al > kPoolAlignment then wrap64 (nb + al) else nb) + 16) = nb + (if al > 16 then al else 0) + 16"
    and le: "nb + (if al > 16 then al else 0) + 16 \<le> 2 ^ 63" by (simp_all add: kPoolAlignment_def)
  show ?thesis unfolding w using assms(2) le by (auto simp: rounds_up_def)
qed

lemma client_invD:
  assumes "client_inv out p ids hs"
  shows "pool_inv p ids" "if has_size_limit p then 0 < pool_size_limit p \<and> length ids \<le> pool_size_limit p else ids = [] \<and> \<not> auto_resize p"
    "\<forall>h \<in> set hs. held_ok (memory p) h" "distinct (map (chunk_of (memory p)) hs @ lru p ids)"
    "set (map (chunk_of (memory p)) hs @ lru p ids) = out (below p)"
    "b \<in> out (below p) \<Longrightarrow> d \<in> out (below p) \<Longrightarrow> b \<noteq> d \<Longrightarrow> apart_blocks b d"
    "(c, n) \<in> out (below p) \<Longrightarrow> 16 dvd c \<and> c + n < 2 ^ 64"
  using assms unfolding client_inv_def by blast+

lemma client_invI:
  assumes "pool_inv p ids" "if has_size_limit p then 0 < pool_size_limit p \<and> length ids \<le> pool_size_limit p else ids = [] \<and> \<not> auto_resize p"
    "\<forall>h \<in> set hs. held_ok (memory p) h" "distinct (map (chunk_of (memory p)) hs @ lru p ids)"
    "set (map (chunk_of (memory p)) hs @ lru p ids) = out (below p)"
    "\<And>b d. b \<in> out (below p) \<Longrightarrow> d \<in> out (below p) \<Longrightarrow> b \<noteq> d \<Longrightarrow> apart_blocks b d"
    "\<And>c n. (c, n) \<in> out (below p) \<Longrightarrow> 16 dvd c \<and> c + n < 2 ^ 64"
  shows "client_inv out p ids hs"
  using assms unfolding client_inv_def by blast

lemma Get_pooled:
  assumes inv: "client_inv out p (xs @ i # ys) hs" and size: "snd (cell p i) = n"
    and p1: "pool_inv p1 (xs @ ys)" "lru p1 (xs @ ys) = lru p xs @ lru p ys" "below p1 = below p" "pool_size_limit p1 = pool_size_limit p"
      "has_size_limit p1 = has_size_limit p" "auto_resize p1 = auto_resize p" "has_size_limit p"
    and u: "al dvd u" "fst (cell p i) + 16 \<le> u" "u + nb \<le> fst (cell p i) + n" "m (u - 8) = fst (cell p i)" "m (fst (cell p i)) = n"
      "\<forall>x. x < fst (cell p i) \<or> u \<le> x \<longrightarrow> m x = memory p x"
  shows "client_inv out (p1\<lparr>memory := m\<rparr>) (xs @ ys) ((u, nb, al) # hs)"
proof -
  note D = client_invD [OF inv]
  have c: "cell p i = (fst (cell p i), n)" using size by (cases "cell p i") simp
  have l: "lru p (xs @ i # ys) = lru p xs @ cell p i # lru p ys" by (simp add: lru_def)
  have ci: "cell p i \<in> out (below p)" using D(5) by (auto simp: l)
  have "\<forall>h \<in> set hs. apart_blocks (chunk_of (memory p) h) (fst (cell p i), n)"
  proof
    fix h assume h: "h \<in> set hs"
    then have k: "chunk_of (memory p) h \<in> set (map (chunk_of (memory p)) hs)" by simp
    then have "chunk_of (memory p) h \<in> out (below p)" using D(5) by auto
    moreover have "chunk_of (memory p) h \<noteq> cell p i" using D(4) k unfolding l by (auto simp del: set_map)
    ultimately show "apart_blocks (chunk_of (memory p) h) (fst (cell p i), n)" using D(6) ci c by metis
  qed
  note held = held_after_prepare [OF D(3) this u]
  have "pool_inv (p1\<lparr>memory := m\<rparr>) (xs @ ys)" "lru (p1\<lparr>memory := m\<rparr>) (xs @ ys) = lru p xs @ lru p ys"
    using p1(1,2) by (simp_all add: pool_inv_def list_ok_def lru_def cell_def)
  moreover have "length (xs @ ys) \<le> length (xs @ i # ys)" by simp
  moreover have "set (map (chunk_of m) ((u, nb, al) # hs) @ lru p xs @ lru p ys) = out (below p)"
    "distinct (map (chunk_of m) ((u, nb, al) # hs) @ lru p xs @ lru p ys)"
    unfolding held(1) using D(4,5) c unfolding l by auto
  ultimately show ?thesis using D(2,6,7) p1(3-7) held(2) unfolding client_inv_def by auto
qed

lemma Get_fresh:
  assumes inv: "client_inv out p ids hs" and E: "lower_ok E out" and a: "Alloc E kPoolAlignment n (below p) = (Some c, b)"
    and u: "al dvd u" "c + 16 \<le> u" "u + nb \<le> c + n" "m (u - 8) = c" "m c = n" "\<forall>x. x < c \<or> u \<le> x \<longrightarrow> m x = memory p x"
  shows "client_inv out (p\<lparr>allocated_count := k, below := b, memory := m\<rparr>) ids ((u, nb, al) # hs)"
proof -
  note D = client_invD [OF inv]
  have A: "16 dvd c" "c + n < 2 ^ 64" "\<forall>d \<in> out (below p). apart_blocks (c, n) d" "out b = insert (c, n) (out (below p))"
    using E a unfolding lower_ok_def by blast+
  have sym: "apart_blocks d e = apart_blocks e d" for d e by (auto simp: apart_blocks_def)
  have "n > 0" using u by simp
  then have new: "(c, n) \<notin> out (below p)" using A(3) by (auto simp: apart_blocks_def)
  have "\<forall>h \<in> set hs. apart_blocks (chunk_of (memory p) h) (c, n)" using A(3) D(5) sym by (metis Un_iff image_eqI list.set_map set_append)
  note held = held_after_prepare [OF D(3) this u]
  have "pool_inv (p\<lparr>allocated_count := k, below := b, memory := m\<rparr>) ids" "lru (p\<lparr>allocated_count := k, below := b, memory := m\<rparr>) ids = lru p ids"
    using D(1) by (simp_all add: pool_inv_def list_ok_def lru_def cell_def)
  moreover have "set (map (chunk_of m) ((u, nb, al) # hs) @ lru p ids) = out b" "distinct (map (chunk_of m) ((u, nb, al) # hs) @ lru p ids)"
    unfolding held(1) A(4) using D(4,5) new by auto
  moreover have "\<forall>d \<in> out b. \<forall>e \<in> out b. d \<noteq> e \<longrightarrow> apart_blocks d e" using A(3) D(6) sym unfolding A(4) by blast
  moreover have "\<forall>(d, e) \<in> out b. 16 dvd d \<and> d + e < 2 ^ 64" using A(1,2) D(7) unfolding A(4) by blast
  ultimately show ?thesis using D(2) held(2) unfolding client_inv_def by simp
qed

lemma Get_ok:
  assumes inv: "client_inv out p ids hs" and E: "lower_ok E out" "rounds_up E" and op: "op_ok (Get al nb)"
  shows "(\<exists>r p' ids'. AllocateRaw E al nb p = Done (r, p') \<and> client_inv out p' ids' (case r of None \<Rightarrow> hs | Some u \<Rightarrow> (u, nb, al) # hs) \<and>
    (r = None \<longleftrightarrow> nb = 0)) \<or> AllocateRaw E al nb p = Abort \<and> (\<exists>n \<ge> nb. fst (Alloc E kPoolAlignment n (below p)) = None)"
proof (cases "nb = 0")
  case True
  then show ?thesis using inv by (auto simp: AllocateRaw_def)
next
  case False
  define n where "n = RoundUp E (wrap64 ((if al > kPoolAlignment then wrap64 (nb + al) else nb) + 16))"
  have n: "nb + (if al > 16 then al else 0) + 16 \<le> n" using request_size [OF op E(2)] False by (simp add: n_def)
  have al: "alignment_ok al" using op by (simp add: op_ok_def)
  note D = client_invD [OF inv]
  have fresh: ?thesis if get: "(if has_size_limit p then get_from_pool n p else Done (None, p)) = Done (None, p\<lparr>allocated_count := k\<rparr>)" for k
  proof (cases "Alloc E kPoolAlignment n (below p)")
    case (Pair r b)
    show ?thesis
    proof (cases r)
      case None
      then have "AllocateRaw E al nb p = Abort" using False get Pair by (simp add: AllocateRaw_def Let_def flip: n_def)
      then show ?thesis using None Pair n by (intro disjI2 conjI exI [of _ n]) simp_all
    next
      case (Some c)
      with Pair have a: "Alloc E kPoolAlignment n (below p) = (Some c, b)" by simp
    then have "16 dvd c" "c + n < 2 ^ 64" using E(1) unfolding lower_ok_def by blast+
    then obtain u m where u: "PrepareChunk c al n (memory p) = Done (u, m)" "al dvd u" "c + 16 \<le> u" "u + nb \<le> c + n" "m (u - 8) = c" "m c = n"
        "\<forall>x. x < c \<or> u \<le> x \<longrightarrow> m x = memory p x" using PrepareChunk_ok [OF al _ _ n, of c "memory p"] by blast
    have "AllocateRaw E al nb p = Done (Some u, p\<lparr>allocated_count := k, below := b, memory := m\<rparr>)"
      using False get a u(1) by (simp add: AllocateRaw_def Let_def flip: n_def)
    then show ?thesis using Get_fresh [OF inv E(1) a u(2-7), of k] False by auto
    qed
  qed
  show ?thesis
  proof (cases "has_size_limit p")
    case False
    then show ?thesis using fresh [of "allocated_count p"] by simp
  next
    case lim: True
    from get_from_pool_ok [OF D(1), of n] show ?thesis
    proof (elim disjE exE conjE)
      fix xs i ys p1
      assume g: "ids = xs @ i # ys" "snd (cell p i) = n" "get_from_pool n p = Done (Some i, p1)" "records p1 i = records p i"
        "pool_inv (p1\<lparr>records := (records p1)(i := None)\<rparr>) (xs @ ys)"
        "lru (p1\<lparr>records := (records p1)(i := None)\<rparr>) (xs @ ys) = lru p xs @ lru p ys"
        "below p1 = below p" "pool_size_limit p1 = pool_size_limit p" "same_rest p p1"
      let ?c = "fst (cell p i)" and ?p1 = "p1\<lparr>records := (records p1)(i := None)\<rparr>"
      obtain r where r: "records p i = Some r" "cell p i = (r_ptr r, r_bytes r)" using pool_inv_cell [OF D(1), of i] g(1) by auto
      have "cell p i \<in> out (below p)" using D(5) g(1) by (auto simp: lru_def)
      then have "16 dvd ?c" "?c + n < 2 ^ 64" using D(7) [of ?c n] g(2) r(2) by auto
      then obtain u m where u: "PrepareChunk ?c al n (memory p) = Done (u, m)" "al dvd u" "?c + 16 \<le> u" "u + nb \<le> ?c + n" "m (u - 8) = ?c"
          "m ?c = n" "\<forall>x. x < ?c \<or> u \<le> x \<longrightarrow> m x = memory p x" using PrepareChunk_ok [OF al _ _ n, of ?c "memory p"] by blast
      have mem: "memory p1 = memory p" using g(9) by (simp add: same_rest_def)
      have "AllocateRaw E al nb p = Done (Some u, ?p1\<lparr>memory := m\<rparr>)"
        using False lim g(3,4) r u(1) mem by (simp add: AllocateRaw_def Let_def flip: n_def)
      moreover have "client_inv out (?p1\<lparr>memory := m\<rparr>) (xs @ ys) ((u, nb, al) # hs)"
        using Get_pooled [of out p xs i ys hs n ?p1 al u nb m] inv g lim u by (simp add: same_rest_def)
      ultimately show ?thesis using False by auto
    next
      assume "get_from_pool n p = Done (None, p\<lparr>allocated_count := allocated_count p + 1\<rparr>)"
      then show ?thesis using fresh [of "allocated_count p + 1"] lim by simp
    qed
  qed
qed

lemma Put_ok:
  assumes inv: "client_inv out p ids (xs @ h # ys)" and E: "lower_ok E out" "raises E"
  shows "\<exists>p' ids'. DeallocateRaw E (Some (fst h)) p = Done p' \<and> client_inv out p' ids' (xs @ ys)"
proof -
  note D = client_invD [OF inv]
  let ?ch = "chunk_of (memory p)"
  obtain u nb al where h: "h = (u, nb, al)" by (cases h)
  obtain c n where c: "?ch h = (c, n)" by (cases "?ch h")
  have cn: "memory p (u - 8) = c" "memory p c = n" "c \<le> u" using c D(3) by (auto simp: h chunk_of_def held_ok_def)
  have cout: "(c, n) \<in> out (below p)" using D(5) c by auto
  have dist: "distinct (map ?ch (xs @ ys) @ lru p ids)" "(c, n) \<notin> set (map ?ch (xs @ ys) @ lru p ids)" using D(4) c by auto
  have outs: "set (map ?ch (xs @ ys) @ lru p ids) = out (below p) - {(c, n)}" using D(5) c dist(2) by auto
  show ?thesis
  proof (cases "has_size_limit p")
    case False
    let ?p = "p\<lparr>below := Free E c n (below p)\<rparr>"
    have "DeallocateRaw E (Some (fst h)) p = Done ?p" using False cn D(2) by (simp add: DeallocateRaw_def FindPrefix_def h)
    moreover have "out (Free E c n (below p)) = out (below p) - {(c, n)}" using E(1) cout by (simp add: lower_ok_def)
    moreover have "pool_inv ?p ids" "lru ?p ids = lru p ids" using D(1) by (simp_all add: pool_inv_def list_ok_def lru_def cell_def)
    ultimately show ?thesis using False D(2,3,6,7) dist(1) outs
      by (intro exI [of _ ?p] exI [of _ ids]) (auto simp: client_inv_def)
  next
    case lim: True
    then have pos: "0 < pool_size_limit p" using D(2) by simp
    have prefix: "FindPrefix (memory p) u = c" using cn by (simp add: FindPrefix_def)
    obtain p' k i where p': "DeallocateRaw E (Some u) p = Done p'" "k \<le> length ids" "pool_inv p' (i # take k ids)"
        "lru p' (i # take k ids) = (c, n) # take k (lru p ids)" "below p' = free_chunks E (rev (drop k (lru p ids))) (below p)"
        "k < pool_size_limit p'" "has_size_limit p'" "memory p' = memory p"
      using DeallocateRaw_ok [OF D(1) E(2) pos lim prefix cn(3)] cn(2) by auto
    let ?old = "drop k (lru p ids)" and ?kept = "take k (lru p ids)"
    have l: "lru p ids = ?kept @ ?old" by simp
    then have parts: "set (lru p ids) = set ?kept \<union> set ?old" "distinct ?kept" "distinct ?old" "set ?kept \<inter> set ?old = {}"
      using dist(1) by (metis set_append, metis distinct_append, metis distinct_append, metis distinct_append)
    have "out (below p') = out (below p) - set ?old"
      unfolding p'(5) using free_chunks_out [OF E(1), of "rev ?old" "below p"] parts outs by auto
    also have "\<dots> = set (map ?ch (xs @ ys) @ (c, n) # ?kept)"
    proof -
      have "set (map ?ch (xs @ ys)) \<inter> set ?old = {}" using dist(1) parts(1) by auto
      moreover have "(c, n) \<notin> set ?old" using dist(2) parts(1) by auto
      ultimately show ?thesis using outs cout parts by (auto simp del: set_map map_append)
    qed
    finally have "set (map ?ch (xs @ ys) @ lru p' (i # take k ids)) = out (below p')" using p'(4) by simp
    moreover have "distinct (map ?ch (xs @ ys) @ lru p' (i # take k ids))" using dist parts unfolding p'(4) by auto
    moreover have sub: "out (below p') \<subseteq> out (below p)" using \<open>out (below p') = out (below p) - set ?old\<close> by auto
    moreover have "\<forall>h \<in> set (xs @ ys). held_ok (memory p) h" using D(3) by simp
    moreover have "apart_blocks b d" if "b \<in> out (below p')" "d \<in> out (below p')" "b \<noteq> d" for b d using D(6) sub that by blast
    moreover have "16 dvd a \<and> a + m < 2 ^ 64" if "(a, m) \<in> out (below p')" for a m using D(7) sub that by blast
    moreover have "length (i # take k ids) \<le> pool_size_limit p'" "0 < pool_size_limit p'" using p'(2,6) by simp_all
    ultimately have "client_inv out p' (i # take k ids) (xs @ ys)"
      using p'(3,7) by (intro client_invI; simp only: p'(8) if_True simp_thms)
    then show ?thesis using p'(1) h by auto
  qed
qed

lemma Poke_ok:
  assumes inv: "client_inv out p ids hs" and k: "k < length hs" "hs ! k = (u, nb, al)" "x + 8 \<le> nb"
  shows "client_inv out (p\<lparr>memory := (memory p)(u + x := v)\<rparr>) ids hs"
proof -
  note D = client_invD [OF inv]
  let ?m = "(memory p)(u + x := v)"
  have mem: "(u, nb, al) \<in> set hs" using k(1,2) by (metis nth_mem)
  let ?c = "memory p (u - 8)"
  have c: "?c + 16 \<le> u" "u + nb \<le> ?c + memory p ?c" using D(3) mem by (auto simp: held_ok_def chunk_of_def)
  have same: "chunk_of ?m h = chunk_of (memory p) h \<and> held_ok ?m h" if h: "h \<in> set hs" for h
  proof (cases "chunk_of (memory p) h = chunk_of (memory p) (u, nb, al)")
    case True
    then have "h = (u, nb, al)" using h mem D(4) by (simp add: distinct_map inj_on_def)
    then show ?thesis using c D(3) mem k(3) by (auto simp: chunk_of_def held_ok_def)
  next
    case False
    have "chunk_of (memory p) h \<in> out (below p)" "chunk_of (memory p) (u, nb, al) \<in> out (below p)" using h mem D(5) by auto
    then have "apart_blocks (chunk_of (memory p) h) (chunk_of (memory p) (u, nb, al))" using D(6) False by blast
    then have "apart_blocks (chunk_of (memory p) h) (u + x, Suc (u + x) - (u + x))" using c k(3) by (auto simp: apart_blocks_def chunk_of_def)
    moreover have "\<forall>y. y < u + x \<or> Suc (u + x) \<le> y \<longrightarrow> ?m y = memory p y" by auto
    ultimately show ?thesis using chunk_of_cong [of "memory p" h "u + x" "Suc (u + x)" ?m] D(3) h by auto
  qed
  then have ch: "map (chunk_of ?m) hs = map (chunk_of (memory p)) hs" and held: "\<forall>h \<in> set hs. held_ok ?m h" by simp_all
  let ?p = "p\<lparr>memory := ?m\<rparr>"
  have fields: "memory ?p = ?m" "below ?p = below p" "has_size_limit ?p = has_size_limit p" "pool_size_limit ?p = pool_size_limit p"
    "auto_resize ?p = auto_resize p" by simp_all
  have "pool_inv ?p ids" and lru: "lru ?p ids = lru p ids"
    using D(1) by (simp_all add: pool_inv_def list_ok_def lru_def cell_def)
  then show ?thesis using D held by (intro client_invI) (unfold fields ch lru, blast+)
qed

subsection \<open>Clearing the pool\<close>

lemma free_all_ok:
  "\<forall>(k, i) \<in> set m. records p i \<noteq> None \<Longrightarrow> distinct (map snd m) \<Longrightarrow>
   free_all E m p = Done (p\<lparr>below := free_chunks E (map (\<lambda>(k, i). cell p i) m) (below p),
     records := (\<lambda>i. if i \<in> snd ` set m then None else records p i)\<rparr>)"
proof (induction m arbitrary: p)
  case (Cons x m)
  obtain k i where x: "x = (k, i)" by (cases x)
  obtain r where r: "records p i = Some r" using Cons.prems(1) x by auto
  let ?p = "p\<lparr>below := Free E (r_ptr r) (r_bytes r) (below p), records := (records p)(i := None)\<rparr>"
  have ni: "i \<notin> snd ` set m" using Cons.prems(2) x by simp
  then have "\<forall>(l, j) \<in> set m. j \<noteq> i" by force
  then have same: "map (\<lambda>(k, i). cell ?p i) m = map (\<lambda>(k, i). cell p i) m" and "\<forall>(k, i) \<in> set m. records ?p i \<noteq> None"
    using Cons.prems(1) by (auto simp: cell_def data_def)
  then have "free_all E m ?p = Done (?p\<lparr>below := free_chunks E (map (\<lambda>(k, i). cell ?p i) m) (below ?p),
      records := (\<lambda>i. if i \<in> snd ` set m then None else records ?p i)\<rparr>)"
    using Cons.IH [of ?p] Cons.prems(2) by simp
  moreover have "cell p i = (r_ptr r, r_bytes r)" using r by (simp add: cell_def data_def)
  moreover have "(\<lambda>j. if j \<in> snd ` set m then None else records ?p j) = (\<lambda>j. if j \<in> snd ` set (x # m) then None else records p j)"
    using x by auto
  ultimately show ?case unfolding same using x r by simp
qed simp

lemma Clear_ok:
  assumes inv: "client_inv out p ids hs" and E: "lower_ok E out"
  shows "\<exists>p'. Clear_pool E p = Done p' \<and> client_inv out p' [] hs \<and> (has_size_limit p \<longrightarrow> pool p' = [] \<and> records p' = (\<lambda>_. None))"
proof (cases "has_size_limit p")
  case False
  then show ?thesis using inv client_invD(2) [OF inv] by (auto simp: Clear_pool_def)
next
  case True
  note D = client_invD [OF inv]
  let ?cs = "map (\<lambda>(k, i). cell p i) (pool p)"
  have m: "mset (pool p) = mset (map (\<lambda>i. (snd (cell p i), i)) ids)" and dom: "dom (records p) = set ids" using D(1) by (simp_all add: pool_inv_def)
  have "set (pool p) = (\<lambda>i. (snd (cell p i), i)) ` set ids" using arg_cong [OF m, of set_mset] by simp
  then have ids: "snd ` set (pool p) = set ids" by (simp add: image_image)
  have rec: "\<forall>(k, i) \<in> set (pool p). records p i \<noteq> None"
  proof -
    have "records p i \<noteq> None" if "(k, i) \<in> set (pool p)" for k i
    proof -
      have "i \<in> dom (records p)" using that pool_inv_entry [OF D(1), of k i] dom by simp
      then show ?thesis by auto
    qed
    then show ?thesis by blast
  qed
  have "mset ?cs = image_mset (\<lambda>(k, i). cell p i) (mset (pool p))" by simp
  also have "\<dots> = mset (lru p ids)" unfolding m lru_def by (simp add: image_mset.compositionality comp_def)
  finally have cs: "mset ?cs = mset (lru p ids)" .
  then have cs': "set ?cs = set (lru p ids)" "distinct ?cs" using D(4) by (metis set_mset_mset, metis distinct_append mset_eq_imp_distinct_iff)
  define p' where "p' = p\<lparr>below := free_chunks E ?cs (below p), records := (\<lambda>_. None), pool := [], get_from_pool_count := 0, put_count := 0,
    allocated_count := 0, evicted_count := 0, lru_head := None, lru_tail := None\<rparr>"
  have "(\<lambda>i. if i \<in> snd ` set (pool p) then None else records p i) = (\<lambda>_. None)"
    unfolding ids dom [symmetric] by (auto simp: dom_def)
  then have "Clear_pool E p = Done p'"
    using free_all_ok [OF rec pool_inv_distinct [OF D(1)], of E] True by (simp add: Clear_pool_def p'_def)
  moreover have o': "out (below p') = out (below p) - set (lru p ids)"
  proof -
    have "set ?cs \<subseteq> out (below p)" using cs'(1) D(5) by auto
    then show ?thesis using free_chunks_out [OF E _ cs'(2)] cs'(1) by (simp add: p'_def)
  qed
  moreover have "client_inv out p' [] hs"
  proof (rule client_invI)
    show "pool_inv p' []" by (simp add: pool_inv_def list_ok_def p'_def)
    show "set (map (chunk_of (memory p')) hs @ lru p' []) = out (below p')" using D(4,5) unfolding o' by (auto simp: p'_def lru_def)
  qed (use D o' True in \<open>auto simp: p'_def lru_def\<close>)
  ultimately show ?thesis by (auto simp: p'_def)
qed

lemma run_pool_ok:
  assumes "client_inv out p ids hs" "lower_ok E out" "rounds_up E" "raises E" "\<forall>op \<in> set ops. op_ok op"
  shows "(\<exists>p' ids' hs'. run_pool E ops p hs = Done (p', hs') \<and> client_inv out p' ids' hs') \<or>
    run_pool E ops p hs = Abort \<and> (\<exists>pre al nb post p' hs' n. ops = pre @ Get al nb # post \<and> run_pool E pre p hs = Done (p', hs') \<and>
      nb \<le> n \<and> fst (Alloc E kPoolAlignment n (below p')) = None)" (is "?ok ops p hs \<or> ?bad ops p hs")
  using assms(1,5)
proof (induction ops arbitrary: p ids hs)
  case (Cons op ops)
  have step: ?case if "\<And>os. run_pool E (op # os) p hs = run_pool E os p1 hs1" "client_inv out p1 ids1 hs1" for p1 ids1 hs1
  proof -
    have "?ok ops p1 hs1 \<or> ?bad ops p1 hs1" using Cons.IH that(2) Cons.prems(2) by simp
    then show ?thesis
    proof (elim disjE)
      assume "?bad ops p1 hs1"
      then obtain pre al nb post p' hs' n where "run_pool E ops p1 hs1 = Abort" "ops = pre @ Get al nb # post" "run_pool E pre p1 hs1 = Done (p', hs')"
        "nb \<le> n" "fst (Alloc E kPoolAlignment n (below p')) = None" by blast
      then have "?bad (op # ops) p hs" using that(1)
        by (intro conjI exI [of _ "op # pre"] exI [of _ al] exI [of _ nb] exI [of _ post] exI [of _ p'] exI [of _ hs'] exI [of _ n]) simp_all
      then show ?thesis ..
    qed (use that(1) in simp)
  qed
  show ?case
  proof (cases op)
    case (Get al nb)
    then have "op_ok (Get al nb)" using Cons.prems(2) by simp
    from Get_ok [OF Cons.prems(1) assms(2,3) this] show ?thesis
    proof (elim disjE exE conjE)
      fix r p1 ids1 assume "AllocateRaw E al nb p = Done (r, p1)" "client_inv out p1 ids1 (case r of None \<Rightarrow> hs | Some u \<Rightarrow> (u, nb, al) # hs)"
      then show ?thesis using step Get by simp
    next
      fix n assume "AllocateRaw E al nb p = Abort" "nb \<le> n" "fst (Alloc E kPoolAlignment n (below p)) = None"
      then have "?bad (op # ops) p hs" using Get by (intro conjI exI [of _ "[]"] exI [of _ al] exI [of _ nb] exI [of _ ops] exI [of _ p] exI [of _ hs] exI [of _ n]) simp_all
      then show ?thesis ..
    qed
  next
    case (Put k)
    show ?thesis
    proof (cases "k < length hs")
      case True
      then have "hs = take k hs @ hs ! k # drop (Suc k) hs" by (rule id_take_nth_drop)
      then obtain p1 ids1 where "DeallocateRaw E (Some (fst (hs ! k))) p = Done p1" "client_inv out p1 ids1 (take k hs @ drop (Suc k) hs)"
        using Put_ok [of out p ids "take k hs" "hs ! k" "drop (Suc k) hs" E] Cons.prems(1) assms(2,4) by metis
      then show ?thesis using step Put True by simp
    qed (use step Put Cons.prems(1) in simp)
  next
    case (Poke k x v)
    show ?thesis
    proof (cases "k < length hs \<and> (case hs ! k of (u, nb, al) \<Rightarrow> x + 8 \<le> nb)")
      case True
      obtain u nb al where "hs ! k = (u, nb, al)" by (cases "hs ! k")
      then have "client_inv out (p\<lparr>memory := (memory p)(fst (hs ! k) + x := v)\<rparr>) ids hs" using Poke_ok [OF Cons.prems(1), of k u nb al x v] True by simp
      then show ?thesis using step Poke True by simp
    next
      case False
      then have "run_pool E (op # os) p hs = run_pool E os p hs" for os using Poke by (simp only: run_pool.simps if_False)
      then show ?thesis using step Cons.prems(1) by blast
    qed
  next
    case Empty
    obtain p1 where "Clear_pool E p = Done p1" "client_inv out p1 [] hs" using Clear_ok [OF Cons.prems(1) assms(2)] by blast
    then show ?thesis using step Empty by simp
  qed
qed auto

subsection \<open>Properties\<close>

text \<open>An allocator below that meets the assumptions: it places a block behind all that are in use.\<close>

definition bump_top :: "(nat \<times> nat) list \<Rightarrow> nat" where
  "bump_top bs = foldr (\<lambda>(c, n). max (c + n)) bs 4096"

definition bump_env :: "(nat \<times> nat) list pool_env" where
  "bump_env = \<lparr>Alloc = (\<lambda>al n bs. let c = (bump_top bs + 15) div 16 * 16 in if c + n < 2 ^ 64 then (Some c, (c, n) # bs) else (None, bs)),
     Free = (\<lambda>c n. removeAll (c, n)), RoundUp = NoopRounder, rates_high = (\<lambda>e p a r. e * 500 > p \<and> a * 500 > r), increased = (\<lambda>n. n * 11 div 10)\<rparr>"

lemma bump_top_ge: "(c, n) \<in> set bs \<Longrightarrow> c + n \<le> bump_top bs"
  by (induction bs) (auto simp: bump_top_def)

lemma bump_env_ok: "lower_ok bump_env set" "rounds_up bump_env" "raises bump_env"
proof -
  have "apart_blocks ((bump_top bs + 15) div 16 * 16, n) d" if "d \<in> set bs" for bs n d
  proof -
    have "bump_top bs \<le> (bump_top bs + 15) div 16 * 16" by linarith
    then show ?thesis using bump_top_ge [of "fst d" "snd d" bs] that by (simp add: apart_blocks_def)
  qed
  then show "lower_ok bump_env set" by (auto simp: lower_ok_def bump_env_def Let_def split: if_splits)
  show "raises bump_env" unfolding raises_def bump_env_def by (simp, linarith)
qed (simp add: rounds_up_def bump_env_def NoopRounder_def)

text \<open>Both rounders of \<^verbatim>\<open>pool_allocator.h\<close> round up.\<close>

lemma rounders_round_up:
  "RoundUp E = NoopRounder \<Longrightarrow> rounds_up E"
  "(\<And>n. Pow2Rounder n = Done (RoundUp E n) \<or> Pow2Rounder n = Abort) \<Longrightarrow> rounds_up E"
proof -
  assume p: "\<And>n. Pow2Rounder n = Done (RoundUp E n) \<or> Pow2Rounder n = Abort"
  have "n \<le> RoundUp E n" if le: "n \<le> 2 ^ 63" for n
  proof (cases "n = 0")
    case False
    then obtain j where "Pow2Rounder n = Done (2 ^ j)" "n \<le> 2 ^ j" using Pow2Rounder_ok [OF _ le] by blast
    then show ?thesis using p [of n] by simp
  qed simp
  then show "rounds_up E" by (simp add: rounds_up_def)
qed (simp add: rounds_up_def NoopRounder_def)

lemma PoolAllocator_inv:
  assumes "PoolAllocator limit resize mem b = Done p" "out b = {}"
  shows "client_inv out p [] []"
  using assms by (auto simp: PoolAllocator_def client_inv_def pool_inv_def list_ok_def lru_def split: if_splits)


lemma obind_weak_cong: "m = m' \<Longrightarrow> obind m f = obind m' f"
  by simp


lemma pool_keeps_recent:
  assumes "pool_inv p ids" "has_size_limit p" "0 < pool_size_limit p" "\<not> auto_resize p" "raises E" "FindPrefix (memory p) u = c" "c \<le> u"
  shows "\<exists>p' ids'. DeallocateRaw E (Some u) p = Done p' \<and> pool_inv p' ids' \<and>
      lru p' ids' = (c, memory p c) # take (pool_size_limit p - 1) (lru p ids) \<and>
      below p' = free_chunks E (rev (drop (pool_size_limit p - 1) (lru p ids))) (below p)"
proof -
  have len: "length (lru p ids) = length ids" by (simp add: lru_def)
  have "take (min (length ids) l) (lru p ids) = take l (lru p ids)" "drop (min (length ids) l) (lru p ids) = drop l (lru p ids)" for l
    by (simp_all add: len min_def)
  then show ?thesis using DeallocateRaw_ok [OF assms(1,5,3,2,6,7)] assms(4) by metis
qed

lemma pool_finds_size:
  assumes "pool_inv p ids"
  shows "if n \<in> snd ` set (lru p ids)
    then \<exists>xs i ys p1. ids = xs @ i # ys \<and> snd (cell p i) = n \<and> get_from_pool n p = Done (Some i, p1) \<and>
      pool_inv (p1\<lparr>records := (records p1)(i := None)\<rparr>) (xs @ ys) \<and>
      lru (p1\<lparr>records := (records p1)(i := None)\<rparr>) (xs @ ys) = lru p xs @ lru p ys
    else \<exists>p1. get_from_pool n p = Done (None, p1) \<and> pool_inv p1 ids \<and> lru p1 ids = lru p ids"
  using get_from_pool_ok [OF assms, of n]
proof (elim disjE exE conjE)
  fix xs i ys p1 assume "ids = xs @ i # ys" "snd (cell p i) = n"
  then have "n \<in> snd ` set (lru p ids)" by (simp add: lru_def)
  moreover assume "get_from_pool n p = Done (Some i, p1)" "pool_inv (p1\<lparr>records := (records p1)(i := None)\<rparr>) (xs @ ys)"
    "lru (p1\<lparr>records := (records p1)(i := None)\<rparr>) (xs @ ys) = lru p xs @ lru p ys"
  ultimately show ?thesis using \<open>ids = xs @ i # ys\<close> \<open>snd (cell p i) = n\<close> by auto
next
  assume "\<forall>i \<in> set ids. snd (cell p i) \<noteq> n"
  then have "n \<notin> snd ` set (lru p ids)" by (auto simp: lru_def)
  moreover assume "get_from_pool n p = Done (None, p\<lparr>allocated_count := allocated_count p + 1\<rparr>)"
  ultimately show ?thesis using assms by (simp add: pool_inv_def list_ok_def lru_def cell_def)
qed

text \<open>
  C30: The records, the links between them and the multimap implement a list of chunks, most recently freed first. Freeing puts the chunk in
  front; with a fixed limit \<open>l\<close> the \<open>l - 1\<close> chunks freed last before it stay, and the others go back to the allocator below, oldest first.
  A request takes a chunk of exactly its rounded size out of the list and leaves the others in their order, or finds that there is none.
\<close>

theorem pool_is_lru:
  assumes "pool_inv p ids" "has_size_limit p" "0 < pool_size_limit p" "\<not> auto_resize p" "raises E" "FindPrefix (memory p) u = c" "c \<le> u"
  shows "(\<exists>p' ids'. DeallocateRaw E (Some u) p = Done p' \<and> pool_inv p' ids' \<and>
      lru p' ids' = (c, memory p c) # take (pool_size_limit p - 1) (lru p ids) \<and>
      below p' = free_chunks E (rev (drop (pool_size_limit p - 1) (lru p ids))) (below p)) \<and>
    (if n \<in> snd ` set (lru p ids)
     then \<exists>xs i ys p1. ids = xs @ i # ys \<and> snd (cell p i) = n \<and> get_from_pool n p = Done (Some i, p1) \<and>
       pool_inv (p1\<lparr>records := (records p1)(i := None)\<rparr>) (xs @ ys) \<and>
       lru (p1\<lparr>records := (records p1)(i := None)\<rparr>) (xs @ ys) = lru p xs @ lru p ys
     else \<exists>p1. get_from_pool n p = Done (None, p1) \<and> pool_inv p1 ids \<and> lru p1 ids = lru p ids)"
  using pool_keeps_recent [OF assms] pool_finds_size [OF assms(1)] by (rule conjI)

theorem pool_is_lru_witness:
  "\<exists>p :: (nat \<times> nat) list pool_state. pool_size_limit p = 2 \<and> (\<exists>p' ids'. DeallocateRaw bump_env (Some 5016) p = Done p' \<and> pool_inv p' ids' \<and>
     lru p' ids' = [(5000, 56), (4200, 64)] \<and> below p' = [(5000, 56), (4200, 64)])"
proof -
  define R :: "nat \<Rightarrow> ptr_record option" where "R = [0 \<mapsto> \<lparr>r_ptr = 4200, r_bytes = 64, r_prev = None, r_next = Some 1\<rparr>,
    1 \<mapsto> \<lparr>r_ptr = 4100, r_bytes = 64, r_prev = Some (0::nat), r_next = None\<rparr>]"
  define p :: "(nat \<times> nat) list pool_state" where "p = \<lparr>has_size_limit = True, auto_resize = False, pool_size_limit = 2,
    pool = [(64, 1), (64, 0)], records = R, next_record = 2, lru_head = Some 0, lru_tail = Some 1, get_from_pool_count = 0, put_count = 2,
    allocated_count = 3, evicted_count = 0, memory = (\<lambda>_. 0)(5008 := 5000, 5000 := 56), below = [(5000, 56), (4200, 64), (4100, 64)]\<rparr>"
  have inv: "pool_inv p [0, 1]"
    by (auto simp: p_def R_def pool_inv_def list_ok_def cell_def data_def)
  have lru: "lru p [0, 1] = [(4200, 64), (4100, 64)]" by (simp add: p_def R_def lru_def cell_def data_def)
  have "\<exists>p' ids'. DeallocateRaw bump_env (Some 5016) p = Done p' \<and> pool_inv p' ids' \<and>
      lru p' ids' = (5000, memory p 5000) # take (pool_size_limit p - 1) (lru p [0, 1]) \<and>
      below p' = free_chunks bump_env (rev (drop (pool_size_limit p - 1) (lru p [0, 1]))) (below p)"
    using pool_is_lru [OF inv, of bump_env 5016 5000 64] bump_env_ok(3) by (simp add: p_def FindPrefix_def)
  then show ?thesis unfolding lru by (intro exI [of _ p]) (simp add: p_def bump_env_def)
qed

end
