(* ===== verification/Edge_Set.thy ===== *)
theory Edge_Set
  imports Prelude
begin

text \<open>
  \<^verbatim>\<open>core/graph/edgeset.h\<close> and \<^verbatim>\<open>.cc\<close>: the edges at a node. Up to eight pointers are in the object itself, in front and without
  holes; more are in a hash set, which is not given up again. Pointers are addresses; the hash set is the list of its elements, and
  \<open>trav\<close> is the order in which its iterator visits them.
\<close>

subsection \<open>Operations\<close>

datatype edge_set = Small "nat option list" | Large "nat list"

definition kInline :: nat where
  "kInline = 8"

definition EdgeSet :: edge_set where
  "EdgeSet = Small (replicate kInline None)"

fun es_size :: "edge_set \<Rightarrow> nat" where
  "es_size (Small ps) = length (filter (\<lambda>p. p \<noteq> None) ps)"
| "es_size (Large l) = length l"

definition es_empty :: "edge_set \<Rightarrow> bool" where
  "es_empty s \<longleftrightarrow> es_size s = 0"

definition es_clear :: "edge_set \<Rightarrow> edge_set" where
  "es_clear s = EdgeSet"

definition flat_insert :: "nat \<Rightarrow> nat list \<Rightarrow> edge_set \<times> bool" where
  "flat_insert v l = (if v \<in> set l then (Large l, False) else (Large (l @ [v]), True))"

fun es_insert :: "nat \<Rightarrow> edge_set \<Rightarrow> edge_set \<times> bool" where
  "es_insert v (Small ps) =
     (if Some v \<in> set ps then (Small ps, False)
      else let i = length (takeWhile (\<lambda>p. p \<noteq> None) ps) in
        if i < length ps then (Small (ps[i := Some v]), True) else flat_insert v (map the ps))"
| "es_insert v (Large l) = flat_insert v l"

fun es_erase :: "nat \<Rightarrow> edge_set \<Rightarrow> edge_set \<times> nat" where
  "es_erase v (Small ps) =
     (if Some v \<in> set ps
      then let i = length (takeWhile (\<lambda>p. p \<noteq> Some v) ps); n = es_size (Small ps) in (Small (ps[i := ps ! (n - 1), n - 1 := None]), 1)
      else (Small ps, 0))"
| "es_erase v (Large l) = (if v \<in> set l then (Large (removeAll v l), 1) else (Large l, 0))"

text \<open>The elements from \<^verbatim>\<open>begin()\<close> to \<^verbatim>\<open>end()\<close>.\<close>

fun es_list :: "(nat list \<Rightarrow> nat list) \<Rightarrow> edge_set \<Rightarrow> nat list" where
  "es_list trav (Small ps) = map the (take (es_size (Small ps)) ps)"
| "es_list trav (Large l) = trav l"

subsection \<open>Meaning\<close>

fun es_set :: "edge_set \<Rightarrow> nat set" where
  "es_set (Small ps) = {v. Some v \<in> set ps}"
| "es_set (Large l) = set l"

definition small_of :: "nat list \<Rightarrow> nat option list" where
  "small_of l = map Some l @ replicate (kInline - length l) None"

fun es_ok :: "edge_set \<Rightarrow> bool" where
  "es_ok (Small ps) \<longleftrightarrow> (\<exists>l. distinct l \<and> length l \<le> kInline \<and> ps = small_of l)"
| "es_ok (Large l) \<longleftrightarrow> distinct l"

definition visits_all :: "(nat list \<Rightarrow> nat list) \<Rightarrow> bool" where
  "visits_all trav \<longleftrightarrow> (\<forall>l. mset (trav l) = mset l)"

declare not_None_eq [simp del]

lemma takeWhile_stop: "\<forall>x \<in> set xs. P x \<Longrightarrow> ys = [] \<or> \<not> P (hd ys) \<Longrightarrow> takeWhile P (xs @ ys) = xs"
  by (cases ys) (auto simp: takeWhile_append2)

lemma small_of_takeWhile [simp]: "takeWhile (\<lambda>p. p \<noteq> None) (small_of l) = map Some l"
  unfolding small_of_def by (rule takeWhile_stop) (simp, cases "kInline - length l", simp_all)

lemma small_of_simps [simp]:
  "Some v \<in> set (small_of l) \<longleftrightarrow> v \<in> set l" "filter (\<lambda>p. p \<noteq> None) (small_of l) = map Some l"
  "length l \<le> kInline \<Longrightarrow> length (small_of l) = kInline"
  "take (length l) (small_of l) = map Some l"
  by (auto simp: small_of_def)

text \<open>
  The interface that the graph uses: a set of pointers, with the results of insertion and removal and a traversal.
\<close>

locale pointer_set =
  fixes empty :: 's and insert_ptr :: "nat \<Rightarrow> 's \<Rightarrow> 's \<times> bool" and erase_ptr :: "nat \<Rightarrow> 's \<Rightarrow> 's \<times> nat"
    and elements :: "(nat list \<Rightarrow> nat list) \<Rightarrow> 's \<Rightarrow> nat list" and number :: "'s \<Rightarrow> nat" and members :: "'s \<Rightarrow> nat set" and wf :: "'s \<Rightarrow> bool"
  assumes empty_ok: "wf empty" "members empty = {}"
    and insert_ok: "wf s \<Longrightarrow> wf (fst (insert_ptr v s)) \<and> members (fst (insert_ptr v s)) = insert v (members s) \<and> (snd (insert_ptr v s) \<longleftrightarrow> v \<notin> members s)"
    and erase_ok: "wf s \<Longrightarrow> wf (fst (erase_ptr v s)) \<and> members (fst (erase_ptr v s)) = members s - {v} \<and>
      snd (erase_ptr v s) = (if v \<in> members s then 1 else 0)"
    and elements_ok: "wf s \<Longrightarrow> visits_all trav \<Longrightarrow> set (elements trav s) = members s \<and> distinct (elements trav s)"
    and number_ok: "wf s \<Longrightarrow> number s = card (members s)"
begin

lemma finite_members: "wf s \<Longrightarrow> finite (members s)"
  using elements_ok [of s "\<lambda>l. l"] by (metis List.finite_set visits_all_def)

lemma number_0: "wf s \<Longrightarrow> number s = 0 \<longleftrightarrow> members s = {}"
  using finite_members number_ok by simp

lemma length_elements: "wf s \<Longrightarrow> visits_all trav \<Longrightarrow> length (elements trav s) = number s"
  using elements_ok number_ok distinct_card by metis

end

lemma small_insert:
  assumes "distinct l" "length l \<le> kInline" "v \<notin> set l"
  shows "fst (es_insert v (Small (small_of l))) = (if length l < kInline then Small (small_of (l @ [v])) else Large (l @ [v]))"
proof (cases "length l < kInline")
  case True
  have "(small_of l)[length l := Some v] = small_of (l @ [v])"
    using True by (cases "kInline - length l") (auto simp: small_of_def list_update_append intro!: arg_cong [of _ _ "\<lambda>n. replicate n None"])
  then show ?thesis using assms True by (simp add: Let_def)
next
  case False
  then have "map the (small_of l) = l" using assms(2) by (simp add: small_of_def comp_def)
  then show ?thesis using assms False by (simp add: Let_def flat_insert_def)
qed

text \<open>Removal moves the last pointer into the gap.\<close>

lemma small_erase:
  assumes "distinct (xs @ v # ys)" "length (xs @ v # ys) \<le> kInline"
  shows "fst (es_erase v (Small (small_of (xs @ v # ys)))) = Small (small_of (if ys = [] then xs else xs @ last ys # butlast ys))"
proof -
  let ?l = "xs @ v # ys" and ?n = "length xs + length ys"
  have "takeWhile (\<lambda>p. p \<noteq> Some v) (small_of ?l) = map Some xs"
    using assms(1) unfolding small_of_def map_append append_assoc by (intro takeWhile_stop) auto
  then have i: "length (takeWhile (\<lambda>p. p \<noteq> Some v) (small_of ?l)) = length xs" by simp
  have "(small_of ?l)[length xs := small_of ?l ! ?n, ?n := None] = small_of (if ys = [] then xs else xs @ last ys # butlast ys)"
  proof (cases ys rule: rev_cases)
    case Nil
    then show ?thesis using assms(2) by (simp add: small_of_def nth_append list_update_append Suc_diff_le flip: replicate_Suc)
  next
    case (snoc zs z)
    define k where "k = kInline - Suc (Suc (length xs + length zs))"
    have l: "small_of ?l = map Some xs @ Some v # map Some zs @ Some z # replicate k None" by (simp add: small_of_def snoc k_def)
    have "kInline - Suc (length xs + length zs) = Suc k" using assms(2) by (simp add: snoc k_def)
    then have r: "small_of (xs @ z # zs) = map Some xs @ Some z # map Some zs @ None # replicate k None" by (simp add: small_of_def)
    show ?thesis unfolding l using r by (simp add: snoc nth_append list_update_append)
  qed
  then show ?thesis using assms(1) i by (simp add: Let_def)
qed

lemma set_moved: "ys \<noteq> [] \<Longrightarrow> set (last ys # butlast ys) = set ys" "distinct ys \<Longrightarrow> ys \<noteq> [] \<Longrightarrow> distinct (last ys # butlast ys)"
  by (cases ys rule: rev_cases; auto)+

lemma es_insert_ok:
  assumes "es_ok s"
  shows "es_ok (fst (es_insert v s)) \<and> es_set (fst (es_insert v s)) = insert v (es_set s) \<and> (snd (es_insert v s) \<longleftrightarrow> v \<notin> es_set s)"
proof (cases s)
  case (Small ps)
  then obtain l where l: "distinct l" "length l \<le> kInline" "ps = small_of l" using assms by auto
  show ?thesis
  proof (cases "v \<in> set l")
    case True
    then show ?thesis using l by (auto simp: Small)
  next
    case False
    have "map the (small_of l) = l" if "\<not> length l < kInline" using that by (simp add: small_of_def comp_def)
    then have "snd (es_insert v s)" using l False by (simp add: Small Let_def flat_insert_def)
    moreover have "es_ok (fst (es_insert v s))"
      using l False small_insert [OF l(1,2) False] by (auto simp: Small intro!: exI [of _ "l @ [v]"])
    moreover have "es_set (fst (es_insert v s)) = insert v (es_set s)" using l small_insert [OF l(1,2) False] by (auto simp: Small)
    ultimately show ?thesis using l False by (simp add: Small)
  qed
qed (use assms in \<open>auto simp: flat_insert_def\<close>)

lemma es_erase_ok:
  assumes "es_ok s"
  shows "es_ok (fst (es_erase v s)) \<and> es_set (fst (es_erase v s)) = es_set s - {v} \<and> snd (es_erase v s) = (if v \<in> es_set s then 1 else 0)"
proof (cases s)
  case (Small ps)
  then obtain l where l: "distinct l" "length l \<le> kInline" "ps = small_of l" using assms by auto
  show ?thesis
  proof (cases "v \<in> set l")
    case False
    then show ?thesis using l by (auto simp: Small)
  next
    case True
    then obtain xs ys where xy: "l = xs @ v # ys" by (meson split_list)
    let ?l = "if ys = [] then xs else xs @ last ys # butlast ys"
    have "fst (es_erase v s) = Small (small_of ?l)" using small_erase [of xs v ys] l by (simp add: Small xy)
    moreover have "distinct ?l" "set ?l = set l - {v}" "length ?l \<le> kInline"
      using l(1,2) set_moved [of ys] by (auto simp: xy)
    moreover have "snd (es_erase v s) = 1" using True l by (simp add: Small Let_def)
    ultimately show ?thesis using l True by (auto simp: Small)
  qed
qed (use assms in \<open>auto simp: distinct_removeAll\<close>)

interpretation es: pointer_set EdgeSet es_insert es_erase es_list es_size es_set es_ok
proof (unfold_locales, goal_cases)
  case 1
  have "replicate kInline None = small_of []" by (simp add: small_of_def)
  then show ?case unfolding EdgeSet_def by (auto intro!: exI [of _ "[]"])
next
  case 2
  then show ?case by (auto simp: EdgeSet_def)
next
  case (3 s v)
  then show ?case by (rule es_insert_ok)
next
  case (4 s v)
  then show ?case by (rule es_erase_ok)
next
  case (5 s trav)
  then show ?case by (cases s) (auto simp: visits_all_def image_image comp_def dest: mset_eq_setD mset_eq_imp_distinct_iff)
next
  case (6 s)
  then show ?case by (cases s) (auto simp: distinct_card)
qed

declare not_None_eq [simp]

end
