(* ===== verification/Graph_Model.thy ===== *)
theory Graph_Model
  imports Edge_Set Numbers "HOL-Library.List_Lexorder" "HOL-Library.Char_ord"
begin

text \<open>
  \<^verbatim>\<open>core/graph/graph.h\<close> and \<^verbatim>\<open>.cc\<close>: the graph that sessions build and executors run. Nodes and edges are objects in an arena, addressed by
  numbers; a removed one goes to a free list and is used again, with a new id. \<open>g_nodes\<close> and \<open>g_edges\<close> are the vectors by id, with
  a null pointer for what was removed. The order in which edges at a node are visited is given by \<open>trav\<close>, see \<open>Edge_Set\<close>. The properties of
  a node are shared between nodes and copied before they are changed (\<^verbatim>\<open>MaybeCopyOnWrite\<close>), so that each node has its own as far as this code
  can see. The registry of operations is a parameter: \<open>LookUpOpDef\<close> finds the definition of an operation, \<open>InOutTypesForNode\<close> the types of the inputs
  and outputs that a definition has with given attributes. Types, definitions and attribute values are opaque. \<^verbatim>\<open>DCHECK\<close>s are not part of a build with optimisation and are left out.
\<close>

subsection \<open>State\<close>

datatype node_class =
    NC_UNINITIALIZED | NC_SWITCH | NC_MERGE | NC_ENTER | NC_EXIT | NC_NEXT_ITERATION | NC_LOOP_COND | NC_CONTROL_TRIGGER | NC_SEND | NC_HOST_SEND
  | NC_RECV | NC_HOST_RECV | NC_CONSTANT | NC_VARIABLE | NC_IDENTITY | NC_GET_SESSION_HANDLE | NC_GET_SESSION_TENSOR | NC_DELETE_SESSION_TENSOR
  | NC_METADATA | NC_SCOPED_ALLOCATOR | NC_COLLECTIVE | NC_FAKE_PARAM | NC_PARTITIONED_CALL | NC_ARG | NC_RETVAL | NC_OTHER

record node_def =
  d_name :: string
  d_op :: string
  d_input :: "string list"
  d_device :: string
  d_attr :: "string \<Rightarrow> nat option"
  d_original_names :: "string list"

record node_props =
  p_def :: node_def
  p_op_def :: nat
  p_input_types :: "nat list"
  p_output_types :: "nat list"

record registry =
  LookUpOpDef :: "string \<Rightarrow> status_error + nat"
  InOutTypesForNode :: "(string \<Rightarrow> nat option) \<Rightarrow> nat \<Rightarrow> status_error + (nat list \<times> nat list)"

record gnode =
  n_id :: int
  n_cost_id :: int
  n_class :: node_class
  n_props :: "node_props option"
  n_device :: nat
  n_while_ctx :: "string option"
  in_edges :: edge_set
  out_edges :: edge_set

record while_context =
  w_enter_nodes :: "nat list"
  w_exit_nodes :: "nat list"
  w_cond_output :: "nat \<times> int"
  w_body_inputs :: "(nat \<times> int) list"
  w_body_outputs :: "(nat \<times> int) list"

record edge =
  edge_id :: nat
  edge_src :: nat
  edge_dst :: nat
  src_output :: int
  dst_input :: int

record graph =
  g_nodes :: "nat option list"
  node_at :: "nat \<Rightarrow> gnode"
  next_node :: nat
  free_nodes :: "nat list"
  num_nodes :: int
  g_edges :: "nat option list"
  edge_at :: "nat \<Rightarrow> edge"
  next_edge :: nat
  free_edges :: "nat list"
  num_edges :: int
  name_counter :: int
  while_ctxs :: "string \<Rightarrow> while_context option"
  device_names :: "string list"
  device_names_map :: "(string \<times> nat) list"

definition kControlSlot :: int where
  "kControlSlot = - 1"

definition kNodeClassTable :: "(string \<times> node_class) list" where
  "kNodeClassTable =
     [(''Switch'', NC_SWITCH), (''RefSwitch'', NC_SWITCH), (''Merge'', NC_MERGE), (''RefMerge'', NC_MERGE), (''Enter'', NC_ENTER), (''RefEnter'', NC_ENTER),
      (''Exit'', NC_EXIT), (''RefExit'', NC_EXIT), (''NextIteration'', NC_NEXT_ITERATION), (''RefNextIteration'', NC_NEXT_ITERATION),
      (''LoopCond'', NC_LOOP_COND), (''ControlTrigger'', NC_CONTROL_TRIGGER), (''_Send'', NC_SEND), (''_HostSend'', NC_HOST_SEND), (''_Recv'', NC_RECV),
      (''_HostRecv'', NC_HOST_RECV), (''Const'', NC_CONSTANT), (''HostConst'', NC_CONSTANT), (''Variable'', NC_VARIABLE), (''VariableV2'', NC_VARIABLE),
      (''Identity'', NC_IDENTITY), (''RefIdentity'', NC_IDENTITY), (''GetSessionHandle'', NC_GET_SESSION_HANDLE),
      (''GetSessionHandleV2'', NC_GET_SESSION_HANDLE), (''GetSessionTensor'', NC_GET_SESSION_TENSOR), (''DeleteSessionTensor'', NC_DELETE_SESSION_TENSOR),
      (''Size'', NC_METADATA), (''Shape'', NC_METADATA), (''Rank'', NC_METADATA), (''_ScopedAllocator'', NC_SCOPED_ALLOCATOR),
      (''CollectiveReduce'', NC_COLLECTIVE), (''CollectiveBcastSend'', NC_COLLECTIVE), (''CollectiveBcastRecv'', NC_COLLECTIVE),
      (''FakeParam'', NC_FAKE_PARAM), (''PartitionedCall'', NC_PARTITIONED_CALL), (''StatefulPartitionedCall'', NC_PARTITIONED_CALL),
      (''_Arg'', NC_ARG), (''_DeviceArg'', NC_ARG), (''_Retval'', NC_RETVAL), (''_DeviceRetval'', NC_RETVAL)]"

definition GetNodeClassForOp :: "string \<Rightarrow> node_class" where
  "GetNodeClassForOp ts = (case map_of kNodeClassTable ts of Some c \<Rightarrow> c | None \<Rightarrow> NC_OTHER)"

definition Node :: gnode where
  "Node = \<lparr>n_id = - 1, n_cost_id = - 1, n_class = NC_UNINITIALIZED, n_props = None, n_device = 0, n_while_ctx = None, in_edges = EdgeSet, out_edges = EdgeSet\<rparr>"

definition Initialize_node :: "int \<Rightarrow> int \<Rightarrow> node_props \<Rightarrow> gnode \<Rightarrow> gnode" where
  "Initialize_node i cost_id props n = n\<lparr>n_id := i, n_cost_id := cost_id, n_props := Some props, n_class := GetNodeClassForOp (d_op (p_def props))\<rparr>"

definition Clear_node :: "gnode \<Rightarrow> gnode" where
  "Clear_node n = n\<lparr>in_edges := es_clear (in_edges n), out_edges := es_clear (out_edges n), n_id := - 1, n_cost_id := - 1, n_class := NC_UNINITIALIZED, n_props := None, n_device := 0\<rparr>"

definition upd_node :: "nat \<Rightarrow> (gnode \<Rightarrow> gnode) \<Rightarrow> graph \<Rightarrow> graph" where
  "upd_node a f g = g\<lparr>node_at := (node_at g)(a := f (node_at g a))\<rparr>"

text \<open>\<^verbatim>\<open>MaybeCopyOnWrite\<close> and a change of the \<^verbatim>\<open>NodeDef\<close>.\<close>

definition upd_def :: "(node_def \<Rightarrow> node_def) \<Rightarrow> gnode \<Rightarrow> gnode" where
  "upd_def f n = n\<lparr>n_props := map_option (\<lambda>p. p\<lparr>p_def := f (p_def p)\<rparr>) (n_props n)\<rparr>"

definition node_name :: "nat \<Rightarrow> graph \<Rightarrow> string" where
  "node_name a g = (case n_props (node_at g a) of Some p \<Rightarrow> d_name (p_def p) | None \<Rightarrow> [])"

definition IsSource :: "nat \<Rightarrow> graph \<Rightarrow> bool" where
  "IsSource a g \<longleftrightarrow> n_id (node_at g a) = 0"

definition IsSink :: "nat \<Rightarrow> graph \<Rightarrow> bool" where
  "IsSink a g \<longleftrightarrow> n_id (node_at g a) = 1"

definition IsOp :: "nat \<Rightarrow> graph \<Rightarrow> bool" where
  "IsOp a g \<longleftrightarrow> n_id (node_at g a) > 1"

definition num_inputs :: "nat \<Rightarrow> graph \<Rightarrow> int" where
  "num_inputs a g = (case n_props (node_at g a) of Some p \<Rightarrow> int (length (p_input_types p)) | None \<Rightarrow> 0)"

definition num_outputs :: "nat \<Rightarrow> graph \<Rightarrow> int" where
  "num_outputs a g = (case n_props (node_at g a) of Some p \<Rightarrow> int (length (p_output_types p)) | None \<Rightarrow> 0)"

definition node_inputs :: "gnode \<Rightarrow> string list" where
  "node_inputs n = (case n_props n of Some p \<Rightarrow> d_input (p_def p) | None \<Rightarrow> [])"

definition IsControlEdge :: "edge \<Rightarrow> bool" where
  "IsControlEdge e \<longleftrightarrow> src_output e = kControlSlot"

subsection \<open>Nodes\<close>

definition AllocateNode :: "node_props \<Rightarrow> gnode option \<Rightarrow> graph \<Rightarrow> nat \<times> graph" where
  "AllocateNode props cost_node g =
     (let (node, g1) = (if free_nodes g = [] then (next_node g, (upd_node (next_node g) (\<lambda>_. Node) g)\<lparr>next_node := next_node g + 1\<rparr>)
                        else (last (free_nodes g), g\<lparr>free_nodes := butlast (free_nodes g)\<rparr>));
          i = int (length (g_nodes g1)); cost_id = (case cost_node of None \<Rightarrow> i | Some c \<Rightarrow> n_cost_id c)
      in (node, (upd_node node (Initialize_node i cost_id props) g1)\<lparr>g_nodes := g_nodes g1 @ [Some node], num_nodes := num_nodes g1 + 1\<rparr>))"

definition ReleaseNode :: "nat \<Rightarrow> graph \<Rightarrow> graph" where
  "ReleaseNode node g =
     upd_node node Clear_node
       (g\<lparr>g_nodes := (g_nodes g)[nat (n_id (node_at g node)) := None], free_nodes := free_nodes g @ [node], num_nodes := num_nodes g - 1\<rparr>)"

definition AddNode :: "registry \<Rightarrow> node_def \<Rightarrow> graph \<Rightarrow> (status_error + nat) \<times> graph" where
  "AddNode ops def g =
     (case LookUpOpDef ops (d_op def) of
        Inl e \<Rightarrow> (Inl e, g)
      | Inr op_def \<Rightarrow>
        (case InOutTypesForNode ops (d_attr def) op_def of
           Inl e \<Rightarrow> (Inl e, g)
         | Inr (inputs, outputs) \<Rightarrow>
           let (node, g1) = AllocateNode \<lparr>p_def = def, p_op_def = op_def, p_input_types = inputs, p_output_types = outputs\<rparr> None g in (Inr node, g1)))"

subsection \<open>Edges\<close>

definition RecycleEdge :: "nat \<Rightarrow> graph \<Rightarrow> graph" where
  "RecycleEdge e g = g\<lparr>free_edges := free_edges g @ [e]\<rparr>"

definition insert_out :: "nat \<Rightarrow> nat \<Rightarrow> graph \<Rightarrow> graph outcome" where
  "insert_out a e g =
     (let (s, b) = es_insert e (out_edges (node_at g a)) in if b then Done (upd_node a (\<lambda>n. n\<lparr>out_edges := s\<rparr>) g) else Abort)"

definition insert_in :: "nat \<Rightarrow> nat \<Rightarrow> graph \<Rightarrow> graph outcome" where
  "insert_in a e g =
     (let (s, b) = es_insert e (in_edges (node_at g a)) in if b then Done (upd_node a (\<lambda>n. n\<lparr>in_edges := s\<rparr>) g) else Abort)"

definition erase_out :: "nat \<Rightarrow> nat \<Rightarrow> graph \<Rightarrow> graph outcome" where
  "erase_out a e g =
     (let (s, c) = es_erase e (out_edges (node_at g a)) in if c = 1 then Done (upd_node a (\<lambda>n. n\<lparr>out_edges := s\<rparr>) g) else Abort)"

definition erase_in :: "nat \<Rightarrow> nat \<Rightarrow> graph \<Rightarrow> graph outcome" where
  "erase_in a e g =
     (let (s, c) = es_erase e (in_edges (node_at g a)) in if c = 1 then Done (upd_node a (\<lambda>n. n\<lparr>in_edges := s\<rparr>) g) else Abort)"

definition AddEdge :: "nat \<Rightarrow> int \<Rightarrow> nat \<Rightarrow> int \<Rightarrow> graph \<Rightarrow> (nat \<times> graph) outcome" where
  "AddEdge source x dest y g =
     (let (e, g1) = (if free_edges g = [] then (next_edge g, g\<lparr>next_edge := next_edge g + 1\<rparr>)
                     else (last (free_edges g), g\<lparr>free_edges := butlast (free_edges g)\<rparr>));
          ed = \<lparr>edge_id = length (g_edges g1), edge_src = source, edge_dst = dest, src_output = x, dst_input = y\<rparr>;
          g2 = g1\<lparr>edge_at := (edge_at g1)(e := ed)\<rparr>
      in obind (insert_out source e g2) (\<lambda>g3. obind (insert_in dest e g3) (\<lambda>g4.
           Done (e, g4\<lparr>g_edges := g_edges g4 @ [Some e], num_edges := num_edges g4 + 1\<rparr>))))"

text \<open>The end of the removal of an edge: its slot, the free list and the count.\<close>

definition drop_edge :: "nat \<Rightarrow> graph \<Rightarrow> graph" where
  "drop_edge e g = (RecycleEdge e (g\<lparr>g_edges := (g_edges g)[edge_id (edge_at g e) := None]\<rparr>))\<lparr>num_edges := num_edges g - 1\<rparr>"

definition RemoveEdge :: "nat \<Rightarrow> graph \<Rightarrow> graph outcome" where
  "RemoveEdge e g =
     (let ed = edge_at g e in
      obind (erase_out (edge_src ed) e g) (\<lambda>g1. obind (erase_in (edge_dst ed) e g1) (\<lambda>g2.
        if \<not> (edge_id ed < length (g_edges g2) \<and> g_edges g2 ! edge_id ed = Some e) then Abort
        else if \<not> num_edges g2 > 0 then Abort
        else Done (drop_edge e g2))))"

fun remove_in_edges :: "nat list \<Rightarrow> graph \<Rightarrow> graph outcome" where
  "remove_in_edges [] g = Done g"
| "remove_in_edges (e # es) g = obind (erase_out (edge_src (edge_at g e)) e g) (\<lambda>g1. remove_in_edges es (drop_edge e g1))"

fun remove_out_edges :: "nat list \<Rightarrow> graph \<Rightarrow> graph outcome" where
  "remove_out_edges [] g = Done g"
| "remove_out_edges (e # es) g = obind (erase_in (edge_dst (edge_at g e)) e g) (\<lambda>g1. remove_out_edges es (drop_edge e g1))"

definition RemoveNode :: "(nat list \<Rightarrow> nat list) \<Rightarrow> nat \<Rightarrow> graph \<Rightarrow> graph outcome" where
  "RemoveNode trav node g =
     obind (remove_in_edges (es_list trav (in_edges (node_at g node))) g) (\<lambda>g1.
       let g2 = upd_node node (\<lambda>n. n\<lparr>in_edges := es_clear (in_edges n)\<rparr>) g1 in
       obind (remove_out_edges (es_list trav (out_edges (node_at g2 node))) g2) (\<lambda>g3.
         Done (ReleaseNode node (upd_node node (\<lambda>n. n\<lparr>out_edges := es_clear (out_edges n)\<rparr>) g3))))"

definition add_input :: "string \<Rightarrow> gnode \<Rightarrow> gnode" where
  "add_input s = upd_def (\<lambda>d. d\<lparr>d_input := d_input d @ [s]\<rparr>)"

definition AddControlEdge :: "(nat list \<Rightarrow> nat list) \<Rightarrow> nat \<Rightarrow> nat \<Rightarrow> bool \<Rightarrow> graph \<Rightarrow> (nat option \<times> graph) outcome" where
  "AddControlEdge trav source dest allow_duplicates g =
     (if \<not> allow_duplicates \<and> (\<exists>e \<in> set (es_list trav (in_edges (node_at g dest))). IsControlEdge (edge_at g e) \<and> edge_src (edge_at g e) = source)
      then Done (None, g)
      else
        let new_input = ''^'' @ node_name source g;
            g1 = (if \<not> IsSource source g \<and> \<not> IsSink dest g \<and> \<not> allow_duplicates \<and> new_input \<notin> set (node_inputs (node_at g dest))
                  then upd_node dest (add_input new_input) g else g)
        in obind (AddEdge source kControlSlot dest kControlSlot g1) (\<lambda>(e, g2). Done (Some e, g2)))"

definition RemoveControlEdge :: "nat \<Rightarrow> graph \<Rightarrow> graph outcome" where
  "RemoveControlEdge e g =
     (let ed = edge_at g e;
          g1 = (if \<not> IsSource (edge_src ed) g \<and> \<not> IsSink (edge_dst ed) g
                then upd_node (edge_dst ed) (upd_def (\<lambda>d. d\<lparr>d_input := remove1 (''^'' @ node_name (edge_src ed) g) (d_input d)\<rparr>)) g
                else g)
      in RemoveEdge e g1)"

definition FindEdge :: "(nat list \<Rightarrow> nat list) \<Rightarrow> nat \<Rightarrow> int \<Rightarrow> graph \<Rightarrow> nat option" where
  "FindEdge trav dst index g = find (\<lambda>e. dst_input (edge_at g e) = index) (es_list trav (in_edges (node_at g dst)))"

subsection \<open>Checks\<close>

definition OutOfRange :: status_error where
  "OutOfRange = Other 11"

definition IsValidNode :: "nat \<Rightarrow> graph \<Rightarrow> status_error option" where
  "IsValidNode a g =
     (let i = n_id (node_at g a) in
      if i < 0 then Some InvalidArgument
      else if nat i \<ge> length (g_nodes g) then Some InvalidArgument
      else if g_nodes g ! nat i \<noteq> Some a then Some InvalidArgument
      else None)"

definition IsValidOutputTensor :: "nat \<Rightarrow> int \<Rightarrow> graph \<Rightarrow> status_error option" where
  "IsValidOutputTensor a idx g =
     (case IsValidNode a g of
        Some e \<Rightarrow> Some e
      | None \<Rightarrow> if idx \<ge> num_outputs a g \<or> idx < 0 then Some OutOfRange else None)"

definition IsValidInputTensor :: "nat \<Rightarrow> int \<Rightarrow> graph \<Rightarrow> status_error option" where
  "IsValidInputTensor a idx g =
     (case IsValidNode a g of
        Some e \<Rightarrow> Some e
      | None \<Rightarrow> if idx \<ge> num_inputs a g \<or> idx < 0 then Some OutOfRange else None)"

definition tensor_name :: "nat \<Rightarrow> int \<Rightarrow> graph \<Rightarrow> string" where
  "tensor_name a idx g = node_name a g @ '':'' @ FastInt32ToBufferLeft idx"

text \<open>Writing an input of the \<^verbatim>\<open>NodeDef\<close> behind the last one is undefined.\<close>

definition UpdateEdge :: "(nat list \<Rightarrow> nat list) \<Rightarrow> nat \<Rightarrow> int \<Rightarrow> nat \<Rightarrow> int \<Rightarrow> graph \<Rightarrow> (status_error option \<times> graph) outcome" where
  "UpdateEdge trav new_src new_src_index dst dst_index g =
     (case IsValidOutputTensor new_src new_src_index g of
        Some e \<Rightarrow> Done (Some e, g)
      | None \<Rightarrow>
        (case IsValidInputTensor dst dst_index g of
           Some e \<Rightarrow> Done (Some e, g)
         | None \<Rightarrow>
           (case FindEdge trav dst dst_index g of
              None \<Rightarrow> Done (Some InvalidArgument, g)
            | Some e \<Rightarrow>
              obind (RemoveEdge e g) (\<lambda>g1. obind (AddEdge new_src new_src_index dst dst_index g1) (\<lambda>(_, g2).
                if \<not> nat dst_index < length (node_inputs (node_at g2 dst)) then Abort
                else Done (None, upd_node dst (upd_def (\<lambda>d. d\<lparr>d_input := (d_input d)[nat dst_index := tensor_name new_src new_src_index g2]\<rparr>)) g2))))))"

definition AddWhileInputHack :: "(nat list \<Rightarrow> nat list) \<Rightarrow> nat \<Rightarrow> int \<Rightarrow> nat \<Rightarrow> graph \<Rightarrow> (status_error option \<times> graph) outcome" where
  "AddWhileInputHack trav new_src new_src_index dst g =
     (if (case n_props (node_at g dst) of Some p \<Rightarrow> d_op (p_def p) \<noteq> ''While'' | None \<Rightarrow> True) then Done (Some Internal, g)
      else
        (case IsValidOutputTensor new_src new_src_index g of
           Some e \<Rightarrow> Done (Some e, g)
         | None \<Rightarrow>
           let dst_index = int (length (filter (\<lambda>e. \<not> IsControlEdge (edge_at g e)) (es_list trav (in_edges (node_at g dst))))) in
           (case IsValidInputTensor dst dst_index g of
              Some e \<Rightarrow> Done (Some e, g)
            | None \<Rightarrow> obind (AddEdge new_src new_src_index dst dst_index g) (\<lambda>(_, g1).
                Done (None, upd_node dst (add_input (tensor_name new_src new_src_index g1)) g1)))))"

subsection \<open>Construction\<close>

definition empty_graph :: graph where
  "empty_graph = \<lparr>g_nodes = [], node_at = (\<lambda>_. Node), next_node = 0, free_nodes = [], num_nodes = 0, g_edges = [],
     edge_at = (\<lambda>_. \<lparr>edge_id = 0, edge_src = 0, edge_dst = 0, src_output = 0, dst_input = 0\<rparr>), next_edge = 0, free_edges = [], num_edges = 0,
     name_counter = 0, while_ctxs = (\<lambda>_. None), device_names = [''''], device_names_map = []\<rparr>"

definition no_op :: "string \<Rightarrow> node_def" where
  "no_op name = \<lparr>d_name = name, d_op = ''NoOp'', d_input = [], d_device = [], d_attr = (\<lambda>_. None), d_original_names = []\<rparr>"

definition Graph :: "registry \<Rightarrow> (nat list \<Rightarrow> nat list) \<Rightarrow> graph outcome" where
  "Graph ops trav =
     (case AddNode ops (no_op ''_SOURCE'') empty_graph of
        (Inl _, _) \<Rightarrow> Abort
      | (Inr source, g1) \<Rightarrow>
        if n_id (node_at g1 source) \<noteq> 0 then Abort
        else
          (case AddNode ops (no_op ''_SINK'') g1 of
             (Inl _, _) \<Rightarrow> Abort
           | (Inr sink, g2) \<Rightarrow>
             if n_id (node_at g2 sink) \<noteq> 1 then Abort
             else obind (AddControlEdge trav source sink False g2) (\<lambda>(_, g3). Done g3)))"

subsection \<open>Device names\<close>

definition InternDeviceName :: "string \<Rightarrow> graph \<Rightarrow> nat \<times> graph" where
  "InternDeviceName name g =
     (if name = [] then (0, g)
      else
        let m = (if map_of (device_names_map g) name = None then device_names_map g @ [(name, 0)] else device_names_map g);
            index_cell = the (map_of m name) in
        if index_cell > 0 then (index_cell, g\<lparr>device_names_map := m\<rparr>)
        else let index = length m in
          (index, g\<lparr>device_names_map := map (\<lambda>(k, v). (k, if k = name then index else v)) m, device_names := device_names g @ [name]\<rparr>))"

definition get_assigned_device_name :: "nat \<Rightarrow> graph \<Rightarrow> string" where
  "get_assigned_device_name a g = device_names g ! n_device (node_at g a)"

definition set_assigned_device_name_index :: "nat \<Rightarrow> nat \<Rightarrow> graph \<Rightarrow> graph" where
  "set_assigned_device_name_index a i = upd_node a (\<lambda>n. n\<lparr>n_device := i\<rparr>)"

definition set_assigned_device_name :: "nat \<Rightarrow> string \<Rightarrow> graph \<Rightarrow> graph" where
  "set_assigned_device_name a name g = (let (i, g1) = InternDeviceName name g in set_assigned_device_name_index a i g1)"

subsection \<open>Copies, and changes of a node\<close>

text \<open>The node to copy may be of another graph, \<open>h\<close>, with other definitions of its functions.\<close>

definition CopyNode :: "registry \<Rightarrow> graph \<Rightarrow> nat \<Rightarrow> graph \<Rightarrow> (nat \<times> graph) outcome" where
  "CopyNode ops h node g =
     (case n_props (node_at h node) of
        None \<Rightarrow> Abort
      | Some props \<Rightarrow>
        let (copy, g1) = AllocateNode props (Some (node_at h node)) g;
            g2 = set_assigned_device_name copy (get_assigned_device_name node h) g1 in
        (case LookUpOpDef ops (d_op (p_def props)) of
           Inl _ \<Rightarrow> Abort
         | Inr op_def \<Rightarrow>
           Done (copy, if op_def \<noteq> p_op_def props then upd_node copy (\<lambda>n. n\<lparr>n_props := map_option (\<lambda>p. p\<lparr>p_op_def := op_def\<rparr>) (n_props n)\<rparr>) g2 else g2)))"

definition UpdateProperties :: "registry \<Rightarrow> gnode \<Rightarrow> gnode" where
  "UpdateProperties ops n =
     (case n_props n of
        None \<Rightarrow> n
      | Some p \<Rightarrow>
        (case InOutTypesForNode ops (d_attr (p_def p)) (p_op_def p) of
           Inl _ \<Rightarrow> n
         | Inr (inputs, outputs) \<Rightarrow> n\<lparr>n_props := Some (p\<lparr>p_input_types := inputs, p_output_types := outputs\<rparr>)\<rparr>))"

definition AddAttr :: "registry \<Rightarrow> string \<Rightarrow> nat \<Rightarrow> gnode \<Rightarrow> gnode" where
  "AddAttr ops name val n = UpdateProperties ops (upd_def (\<lambda>d. d\<lparr>d_attr := (d_attr d)(name \<mapsto> val)\<rparr>) n)"

definition ClearAttr :: "string \<Rightarrow> gnode \<Rightarrow> gnode" where
  "ClearAttr name = upd_def (\<lambda>d. d\<lparr>d_attr := (d_attr d)(name := None)\<rparr>)"

definition set_name :: "string \<Rightarrow> gnode \<Rightarrow> gnode" where
  "set_name name = upd_def (\<lambda>d. d\<lparr>d_name := name\<rparr>)"

definition set_requested_device :: "string \<Rightarrow> gnode \<Rightarrow> gnode" where
  "set_requested_device device = upd_def (\<lambda>d. d\<lparr>d_device := device\<rparr>)"

definition set_original_node_names :: "string list \<Rightarrow> gnode \<Rightarrow> gnode" where
  "set_original_node_names names = upd_def (\<lambda>d. d\<lparr>d_original_names := names\<rparr>)"

definition set_while_ctx :: "string option \<Rightarrow> gnode \<Rightarrow> gnode" where
  "set_while_ctx w n = n\<lparr>n_while_ctx := w\<rparr>"

definition AddWhileContext :: "string \<Rightarrow> while_context \<Rightarrow> graph \<Rightarrow> (status_error + string) \<times> graph" where
  "AddWhileContext frame_name w g =
     (if while_ctxs g frame_name \<noteq> None then (Inl InvalidArgument, g)
      else (Inr frame_name, g\<lparr>while_ctxs := (while_ctxs g)(frame_name \<mapsto> w)\<rparr>))"

definition NewName :: "string \<Rightarrow> graph \<Rightarrow> string \<times> graph" where
  "NewName pre g = (pre @ ''/_'' @ FastInt32ToBufferLeft (name_counter g), g\<lparr>name_counter := name_counter g + 1\<rparr>)"

subsection \<open>Inputs of a node\<close>

definition input_edge :: "(nat list \<Rightarrow> nat list) \<Rightarrow> nat \<Rightarrow> int \<Rightarrow> graph \<Rightarrow> status_error + nat" where
  "input_edge trav a idx g =
     (if idx < 0 \<or> idx \<ge> num_inputs a g then Inl InvalidArgument
      else (case find (\<lambda>e. dst_input (edge_at g e) = idx) (es_list trav (in_edges (node_at g a))) of Some e \<Rightarrow> Inr e | None \<Rightarrow> Inl NotFound))"

fun input_edges_loop :: "graph \<Rightarrow> int \<Rightarrow> nat list \<Rightarrow> nat option list \<Rightarrow> status_error + nat option list" where
  "input_edges_loop g n [] v = Inr v"
| "input_edges_loop g n (e # es) v =
     (if IsControlEdge (edge_at g e) then input_edges_loop g n es v
      else let i = dst_input (edge_at g e) in
        if i < 0 \<or> i \<ge> n then Inl Internal
        else if v ! nat i \<noteq> None then Inl Internal
        else input_edges_loop g n es (v[nat i := Some e]))"

definition input_edges :: "(nat list \<Rightarrow> nat list) \<Rightarrow> nat \<Rightarrow> graph \<Rightarrow> status_error + nat option list" where
  "input_edges trav a g =
     (case input_edges_loop g (num_inputs a g) (es_list trav (in_edges (node_at g a))) (replicate (nat (num_inputs a g)) None) of
        Inl e \<Rightarrow> Inl e
      | Inr v \<Rightarrow> if None \<in> set v then Inl InvalidArgument else Inr v)"

definition input_node :: "(nat list \<Rightarrow> nat list) \<Rightarrow> nat \<Rightarrow> int \<Rightarrow> graph \<Rightarrow> status_error + nat" where
  "input_node trav a idx g = map_sum id (\<lambda>e. edge_src (edge_at g e)) (input_edge trav a idx g)"

definition input_tensor :: "(nat list \<Rightarrow> nat list) \<Rightarrow> nat \<Rightarrow> int \<Rightarrow> graph \<Rightarrow> status_error + (nat \<times> int)" where
  "input_tensor trav a idx g = map_sum id (\<lambda>e. (edge_src (edge_at g e), src_output (edge_at g e))) (input_edge trav a idx g)"

subsection \<open>Serialisation\<close>

definition AddInput :: "string \<Rightarrow> int \<Rightarrow> string" where
  "AddInput src_name src_slot =
     (if src_slot = kControlSlot then ''^'' @ src_name
      else if src_slot = 0 then src_name
      else src_name @ '':'' @ FastInt32ToBufferLeft src_slot)"

text \<open>A data edge is stored at its input, a control edge behind; a store outside the vector is undefined.\<close>

fun place_inputs :: "graph \<Rightarrow> nat list \<Rightarrow> nat option list \<Rightarrow> nat option list outcome" where
  "place_inputs g [] v = Done v"
| "place_inputs g (e # es) v =
     (if IsControlEdge (edge_at g e) then place_inputs g es (v @ [Some e])
      else let i = dst_input (edge_at g e) in
        if i < 0 \<or> i \<ge> int (length v) then Abort
        else if v ! nat i \<noteq> None then Abort
        else place_inputs g es (v[nat i := Some e]))"

text \<open>The names for the inputs, from the entry with number \<open>i\<close> on.\<close>

fun emit_inputs :: "graph \<Rightarrow> string list \<Rightarrow> nat \<Rightarrow> nat option list \<Rightarrow> string list" where
  "emit_inputs g requested i [] = []"
| "emit_inputs g requested i (None # v) = (if i < length requested then requested ! i else []) # emit_inputs g requested (i + 1) v"
| "emit_inputs g requested i (Some e # v) =
     (let src = edge_src (edge_at g e) in
      (if IsOp src g then [AddInput (node_name src g) (src_output (edge_at g e))] else []) @ emit_inputs g requested (i + 1) v)"

definition src_name :: "graph \<Rightarrow> nat option \<Rightarrow> string" where
  "src_name g p = (case p of Some e \<Rightarrow> node_name (edge_src (edge_at g e)) g | None \<Rightarrow> [])"

definition node_to_def :: "(nat list \<Rightarrow> nat list) \<Rightarrow> nat \<Rightarrow> graph \<Rightarrow> node_def outcome" where
  "node_to_def trav a g =
     (case n_props (node_at g a) of
        None \<Rightarrow> Abort
      | Some p \<Rightarrow>
        let def = p_def p;
            def1 = (if get_assigned_device_name a g \<noteq> [] then def\<lparr>d_device := get_assigned_device_name a g\<rparr> else def);
            n = nat (num_inputs a g) in
        obind (place_inputs g (es_list trav (in_edges (node_at g a))) (replicate n None)) (\<lambda>v.
          Done (def1\<lparr>d_input := emit_inputs g (d_input def) 0 (take n v @ sort_key (src_name g) (drop n v))\<rparr>)))"

fun nodes_to_defs :: "(nat list \<Rightarrow> nat list) \<Rightarrow> nat option list \<Rightarrow> graph \<Rightarrow> node_def list outcome" where
  "nodes_to_defs trav [] g = Done []"
| "nodes_to_defs trav (None # v) g = nodes_to_defs trav v g"
| "nodes_to_defs trav (Some a # v) g =
     (if \<not> IsOp a g then nodes_to_defs trav v g
      else obind (node_to_def trav a g) (\<lambda>d. obind (nodes_to_defs trav v g) (\<lambda>ds. Done (d # ds))))"

definition ToGraphDefSubRange :: "(nat list \<Rightarrow> nat list) \<Rightarrow> nat \<Rightarrow> graph \<Rightarrow> node_def list outcome" where
  "ToGraphDefSubRange trav from_node_id g = nodes_to_defs trav (drop from_node_id (g_nodes g)) g"

definition ToGraphDef :: "(nat list \<Rightarrow> nat list) \<Rightarrow> graph \<Rightarrow> node_def list outcome" where
  "ToGraphDef trav g = ToGraphDefSubRange trav 0 g"

end
