(* ===== verification/Graph_Correct.thy ===== *)
theory Graph_Correct
  imports Graph_Model
begin

text \<open>
  The invariant of \<open>Graph_Model\<close>: ids are positions in the vectors, an edge is in the sets of its two ends and in no others, free lists
  hold what is not in use, and the counts are right. Every operation keeps it and hits no \<^verbatim>\<open>CHECK\<close>.
\<close>

subsection \<open>The invariant\<close>

definition live_nodes :: "graph \<Rightarrow> nat set" where
  "live_nodes g = {a. Some a \<in> set (g_nodes g)}"

definition live_edges :: "graph \<Rightarrow> nat set" where
  "live_edges g = {e. Some e \<in> set (g_edges g)}"

definition idle :: "gnode \<Rightarrow> bool" where
  "idle n \<longleftrightarrow> n_id n = - 1 \<and> n_device n = 0 \<and> in_edges n = EdgeSet \<and> out_edges n = EdgeSet"

definition nodes_ok :: "graph \<Rightarrow> bool" where
  "nodes_ok g \<longleftrightarrow>
     (\<forall>i < length (g_nodes g). \<forall>a. g_nodes g ! i = Some a \<longrightarrow> n_id (node_at g a) = int i \<and> a < next_node g \<and> n_props (node_at g a) \<noteq> None) \<and>
     distinct (free_nodes g) \<and> (\<forall>a \<in> set (free_nodes g). a < next_node g \<and> a \<notin> live_nodes g \<and> idle (node_at g a)) \<and>
     num_nodes g = int (length (filter (\<lambda>p. p \<noteq> None) (g_nodes g)))"

definition edges_ok :: "graph \<Rightarrow> bool" where
  "edges_ok g \<longleftrightarrow>
     (\<forall>i < length (g_edges g). \<forall>e. g_edges g ! i = Some e \<longrightarrow>
        edge_id (edge_at g e) = i \<and> e < next_edge g \<and> edge_src (edge_at g e) \<in> live_nodes g \<and> edge_dst (edge_at g e) \<in> live_nodes g) \<and>
     distinct (free_edges g) \<and> (\<forall>e \<in> set (free_edges g). e < next_edge g \<and> e \<notin> live_edges g) \<and>
     num_edges g = int (length (filter (\<lambda>p. p \<noteq> None) (g_edges g)))"

text \<open>While a node is removed, its own sets still name edges that are gone: \<open>X\<close> and \<open>Y\<close> are the nodes whose incoming and outgoing edges are not right.\<close>

definition sets_ok :: "nat set \<Rightarrow> nat set \<Rightarrow> graph \<Rightarrow> bool" where
  "sets_ok X Y g \<longleftrightarrow> (\<forall>a \<in> live_nodes g. es_ok (in_edges (node_at g a)) \<and> es_ok (out_edges (node_at g a)) \<and>
     (a \<notin> X \<longrightarrow> es_set (in_edges (node_at g a)) = {e \<in> live_edges g. edge_dst (edge_at g e) = a}) \<and>
     (a \<notin> Y \<longrightarrow> es_set (out_edges (node_at g a)) = {e \<in> live_edges g. edge_src (edge_at g e) = a}))"

definition graph_ok :: "graph \<Rightarrow> bool" where
  "graph_ok g \<longleftrightarrow> nodes_ok g \<and> edges_ok g \<and> sets_ok {} {} g"

text \<open>The source and the sink.\<close>

definition rooted :: "graph \<Rightarrow> bool" where
  "rooted g \<longleftrightarrow> 2 \<le> length (g_nodes g) \<and> g_nodes g ! 0 \<noteq> None \<and> g_nodes g ! 1 \<noteq> None"

subsection \<open>Vectors with holes\<close>

lemma some_in_nth: "Some a \<in> set v \<longleftrightarrow> (\<exists>i < length v. v ! i = Some a)"
  by (metis in_set_conv_nth)

lemma count_drop: "i < length v \<Longrightarrow> v ! i = Some a \<Longrightarrow> int (length (filter (\<lambda>p. p \<noteq> None) (v[i := None]))) = int (length (filter (\<lambda>p. p \<noteq> None) v)) - 1"
proof (induction v arbitrary: i)
  case (Cons x v)
  then show ?case by (cases i) auto
qed simp

lemma count_pos: "Some a \<in> set v \<Longrightarrow> 0 < length (filter (\<lambda>p. p \<noteq> None) v)"
  by (induction v) auto

lemma set_drop:
  assumes "\<And>j b. j < length v \<Longrightarrow> v ! j = Some b \<Longrightarrow> f b = j" "Some a \<in> set v"
  shows "f a < length v" "v ! f a = Some a" "Some b \<in> set (v[f a := None]) \<longleftrightarrow> Some b \<in> set v \<and> b \<noteq> a"
proof -
  obtain i where i: "i < length v" "v ! i = Some a" using assms(2) some_in_nth by metis
  then show fa: "f a < length v" "v ! f a = Some a" using assms(1) by auto
  show "Some b \<in> set (v[f a := None]) \<longleftrightarrow> Some b \<in> set v \<and> b \<noteq> a"
  proof
    assume "Some b \<in> set (v[f a := None])"
    then obtain j where j: "j < length v" "v[f a := None] ! j = Some b" by (auto simp: in_set_conv_nth)
    then have "j \<noteq> f a" "v ! j = Some b" using fa by (auto simp: nth_list_update split: if_splits)
    then show "Some b \<in> set v \<and> b \<noteq> a" using j(1) assms(1) nth_mem by metis
  next
    assume b: "Some b \<in> set v \<and> b \<noteq> a"
    then obtain j where j: "j < length v" "v ! j = Some b" using some_in_nth by metis
    then have "j \<noteq> f a" using fa b by auto
    then show "Some b \<in> set (v[f a := None])" using j by (metis length_list_update nth_list_update_neq nth_mem)
  qed
qed

text \<open>Taking the last element off a free list, or a new object when it is empty.\<close>

lemma pop_free:
  fixes n :: nat
  assumes "distinct fs" "a = (if fs = [] then n else last fs)" "\<forall>b \<in> set fs. b < n"
  shows "distinct (butlast fs)" "set (butlast fs) \<subseteq> set fs - {a}" "a < (if fs = [] then n + 1 else n)" "fs \<noteq> [] \<Longrightarrow> a \<in> set fs"
proof -
  show "distinct (butlast fs)" using assms(1) by (rule distinct_butlast)
  show "set (butlast fs) \<subseteq> set fs - {a}" by (cases fs rule: rev_cases) (use assms(1,2) in auto)
  show mem: "a \<in> set fs" if "fs \<noteq> []" using assms(2) that by simp
  show "a < (if fs = [] then n + 1 else n)" using mem assms(2,3) by auto
qed

lemma nodes_okD:
  assumes "nodes_ok g"
  shows "i < length (g_nodes g) \<Longrightarrow> g_nodes g ! i = Some a \<Longrightarrow> n_id (node_at g a) = int i \<and> a < next_node g \<and> n_props (node_at g a) \<noteq> None"
    "distinct (free_nodes g)" "a \<in> set (free_nodes g) \<Longrightarrow> a < next_node g \<and> a \<notin> live_nodes g \<and> idle (node_at g a)"
    "num_nodes g = int (length (filter (\<lambda>p. p \<noteq> None) (g_nodes g)))"
  using assms unfolding nodes_ok_def by blast+

lemma nodes_okI:
  assumes "\<And>i a. i < length (g_nodes g) \<Longrightarrow> g_nodes g ! i = Some a \<Longrightarrow> n_id (node_at g a) = int i \<and> a < next_node g \<and> n_props (node_at g a) \<noteq> None"
    "distinct (free_nodes g)" "\<And>a. a \<in> set (free_nodes g) \<Longrightarrow> a < next_node g \<and> a \<notin> live_nodes g \<and> idle (node_at g a)"
    "num_nodes g = int (length (filter (\<lambda>p. p \<noteq> None) (g_nodes g)))"
  shows "nodes_ok g"
  using assms unfolding nodes_ok_def by blast

lemma edges_okD:
  assumes "edges_ok g"
  shows "i < length (g_edges g) \<Longrightarrow> g_edges g ! i = Some e \<Longrightarrow>
      edge_id (edge_at g e) = i \<and> e < next_edge g \<and> edge_src (edge_at g e) \<in> live_nodes g \<and> edge_dst (edge_at g e) \<in> live_nodes g"
    "distinct (free_edges g)" "e \<in> set (free_edges g) \<Longrightarrow> e < next_edge g \<and> e \<notin> live_edges g"
    "num_edges g = int (length (filter (\<lambda>p. p \<noteq> None) (g_edges g)))"
  using assms unfolding edges_ok_def by blast+

lemma edges_okI:
  assumes "\<And>i e. i < length (g_edges g) \<Longrightarrow> g_edges g ! i = Some e \<Longrightarrow>
      edge_id (edge_at g e) = i \<and> e < next_edge g \<and> edge_src (edge_at g e) \<in> live_nodes g \<and> edge_dst (edge_at g e) \<in> live_nodes g"
    "distinct (free_edges g)" "\<And>e. e \<in> set (free_edges g) \<Longrightarrow> e < next_edge g \<and> e \<notin> live_edges g"
    "num_edges g = int (length (filter (\<lambda>p. p \<noteq> None) (g_edges g)))"
  shows "edges_ok g"
  using assms unfolding edges_ok_def by blast

lemma live_node_at:
  assumes "nodes_ok g" "a \<in> live_nodes g"
  shows "n_id (node_at g a) = int (nat (n_id (node_at g a)))" "nat (n_id (node_at g a)) < length (g_nodes g)" "g_nodes g ! nat (n_id (node_at g a)) = Some a"
    "a < next_node g" "a \<notin> set (free_nodes g)" "n_props (node_at g a) \<noteq> None"
proof -
  obtain i where i: "i < length (g_nodes g)" "g_nodes g ! i = Some a"
    using assms(2) some_in_nth [of a "g_nodes g"] by (auto simp: live_nodes_def)
  note d = nodes_okD(1) [OF assms(1) i]
  then show "n_id (node_at g a) = int (nat (n_id (node_at g a)))" "nat (n_id (node_at g a)) < length (g_nodes g)"
    "g_nodes g ! nat (n_id (node_at g a)) = Some a" "a < next_node g" "n_props (node_at g a) \<noteq> None" using i by simp_all
  show "a \<notin> set (free_nodes g)" using nodes_okD(3) [OF assms(1)] assms(2) by blast
qed

lemma live_edge_at:
  assumes "edges_ok g" "e \<in> live_edges g"
  shows "edge_id (edge_at g e) < length (g_edges g)" "g_edges g ! edge_id (edge_at g e) = Some e" "e < next_edge g" "e \<notin> set (free_edges g)"
    "edge_src (edge_at g e) \<in> live_nodes g" "edge_dst (edge_at g e) \<in> live_nodes g"
proof -
  obtain i where i: "i < length (g_edges g)" "g_edges g ! i = Some e"
    using assms(2) some_in_nth [of e "g_edges g"] by (auto simp: live_edges_def)
  note d = edges_okD(1) [OF assms(1) i]
  then show "edge_id (edge_at g e) < length (g_edges g)" "g_edges g ! edge_id (edge_at g e) = Some e" "e < next_edge g"
    "edge_src (edge_at g e) \<in> live_nodes g" "edge_dst (edge_at g e) \<in> live_nodes g" using i by simp_all
  show "e \<notin> set (free_edges g)" using edges_okD(3) [OF assms(1)] assms(2) by blast
qed

subsection \<open>Changes of one node\<close>

lemma upd_node_fields [simp]:
  "g_nodes (upd_node a f g) = g_nodes g" "g_edges (upd_node a f g) = g_edges g" "edge_at (upd_node a f g) = edge_at g"
  "next_node (upd_node a f g) = next_node g" "next_edge (upd_node a f g) = next_edge g" "free_nodes (upd_node a f g) = free_nodes g"
  "free_edges (upd_node a f g) = free_edges g" "num_nodes (upd_node a f g) = num_nodes g" "num_edges (upd_node a f g) = num_edges g"
  "live_nodes (upd_node a f g) = live_nodes g" "live_edges (upd_node a f g) = live_edges g"
  "node_at (upd_node a f g) b = (if b = a then f (node_at g a) else node_at g b)"
  "device_names (upd_node a f g) = device_names g" "device_names_map (upd_node a f g) = device_names_map g"
  by (simp_all add: upd_node_def live_nodes_def live_edges_def)

lemma edges_ok_upd [simp]: "edges_ok (upd_node a f g) = edges_ok g"
  by (simp add: edges_ok_def)

lemma nodes_ok_upd:
  assumes "nodes_ok g" "a \<in> live_nodes g" "\<And>n. n_id (f n) = n_id n" "\<And>n. n_props n \<noteq> None \<Longrightarrow> n_props (f n) \<noteq> None"
  shows "nodes_ok (upd_node a f g)"
proof (rule nodes_okI)
  fix b assume "b \<in> set (free_nodes (upd_node a f g))"
  then show "b < next_node (upd_node a f g) \<and> b \<notin> live_nodes (upd_node a f g) \<and> idle (node_at (upd_node a f g) b)"
    using nodes_okD(3) [OF assms(1), of b] assms(2) by auto
next
  fix i b assume "i < length (g_nodes (upd_node a f g))" "g_nodes (upd_node a f g) ! i = Some b"
  then show "n_id (node_at (upd_node a f g) b) = int i \<and> b < next_node (upd_node a f g) \<and> n_props (node_at (upd_node a f g) b) \<noteq> None"
    using nodes_okD(1) [OF assms(1), of i b] assms(3) assms(4) [of "node_at g b"] by auto
qed (use nodes_okD(2,4) [OF assms(1)] in simp_all)

text \<open>What the operations on edges keep of the nodes.\<close>

definition same_nodes :: "graph \<Rightarrow> graph \<Rightarrow> bool" where
  "same_nodes g g' \<longleftrightarrow> g_nodes g' = g_nodes g \<and> next_node g' = next_node g \<and> free_nodes g' = free_nodes g \<and> num_nodes g' = num_nodes g \<and>
     device_names g' = device_names g \<and> device_names_map g' = device_names_map g \<and>
     (\<forall>a. n_id (node_at g' a) = n_id (node_at g a) \<and> n_props (node_at g' a) = n_props (node_at g a) \<and> n_device (node_at g' a) = n_device (node_at g a) \<and>
        n_cost_id (node_at g' a) = n_cost_id (node_at g a) \<and> n_while_ctx (node_at g' a) = n_while_ctx (node_at g a))"

lemma same_nodes_refl [simp]: "same_nodes g g"
  by (simp add: same_nodes_def)

lemma same_nodes_trans [trans]: "same_nodes g g' \<Longrightarrow> same_nodes g' g'' \<Longrightarrow> same_nodes g g''"
  by (simp add: same_nodes_def)

lemma same_nodes_live: "same_nodes g g' \<Longrightarrow> live_nodes g' = live_nodes g"
  by (simp add: same_nodes_def live_nodes_def)

lemma same_nodes_upd:
  "(\<And>n. n_id (f n) = n_id n \<and> n_props (f n) = n_props n \<and> n_device (f n) = n_device n \<and> n_cost_id (f n) = n_cost_id n \<and> n_while_ctx (f n) = n_while_ctx n) \<Longrightarrow>
   same_nodes g (upd_node a f g)"
  by (simp add: same_nodes_def)

lemma sets_okD:
  assumes "sets_ok X Y g" "a \<in> live_nodes g"
  shows "es_ok (in_edges (node_at g a))" "es_ok (out_edges (node_at g a))"
    "a \<notin> X \<Longrightarrow> es_set (in_edges (node_at g a)) = {e \<in> live_edges g. edge_dst (edge_at g e) = a}"
    "a \<notin> Y \<Longrightarrow> es_set (out_edges (node_at g a)) = {e \<in> live_edges g. edge_src (edge_at g e) = a}"
  using assms unfolding sets_ok_def by blast+

subsection \<open>Removing edges\<close>

lemma drop_edge_fields [simp]:
  "g_nodes (drop_edge e g) = g_nodes g" "node_at (drop_edge e g) = node_at g" "edge_at (drop_edge e g) = edge_at g" "next_node (drop_edge e g) = next_node g"
  "next_edge (drop_edge e g) = next_edge g" "free_nodes (drop_edge e g) = free_nodes g" "num_nodes (drop_edge e g) = num_nodes g"
  "live_nodes (drop_edge e g) = live_nodes g" "nodes_ok (drop_edge e g) = nodes_ok g" "same_nodes g (drop_edge e g)"
  by (simp_all add: drop_edge_def RecycleEdge_def live_nodes_def nodes_ok_def same_nodes_def)

lemma drop_edge_ok:
  assumes "edges_ok g" "e \<in> live_edges g"
  shows "edges_ok (drop_edge e g)" "live_edges (drop_edge e g) = live_edges g - {e}"
proof -
  let ?v = "g_edges g" and ?f = "\<lambda>e. edge_id (edge_at g e)"
  have v: "g_edges (drop_edge e g) = ?v[?f e := None]" by (simp add: drop_edge_def RecycleEdge_def)
  note d = set_drop [of ?v ?f e, OF _ assms(2) [unfolded live_edges_def mem_Collect_eq]]
  have f: "\<And>j b. j < length ?v \<Longrightarrow> ?v ! j = Some b \<Longrightarrow> ?f b = j" using edges_okD(1) [OF assms(1)] by blast
  show live: "live_edges (drop_edge e g) = live_edges g - {e}" unfolding live_edges_def v using d(3) [OF f] by blast
  show "edges_ok (drop_edge e g)"
  proof (rule edges_okI)
    fix i b assume "i < length (g_edges (drop_edge e g))" "g_edges (drop_edge e g) ! i = Some b"
    then have "i < length ?v" "?v ! i = Some b" unfolding v by (cases "?f e = i"; simp)+
    then show "edge_id (edge_at (drop_edge e g) b) = i \<and> b < next_edge (drop_edge e g) \<and> edge_src (edge_at (drop_edge e g) b) \<in> live_nodes (drop_edge e g) \<and>
      edge_dst (edge_at (drop_edge e g) b) \<in> live_nodes (drop_edge e g)" using edges_okD(1) [OF assms(1)] by simp
  next
    have fr: "free_edges (drop_edge e g) = free_edges g @ [e]" by (simp add: drop_edge_def RecycleEdge_def)
    show "distinct (free_edges (drop_edge e g))" using edges_okD(2) [OF assms(1)] live_edge_at(4) [OF assms] fr by simp
    fix b assume "b \<in> set (free_edges (drop_edge e g))"
    then show "b < next_edge (drop_edge e g) \<and> b \<notin> live_edges (drop_edge e g)"
      using edges_okD(3) [OF assms(1), of b] live_edge_at(3) [OF assms] live fr by auto
  next
    show "num_edges (drop_edge e g) = int (length (filter (\<lambda>p. p \<noteq> None) (g_edges (drop_edge e g))))"
      using count_drop [OF live_edge_at(1,2) [OF assms]] edges_okD(4) [OF assms(1)] unfolding v by (simp add: drop_edge_def RecycleEdge_def)
  qed
qed

lemma erase_out_ok:
  assumes "es_ok (out_edges (node_at g a))" "e \<in> es_set (out_edges (node_at g a))"
  shows "\<exists>s. erase_out a e g = Done (upd_node a (\<lambda>n. n\<lparr>out_edges := s\<rparr>) g) \<and> es_ok s \<and> es_set s = es_set (out_edges (node_at g a)) - {e}"
proof -
  obtain s c where p: "es_erase e (out_edges (node_at g a)) = (s, c)" by (cases "es_erase e (out_edges (node_at g a))")
  then show ?thesis using es.erase_ok [OF assms(1), of e] assms(2) by (intro exI [of _ s]) (simp add: erase_out_def)
qed

lemma erase_in_ok:
  assumes "es_ok (in_edges (node_at g a))" "e \<in> es_set (in_edges (node_at g a))"
  shows "\<exists>s. erase_in a e g = Done (upd_node a (\<lambda>n. n\<lparr>in_edges := s\<rparr>) g) \<and> es_ok s \<and> es_set s = es_set (in_edges (node_at g a)) - {e}"
proof -
  obtain s c where p: "es_erase e (in_edges (node_at g a)) = (s, c)" by (cases "es_erase e (in_edges (node_at g a))")
  then show ?thesis using es.erase_ok [OF assms(1), of e] assms(2) by (intro exI [of _ s]) (simp add: erase_in_def)
qed

text \<open>An edge that is removed from one of its two sets, while the node at the other end is being removed.\<close>

lemma erase_out_step:
  assumes ok: "nodes_ok g" "edges_ok g" "sets_ok X Y g" and e: "e \<in> live_edges g" "edge_dst (edge_at g e) \<in> X" "edge_src (edge_at g e) \<notin> Y"
  shows "\<exists>g1. erase_out (edge_src (edge_at g e)) e g = Done g1 \<and> nodes_ok (drop_edge e g1) \<and> edges_ok (drop_edge e g1) \<and> sets_ok X Y (drop_edge e g1) \<and>
    live_edges (drop_edge e g1) = live_edges g - {e} \<and> edge_at (drop_edge e g1) = edge_at g \<and> same_nodes g (drop_edge e g1) \<and>
    (\<forall>b. in_edges (node_at (drop_edge e g1) b) = in_edges (node_at g b))"
proof -
  let ?a = "edge_src (edge_at g e)"
  have a: "?a \<in> live_nodes g" using live_edge_at(5) [OF ok(2) e(1)] .
  note s = sets_okD [OF ok(3) a]
  obtain S where S: "erase_out ?a e g = Done (upd_node ?a (\<lambda>n. n\<lparr>out_edges := S\<rparr>) g)" "es_ok S" "es_set S = es_set (out_edges (node_at g ?a)) - {e}"
    using erase_out_ok [OF s(2)] s(4) e by blast
  let ?g1 = "upd_node ?a (\<lambda>n. n\<lparr>out_edges := S\<rparr>) g"
  have n: "nodes_ok ?g1" using nodes_ok_upd [OF ok(1) a] by simp
  note d = drop_edge_ok [of ?g1 e, simplified, OF ok(2) e(1)]
  have "sets_ok X Y (drop_edge e ?g1)"
    using ok(3) S(2,3) s(4) e unfolding sets_ok_def d(2) by auto
  moreover have "same_nodes g (drop_edge e ?g1)" by (rule same_nodes_trans [OF same_nodes_upd drop_edge_fields(10)]) simp
  ultimately show ?thesis using S(1) n d by (intro exI [of _ ?g1]) simp
qed

lemma erase_in_step:
  assumes ok: "nodes_ok g" "edges_ok g" "sets_ok X Y g" and e: "e \<in> live_edges g" "edge_src (edge_at g e) \<in> Y" "edge_dst (edge_at g e) \<notin> X"
  shows "\<exists>g1. erase_in (edge_dst (edge_at g e)) e g = Done g1 \<and> nodes_ok (drop_edge e g1) \<and> edges_ok (drop_edge e g1) \<and> sets_ok X Y (drop_edge e g1) \<and>
    live_edges (drop_edge e g1) = live_edges g - {e} \<and> edge_at (drop_edge e g1) = edge_at g \<and> same_nodes g (drop_edge e g1) \<and>
    (\<forall>b. out_edges (node_at (drop_edge e g1) b) = out_edges (node_at g b))"
proof -
  let ?a = "edge_dst (edge_at g e)"
  have a: "?a \<in> live_nodes g" using live_edge_at(6) [OF ok(2) e(1)] .
  note s = sets_okD [OF ok(3) a]
  obtain S where S: "erase_in ?a e g = Done (upd_node ?a (\<lambda>n. n\<lparr>in_edges := S\<rparr>) g)" "es_ok S" "es_set S = es_set (in_edges (node_at g ?a)) - {e}"
    using erase_in_ok [OF s(1)] s(3) e by blast
  let ?g1 = "upd_node ?a (\<lambda>n. n\<lparr>in_edges := S\<rparr>) g"
  have n: "nodes_ok ?g1" using nodes_ok_upd [OF ok(1) a] by simp
  note d = drop_edge_ok [of ?g1 e, simplified, OF ok(2) e(1)]
  have "sets_ok X Y (drop_edge e ?g1)"
    using ok(3) S(2,3) s(3) e unfolding sets_ok_def d(2) by auto
  moreover have "same_nodes g (drop_edge e ?g1)" by (rule same_nodes_trans [OF same_nodes_upd drop_edge_fields(10)]) simp
  ultimately show ?thesis using S(1) n d by (intro exI [of _ ?g1]) simp
qed

lemma remove_in_edges_ok:
  "nodes_ok g \<Longrightarrow> edges_ok g \<Longrightarrow> sets_ok {a} {} g \<Longrightarrow> distinct es \<Longrightarrow> \<forall>e \<in> set es. e \<in> live_edges g \<and> edge_dst (edge_at g e) = a \<Longrightarrow>
   \<exists>g'. remove_in_edges es g = Done g' \<and> nodes_ok g' \<and> edges_ok g' \<and> sets_ok {a} {} g' \<and> live_edges g' = live_edges g - set es \<and>
     edge_at g' = edge_at g \<and> same_nodes g g'"
proof (induction es arbitrary: g)
  case (Cons e es)
  have e: "e \<in> live_edges g" "edge_dst (edge_at g e) \<in> {a}" "edge_src (edge_at g e) \<notin> {}" using Cons.prems(5) by simp_all
  obtain g1 where g1: "erase_out (edge_src (edge_at g e)) e g = Done g1" "nodes_ok (drop_edge e g1)" "edges_ok (drop_edge e g1)" "sets_ok {a} {} (drop_edge e g1)"
      "live_edges (drop_edge e g1) = live_edges g - {e}" "edge_at (drop_edge e g1) = edge_at g" "same_nodes g (drop_edge e g1)"
    using erase_out_step [OF Cons.prems(1-3) e] by blast
  have "\<forall>d \<in> set es. d \<in> live_edges (drop_edge e g1) \<and> edge_dst (edge_at (drop_edge e g1) d) = a" using Cons.prems(4,5) g1(5,6) by auto
  then obtain g' where "remove_in_edges es (drop_edge e g1) = Done g'" "nodes_ok g'" "edges_ok g'" "sets_ok {a} {} g'"
      "live_edges g' = live_edges (drop_edge e g1) - set es" "edge_at g' = edge_at (drop_edge e g1)" "same_nodes (drop_edge e g1) g'"
    using Cons.IH [OF g1(2-4)] Cons.prems(4) by auto
  then show ?case using g1 same_nodes_trans [OF g1(7)] by (intro exI [of _ g']) auto
qed auto

lemma remove_out_edges_ok:
  "nodes_ok g \<Longrightarrow> edges_ok g \<Longrightarrow> sets_ok {} {a} g \<Longrightarrow> distinct es \<Longrightarrow> \<forall>e \<in> set es. e \<in> live_edges g \<and> edge_src (edge_at g e) = a \<Longrightarrow>
   \<exists>g'. remove_out_edges es g = Done g' \<and> nodes_ok g' \<and> edges_ok g' \<and> sets_ok {} {a} g' \<and> live_edges g' = live_edges g - set es \<and>
     edge_at g' = edge_at g \<and> same_nodes g g'"
proof (induction es arbitrary: g)
  case (Cons e es)
  have e: "e \<in> live_edges g" "edge_src (edge_at g e) \<in> {a}" "edge_dst (edge_at g e) \<notin> {}" using Cons.prems(5) by simp_all
  obtain g1 where g1: "erase_in (edge_dst (edge_at g e)) e g = Done g1" "nodes_ok (drop_edge e g1)" "edges_ok (drop_edge e g1)" "sets_ok {} {a} (drop_edge e g1)"
      "live_edges (drop_edge e g1) = live_edges g - {e}" "edge_at (drop_edge e g1) = edge_at g" "same_nodes g (drop_edge e g1)"
    using erase_in_step [OF Cons.prems(1-3) e] by blast
  have "\<forall>d \<in> set es. d \<in> live_edges (drop_edge e g1) \<and> edge_src (edge_at (drop_edge e g1) d) = a" using Cons.prems(4,5) g1(5,6) by auto
  then obtain g' where "remove_out_edges es (drop_edge e g1) = Done g'" "nodes_ok g'" "edges_ok g'" "sets_ok {} {a} g'"
      "live_edges g' = live_edges (drop_edge e g1) - set es" "edge_at g' = edge_at (drop_edge e g1)" "same_nodes (drop_edge e g1) g'"
    using Cons.IH [OF g1(2-4)] Cons.prems(4) by auto
  then show ?case using g1 same_nodes_trans [OF g1(7)] by (intro exI [of _ g']) auto
qed auto

lemma sets_ok_mono: "sets_ok X Y g \<Longrightarrow> X \<subseteq> X' \<Longrightarrow> Y \<subseteq> Y' \<Longrightarrow> sets_ok X' Y' g"
  unfolding sets_ok_def by blast

lemma RemoveEdge_ok:
  assumes "graph_ok g" "e \<in> live_edges g"
  shows "\<exists>g'. RemoveEdge e g = Done g' \<and> graph_ok g' \<and> live_edges g' = live_edges g - {e} \<and> edge_at g' = edge_at g \<and> same_nodes g g'"
proof -
  have ok: "nodes_ok g" "edges_ok g" "sets_ok {} {} g" using assms(1) by (simp_all add: graph_ok_def)
  let ?s = "edge_src (edge_at g e)" and ?d = "edge_dst (edge_at g e)"
  have sd: "?s \<in> live_nodes g" "?d \<in> live_nodes g" using live_edge_at(5,6) [OF ok(2) assms(2)] .
  note so = sets_okD [OF ok(3) sd(1)] and si = sets_okD [OF ok(3) sd(2)]
  obtain S where S: "erase_out ?s e g = Done (upd_node ?s (\<lambda>n. n\<lparr>out_edges := S\<rparr>) g)" "es_ok S" "es_set S = es_set (out_edges (node_at g ?s)) - {e}"
    using erase_out_ok [OF so(2)] so(4) assms(2) by blast
  let ?g1 = "upd_node ?s (\<lambda>n. n\<lparr>out_edges := S\<rparr>) g"
  have in1: "in_edges (node_at ?g1 ?d) = in_edges (node_at g ?d)" by simp
  obtain D where D: "erase_in ?d e ?g1 = Done (upd_node ?d (\<lambda>n. n\<lparr>in_edges := D\<rparr>) ?g1)" "es_ok D" "es_set D = es_set (in_edges (node_at g ?d)) - {e}"
    using erase_in_ok [of ?g1 ?d e] si(1,3) assms(2) unfolding in1 by blast
  let ?g2 = "upd_node ?d (\<lambda>n. n\<lparr>in_edges := D\<rparr>) ?g1"
  have n: "nodes_ok ?g2" using nodes_ok_upd [OF nodes_ok_upd [OF ok(1) sd(1)]] sd(2) by simp
  note dr = drop_edge_ok [of ?g2 e, simplified, OF ok(2) assms(2)]
  have "sets_ok {} {} (drop_edge e ?g2)"
    using ok(3) S(2,3) D(2,3) so(4) si(3) unfolding sets_ok_def dr(2) by auto
  moreover have "RemoveEdge e g = Done (drop_edge e ?g2)"
    using S(1) D(1) live_edge_at(1,2) [OF ok(2) assms(2)] edges_okD(4) [OF ok(2)] count_pos [of e "g_edges g"] assms(2)
    by (simp add: RemoveEdge_def Let_def live_edges_def)
  moreover have "same_nodes g (drop_edge e ?g2)"
    by (rule same_nodes_trans [OF same_nodes_trans [OF same_nodes_upd same_nodes_upd] drop_edge_fields(10)]) simp_all
  ultimately show ?thesis using n dr unfolding graph_ok_def by (intro exI [of _ "drop_edge e ?g2"]) simp
qed

subsection \<open>Removing nodes\<close>

lemma ReleaseNode_ok:
  assumes "graph_ok g" "a \<in> live_nodes g" "\<forall>e \<in> live_edges g. edge_src (edge_at g e) \<noteq> a \<and> edge_dst (edge_at g e) \<noteq> a"
  shows "graph_ok (ReleaseNode a g)" "live_nodes (ReleaseNode a g) = live_nodes g - {a}" "live_edges (ReleaseNode a g) = live_edges g"
    "edge_at (ReleaseNode a g) = edge_at g" "b \<noteq> a \<Longrightarrow> node_at (ReleaseNode a g) b = node_at g b"
    "g_nodes (ReleaseNode a g) = (g_nodes g)[nat (n_id (node_at g a)) := None]"
proof -
  have ok: "nodes_ok g" "edges_ok g" "sets_ok {} {} g" using assms(1) by (simp_all add: graph_ok_def)
  let ?g = "ReleaseNode a g" and ?f = "\<lambda>a. nat (n_id (node_at g a))"
  show v: "g_nodes ?g = (g_nodes g)[?f a := None]" and le: "live_edges ?g = live_edges g" and ea: "edge_at ?g = edge_at g"
    and na: "b \<noteq> a \<Longrightarrow> node_at ?g b = node_at g b" for b by (simp_all add: ReleaseNode_def live_edges_def)
  have f: "\<And>j b. j < length (g_nodes g) \<Longrightarrow> g_nodes g ! j = Some b \<Longrightarrow> ?f b = j" using nodes_okD(1) [OF ok(1)] by fastforce
  note d = set_drop [of "g_nodes g" ?f a, OF f assms(2) [unfolded live_nodes_def mem_Collect_eq]]
  show live: "live_nodes ?g = live_nodes g - {a}" unfolding live_nodes_def v using d(3) by blast
  have fields: "next_node ?g = next_node g" "free_nodes ?g = free_nodes g @ [a]" "num_nodes ?g = num_nodes g - 1" "next_edge ?g = next_edge g"
    "free_edges ?g = free_edges g" "num_edges ?g = num_edges g" "g_edges ?g = g_edges g" "idle (node_at ?g a)"
    by (simp_all add: ReleaseNode_def idle_def Clear_node_def es_clear_def)
  have "nodes_ok ?g"
  proof (rule nodes_okI)
    fix i b assume i: "i < length (g_nodes ?g)" "g_nodes ?g ! i = Some b"
    then have i': "i < length (g_nodes g)" "g_nodes g ! i = Some b" unfolding v by (cases "?f a = i"; simp)+
    have "b \<in> live_nodes ?g" using i unfolding live_nodes_def by (auto simp: in_set_conv_nth)
    then have "b \<noteq> a" using live by simp
    then show "n_id (node_at ?g b) = int i \<and> b < next_node ?g \<and> n_props (node_at ?g b) \<noteq> None" using nodes_okD(1) [OF ok(1) i'] na fields by simp
  next
    show "distinct (free_nodes ?g)" using nodes_okD(2) [OF ok(1)] live_node_at(5) [OF ok(1) assms(2)] fields by simp
    fix b assume "b \<in> set (free_nodes ?g)"
    then show "b < next_node ?g \<and> b \<notin> live_nodes ?g \<and> idle (node_at ?g b)"
      using nodes_okD(3) [OF ok(1), of b] live_node_at(4) [OF ok(1) assms(2)] fields(1,2,8) live na [of b] by (cases "b = a") simp_all
  next
    show "num_nodes ?g = int (length (filter (\<lambda>p. p \<noteq> None) (g_nodes ?g)))"
      unfolding fields(3) v nodes_okD(4) [OF ok(1)] by (rule count_drop [OF d(1,2), symmetric])
  qed
  moreover have "edges_ok ?g"
  proof (rule edges_okI)
    fix i e assume "i < length (g_edges ?g)" "g_edges ?g ! i = Some e"
    then have i: "i < length (g_edges g)" "g_edges g ! i = Some e" by (simp_all add: fields)
    then have "e \<in> live_edges g" unfolding live_edges_def by (metis mem_Collect_eq nth_mem)
    then show "edge_id (edge_at ?g e) = i \<and> e < next_edge ?g \<and> edge_src (edge_at ?g e) \<in> live_nodes ?g \<and> edge_dst (edge_at ?g e) \<in> live_nodes ?g"
      using edges_okD(1) [OF ok(2) i] assms(3) by (simp add: fields ea live)
  next
    fix e assume "e \<in> set (free_edges ?g)"
    then show "e < next_edge ?g \<and> e \<notin> live_edges ?g" using edges_okD(3) [OF ok(2), of e] by (simp add: fields le)
  qed (use edges_okD(2,4) [OF ok(2)] in \<open>simp_all add: fields\<close>)
  moreover have "sets_ok {} {} ?g" using ok(3) na unfolding sets_ok_def live le ea by auto
  ultimately show "graph_ok ?g" by (simp add: graph_ok_def)
qed

lemma clear_in_ok:
  assumes "nodes_ok g" "edges_ok g" "sets_ok {a} {} g" "a \<in> live_nodes g" "\<forall>e \<in> live_edges g. edge_dst (edge_at g e) \<noteq> a"
  shows "graph_ok (upd_node a (\<lambda>n. n\<lparr>in_edges := es_clear (in_edges n)\<rparr>) g)"
proof -
  have "nodes_ok (upd_node a (\<lambda>n. n\<lparr>in_edges := es_clear (in_edges n)\<rparr>) g)" using nodes_ok_upd [OF assms(1,4)] by simp
  moreover have "sets_ok {} {} (upd_node a (\<lambda>n. n\<lparr>in_edges := es_clear (in_edges n)\<rparr>) g)"
    using assms(3,5) es.empty_ok by (auto simp: sets_ok_def es_clear_def)
  ultimately show ?thesis using assms(2) by (simp add: graph_ok_def)
qed

lemma clear_out_ok:
  assumes "nodes_ok g" "edges_ok g" "sets_ok {} {a} g" "a \<in> live_nodes g" "\<forall>e \<in> live_edges g. edge_src (edge_at g e) \<noteq> a"
  shows "graph_ok (upd_node a (\<lambda>n. n\<lparr>out_edges := es_clear (out_edges n)\<rparr>) g)"
proof -
  have "nodes_ok (upd_node a (\<lambda>n. n\<lparr>out_edges := es_clear (out_edges n)\<rparr>) g)" using nodes_ok_upd [OF assms(1,4)] by simp
  moreover have "sets_ok {} {} (upd_node a (\<lambda>n. n\<lparr>out_edges := es_clear (out_edges n)\<rparr>) g)"
    using assms(3,5) es.empty_ok by (auto simp: sets_ok_def es_clear_def)
  ultimately show ?thesis using assms(2) by (simp add: graph_ok_def)
qed

definition same_props :: "nat set \<Rightarrow> graph \<Rightarrow> graph \<Rightarrow> bool" where
  "same_props A g g' \<longleftrightarrow> device_names g' = device_names g \<and> device_names_map g' = device_names_map g \<and>
     (\<forall>a \<in> A. n_id (node_at g' a) = n_id (node_at g a) \<and> n_props (node_at g' a) = n_props (node_at g a) \<and> n_device (node_at g' a) = n_device (node_at g a))"

lemma same_nodes_props:
  "same_nodes g h \<Longrightarrow> device_names g' = device_names h \<Longrightarrow> device_names_map g' = device_names_map h \<Longrightarrow> (\<And>b. b \<noteq> a \<Longrightarrow> node_at g' b = node_at h b) \<Longrightarrow> same_props (- {a}) g g'"
  by (simp add: same_props_def same_nodes_def)

lemma RemoveNode_ok:
  assumes "graph_ok g" "visits_all trav" "a \<in> live_nodes g"
  shows "\<exists>g'. RemoveNode trav a g = Done g' \<and> graph_ok g' \<and> live_nodes g' = live_nodes g - {a} \<and>
    live_edges g' = {e \<in> live_edges g. edge_src (edge_at g e) \<noteq> a \<and> edge_dst (edge_at g e) \<noteq> a} \<and> edge_at g' = edge_at g \<and>
    g_nodes g' = (g_nodes g)[nat (n_id (node_at g a)) := None] \<and> same_props (- {a}) g g' \<and>
    free_nodes g' = free_nodes g @ [a] \<and> n_while_ctx (node_at g' a) = n_while_ctx (node_at g a)"
proof -
  have ok: "nodes_ok g" "edges_ok g" "sets_ok {} {} g" using assms(1) by (simp_all add: graph_ok_def)
  note s = sets_okD [OF ok(3) assms(3)]
  let ?es = "es_list trav (in_edges (node_at g a))"
  have es: "set ?es = {e \<in> live_edges g. edge_dst (edge_at g e) = a}" "distinct ?es" using es.elements_ok [OF s(1) assms(2)] s(3) by simp_all
  obtain g1 where g1: "remove_in_edges ?es g = Done g1" "nodes_ok g1" "edges_ok g1" "sets_ok {a} {} g1" "live_edges g1 = live_edges g - set ?es"
      "edge_at g1 = edge_at g" "same_nodes g g1"
    using remove_in_edges_ok [OF ok(1,2) sets_ok_mono [OF ok(3)] es(2), of a] es(1) by auto
  have a1: "a \<in> live_nodes g1" using same_nodes_live [OF g1(7)] assms(3) by simp
  let ?g2 = "upd_node a (\<lambda>n. n\<lparr>in_edges := es_clear (in_edges n)\<rparr>) g1"
  have g2: "graph_ok ?g2" using clear_in_ok [OF g1(2-4) a1] g1(5,6) es(1) by auto
  have ok2: "nodes_ok ?g2" "edges_ok ?g2" "sets_ok {} {} ?g2" and a2: "a \<in> live_nodes ?g2" using g2 a1 by (simp_all add: graph_ok_def)
  note s2 = sets_okD [OF ok2(3) a2]
  let ?fs = "es_list trav (out_edges (node_at ?g2 a))"
  have fs: "set ?fs = {e \<in> live_edges ?g2. edge_src (edge_at ?g2 e) = a}" "distinct ?fs" using es.elements_ok [OF s2(2) assms(2)] s2(4) by simp_all
  obtain g3 where g3: "remove_out_edges ?fs ?g2 = Done g3" "nodes_ok g3" "edges_ok g3" "sets_ok {} {a} g3" "live_edges g3 = live_edges ?g2 - set ?fs"
      "edge_at g3 = edge_at ?g2" "same_nodes ?g2 g3"
    using remove_out_edges_ok [OF ok2(1,2) sets_ok_mono [OF ok2(3)] fs(2), of a] fs(1) by auto
  have a3: "a \<in> live_nodes g3" using same_nodes_live [OF g3(7)] a2 by simp
  let ?g4 = "upd_node a (\<lambda>n. n\<lparr>out_edges := es_clear (out_edges n)\<rparr>) g3"
  have live4: "live_edges ?g4 = {e \<in> live_edges g. edge_src (edge_at g e) \<noteq> a \<and> edge_dst (edge_at g e) \<noteq> a}" "edge_at ?g4 = edge_at g"
    using g1(5,6) g3(5,6) es(1) fs(1) by auto
  have g4: "graph_ok ?g4" using clear_out_ok [OF g3(2-4) a3] g3(5,6) fs(1) by auto
  have sn: "same_nodes g ?g4" by (rule same_nodes_trans [OF g1(7) same_nodes_trans [OF same_nodes_trans [OF same_nodes_upd g3(7)] same_nodes_upd]]) simp_all
  have r: "\<forall>e \<in> live_edges ?g4. edge_src (edge_at ?g4 e) \<noteq> a \<and> edge_dst (edge_at ?g4 e) \<noteq> a" unfolding live4 by blast
  have a4: "a \<in> live_nodes ?g4" using a3 by simp
  note rel = ReleaseNode_ok [OF g4 a4 r]
  have "RemoveNode trav a g = Done (ReleaseNode a ?g4)" unfolding RemoveNode_def g1(1) Let_def obind.simps g3(1) ..
  moreover have "same_props (- {a}) g (ReleaseNode a ?g4)"
    by (rule same_nodes_props [OF sn _ _ rel(5)]) (simp_all add: ReleaseNode_def)
  moreover have "free_nodes (ReleaseNode a ?g4) = free_nodes g @ [a]"
    using sn by (simp add: ReleaseNode_def same_nodes_def)
  moreover have "n_while_ctx (node_at (ReleaseNode a ?g4) a) = n_while_ctx (node_at ?g4 a)" by (simp add: ReleaseNode_def Clear_node_def)
  then have "n_while_ctx (node_at (ReleaseNode a ?g4) a) = n_while_ctx (node_at g a)" using sn unfolding same_nodes_def by metis
  moreover have id4: "n_id (node_at ?g4 a) = n_id (node_at g a)" "g_nodes ?g4 = g_nodes g" using sn unfolding same_nodes_def by blast+
  ultimately show ?thesis
    using rel(1) rel(2) [unfolded same_nodes_live [OF sn]] rel(3) [unfolded live4(1)] rel(4) [unfolded live4(2)] rel(6) [unfolded id4]
    by (intro exI [of _ "ReleaseNode a ?g4"] conjI)
qed

subsection \<open>Adding\<close>

lemma AllocateNode_ok:
  assumes "graph_ok g" "AllocateNode props c g = (a, g')"
  shows "graph_ok g'" "a \<notin> live_nodes g" "g_nodes g' = g_nodes g @ [Some a]" "live_nodes g' = insert a (live_nodes g)" "live_edges g' = live_edges g"
    "edge_at g' = edge_at g" "b \<noteq> a \<Longrightarrow> node_at g' b = node_at g b" "n_id (node_at g' a) = int (length (g_nodes g))" "n_props (node_at g' a) = Some props"
    "device_names g' = device_names g" "device_names_map g' = device_names_map g" "n_device (node_at g' a) = 0" "n_while_ctx (node_at g' a) = (if free_nodes g = [] then None else n_while_ctx (node_at g a))"
proof -
  have ok: "nodes_ok g" "edges_ok g" "sets_ok {} {} g" using assms(1) by (simp_all add: graph_ok_def)
  define g1 where "g1 = (if free_nodes g = [] then (upd_node (next_node g) (\<lambda>_. Node) g)\<lparr>next_node := next_node g + 1\<rparr>
    else g\<lparr>free_nodes := butlast (free_nodes g)\<rparr>)"
  have a: "a = (if free_nodes g = [] then next_node g else last (free_nodes g))" using assms(2) by (auto simp: AllocateNode_def Let_def split: if_splits)
  obtain cid where g': "g' = (upd_node a (Initialize_node (int (length (g_nodes g1))) cid props) g1)\<lparr>g_nodes := g_nodes g1 @ [Some a], num_nodes := num_nodes g1 + 1\<rparr>"
    using assms(2) a by (auto simp: AllocateNode_def Let_def g1_def split: if_splits)
  have "\<forall>b \<in> set (free_nodes g). b < next_node g" using nodes_okD(3) [OF ok(1)] by blast
  note pop = pop_free [OF nodes_okD(2) [OF ok(1)] a this]
  note fr = pop(4)
  show new: "a \<notin> live_nodes g" using fr nodes_okD(3) [OF ok(1), of a] live_node_at(4) [OF ok(1), of a] a by (cases "free_nodes g = []") auto
  have idle: "idle (node_at g1 a)" using fr nodes_okD(3) [OF ok(1), of a] a by (auto simp: g1_def idle_def Node_def)
  show "device_names g' = device_names g" "device_names_map g' = device_names_map g" "n_device (node_at g' a) = 0"
    "n_while_ctx (node_at g' a) = (if free_nodes g = [] then None else n_while_ctx (node_at g a))"
    using idle a by (auto simp: g' g1_def idle_def Initialize_node_def Node_def)
  show v: "g_nodes g' = g_nodes g @ [Some a]" and ln: "live_nodes g' = insert a (live_nodes g)" and le: "live_edges g' = live_edges g" and ea: "edge_at g' = edge_at g"
    and na: "b \<noteq> a \<Longrightarrow> node_at g' b = node_at g b" and "n_id (node_at g' a) = int (length (g_nodes g))" and "n_props (node_at g' a) = Some props" for b
    using a by (auto simp: g' g1_def live_nodes_def live_edges_def Initialize_node_def)
  have fields: "g_edges g' = g_edges g" "next_edge g' = next_edge g" "free_edges g' = free_edges g" "num_edges g' = num_edges g" "num_nodes g' = num_nodes g + 1"
    "free_nodes g' = butlast (free_nodes g)" "next_node g' = (if free_nodes g = [] then next_node g + 1 else next_node g)"
    "in_edges (node_at g' a) = EdgeSet" "out_edges (node_at g' a) = EdgeSet"
    using idle by (auto simp: g' g1_def Initialize_node_def idle_def)
  have "nodes_ok g'"
  proof (rule nodes_okI)
    fix i b assume i: "i < length (g_nodes g')" "g_nodes g' ! i = Some b"
    show "n_id (node_at g' b) = int i \<and> b < next_node g' \<and> n_props (node_at g' b) \<noteq> None"
    proof (cases "i < length (g_nodes g)")
      case True
      then have b: "g_nodes g ! i = Some b" using i by (simp add: v nth_append)
      then have "b \<noteq> a" using new True unfolding live_nodes_def by (metis mem_Collect_eq nth_mem)
      then show ?thesis using nodes_okD(1) [OF ok(1) True b] na fields(7) by auto
    next
      case False
      then have "i = length (g_nodes g)" "b = a" using i by (auto simp: v nth_append split: if_splits)
      moreover have "a < next_node g'" using fields(7) pop(3) by simp
      ultimately show ?thesis using \<open>n_id (node_at g' a) = int (length (g_nodes g))\<close> \<open>n_props (node_at g' a) = Some props\<close> by simp
    qed
  next
    show "distinct (free_nodes g')" using pop(1) fields(6) by simp
    fix b assume "b \<in> set (free_nodes g')"
    then have "b \<in> set (free_nodes g)" "b \<noteq> a" using pop(2) fields(6) by auto
    then show "b < next_node g' \<and> b \<notin> live_nodes g' \<and> idle (node_at g' b)" using nodes_okD(3) [OF ok(1), of b] ln na [of b] fields(7) by auto
  next
    show "num_nodes g' = int (length (filter (\<lambda>p. p \<noteq> None) (g_nodes g')))" using nodes_okD(4) [OF ok(1)] fields(5) v by simp
  qed
  moreover have "edges_ok g'" using ok(2) unfolding edges_ok_def fields ea ln le by blast
  moreover have "sets_ok {} {} g'"
    unfolding sets_ok_def ln le ea
  proof (intro ballI)
    fix b assume b: "b \<in> insert a (live_nodes g)"
    have none: "edge_src (edge_at g e) \<noteq> a" "edge_dst (edge_at g e) \<noteq> a" if "e \<in> live_edges g" for e using live_edge_at(5,6) [OF ok(2) that] new by auto
    show "es_ok (in_edges (node_at g' b)) \<and> es_ok (out_edges (node_at g' b)) \<and>
        (b \<notin> {} \<longrightarrow> es_set (in_edges (node_at g' b)) = {e \<in> live_edges g. edge_dst (edge_at g e) = b}) \<and>
        (b \<notin> {} \<longrightarrow> es_set (out_edges (node_at g' b)) = {e \<in> live_edges g. edge_src (edge_at g e) = b})"
    proof (cases "b = a")
      case True
      then show ?thesis using fields(8,9) es.empty_ok none by auto
    next
      case False
      then show ?thesis using na [OF False] sets_okD [OF ok(3), of b] b by simp
    qed
  qed
  ultimately show "graph_ok g'" by (simp add: graph_ok_def)
qed

lemma insert_out_ok:
  assumes "es_ok (out_edges (node_at g a))" "e \<notin> es_set (out_edges (node_at g a))"
  shows "\<exists>s. insert_out a e g = Done (upd_node a (\<lambda>n. n\<lparr>out_edges := s\<rparr>) g) \<and> es_ok s \<and> es_set s = insert e (es_set (out_edges (node_at g a)))"
proof -
  obtain s b where p: "es_insert e (out_edges (node_at g a)) = (s, b)" by (cases "es_insert e (out_edges (node_at g a))")
  then show ?thesis using es.insert_ok [OF assms(1), of e] assms(2) by (intro exI [of _ s]) (simp add: insert_out_def)
qed

lemma insert_in_ok:
  assumes "es_ok (in_edges (node_at g a))" "e \<notin> es_set (in_edges (node_at g a))"
  shows "\<exists>s. insert_in a e g = Done (upd_node a (\<lambda>n. n\<lparr>in_edges := s\<rparr>) g) \<and> es_ok s \<and> es_set s = insert e (es_set (in_edges (node_at g a)))"
proof -
  obtain s b where p: "es_insert e (in_edges (node_at g a)) = (s, b)" by (cases "es_insert e (in_edges (node_at g a))")
  then show ?thesis using es.insert_ok [OF assms(1), of e] assms(2) by (intro exI [of _ s]) (simp add: insert_in_def)
qed

lemma edges_ok_push:
  assumes "edges_ok g" "e \<notin> live_edges g" "e < next_edge g'" "next_edge g \<le> next_edge g'" "g_edges g' = g_edges g @ [Some e]" "live_nodes g' = live_nodes g"
    "edge_at g' = (edge_at g)(e := ed)" "edge_id ed = length (g_edges g)" "edge_src ed \<in> live_nodes g" "edge_dst ed \<in> live_nodes g"
    "distinct (free_edges g')" "set (free_edges g') \<subseteq> set (free_edges g) - {e}" "num_edges g' = num_edges g + 1"
  shows "edges_ok g'" "live_edges g' = insert e (live_edges g)"
proof -
  show live: "live_edges g' = insert e (live_edges g)" by (auto simp: live_edges_def assms(5))
  show "edges_ok g'"
  proof (rule edges_okI)
    fix i d assume i: "i < length (g_edges g')" "g_edges g' ! i = Some d"
    show "edge_id (edge_at g' d) = i \<and> d < next_edge g' \<and> edge_src (edge_at g' d) \<in> live_nodes g' \<and> edge_dst (edge_at g' d) \<in> live_nodes g'"
    proof (cases "i < length (g_edges g)")
      case True
      then have d: "g_edges g ! i = Some d" using i by (simp add: assms(5) nth_append)
      then have "d \<noteq> e" using assms(2) True unfolding live_edges_def by (metis mem_Collect_eq nth_mem)
      then show ?thesis using edges_okD(1) [OF assms(1) True d] assms(4) by (simp add: assms(6,7))
    next
      case False
      then have "i = length (g_edges g)" "d = e" using i by (auto simp: assms(5) nth_append split: if_splits)
      then show ?thesis using assms(3,8-10) by (simp add: assms(6,7))
    qed
  next
    fix d assume "d \<in> set (free_edges g')"
    then have "d \<in> set (free_edges g)" "d \<noteq> e" using assms(12) by auto
    then show "d < next_edge g' \<and> d \<notin> live_edges g'" using edges_okD(3) [OF assms(1), of d] assms(4) live by auto
  qed (use assms(5,11,13) edges_okD(4) [OF assms(1)] in simp_all)
qed

lemma AddEdge_ok:
  assumes "graph_ok g" "a \<in> live_nodes g" "b \<in> live_nodes g"
  shows "\<exists>e g'. AddEdge a x b y g = Done (e, g') \<and> graph_ok g' \<and> e \<notin> live_edges g \<and> live_edges g' = insert e (live_edges g) \<and> same_nodes g g' \<and>
    edge_at g' = (edge_at g)(e := \<lparr>edge_id = length (g_edges g), edge_src = a, edge_dst = b, src_output = x, dst_input = y\<rparr>)"
proof -
  have ok: "nodes_ok g" "edges_ok g" "sets_ok {} {} g" using assms(1) by (simp_all add: graph_ok_def)
  define e where "e = (if free_edges g = [] then next_edge g else last (free_edges g))"
  define ed where "ed = \<lparr>edge_id = length (g_edges g), edge_src = a, edge_dst = b, src_output = x, dst_input = y\<rparr>"
  define g2 where "g2 = g\<lparr>next_edge := (if free_edges g = [] then next_edge g + 1 else next_edge g), free_edges := butlast (free_edges g),
    edge_at := (edge_at g)(e := ed)\<rparr>"
  have "\<forall>d \<in> set (free_edges g). d < next_edge g" using edges_okD(3) [OF ok(2)] by blast
  note pop = pop_free [OF edges_okD(2) [OF ok(2)] e_def this]
  have new: "e \<notin> live_edges g"
    using pop(4) edges_okD(3) [OF ok(2), of e] live_edge_at(3) [OF ok(2), of e] by (cases "free_edges g = []") (auto simp: e_def)
  have f2: "node_at g2 = node_at g" "g_nodes g2 = g_nodes g" "g_edges g2 = g_edges g" "live_nodes g2 = live_nodes g" "live_edges g2 = live_edges g"
    "num_edges g2 = num_edges g" "edge_at g2 = (edge_at g)(e := ed)" "nodes_ok g2 = nodes_ok g" "same_nodes g g2"
    by (simp_all add: g2_def live_nodes_def live_edges_def nodes_ok_def same_nodes_def)
  note sa = sets_okD [OF ok(3) assms(2)] and sb = sets_okD [OF ok(3) assms(3)]
  obtain S where S: "insert_out a e g2 = Done (upd_node a (\<lambda>n. n\<lparr>out_edges := S\<rparr>) g2)" "es_ok S" "es_set S = insert e (es_set (out_edges (node_at g a)))"
    using insert_out_ok [of g2 a e] sa(2,4) new unfolding f2 by auto
  let ?g3 = "upd_node a (\<lambda>n. n\<lparr>out_edges := S\<rparr>) g2"
  have in3: "in_edges (node_at ?g3 b) = in_edges (node_at g b)" by (simp add: f2)
  obtain D where D: "insert_in b e ?g3 = Done (upd_node b (\<lambda>n. n\<lparr>in_edges := D\<rparr>) ?g3)" "es_ok D" "es_set D = insert e (es_set (in_edges (node_at g b)))"
    using insert_in_ok [of ?g3 b e] sb(1,3) new unfolding in3 by auto
  let ?g4 = "upd_node b (\<lambda>n. n\<lparr>in_edges := D\<rparr>) ?g3"
  define g' where "g' = ?g4\<lparr>g_edges := g_edges g @ [Some e], num_edges := num_edges g + 1\<rparr>"
  have add: "AddEdge a x b y g = Done (e, g')"
  proof -
    have "(if free_edges g = [] then (next_edge g, g\<lparr>next_edge := next_edge g + 1\<rparr>) else (last (free_edges g), g\<lparr>free_edges := butlast (free_edges g)\<rparr>)) =
        (e, g2\<lparr>edge_at := edge_at g\<rparr>)" by (simp add: e_def g2_def)
    moreover have "(g2\<lparr>edge_at := edge_at g\<rparr>)\<lparr>edge_at := (edge_at (g2\<lparr>edge_at := edge_at g\<rparr>))(e := ed)\<rparr> = g2" by (simp add: g2_def)
    ultimately show ?thesis using S(1) D(1) f2(3,6) by (simp add: AddEdge_def Let_def g'_def ed_def)
  qed
  have f': "live_nodes g' = live_nodes g" "g_edges g' = g_edges g @ [Some e]" "edge_at g' = (edge_at g)(e := ed)"
    "next_edge g' = (if free_edges g = [] then next_edge g + 1 else next_edge g)" "free_edges g' = butlast (free_edges g)" "num_edges g' = num_edges g + 1"
    by (simp_all add: g'_def f2 live_nodes_def) (simp_all add: g2_def)
  have sn: "same_nodes g g'"
  proof -
    have "same_nodes g2 ?g3" "same_nodes ?g3 ?g4" "same_nodes ?g4 g'" by (rule same_nodes_upd, simp)+ (simp add: g'_def same_nodes_def)
    then show ?thesis using f2(9) same_nodes_trans by metis
  qed
  have "nodes_ok ?g4" using nodes_ok_upd [OF nodes_ok_upd [of g2 a]] ok(1) assms(2,3) f2 by simp
  then have n': "nodes_ok g'" by (simp add: g'_def nodes_ok_def live_nodes_def)
  have e': "edges_ok g'" and live': "live_edges g' = insert e (live_edges g)"
    by (rule edges_ok_push [OF ok(2) new _ _ f'(2,1,3)]; use pop assms(2,3) f' in \<open>simp add: ed_def\<close>)+
  have "sets_ok {} {} g'"
    unfolding sets_ok_def f' live'
  proof (intro ballI)
    fix c assume c: "c \<in> live_nodes g"
    have i: "in_edges (node_at g' c) = (if c = b then D else in_edges (node_at g c))" "out_edges (node_at g' c) = (if c = a then S else out_edges (node_at g c))"
      by (simp_all add: g'_def f2)
    show "es_ok (in_edges (node_at g' c)) \<and> es_ok (out_edges (node_at g' c)) \<and>
        (c \<notin> {} \<longrightarrow> es_set (in_edges (node_at g' c)) = {d \<in> insert e (live_edges g). edge_dst (((edge_at g)(e := ed)) d) = c}) \<and>
        (c \<notin> {} \<longrightarrow> es_set (out_edges (node_at g' c)) = {d \<in> insert e (live_edges g). edge_src (((edge_at g)(e := ed)) d) = c})"
      unfolding i using sets_okD [OF ok(3) c] S(2,3) D(2,3) new by (auto simp: ed_def)
  qed
  then have "graph_ok g'" using n' e' by (simp add: graph_ok_def)
  then show ?thesis using add new live' f'(3) sn unfolding ed_def by blast
qed

text \<open>Changing what is not part of the invariant: the inputs in the \<^verbatim>\<open>NodeDef\<close>.\<close>

lemma graph_ok_props:
  assumes "graph_ok g" "a \<in> live_nodes g" "\<And>n. in_edges (f n) = in_edges n \<and> out_edges (f n) = out_edges n \<and> n_id (f n) = n_id n"
    "\<And>n. n_props n \<noteq> None \<Longrightarrow> n_props (f n) \<noteq> None"
  shows "graph_ok (upd_node a f g)"
proof -
  have "sets_ok {} {} (upd_node a f g)" using assms(1,3) by (auto simp: graph_ok_def sets_ok_def)
  moreover have "nodes_ok (upd_node a f g)" using assms by (intro nodes_ok_upd) (simp_all add: graph_ok_def)
  ultimately show ?thesis using assms(1) by (simp add: graph_ok_def)
qed

lemma rooted_same: "same_nodes g g' \<Longrightarrow> rooted g \<Longrightarrow> rooted g'"
  by (simp add: same_nodes_def rooted_def)

lemma rooted_upd [simp]: "rooted (upd_node a f g) = rooted g"
  by (simp add: rooted_def)

lemma upd_def_fields [simp]:
  "n_id (upd_def f n) = n_id n" "n_cost_id (upd_def f n) = n_cost_id n" "n_class (upd_def f n) = n_class n" "n_device (upd_def f n) = n_device n"
  "n_while_ctx (upd_def f n) = n_while_ctx n" "in_edges (upd_def f n) = in_edges n" "out_edges (upd_def f n) = out_edges n"
  "(n_props (upd_def f n) = None) = (n_props n = None)"
  by (simp_all add: upd_def_def)

text \<open>What every operation on edges does to a graph, apart from its result.\<close>

definition keeps :: "graph \<Rightarrow> graph \<Rightarrow> bool" where
  "keeps g g' \<longleftrightarrow> graph_ok g' \<and> g_nodes g' = g_nodes g \<and> device_names g' = device_names g \<and>
     device_names_map g' = device_names_map g \<and> (\<forall>a \<in> live_nodes g. n_id (node_at g' a) = n_id (node_at g a) \<and> n_device (node_at g' a) = n_device (node_at g a))"

lemma keepsI: "graph_ok g' \<Longrightarrow> same_nodes g g' \<Longrightarrow> keeps g g'"
  by (simp add: keeps_def same_nodes_def)

lemma keeps_trans: "keeps g g' \<Longrightarrow> keeps g' g'' \<Longrightarrow> keeps g g''"
  by (simp add: keeps_def live_nodes_def)

lemma keeps_live: "keeps g g' \<Longrightarrow> live_nodes g' = live_nodes g"
  by (simp add: keeps_def live_nodes_def)

lemma keeps_rooted: "keeps g g' \<Longrightarrow> rooted g \<Longrightarrow> rooted g'"
  by (simp add: keeps_def rooted_def)

lemma keeps_props:
  assumes "graph_ok g" "a \<in> live_nodes g" "\<And>n. in_edges (f n) = in_edges n \<and> out_edges (f n) = out_edges n \<and> n_id (f n) = n_id n \<and> n_device (f n) = n_device n"
    "\<And>n. n_props n \<noteq> None \<Longrightarrow> n_props (f n) \<noteq> None"
  shows "keeps g (upd_node a f g)"
  using graph_ok_props [OF assms(1,2) _ assms(4)] assms(3) by (simp add: keeps_def)

lemma AddControlEdge_ok:
  assumes "graph_ok g" "a \<in> live_nodes g" "b \<in> live_nodes g"
  shows "\<exists>r g'. AddControlEdge trav a b dup g = Done (r, g') \<and> keeps g g' \<and>
    (case r of None \<Rightarrow> g' = g \<and> \<not> dup
     | Some e \<Rightarrow> e \<notin> live_edges g \<and> live_edges g' = insert e (live_edges g) \<and>
         edge_at g' = (edge_at g)(e := \<lparr>edge_id = length (g_edges g), edge_src = a, edge_dst = b, src_output = kControlSlot, dst_input = kControlSlot\<rparr>))"
proof -
  define g1 where "g1 = (if \<not> IsSource a g \<and> \<not> IsSink b g \<and> \<not> dup \<and> ''^'' @ node_name a g \<notin> set (node_inputs (node_at g b))
    then upd_node b (add_input (''^'' @ node_name a g)) g else g)"
  have "keeps g (upd_node b (add_input s) g)" for s using assms(1,3) by (intro keeps_props) (auto simp: add_input_def)
  moreover have "keeps g g" using assms(1) by (simp add: keeps_def)
  ultimately have k1: "keeps g g1" by (simp add: g1_def)
  have l1: "live_edges g1 = live_edges g" "edge_at g1 = edge_at g" "g_edges g1 = g_edges g" "live_nodes g1 = live_nodes g" by (simp_all add: g1_def)
  then obtain e g' where e: "AddEdge a kControlSlot b kControlSlot g1 = Done (e, g')" "graph_ok g'" "e \<notin> live_edges g1" "live_edges g' = insert e (live_edges g1)"
      "same_nodes g1 g'" "edge_at g' = (edge_at g1)(e := \<lparr>edge_id = length (g_edges g1), edge_src = a, edge_dst = b, src_output = kControlSlot, dst_input = kControlSlot\<rparr>)"
    using AddEdge_ok [of g1 a b kControlSlot kControlSlot] k1 assms(2,3) by (auto simp: keeps_def)
  have k: "keeps g g'" using keeps_trans [OF k1 keepsI [OF e(2,5)]] .
  show ?thesis
  proof (cases "\<not> dup \<and> (\<exists>e \<in> set (es_list trav (in_edges (node_at g b))). IsControlEdge (edge_at g e) \<and> edge_src (edge_at g e) = a)")
    case True
    then show ?thesis using assms(1) by (intro exI [of _ None] exI [of _ g]) (simp add: AddControlEdge_def keeps_def)
  next
    case False
    have "AddControlEdge trav a b dup g = obind (AddEdge a kControlSlot b kControlSlot g1) (\<lambda>(e, g2). Done (Some e, g2))"
      unfolding AddControlEdge_def if_not_P [OF False] Let_def g1_def ..
    then show ?thesis using e k l1 by (intro exI [of _ "Some e"] exI [of _ g']) simp
  qed
qed

lemma RemoveControlEdge_ok:
  assumes "graph_ok g" "e \<in> live_edges g"
  shows "\<exists>g'. RemoveControlEdge e g = Done g' \<and> keeps g g' \<and> live_edges g' = live_edges g - {e} \<and> edge_at g' = edge_at g"
proof -
  define f :: "gnode \<Rightarrow> gnode" where "f = upd_def (\<lambda>d. d\<lparr>d_input := remove1 (''^'' @ node_name (edge_src (edge_at g e)) g) (d_input d)\<rparr>)"
  define g1 where "g1 = (if \<not> IsSource (edge_src (edge_at g e)) g \<and> \<not> IsSink (edge_dst (edge_at g e)) g then upd_node (edge_dst (edge_at g e)) f g else g)"
  have "edge_dst (edge_at g e) \<in> live_nodes g" using live_edge_at(6) assms by (simp add: graph_ok_def)
  then have "keeps g (upd_node (edge_dst (edge_at g e)) f g)" using assms(1) by (intro keeps_props) (auto simp: f_def)
  moreover have "keeps g g" using assms(1) by (simp add: keeps_def)
  ultimately have k1: "keeps g g1" by (simp add: g1_def)
  have l1: "live_edges g1 = live_edges g" "edge_at g1 = edge_at g" by (simp_all add: g1_def)
  have r: "RemoveControlEdge e g = RemoveEdge e g1" by (simp add: RemoveControlEdge_def Let_def g1_def f_def)
  obtain g' where "RemoveEdge e g1 = Done g'" "graph_ok g'" "live_edges g' = live_edges g1 - {e}" "edge_at g' = edge_at g1" "same_nodes g1 g'"
    using RemoveEdge_ok [of g1 e] k1 assms(2) l1 by (auto simp: keeps_def)
  then show ?thesis using r l1 keeps_trans [OF k1 keepsI] by (intro exI [of _ g']) simp
qed

lemma IsValidNode_ok: "nodes_ok g \<Longrightarrow> IsValidNode a g = None \<longleftrightarrow> a \<in> live_nodes g \<and> 0 \<le> n_id (node_at g a)"
proof -
  assume ok: "nodes_ok g"
  show ?thesis
  proof
    assume "IsValidNode a g = None"
    then show "a \<in> live_nodes g \<and> 0 \<le> n_id (node_at g a)"
      by (auto simp: IsValidNode_def Let_def live_nodes_def in_set_conv_nth intro!: exI [of _ "nat (n_id (node_at g a))"] split: if_splits)
  next
    assume "a \<in> live_nodes g \<and> 0 \<le> n_id (node_at g a)"
    then show "IsValidNode a g = None" using live_node_at(2,3) [OF ok, of a] by (simp add: IsValidNode_def Let_def)
  qed
qed

end
