(* ===== verification/Graph_Props.thy ===== *)
theory Graph_Props
  imports Graph_Correct
begin

text \<open>The results about \<open>Graph_Model\<close>: every sequence of operations on a graph keeps it consistent.\<close>

subsection \<open>Operations that check their arguments\<close>

lemma FindEdge_Some:
  assumes "graph_ok g" "visits_all trav" "b \<in> live_nodes g" "FindEdge trav b i g = Some e"
  shows "e \<in> live_edges g" "edge_dst (edge_at g e) = b" "dst_input (edge_at g e) = i"
proof -
  have ok: "sets_ok {} {} g" using assms(1) by (simp add: graph_ok_def)
  have "e \<in> set (es_list trav (in_edges (node_at g b))) \<and> dst_input (edge_at g e) = i" using assms(4) by (auto simp: FindEdge_def find_Some_iff)
  then show "e \<in> live_edges g" "edge_dst (edge_at g e) = b" "dst_input (edge_at g e) = i"
    using es.elements_ok [OF sets_okD(1) [OF ok assms(3)] assms(2)] sets_okD(3) [OF ok assms(3)] by auto
qed

lemma valid_tensor_live:
  assumes "nodes_ok g"
  shows "IsValidOutputTensor a i g = None \<Longrightarrow> a \<in> live_nodes g" "IsValidInputTensor a i g = None \<Longrightarrow> a \<in> live_nodes g"
  using IsValidNode_ok [OF assms, of a] by (auto simp: IsValidOutputTensor_def IsValidInputTensor_def split: option.splits)

text \<open>An error leaves the graph as it is; otherwise one edge is replaced.\<close>

lemma UpdateEdge_ok:
  assumes "graph_ok g" "visits_all trav" "nat i < length (node_inputs (node_at g b))"
  shows "\<exists>r g'. UpdateEdge trav a x b i g = Done (r, g') \<and> keeps g g' \<and>
    (case r of Some err \<Rightarrow> g' = g
     | None \<Rightarrow> \<exists>d e. d \<in> live_edges g \<and> edge_dst (edge_at g d) = b \<and> dst_input (edge_at g d) = i \<and> live_edges g' = insert e (live_edges g - {d}) \<and>
         edge_src (edge_at g' e) = a \<and> edge_dst (edge_at g' e) = b \<and> src_output (edge_at g' e) = x \<and> dst_input (edge_at g' e) = i)"
proof -
  have k: "keeps g g" using assms(1) by (simp add: keeps_def)
  show ?thesis
  proof (cases "IsValidOutputTensor a x g = None \<and> IsValidInputTensor b i g = None \<and> FindEdge trav b i g \<noteq> None")
    case False
    then show ?thesis using k by (auto simp: UpdateEdge_def split: option.splits)
  next
    case True
    then obtain d where d: "FindEdge trav b i g = Some d" by auto
    have ab: "a \<in> live_nodes g" "b \<in> live_nodes g" using True valid_tensor_live [of g] assms(1) by (auto simp: graph_ok_def)
    note fe = FindEdge_Some [OF assms(1,2) ab(2) d]
    obtain g1 where g1: "RemoveEdge d g = Done g1" "graph_ok g1" "live_edges g1 = live_edges g - {d}" "edge_at g1 = edge_at g" "same_nodes g g1"
      using RemoveEdge_ok [OF assms(1) fe(1)] by blast
    obtain e g2 where g2: "AddEdge a x b i g1 = Done (e, g2)" "graph_ok g2" "live_edges g2 = insert e (live_edges g1)" "same_nodes g1 g2"
        "edge_at g2 = (edge_at g1)(e := \<lparr>edge_id = length (g_edges g1), edge_src = a, edge_dst = b, src_output = x, dst_input = i\<rparr>)"
      using AddEdge_ok [OF g1(2), of a b x i] ab same_nodes_live [OF g1(5)] by auto
    define f :: "gnode \<Rightarrow> gnode" where "f = upd_def (\<lambda>d. d\<lparr>d_input := (d_input d)[nat i := tensor_name a x g2]\<rparr>)"
    have sn: "same_nodes g g2" using same_nodes_trans [OF g1(5) g2(4)] .
    then have "node_inputs (node_at g2 b) = node_inputs (node_at g b)" by (simp add: same_nodes_def node_inputs_def)
    then have u: "UpdateEdge trav a x b i g = Done (None, upd_node b f g2)"
      using True d g1(1) g2(1) assms(3) by (simp add: UpdateEdge_def f_def)
    have "keeps g2 (upd_node b f g2)"
    proof (rule keeps_props [OF g2(2)])
      show "b \<in> live_nodes g2" using ab(2) same_nodes_live [OF sn] by simp
    qed (simp_all add: f_def)
    then have kp: "keeps g (upd_node b f g2)" by (rule keeps_trans [OF keepsI [OF g2(2) sn]])
    have "live_edges (upd_node b f g2) = insert e (live_edges g - {d})" using g1(3) g2(3) by simp
    moreover have "edge_at (upd_node b f g2) e = \<lparr>edge_id = length (g_edges g1), edge_src = a, edge_dst = b, src_output = x, dst_input = i\<rparr>"
      using g2(5) by simp
    ultimately have "\<exists>d e. d \<in> live_edges g \<and> edge_dst (edge_at g d) = b \<and> dst_input (edge_at g d) = i \<and>
        live_edges (upd_node b f g2) = insert e (live_edges g - {d}) \<and> edge_src (edge_at (upd_node b f g2) e) = a \<and>
        edge_dst (edge_at (upd_node b f g2) e) = b \<and> src_output (edge_at (upd_node b f g2) e) = x \<and> dst_input (edge_at (upd_node b f g2) e) = i"
      using fe by (intro exI [of _ d] exI [of _ e]) simp
    then show ?thesis using u kp by (intro exI [of _ None] exI [of _ "upd_node b f g2"] conjI) simp_all
  qed
qed

lemma AddWhileInputHack_ok:
  assumes "graph_ok g"
  shows "\<exists>r g'. AddWhileInputHack trav a x b g = Done (r, g') \<and> keeps g g'"
proof -
  have k: "keeps g g" using assms(1) by (simp add: keeps_def)
  define i where "i = int (length (filter (\<lambda>e. \<not> IsControlEdge (edge_at g e)) (es_list trav (in_edges (node_at g b)))))"
  show ?thesis
  proof (cases "IsValidOutputTensor a x g = None \<and> IsValidInputTensor b i g = None")
    case False
    then show ?thesis using k unfolding AddWhileInputHack_def Let_def i_def [symmetric] by (auto split: option.splits)
  next
    case True
    have ab: "a \<in> live_nodes g" "b \<in> live_nodes g" using True valid_tensor_live [of g] assms(1) by (auto simp: graph_ok_def)
    obtain e g1 where g1: "AddEdge a x b i g = Done (e, g1)" "graph_ok g1" "same_nodes g g1" using AddEdge_ok [OF assms ab, of x i] by blast
    have "keeps g1 (upd_node b (add_input s) g1)" for s
    proof (rule keeps_props [OF g1(2)])
      show "b \<in> live_nodes g1" using ab(2) same_nodes_live [OF g1(3)] by simp
    qed (simp_all add: add_input_def)
    then have "keeps g (upd_node b (add_input s) g1)" for s using keeps_trans [OF keepsI [OF g1(2,3)]] by blast
    then show ?thesis using k True g1(1) unfolding AddWhileInputHack_def Let_def i_def [symmetric] by (auto split: option.splits)
  qed
qed

subsection \<open>Device names\<close>

text \<open>Device names by index, and the map in the order of the indices.\<close>

definition device_table :: "graph \<Rightarrow> bool" where
  "device_table g \<longleftrightarrow> device_names g \<noteq> [] \<and> hd (device_names g) = [] \<and> distinct (device_names g) \<and>
     device_names_map g = zip (tl (device_names g)) [1..<length (device_names g)]"

definition devices_ok :: "graph \<Rightarrow> bool" where
  "devices_ok g \<longleftrightarrow> device_table g \<and> (\<forall>a \<in> live_nodes g. n_device (node_at g a) < length (device_names g))"

lemma device_table_known:
  assumes "device_table g" "name \<in> set (tl (device_names g))"
  shows "\<exists>i. map_of (device_names_map g) name = Some i \<and> 0 < i \<and> i < length (device_names g) \<and> device_names g ! i = name"
proof -
  obtain x xs where v: "device_names g = x # xs" using assms(1) by (cases "device_names g") (auto simp: device_table_def)
  obtain j where j: "j < length xs" "xs ! j = name" using assms(2) v by (auto simp: in_set_conv_nth)
  have "(name, Suc j) \<in> set (zip xs [1..<Suc (length xs)])" unfolding in_set_conv_nth using j by (intro exI [of _ j]) (simp del: upt_Suc)
  moreover have "distinct (map fst (zip xs [1..<Suc (length xs)]))" using assms(1) v by (simp add: device_table_def)
  ultimately have "map_of (device_names_map g) name = Some (Suc j)" using assms(1) v by (simp add: device_table_def)
  then show ?thesis using j v by simp
qed

lemma device_table_unknown:
  assumes "device_table g" "name \<notin> set (tl (device_names g))"
  shows "map_of (device_names_map g) name = None" "name \<notin> fst ` set (device_names_map g)" "length (device_names_map g) = length (device_names g) - 1"
proof -
  have "fst ` set (device_names_map g) \<subseteq> set (tl (device_names g))" using assms(1) by (auto simp: device_table_def dest: set_zip_leftD)
  then show "name \<notin> fst ` set (device_names_map g)" using assms(2) by blast
  then show "map_of (device_names_map g) name = None" by (simp add: map_of_eq_None_iff)
  show "length (device_names_map g) = length (device_names g) - 1" using assms(1) by (simp add: device_table_def)
qed

text \<open>Interning finds the name or adds it at the end; the index it returns is that of the name.\<close>

lemma InternDeviceName_ok:
  assumes "device_table g" "InternDeviceName name g = (i, g')"
  shows "device_table g' \<and> i < length (device_names g') \<and> device_names g' ! i = name \<and>
    (\<exists>t m. g' = g\<lparr>device_names_map := m, device_names := device_names g @ t\<rparr>)"
proof -
  have same: "\<exists>t m. g = g\<lparr>device_names_map := m, device_names := device_names g @ t\<rparr>"
    by (intro exI [of _ "[]"] exI [of _ "device_names_map g"]) simp
  consider "name = []" | (known) "name \<noteq> []" "name \<in> set (tl (device_names g))" | (new) "name \<noteq> []" "name \<notin> set (tl (device_names g))" by blast
  then show ?thesis
  proof cases
    case 1
    then have "i = 0" "g' = g" using assms(2) by (simp_all add: InternDeviceName_def)
    moreover have "device_names g ! 0 = []" using assms(1) hd_conv_nth [of "device_names g"] by (simp add: device_table_def)
    ultimately show ?thesis using 1 assms(1) same by (simp add: device_table_def)
  next
    case known
    then obtain j where j: "map_of (device_names_map g) name = Some j" "0 < j" "j < length (device_names g)" "device_names g ! j = name"
      using device_table_known [OF assms(1)] by blast
    then have "i = j" "g' = g" using known(1) assms(2) by (simp_all add: InternDeviceName_def)
    then show ?thesis using j assms(1) same by simp
  next
    case new
    note u = device_table_unknown [OF assms(1) new(2)]
    have ne: "device_names g \<noteq> []" using assms(1) by (simp add: device_table_def)
    have keep: "map (\<lambda>(k, v). (k, if k = name then n else v)) (device_names_map g) = device_names_map g" for n
      using u(2) by (intro map_idI) (auto simp: image_iff)
    have cell: "map_of (device_names_map g @ [(name, 0)]) name = Some 0" using u(1) by (simp add: map_add_def)
    have len: "Suc (length (device_names_map g)) = length (device_names g)" using u(3) ne by (cases "device_names g") simp_all
    have "i = length (device_names g)" "g' = g\<lparr>device_names_map := device_names_map g @ [(name, length (device_names g))], device_names := device_names g @ [name]\<rparr>"
      using assms(2) new(1) cell keep unfolding InternDeviceName_def u(1) len [symmetric] by (simp_all add: Let_def del: map_of_append) auto
    moreover have "device_table (g\<lparr>device_names_map := device_names_map g @ [(name, length (device_names g))], device_names := device_names g @ [name]\<rparr>)"
    proof -
      obtain x xs where v: "device_names g = x # xs" using ne by (cases "device_names g") auto
      have "zip (xs @ [name]) [1..<Suc (Suc (length xs))] = zip xs [1..<Suc (length xs)] @ [(name, Suc (length xs))]"
        by (subst upt_Suc_append) (simp_all del: upt_Suc)
      then show ?thesis using assms(1) v new by (auto simp: device_table_def simp del: upt_Suc)
    qed
    ultimately show ?thesis by auto
  qed
qed

lemma graph_ok_other [simp]:
  "graph_ok (g\<lparr>name_counter := x\<rparr>) = graph_ok g" "graph_ok (g\<lparr>while_ctxs := w\<rparr>) = graph_ok g"
  "graph_ok (g\<lparr>device_names_map := m, device_names := t\<rparr>) = graph_ok g"
  by (simp_all add: graph_ok_def nodes_ok_def edges_ok_def sets_ok_def live_nodes_def live_edges_def)

lemma keeps_devices: "keeps g g' \<Longrightarrow> devices_ok g \<Longrightarrow> devices_ok g'"
  by (simp add: devices_ok_def device_table_def keeps_def live_nodes_def)

lemma same_nodes_devices: "same_nodes g g' \<Longrightarrow> devices_ok g \<Longrightarrow> devices_ok g'"
  by (simp add: devices_ok_def device_table_def same_nodes_def live_nodes_def)

definition good :: "graph \<Rightarrow> bool" where
  "good g \<longleftrightarrow> graph_ok g \<and> rooted g \<and> devices_ok g"

lemma keeps_good: "keeps g g' \<Longrightarrow> good g \<Longrightarrow> good g'"
  unfolding good_def using keeps_rooted keeps_devices by (auto simp: keeps_def)

lemma same_nodes_good: "graph_ok g' \<Longrightarrow> same_nodes g g' \<Longrightarrow> good g \<Longrightarrow> good g'"
  using keeps_good [OF keepsI] .

lemma set_assigned_device_name_ok:
  assumes "good g" "a \<in> live_nodes g"
  shows "good (set_assigned_device_name a name g)" "get_assigned_device_name a (set_assigned_device_name a name g) = name"
    "b \<in> live_nodes g \<Longrightarrow> b \<noteq> a \<Longrightarrow> get_assigned_device_name b (set_assigned_device_name a name g) = get_assigned_device_name b g"
    "live_nodes (set_assigned_device_name a name g) = live_nodes g" "g_nodes (set_assigned_device_name a name g) = g_nodes g"
    "n_props (node_at (set_assigned_device_name a name g) a) = n_props (node_at g a)"
proof -
  obtain i g1 where i: "InternDeviceName name g = (i, g1)" by (cases "InternDeviceName name g")
  have t: "device_table g" using assms(1) by (simp add: good_def devices_ok_def)
  obtain v m where g1: "g1 = g\<lparr>device_names_map := m, device_names := device_names g @ v\<rparr>" "device_table g1" "i < length (device_names g1)" "device_names g1 ! i = name"
    using InternDeviceName_ok [OF t i] by blast
  have r: "set_assigned_device_name a name g = upd_node a (\<lambda>n. n\<lparr>n_device := i\<rparr>) g1" using i by (simp add: set_assigned_device_name_def set_assigned_device_name_index_def)
  have live: "live_nodes g1 = live_nodes g" using g1(1) by (simp add: live_nodes_def)
  show "live_nodes (set_assigned_device_name a name g) = live_nodes g" "g_nodes (set_assigned_device_name a name g) = g_nodes g"
    "n_props (node_at (set_assigned_device_name a name g) a) = n_props (node_at g a)"
    using g1(1) by (simp_all add: r upd_node_def live_nodes_def)
  have "graph_ok g1" using assms(1) g1(1) by (simp add: good_def)
  then have "graph_ok (upd_node a (\<lambda>n. n\<lparr>n_device := i\<rparr>) g1)" by (rule graph_ok_props) (use assms(2) live in simp_all)
  moreover have "rooted (upd_node a (\<lambda>n. n\<lparr>n_device := i\<rparr>) g1)" using assms(1) g1(1) by (simp add: good_def rooted_def)
  moreover have d: "\<forall>b \<in> live_nodes g. n_device (node_at g b) < length (device_names g)" using assms(1) by (simp add: good_def devices_ok_def)
  then have "devices_ok (upd_node a (\<lambda>n. n\<lparr>n_device := i\<rparr>) g1)"
    using g1 live by (auto simp: devices_ok_def device_table_def upd_node_def live_nodes_def trans_less_add1)
  ultimately show "good (set_assigned_device_name a name g)" by (simp add: good_def r)
  show "get_assigned_device_name a (set_assigned_device_name a name g) = name"
    using g1(4) by (simp add: r get_assigned_device_name_def upd_node_def)
  show "get_assigned_device_name b (set_assigned_device_name a name g) = get_assigned_device_name b g" if "b \<in> live_nodes g" "b \<noteq> a"
    using d that g1(1) by (simp add: r get_assigned_device_name_def upd_node_def nth_append)
qed

subsection \<open>Runs\<close>

lemma AllocateNode_good:
  assumes "good g" "AllocateNode props c g = (a, g')"
  shows "good g'"
proof -
  have ok: "graph_ok g" using assms(1) by (simp add: good_def)
  note al = AllocateNode_ok [OF ok assms(2)]
  have "rooted g'" using assms(1) al(3) by (auto simp: good_def rooted_def nth_append)
  moreover have "devices_ok g'"
  proof -
    have "n_device (node_at g' b) < length (device_names g)" if "b \<in> live_nodes g'" for b
    proof (cases "b = a")
      case True
      then show ?thesis using al(12) assms(1) by (simp add: good_def devices_ok_def device_table_def)
    next
      case False
      then show ?thesis using al(4) al(7) [OF False] that assms(1) by (simp add: good_def devices_ok_def)
    qed
    then show ?thesis using assms(1) al(10,11) by (simp add: good_def devices_ok_def device_table_def)
  qed
  ultimately show ?thesis using al(1) by (simp add: good_def)
qed

lemma AddNode_good:
  assumes "good g" "AddNode ops def g = (r, g')"
  shows "good g'"
proof -
  consider "g' = g" | props a where "AllocateNode props None g = (a, g')"
    using assms(2) by (auto simp: AddNode_def Let_def split: sum.splits prod.splits)
  then show ?thesis using assms(1) AllocateNode_good by cases blast+
qed

lemma empty_graph_ok: "graph_ok empty_graph"
  by (simp add: graph_ok_def nodes_ok_def edges_ok_def sets_ok_def empty_graph_def live_nodes_def live_edges_def)

lemma Graph_good:
  assumes "Graph ops trav = Done g"
  shows "good g"
proof -
  obtain s g1 where g1: "AddNode ops (no_op ''_SOURCE'') empty_graph = (Inr s, g1)"
    using assms by (auto simp: Graph_def split: prod.splits sum.splits)
  obtain t g2 where g2: "AddNode ops (no_op ''_SINK'') g1 = (Inr t, g2)"
    using assms g1 by (auto simp: Graph_def split: prod.splits sum.splits if_splits)
  obtain p where a1: "AllocateNode p None empty_graph = (s, g1)" using g1 by (auto simp: AddNode_def Let_def split: sum.splits prod.splits)
  obtain q where a2: "AllocateNode q None g1 = (t, g2)" using g2 by (auto simp: AddNode_def Let_def split: sum.splits prod.splits)
  note ok1 = AllocateNode_ok [OF empty_graph_ok a1]
  note ok2 = AllocateNode_ok [OF ok1(1) a2]
  have nodes: "g_nodes g2 = [Some s, Some t]" using ok1(3) ok2(3) by (simp add: empty_graph_def)
  have "live_nodes g1 = {s}" using ok1(4) by (simp add: empty_graph_def live_nodes_def)
  then have live: "live_nodes g2 = {s, t}" and st: "s \<noteq> t" using ok2(2,4) by auto
  have "n_device (node_at g2 s) = 0" "n_device (node_at g2 t) = 0" using ok1(12) ok2(7) [OF st] ok2(12) by simp_all
  moreover have "device_names g2 = [[]]" "device_names_map g2 = []" using ok1(10,11) ok2(10,11) by (simp_all add: empty_graph_def)
  ultimately have "devices_ok g2" using live by (auto simp: devices_ok_def device_table_def)
  then have "good g2" using ok2(1) nodes by (simp add: good_def rooted_def)
  moreover have "s \<in> live_nodes g2" "t \<in> live_nodes g2" using live by simp_all
  then obtain r g3 where g3: "AddControlEdge trav s t False g2 = Done (r, g3)" "keeps g2 g3" using AddControlEdge_ok [OF ok2(1)] by blast
  moreover have "g = g3" using assms g1 g2 g3(1) by (auto simp: Graph_def split: if_splits)
  ultimately show ?thesis using keeps_good by blast
qed

lemma CopyNode_good:
  assumes "good g" "n_props (node_at h b) = Some props" "LookUpOpDef ops (d_op (p_def props)) = Inr op_def"
  shows "\<exists>a g'. CopyNode ops h b g = Done (a, g') \<and> good g' \<and> a \<notin> live_nodes g \<and> live_nodes g' = insert a (live_nodes g) \<and>
    get_assigned_device_name a g' = get_assigned_device_name b h \<and> n_props (node_at g' a) = Some (props\<lparr>p_op_def := op_def\<rparr>)"
proof -
  obtain a g1 where a: "AllocateNode props (Some (node_at h b)) g = (a, g1)" by (cases "AllocateNode props (Some (node_at h b)) g")
  have ok: "graph_ok g" using assms(1) by (simp add: good_def)
  note al = AllocateNode_ok [OF ok a]
  define g2 where "g2 = set_assigned_device_name a (get_assigned_device_name b h) g1"
  have a1: "a \<in> live_nodes g1" using al(4) by simp
  note sd = set_assigned_device_name_ok [OF AllocateNode_good [OF assms(1) a] a1, where name = "get_assigned_device_name b h", folded g2_def]
  define f :: "gnode \<Rightarrow> gnode" where "f = (\<lambda>n. n\<lparr>n_props := map_option (\<lambda>p. p\<lparr>p_op_def := op_def\<rparr>) (n_props n)\<rparr>)"
  have "keeps g2 (upd_node a f g2)" by (rule keeps_props) (use sd(1,4) a1 in \<open>simp_all add: good_def f_def\<close>)
  then have "good (upd_node a f g2)" using keeps_good sd(1) by blast
  moreover have "get_assigned_device_name a (upd_node a f g2) = get_assigned_device_name a g2" by (simp add: get_assigned_device_name_def upd_node_def f_def)
  moreover have "n_props (node_at (upd_node a f g2) a) = Some (props\<lparr>p_op_def := op_def\<rparr>)" using sd(6) al(9) by (simp add: upd_node_def f_def)
  moreover have "CopyNode ops h b g = Done (a, if op_def \<noteq> p_op_def props then upd_node a f g2 else g2)"
    using a assms(2,3) by (simp add: CopyNode_def g2_def f_def)
  ultimately show ?thesis using sd al(2,4,9) by (cases "op_def = p_op_def props") auto
qed

text \<open>The changes of a single node.\<close>

inductive node_change :: "registry \<Rightarrow> (gnode \<Rightarrow> gnode) \<Rightarrow> bool" for ops :: registry where
  "node_change ops (AddAttr ops s v)"
| "node_change ops (ClearAttr s)"
| "node_change ops (set_name s)"
| "node_change ops (set_requested_device s)"
| "node_change ops (set_original_node_names names)"
| "node_change ops (set_while_ctx w)"

lemma node_change_fields:
  "node_change ops f \<Longrightarrow> in_edges (f n) = in_edges n \<and> out_edges (f n) = out_edges n \<and> n_id (f n) = n_id n \<and> n_device (f n) = n_device n"
  "node_change ops f \<Longrightarrow> n_props n \<noteq> None \<Longrightarrow> n_props (f n) \<noteq> None"
  by (auto elim!: node_change.cases
      simp: AddAttr_def UpdateProperties_def ClearAttr_def set_name_def set_requested_device_def set_original_node_names_def set_while_ctx_def upd_def_def
      split: option.splits sum.splits)

text \<open>
  A step of a client: an operation with nodes and edges of the graph as arguments and, for \<^verbatim>\<open>UpdateEdge\<close>, an input that the \<^verbatim>\<open>NodeDef\<close> has; for
  \<^verbatim>\<open>CopyNode\<close>, a node of this or another graph with an operation that the registry knows. The source and the sink are not removed.
\<close>

inductive graph_step :: "registry \<Rightarrow> (nat list \<Rightarrow> nat list) \<Rightarrow> graph \<Rightarrow> graph outcome \<Rightarrow> bool"
  for ops :: registry and trav :: "nat list \<Rightarrow> nat list" where
  add_node: "graph_step ops trav g (Done (snd (AddNode ops def g)))"
| copy_node: "n_props (node_at h b) = Some props \<Longrightarrow> LookUpOpDef ops (d_op (p_def props)) = Inr op_def \<Longrightarrow>
    graph_step ops trav g (obind (CopyNode ops h b g) (\<lambda>(a, g'). Done g'))"
| add_edge: "a \<in> live_nodes g \<Longrightarrow> b \<in> live_nodes g \<Longrightarrow> graph_step ops trav g (obind (AddEdge a x b y g) (\<lambda>(e, g'). Done g'))"
| add_control_edge: "a \<in> live_nodes g \<Longrightarrow> b \<in> live_nodes g \<Longrightarrow> graph_step ops trav g (obind (AddControlEdge trav a b dup g) (\<lambda>(e, g'). Done g'))"
| remove_edge: "e \<in> live_edges g \<Longrightarrow> graph_step ops trav g (RemoveEdge e g)"
| remove_control_edge: "e \<in> live_edges g \<Longrightarrow> graph_step ops trav g (RemoveControlEdge e g)"
| remove_node: "a \<in> live_nodes g \<Longrightarrow> \<not> IsSource a g \<Longrightarrow> \<not> IsSink a g \<Longrightarrow> graph_step ops trav g (RemoveNode trav a g)"
| update_edge: "nat i < length (node_inputs (node_at g b)) \<Longrightarrow> graph_step ops trav g (obind (UpdateEdge trav a x b i g) (\<lambda>(r, g'). Done g'))"
| add_while_input: "graph_step ops trav g (obind (AddWhileInputHack trav a x b g) (\<lambda>(r, g'). Done g'))"
| change_node: "a \<in> live_nodes g \<Longrightarrow> node_change ops f \<Longrightarrow> graph_step ops trav g (Done (upd_node a f g))"
| assign_device: "a \<in> live_nodes g \<Longrightarrow> graph_step ops trav g (Done (set_assigned_device_name a name g))"
| while_context: "graph_step ops trav g (Done (snd (AddWhileContext frame w g)))"
| new_name: "graph_step ops trav g (Done (snd (NewName p g)))"

inductive graph_reachable :: "registry \<Rightarrow> (nat list \<Rightarrow> nat list) \<Rightarrow> graph \<Rightarrow> bool"
  for ops :: registry and trav :: "nat list \<Rightarrow> nat list" where
  start: "Graph ops trav = Done g \<Longrightarrow> graph_reachable ops trav g"
| step: "graph_reachable ops trav g \<Longrightarrow> graph_step ops trav g (Done g') \<Longrightarrow> graph_reachable ops trav g'"

lemma RemoveNode_good:
  assumes "good g" "visits_all trav" "a \<in> live_nodes g" "\<not> IsSource a g" "\<not> IsSink a g"
  shows "\<exists>g'. RemoveNode trav a g = Done g' \<and> good g'"
proof -
  have ok: "graph_ok g" using assms(1) by (simp add: good_def)
  obtain g' where g': "RemoveNode trav a g = Done g'" "graph_ok g'" "live_nodes g' = live_nodes g - {a}" "g_nodes g' = (g_nodes g)[nat (n_id (node_at g a)) := None]"
      "same_props (- {a}) g g'"
    using RemoveNode_ok [OF ok assms(2,3)] by blast
  have "n_id (node_at g a) = int (nat (n_id (node_at g a)))" using live_node_at(1) assms(3) ok by (simp add: graph_ok_def)
  then have "nat (n_id (node_at g a)) \<noteq> 0" "nat (n_id (node_at g a)) \<noteq> 1" using assms(4,5) by (auto simp: IsSource_def IsSink_def)
  then have "rooted g'" using assms(1) g'(4) by (simp add: good_def rooted_def)
  moreover have "devices_ok g'" using assms(1) g'(3,5) by (simp add: good_def devices_ok_def device_table_def same_props_def)
  ultimately show ?thesis using g'(1,2) by (simp add: good_def)
qed

lemma graph_step_good:
  assumes "graph_step ops trav g r" "visits_all trav" "good g"
  shows "\<exists>g'. r = Done g' \<and> good g'"
proof -
  have ok: "graph_ok g" using assms(3) by (simp add: good_def)
  show ?thesis using assms(1)
  proof cases
    case (add_node def)
    obtain r' g' where "AddNode ops def g = (r', g')" by (cases "AddNode ops def g")
    then show ?thesis using add_node AddNode_good [OF assms(3)] by simp
  next
    case (copy_node h b props op_def)
    show ?thesis using CopyNode_good [OF assms(3) copy_node(2,3)] copy_node(1) by auto
  next
    case (add_edge a b x y)
    obtain e g' where "AddEdge a x b y g = Done (e, g')" "graph_ok g'" "same_nodes g g'" using AddEdge_ok [OF ok add_edge(2,3), of x y] by blast
    then show ?thesis using add_edge(1) same_nodes_good assms(3) by simp
  next
    case (add_control_edge a b dup)
    obtain e g' where "AddControlEdge trav a b dup g = Done (e, g')" "keeps g g'" using AddControlEdge_ok [OF ok add_control_edge(2,3), of trav dup] by blast
    then show ?thesis using add_control_edge(1) keeps_good assms(3) by simp
  next
    case (remove_edge e)
    obtain g' where "RemoveEdge e g = Done g'" "graph_ok g'" "same_nodes g g'" using RemoveEdge_ok [OF ok remove_edge(2)] by blast
    then show ?thesis using remove_edge(1) same_nodes_good assms(3) by simp
  next
    case (remove_control_edge e)
    obtain g' where "RemoveControlEdge e g = Done g'" "keeps g g'" using RemoveControlEdge_ok [OF ok remove_control_edge(2)] by blast
    then show ?thesis using remove_control_edge(1) keeps_good assms(3) by simp
  next
    case (remove_node a)
    then show ?thesis using RemoveNode_good [OF assms(3,2)] by simp
  next
    case (update_edge i b a x)
    obtain e g' where "UpdateEdge trav a x b i g = Done (e, g')" "keeps g g'" using UpdateEdge_ok [OF ok assms(2) update_edge(2), of a x] by blast
    then show ?thesis using update_edge(1) keeps_good assms(3) by simp
  next
    case (add_while_input a x b)
    obtain e g' where "AddWhileInputHack trav a x b g = Done (e, g')" "keeps g g'" using AddWhileInputHack_ok [OF ok, of trav a x b] by blast
    then show ?thesis using add_while_input(1) keeps_good assms(3) by simp
  next
    case (change_node a f)
    have "keeps g (upd_node a f g)" by (rule keeps_props [OF ok change_node(2)]) (use node_change_fields [OF change_node(3)] in blast)+
    then show ?thesis using change_node(1) keeps_good assms(3) by simp
  next
    case (assign_device a name)
    then show ?thesis using set_assigned_device_name_ok(1) [OF assms(3)] by simp
  next
    case (while_context frame w)
    then show ?thesis using assms(3) by (simp add: AddWhileContext_def good_def rooted_def devices_ok_def device_table_def live_nodes_def)
  next
    case (new_name p)
    then show ?thesis using assms(3) by (simp add: NewName_def good_def rooted_def devices_ok_def device_table_def live_nodes_def)
  qed
qed

lemma reachable_good: "graph_reachable ops trav g \<Longrightarrow> visits_all trav \<Longrightarrow> good g"
proof (induction rule: graph_reachable.induct)
  case (start g)
  then show ?case using Graph_good by blast
next
  case (step g g')
  then show ?case using graph_step_good [OF step(2)] by blast
qed

subsection \<open>Results\<close>

text \<open>
  \<^verbatim>\<open>Node::Clear\<close> is documented as restoring the uninitialised state, but leaves \<^verbatim>\<open>while_ctx_\<close>: the next node that is added reuses the
  object and has the \<^verbatim>\<open>WhileContext\<close> of the removed one.
\<close>

lemma recycled_while_ctx:
  assumes "good g" "visits_all trav" "a \<in> live_nodes g" "RemoveNode trav a g = Done g1" "AddNode ops def g1 = (Inr b, g2)"
  shows "b = a \<and> n_while_ctx (node_at g2 b) = n_while_ctx (node_at g a)"
proof -
  have ok: "graph_ok g" using assms(1) by (simp add: good_def)
  have rm: "graph_ok g1" "free_nodes g1 = free_nodes g @ [a]" "n_while_ctx (node_at g1 a) = n_while_ctx (node_at g a)"
    using RemoveNode_ok [OF ok assms(2,3)] assms(4) by auto
  obtain p where al: "AllocateNode p None g1 = (b, g2)" using assms(5) by (auto simp: AddNode_def Let_def split: sum.splits prod.splits)
  then have "b = a" using rm(2) by (simp add: AllocateNode_def Let_def)
  then show ?thesis using AllocateNode_ok(13) [OF rm(1) al] rm(2,3) by simp
qed

definition demo_registry :: registry where
  "demo_registry = \<lparr>LookUpOpDef = (\<lambda>_. Inr 0), InOutTypesForNode = (\<lambda>_ _. Inr ([], []))\<rparr>"

lemma demo_graph: "\<exists>g. Graph demo_registry (\<lambda>l. l) = Done g \<and> num_edges g = 1 \<and> g_nodes g = [Some 0, Some 1]"
  by (simp add: Graph_def demo_registry_def AddNode_def AllocateNode_def empty_graph_def no_op_def upd_node_def Initialize_node_def Node_def Let_def
      AddControlEdge_def IsSource_def AddEdge_def insert_out_def insert_in_def EdgeSet_def kInline_def numeral_eq_Suc)

text \<open>
  C13: A graph stays consistent. In every graph that the constructor and any sequence of operations on it give (nodes added, copied, changed or removed, edges added,
  removed or updated, with a free list behind both), the id of a node or an edge is its place in the vector; both ends of an edge are nodes of the
  graph; the edges that a traversal of a node's in or out edges yields are, once each, exactly the edges of the graph that end or begin there; the counts of nodes and
  edges are exact; the source and the sink are there; and no further operation fails one of the \<^verbatim>\<open>CHECK\<close>s in the code.
\<close>

theorem graph_consistent:
  assumes "graph_reachable ops trav g" "visits_all trav"
  shows "(\<forall>i a. i < length (g_nodes g) \<and> g_nodes g ! i = Some a \<longrightarrow> n_id (node_at g a) = int i \<and>
      distinct (es_list trav (in_edges (node_at g a))) \<and> distinct (es_list trav (out_edges (node_at g a))) \<and>
      set (es_list trav (in_edges (node_at g a))) = {e. Some e \<in> set (g_edges g) \<and> edge_dst (edge_at g e) = a} \<and>
      set (es_list trav (out_edges (node_at g a))) = {e. Some e \<in> set (g_edges g) \<and> edge_src (edge_at g e) = a}) \<and>
    (\<forall>i e. i < length (g_edges g) \<and> g_edges g ! i = Some e \<longrightarrow> edge_id (edge_at g e) = i \<and>
      Some (edge_src (edge_at g e)) \<in> set (g_nodes g) \<and> Some (edge_dst (edge_at g e)) \<in> set (g_nodes g)) \<and>
    num_nodes g = int (length (filter (\<lambda>p. p \<noteq> None) (g_nodes g))) \<and> num_edges g = int (length (filter (\<lambda>p. p \<noteq> None) (g_edges g))) \<and>
    g_nodes g ! 0 \<noteq> None \<and> g_nodes g ! 1 \<noteq> None \<and> (\<forall>r. graph_step ops trav g r \<longrightarrow> r \<noteq> Abort)"
proof -
  have good: "good g" by (rule reachable_good [OF assms])
  then have ok: "nodes_ok g" "edges_ok g" "sets_ok {} {} g" by (simp_all add: good_def graph_ok_def)
  have "n_id (node_at g a) = int i \<and>
      distinct (es_list trav (in_edges (node_at g a))) \<and> distinct (es_list trav (out_edges (node_at g a))) \<and>
      set (es_list trav (in_edges (node_at g a))) = {e. Some e \<in> set (g_edges g) \<and> edge_dst (edge_at g e) = a} \<and>
      set (es_list trav (out_edges (node_at g a))) = {e. Some e \<in> set (g_edges g) \<and> edge_src (edge_at g e) = a}"
    if i: "i < length (g_nodes g)" "g_nodes g ! i = Some a" for i a
  proof -
    have "a \<in> live_nodes g" using i unfolding live_nodes_def some_in_nth by blast
    note s = sets_okD [OF ok(3) this]
    show ?thesis using nodes_okD(1) [OF ok(1) i] es.elements_ok [OF s(1) assms(2)] es.elements_ok [OF s(2) assms(2)] s(3,4) by (simp add: live_edges_def)
  qed
  moreover have "edge_id (edge_at g e) = i \<and> Some (edge_src (edge_at g e)) \<in> set (g_nodes g) \<and> Some (edge_dst (edge_at g e)) \<in> set (g_nodes g)"
    if "i < length (g_edges g)" "g_edges g ! i = Some e" for i e using edges_okD(1) [OF ok(2) that] by (simp add: live_nodes_def)
  moreover have "r \<noteq> Abort" if "graph_step ops trav g r" for r using graph_step_good [OF that assms(2) good] by auto
  ultimately show ?thesis using nodes_okD(4) [OF ok(1)] edges_okD(4) [OF ok(2)] good by (auto simp: good_def rooted_def)
qed

theorem graph_consistent_witness:
  "\<exists>g. graph_reachable demo_registry (\<lambda>l. l) g \<and> num_edges g = 1 \<and> (\<forall>r. graph_step demo_registry (\<lambda>l. l) g r \<longrightarrow> r \<noteq> Abort)"
proof -
  obtain g where g: "Graph demo_registry (\<lambda>l. l) = Done g" "num_edges g = 1" using demo_graph by blast
  have "visits_all (\<lambda>l. l)" by (simp add: visits_all_def)
  then show ?thesis using graph_consistent [OF graph_reachable.start [OF g(1)]] g by (intro exI [of _ g]) (simp add: graph_reachable.start)
qed

end
