(* ===== verification/Graph_Def.thy ===== *)
theory Graph_Def
  imports Graph_Props
begin

text \<open>
  \<^verbatim>\<open>Graph::ToGraphDefSubRange\<close>: the list of node definitions that stands for a graph. It does not depend on the order in which the hash sets of edges are
  traversed.
\<close>

subsection \<open>What is written\<close>

text \<open>The edges by id, and the inputs of a node in the written definition: data inputs by number, then control inputs by name.\<close>

definition live_list :: "graph \<Rightarrow> nat list" where
  "live_list g = map the (filter (\<lambda>p. p \<noteq> None) (g_edges g))"

definition data_edge :: "graph \<Rightarrow> nat \<Rightarrow> nat \<Rightarrow> nat option" where
  "data_edge g a i = find (\<lambda>e. edge_dst (edge_at g e) = a \<and> \<not> IsControlEdge (edge_at g e) \<and> dst_input (edge_at g e) = int i) (live_list g)"

fun input_text :: "graph \<Rightarrow> string list \<Rightarrow> nat \<Rightarrow> nat option \<Rightarrow> string list" where
  "input_text g requested i None = [if i < length requested then requested ! i else []]"
| "input_text g requested i (Some e) =
     (if IsOp (edge_src (edge_at g e)) g then [AddInput (node_name (edge_src (edge_at g e)) g) (src_output (edge_at g e))] else [])"

definition control_names :: "graph \<Rightarrow> nat \<Rightarrow> string list" where
  "control_names g a = map (\<lambda>e. node_name (edge_src (edge_at g e)) g)
     (filter (\<lambda>e. edge_dst (edge_at g e) = a \<and> IsControlEdge (edge_at g e) \<and> IsOp (edge_src (edge_at g e)) g) (live_list g))"

definition def_inputs :: "graph \<Rightarrow> nat \<Rightarrow> string list" where
  "def_inputs g a = concat (map (\<lambda>i. input_text g (node_inputs (node_at g a)) i (data_edge g a i)) [0..<nat (num_inputs a g)]) @
     map (\<lambda>s. ''^'' @ s) (sort (control_names g a))"

definition def_of :: "graph \<Rightarrow> nat \<Rightarrow> node_def" where
  "def_of g a = (let d = p_def (the (n_props (node_at g a))); dev = get_assigned_device_name a g in
     (if dev \<noteq> [] then d\<lparr>d_device := dev\<rparr> else d)\<lparr>d_input := def_inputs g a\<rparr>)"

text \<open>The data inputs of a node are in range and connected once at most.\<close>

definition inputs_ok :: "graph \<Rightarrow> nat \<Rightarrow> bool" where
  "inputs_ok g a \<longleftrightarrow>
     (\<forall>e \<in> set (live_list g). edge_dst (edge_at g e) = a \<and> \<not> IsControlEdge (edge_at g e) \<longrightarrow>
        0 \<le> dst_input (edge_at g e) \<and> dst_input (edge_at g e) < num_inputs a g \<and>
        (\<forall>d \<in> set (live_list g). edge_dst (edge_at g d) = a \<and> \<not> IsControlEdge (edge_at g d) \<and> dst_input (edge_at g d) = dst_input (edge_at g e) \<longrightarrow> d = e))"

subsection \<open>The vector of inputs\<close>

lemma distinct_present:
  "(\<And>i j. i < length v \<Longrightarrow> j < length v \<Longrightarrow> v ! i = v ! j \<Longrightarrow> v ! i \<noteq> None \<Longrightarrow> i = j) \<Longrightarrow> distinct (filter (\<lambda>p. p \<noteq> None) v)"
proof (induction v)
  case (Cons x v)
  have "distinct (filter (\<lambda>p. p \<noteq> None) v)"
  proof (rule Cons.IH)
    fix i j assume "i < length v" "j < length v" "v ! i = v ! j" "v ! i \<noteq> None"
    then show "i = j" using Cons.prems [of "Suc i" "Suc j"] by simp
  qed
  moreover have "x \<notin> set v" if "x \<noteq> None"
  proof
    assume "x \<in> set v"
    then obtain j where "j < length v" "v ! j = x" by (auto simp: in_set_conv_nth)
    then show False using Cons.prems [of 0 "Suc j"] that by simp
  qed
  ultimately show ?case by auto
qed simp

lemma live_list_ok:
  assumes "edges_ok g"
  shows "set (live_list g) = live_edges g" "distinct (live_list g)"
proof -
  show "set (live_list g) = live_edges g" by (force simp: live_list_def live_edges_def image_iff)
  have "distinct (filter (\<lambda>p. p \<noteq> None) (g_edges g))"
  proof (rule distinct_present)
    fix i j assume "i < length (g_edges g)" "j < length (g_edges g)" "g_edges g ! i = g_edges g ! j" "g_edges g ! i \<noteq> None"
    then show "i = j" using edges_okD(1) [OF assms, of i] edges_okD(1) [OF assms, of j] by auto
  qed
  then show "distinct (live_list g)" by (auto simp: live_list_def distinct_map inj_on_def)
qed

lemma place_inputs_ok:
  assumes "distinct es" "n \<le> length v"
    "\<And>e. e \<in> set es \<Longrightarrow> \<not> IsControlEdge (edge_at g e) \<Longrightarrow> 0 \<le> dst_input (edge_at g e) \<and> dst_input (edge_at g e) < int n \<and> v ! nat (dst_input (edge_at g e)) = None"
    "\<And>e d. e \<in> set es \<Longrightarrow> d \<in> set es \<Longrightarrow> \<not> IsControlEdge (edge_at g e) \<Longrightarrow> \<not> IsControlEdge (edge_at g d) \<Longrightarrow> dst_input (edge_at g d) = dst_input (edge_at g e) \<Longrightarrow> d = e"
  shows "\<exists>w. place_inputs g es v = Done w \<and> n \<le> length w \<and> drop n w = drop n v @ map Some (filter (\<lambda>e. IsControlEdge (edge_at g e)) es) \<and>
    (\<forall>i < n. \<forall>e. w ! i = Some e \<longleftrightarrow> v ! i = Some e \<or> e \<in> set es \<and> \<not> IsControlEdge (edge_at g e) \<and> dst_input (edge_at g e) = int i)"
  using assms
proof (induction es arbitrary: v)
  case Nil
  then show ?case by simp
next
  case (Cons e es)
  show ?case
  proof (cases "IsControlEdge (edge_at g e)")
    case True
    have "\<exists>w. place_inputs g es (v @ [Some e]) = Done w \<and> n \<le> length w \<and>
        drop n w = drop n (v @ [Some e]) @ map Some (filter (\<lambda>e. IsControlEdge (edge_at g e)) es) \<and>
        (\<forall>i < n. \<forall>d. w ! i = Some d \<longleftrightarrow> (v @ [Some e]) ! i = Some d \<or> d \<in> set es \<and> \<not> IsControlEdge (edge_at g d) \<and> dst_input (edge_at g d) = int i)"
    proof (rule Cons.IH)
      fix d assume "d \<in> set es" "\<not> IsControlEdge (edge_at g d)"
      then have d: "0 \<le> dst_input (edge_at g d) \<and> dst_input (edge_at g d) < int n \<and> v ! nat (dst_input (edge_at g d)) = None" using Cons.prems(3) [of d] by simp
      then have "nat (dst_input (edge_at g d)) < length v" using Cons.prems(2) by linarith
      then show "0 \<le> dst_input (edge_at g d) \<and> dst_input (edge_at g d) < int n \<and> (v @ [Some e]) ! nat (dst_input (edge_at g d)) = None" using d by (simp add: nth_append)
    qed (use Cons.prems(1,2,4) in auto)
    then show ?thesis using True Cons.prems(2) by (auto simp: nth_append)
  next
    case False
    define j where "j = nat (dst_input (edge_at g e))"
    have j: "dst_input (edge_at g e) = int j" "j < n" "v ! j = None" using Cons.prems(3) [of e] False by (auto simp: j_def)
    have "\<exists>w. place_inputs g es (v[j := Some e]) = Done w \<and> n \<le> length w \<and>
        drop n w = drop n (v[j := Some e]) @ map Some (filter (\<lambda>e. IsControlEdge (edge_at g e)) es) \<and>
        (\<forall>i < n. \<forall>d. w ! i = Some d \<longleftrightarrow> v[j := Some e] ! i = Some d \<or> d \<in> set es \<and> \<not> IsControlEdge (edge_at g d) \<and> dst_input (edge_at g d) = int i)"
    proof (rule Cons.IH)
      fix d assume d: "d \<in> set es" "\<not> IsControlEdge (edge_at g d)"
      then have "d \<noteq> e" using Cons.prems(1) by auto
      then have "dst_input (edge_at g d) \<noteq> int j" using Cons.prems(4) [of e d] d False j(1) by auto
      then have "nat (dst_input (edge_at g d)) \<noteq> j" using Cons.prems(3) [of d] d by auto
      then show "0 \<le> dst_input (edge_at g d) \<and> dst_input (edge_at g d) < int n \<and> v[j := Some e] ! nat (dst_input (edge_at g d)) = None"
        using Cons.prems(3) [of d] d by simp
    qed (use Cons.prems(1,2,4) in auto)
    then obtain w where w: "place_inputs g es (v[j := Some e]) = Done w" "n \<le> length w" "drop n w = drop n v @ map Some (filter (\<lambda>e. IsControlEdge (edge_at g e)) es)"
        "\<And>i d. i < n \<Longrightarrow> w ! i = Some d \<longleftrightarrow> v[j := Some e] ! i = Some d \<or> d \<in> set es \<and> \<not> IsControlEdge (edge_at g d) \<and> dst_input (edge_at g d) = int i"
      using j(2) by auto
    have "w ! i = Some d \<longleftrightarrow> v ! i = Some d \<or> d \<in> set (e # es) \<and> \<not> IsControlEdge (edge_at g d) \<and> dst_input (edge_at g d) = int i" if "i < n" for i d
      using w(4) [OF that, of d] j False Cons.prems(2) that by (cases "i = j") auto
    moreover have "place_inputs g (e # es) v = Done w" using False j Cons.prems(2) w(1) by (simp add: Let_def)
    ultimately show ?thesis using w(2,3) False by (intro exI [of _ w]) simp
  qed
qed

subsection \<open>The written inputs\<close>

lemma emit_append: "emit_inputs g r k (u @ v) = emit_inputs g r k u @ emit_inputs g r (k + length u) v"
  by (induction g r k u rule: emit_inputs.induct) (auto simp: Let_def)

lemma emit_nth: "emit_inputs g r k v = concat (map (\<lambda>j. input_text g r (k + j) (v ! j)) [0..<length v])"
proof (induction v arbitrary: k)
  case (Cons p v)
  have "[0..<length (p # v)] = 0 # map Suc [0..<length v]" using upt_conv_Cons [of 0 "Suc (length v)"] by (simp add: map_Suc_upt)
  then have "concat (map (\<lambda>j. input_text g r (k + j) ((p # v) ! j)) [0..<length (p # v)]) = input_text g r k p @ emit_inputs g r (Suc k) v"
    using Cons.IH [of "Suc k"] by (simp add: comp_def)
  then show ?case by (cases p) (simp_all add: Let_def)
qed simp

lemma map_sort_key: "map f (sort_key f xs) = sort (map f xs)"
  by (rule sym, rule properties_for_sort) simp_all

lemma emit_control:
  "(\<And>p. p \<in> set v \<Longrightarrow> \<exists>e. p = Some e \<and> IsControlEdge (edge_at g e)) \<Longrightarrow>
   emit_inputs g r k v = map (\<lambda>p. ''^'' @ src_name g p) (filter (\<lambda>p. IsOp (edge_src (edge_at g (the p))) g) v)"
proof (induction v arbitrary: k)
  case (Cons p v)
  obtain e where "p = Some e" "IsControlEdge (edge_at g e)" using Cons.prems [of p] by auto
  moreover have "emit_inputs g r (k + 1) v = map (\<lambda>p. ''^'' @ src_name g p) (filter (\<lambda>p. IsOp (edge_src (edge_at g (the p))) g) v)"
    using Cons.prems by (intro Cons.IH) simp
  ultimately show ?case by (simp add: Let_def src_name_def AddInput_def IsControlEdge_def)
qed simp

lemma emit_sorted:
  assumes "\<And>e. e \<in> set cs \<Longrightarrow> IsControlEdge (edge_at g e)"
  shows "emit_inputs g r k (sort_key (src_name g) (map Some cs)) =
    map (\<lambda>s. ''^'' @ s) (sort (map (\<lambda>e. node_name (edge_src (edge_at g e)) g) (filter (\<lambda>e. IsOp (edge_src (edge_at g e)) g) cs)))"
proof -
  let ?P = "\<lambda>p. IsOp (edge_src (edge_at g (the p))) g"
  have "emit_inputs g r k (sort_key (src_name g) (map Some cs)) = map (\<lambda>p. ''^'' @ src_name g p) (filter ?P (sort_key (src_name g) (map Some cs)))"
    using assms by (intro emit_control) auto
  also have "\<dots> = map (\<lambda>s. ''^'' @ s) (map (src_name g) (sort_key (src_name g) (filter ?P (map Some cs))))" by (simp add: filter_sort comp_def)
  also have "\<dots> = map (\<lambda>s. ''^'' @ s) (sort (map (src_name g) (filter ?P (map Some cs))))" by (simp only: map_sort_key)
  also have "map (src_name g) (filter ?P (map Some cs)) = map (\<lambda>e. node_name (edge_src (edge_at g e)) g) (filter (\<lambda>e. IsOp (edge_src (edge_at g e)) g) cs)"
    by (simp add: filter_map comp_def src_name_def)
  finally show ?thesis .
qed

subsection \<open>Results\<close>

lemma node_to_def_ok:
  assumes "graph_ok g" "visits_all trav" "a \<in> live_nodes g" "inputs_ok g a"
  shows "node_to_def trav a g = Done (def_of g a)"
proof -
  define es where "es = es_list trav (in_edges (node_at g a))"
  define n where "n = nat (num_inputs a g)"
  define L where "L = live_list g"
  have eok: "edges_ok g" and sok: "sets_ok {} {} g" and nok: "nodes_ok g" using assms(1) by (simp_all add: graph_ok_def)
  have L: "set L = live_edges g" "distinct L" using live_list_ok [OF eok] by (simp_all add: L_def)
  have es: "set es = set (filter (\<lambda>e. edge_dst (edge_at g e) = a) L)" "distinct es"
    using es.elements_ok [OF sets_okD(1) [OF sok assms(3)] assms(2)] sets_okD(3) [OF sok assms(3)] L(1) by (auto simp: es_def)
  have in_range: "0 \<le> dst_input (edge_at g e) \<and> dst_input (edge_at g e) < int n" and
    once: "\<And>d. d \<in> set es \<Longrightarrow> \<not> IsControlEdge (edge_at g d) \<Longrightarrow> dst_input (edge_at g d) = dst_input (edge_at g e) \<Longrightarrow> d = e"
    if "e \<in> set es" "\<not> IsControlEdge (edge_at g e)" for e
    using assms(4) that es(1) by (auto simp: inputs_ok_def n_def L_def)
  have empty: "replicate n (None :: nat option) ! nat (dst_input (edge_at g e)) = None" if "e \<in> set es" "\<not> IsControlEdge (edge_at g e)" for e
  proof -
    have "nat (dst_input (edge_at g e)) < n" using in_range [OF that] by linarith
    then show ?thesis by simp
  qed
  obtain w where w: "place_inputs g es (replicate n None) = Done w" "n \<le> length w" "drop n w = map Some (filter (\<lambda>e. IsControlEdge (edge_at g e)) es)"
      "\<And>i e. i < n \<Longrightarrow> w ! i = Some e \<longleftrightarrow> e \<in> set es \<and> \<not> IsControlEdge (edge_at g e) \<and> dst_input (edge_at g e) = int i"
    using place_inputs_ok [OF es(2), of n "replicate n None" g] in_range once empty by auto
  have "w ! i = data_edge g a i" if i: "i < n" for i
  proof (cases "w ! i")
    case None
    then have "\<not> (\<exists>e \<in> set L. edge_dst (edge_at g e) = a \<and> \<not> IsControlEdge (edge_at g e) \<and> dst_input (edge_at g e) = int i)"
      using w(4) [OF i] es(1) by auto
    then show ?thesis using None by (simp add: data_edge_def L_def [symmetric] find_None_iff eq_commute [of None])
  next
    case (Some e)
    then have e: "e \<in> set es" "\<not> IsControlEdge (edge_at g e)" "dst_input (edge_at g e) = int i" using w(4) [OF i, of e] by simp_all
    then have "data_edge g a i \<noteq> None" using es(1) unfolding data_edge_def L_def [symmetric] find_None_iff by auto
    then obtain d where d: "data_edge g a i = Some d" by blast
    then have "d \<in> set es \<and> \<not> IsControlEdge (edge_at g d) \<and> dst_input (edge_at g d) = int i"
      using es(1) unfolding data_edge_def L_def [symmetric] find_Some_iff by auto
    then show ?thesis using once [OF e(1,2), of d] e(3) d Some by simp
  qed
  then have tk: "take n w = map (data_edge g a) [0..<n]" using w(2) by (intro nth_equalityI) simp_all
  have "mset es = mset (filter (\<lambda>e. edge_dst (edge_at g e) = a) L)" using es L(2) by (intro iffD1 [OF set_eq_iff_mset_eq_distinct]) simp_all
  then have ms: "mset (filter (\<lambda>e. IsOp (edge_src (edge_at g e)) g) (filter (\<lambda>e. IsControlEdge (edge_at g e)) es)) =
      mset (filter (\<lambda>e. edge_dst (edge_at g e) = a \<and> IsControlEdge (edge_at g e) \<and> IsOp (edge_src (edge_at g e)) g) L)"
    by (simp add: filter_filter_mset conj_commute conj_left_commute)
  have srt: "sort (map (\<lambda>e. node_name (edge_src (edge_at g e)) g) (filter (\<lambda>e. IsOp (edge_src (edge_at g e)) g) (filter (\<lambda>e. IsControlEdge (edge_at g e)) es))) =
      sort (control_names g a)"
    unfolding control_names_def L_def [symmetric] by (rule properties_for_sort [symmetric, OF _ sorted_sort]) (simp only: mset_sort mset_map ms)
  have "emit_inputs g r k (sort_key (src_name g) (drop n w)) = map (\<lambda>s. ''^'' @ s) (sort (control_names g a))" for r k
    unfolding w(3) srt [symmetric] by (rule emit_sorted) simp
  moreover have "emit_inputs g r 0 (take n w) = concat (map (\<lambda>i. input_text g r i (data_edge g a i)) [0..<n])" for r
    unfolding tk emit_nth by (intro arg_cong [of _ _ concat] map_cong) simp_all
  ultimately have "emit_inputs g (node_inputs (node_at g a)) 0 (take n w @ sort_key (src_name g) (drop n w)) = def_inputs g a"
    unfolding emit_append def_inputs_def n_def [symmetric] by simp
  moreover obtain p where "n_props (node_at g a) = Some p" using live_node_at(6) [OF nok assms(3)] by blast
  ultimately show ?thesis using w(1) by (simp add: node_to_def_def def_of_def Let_def es_def n_def node_inputs_def)
qed

lemma nodes_to_defs_ok:
  assumes "graph_ok g" "visits_all trav" "\<And>a. Some a \<in> set v \<Longrightarrow> a \<in> live_nodes g \<and> (IsOp a g \<longrightarrow> inputs_ok g a)"
  shows "nodes_to_defs trav v g = Done (map (def_of g) (filter (\<lambda>a. IsOp a g) (map the (filter (\<lambda>p. p \<noteq> None) v))))"
  using assms
proof (induction trav v g rule: nodes_to_defs.induct)
  case (3 trav a v g)
  have "nodes_to_defs trav v g = Done (map (def_of g) (filter (\<lambda>a. IsOp a g) (map the (filter (\<lambda>p. p \<noteq> None) v))))"
    using 3 by (cases "IsOp a g") auto
  moreover have "IsOp a g \<Longrightarrow> node_to_def trav a g = Done (def_of g a)" using node_to_def_ok [OF 3(3,4)] 3(5) [of a] by simp
  ultimately show ?case by simp
qed simp_all


lemma demo_node: "\<exists>a g. graph_reachable demo_registry (\<lambda>l. l) g \<and> g_nodes g = [Some 0, Some 1, Some a] \<and>
  n_id (node_at g 0) = 0 \<and> n_id (node_at g 1) = 1 \<and> n_id (node_at g a) = 2 \<and> (\<forall>e \<in> live_edges g. edge_dst (edge_at g e) \<noteq> a)"
proof -
  obtain g where g: "Graph demo_registry (\<lambda>l. l) = Done g" "g_nodes g = [Some 0, Some 1]" using demo_graph by blast
  have ok: "graph_ok g" using Graph_good [OF g(1)] by (simp add: good_def)
  obtain p a g1 where al: "AllocateNode p None g = (a, g1)" "AddNode demo_registry (no_op ''x'') g = (Inr a, g1)"
    by (cases "AllocateNode \<lparr>p_def = no_op ''x'', p_op_def = 0, p_input_types = [], p_output_types = []\<rparr> None g") (simp add: AddNode_def demo_registry_def)
  note new = AllocateNode_ok [OF ok al(1)]
  have reach: "graph_reachable demo_registry (\<lambda>l. l) g1"
    using graph_reachable.step [OF graph_reachable.start [OF g(1)] graph_step.add_node [of demo_registry "\<lambda>l. l" g "no_op ''x''"]] al(2) by simp
  have v: "g_nodes g1 = [Some 0, Some 1, Some a]" using new(3) g(2) by simp
  have n1: "nodes_ok g1" and e1: "edges_ok g" using new(1) ok by (simp_all add: graph_ok_def)
  have "n_id (node_at g1 0) = 0 \<and> n_id (node_at g1 1) = 1 \<and> n_id (node_at g1 a) = 2"
    using nodes_okD(1) [OF n1, of 0] nodes_okD(1) [OF n1, of 1] nodes_okD(1) [OF n1, of 2] v by simp
  moreover have "\<forall>e \<in> live_edges g1. edge_dst (edge_at g1 e) \<noteq> a" using new(2,5,6) live_edge_at(6) [OF e1] by auto
  ultimately show ?thesis using reach v by blast
qed


end
