(* ===== verification/Graph_Search.thy ===== *)
theory Graph_Search
  imports Graph_Props
begin

text \<open>
  \<^verbatim>\<open>core/graph/algorithm.cc\<close>: depth-first searches with a stack, post orders, pruning of what does not lead to given nodes, and edges from the source and to
  the sink. A search gives the sequence of its calls to \<^verbatim>\<open>enter\<close> and \<^verbatim>\<open>leave\<close>; callbacks do not change the graph. The end of the stack is the
  head of the list. A sort of nodes by a comparator is a function on lists; an access to \<^verbatim>\<open>visited\<close> behind its end is undefined.
\<close>

subsection \<open>Depth-first search\<close>

datatype visit = Enter nat | Leave nat

definition node_id :: "graph \<Rightarrow> nat \<Rightarrow> nat" where
  "node_id g n = nat (n_id (node_at g n))"

definition add_work :: "(nat \<Rightarrow> nat) \<Rightarrow> bool list \<Rightarrow> nat list \<Rightarrow> (nat \<times> bool) list \<Rightarrow> (nat \<times> bool) list" where
  "add_work nid visited outs stack = rev (map (\<lambda>out. (out, False)) (filter (\<lambda>out. \<not> visited ! nid out) outs)) @ stack"

lemma unvisited_less:
  "i < length visited \<Longrightarrow> \<not> visited ! i \<Longrightarrow> length (filter Not (visited[i := True])) < length (filter Not visited)"
proof (induction visited arbitrary: i)
  case (Cons v visited)
  then show ?case by (cases i) auto
qed simp

text \<open>The loop of both helpers, for given neighbours of a node; \<open>lv\<close> tells whether there is a callback \<^verbatim>\<open>leave\<close>.\<close>

function dfs_loop :: "(nat \<Rightarrow> nat) \<Rightarrow> (nat \<Rightarrow> nat list) \<Rightarrow> bool \<Rightarrow> bool list \<Rightarrow> (nat \<times> bool) list \<Rightarrow> visit list outcome" where
  "dfs_loop nid nbrs lv visited [] = Done []"
| "dfs_loop nid nbrs lv visited ((n, leaving) # stack) =
     (if leaving then obind (dfs_loop nid nbrs lv visited stack) (\<lambda>log. Done (Leave n # log))
      else if \<not> nid n < length visited then Abort
      else if visited ! nid n then dfs_loop nid nbrs lv visited stack
      else let visited1 = visited[nid n := True] in
        if \<not> (\<forall>out \<in> set (nbrs n). nid out < length visited1) then Abort
        else obind (dfs_loop nid nbrs lv visited1 (add_work nid visited1 (nbrs n) (if lv then (n, True) # stack else stack))) (\<lambda>log. Done (Enter n # log)))"
  by pat_completeness auto
termination
  by (relation "measures [\<lambda>(nid, nbrs, lv, visited, stack). length (filter Not visited), \<lambda>(nid, nbrs, lv, visited, stack). length stack]")
    (auto simp: unvisited_less)

definition sort_nodes :: "(nat list \<Rightarrow> nat list) option \<Rightarrow> nat list \<Rightarrow> nat list" where
  "sort_nodes sorter ns = (case sorter of Some f \<Rightarrow> f ns | None \<Rightarrow> ns)"

definition out_nodes :: "(nat list \<Rightarrow> nat list) \<Rightarrow> (nat list \<Rightarrow> nat list) option \<Rightarrow> (edge \<Rightarrow> bool) \<Rightarrow> graph \<Rightarrow> nat \<Rightarrow> nat list" where
  "out_nodes trav sorter edge_filter g n =
     sort_nodes sorter (map (\<lambda>e. edge_dst (edge_at g e)) (filter (\<lambda>e. edge_filter (edge_at g e)) (es_list trav (out_edges (node_at g n)))))"

definition in_nodes :: "(nat list \<Rightarrow> nat list) \<Rightarrow> (nat list \<Rightarrow> nat list) option \<Rightarrow> graph \<Rightarrow> nat \<Rightarrow> nat list" where
  "in_nodes trav sorter g n = sort_nodes sorter (map (\<lambda>e. edge_src (edge_at g e)) (es_list trav (in_edges (node_at g n))))"

definition start_stack :: "nat list \<Rightarrow> (nat \<times> bool) list" where
  "start_stack start = rev (map (\<lambda>n. (n, False)) start)"

definition DFSFrom :: "(nat list \<Rightarrow> nat list) \<Rightarrow> graph \<Rightarrow> nat list \<Rightarrow> bool \<Rightarrow> (nat list \<Rightarrow> nat list) option \<Rightarrow> (edge \<Rightarrow> bool) \<Rightarrow> visit list outcome" where
  "DFSFrom trav g start lv sorter edge_filter =
     dfs_loop (node_id g) (out_nodes trav sorter edge_filter g) lv (replicate (length (g_nodes g)) False) (start_stack start)"

definition ReverseDFSFrom :: "(nat list \<Rightarrow> nat list) \<Rightarrow> graph \<Rightarrow> nat list \<Rightarrow> bool \<Rightarrow> (nat list \<Rightarrow> nat list) option \<Rightarrow> visit list outcome" where
  "ReverseDFSFrom trav g start lv sorter =
     dfs_loop (node_id g) (in_nodes trav sorter g) lv (replicate (length (g_nodes g)) False) (start_stack start)"

definition FindNodeId :: "nat \<Rightarrow> graph \<Rightarrow> nat option" where
  "FindNodeId i g = g_nodes g ! i"

definition DFS :: "(nat list \<Rightarrow> nat list) \<Rightarrow> graph \<Rightarrow> bool \<Rightarrow> (nat list \<Rightarrow> nat list) option \<Rightarrow> (edge \<Rightarrow> bool) \<Rightarrow> visit list outcome" where
  "DFS trav g lv sorter edge_filter = DFSFrom trav g [the (FindNodeId 0 g)] lv sorter edge_filter"

definition ReverseDFS :: "(nat list \<Rightarrow> nat list) \<Rightarrow> graph \<Rightarrow> bool \<Rightarrow> (nat list \<Rightarrow> nat list) option \<Rightarrow> visit list outcome" where
  "ReverseDFS trav g lv sorter = ReverseDFSFrom trav g [the (FindNodeId 1 g)] lv sorter"

fun enters :: "visit list \<Rightarrow> nat list" where
  "enters [] = []"
| "enters (Enter n # l) = n # enters l"
| "enters (Leave n # l) = enters l"

fun leaves :: "visit list \<Rightarrow> nat list" where
  "leaves [] = []"
| "leaves (Enter n # l) = leaves l"
| "leaves (Leave n # l) = n # leaves l"

definition GetPostOrder :: "(nat list \<Rightarrow> nat list) \<Rightarrow> graph \<Rightarrow> (nat list \<Rightarrow> nat list) option \<Rightarrow> (edge \<Rightarrow> bool) \<Rightarrow> nat list outcome" where
  "GetPostOrder trav g sorter edge_filter = obind (DFS trav g True sorter edge_filter) (\<lambda>log. Done (leaves log))"

definition GetReversePostOrder :: "(nat list \<Rightarrow> nat list) \<Rightarrow> graph \<Rightarrow> (nat list \<Rightarrow> nat list) option \<Rightarrow> (edge \<Rightarrow> bool) \<Rightarrow> nat list outcome" where
  "GetReversePostOrder trav g sorter edge_filter = obind (GetPostOrder trav g sorter edge_filter) (\<lambda>order. Done (rev order))"

subsection \<open>Pruning and repair\<close>

definition reach_in :: "(nat \<Rightarrow> nat) \<Rightarrow> nat \<Rightarrow> bool list \<times> nat list \<Rightarrow> bool list \<times> nat list" where
  "reach_in nid i = (\<lambda>(visited, queue). if \<not> visited ! nid i then (visited[nid i := True], queue @ [i]) else (visited, queue))"

lemma fold_reach_in:
  "\<forall>i \<in> set ns. nid i < length visited \<Longrightarrow> fold (reach_in nid) ns (visited, queue) = (v, q) \<Longrightarrow>
   length v = length visited \<and> length (filter Not v) + length q = length (filter Not visited) + length queue"
proof (induction ns arbitrary: visited queue)
  case (Cons i ns)
  have *: "j < length vs \<Longrightarrow> \<not> vs ! j \<Longrightarrow> Suc (length (filter Not (vs[j := True]))) = length (filter Not vs)" for j and vs :: "bool list"
  proof (induction vs arbitrary: j)
    case (Cons v vs)
    then show ?case by (cases j) auto
  qed simp
  show ?case
  proof (cases "visited ! nid i")
    case True
    then show ?thesis using Cons by (simp add: reach_in_def)
  next
    case False
    then have "length v = length (visited[nid i := True]) \<and> length (filter Not v) + length q = length (filter Not (visited[nid i := True])) + length (queue @ [i])"
      using Cons.prems by (intro Cons.IH) (simp_all add: reach_in_def)
    then show ?thesis using * [of "nid i" visited] False Cons.prems(1) by simp
  qed
qed simp

function bfs_loop :: "(nat \<Rightarrow> nat) \<Rightarrow> (nat \<Rightarrow> nat list) \<Rightarrow> bool list \<Rightarrow> nat list \<Rightarrow> bool list outcome" where
  "bfs_loop nid nbrs visited [] = Done visited"
| "bfs_loop nid nbrs visited (n # queue) =
     (if \<not> (\<forall>i \<in> set (nbrs n). nid i < length visited) then Abort
      else let (visited1, queue1) = fold (reach_in nid) (nbrs n) (visited, queue) in bfs_loop nid nbrs visited1 queue1)"
  by pat_completeness auto
termination
proof (relation "measure (\<lambda>(nid, nbrs, visited, queue). length (filter Not visited) + length queue)")
  fix nid :: "nat \<Rightarrow> nat" and nbrs :: "nat \<Rightarrow> nat list" and visited and n :: nat and queue and x :: "bool list \<times> nat list" and v q
  assume "\<not> \<not> (\<forall>i \<in> set (nbrs n). nid i < length visited)" "x = fold (reach_in nid) (nbrs n) (visited, queue)" "(v, q) = x"
  then have "\<forall>i \<in> set (nbrs n). nid i < length visited" "fold (reach_in nid) (nbrs n) (visited, queue) = (v, q)" by simp_all
  from fold_reach_in [OF this]
  show "((nid, nbrs, v, q), (nid, nbrs, visited, n # queue)) \<in> measure (\<lambda>(nid, nbrs, visited, queue). length (filter Not visited) + length queue)" by simp
qed simp

fun remove_unvisited :: "(nat list \<Rightarrow> nat list) \<Rightarrow> bool list \<Rightarrow> nat \<Rightarrow> bool \<Rightarrow> graph \<Rightarrow> (bool \<times> graph) outcome" where
  "remove_unvisited trav [] i any_removed g = Done (any_removed, g)"
| "remove_unvisited trav (v # vs) i any_removed g =
     (case (if v then None else FindNodeId i g) of
        None \<Rightarrow> remove_unvisited trav vs (i + 1) any_removed g
      | Some n \<Rightarrow>
        if \<not> IsSource n g \<and> \<not> IsSink n g then obind (RemoveNode trav n g) (\<lambda>g1. remove_unvisited trav vs (i + 1) True g1)
        else remove_unvisited trav vs (i + 1) any_removed g)"

definition mark_start :: "(nat \<Rightarrow> nat) \<Rightarrow> nat list \<Rightarrow> bool list \<Rightarrow> bool list" where
  "mark_start nid start visited = fold (\<lambda>n v. v[nid n := True]) start visited"

text \<open>\<open>start\<close> lists the set of nodes in the order of its iterator.\<close>

definition PruneForReverseReachability :: "(nat list \<Rightarrow> nat list) \<Rightarrow> nat list \<Rightarrow> graph \<Rightarrow> (bool \<times> graph) outcome" where
  "PruneForReverseReachability trav start g =
     (if \<not> (\<forall>n \<in> set start. node_id g n < length (g_nodes g)) then Abort
      else obind (bfs_loop (node_id g) (in_nodes trav None g) (mark_start (node_id g) start (replicate (length (g_nodes g)) False)) start) (\<lambda>visited.
        remove_unvisited trav visited 0 False g))"

definition fixup_node :: "(nat list \<Rightarrow> nat list) \<Rightarrow> nat \<Rightarrow> bool \<times> graph \<Rightarrow> (bool \<times> graph) outcome" where
  "fixup_node trav n = (\<lambda>(changed, g).
     obind (if \<not> IsSource n g \<and> es_empty (in_edges (node_at g n))
            then obind (AddControlEdge trav (the (FindNodeId 0 g)) n True g) (\<lambda>(_, g1). Done (True, g1)) else Done (changed, g)) (\<lambda>(changed1, g1).
     if \<not> IsSink n g1 \<and> es_empty (out_edges (node_at g1 n))
     then obind (AddControlEdge trav n (the (FindNodeId 1 g1)) True g1) (\<lambda>(_, g2). Done (True, g2)) else Done (changed1, g1)))"

fun fixup_nodes :: "(nat list \<Rightarrow> nat list) \<Rightarrow> nat option list \<Rightarrow> bool \<times> graph \<Rightarrow> (bool \<times> graph) outcome" where
  "fixup_nodes trav [] s = Done s"
| "fixup_nodes trav (None # v) s = fixup_nodes trav v s"
| "fixup_nodes trav (Some n # v) s = obind (fixup_node trav n s) (fixup_nodes trav v)"

definition FixupSourceAndSinkEdges :: "(nat list \<Rightarrow> nat list) \<Rightarrow> graph \<Rightarrow> (bool \<times> graph) outcome" where
  "FixupSourceAndSinkEdges trav g = fixup_nodes trav (g_nodes g) (False, g)"

end
