(* ===== verification/Graph_Search_Correct.thy ===== *)
theory Graph_Search_Correct
  imports Graph_Search
begin

text \<open>
  The searches of \<open>Graph_Search\<close>. The loop with its explicit stack implements a recursive search, \<open>dfs_run\<close>; what is entered and left, and in
  which order, is shown for that.
\<close>

subsection \<open>Recursive search\<close>

inductive dfs_run :: "(nat \<Rightarrow> nat list) \<Rightarrow> nat set \<Rightarrow> nat list \<Rightarrow> visit list \<Rightarrow> bool" for nbrs :: "nat \<Rightarrow> nat list" where
  all_done: "dfs_run nbrs V [] []"
| seen: "n \<in> V \<Longrightarrow> dfs_run nbrs V ns l \<Longrightarrow> dfs_run nbrs V (n # ns) l"
| enter: "n \<notin> V \<Longrightarrow> set ms = set (nbrs n) - insert n V \<Longrightarrow> dfs_run nbrs (insert n V) ms l1 \<Longrightarrow>
    dfs_run nbrs (insert n V \<union> set (enters l1)) ns l2 \<Longrightarrow> dfs_run nbrs V (n # ns) (Enter n # l1 @ Leave n # l2)"

lemma enters_append [simp]: "enters (l1 @ l2) = enters l1 @ enters l2"
  by (induction l1 rule: enters.induct) simp_all

lemma leaves_append [simp]: "leaves (l1 @ l2) = leaves l1 @ leaves l2"
  by (induction l1 rule: leaves.induct) simp_all

lemma run_enters: "dfs_run nbrs V ns l \<Longrightarrow> distinct (enters l) \<and> set (enters l) \<inter> V = {}"
  by (induction rule: dfs_run.induct) auto

lemma run_leaves: "dfs_run nbrs V ns l \<Longrightarrow> mset (leaves l) = mset (enters l)"
  by (induction rule: dfs_run.induct) auto

lemma run_leaves_set: "dfs_run nbrs V ns l \<Longrightarrow> set (leaves l) = set (enters l)"
  using run_leaves mset_eq_setD by blast

lemma run_closed: "dfs_run nbrs V ns l \<Longrightarrow> set ns \<subseteq> V \<union> set (enters l) \<and> (\<forall>a \<in> set (enters l). set (nbrs a) \<subseteq> V \<union> set (enters l))"
proof (induction rule: dfs_run.induct)
  case (enter n V ms l1 ns l2)
  let ?W = "V \<union> set (enters (Enter n # l1 @ Leave n # l2))"
  have "set (nbrs n) \<subseteq> ?W" using enter.hyps(2) enter.IH(1) by auto
  moreover have "set (nbrs a) \<subseteq> ?W" if "a \<in> set (enters l1) \<union> set (enters l2)" for a using that enter.IH by fastforce
  moreover have "set (n # ns) \<subseteq> ?W" using enter.IH(2) by auto
  ultimately show ?case by auto
qed auto

abbreviation path :: "(nat \<Rightarrow> nat list) \<Rightarrow> nat \<Rightarrow> nat \<Rightarrow> bool" where
  "path nbrs \<equiv> (\<lambda>a b. b \<in> set (nbrs a))\<^sup>*\<^sup>*"

lemma run_sound: "dfs_run nbrs V ns l \<Longrightarrow> x \<in> set (enters l) \<Longrightarrow> \<exists>m \<in> set ns. path nbrs m x"
proof (induction rule: dfs_run.induct)
  case (enter n V ms l1 ns l2)
  consider "x = n" | "x \<in> set (enters l1)" | "x \<in> set (enters l2)" using enter.prems by auto
  then show ?case
  proof cases
    case 2
    then obtain m where "m \<in> set (nbrs n)" "path nbrs m x" using enter.IH(1) enter.hyps(2) by blast
    then have "path nbrs n x" by (rule converse_rtranclp_into_rtranclp [of "\<lambda>a b. b \<in> set (nbrs a)"])
    then show ?thesis by auto
  qed (use enter.IH in auto)
qed auto

lemma run_reaches:
  assumes "dfs_run nbrs {} ns l"
  shows "set (enters l) = {x. \<exists>m \<in> set ns. path nbrs m x}"
proof
  show "set (enters l) \<subseteq> {x. \<exists>m \<in> set ns. path nbrs m x}" using run_sound [OF assms] by blast
  have "x \<in> set (enters l)" if "path nbrs m x" "m \<in> set ns" for m x
    using that run_closed [OF assms] by (induction rule: rtranclp_induct) auto
  then show "{x. \<exists>m \<in> set ns. path nbrs m x} \<subseteq> set (enters l)" by blast
qed

subsection \<open>The order of leaving\<close>

definition before :: "nat \<Rightarrow> nat \<Rightarrow> nat list \<Rightarrow> bool" where
  "before b a xs \<longleftrightarrow> (\<exists>us vs. xs = us @ a # vs \<and> b \<in> set us)"

lemma before_append:
  "before b a xs \<Longrightarrow> before b a (ys @ xs)" "before b a xs \<Longrightarrow> before b a (xs @ ys)" "b \<in> set ys \<Longrightarrow> a \<in> set xs \<Longrightarrow> before b a (ys @ xs)"
proof -
  show "before b a xs \<Longrightarrow> before b a (ys @ xs)" "before b a xs \<Longrightarrow> before b a (xs @ ys)" unfolding before_def by (metis append_Cons append_assoc Un_iff set_append)+
  show "b \<in> set ys \<Longrightarrow> a \<in> set xs \<Longrightarrow> before b a (ys @ xs)" unfolding before_def by (metis append_assoc split_list Un_iff set_append)
qed

lemma before_rev: "before b a xs \<Longrightarrow> before a b (rev xs)"
proof -
  assume "before b a xs"
  then obtain us vs where xs: "xs = us @ a # vs" "b \<in> set us" by (auto simp: before_def)
  then obtain u1 u2 where "us = u1 @ b # u2" by (meson split_list)
  then have "rev xs = (rev vs @ a # rev u2) @ b # rev u1" using xs(1) by simp
  then show ?thesis unfolding before_def by (intro exI [of _ "rev vs @ a # rev u2"] exI [of _ "rev u1"]) simp
qed

text \<open>
  A neighbour that does not lead back is left first. \<open>A\<close> is the set of nodes on the way from the start, which are entered and not left; they lead to
  everything on the stack.
\<close>

lemma run_order:
  "dfs_run nbrs V ns l \<Longrightarrow> \<forall>o' \<in> A. \<forall>m \<in> set ns. path nbrs o' m \<Longrightarrow> a \<in> set (enters l) \<Longrightarrow> b \<in> set (nbrs a) \<Longrightarrow> \<not> path nbrs b a \<Longrightarrow>
   b \<in> V - A \<or> before b a (leaves l)"
proof (induction arbitrary: A rule: dfs_run.induct)
  case (enter n V ms l1 ns l2)
  have nb: "path nbrs n m" if "m \<in> set ms" for m using that enter.hyps(2) by auto
  have way: "\<forall>o' \<in> insert n A. \<forall>m \<in> set ms. path nbrs o' m"
    using nb enter.prems(1) rtranclp_trans [of "\<lambda>a b. b \<in> set (nbrs a)"] by (metis insert_iff list.set_intros(1))
  consider "a \<in> set (enters l1)" | (n) "a = n" | (rest) "a \<in> set (enters l2)" using enter.prems(2) by auto
  then show ?case
  proof cases
    case 1
    then have "b \<in> insert n V - insert n A \<or> before b a (leaves l1)" using enter.IH(1) [OF way] enter.prems(3,4) by blast
    then show ?thesis using before_append(2) [of b a "leaves l1" "n # leaves l2"] by auto
  next
    case n
    have "b \<noteq> n" "b \<notin> A" using enter.prems(1,4) n by auto
    moreover have "before b a (leaves (Enter n # l1 @ Leave n # l2))" if "b \<notin> V"
    proof -
      have "b \<in> set ms" using that n enter.prems(3) enter.hyps(2) \<open>b \<noteq> n\<close> by simp
      then have "b \<in> set (enters l1)" using run_closed [OF enter.hyps(3)] that \<open>b \<noteq> n\<close> by auto
      then show ?thesis using before_append(3) [of b "leaves l1" a "n # leaves l2"] run_leaves_set [OF enter.hyps(3)] n by simp
    qed
    ultimately show ?thesis by blast
  next
    case rest
    have "b \<in> (insert n V \<union> set (enters l1)) - A \<or> before b a (leaves l2)" using enter.IH(2) [of A] enter.prems rest by simp
    then consider "b \<in> V - A" | "b \<in> set (leaves l1 @ [n])" | "before b a (leaves l2)" using run_leaves_set [OF enter.hyps(3)] by auto
    then show ?thesis
    proof cases
      case 2
      then show ?thesis using before_append(3) [of b "leaves l1 @ [n]" a "leaves l2"] rest run_leaves_set [OF enter.hyps(4)] by simp
    next
      case 3
      then show ?thesis using before_append(1) [of b a "leaves l2" "leaves l1 @ [n]"] by simp
    qed simp
  qed
qed auto

subsection \<open>The loop\<close>

lemma add_work_append: "add_work nid visited outs (s1 @ s2) = add_work nid visited outs s1 @ s2"
  by (simp add: add_work_def)

lemma obind_assoc: "obind (obind m f) h = obind m (\<lambda>x. obind (f x) h)"
  by (cases m) simp_all

lemma loop_append:
  "dfs_loop nid nbrs lv visited (s1 @ s2) =
   obind (dfs_loop nid nbrs lv visited s1) (\<lambda>l1. obind (dfs_loop nid nbrs lv (mark_start nid (enters l1) visited) s2) (\<lambda>l2. Done (l1 @ l2)))"
proof (induction nid nbrs lv visited s1 rule: dfs_loop.induct)
  case (1 nid nbrs lv visited)
  then show ?case by (cases "dfs_loop nid nbrs lv visited s2") (simp_all add: mark_start_def)
next
  case (2 nid nbrs lv visited n leaving stack)
  show ?case
  proof (cases "leaving \<or> \<not> nid n < length visited \<or> visited ! nid n")
    case True
    then show ?thesis using 2(1,2) by (auto simp: obind_assoc)
  next
    case False
    define v1 where "v1 = visited[nid n := True]"
    define s where "s = (if lv then (n, True) # stack else stack)"
    have s2: "(if lv then (n, True) # stack @ s2 else stack @ s2) = s @ s2" by (simp add: s_def)
    have ih: "(\<forall>out \<in> set (nbrs n). nid out < length v1) \<Longrightarrow> dfs_loop nid nbrs lv v1 (add_work nid v1 (nbrs n) s @ s2) =
        obind (dfs_loop nid nbrs lv v1 (add_work nid v1 (nbrs n) s)) (\<lambda>l1. obind (dfs_loop nid nbrs lv (mark_start nid (enters l1) v1) s2) (\<lambda>l2. Done (l1 @ l2)))"
      using 2(3) [OF _ _ _ v1_def] False by (simp add: s_def)
    show ?thesis
    proof (cases "\<forall>out \<in> set (nbrs n). nid out < length v1")
      case True
      then show ?thesis using False ih [OF True] by (simp add: Let_def s2 s_def [symmetric] v1_def [symmetric] add_work_append obind_assoc mark_start_def)
    next
      case False2: False
      then show ?thesis using False by (simp add: Let_def v1_def [symmetric])
    qed
  qed
qed

text \<open>Without a callback \<^verbatim>\<open>leave\<close> the same nodes are entered, in the same order.\<close>

lemma loop_no_leave:
  "dfs_loop nid nbrs False visited (filter (\<lambda>w. \<not> snd w) stack) = obind (dfs_loop nid nbrs True visited stack) (\<lambda>l. Done (map Enter (enters l)))"
proof (induction nid nbrs True visited stack rule: dfs_loop.induct)
  case (2 nid nbrs visited n leaving stack)
  define v1 where "v1 = visited[nid n := True]"
  have aw: "filter (\<lambda>w. \<not> snd w) (add_work nid v1 (nbrs n) ((n, True) # stack)) = add_work nid v1 (nbrs n) (filter (\<lambda>w. \<not> snd w) stack)"
    by (simp add: add_work_def filter_map comp_def rev_filter [symmetric] del: rev_filter)
  show ?case
  proof (cases "leaving \<or> \<not> nid n < length visited \<or> visited ! nid n")
    case True
    then show ?thesis using 2(1,2) by (auto simp: obind_assoc)
  next
    case False
    show ?thesis
    proof (cases "\<forall>out \<in> set (nbrs n). nid out < length v1")
      case True
      then have "dfs_loop nid nbrs False v1 (add_work nid v1 (nbrs n) (filter (\<lambda>w. \<not> snd w) stack)) =
          obind (dfs_loop nid nbrs True v1 (add_work nid v1 (nbrs n) ((n, True) # stack))) (\<lambda>l. Done (map Enter (enters l)))"
        using 2(3) [OF _ _ _ v1_def] False by (simp add: aw)
      then show ?thesis using False True by (simp add: Let_def v1_def [symmetric] obind_assoc)
    next
      case False2: False
      then show ?thesis using False by (simp add: Let_def v1_def [symmetric])
    qed
  qed
qed simp

text \<open>Nodes \<open>A\<close> with distinct ids below \<open>N\<close>, closed under neighbours; the nodes that a vector marks.\<close>

definition search_space :: "nat set \<Rightarrow> (nat \<Rightarrow> nat) \<Rightarrow> nat \<Rightarrow> (nat \<Rightarrow> nat list) \<Rightarrow> bool" where
  "search_space A nid N nbrs \<longleftrightarrow> inj_on nid A \<and> (\<forall>n \<in> A. nid n < N \<and> set (nbrs n) \<subseteq> A)"

definition marked :: "nat set \<Rightarrow> (nat \<Rightarrow> nat) \<Rightarrow> bool list \<Rightarrow> nat set" where
  "marked A nid visited = {n \<in> A. visited ! nid n}"

lemma marked_update:
  assumes "search_space A nid (length visited) nbrs" "n \<in> A"
  shows "marked A nid (visited[nid n := True]) = insert n (marked A nid visited)"
proof -
  have "visited[nid n := True] ! nid m \<longleftrightarrow> m = n \<or> visited ! nid m" if "m \<in> A" for m
  proof (cases "m = n")
    case True
    then show ?thesis using assms by (simp add: search_space_def)
  next
    case False
    then have "nid n \<noteq> nid m" using assms that inj_onD [of nid A n m] by (auto simp: search_space_def)
    then show ?thesis using False by simp
  qed
  then show ?thesis using assms(2) by (auto simp: marked_def)
qed

lemma marked_start:
  "search_space A nid (length visited) nbrs \<Longrightarrow> set ns \<subseteq> A \<Longrightarrow>
   length (mark_start nid ns visited) = length visited \<and> marked A nid (mark_start nid ns visited) = marked A nid visited \<union> set ns"
proof (induction ns arbitrary: visited)
  case (Cons n ns)
  have "length (mark_start nid ns (visited[nid n := True])) = length (visited[nid n := True]) \<and>
      marked A nid (mark_start nid ns (visited[nid n := True])) = marked A nid (visited[nid n := True]) \<union> set ns"
    using Cons.prems by (intro Cons.IH) simp_all
  then show ?case using marked_update [OF Cons.prems(1), of n] Cons.prems(2) by (simp add: mark_start_def)
qed (simp add: mark_start_def)

lemma unvisited_mark: "length (filter Not (mark_start nid ns visited)) \<le> length (filter Not visited)"
proof (induction ns arbitrary: visited)
  case (Cons n ns)
  have "length (filter Not (visited[i := True])) \<le> length (filter Not visited)" for i
  proof (cases "i < length visited \<and> \<not> visited ! i")
    case True
    then show ?thesis using unvisited_less [of i visited] by simp
  next
    case False
    then have "visited[i := True] = visited" by (cases "i < length visited") (auto simp: list_update_beyond intro: list_update_same_conv [THEN iffD2])
    then show ?thesis by simp
  qed
  then show ?case using Cons.IH [of "visited[nid n := True]"] order_trans by (fastforce simp: mark_start_def)
qed (simp add: mark_start_def)

lemma loop_runs:
  "search_space A nid (length visited) nbrs \<Longrightarrow> set ns \<subseteq> A \<Longrightarrow>
   \<exists>l. dfs_loop nid nbrs True visited (map (\<lambda>n. (n, False)) ns) = Done l \<and> dfs_run nbrs (marked A nid visited) ns l \<and> set (enters l) \<subseteq> A"
proof (induction "length (filter Not visited)" arbitrary: visited ns rule: less_induct)
  case less
  note outer = less.hyps and sp = less.prems(1)
  show ?case using less.prems(2)
  proof (induction ns)
    case Nil
    then show ?case by (auto intro: dfs_run.intros)
  next
    case (Cons n ns)
    have n: "n \<in> A" "nid n < length visited" "\<forall>out \<in> set (nbrs n). nid out < length visited" "set (nbrs n) \<subseteq> A"
      using Cons.prems sp unfolding search_space_def by (simp_all, blast)
    show ?case
    proof (cases "visited ! nid n")
      case True
      then have "n \<in> marked A nid visited" using n(1) by (simp add: marked_def)
      then show ?thesis using Cons True n(2) by (auto intro: dfs_run.seen)
    next
      case False
      define v1 where "v1 = visited[nid n := True]"
      define ms where "ms = rev (filter (\<lambda>out. \<not> v1 ! nid out) (nbrs n))"
      have sp1: "search_space A nid (length v1) nbrs" using sp by (simp add: v1_def)
      have m1: "marked A nid v1 = insert n (marked A nid visited)" unfolding v1_def by (rule marked_update [OF sp n(1)])
      have ms: "set ms = set (nbrs n) - insert n (marked A nid visited)" using n(4) m1 by (auto simp: ms_def marked_def)
      have less1: "length (filter Not v1) < length (filter Not visited)" unfolding v1_def using unvisited_less n(2) False by blast
      obtain l1 where l1: "dfs_loop nid nbrs True v1 (map (\<lambda>n. (n, False)) ms) = Done l1" "dfs_run nbrs (marked A nid v1) ms l1" "set (enters l1) \<subseteq> A"
        using outer [OF less1 sp1, of ms] ms n(4) by auto
      define v2 where "v2 = mark_start nid (enters l1) v1"
      have m2: "length v2 = length v1" "marked A nid v2 = marked A nid v1 \<union> set (enters l1)" unfolding v2_def using marked_start [OF sp1 l1(3)] by simp_all
      have less2: "length (filter Not v2) < length (filter Not visited)" using unvisited_mark [of nid "enters l1" v1] less1 by (simp add: v2_def)
      obtain l2 where l2: "dfs_loop nid nbrs True v2 (map (\<lambda>n. (n, False)) ns) = Done l2" "dfs_run nbrs (marked A nid v2) ns l2" "set (enters l2) \<subseteq> A"
        using outer [OF less2, of ns] sp1 m2(1) Cons.prems by auto
      have work: "add_work nid v1 (nbrs n) ((n, True) # map (\<lambda>n. (n, False)) ns) = map (\<lambda>n. (n, False)) ms @ (n, True) # map (\<lambda>n. (n, False)) ns"
        by (simp add: add_work_def ms_def rev_map)
      have "dfs_loop nid nbrs True visited (map (\<lambda>n. (n, False)) (n # ns)) = Done (Enter n # l1 @ Leave n # l2)"
        using False n(2,3) l1(1) l2(1) by (simp add: Let_def v1_def [symmetric] work loop_append v2_def [symmetric])
          (simp add: v1_def)
      moreover have "dfs_run nbrs (marked A nid visited) (n # ns) (Enter n # l1 @ Leave n # l2)"
      proof (rule dfs_run.enter)
        show "set ms = set (nbrs n) - insert n (marked A nid visited)" by (rule ms)
        show "n \<notin> marked A nid visited" using False by (simp add: marked_def)
        show "dfs_run nbrs (insert n (marked A nid visited)) ms l1" using l1(2) m1 by simp
        show "dfs_run nbrs (insert n (marked A nid visited) \<union> set (enters l1)) ns l2" using l2(2) m1 m2(2) by simp
      qed
      ultimately show ?thesis using l1(3) l2(3) n(1) by (intro exI [of _ "Enter n # l1 @ Leave n # l2"]) simp
    qed
  qed
qed

end
