(* ===== verification/Graph_Search_Props.thy ===== *)
theory Graph_Search_Props
  imports Graph_Search_Correct
begin

text \<open>The results about \<open>Graph_Search\<close> on graphs: what searches visit, in which order, what is pruned and what is repaired.\<close>

subsection \<open>Edges as a relation\<close>

definition edge_rel :: "graph \<Rightarrow> (edge \<Rightarrow> bool) \<Rightarrow> nat \<Rightarrow> nat \<Rightarrow> bool" where
  "edge_rel g edge_filter a b \<longleftrightarrow> (\<exists>e. Some e \<in> set (g_edges g) \<and> edge_src (edge_at g e) = a \<and> edge_dst (edge_at g e) = b \<and> edge_filter (edge_at g e))"

definition permutes :: "(nat list \<Rightarrow> nat list) option \<Rightarrow> bool" where
  "permutes sorter \<longleftrightarrow> (\<forall>f l. sorter = Some f \<longrightarrow> mset (f l) = mset l)"

lemma set_sort_nodes: "permutes sorter \<Longrightarrow> set (sort_nodes sorter ns) = set ns"
  by (auto simp: permutes_def sort_nodes_def split: option.splits dest: mset_eq_setD)

lemma out_nodes_set:
  assumes "good g" "visits_all trav" "permutes sorter" "a \<in> live_nodes g"
  shows "set (out_nodes trav sorter edge_filter g a) = {b. edge_rel g edge_filter a b}"
proof -
  have sok: "sets_ok {} {} g" using assms(1) by (simp add: good_def graph_ok_def)
  have "set (es_list trav (out_edges (node_at g a))) = {e \<in> live_edges g. edge_src (edge_at g e) = a}"
    using es.elements_ok [OF sets_okD(2) [OF sok assms(4)] assms(2)] sets_okD(4) [OF sok assms(4)] by simp
  then show ?thesis by (auto simp: out_nodes_def set_sort_nodes [OF assms(3)] edge_rel_def live_edges_def)
qed

lemma in_nodes_set:
  assumes "good g" "visits_all trav" "permutes sorter" "a \<in> live_nodes g"
  shows "set (in_nodes trav sorter g a) = {b. edge_rel g (\<lambda>_. True) b a}"
proof -
  have sok: "sets_ok {} {} g" using assms(1) by (simp add: good_def graph_ok_def)
  have "set (es_list trav (in_edges (node_at g a))) = {e \<in> live_edges g. edge_dst (edge_at g e) = a}"
    using es.elements_ok [OF sets_okD(1) [OF sok assms(4)] assms(2)] sets_okD(3) [OF sok assms(4)] by simp
  then show ?thesis by (auto simp: in_nodes_def set_sort_nodes [OF assms(3)] edge_rel_def live_edges_def)
qed

lemma edge_rel_live: "good g \<Longrightarrow> edge_rel g edge_filter a b \<Longrightarrow> a \<in> live_nodes g \<and> b \<in> live_nodes g"
  using live_edge_at(5,6) by (fastforce simp: good_def graph_ok_def edge_rel_def live_edges_def)

lemma node_ids_ok:
  assumes "good g"
  shows "inj_on (node_id g) (live_nodes g)" "n \<in> live_nodes g \<Longrightarrow> node_id g n < length (g_nodes g) \<and> g_nodes g ! node_id g n = Some n"
proof -
  have nok: "nodes_ok g" using assms by (simp add: good_def graph_ok_def)
  show "n \<in> live_nodes g \<Longrightarrow> node_id g n < length (g_nodes g) \<and> g_nodes g ! node_id g n = Some n" for n
    using live_node_at(2,3) [OF nok] by (simp add: node_id_def)
  then show "inj_on (node_id g) (live_nodes g)" by (metis inj_onI option.inject)
qed

lemma node_id_int: "good g \<Longrightarrow> n \<in> live_nodes g \<Longrightarrow> n_id (node_at g n) = int (node_id g n)"
  using live_node_at(1) [of g n] by (simp add: good_def graph_ok_def node_id_def)

lemma graph_spaces:
  assumes "good g" "visits_all trav" "permutes sorter"
  shows "search_space (live_nodes g) (node_id g) (length (g_nodes g)) (out_nodes trav sorter edge_filter g)"
    "search_space (live_nodes g) (node_id g) (length (g_nodes g)) (in_nodes trav sorter g)"
  using node_ids_ok [OF assms(1)] out_nodes_set [OF assms] in_nodes_set [OF assms] edge_rel_live [OF assms(1)]
  by (auto simp: search_space_def)

text \<open>Paths over lists of neighbours are paths over a relation on a closed set.\<close>

lemma path_rel:
  assumes "\<And>a. a \<in> A \<Longrightarrow> set (nbrs a) = {b. R a b}" "\<And>a b. R a b \<Longrightarrow> b \<in> A" "a \<in> A"
  shows "path nbrs a b \<longleftrightarrow> R\<^sup>*\<^sup>* a b"
proof
  assume "path nbrs a b"
  then have "R\<^sup>*\<^sup>* a b \<and> b \<in> A" by (induction rule: rtranclp_induct) (use assms in \<open>auto intro: rtranclp.rtrancl_into_rtrancl\<close>)
  then show "R\<^sup>*\<^sup>* a b" ..
next
  assume "R\<^sup>*\<^sup>* a b"
  then have "path nbrs a b \<and> b \<in> A"
    by (induction rule: rtranclp_induct) (use assms in \<open>auto intro: rtranclp.rtrancl_into_rtrancl [of "\<lambda>a b. b \<in> set (nbrs a)"]\<close>)
  then show "path nbrs a b" ..
qed

lemmas out_path = path_rel [of "live_nodes g" "out_nodes trav sorter edge_filter g" "edge_rel g edge_filter" for g trav sorter edge_filter]
lemmas in_path = path_rel [of "live_nodes g" "in_nodes trav sorter g" "\<lambda>a b. edge_rel g (\<lambda>_. True) b a" for g trav sorter]

subsection \<open>Searches\<close>

lemma marked_none: "search_space A nid N nbrs \<Longrightarrow> marked A nid (replicate N False) = {}"
  by (auto simp: marked_def search_space_def)

text \<open>The loop from the initial state.\<close>

lemma search_runs:
  assumes "search_space A nid N nbrs" "set start \<subseteq> A"
  shows "\<exists>l. dfs_loop nid nbrs True (replicate N False) (start_stack start) = Done l \<and> dfs_run nbrs {} (rev start) l \<and>
    dfs_loop nid nbrs False (replicate N False) (start_stack start) = Done (map Enter (enters l))"
proof -
  have s: "start_stack start = map (\<lambda>n. (n, False)) (rev start)" by (simp add: start_stack_def rev_map)
  obtain l where l: "dfs_loop nid nbrs True (replicate N False) (start_stack start) = Done l" "dfs_run nbrs {} (rev start) l"
    using loop_runs [of A nid "replicate N False" nbrs "rev start"] assms marked_none [OF assms(1)] by (auto simp: s)
  have "filter (\<lambda>w. \<not> snd w) (start_stack start) = start_stack start" by (simp add: start_stack_def)
  then show ?thesis using l loop_no_leave [of nid nbrs "replicate N False" "start_stack start"] by simp
qed

lemma enters_map [simp]: "enters (map Enter ns) = ns" "leaves (map Enter ns) = []"
  by (induction ns) simp_all

lemma search_visits:
  assumes "search_space A nid N nbrs" "set start \<subseteq> A"
  shows "\<exists>l. dfs_loop nid nbrs lv (replicate N False) (start_stack start) = Done l \<and> distinct (enters l) \<and>
    set (enters l) = {b. \<exists>a \<in> set start. path nbrs a b} \<and> mset (leaves l) = (if lv then mset (enters l) else {#})"
proof -
  obtain l where l: "dfs_loop nid nbrs True (replicate N False) (start_stack start) = Done l" "dfs_run nbrs {} (rev start) l"
      "dfs_loop nid nbrs False (replicate N False) (start_stack start) = Done (map Enter (enters l))"
    using search_runs [OF assms] by blast
  then show ?thesis using run_enters [OF l(2)] run_leaves [OF l(2)] run_reaches [OF l(2)] by (cases lv) auto
qed

text \<open>
  C16: The searches visit what is reachable. In any graph that operations can build, from any nodes of it, with any filter of edges and any sorting of neighbours, a
  depth-first search ends without reading behind the vector of marks; it enters exactly the nodes that the start nodes lead to over edges that pass the filter, each
  once, and leaves each that it entered once, if there is a callback for it. The reverse search does the same against the edges.
\<close>

theorem search_correct:
  assumes "graph_reachable ops trav g" "visits_all trav" "permutes sorter" "\<forall>n \<in> set start. Some n \<in> set (g_nodes g)"
  shows "(\<exists>l. DFSFrom trav g start lv sorter edge_filter = Done l \<and> distinct (enters l) \<and>
      set (enters l) = {b. \<exists>a \<in> set start. (edge_rel g edge_filter)\<^sup>*\<^sup>* a b} \<and> mset (leaves l) = (if lv then mset (enters l) else {#})) \<and>
    (\<exists>l. ReverseDFSFrom trav g start lv sorter = Done l \<and> distinct (enters l) \<and>
      set (enters l) = {b. \<exists>a \<in> set start. (edge_rel g (\<lambda>_. True))\<^sup>*\<^sup>* b a} \<and> mset (leaves l) = (if lv then mset (enters l) else {#}))"
proof -
  have good: "good g" by (rule reachable_good [OF assms(1,2)])
  have live: "set start \<subseteq> live_nodes g" using assms(4) by (auto simp: live_nodes_def)
  have out: "path (out_nodes trav sorter edge_filter g) a b \<longleftrightarrow> (edge_rel g edge_filter)\<^sup>*\<^sup>* a b" if "a \<in> set start" for a b
    using out_path [OF out_nodes_set [OF good assms(2,3)]] edge_rel_live [OF good] live that by blast
  have "path (in_nodes trav sorter g) a b \<longleftrightarrow> (\<lambda>a b. edge_rel g (\<lambda>_. True) b a)\<^sup>*\<^sup>* a b" if "a \<in> set start" for a b
    using in_path [OF in_nodes_set [OF good assms(2,3)]] edge_rel_live [OF good] live that by blast
  then have inn: "path (in_nodes trav sorter g) a b \<longleftrightarrow> (edge_rel g (\<lambda>_. True))\<^sup>*\<^sup>* b a" if "a \<in> set start" for a b
    using that rtranclp_conversep [of "edge_rel g (\<lambda>_. True)"] by (simp add: conversep_iff [abs_def])
  show ?thesis
    using search_visits [OF graph_spaces(1) [OF good assms(2,3), where edge_filter = edge_filter] live, of lv]
      search_visits [OF graph_spaces(2) [OF good assms(2,3)] live, of lv] out inn
    unfolding DFSFrom_def ReverseDFSFrom_def by (simp cong: bex_cong)
qed

theorem search_correct_witness:
  "\<exists>g l. graph_reachable demo_registry (\<lambda>l. l) g \<and> DFSFrom (\<lambda>l. l) g [0] True None (\<lambda>_. True) = Done l \<and> distinct (enters l) \<and> 0 \<in> set (enters l)"
proof -
  obtain g where g: "Graph demo_registry (\<lambda>l. l) = Done g" "g_nodes g = [Some 0, Some 1]" using demo_graph by blast
  have r: "graph_reachable demo_registry (\<lambda>l. l) g" by (rule graph_reachable.start [OF g(1)])
  have "visits_all (\<lambda>l. l)" "permutes None" "\<forall>n \<in> set [0]. Some n \<in> set (g_nodes g)" using g(2) by (simp_all add: visits_all_def permutes_def)
  from search_correct [OF r this, of True "\<lambda>_. True"] r show ?thesis by auto
qed

text \<open>
  C15: The reverse post order is topological. It lists exactly the nodes that the source leads to, once each, and for every edge from \<open>a\<close> to \<open>b\<close> among them that passes
  the filter, \<open>a\<close> comes before \<open>b\<close> unless \<open>b\<close> leads back to \<open>a\<close>: without cycles it is a topological order of the whole graph.
\<close>

theorem reverse_post_order_topological:
  assumes "graph_reachable ops trav g" "visits_all trav" "permutes sorter"
  shows "\<exists>order. GetReversePostOrder trav g sorter edge_filter = Done order \<and> distinct order \<and>
    set order = {b. (edge_rel g edge_filter)\<^sup>*\<^sup>* (the (g_nodes g ! 0)) b} \<and>
    (\<forall>a b. a \<in> set order \<and> edge_rel g edge_filter a b \<and> \<not> (edge_rel g edge_filter)\<^sup>*\<^sup>* b a \<longrightarrow> before a b order)"
proof -
  have good: "good g" by (rule reachable_good [OF assms(1,2)])
  define s where "s = the (g_nodes g ! 0)"
  define nbrs where "nbrs = out_nodes trav sorter edge_filter g"
  have "g_nodes g ! 0 = Some s" "0 < length (g_nodes g)" using good by (auto simp: good_def rooted_def s_def)
  then have "Some s \<in> set (g_nodes g)" by (metis nth_mem)
  then have s: "set [s] \<subseteq> live_nodes g" by (simp add: live_nodes_def)
  obtain l where l: "dfs_loop (node_id g) nbrs True (replicate (length (g_nodes g)) False) (start_stack [s]) = Done l" "dfs_run nbrs {} (rev [s]) l"
    using search_runs [OF graph_spaces(1) [OF good assms(2,3), where edge_filter = edge_filter, folded nbrs_def] s] by blast
  have nb: "set (nbrs a) = {b. edge_rel g edge_filter a b}" if "a \<in> live_nodes g" for a unfolding nbrs_def by (rule out_nodes_set [OF good assms(2,3) that])
  have path: "path nbrs a b \<longleftrightarrow> (edge_rel g edge_filter)\<^sup>*\<^sup>* a b" if "a \<in> live_nodes g" for a b
    using path_rel [of "live_nodes g" nbrs "edge_rel g edge_filter" a b] nb edge_rel_live [OF good] that by blast
  have set: "set (leaves l) = {b. (edge_rel g edge_filter)\<^sup>*\<^sup>* s b}" using run_leaves_set [OF l(2)] run_reaches [OF l(2)] path s by simp
  have "before b a (leaves l)" if ab: "a \<in> set (leaves l)" "edge_rel g edge_filter a b" "\<not> (edge_rel g edge_filter)\<^sup>*\<^sup>* b a" for a b
    using run_order [OF l(2), of "{}" a b] run_leaves_set [OF l(2)] ab nb path edge_rel_live [OF good ab(2)] by simp
  then have "before a b (rev (leaves l))" if "a \<in> set (leaves l)" "edge_rel g edge_filter a b" "\<not> (edge_rel g edge_filter)\<^sup>*\<^sup>* b a" for a b
    using before_rev that by blast
  moreover have "distinct (leaves l)" using run_leaves [OF l(2)] run_enters [OF l(2)] mset_eq_imp_distinct_iff by blast
  moreover have "GetReversePostOrder trav g sorter edge_filter = Done (rev (leaves l))"
    using l(1) by (simp add: GetReversePostOrder_def GetPostOrder_def DFS_def DFSFrom_def FindNodeId_def s_def nbrs_def)
  ultimately show ?thesis using set by (intro exI [of _ "rev (leaves l)"]) (simp add: s_def)
qed

theorem reverse_post_order_topological_witness:
  "\<exists>g order. graph_reachable demo_registry (\<lambda>l. l) g \<and> GetReversePostOrder (\<lambda>l. l) g None (\<lambda>_. True) = Done order \<and> distinct order \<and> 0 \<in> set order"
proof -
  obtain g where g: "Graph demo_registry (\<lambda>l. l) = Done g" "g_nodes g = [Some 0, Some 1]" using demo_graph by blast
  have r: "graph_reachable demo_registry (\<lambda>l. l) g" by (rule graph_reachable.start [OF g(1)])
  have "visits_all (\<lambda>l. l)" "permutes None" by (simp_all add: visits_all_def permutes_def)
  from reverse_post_order_topological [OF r this, of "\<lambda>_. True"] r g(2) show ?thesis by auto
qed

end
