(* ===== verification/Graph_Prune.thy ===== *)
theory Graph_Prune
  imports Graph_Search_Props
begin

text \<open>What \<^verbatim>\<open>PruneForReverseReachability\<close> removes and what \<^verbatim>\<open>FixupSourceAndSinkEdges\<close> adds.\<close>

subsection \<open>Breadth-first search\<close>

lemma fold_reach_in_ok:
  "search_space A nid (length visited) nbrs \<Longrightarrow> set ns \<subseteq> A \<Longrightarrow> fold (reach_in nid) ns (visited, queue) = (v, q) \<Longrightarrow>
   length v = length visited \<and> marked A nid v = marked A nid visited \<union> set ns \<and> set q = set queue \<union> (set ns - marked A nid visited)"
proof (induction ns arbitrary: visited queue)
  case (Cons i ns)
  have i: "i \<in> A" using Cons.prems(2) by simp
  show ?case
  proof (cases "visited ! nid i")
    case True
    then have "i \<in> marked A nid visited" using i by (simp add: marked_def)
    then show ?thesis using Cons True by (simp add: reach_in_def insert_absorb insert_Diff_if)
  next
    case False
    then have "i \<notin> marked A nid visited" by (simp add: marked_def)
    moreover have "length v = length (visited[nid i := True]) \<and> marked A nid v = marked A nid (visited[nid i := True]) \<union> set ns \<and>
        set q = set (queue @ [i]) \<union> (set ns - marked A nid (visited[nid i := True]))"
      using Cons.prems False by (intro Cons.IH) (simp_all add: reach_in_def)
    ultimately show ?thesis unfolding marked_update [OF Cons.prems(1) i] by auto
  qed
qed simp

lemma bfs_ok:
  "search_space A nid (length visited) nbrs \<Longrightarrow> set queue \<subseteq> A \<Longrightarrow>
   \<exists>v. bfs_loop nid nbrs visited queue = Done v \<and> length v = length visited \<and> marked A nid visited \<subseteq> marked A nid v \<and>
     (\<forall>x \<in> marked A nid v - marked A nid visited. \<exists>m \<in> set queue. path nbrs m x) \<and>
     (\<forall>n \<in> set queue \<union> (marked A nid v - marked A nid visited). set (nbrs n) \<subseteq> marked A nid v)"
proof (induction nid nbrs visited queue rule: bfs_loop.induct)
  case (2 nid nbrs visited n queue)
  have n: "set (nbrs n) \<subseteq> A" "\<forall>i \<in> set (nbrs n). nid i < length visited" using "2.prems" unfolding search_space_def by (simp, simp, blast)
  obtain v1 q1 where f: "fold (reach_in nid) (nbrs n) (visited, queue) = (v1, q1)" by (cases "fold (reach_in nid) (nbrs n) (visited, queue)")
  note s = fold_reach_in_ok [OF "2.prems"(1) n(1) f]
  have "search_space A nid (length v1) nbrs" "set q1 \<subseteq> A" using "2.prems" s n(1) by auto
  then obtain v where v: "bfs_loop nid nbrs v1 q1 = Done v" "length v = length v1" "marked A nid v1 \<subseteq> marked A nid v"
      "\<forall>x \<in> marked A nid v - marked A nid v1. \<exists>m \<in> set q1. path nbrs m x"
      "\<forall>n \<in> set q1 \<union> (marked A nid v - marked A nid v1). set (nbrs n) \<subseteq> marked A nid v"
    using "2.IH" [OF _ f [symmetric] refl] n(2) by auto
  have "\<exists>m \<in> set (n # queue). path nbrs m x" if x: "x \<in> marked A nid v - marked A nid visited" for x
  proof (cases "x \<in> marked A nid v1")
    case True
    then have "x \<in> set (nbrs n)" using x s by blast
    then show ?thesis by auto
  next
    case False
    then obtain m where m: "m \<in> set q1" "path nbrs m x" using v(4) x by blast
    then consider "m \<in> set queue" | "m \<in> set (nbrs n)" using s by blast
    then show ?thesis
    proof cases
      case 2
      then have "path nbrs n x" using m(2) by (rule converse_rtranclp_into_rtranclp [of "\<lambda>a b. b \<in> set (nbrs a)"])
      then show ?thesis by auto
    qed (use m(2) in auto)
  qed
  moreover have "set (nbrs m) \<subseteq> marked A nid v" if "m \<in> set (n # queue) \<union> (marked A nid v - marked A nid visited)" for m
  proof (cases "m = n")
    case True
    then show ?thesis using s v(3) by blast
  next
    case False
    then have "m \<in> set q1 \<union> (marked A nid v - marked A nid v1)" using that s by auto
    then show ?thesis using v(5) by blast
  qed
  moreover have "bfs_loop nid nbrs visited (n # queue) = Done v" using n(2) f v(1) by simp
  ultimately show ?case using v(2,3) s by (intro exI [of _ v]) auto
qed auto

lemma bfs_reaches:
  assumes "search_space A nid N nbrs" "set start \<subseteq> A"
  shows "\<exists>v. bfs_loop nid nbrs (mark_start nid start (replicate N False)) start = Done v \<and> length v = N \<and>
    marked A nid v = {x. \<exists>m \<in> set start. path nbrs m x}"
proof -
  let ?v0 = "mark_start nid start (replicate N False)"
  have m0: "length ?v0 = N" "marked A nid ?v0 = set start" using marked_start [of A nid "replicate N False" nbrs start] assms marked_none [OF assms(1)] by simp_all
  obtain v where v: "bfs_loop nid nbrs ?v0 start = Done v" "length v = N" "set start \<subseteq> marked A nid v"
      "\<forall>x \<in> marked A nid v - set start. \<exists>m \<in> set start. path nbrs m x" "\<forall>n \<in> set start \<union> (marked A nid v - set start). set (nbrs n) \<subseteq> marked A nid v"
    using bfs_ok [of A nid ?v0 nbrs start] assms m0 by auto
  have "x \<in> marked A nid v" if "path nbrs m x" "m \<in> set start" for m x using that by (induction rule: rtranclp_induct) (use v(3,5) in blast)+
  moreover have "\<exists>m \<in> set start. path nbrs m x" if "x \<in> marked A nid v" for x using that v(4) by (cases "x \<in> set start") blast+
  ultimately have "marked A nid v = {x. \<exists>m \<in> set start. path nbrs m x}" by blast
  then show ?thesis using v(1,2) by blast
qed

subsection \<open>Pruning\<close>

lemma RemoveNode_prunes:
  assumes "graph_reachable ops trav g" "visits_all trav" "a \<in> live_nodes g" "\<not> IsSource a g" "\<not> IsSink a g"
  shows "\<exists>g'. RemoveNode trav a g = Done g' \<and> graph_reachable ops trav g' \<and> live_nodes g' = live_nodes g - {a} \<and> length (g_nodes g') = length (g_nodes g) \<and>
    live_edges g' = {e \<in> live_edges g. edge_src (edge_at g e) \<noteq> a \<and> edge_dst (edge_at g e) \<noteq> a} \<and> edge_at g' = edge_at g \<and>
    (\<forall>b. b \<noteq> a \<longrightarrow> n_id (node_at g' b) = n_id (node_at g b))"
proof -
  have ok: "graph_ok g" using reachable_good [OF assms(1,2)] by (simp add: good_def)
  obtain g' where g': "RemoveNode trav a g = Done g'" "live_nodes g' = live_nodes g - {a}" "g_nodes g' = (g_nodes g)[nat (n_id (node_at g a)) := None]"
      "live_edges g' = {e \<in> live_edges g. edge_src (edge_at g e) \<noteq> a \<and> edge_dst (edge_at g e) \<noteq> a}" "edge_at g' = edge_at g" "same_props (- {a}) g g'"
    using RemoveNode_ok [OF ok assms(2,3)] by blast
  have "graph_step ops trav g (Done g')" using graph_step.remove_node [OF assms(3-5), of ops trav] g'(1) by simp
  then show ?thesis using graph_reachable.step [OF assms(1)] g' by (simp add: same_props_def)
qed

definition pruned :: "nat \<Rightarrow> bool list \<Rightarrow> graph \<Rightarrow> nat set" where
  "pruned i vs g = {a \<in> live_nodes g. 2 \<le> node_id g a \<and> i \<le> node_id g a \<and> \<not> vs ! (node_id g a - i)}"

lemma remove_unvisited_ok:
  "graph_reachable ops trav g \<Longrightarrow> visits_all trav \<Longrightarrow> length (g_nodes g) = i + length vs \<Longrightarrow>
   \<exists>g'. remove_unvisited trav vs i any g = Done (any \<or> pruned i vs g \<noteq> {}, g') \<and> graph_reachable ops trav g' \<and>
     live_nodes g' = live_nodes g - pruned i vs g \<and> edge_at g' = edge_at g \<and>
     live_edges g' = {e \<in> live_edges g. edge_src (edge_at g e) \<notin> pruned i vs g \<and> edge_dst (edge_at g e) \<notin> pruned i vs g}"
proof (induction vs arbitrary: i any g)
  case Nil
  have "pruned i [] g = {}" using node_ids_ok(2) [OF reachable_good [OF Nil(1,2)]] Nil(3) by (fastforce simp: pruned_def)
  then show ?case using Nil by simp
next
  case (Cons v vs)
  have good: "good g" by (rule reachable_good [OF Cons.prems(1,2)])
  have at: "g_nodes g ! i = Some a \<longleftrightarrow> a \<in> live_nodes g \<and> node_id g a = i" for a
  proof
    assume "g_nodes g ! i = Some a"
    moreover have "i < length (g_nodes g)" using Cons.prems(3) by simp
    ultimately show "a \<in> live_nodes g \<and> node_id g a = i" using nodes_okD(1) [of g i a] good
      by (auto simp: good_def graph_ok_def live_nodes_def node_id_def) (metis nth_mem)
  qed (use node_ids_ok(2) [OF good, of a] in simp)
  note ids = node_id_int [OF good]
  have split: "pruned i (v # vs) g = pruned (i + 1) vs g \<union> {a \<in> live_nodes g. 2 \<le> node_id g a \<and> node_id g a = i \<and> \<not> v}"
  proof -
    have "i \<le> k \<and> \<not> (v # vs) ! (k - i) \<longleftrightarrow> i + 1 \<le> k \<and> \<not> vs ! (k - (i + 1)) \<or> k = i \<and> \<not> v" for k
      by (cases "i < k") (auto simp: nth_Cons' Suc_diff_Suc [symmetric])
    then show ?thesis unfolding pruned_def by blast
  qed
  show ?case
  proof (cases "\<exists>a \<in> live_nodes g. 2 \<le> node_id g a \<and> node_id g a = i \<and> \<not> v")
    case False
    have "remove_unvisited trav (v # vs) i any g = remove_unvisited trav vs (i + 1) any g"
    proof (cases "if v then None else FindNodeId i g")
      case (Some n)
      then have n: "n \<in> live_nodes g" "node_id g n = i" "\<not> v" using at [of n] by (auto simp: FindNodeId_def split: if_splits)
      then have "node_id g n < 2" using False by force
      then have "IsSource n g \<or> IsSink n g" using ids [OF n(1)] by (auto simp: IsSource_def IsSink_def)
      then show ?thesis using Some by auto
    qed simp
    moreover have "pruned i (v # vs) g = pruned (i + 1) vs g" using False split by blast
    ultimately show ?thesis using Cons.IH [of g "i + 1" any] Cons.prems by simp
  next
    case True
    then obtain a where a: "a \<in> live_nodes g" "2 \<le> node_id g a" "node_id g a = i" "\<not> v" by blast
    have ns: "\<not> IsSource a g" "\<not> IsSink a g" using a(2) by (auto simp: IsSource_def IsSink_def node_id_def)
    obtain g1 where g1: "RemoveNode trav a g = Done g1" "graph_reachable ops trav g1" "live_nodes g1 = live_nodes g - {a}" "length (g_nodes g1) = length (g_nodes g)"
        "live_edges g1 = {e \<in> live_edges g. edge_src (edge_at g e) \<noteq> a \<and> edge_dst (edge_at g e) \<noteq> a}" "edge_at g1 = edge_at g"
        "\<And>b. b \<noteq> a \<Longrightarrow> n_id (node_at g1 b) = n_id (node_at g b)"
      using RemoveNode_prunes [OF Cons.prems(1,2) a(1) ns] by blast
    have only: "{b \<in> live_nodes g. 2 \<le> node_id g b \<and> node_id g b = i \<and> \<not> v} = {a}" using a inj_onD [OF node_ids_ok(1) [OF good]] by auto
    have "b \<in> pruned (i + 1) vs g1 \<longleftrightarrow> b \<in> pruned (i + 1) vs g" for b
      using g1(3) g1(7) [of b] a(3) by (cases "b = a") (simp_all add: pruned_def node_id_def)
    then have "pruned (i + 1) vs g1 = pruned (i + 1) vs g" by blast
    then have p: "pruned i (v # vs) g = insert a (pruned (i + 1) vs g1)" using split only by simp
    obtain g' where g': "remove_unvisited trav vs (i + 1) True g1 = Done (True, g')" "graph_reachable ops trav g'"
        "live_nodes g' = live_nodes g1 - pruned (i + 1) vs g1" "edge_at g' = edge_at g1"
        "live_edges g' = {e \<in> live_edges g1. edge_src (edge_at g1 e) \<notin> pruned (i + 1) vs g1 \<and> edge_dst (edge_at g1 e) \<notin> pruned (i + 1) vs g1}"
      using Cons.IH [OF g1(2) Cons.prems(2), of "i + 1" True] g1(4) Cons.prems(3) by auto
    have "remove_unvisited trav (v # vs) i any g = Done (True, g')" using a at [of a] ns g1(1) g'(1) by (simp add: FindNodeId_def)
    moreover have "live_edges g' = {e \<in> live_edges g. edge_src (edge_at g e) \<notin> pruned i (v # vs) g \<and> edge_dst (edge_at g e) \<notin> pruned i (v # vs) g}"
      unfolding p g'(5) g1(5,6) by auto
    moreover have "live_nodes g' = live_nodes g - pruned i (v # vs) g" unfolding p g'(3) g1(3) by auto
    ultimately show ?thesis using g'(2,4) g1(6) p by (intro exI [of _ g']) auto
  qed
qed



subsection \<open>Edges from the source and to the sink\<close>

definition has_in :: "graph \<Rightarrow> nat \<Rightarrow> bool" where
  "has_in g n \<longleftrightarrow> (\<exists>e. Some e \<in> set (g_edges g) \<and> edge_dst (edge_at g e) = n)"

definition has_out :: "graph \<Rightarrow> nat \<Rightarrow> bool" where
  "has_out g n \<longleftrightarrow> (\<exists>e. Some e \<in> set (g_edges g) \<and> edge_src (edge_at g e) = n)"

text \<open>\<open>g'\<close> is \<open>g\<close> with control edges from the source or to the sink added.\<close>

definition repaired :: "graph \<Rightarrow> graph \<Rightarrow> bool" where
  "repaired g g' \<longleftrightarrow> g_nodes g' = g_nodes g \<and> (\<forall>a. Some a \<in> set (g_nodes g) \<longrightarrow> n_id (node_at g' a) = n_id (node_at g a)) \<and>
     (\<forall>e. Some e \<in> set (g_edges g) \<longrightarrow> Some e \<in> set (g_edges g') \<and> edge_at g' e = edge_at g e) \<and>
     (\<forall>e. Some e \<in> set (g_edges g') \<and> Some e \<notin> set (g_edges g) \<longrightarrow> IsControlEdge (edge_at g' e) \<and>
        (Some (edge_src (edge_at g' e)) = g_nodes g ! 0 \<or> Some (edge_dst (edge_at g' e)) = g_nodes g ! 1))"

lemma repaired_refl: "repaired g g"
  by (simp add: repaired_def)

lemma repaired_trans: "repaired g g' \<Longrightarrow> repaired g' g'' \<Longrightarrow> repaired g g''"
  unfolding repaired_def by metis

lemma repaired_keeps_edges: "repaired g g' \<Longrightarrow> has_in g n \<Longrightarrow> has_in g' n" "repaired g g' \<Longrightarrow> has_out g n \<Longrightarrow> has_out g' n"
  unfolding repaired_def has_in_def has_out_def by metis+

definition grew :: "graph \<Rightarrow> graph \<Rightarrow> bool" where
  "grew g g' \<longleftrightarrow> (\<exists>e. Some e \<in> set (g_edges g') \<and> Some e \<notin> set (g_edges g))"

lemma grew_trans: "repaired g g' \<Longrightarrow> repaired g' g'' \<Longrightarrow> grew g g'' \<longleftrightarrow> grew g g' \<or> grew g' g''"
  unfolding repaired_def grew_def by metis

lemma grew_refl [simp]: "\<not> grew g g"
  by (simp add: grew_def)

lemma repaired_ends: "repaired g g' \<Longrightarrow> n \<in> live_nodes g \<Longrightarrow> n \<in> live_nodes g' \<and> IsSource n g' = IsSource n g \<and> IsSink n g' = IsSink n g"
  by (simp add: repaired_def live_nodes_def IsSource_def IsSink_def)

lemma empty_edges:
  assumes "good g" "n \<in> live_nodes g"
  shows "es_empty (in_edges (node_at g n)) \<longleftrightarrow> \<not> has_in g n" "es_empty (out_edges (node_at g n)) \<longleftrightarrow> \<not> has_out g n"
proof -
  have sok: "sets_ok {} {} g" using assms(1) by (simp add: good_def graph_ok_def)
  note s = sets_okD [OF sok assms(2)]
  show "es_empty (in_edges (node_at g n)) \<longleftrightarrow> \<not> has_in g n" "es_empty (out_edges (node_at g n)) \<longleftrightarrow> \<not> has_out g n"
    using es.number_0 [OF s(1)] es.number_0 [OF s(2)] s(3,4) by (auto simp: es_empty_def has_in_def has_out_def live_edges_def)
qed

text \<open>A new control edge to or from an end of the graph.\<close>

lemma add_end_edge:
  assumes "graph_reachable ops trav g" "visits_all trav" "a \<in> live_nodes g" "b \<in> live_nodes g" "Some a = g_nodes g ! 0 \<or> Some b = g_nodes g ! 1"
  shows "\<exists>e g'. AddControlEdge trav a b True g = Done (Some e, g') \<and> graph_reachable ops trav g' \<and> repaired g g' \<and> has_out g' a \<and> has_in g' b \<and> grew g g'"
proof -
  have ok: "graph_ok g" using reachable_good [OF assms(1,2)] by (simp add: good_def)
  obtain r g' where g': "AddControlEdge trav a b True g = Done (r, g')" "keeps g g'"
      "case r of None \<Rightarrow> g' = g \<and> \<not> True | Some e \<Rightarrow> e \<notin> live_edges g \<and> live_edges g' = insert e (live_edges g) \<and>
         edge_at g' = (edge_at g)(e := \<lparr>edge_id = length (g_edges g), edge_src = a, edge_dst = b, src_output = kControlSlot, dst_input = kControlSlot\<rparr>)"
    using AddControlEdge_ok [OF ok assms(3,4), of trav True] by blast
  obtain e where e: "r = Some e" "e \<notin> live_edges g" "live_edges g' = insert e (live_edges g)"
      "edge_at g' = (edge_at g)(e := \<lparr>edge_id = length (g_edges g), edge_src = a, edge_dst = b, src_output = kControlSlot, dst_input = kControlSlot\<rparr>)"
    using g'(3) by (cases r) auto
  have live: "Some d \<in> set (g_edges g') \<longleftrightarrow> d = e \<or> Some d \<in> set (g_edges g)" for d using e(3) by (auto simp: live_edges_def set_eq_iff)
  have new: "Some e \<notin> set (g_edges g)" using e(2) by (simp add: live_edges_def)
  have "graph_step ops trav g (Done g')" using graph_step.add_control_edge [OF assms(3,4), of ops trav True] g'(1) by simp
  then have "graph_reachable ops trav g'" by (rule graph_reachable.step [OF assms(1)])
  moreover have "repaired g g'" unfolding repaired_def using g'(2) live new assms(5) by (auto simp: e(4) keeps_def live_nodes_def IsControlEdge_def)
  moreover have "has_out g' a" "has_in g' b" unfolding has_out_def has_in_def by (rule exI [of _ e], simp add: live e(4))+
  moreover have "grew g g'" unfolding grew_def using live [of e] new by blast
  ultimately show ?thesis using g'(1) e(1) by blast
qed

lemma fixup_node_ok:
  assumes "graph_reachable ops trav g" "visits_all trav" "n \<in> live_nodes g"
  shows "\<exists>c g'. fixup_node trav n (changed, g) = Done (c, g') \<and> graph_reachable ops trav g' \<and> repaired g g' \<and>
    (IsSource n g \<or> has_in g' n) \<and> (IsSink n g \<or> has_out g' n) \<and> (c \<longleftrightarrow> changed \<or> grew g g')"
proof -
  have good: "good g" by (rule reachable_good [OF assms(1,2)])
  have ends: "FindNodeId 0 h = Some (the (g_nodes h ! 0)) \<and> the (g_nodes h ! 0) \<in> live_nodes h \<and> FindNodeId 1 h = Some (the (g_nodes h ! 1)) \<and>
      the (g_nodes h ! 1) \<in> live_nodes h" if "good h" for h
  proof -
    have v: "0 < length (g_nodes h)" "1 < length (g_nodes h)" "g_nodes h ! 0 = Some (the (g_nodes h ! 0))" "g_nodes h ! 1 = Some (the (g_nodes h ! 1))"
      using that by (auto simp: good_def rooted_def)
    have "Some (the (g_nodes h ! 0)) \<in> set (g_nodes h)" "Some (the (g_nodes h ! 1)) \<in> set (g_nodes h)"
      using nth_mem [OF v(1)] nth_mem [OF v(2)] unfolding v(3,4) [symmetric] by simp_all
    then show ?thesis using v(3,4) by (simp add: FindNodeId_def live_nodes_def)
  qed
  obtain c1 g1 where g1: "(if \<not> IsSource n g \<and> es_empty (in_edges (node_at g n))
        then obind (AddControlEdge trav (the (FindNodeId 0 g)) n True g) (\<lambda>(_, g1). Done (True, g1)) else Done (changed, g)) = Done (c1, g1)"
      "graph_reachable ops trav g1" "repaired g g1" "IsSource n g \<or> has_in g1 n" "c1 \<longleftrightarrow> changed \<or> grew g g1"
  proof (cases "\<not> IsSource n g \<and> es_empty (in_edges (node_at g n))")
    case True
    then show ?thesis using add_end_edge [OF assms(1,2), of "the (FindNodeId 0 g)" n] ends [OF good] assms(3) that by (auto simp: FindNodeId_def)
  next
    case False
    then show ?thesis using empty_edges(1) [OF good assms(3)] assms(1) that repaired_refl by (auto simp: grew_def)
  qed
  have good1: "good g1" by (rule reachable_good [OF g1(2) assms(2)])
  have n1: "n \<in> live_nodes g1" "IsSink n g1 = IsSink n g" using repaired_ends [OF g1(3) assms(3)] by simp_all
  obtain c2 g2 where g2: "(if \<not> IsSink n g1 \<and> es_empty (out_edges (node_at g1 n))
        then obind (AddControlEdge trav n (the (FindNodeId 1 g1)) True g1) (\<lambda>(_, g2). Done (True, g2)) else Done (c1, g1)) = Done (c2, g2)"
      "graph_reachable ops trav g2" "repaired g1 g2" "IsSink n g \<or> has_out g2 n" "c2 \<longleftrightarrow> c1 \<or> grew g1 g2"
  proof (cases "\<not> IsSink n g1 \<and> es_empty (out_edges (node_at g1 n))")
    case True
    then show ?thesis using add_end_edge [OF g1(2) assms(2) n1(1), of "the (FindNodeId 1 g1)"] ends [OF good1] that by (auto simp: FindNodeId_def)
  next
    case False
    then show ?thesis using empty_edges(2) [OF good1 n1(1)] n1(2) g1(2) that repaired_refl by (auto simp: grew_def)
  qed
  have "fixup_node trav n (changed, g) = Done (c2, g2)" unfolding fixup_node_def prod.case g1(1) obind.simps using g2(1) by simp
  then show ?thesis using g1 g2 repaired_trans [OF g1(3) g2(3)] grew_trans [OF g1(3) g2(3)] repaired_keeps_edges(1) [OF g2(3)] by blast
qed

lemma fixup_nodes_ok:
  "graph_reachable ops trav g \<Longrightarrow> visits_all trav \<Longrightarrow> \<forall>n. Some n \<in> set v \<longrightarrow> n \<in> live_nodes g \<Longrightarrow>
   \<exists>c g'. fixup_nodes trav v (changed, g) = Done (c, g') \<and> graph_reachable ops trav g' \<and> repaired g g' \<and>
     (\<forall>n. Some n \<in> set v \<longrightarrow> (IsSource n g \<or> has_in g' n) \<and> (IsSink n g \<or> has_out g' n)) \<and> (c \<longleftrightarrow> changed \<or> grew g g')"
proof (induction v arbitrary: changed g)
  case Nil
  then show ?case using repaired_refl by auto
next
  case (Cons p v)
  show ?case
  proof (cases p)
    case None
    then show ?thesis using Cons.IH [OF Cons.prems(1,2)] Cons.prems(3) by simp
  next
    case (Some n)
    have n: "n \<in> live_nodes g" using Cons.prems(3) Some by simp
    obtain c1 g1 where g1: "fixup_node trav n (changed, g) = Done (c1, g1)" "graph_reachable ops trav g1" "repaired g g1"
        "IsSource n g \<or> has_in g1 n" "IsSink n g \<or> has_out g1 n" "c1 \<longleftrightarrow> changed \<or> grew g g1"
      using fixup_node_ok [OF Cons.prems(1,2) n] by blast
    have same: "m \<in> live_nodes g1 \<and> IsSource m g1 = IsSource m g \<and> IsSink m g1 = IsSink m g" if "Some m \<in> set v" for m
      using repaired_ends [OF g1(3)] Cons.prems(3) that by simp
    obtain c2 g2 where g2: "fixup_nodes trav v (c1, g1) = Done (c2, g2)" "graph_reachable ops trav g2" "repaired g1 g2"
        "\<forall>n. Some n \<in> set v \<longrightarrow> (IsSource n g1 \<or> has_in g2 n) \<and> (IsSink n g1 \<or> has_out g2 n)" "c2 \<longleftrightarrow> c1 \<or> grew g1 g2"
      using Cons.IH [OF g1(2) Cons.prems(2), of c1] same by blast
    have "(IsSource m g \<or> has_in g2 m) \<and> (IsSink m g \<or> has_out g2 m)" if "Some m \<in> set (p # v)" for m
      using that g1(4,5) g2(4) same repaired_keeps_edges [OF g2(3)] Some by auto
    moreover have "fixup_nodes trav (p # v) (changed, g) = Done (c2, g2)" using Some g1(1) g2(1) by simp
    moreover have "repaired g g2" "c2 \<longleftrightarrow> changed \<or> grew g g2"
      using repaired_trans [OF g1(3) g2(3)] grew_trans [OF g1(3) g2(3)] g1(6) g2(5) by blast+
    ultimately show ?thesis using g2(2) by blast
  qed
qed

text \<open>
  C18: Repair is complete. \<^verbatim>\<open>FixupSourceAndSinkEdges\<close> returns with a graph that is consistent again: it has the nodes and the edges of the one before and, besides, only control
  edges from the source or to the sink; every node but the source has an edge that ends there, every node but the sink one that begins there; and
  the result tells whether an edge was added.
\<close>

theorem fixup_complete:
  assumes "graph_reachable ops trav g" "visits_all trav"
  shows "\<exists>changed g'. FixupSourceAndSinkEdges trav g = Done (changed, g') \<and> graph_reachable ops trav g' \<and> repaired g g' \<and> (changed \<longleftrightarrow> grew g g') \<and>
    (\<forall>n. Some n \<in> set (g_nodes g') \<longrightarrow> (IsSource n g' \<or> has_in g' n) \<and> (IsSink n g' \<or> has_out g' n))"
proof -
  have live: "\<forall>n. Some n \<in> set (g_nodes g) \<longrightarrow> n \<in> live_nodes g" by (simp add: live_nodes_def)
  obtain c g' where g': "fixup_nodes trav (g_nodes g) (False, g) = Done (c, g')" "graph_reachable ops trav g'" "repaired g g'" "c \<longleftrightarrow> grew g g'"
      "\<forall>n. Some n \<in> set (g_nodes g) \<longrightarrow> (IsSource n g \<or> has_in g' n) \<and> (IsSink n g \<or> has_out g' n)"
    using fixup_nodes_ok [OF assms live, of False] by blast
  have "g_nodes g' = g_nodes g" using g'(3) by (simp add: repaired_def)
  then show ?thesis using g' repaired_ends [OF g'(3)] live unfolding FixupSourceAndSinkEdges_def by auto
qed

theorem fixup_complete_witness:
  "\<exists>changed g g'. graph_reachable demo_registry (\<lambda>l. l) g \<and> FixupSourceAndSinkEdges (\<lambda>l. l) g = Done (changed, g') \<and> repaired g g'"
proof -
  obtain g where g: "Graph demo_registry (\<lambda>l. l) = Done g" using demo_graph by blast
  have r: "graph_reachable demo_registry (\<lambda>l. l) g" by (rule graph_reachable.start [OF g])
  have "visits_all (\<lambda>l. l)" by (simp add: visits_all_def)
  from fixup_complete [OF r this] r show ?thesis by blast
qed

end
