(* ===== verification/Spec2Isabelle.thy ===== *)
theory Spec2Isabelle
  imports Coding Bfc_Properties Kernel_Sim_Props Kernel_Sim_Input Trace_Tools Direct_Session Executor_Dag Rendezvous Cancellation_Manager
    Broadcast_Shapes Allocator_Retry Pool_Clients Graph_Def Graph_Prune
begin

text \<open>
  RuntimeTF is a TensorFlow with a changed session that splits every batch, together with the programs its
  authors used to study the co-location of models on one GPU: two that condense profiler traces and a simulator.
  This development models that code and the core of the runtime under it.

  \<^bold>\<open>The parts and how they interact.\<close> A client calls \<^verbatim>\<open>DirectSession::Run\<close> with named tensors; it looks up or builds the
  executors of the request, on graphs that are built, pruned and ordered by \<^verbatim>\<open>core/graph\<close>, cuts the inputs into eight slices and runs one step per slice. A step is a run of
  the dataflow executor: it counts, in a packed table, the inputs each node still waits for, and schedules a node when they are
  there; tensors that leave a device go through a rendezvous under a key that names the edge, and a step that is cancelled
  tells everybody who registered. Kernels get their memory from the BFC allocator, which waits and tries again when it has none, or, on the host,
  from a pool of freed chunks; what a tensor is made of is its shape. Traces of such runs, taken with a profiler, go through \<^verbatim>\<open>Parse_nvprof\<close> and
  \<^verbatim>\<open>PatternAnalysis\<close>; \<^verbatim>\<open>KernelSim\<close> replays them with several applications on one device.

  \<^bold>\<open>The theories.\<close> Sources are under \<^verbatim>\<open>src/\<close>; \<open>CR\<close> stands for \<^verbatim>\<open>tensorflow/tensorflow/core/common_runtime\<close>.

  \<^item> \<open>Prelude\<close>: results of code that can abort (\<open>outcome\<close>, with \<open>Abort\<close> for a failed \<^verbatim>\<open>CHECK\<close>), arithmetic at 64 bits, operations on
    doubles as a record of functions, lemmas on lists and maps.
  \<^item> \<open>Coding\<close>: \<^verbatim>\<open>core/lib/core/coding.cc\<close> and \<^verbatim>\<open>raw_coding.h\<close>, fixed-width and varint encodings of integers as byte lists.
  \<^item> \<open>Bfc_Allocator\<close>: \<^verbatim>\<open>CR/bfc_allocator.h\<close> and \<^verbatim>\<open>.cc\<close>. Chunks, bins, regions and the allocator are records; each
    method is a function on them. \<open>Bfc_Sizes\<close>, \<open>Bfc_Layout\<close>, \<open>Bfc_State\<close>, \<open>Bfc_Steps\<close>, \<open>Bfc_Find\<close>, \<open>Bfc_Free\<close>, \<open>Bfc_Extend\<close> and
    \<open>Bfc_Correct\<close> build its invariant and show that each method keeps it; \<open>Bfc_Properties\<close> has the results.
  \<^item> \<open>Kernel_Sim\<close>: \<^verbatim>\<open>KernelSim/src/App.h\<close> and \<^verbatim>\<open>simColocation\<close> of \<^verbatim>\<open>KernelSim.cpp\<close>, one function per case of the event loop and a step
    function. \<open>Kernel_Sim_Inv\<close>, \<open>Kernel_Sim_Run\<close> and \<open>Kernel_Sim_Props\<close> hold its invariant, its termination and the
    results; \<open>Kernel_Sim_Input\<close> models \<^verbatim>\<open>getInput\<close> and \<^verbatim>\<open>main\<close>.
  \<^item> \<open>Trace_Tools\<close>: \<^verbatim>\<open>Parse_nvprof.cpp\<close> and \<^verbatim>\<open>PatternAnalysis.cpp\<close>, with the input streams they read from.
  \<^item> \<open>Direct_Session\<close>: \<^verbatim>\<open>CR/direct_session.cc\<close> (\<^verbatim>\<open>Run\<close>, \<^verbatim>\<open>GetOrCreateExecutors\<close>, \<^verbatim>\<open>Close\<close>), \<^verbatim>\<open>CR/session_state.cc\<close>, the call frame of
    \<^verbatim>\<open>core/framework/function.cc\<close> and \<^verbatim>\<open>Tensor::Slice\<close>.
  \<^item> \<open>Pending_Counts\<close>: \<^verbatim>\<open>CR/pending_counts.h\<close> on the bytes of the table. The locale \<open>counter_table\<close> is the interface: what is read
    after a write through the same handle or another one. Its interpretation \<open>pc\<close> is on the byte table itself.
  \<^item> \<open>Executor\<close>: \<^verbatim>\<open>CR/executor.cc\<close>, with frames and iterations as records, the methods of \<^verbatim>\<open>FrameState\<close> and \<^verbatim>\<open>ExecutorState\<close> as
    functions, and \<open>exec_step\<close> as the relation that processes any one of the scheduled nodes. \<open>Executor_Node\<close> is about one node and
    the edges that arrive at it, \<open>Executor_Status\<close> about what every run on any graph keeps, \<open>Executor_Dag\<close> about runs on graphs without
    loops.
  \<^item> \<open>Allocator_Retry\<close>: \<^verbatim>\<open>CR/allocator_retry.cc\<close> and \<^verbatim>\<open>BFCAllocator::AllocateRaw\<close> around \<open>Bfc_Allocator\<close>. The locale \<open>retried_alloc\<close>
    has what the loop needs of an allocator; its interpretation \<open>bfc_retry\<close> is on the BFC allocator with other threads at work.
  \<^item> \<open>Pool_Allocator\<close>: \<^verbatim>\<open>CR/pool_allocator.cc\<close>, with the records of pooled chunks in a heap and the prefixes of chunks in memory.
    \<open>Pool_Correct\<close> shows that links and multimap implement a list, \<open>Pool_Clients\<close> what clients see. \<open>Bits\<close>: \<^verbatim>\<open>core/lib/core/bits.h\<close>.
  \<^item> \<open>Tensor_Shape\<close>: \<^verbatim>\<open>core/framework/tensor_shape.h\<close> and \<^verbatim>\<open>.cc\<close> on the sixteen bytes of a shape; \<open>Tensor_Shape_Correct\<close> shows what
    the bytes mean, \<open>Tensor_Shape_Props\<close> has the results.
  \<^item> \<open>Broadcast\<close>: \<^verbatim>\<open>core/util/bcast.cc\<close>, the shapes for binary operations on tensors of different sizes; \<open>Broadcast_Shapes\<close> joins it to
    \<open>Tensor_Shape\<close>.
  \<^item> \<open>Edge_Set\<close>: \<^verbatim>\<open>core/graph/edgeset.cc\<close>. The locale \<open>pointer_set\<close> is what the graph uses of it; its interpretation \<open>es\<close> is on both
    layouts. \<open>Graph_Model\<close>: \<^verbatim>\<open>core/graph/graph.cc\<close>, with nodes and edges as objects that are recycled, devices, node properties and serialisation.
    \<open>Graph_Correct\<close> has its invariant and that each operation keeps it, \<open>Graph_Props\<close> runs of operations as a relation, \<open>Graph_Def\<close> what
    is written to a \<^verbatim>\<open>GraphDef\<close>.
  \<^item> \<open>Graph_Search\<close>: \<^verbatim>\<open>core/graph/algorithm.cc\<close>. \<open>Graph_Search_Correct\<close> shows that the loops with a stack implement a recursive search;
    \<open>Graph_Search_Props\<close> and \<open>Graph_Prune\<close> have the results on graphs.
  \<^item> \<open>Numbers\<close>: integers of \<^verbatim>\<open>core/lib/strings/numbers.cc\<close> as text. \<open>Device_Names\<close>: \<^verbatim>\<open>core/util/device_name_utils.cc\<close>.
  \<^item> \<open>Rendezvous\<close>: \<^verbatim>\<open>core/framework/rendezvous.cc\<close>, keys and the local rendezvous with its queues and references.
  \<^item> \<open>Cancellation_Manager\<close>: \<^verbatim>\<open>core/framework/cancellation.cc\<close>; the parts of each method that run under the lock are the steps of a
    relation, so that threads interleave between them.

  \<^bold>\<open>What is shown.\<close>

  \<^item> Executor: whatever the order of arrivals, exactly one of them finds a node ready; in every run a node is processed at most
    once and, unless it is a Merge, after its predecessors; runs end, without a step through a null pointer, and one that ends with status
    OK has processed every node and deleted its frame; the first error of a kernel is the status of the step. On
    graphs with loops: the counter of outstanding nodes is exact and the end of the step is reported when it reaches zero.
  \<^item> Session: the slices are well-formed and cover the batch up to a multiple of eight rows; the caller gets the outputs of the
    last slice; a scalar input aborts the process.
  \<^item> BFC allocator: requests and releases keep a well-formed state, never hit a \<^verbatim>\<open>CHECK\<close> and behave as an abstract set of
    disjoint live blocks; the search is best fit; free neighbours are always coalesced; statistics are exact; which sizes make the
    back-off loop of \<^verbatim>\<open>Extend\<close> end.
  \<^item> Retry and pool: a request that finds no memory returns, with a new block or after its deadline when no chunk fits; the pool
    keeps the chunks freed last, neither loses nor duplicates a chunk, and hands out aligned blocks inside them.
  \<^item> Shapes: the packed layouts implement lists of sizes; validation, construction and printing to a proto agree; merging is the intersection
    of what partial shapes allow.
  \<^item> Broadcasting: which shapes are compatible, and that joined dimensions pick the same elements as the rule does.
  \<^item> Graphs: after any sequence of operations ids, edge sets, free lists and counts agree and no \<^verbatim>\<open>CHECK\<close> fails; the serialised form does not depend on the
    order of hash sets; searches visit what is reachable, once; the reverse post order is topological; pruning keeps exactly what leads to the
    given nodes; repair connects every node with the source and the sink.
  \<^item> Names and rendezvous: names and keys read back as they were printed; merging of names is the least common specification; messages under a
    key arrive in order, once; every receiver is called; references to device contexts balance.
  \<^item> Cancellation: every callback is pending, was called once or was removed, in every interleaving; what the results of
    \<^verbatim>\<open>DeregisterCallback\<close> promise.
  \<^item> Simulator: one kernel at a time, monotone time, termination with all applications done when arithmetic is exact; what
    \<^verbatim>\<open>getInput\<close> builds; which paths read an empty queue.
  \<^item> Trace tools and encodings: what is printed, in terms of the lines of the input; round trips, lengths and rejection of truncated
    input.

  \<^bold>\<open>Bounds and fuel.\<close> Sizes in the allocator are numbers below \<open>2 ^ 64\<close> with the wrap-around of \<^verbatim>\<open>RoundedBytes\<close> written out; counts in the table wrap
    at the width of their bit fields, and graphs are assumed to have in-degrees below \<open>2 ^ 30\<close>, which the 31-bit fields hold. The loop of \<open>sim_run\<close> takes
    fuel, and a bound on the rounds that suffices is proved; \<open>backpedal_loop\<close> takes fuel because it need not end, and it is
    proved when it does; \<open>CleanupFramesIterations\<close> is a partial function, as the chain of parent frames need not be finite in an arbitrary
    state; a run on a graph without loops never calls it. All other recursion terminates by its definition.

  \<^bold>\<open>Parameters.\<close> Floating-point operations and the reading of doubles, the sub-allocators below both allocators, the clock and the other
    threads that a waiting request sees, the 64-bit hash of keys and the order of the hash tables in the rendezvous and at the nodes of a graph, the registry
    of operations, the sort of neighbours in a search, the creation of
    executors and the execution of a step below the session, and kernels below the executor are arguments of the definitions. What a
    theorem needs of them is among its hypotheses.

  \<^bold>\<open>Not modelled.\<close> Threads are modelled by the interleaving of nodes, callbacks and other users of an allocator, not by locks and condition
    variables; so the blocking \<^verbatim>\<open>Rendezvous::Recv\<close>, which is \<^verbatim>\<open>RecvAsync\<close> with a wait, is left out. Floating-point numbers as text. Of the executor:
    the assignment of nodes to frames by \<^verbatim>\<open>BuildControlFlowInfo\<close>, which is an argument of \<open>Initialize\<close>, the memory layout of \<^verbatim>\<open>GraphView\<close>, the conversion
    between entries and tensors in \<^verbatim>\<open>PrepareInputs\<close> and \<^verbatim>\<open>ProcessOutputs\<close>, statistics and dumps. Of the session: partial runs, callables and
    construction. Of the allocators: logging and debugging output. Of shapes and broadcasting: iterators and the conversion to Eigen. Of
    graphs: function libraries, versions, debug strings. The other parts of TensorFlow (the import of graphs and their optimisation, the distributed runtime, kernels, compilers, device drivers, the Lite runtime and the bindings) are outside of it: they are numeric
    code, interfaces to systems that are not part of the repository, or not touched by what this repository adds.
\<close>

end
